(* ===== verification/Ktl_Prelude.thy ===== *)
theory Ktl_Prelude
  imports Main "HOL-Library.Word" "HOL-Library.Monad_Syntax" "HOL-Library.Code_Target_Numeral"
begin

text \<open>
  Shared material of the development.

  \<^item> Object storage: a buffer of uninitialised memory is a list of \<open>cell\<close>s. A cell is raw
    memory, a live object, or an object that was moved from. The operations of
    \<^verbatim>\<open>memory.hpp\<close> on single objects (\<open>construct_at\<close>, \<open>destroy_at\<close>, assignment) are
    partial: \<open>None\<close> stands for undefined behaviour (an index outside the allocation, a read of
    raw memory, a construction over a live object).
  \<^item> Exceptions: \<open>exn\<close> names the exception types the library throws; an \<open>outcome\<close> is a
    normal return or a throw. An operation on a container returns
    \<open>(outcome, object)\<close>, so the object left behind by a throw is part of the model.
  \<^item> Machine integers: \<open>size_t\<close> is a \<open>nat\<close> with the reduction modulo \<open>2 ^ 64\<close> written out
    where the source computes in \<^verbatim>\<open>size_t\<close>; bytes are \<open>nat\<close>s with the reduction modulo 256
    written out at every \<^verbatim>\<open>static_cast<uint8_t>\<close>.
\<close>

named_theorems mem_simps \<open>evaluation of bounds-checked reads and writes\<close>
named_theorems size_simps \<open>lengths kept by the memory operations\<close>

section \<open>Objects, exceptions, outcomes\<close>

datatype 'a cell = Raw | Moved | Live 'a

datatype exn = OverflowError | OutOfRange | LengthError | BadAlloc

datatype 'a outcome = Ret 'a | Throw exn

abbreviation size_wrap :: "nat \<Rightarrow> nat" where
  "size_wrap n \<equiv> n mod 2 ^ 64"

definition size_max :: nat where
  "size_max = 2 ^ 64 - 1"

section \<open>Bounds-checked memory access\<close>

definition rd :: "'a list \<Rightarrow> nat \<Rightarrow> 'a option" where
  "rd xs i = (if i < length xs then Some (xs ! i) else None)"

definition wr :: "'a list \<Rightarrow> nat \<Rightarrow> 'a \<Rightarrow> 'a list option" where
  "wr xs i v = (if i < length xs then Some (xs[i := v]) else None)"

definition construct_at :: "'a cell list \<Rightarrow> nat \<Rightarrow> 'a \<Rightarrow> 'a cell list option" where
  "construct_at cs i v =
     (case rd cs i of Some Raw \<Rightarrow> Some (cs[i := Live v]) | _ \<Rightarrow> None)"

definition destroy_at :: "'a cell list \<Rightarrow> nat \<Rightarrow> 'a cell list option" where
  "destroy_at cs i =
     (case rd cs i of None \<Rightarrow> None | Some Raw \<Rightarrow> None | Some _ \<Rightarrow> Some (cs[i := Raw]))"

text \<open>\<open>assign_at\<close> is the assignment \<^verbatim>\<open>p[i] = v\<close> to an object, which has to be constructed.\<close>

definition assign_at :: "'a cell list \<Rightarrow> nat \<Rightarrow> 'a \<Rightarrow> 'a cell list option" where
  "assign_at cs i v =
     (case rd cs i of None \<Rightarrow> None | Some Raw \<Rightarrow> None | Some _ \<Rightarrow> Some (cs[i := Live v]))"

definition read_at :: "'a cell list \<Rightarrow> nat \<Rightarrow> 'a option" where
  "read_at cs i = (case rd cs i of Some (Live v) \<Rightarrow> Some v | _ \<Rightarrow> None)"

text \<open>\<open>move_at\<close> is the use of \<^verbatim>\<open>move(p[i])\<close> as a source: the value, and the buffer with the
  moved-from object.\<close>

definition move_at :: "'a cell list \<Rightarrow> nat \<Rightarrow> ('a \<times> 'a cell list) option" where
  "move_at cs i = (case rd cs i of Some (Live v) \<Rightarrow> Some (v, cs[i := Moved]) | _ \<Rightarrow> None)"

lemma rd_Some_iff [mem_simps]: "rd xs i = Some v \<longleftrightarrow> i < length xs \<and> xs ! i = v"
  by (auto simp: rd_def)

lemma rd_None_iff [mem_simps]: "rd xs i = None \<longleftrightarrow> length xs \<le> i"
  by (auto simp: rd_def)

lemma rd_in [simp]: "i < length xs \<Longrightarrow> rd xs i = Some (xs ! i)"
  by (simp add: rd_def)

lemma wr_in [simp]: "i < length xs \<Longrightarrow> wr xs i v = Some (xs[i := v])"
  by (simp add: wr_def)

lemma wr_Some_iff [mem_simps]: "wr xs i v = Some ys \<longleftrightarrow> i < length xs \<and> ys = xs[i := v]"
  by (auto simp: wr_def)

lemma construct_at_raw [simp]:
  "i < length cs \<Longrightarrow> cs ! i = Raw \<Longrightarrow> construct_at cs i v = Some (cs[i := Live v])"
  by (simp add: construct_at_def)

lemma construct_at_Some_iff [mem_simps]:
  "construct_at cs i v = Some ds \<longleftrightarrow> i < length cs \<and> cs ! i = Raw \<and> ds = cs[i := Live v]"
  by (auto simp: construct_at_def mem_simps split: option.splits cell.splits)

lemma destroy_at_obj [simp]:
  "i < length cs \<Longrightarrow> cs ! i \<noteq> Raw \<Longrightarrow> destroy_at cs i = Some (cs[i := Raw])"
  by (cases "cs ! i") (simp_all add: destroy_at_def)

lemma destroy_at_Some_iff [mem_simps]:
  "destroy_at cs i = Some ds \<longleftrightarrow> i < length cs \<and> cs ! i \<noteq> Raw \<and> ds = cs[i := Raw]"
  by (auto simp: destroy_at_def mem_simps split: option.splits cell.splits)

lemma assign_at_obj [simp]:
  "i < length cs \<Longrightarrow> cs ! i \<noteq> Raw \<Longrightarrow> assign_at cs i v = Some (cs[i := Live v])"
  by (cases "cs ! i") (simp_all add: assign_at_def)

lemma assign_at_Some_iff [mem_simps]:
  "assign_at cs i v = Some ds \<longleftrightarrow> i < length cs \<and> cs ! i \<noteq> Raw \<and> ds = cs[i := Live v]"
  by (auto simp: assign_at_def mem_simps split: option.splits cell.splits)

lemma read_at_live [simp]: "i < length cs \<Longrightarrow> cs ! i = Live v \<Longrightarrow> read_at cs i = Some v"
  by (simp add: read_at_def)

lemma read_at_Some_iff [mem_simps]:
  "read_at cs i = Some v \<longleftrightarrow> i < length cs \<and> cs ! i = Live v"
  by (auto simp: read_at_def mem_simps split: option.splits cell.splits)

lemma move_at_live [simp]:
  "i < length cs \<Longrightarrow> cs ! i = Live v \<Longrightarrow> move_at cs i = Some (v, cs[i := Moved])"
  by (simp add: move_at_def)

section \<open>Generic list lemmas\<close>

lemma length_filter_update:
  "i < length xs \<Longrightarrow> \<not> P (xs ! i) \<Longrightarrow> P v \<Longrightarrow>
     length (filter P (xs[i := v])) = Suc (length (filter P xs))"
proof (induction xs arbitrary: i)
  case (Cons x xs)
  then show ?case by (cases i) auto
qed simp

end
