(* ===== verification/Hash_Mix.thy ===== *)
theory Hash_Mix
  imports Ktl_Prelude
begin

unbundle bit_operations_syntax

text \<open>
  \<^verbatim>\<open>include/hash.hpp\<close>: the hash functions the containers use. A \<open>size_t\<close> hash is a
  \<open>64 word\<close>, so multiplication and addition wrap as in the source. A byte range is a list of
  \<open>8 word\<close>s; \<open>load_le\<close> is the little-endian load of \<open>unaligned_load<uint64_t>\<close>.
\<close>

section \<open>Definitions\<close>

text \<open>\<^verbatim>\<open>rotr\<close> of \<^verbatim>\<open>include/utility.hpp\<close>, at \<^verbatim>\<open>T = uint64_t\<close>.\<close>

definition rotr :: "64 word \<Rightarrow> nat \<Rightarrow> 64 word" where
  "rotr x k = drop_bit k x OR push_bit (64 - k) x"

definition hash_int :: "64 word \<Rightarrow> 64 word" where
  "hash_int x =
     (let h1 = x * 0xA24BAED4963EE407;
          h2 = rotr x 32 * 0x9FB21C651E98DF25
      in rotr (h1 + h2) 32)"

fun load_le :: "8 word list \<Rightarrow> 64 word" where
  "load_le [] = 0"
| "load_le (b # bs) = ucast b OR push_bit 8 (load_le bs)"

definition hash_m :: "64 word" where
  "hash_m = 0xc6a4a7935bd1e995"

definition hash_seed :: "64 word" where
  "hash_seed = 0xe17a1465"

definition mix_block :: "64 word \<Rightarrow> 64 word \<Rightarrow> 64 word" where
  "mix_block h k0 =
     (let k1 = k0 * hash_m;
          k2 = k1 XOR drop_bit 47 k1;
          k3 = k2 * hash_m
      in (h XOR k3) * hash_m)"

text \<open>The loop over the full 8-byte blocks: block \<open>i\<close> is at offset \<open>8 * i\<close>.\<close>

fun hash_blocks :: "8 word list \<Rightarrow> nat \<Rightarrow> nat \<Rightarrow> 64 word \<Rightarrow> 64 word" where
  "hash_blocks bytes i 0 h = h"
| "hash_blocks bytes i (Suc n) h =
     hash_blocks bytes (Suc i) n (mix_block h (load_le (take 8 (drop (8 * i) bytes))))"

text \<open>The \<^verbatim>\<open>switch\<close> with fall-through: case \<open>j\<close> mixes byte \<open>j - 1\<close> and falls into case
  \<open>j - 1\<close>; case 1 also multiplies.\<close>

fun hash_tail :: "8 word list \<Rightarrow> nat \<Rightarrow> 64 word \<Rightarrow> 64 word" where
  "hash_tail data8 0 h = h"
| "hash_tail data8 (Suc 0) h = (h XOR ucast (data8 ! 0)) * hash_m"
| "hash_tail data8 (Suc (Suc j)) h =
     hash_tail data8 (Suc j) (h XOR push_bit (8 * Suc j) (ucast (data8 ! Suc j)))"

definition hash_bytes :: "8 word list \<Rightarrow> 64 word" where
  "hash_bytes bytes =
     (let len = length bytes;
          h0 = hash_seed XOR (of_nat len * hash_m);
          n_blocks = len div 8;
          h1 = hash_blocks bytes 0 n_blocks h0;
          h2 = hash_tail (drop (8 * n_blocks) bytes) (len mod 8) h1;
          h3 = h2 XOR drop_bit 47 h2;
          h4 = h3 * hash_m
      in h4 XOR drop_bit 47 h4)"

section \<open>The fall-through switch is one load of the remaining bytes\<close>

lemma bit_ucast8: "bit (ucast (b :: 8 word) :: 64 word) n \<longleftrightarrow> n < 8 \<and> bit b n"
  by (auto simp: bit_simps dest: bit_imp_le_length)

lemma bit_load_le:
  "bit (load_le bs) n \<longleftrightarrow> n < 64 \<and> n div 8 < length bs \<and> bit (bs ! (n div 8)) (n mod 8)"
proof (induction bs arbitrary: n)
  case (Cons b bs)
  show ?case
  proof (cases "n < 8")
    case True
    then show ?thesis by (simp add: bit_or_iff bit_push_bit_iff bit_ucast8)
  next
    case False
    then obtain m where n: "n = 8 + m" by (metis le_add_diff_inverse not_less)
    then have d: "n div 8 = Suc (m div 8)" "n mod 8 = m mod 8" by simp_all
    then show ?thesis using Cons.IH [of m] n False
      by (auto simp: bit_or_iff bit_push_bit_iff bit_ucast8)
  qed
qed simp

lemma load_le_snoc:
  "load_le (bs @ [b]) = load_le bs XOR push_bit (8 * length bs) (ucast b)"
proof (rule bit_word_eqI)
  fix n assume n: "n < LENGTH(64)"
  consider "n div 8 < length bs" | "n div 8 = length bs" | "length bs < n div 8" by linarith
  then show "bit (load_le (bs @ [b])) n = bit (load_le bs XOR push_bit (8 * length bs) (ucast b)) n"
  proof cases
    case 1
    then have "\<not> 8 * length bs \<le> n" by linarith
    then show ?thesis using 1 n by (simp add: bit_load_le bit_xor_iff bit_push_bit_iff nth_append)
  next
    case 2
    then have "8 * length bs \<le> n" "n - 8 * length bs = n mod 8"
      using minus_mult_div_eq_mod [of n 8] div_times_less_eq_dividend [of n 8] by (simp_all add: mult.commute)
    then show ?thesis using 2 n by (simp add: bit_load_le bit_xor_iff bit_push_bit_iff nth_append bit_ucast8)
  next
    case 3
    then have "\<not> n - 8 * length bs < 8" by linarith
    then show ?thesis using 3 n by (simp add: bit_load_le bit_xor_iff bit_push_bit_iff bit_ucast8)
  qed
qed

text \<open>
  The tail of \<^verbatim>\<open>hash_bytes\<close>, a \<^verbatim>\<open>switch\<close> whose cases fall through, mixes the remaining one to seven
  bytes exactly as one little-endian load of them would.
\<close>

theorem hash_tail_eq_load:
  assumes "0 < n" "n \<le> length data8"
  shows "hash_tail data8 n h = (h XOR load_le (take n data8)) * hash_m"
proof -
  have "hash_tail data8 (Suc j) h = (h XOR load_le (take (Suc j) data8)) * hash_m"
    if "Suc j \<le> length data8" for j
    using that
  proof (induction j arbitrary: h)
    case 0
    then show ?case by (cases data8) simp_all
  next
    case (Suc j)
    then have "take (Suc (Suc j)) data8 = take (Suc j) data8 @ [data8 ! Suc j]"
      "length (take (Suc j) data8) = Suc j"
      by (simp_all add: take_Suc_conv_app_nth)
    then show ?case using Suc by (simp add: load_le_snoc ac_simps del: take_Suc_conv_app_nth)
  qed
  then show ?thesis using assms by (cases n) auto
qed

theorem hash_tail_eq_load_witness:
  "hash_tail [1, 2, 3] 3 7 = (7 XOR load_le (take 3 [1, 2, 3])) * hash_m"
  using hash_tail_eq_load [of 3 "[1, 2, 3]" 7] by simp

end
