(* ===== verification/Hash_Table.thy ===== *)
theory Hash_Table
  imports Hash_Mix
begin

unbundle bit_operations_syntax

text \<open>
  \<^verbatim>\<open>include/hash_table_impl.hpp\<close>: the robin-hood hash table \<^verbatim>\<open>Table<IsFlat, ...>\<close> behind
  \<^verbatim>\<open>unordered_map\<close> and \<^verbatim>\<open>unordered_set\<close>, in its flat variant (a node holds the value itself).

  \<^item> The template arguments are the record \<open>table_params\<close>: the \<^verbatim>\<open>Hash\<close> functor and whether it is
    \<^verbatim>\<open>ktl::hash\<close>, the \<^verbatim>\<open>KeyEqual\<close> functor, \<^verbatim>\<open>MaxLoadFactor100\<close>, \<^verbatim>\<open>sizeof(Node)\<close> and the bytes
    allocator. The allocator is code of the client: \<open>p_alloc n b\<close> says whether its \<open>n\<close>-th request,
    for \<open>b\<close> bytes, is granted (otherwise it throws \<^verbatim>\<open>bad_alloc\<close>).
  \<^item> The members are the record \<open>table\<close>. \<open>mKeyVals\<close> is the node array as storage cells, \<open>mInfo\<close>
    the info bytes that follow it in the same allocation (with the sentinel and 7 bytes of
    padding); \<open>mInfo = None\<close> is the state in which both pointers point at the member \<^verbatim>\<open>mMask\<close>.
    \<open>allocs\<close> counts the requests made to the allocator.
  \<^item> An index that leaves the allocation, a key read from raw memory and a write through the
    \<^verbatim>\<open>mMask\<close> pointer are undefined behaviour, \<open>None\<close>.
  \<^item> Node pointers and iterators are indices into the node array; \<^verbatim>\<open>end()\<close>, which is
    \<^verbatim>\<open>reinterpret_cast<Node*>(mInfo)\<close>, is the length of the node array.
\<close>

section \<open>Template parameters and members\<close>

record 'k table_params =
  p_hash :: "'k \<Rightarrow> 64 word"
  p_is_ktl_hash :: bool
  p_key_eq :: "'k \<Rightarrow> 'k \<Rightarrow> bool"
  p_max_load :: nat
  p_sizeof_node :: nat
  p_alloc :: "nat \<Rightarrow> nat \<Rightarrow> bool"

record ('k, 'v) table =
  mKeyVals :: "('k \<times> 'v) cell list"
  mInfo :: "nat list option"
  mNumElements :: nat
  mMask :: nat
  mMaxNumElementsAllowed :: nat
  mInfoInc :: nat
  mInfoHashShift :: nat
  allocs :: nat

definition InitialNumElements :: nat where "InitialNumElements = 8"
definition InitialInfoNumBits :: nat where "InitialInfoNumBits = 5"
definition InitialInfoInc :: nat where "InitialInfoInc = 32"
definition InfoMask :: "64 word" where "InfoMask = 31"
definition InitialInfoHashShift :: nat where "InitialInfoHashShift = 0"

text \<open>The eight bytes of a \<^verbatim>\<open>uint64_t\<close> in memory, and the value they hold (little endian).\<close>

definition bytes64 :: "nat \<Rightarrow> nat list" where
  "bytes64 v = map (\<lambda>j. v div 256 ^ j mod 256) [0..<8]"

fun val_bytes :: "nat list \<Rightarrow> nat" where
  "val_bytes [] = 0"
| "val_bytes (b # bs) = b + 256 * val_bytes bs"

definition load64 :: "nat list \<Rightarrow> nat \<Rightarrow> nat option" where
  "load64 bs i = (if i + 8 \<le> length bs then Some (val_bytes (take 8 (drop i bs))) else None)"

definition store64 :: "nat list \<Rightarrow> nat \<Rightarrow> nat \<Rightarrow> nat list option" where
  "store64 bs i v =
     (if i + 8 \<le> length bs then Some (take i bs @ bytes64 v @ drop (i + 8) bs) else None)"

text \<open>What \<open>mInfo\<close> points at: the info bytes of the allocation, or the bytes of \<open>mMask\<close>.\<close>

definition infos :: "('k, 'v) table \<Rightarrow> nat list" where
  "infos t = (case mInfo t of None \<Rightarrow> bytes64 (mMask t) | Some xs \<Rightarrow> xs)"

definition wr_info :: "('k, 'v) table \<Rightarrow> nat \<Rightarrow> nat \<Rightarrow> ('k, 'v) table option" where
  "wr_info t i v =
     (case mInfo t of None \<Rightarrow> None
      | Some xs \<Rightarrow> (case wr xs i v of None \<Rightarrow> None | Some ys \<Rightarrow> Some (t\<lparr>mInfo := Some ys\<rparr>)))"

section \<open>Sizes\<close>

definition calcMaxNumElementsAllowed :: "'k table_params \<Rightarrow> nat \<Rightarrow> nat" where
  "calcMaxNumElementsAllowed P maxElements =
     (if maxElements \<le> size_max div 100
      then size_wrap (maxElements * p_max_load P) div 100
      else size_wrap (maxElements div 100 * p_max_load P))"

definition calcNumBytesInfo :: "nat \<Rightarrow> nat" where
  "calcNumBytesInfo numElements = size_wrap (numElements + 8)"

definition calcNumElementsWithBuffer :: "'k table_params \<Rightarrow> nat \<Rightarrow> nat" where
  "calcNumElementsWithBuffer P numElements =
     size_wrap (numElements + min (calcMaxNumElementsAllowed P numElements) 255)"

definition calcNumBytesTotal :: "'k table_params \<Rightarrow> nat \<Rightarrow> nat" where
  "calcNumBytesTotal P numElements =
     size_wrap (numElements * p_sizeof_node P + calcNumBytesInfo numElements)"

section \<open>Construction\<close>

text \<open>The default member initialisers, and \<^verbatim>\<open>init()\<close>.\<close>

definition init :: "('k, 'v) table \<Rightarrow> ('k, 'v) table" where
  "init t = t\<lparr>mKeyVals := [], mInfo := None, mNumElements := 0, mMask := 0,
     mMaxNumElementsAllowed := 0, mInfoInc := InitialInfoInc,
     mInfoHashShift := InitialInfoHashShift\<rparr>"

definition empty_table :: "('k, 'v) table" where
  "empty_table = \<lparr>mKeyVals = [], mInfo = None, mNumElements = 0, mMask = 0,
     mMaxNumElementsAllowed = 0, mInfoInc = InitialInfoInc,
     mInfoHashShift = InitialInfoHashShift, allocs = 0\<rparr>"

text \<open>
  \<^verbatim>\<open>init_data\<close> writes the counters before it asks for memory, and the pointers after it. When the
  byte count has wrapped around, the block is smaller than the arrays and the sentinel is
  written outside it.
\<close>

definition init_data ::
  "'k table_params \<Rightarrow> ('k, 'v) table \<Rightarrow> nat \<Rightarrow> (unit outcome \<times> ('k, 'v) table) option" where
  "init_data P t max_elements =
     (let t1 = t\<lparr>mNumElements := 0, mMask := size_wrap (max_elements + (2 ^ 64 - 1)),
                 mMaxNumElementsAllowed := calcMaxNumElementsAllowed P max_elements\<rparr>;
          n = calcNumElementsWithBuffer P max_elements;
          numBytesTotal = calcNumBytesTotal P n;
          t2 = t1\<lparr>allocs := Suc (allocs t1)\<rparr>
      in if \<not> p_alloc P (allocs t1) numBytesTotal then Some (Throw BadAlloc, t2)
         else if numBytesTotal \<noteq> n * p_sizeof_node P + (n + 8) then None
         else Some (Ret (), t2\<lparr>mKeyVals := replicate n Raw,
                               mInfo := Some ((replicate (n + 8) 0)[n := 1]),
                               mInfoInc := InitialInfoInc,
                               mInfoHashShift := InitialInfoHashShift\<rparr>))"

section \<open>Hashing and probing\<close>

text \<open>\<^verbatim>\<open>Mix{}(WHash::operator()(key))\<close>: a foreign hash function is mixed with \<open>hash_int\<close>.\<close>

definition mixed_hash :: "'k table_params \<Rightarrow> 'k \<Rightarrow> 64 word" where
  "mixed_hash P key = (if p_is_ktl_hash P then p_hash P key else hash_int (p_hash P key))"

definition keyToIdx :: "'k table_params \<Rightarrow> ('k, 'v) table \<Rightarrow> 'k \<Rightarrow> nat \<times> nat" where
  "keyToIdx P t key =
     (let h = mixed_hash P key
      in (unat (drop_bit InitialInfoNumBits h AND of_nat (mMask t)),
          (mInfoInc t + unat (drop_bit (mInfoHashShift t) (h AND InfoMask))) mod 2 ^ 32))"

definition next_info :: "('k, 'v) table \<Rightarrow> nat \<Rightarrow> nat" where
  "next_info t info = (info + mInfoInc t) mod 2 ^ 32"

function nextWhileLess :: "('k, 'v) table \<Rightarrow> nat \<Rightarrow> nat \<Rightarrow> (nat \<times> nat) option" where
  "nextWhileLess t idx info =
     (case rd (infos t) idx of None \<Rightarrow> None
      | Some b \<Rightarrow> if info < b then nextWhileLess t (Suc idx) (next_info t info)
                 else Some (idx, info))"
  by pat_completeness auto
termination
  by (relation "measure (\<lambda>(t, idx, info). length (infos t) - idx)") (auto simp: mem_simps)

text \<open>The comparison \<^verbatim>\<open>info == mInfo[idx] && WKeyEqual::operator()(key, mKeyVals[idx].getFirst())\<close>.\<close>

definition match_at ::
  "'k table_params \<Rightarrow> ('k, 'v) table \<Rightarrow> 'k \<Rightarrow> nat \<Rightarrow> nat \<Rightarrow> bool option" where
  "match_at P t key idx info =
     (case rd (infos t) idx of None \<Rightarrow> None
      | Some b \<Rightarrow> if info = b
          then (case read_at (mKeyVals t) idx of None \<Rightarrow> None
                | Some kv \<Rightarrow> Some (p_key_eq P key (fst kv)))
          else Some False)"

function findIdx_loop ::
  "'k table_params \<Rightarrow> ('k, 'v) table \<Rightarrow> 'k \<Rightarrow> nat \<Rightarrow> nat \<Rightarrow> nat option option" where
  "findIdx_loop P t key idx info =
     (case match_at P t key idx info of None \<Rightarrow> None
      | Some True \<Rightarrow> Some (Some idx)
      | Some False \<Rightarrow>
        (case match_at P t key (Suc idx) (next_info t info) of None \<Rightarrow> None
         | Some True \<Rightarrow> Some (Some (Suc idx))
         | Some False \<Rightarrow>
           (case rd (infos t) (Suc (Suc idx)) of None \<Rightarrow> None
            | Some b \<Rightarrow> if next_info t (next_info t info) \<le> b
                then findIdx_loop P t key (Suc (Suc idx)) (next_info t (next_info t info))
                else Some None)))"
  by pat_completeness auto
termination
  by (relation "measure (\<lambda>(P, t, key, idx, info). length (infos t) - idx)")
     (auto simp: mem_simps)

definition end_idx :: "('k, 'v) table \<Rightarrow> nat" where
  "end_idx t = length (mKeyVals t)"

definition findIdx :: "'k table_params \<Rightarrow> ('k, 'v) table \<Rightarrow> 'k \<Rightarrow> nat option" where
  "findIdx P t key =
     (let (idx, info) = keyToIdx P t key
      in case findIdx_loop P t key idx info of None \<Rightarrow> None
         | Some (Some i) \<Rightarrow> Some i
         | Some None \<Rightarrow> Some (if mMask t = 0 then 0 else end_idx t))"

declare nextWhileLess.simps [simp del] findIdx_loop.simps [simp del]

section \<open>Moving nodes\<close>

text \<open>\<^verbatim>\<open>while (--idx != insertion_idx) mKeyVals[idx] = move(mKeyVals[idx - 1])\<close>, entered with the
  value of \<open>idx\<close> before the decrement.\<close>

fun shiftUp_moves :: "'a cell list \<Rightarrow> nat \<Rightarrow> nat \<Rightarrow> 'a cell list option" where
  "shiftUp_moves cs 0 ins = None"
| "shiftUp_moves cs (Suc idx) ins =
     (if idx = ins then Some cs
      else if idx = 0 then None
      else (case move_at cs (idx - 1) of None \<Rightarrow> None
            | Some (v, cs1) \<Rightarrow>
              (case assign_at cs1 idx v of None \<Rightarrow> None
               | Some cs2 \<Rightarrow> shiftUp_moves cs2 idx ins)))"

text \<open>The second loop of \<^verbatim>\<open>shiftUp\<close>: the info bytes, with the overflow check.\<close>

fun shiftUp_infos :: "('k, 'v) table \<Rightarrow> nat \<Rightarrow> nat \<Rightarrow> ('k, 'v) table option" where
  "shiftUp_infos t idx ins =
     (if idx = ins then Some t
      else if idx = 0 then None
      else (case rd (infos t) (idx - 1) of None \<Rightarrow> None
            | Some b \<Rightarrow>
              (let b' = (b + mInfoInc t) mod 256
               in case wr_info t idx b' of None \<Rightarrow> None
                  | Some t1 \<Rightarrow>
                    (let t2 = (if b' + mInfoInc t > 255
                               then t1\<lparr>mMaxNumElementsAllowed := 0\<rparr> else t1)
                     in shiftUp_infos t2 (idx - 1) ins))))"

definition shiftUp :: "('k, 'v) table \<Rightarrow> nat \<Rightarrow> nat \<Rightarrow> ('k, 'v) table option" where
  "shiftUp t startIdx insertion_idx =
     (if startIdx = 0 then None
      else do {
        (v, cs1) \<leftarrow> move_at (mKeyVals t) (startIdx - 1);
        cs2 \<leftarrow> construct_at cs1 startIdx v;
        cs3 \<leftarrow> shiftUp_moves cs2 startIdx insertion_idx;
        shiftUp_infos (t\<lparr>mKeyVals := cs3\<rparr>) startIdx insertion_idx
      })"

function shiftDown_loop ::
  "('k, 'v) table \<Rightarrow> nat \<Rightarrow> (('k, 'v) table \<times> nat) option" where
  "shiftDown_loop t idx =
     (case rd (infos t) (Suc idx) of None \<Rightarrow> None
      | Some b \<Rightarrow>
        if 2 * mInfoInc t \<le> b
        then (case wr_info t idx ((b - mInfoInc t) mod 256) of None \<Rightarrow> None
              | Some t1 \<Rightarrow>
                (case move_at (mKeyVals t1) (Suc idx) of None \<Rightarrow> None
                 | Some (v, cs1) \<Rightarrow>
                   (case assign_at cs1 idx v of None \<Rightarrow> None
                    | Some cs2 \<Rightarrow> shiftDown_loop (t1\<lparr>mKeyVals := cs2\<rparr>) (Suc idx))))
        else Some (t, idx))"
  by pat_completeness auto
termination
  by (relation "measure (\<lambda>(t, idx). length (infos t) - idx)")
     (auto simp: mem_simps wr_info_def infos_def split: option.splits)

declare shiftUp_infos.simps [simp del] shiftDown_loop.simps [simp del]

definition shiftDown :: "('k, 'v) table \<Rightarrow> nat \<Rightarrow> ('k, 'v) table option" where
  "shiftDown t idx =
     do {
       (t1, last) \<leftarrow> shiftDown_loop t idx;
       t2 \<leftarrow> wr_info t1 last 0;
       cs \<leftarrow> destroy_at (mKeyVals t2) last;
       Some (t2\<lparr>mKeyVals := cs\<rparr>)
     }"

section \<open>Placing a new node\<close>

text \<open>\<^verbatim>\<open>while (0 != mInfo[idx]) next(&info, &idx)\<close>; the info is not used afterwards.\<close>

function find_empty :: "('k, 'v) table \<Rightarrow> nat \<Rightarrow> nat option" where
  "find_empty t idx =
     (case rd (infos t) idx of None \<Rightarrow> None
      | Some b \<Rightarrow> if b \<noteq> 0 then find_empty t (Suc idx) else Some idx)"
  by pat_completeness auto
termination
  by (relation "measure (\<lambda>(t, idx). length (infos t) - idx)") (auto simp: mem_simps)

text \<open>
  The common tail of \<^verbatim>\<open>insert_move\<close>, \<^verbatim>\<open>doCreateByKey\<close> and \<^verbatim>\<open>doInsert\<close>: from "key not found, so we
  are now exactly where we want to insert it" to \<^verbatim>\<open>++mNumElements\<close>.
\<close>

definition place_node ::
  "('k, 'v) table \<Rightarrow> nat \<Rightarrow> nat \<Rightarrow> 'k \<times> 'v \<Rightarrow> ('k, 'v) table option" where
  "place_node t insertion_idx insertion_info kv =
     (let t1 = (if insertion_info + mInfoInc t > 255
                then t\<lparr>mMaxNumElementsAllowed := 0\<rparr> else t)
      in do {
        idx \<leftarrow> find_empty t1 insertion_idx;
        t2 \<leftarrow> (if idx = insertion_idx
               then do { cs \<leftarrow> construct_at (mKeyVals t1) insertion_idx kv;
                         Some (t1\<lparr>mKeyVals := cs\<rparr>) }
               else do { t' \<leftarrow> shiftUp t1 idx insertion_idx;
                         cs \<leftarrow> assign_at (mKeyVals t') insertion_idx kv;
                         Some (t'\<lparr>mKeyVals := cs\<rparr>) });
        t3 \<leftarrow> wr_info t2 insertion_idx (insertion_info mod 256);
        Some (t3\<lparr>mNumElements := size_wrap (mNumElements t3 + 1)\<rparr>)
      })"

section \<open>Growing\<close>

text \<open>\<^verbatim>\<open>try_increase_info\<close>: eight info bytes at a time are shifted right by one, with the bits that
  cross a byte boundary masked off.\<close>

function halve_infos :: "nat list \<Rightarrow> nat \<Rightarrow> nat \<Rightarrow> nat list option" where
  "halve_infos bs i n =
     (if i < n
      then (case load64 bs i of None \<Rightarrow> None
            | Some val \<Rightarrow>
              (case store64 bs i (val div 2 AND 0x7f7f7f7f7f7f7f7f) of None \<Rightarrow> None
               | Some bs' \<Rightarrow> halve_infos bs' (i + 8) n))
      else Some bs)"
  by pat_completeness auto
termination
  by (relation "measure (\<lambda>(bs, i, n). n - i)") auto

definition try_increase_info ::
  "'k table_params \<Rightarrow> ('k, 'v) table \<Rightarrow> (bool \<times> ('k, 'v) table) option" where
  "try_increase_info P t =
     (if mInfoInc t \<le> 2 then Some (False, t)
      else let t1 = t\<lparr>mInfoInc := mInfoInc t div 2 mod 256,
                      mInfoHashShift := Suc (mInfoHashShift t)\<rparr>;
               n = calcNumElementsWithBuffer P (size_wrap (mMask t + 1))
           in case mInfo t1 of None \<Rightarrow> None
              | Some bs \<Rightarrow> do {
                  bs1 \<leftarrow> halve_infos bs 0 n;
                  bs2 \<leftarrow> wr bs1 n 1;
                  Some (True, t1\<lparr>mInfo := Some bs2,
                                 mMaxNumElementsAllowed :=
                                   calcMaxNumElementsAllowed P (size_wrap (mMask t + 1))\<rparr>)
                })"

function skip_le :: "('k, 'v) table \<Rightarrow> nat \<Rightarrow> nat \<Rightarrow> (nat \<times> nat) option" where
  "skip_le t idx info =
     (case rd (infos t) idx of None \<Rightarrow> None
      | Some b \<Rightarrow> if info \<le> b then skip_le t (Suc idx) (next_info t info) else Some (idx, info))"
  by pat_completeness auto
termination
  by (relation "measure (\<lambda>(t, idx, info). length (infos t) - idx)") (auto simp: mem_simps)

definition insert_move ::
  "'k table_params \<Rightarrow> ('k, 'v) table \<Rightarrow> 'k \<times> 'v \<Rightarrow> (nat outcome \<times> ('k, 'v) table) option" where
  "insert_move P t keyval =
     do {
       (ok, t1) \<leftarrow> (if mMaxNumElementsAllowed t = 0 then try_increase_info P t else Some (True, t));
       if \<not> ok then Some (Throw OverflowError, t1)
       else do {
         (insertion_idx, info) \<leftarrow>
           (let (idx, info) = keyToIdx P t1 (fst keyval) in skip_le t1 idx info);
         t2 \<leftarrow> place_node t1 insertion_idx (info mod 256) keyval;
         Some (Ret insertion_idx, t2)
       }
     }"

text \<open>The loop of \<^verbatim>\<open>rehashPowerOfTwo\<close> over the old arrays: an exception leaves it.\<close>

fun rehash_loop ::
  "'k table_params \<Rightarrow> ('k \<times> 'v) cell list \<Rightarrow> nat list \<Rightarrow> nat \<Rightarrow> nat \<Rightarrow> ('k, 'v) table \<Rightarrow>
     (unit outcome \<times> ('k, 'v) table) option" where
  "rehash_loop P oldKeyVals oldInfo i 0 t = Some (Ret (), t)"
| "rehash_loop P oldKeyVals oldInfo i (Suc n) t =
     (case rd oldInfo i of None \<Rightarrow> None
      | Some b \<Rightarrow>
        if b \<noteq> 0
        then (case move_at oldKeyVals i of None \<Rightarrow> None
              | Some (kv, old1) \<Rightarrow>
                (case insert_move P t kv of None \<Rightarrow> None
                 | Some (Throw e, t1) \<Rightarrow> Some (Throw e, t1)
                 | Some (Ret _, t1) \<Rightarrow>
                   (case destroy_at old1 i of None \<Rightarrow> None
                    | Some old2 \<Rightarrow> rehash_loop P old2 oldInfo (Suc i) n t1)))
        else rehash_loop P oldKeyVals oldInfo (Suc i) n t)"

definition rehashPowerOfTwo ::
  "'k table_params \<Rightarrow> ('k, 'v) table \<Rightarrow> nat \<Rightarrow> (unit outcome \<times> ('k, 'v) table) option" where
  "rehashPowerOfTwo P t numBuckets =
     (let oldKeyVals = mKeyVals t; oldInfo = infos t;
          oldMaxElementsWithBuffer = calcNumElementsWithBuffer P (size_wrap (mMask t + 1))
      in case init_data P t numBuckets of None \<Rightarrow> None
         | Some (Throw e, t1) \<Rightarrow> Some (Throw e, t1)
         | Some (Ret _, t1) \<Rightarrow>
             if oldMaxElementsWithBuffer > 1
             then rehash_loop P oldKeyVals oldInfo 0 oldMaxElementsWithBuffer t1
             else Some (Ret (), t1))"

definition increase_size ::
  "'k table_params \<Rightarrow> ('k, 'v) table \<Rightarrow> (unit outcome \<times> ('k, 'v) table) option" where
  "increase_size P t =
     (if mMask t = 0 then init_data P t InitialNumElements
      else let maxAllowed = calcMaxNumElementsAllowed P (size_wrap (mMask t + 1))
           in do {
             (ok, t1) \<leftarrow> (if mNumElements t < maxAllowed then try_increase_info P t
                          else Some (False, t));
             if ok then Some (Ret (), t1)
             else if size_wrap (mNumElements t1 * 2) < maxAllowed then Some (Throw OverflowError, t1)
             else rehashPowerOfTwo P t1 (size_wrap (size_wrap (mMask t1 + 1) * 2))
           })"

section \<open>Insertion\<close>

text \<open>\<^verbatim>\<open>while (info == mInfo[idx]) { if (equal) return ...; next(...); }\<close>: \<open>Inl idx\<close> for a match,
  \<open>Inr\<close> for the position where the loop ends.\<close>

function match_loop ::
  "'k table_params \<Rightarrow> ('k, 'v) table \<Rightarrow> 'k \<Rightarrow> nat \<Rightarrow> nat \<Rightarrow> (nat + nat \<times> nat) option" where
  "match_loop P t key idx info =
     (case rd (infos t) idx of None \<Rightarrow> None
      | Some b \<Rightarrow>
        if info = b
        then (case match_at P t key idx info of None \<Rightarrow> None
              | Some True \<Rightarrow> Some (Inl idx)
              | Some False \<Rightarrow> match_loop P t key (Suc idx) (next_info t info))
        else Some (Inr (idx, info)))"
  by pat_completeness auto
termination
  by (relation "measure (\<lambda>(P, t, key, idx, info). length (infos t) - idx)") (auto simp: mem_simps)

declare find_empty.simps [simp del] halve_infos.simps [simp del] skip_le.simps [simp del]
  match_loop.simps [simp del]

definition probe_insert ::
  "'k table_params \<Rightarrow> ('k, 'v) table \<Rightarrow> 'k \<Rightarrow> (nat + nat \<times> nat) option" where
  "probe_insert P t key =
     do {
       (idx, info) \<leftarrow> (let (i, f) = keyToIdx P t key in nextWhileLess t i f);
       match_loop P t key idx info
     }"

text \<open>
  \<^verbatim>\<open>doInsert\<close>: the \<^verbatim>\<open>while (true)\<close> loop repeats after \<^verbatim>\<open>increase_size()\<close>. The first argument bounds
  the number of rounds; \<open>doInsert_returns\<close> below shows that the bound is never reached.
  The result is the index of the node and whether it was inserted.
\<close>

fun doInsert_loop ::
  "nat \<Rightarrow> 'k table_params \<Rightarrow> ('k, 'v) table \<Rightarrow> 'k \<times> 'v \<Rightarrow>
     ((nat \<times> bool) outcome \<times> ('k, 'v) table) option" where
  "doInsert_loop 0 P t keyval = None"
| "doInsert_loop (Suc rounds) P t keyval =
     (case probe_insert P t (fst keyval) of None \<Rightarrow> None
      | Some (Inl idx) \<Rightarrow> Some (Ret (idx, False), t)
      | Some (Inr (idx, info)) \<Rightarrow>
        if mMaxNumElementsAllowed t \<le> mNumElements t
        then (case increase_size P t of None \<Rightarrow> None
              | Some (Throw e, t1) \<Rightarrow> Some (Throw e, t1)
              | Some (Ret _, t1) \<Rightarrow> doInsert_loop rounds P t1 keyval)
        else (case place_node t idx info keyval of None \<Rightarrow> None
              | Some t1 \<Rightarrow> Some (Ret (idx, True), t1)))"

definition max_rounds :: nat where "max_rounds = 6"

definition doInsert ::
  "'k table_params \<Rightarrow> ('k, 'v) table \<Rightarrow> 'k \<times> 'v \<Rightarrow>
     ((nat \<times> bool) outcome \<times> ('k, 'v) table) option" where
  "doInsert P t keyval = doInsert_loop max_rounds P t keyval"

text \<open>\<^verbatim>\<open>doCreateByKey\<close> is the same code with a value-initialised mapped object; it returns a
  reference to the mapped object, here the index of its node.\<close>

definition doCreateByKey ::
  "'k table_params \<Rightarrow> 'v \<Rightarrow> ('k, 'v) table \<Rightarrow> 'k \<Rightarrow> (nat outcome \<times> ('k, 'v) table) option" where
  "doCreateByKey P dflt t key =
     (case doInsert P t (key, dflt) of None \<Rightarrow> None
      | Some (Throw e, t1) \<Rightarrow> Some (Throw e, t1)
      | Some (Ret (idx, _), t1) \<Rightarrow> Some (Ret idx, t1))"

section \<open>Lookup\<close>

definition count_key :: "'k table_params \<Rightarrow> ('k, 'v) table \<Rightarrow> 'k \<Rightarrow> nat option" where
  "count_key P t key =
     (case findIdx P t key of None \<Rightarrow> None
      | Some kv \<Rightarrow> Some (if kv \<noteq> end_idx t then 1 else 0))"

definition contains :: "'k table_params \<Rightarrow> ('k, 'v) table \<Rightarrow> 'k \<Rightarrow> bool option" where
  "contains P t key = map_option (\<lambda>n. n \<noteq> 0) (count_key P t key)"

text \<open>\<open>find\<close> returns an iterator, here the index of the node, \<open>end_idx\<close> when there is none.\<close>

definition find_key :: "'k table_params \<Rightarrow> ('k, 'v) table \<Rightarrow> 'k \<Rightarrow> nat option" where
  "find_key P t key = findIdx P t key"

definition at_key :: "'k table_params \<Rightarrow> ('k, 'v) table \<Rightarrow> 'k \<Rightarrow> 'v outcome option" where
  "at_key P t key =
     (case findIdx P t key of None \<Rightarrow> None
      | Some kv \<Rightarrow>
        if kv = end_idx t then Some (Throw OutOfRange)
        else map_option (\<lambda>e. Ret (snd e)) (read_at (mKeyVals t) kv))"

definition is_empty :: "('k, 'v) table \<Rightarrow> bool" where
  "is_empty t \<longleftrightarrow> mNumElements t = 0"

section \<open>Iteration\<close>

text \<open>\<^verbatim>\<open>COUNT_TRAILING_ZEROES\<close> of a \<^verbatim>\<open>size_t\<close>.\<close>

function ctz :: "nat \<Rightarrow> nat" where
  "ctz n = (if n = 0 then 64 else if odd n then 0 else Suc (ctz (n div 2)))"
  by pat_completeness auto
termination
  by (relation "measure id") auto

declare ctz.simps [simp del]

text \<open>\<^verbatim>\<open>fastForward\<close>: skips free nodes eight info bytes at a time.\<close>

function fastForward :: "('k, 'v) table \<Rightarrow> nat \<Rightarrow> nat option" where
  "fastForward t pos =
     (case load64 (infos t) pos of None \<Rightarrow> None
      | Some n \<Rightarrow> if n = 0 then fastForward t (pos + 8) else Some (pos + ctz n div 8))"
  by pat_completeness auto
termination
  by (relation "measure (\<lambda>(t, pos). length (infos t) - pos)")
     (auto simp: load64_def split: if_splits)

declare fastForward.simps [simp del]

definition begin_idx :: "('k, 'v) table \<Rightarrow> nat option" where
  "begin_idx t = (if is_empty t then Some (end_idx t) else fastForward t 0)"

definition next_idx :: "('k, 'v) table \<Rightarrow> nat \<Rightarrow> nat option" where
  "next_idx t pos = fastForward t (Suc pos)"

text \<open>The range-for loop \<^verbatim>\<open>for (auto const& e : table)\<close>: the entries from position \<open>pos\<close> on. The
  fuel bounds the number of entries.\<close>

fun iterate :: "nat \<Rightarrow> ('k, 'v) table \<Rightarrow> nat \<Rightarrow> ('k \<times> 'v) list option" where
  "iterate 0 t pos = None"
| "iterate (Suc fuel) t pos =
     (if pos = end_idx t then Some []
      else do { e \<leftarrow> read_at (mKeyVals t) pos;
                pos' \<leftarrow> next_idx t pos;
                es \<leftarrow> iterate fuel t pos';
                Some (e # es) })"

definition entries :: "('k, 'v) table \<Rightarrow> ('k \<times> 'v) list option" where
  "entries t = do { b \<leftarrow> begin_idx t; iterate (Suc (length (mKeyVals t))) t b }"

section \<open>Erasing\<close>

function erase_loop ::
  "'k table_params \<Rightarrow> ('k, 'v) table \<Rightarrow> 'k \<Rightarrow> nat \<Rightarrow> nat \<Rightarrow> (nat \<times> ('k, 'v) table) option" where
  "erase_loop P t key idx info =
     (case match_at P t key idx info of None \<Rightarrow> None
      | Some True \<Rightarrow>
          (case shiftDown t idx of None \<Rightarrow> None
           | Some t1 \<Rightarrow>
               Some (1, t1\<lparr>mNumElements := size_wrap (mNumElements t1 + (2 ^ 64 - 1))\<rparr>))
      | Some False \<Rightarrow>
          (case rd (infos t) (Suc idx) of None \<Rightarrow> None
           | Some b \<Rightarrow> if next_info t info \<le> b
               then erase_loop P t key (Suc idx) (next_info t info)
               else Some (0, t)))"
  by pat_completeness auto
termination
  by (relation "measure (\<lambda>(P, t, key, idx, info). length (infos t) - idx)") (auto simp: mem_simps)

declare erase_loop.simps [simp del]

definition erase_key ::
  "'k table_params \<Rightarrow> ('k, 'v) table \<Rightarrow> 'k \<Rightarrow> (nat \<times> ('k, 'v) table) option" where
  "erase_key P t key = (let (idx, info) = keyToIdx P t key in erase_loop P t key idx info)"

text \<open>\<^verbatim>\<open>erase(iterator)\<close>: the iterator to the next element is \<open>pos\<close> itself after a backward shift.\<close>

definition erase_at :: "('k, 'v) table \<Rightarrow> nat \<Rightarrow> (nat \<times> ('k, 'v) table) option" where
  "erase_at t pos =
     do {
       t1 \<leftarrow> shiftDown t pos;
       b \<leftarrow> rd (infos t1) pos;
       pos' \<leftarrow> (if b \<noteq> 0 then Some pos else next_idx t1 pos);
       Some (pos', t1\<lparr>mNumElements := size_wrap (mNumElements t1 + (2 ^ 64 - 1))\<rparr>)
     }"

section \<open>The other modifiers\<close>

definition emplace ::
  "'k table_params \<Rightarrow> ('k, 'v) table \<Rightarrow> 'k \<times> 'v \<Rightarrow>
     ((nat \<times> bool) outcome \<times> ('k, 'v) table) option" where
  "emplace P t kv = doInsert P t kv"

definition try_emplace ::
  "'k table_params \<Rightarrow> ('k, 'v) table \<Rightarrow> 'k \<Rightarrow> 'v \<Rightarrow>
     ((nat \<times> bool) outcome \<times> ('k, 'v) table) option" where
  "try_emplace P t key v =
     (case find_key P t key of None \<Rightarrow> None
      | Some it \<Rightarrow> if it = end_idx t then emplace P t (key, v) else Some (Ret (it, False), t))"

definition insert_or_assign ::
  "'k table_params \<Rightarrow> ('k, 'v) table \<Rightarrow> 'k \<Rightarrow> 'v \<Rightarrow>
     ((nat \<times> bool) outcome \<times> ('k, 'v) table) option" where
  "insert_or_assign P t key obj =
     (case find_key P t key of None \<Rightarrow> None
      | Some it \<Rightarrow>
        if it = end_idx t then emplace P t (key, obj)
        else do { kv \<leftarrow> read_at (mKeyVals t) it;
                  cs \<leftarrow> assign_at (mKeyVals t) it (fst kv, obj);
                  Some (Ret (it, False), t\<lparr>mKeyVals := cs\<rparr>) })"

fun insert_range ::
  "'k table_params \<Rightarrow> ('k, 'v) table \<Rightarrow> ('k \<times> 'v) list \<Rightarrow>
     (unit outcome \<times> ('k, 'v) table) option" where
  "insert_range P t [] = Some (Ret (), t)"
| "insert_range P t (kv # kvs) =
     (case doInsert P t kv of None \<Rightarrow> None
      | Some (Throw e, t1) \<Rightarrow> Some (Throw e, t1)
      | Some (Ret _, t1) \<Rightarrow> insert_range P t1 kvs)"

text \<open>The doubling loop of \<^verbatim>\<open>reserve\<close>; \<^verbatim>\<open>newSize\<close> wraps to 0 after at most 61 doublings of 8.\<close>

fun reserve_size :: "nat \<Rightarrow> 'k table_params \<Rightarrow> nat \<Rightarrow> nat \<Rightarrow> nat option" where
  "reserve_size 0 P minElementsAllowed newSize = None"
| "reserve_size (Suc fuel) P minElementsAllowed newSize =
     (if calcMaxNumElementsAllowed P newSize < minElementsAllowed \<and> newSize \<noteq> 0
      then reserve_size fuel P minElementsAllowed (size_wrap (newSize * 2))
      else Some newSize)"

definition reserve_impl ::
  "'k table_params \<Rightarrow> ('k, 'v) table \<Rightarrow> nat \<Rightarrow> bool \<Rightarrow> (unit outcome \<times> ('k, 'v) table) option" where
  "reserve_impl P t c forceRehash =
     (case reserve_size 64 P (max c (mNumElements t)) InitialNumElements of None \<Rightarrow> None
      | Some newSize \<Rightarrow>
        if newSize = 0 then Some (Throw OverflowError, t)
        else if forceRehash \<or> size_wrap (mMask t + 1) < newSize
        then rehashPowerOfTwo P t newSize
        else Some (Ret (), t))"

definition rehash ::
  "'k table_params \<Rightarrow> ('k, 'v) table \<Rightarrow> nat \<Rightarrow> (unit outcome \<times> ('k, 'v) table) option" where
  "rehash P t c = reserve_impl P t c True"

definition reserve ::
  "'k table_params \<Rightarrow> ('k, 'v) table \<Rightarrow> nat \<Rightarrow> (unit outcome \<times> ('k, 'v) table) option" where
  "reserve P t c = reserve_impl P t c False"

text \<open>\<^verbatim>\<open>Destroyer::nodes\<close>: the loop that destroys the occupied nodes.\<close>

fun destroy_nodes :: "'a cell list \<Rightarrow> nat list \<Rightarrow> nat \<Rightarrow> nat \<Rightarrow> 'a cell list option" where
  "destroy_nodes cs info idx 0 = Some cs"
| "destroy_nodes cs info idx (Suc n) =
     (case rd info idx of None \<Rightarrow> None
      | Some b \<Rightarrow>
        if b \<noteq> 0
        then (case destroy_at cs idx of None \<Rightarrow> None
              | Some cs1 \<Rightarrow> destroy_nodes cs1 info (Suc idx) n)
        else destroy_nodes cs info (Suc idx) n)"

definition nodes_destroyed ::
  "'k table_params \<Rightarrow> ('k, 'v) table \<Rightarrow> ('k, 'v) table option" where
  "nodes_destroyed P t =
     do {
       cs \<leftarrow> destroy_nodes (mKeyVals t) (infos t) 0
               (calcNumElementsWithBuffer P (size_wrap (mMask t + 1)));
       Some (t\<lparr>mNumElements := 0, mKeyVals := cs\<rparr>)
     }"

definition clear :: "'k table_params \<Rightarrow> ('k, 'v) table \<Rightarrow> ('k, 'v) table option" where
  "clear P t =
     (if is_empty t then Some t
      else do {
        t1 \<leftarrow> nodes_destroyed P t;
        bs \<leftarrow> mInfo t1;
        let n = calcNumElementsWithBuffer P (size_wrap (mMask t + 1));
        let cleared = replicate (calcNumBytesInfo n) 0 @ drop (calcNumBytesInfo n) bs;
        bs2 \<leftarrow> wr cleared n 1;
        Some (t1\<lparr>mInfo := Some bs2, mInfoInc := InitialInfoInc,
                 mInfoHashShift := InitialInfoHashShift\<rparr>)
      })"

text \<open>\<^verbatim>\<open>destroy()\<close> releases the block: no node and no info byte can be accessed afterwards.\<close>

definition destroy :: "'k table_params \<Rightarrow> ('k, 'v) table \<Rightarrow> ('k, 'v) table option" where
  "destroy P t =
     (if mMask t = 0 then Some t
      else do {
        t1 \<leftarrow> nodes_destroyed P t;
        Some (t1\<lparr>mKeyVals := [], mInfo := Some []\<rparr>)
      })"

section \<open>Copying, moving, comparing\<close>

text \<open>\<^verbatim>\<open>Cloner\<close> for nodes that are not trivially copyable: copies the info bytes and copy-constructs
  the occupied nodes.\<close>

fun clone_nodes ::
  "'a cell list \<Rightarrow> 'a cell list \<Rightarrow> nat list \<Rightarrow> nat \<Rightarrow> nat \<Rightarrow> 'a cell list option" where
  "clone_nodes src tgt info i 0 = Some tgt"
| "clone_nodes src tgt info i (Suc n) =
     (case rd info i of None \<Rightarrow> None
      | Some b \<Rightarrow>
        if b \<noteq> 0
        then (case read_at src i of None \<Rightarrow> None
              | Some v \<Rightarrow>
                (case construct_at tgt i v of None \<Rightarrow> None
                 | Some tgt1 \<Rightarrow> clone_nodes src tgt1 info (Suc i) n))
        else clone_nodes src tgt info (Suc i) n)"

definition cloneData ::
  "'k table_params \<Rightarrow> ('k, 'v) table \<Rightarrow> ('k, 'v) table \<Rightarrow> ('k, 'v) table option" where
  "cloneData P src t =
     (let n = calcNumElementsWithBuffer P (size_wrap (mMask t + 1))
      in do {
        old \<leftarrow> mInfo t;
        let m = calcNumBytesInfo n;
        bs \<leftarrow> (if m \<le> length (infos src) \<and> m \<le> length old
               then Some (take m (infos src) @ drop m old) else None);
        cs \<leftarrow> clone_nodes (mKeyVals src) (mKeyVals t) bs 0 n;
        Some (t\<lparr>mInfo := Some bs, mKeyVals := cs\<rparr>)
      })"

text \<open>The block a copy allocates, uninitialised: its info bytes are arbitrary (here \<open>junk\<close>).\<close>

definition alloc_arrays ::
  "'k table_params \<Rightarrow> nat list \<Rightarrow> ('k, 'v) table \<Rightarrow> nat \<Rightarrow>
     (unit outcome \<times> ('k, 'v) table) option" where
  "alloc_arrays P junk t newMask =
     (let n = calcNumElementsWithBuffer P (size_wrap (newMask + 1));
          numBytesTotal = calcNumBytesTotal P n;
          t1 = t\<lparr>allocs := Suc (allocs t)\<rparr>
      in if \<not> p_alloc P (allocs t) numBytesTotal then Some (Throw BadAlloc, t1)
         else if numBytesTotal \<noteq> n * p_sizeof_node P + (n + 8) then None
         else Some (Ret (), t1\<lparr>mKeyVals := replicate n Raw,
                               mInfo := Some (map (\<lambda>i. (junk @ replicate (n + 8) 0) ! i) [0..<n + 8])\<rparr>))"

definition copy_members :: "('k, 'v) table \<Rightarrow> ('k, 'v) table \<Rightarrow> ('k, 'v) table" where
  "copy_members src t = t\<lparr>mNumElements := mNumElements src, mMask := mMask src,
     mMaxNumElementsAllowed := mMaxNumElementsAllowed src, mInfoInc := mInfoInc src,
     mInfoHashShift := mInfoHashShift src\<rparr>"

definition copy_construct ::
  "'k table_params \<Rightarrow> nat list \<Rightarrow> ('k, 'v) table \<Rightarrow> (unit outcome \<times> ('k, 'v) table) option" where
  "copy_construct P junk src =
     (let t = empty_table\<lparr>allocs := allocs src\<rparr>
      in if is_empty src then Some (Ret (), t)
         else (case alloc_arrays P junk t (mMask src) of None \<Rightarrow> None
               | Some (Throw e, t1) \<Rightarrow> Some (Throw e, t1)
               | Some (Ret _, t1) \<Rightarrow>
                   map_option (Pair (Ret ())) (cloneData P src (copy_members src t1))))"

text \<open>Copy assignment from a different object. Releasing the old block leaves the pointers dangling
  until the new block is there.\<close>

definition copy_assign ::
  "'k table_params \<Rightarrow> nat list \<Rightarrow> ('k, 'v) table \<Rightarrow> ('k, 'v) table \<Rightarrow>
     (unit outcome \<times> ('k, 'v) table) option" where
  "copy_assign P junk t src =
     (if is_empty src
      then if mMask t = 0 then Some (Ret (), t)
           else map_option (\<lambda>t1. (Ret (), init t1)) (destroy P t)
      else (case nodes_destroyed P t of None \<Rightarrow> None
            | Some t1 \<Rightarrow>
              (case (if mMask t1 \<noteq> mMask src
                     then alloc_arrays P junk
                            (if mMask t1 \<noteq> 0 then t1\<lparr>mKeyVals := [], mInfo := Some []\<rparr> else t1)
                            (mMask src)
                     else Some (Ret (), t1)) of None \<Rightarrow> None
               | Some (Throw e, t2) \<Rightarrow> Some (Throw e, t2)
               | Some (Ret _, t2) \<Rightarrow>
                   map_option (Pair (Ret ())) (cloneData P src (copy_members src t2)))))"

text \<open>Move construction and assignment: the new object and the moved-from one.\<close>

definition move_members :: "('k, 'v) table \<Rightarrow> ('k, 'v) table \<Rightarrow> ('k, 'v) table" where
  "move_members src t = (copy_members src t)\<lparr>mKeyVals := mKeyVals src, mInfo := mInfo src\<rparr>"

definition move_construct :: "('k, 'v) table \<Rightarrow> ('k, 'v) table \<times> ('k, 'v) table" where
  "move_construct src =
     (let t = empty_table\<lparr>allocs := allocs src\<rparr>
      in if mMask src \<noteq> 0 then (move_members src t, init src) else (t, src))"

definition move_assign ::
  "'k table_params \<Rightarrow> ('k, 'v) table \<Rightarrow> ('k, 'v) table \<Rightarrow>
     (('k, 'v) table \<times> ('k, 'v) table) option" where
  "move_assign P t src =
     (if mMask src \<noteq> 0
      then map_option (\<lambda>t1. (move_members src t1, init src)) (destroy P t)
      else map_option (\<lambda>t1. (t1, src)) (clear P t))"

text \<open>\<^verbatim>\<open>has\<close> and \<^verbatim>\<open>operator==\<close>; \<open>veq\<close> is the comparison of the mapped type.\<close>

definition has_entry ::
  "'k table_params \<Rightarrow> ('v \<Rightarrow> 'v \<Rightarrow> bool) \<Rightarrow> ('k, 'v) table \<Rightarrow> 'k \<times> 'v \<Rightarrow> bool option" where
  "has_entry P veq t e =
     do { it \<leftarrow> find_key P t (fst e);
          if it \<noteq> end_idx t
          then do { kv \<leftarrow> read_at (mKeyVals t) it; Some (veq (snd kv) (snd e)) }
          else Some False }"

fun has_all ::
  "'k table_params \<Rightarrow> ('v \<Rightarrow> 'v \<Rightarrow> bool) \<Rightarrow> ('k, 'v) table \<Rightarrow> ('k \<times> 'v) list \<Rightarrow> bool option" where
  "has_all P veq t [] = Some True"
| "has_all P veq t (e # es) =
     (case has_entry P veq t e of None \<Rightarrow> None
      | Some False \<Rightarrow> Some False
      | Some True \<Rightarrow> has_all P veq t es)"

definition table_eq ::
  "'k table_params \<Rightarrow> ('v \<Rightarrow> 'v \<Rightarrow> bool) \<Rightarrow> ('k, 'v) table \<Rightarrow> ('k, 'v) table \<Rightarrow> bool option" where
  "table_eq P veq t other =
     (if mNumElements other \<noteq> mNumElements t then Some False
      else do { es \<leftarrow> entries other; has_all P veq t es })"

end
