(* ===== verification/Hash_Table_Inv.thy ===== *)
theory Hash_Table_Inv
  imports Hash_Table
begin

unbundle bit_operations_syntax

text \<open>
  The robin-hood invariant of the info bytes and nodes, and the facts about probing that follow
  from it. \<open>core P m s n xs cs\<close> is the invariant of the two arrays of an allocated table with mask
  \<open>m\<close>, hash shift \<open>s\<close> and \<open>n\<close> nodes: \<open>xs\<close> are the info bytes (with sentinel and padding), \<open>cs\<close> the
  nodes. An occupied node holds its distance from its home position and some hash bits in its
  info byte, and an info byte exceeds its left neighbour by at most the increment unless the node
  is at its home position. \<open>table_inv\<close> adds the counters.
\<close>

section \<open>Parameters\<close>

definition params_ok :: "'k table_params \<Rightarrow> bool" where
  "params_ok P \<longleftrightarrow>
     equivp (p_key_eq P) \<and> (\<forall>a b. p_key_eq P a b \<longrightarrow> p_hash P a = p_hash P b) \<and>
     10 < p_max_load P \<and> p_max_load P < 100 \<and>
     0 < p_sizeof_node P \<and> p_sizeof_node P < 2 ^ 12 \<and>
     (\<forall>n b. p_alloc P n b \<longrightarrow> b < 2 ^ 48)"

lemma params_ok_eqD:
  assumes "params_ok P"
  shows "p_key_eq P a a"
    and "p_key_eq P a b \<Longrightarrow> p_key_eq P b a"
    and "p_key_eq P a b \<Longrightarrow> p_key_eq P b c \<Longrightarrow> p_key_eq P a c"
  using assms unfolding params_ok_def
  by (blast dest: equivp_reflp equivp_symp equivp_transp)+

lemma params_ok_hash: "params_ok P \<Longrightarrow> p_key_eq P a b \<Longrightarrow> mixed_hash P a = mixed_hash P b"
  by (simp add: params_ok_def mixed_hash_def)

section \<open>Home positions and expected info bytes\<close>

definition inc_of :: "nat \<Rightarrow> nat" where
  "inc_of s = 32 div 2 ^ s"

definition home_of :: "'k table_params \<Rightarrow> nat \<Rightarrow> 'k \<Rightarrow> nat" where
  "home_of P m k = unat (drop_bit InitialInfoNumBits (mixed_hash P k) AND of_nat m)"

definition hbits :: "'k table_params \<Rightarrow> nat \<Rightarrow> 'k \<Rightarrow> nat" where
  "hbits P s k = unat (drop_bit s (mixed_hash P k AND InfoMask))"

text \<open>The info byte key \<open>k\<close> has at position \<open>j\<close>.\<close>

definition einfo :: "'k table_params \<Rightarrow> nat \<Rightarrow> nat \<Rightarrow> 'k \<Rightarrow> nat \<Rightarrow> nat" where
  "einfo P m s k j = inc_of s * Suc (j - home_of P m k) + hbits P s k"

lemma shift_cases:
  assumes "s \<le> (4::nat)" shows "s = 0 \<or> s = 1 \<or> s = 2 \<or> s = 3 \<or> s = 4"
  using assms by arith

lemma inc_of_pow: "s \<le> 4 \<Longrightarrow> inc_of s * 2 ^ s = 32"
  by (auto dest!: shift_cases simp: inc_of_def)

lemma inc_of_ge: "s \<le> 4 \<Longrightarrow> 2 \<le> inc_of s"
  and inc_of_le: "inc_of s \<le> 32"
  and inc_of_0 [simp]: "inc_of 0 = 32"
  by (auto dest!: shift_cases simp: inc_of_def)

lemma inc_of_even: "s \<le> 4 \<Longrightarrow> inc_of s = 2 * (inc_of s div 2)"
  by (auto dest!: shift_cases simp: inc_of_def)

lemma inc_of_Suc: "inc_of (Suc s) = inc_of s div 2"
  by (metis inc_of_def div_mult2_eq power_Suc2)

lemma inc_of_gt2: "s \<le> 4 \<Longrightarrow> 2 < inc_of s \<Longrightarrow> s < 4"
  by (auto dest!: shift_cases simp: inc_of_def)

lemma home_of_le: "home_of P m k \<le> m"
proof -
  have "home_of P m k \<le> unat (of_nat m :: 64 word)"
    unfolding home_of_def by (rule word_le_nat_alt [THEN iffD1]) (rule word_and_le1)
  also have "\<dots> \<le> m" by (simp add: unat_of_nat)
  finally show ?thesis .
qed

lemma hbits_eq: "hbits P s k = unat (mixed_hash P k) mod 32 div 2 ^ s"
proof -
  have "InfoMask = mask 5" by (simp add: InfoMask_def mask_eq_exp_minus_1)
  then have "mixed_hash P k AND InfoMask = take_bit 5 (mixed_hash P k)"
    by (simp add: take_bit_eq_mask)
  then have "hbits P s k = drop_bit s (take_bit 5 (unat (mixed_hash P k)))"
    by (simp only: hbits_def unat_drop_bit_eq unsigned_take_bit_eq)
  then show ?thesis by (simp add: drop_bit_eq_div take_bit_eq_mod)
qed

lemma hbits_less: "s \<le> 4 \<Longrightarrow> hbits P s k < inc_of s"
proof -
  assume s: "s \<le> 4"
  have "unat (mixed_hash P k) mod 32 < inc_of s * 2 ^ s"
    using inc_of_pow [OF s] by simp
  then show ?thesis
    by (simp add: hbits_eq less_mult_imp_div_less)
qed

lemma hbits_Suc: "hbits P (Suc s) k = hbits P s k div 2"
  by (metis hbits_eq div_mult2_eq power_Suc2)

lemma einfo_Suc: "home_of P m k \<le> j \<Longrightarrow> einfo P m s k (Suc j) = einfo P m s k j + inc_of s"
  by (simp add: einfo_def Suc_diff_le)

lemma einfo_ge: "inc_of s \<le> einfo P m s k j"
  by (simp add: einfo_def)

lemma einfo_home: "s \<le> 4 \<Longrightarrow> einfo P m s k (home_of P m k) < 2 * inc_of s"
  using hbits_less [of s P k] by (simp add: einfo_def)

lemma einfo_add: "home_of P m k \<le> i \<Longrightarrow> einfo P m s k (i + d) = einfo P m s k i + inc_of s * d"
  by (auto dest!: le_Suc_ex simp: einfo_def algebra_simps)

lemma einfo_halve:
  assumes "s < 4"
  shows "einfo P m s k j div 2 = einfo P m (Suc s) k j"
proof -
  have "inc_of s = 2 * (inc_of s div 2)" using assms inc_of_even by simp
  then have "einfo P m s k j = 2 * (inc_of s div 2 * Suc (j - home_of P m k)) + hbits P s k"
    unfolding einfo_def by (metis mult.assoc)
  also have "\<dots> div 2 = inc_of s div 2 * Suc (j - home_of P m k) + hbits P s k div 2"
    by (rule div_mult_self4) simp
  finally show ?thesis by (simp add: einfo_def inc_of_Suc hbits_Suc)
qed

lemma einfo_cong:
  "params_ok P \<Longrightarrow> p_key_eq P a b \<Longrightarrow> einfo P m s a j = einfo P m s b j"
  by (simp add: einfo_def home_of_def hbits_def params_ok_hash)

lemma home_of_cong: "params_ok P \<Longrightarrow> p_key_eq P a b \<Longrightarrow> home_of P m a = home_of P m b"
  by (simp add: home_of_def params_ok_hash)

section \<open>The invariant of the arrays\<close>

definition node_ok ::
  "'k table_params \<Rightarrow> nat \<Rightarrow> nat \<Rightarrow> nat \<Rightarrow> nat \<Rightarrow> ('k \<times> 'v) cell \<Rightarrow> bool" where
  "node_ok P m s i b c =
     (case c of Raw \<Rightarrow> b = 0 | Moved \<Rightarrow> False
      | Live kv \<Rightarrow> home_of P m (fst kv) \<le> i \<and> b = einfo P m s (fst kv) i \<and> b \<le> 255)"

definition core ::
  "'k table_params \<Rightarrow> nat \<Rightarrow> nat \<Rightarrow> nat \<Rightarrow> nat list \<Rightarrow> ('k \<times> 'v) cell list \<Rightarrow> bool" where
  "core P m s n xs cs \<longleftrightarrow>
     length xs = n + 8 \<and> length cs = n \<and> m < n \<and> s \<le> 4 \<and> xs ! n = 1 \<and>
     (\<forall>j. n < j \<and> j < n + 8 \<longrightarrow> xs ! j = 0) \<and>
     (\<forall>i<n. node_ok P m s i (xs ! i) (cs ! i)) \<and>
     (\<forall>i. Suc i < n \<and> 2 * inc_of s \<le> xs ! Suc i \<longrightarrow> xs ! Suc i \<le> xs ! i + inc_of s) \<and>
     (\<forall>i<n. \<forall>j<n. \<forall>kv kv'. cs ! i = Live kv \<and> cs ! j = Live kv' \<and>
        p_key_eq P (fst kv) (fst kv') \<longrightarrow> i = j)"

lemma coreD:
  assumes "core P m s n xs cs"
  shows "length xs = n + 8" "length cs = n" "m < n" "s \<le> 4" "xs ! n = 1"
    and "\<And>j. n < j \<Longrightarrow> j < n + 8 \<Longrightarrow> xs ! j = 0"
    and "\<And>i. i < n \<Longrightarrow> node_ok P m s i (xs ! i) (cs ! i)"
    and "\<And>i. Suc i < n \<Longrightarrow> 2 * inc_of s \<le> xs ! Suc i \<Longrightarrow> xs ! Suc i \<le> xs ! i + inc_of s"
    and "\<And>i j kv kv'. i < n \<Longrightarrow> j < n \<Longrightarrow> cs ! i = Live kv \<Longrightarrow> cs ! j = Live kv' \<Longrightarrow>
           p_key_eq P (fst kv) (fst kv') \<Longrightarrow> i = j"
  using assms unfolding core_def by blast+

lemma core_live:
  assumes "core P m s n xs cs" "i < n" "cs ! i = Live kv"
  shows "home_of P m (fst kv) \<le> i" "xs ! i = einfo P m s (fst kv) i" "xs ! i \<le> 255"
  using coreD(7) [OF assms(1,2)] assms(3) by (simp_all add: node_ok_def)

lemma core_occupied:
  assumes "core P m s n xs cs" "i < n"
  shows "xs ! i \<noteq> 0 \<longleftrightarrow> (\<exists>kv. cs ! i = Live kv)"
proof -
  have "0 < inc_of s" using inc_of_ge [OF coreD(4) [OF assms(1)]] by simp
  then have "0 < einfo P m s k i" for k
    using einfo_ge [of s P m k i] by linarith
  then show ?thesis
    using coreD(7) [OF assms] by (auto simp: node_ok_def split: cell.splits)
qed

lemma core_free: "core P m s n xs cs \<Longrightarrow> i < n \<Longrightarrow> xs ! i = 0 \<longleftrightarrow> cs ! i = Raw"
  using coreD(7) [of P m s n xs cs i] core_occupied [of P m s n xs cs i]
  by (cases "cs ! i") (auto simp: node_ok_def)

lemma core_le_255: "core P m s n xs cs \<Longrightarrow> i < n + 8 \<Longrightarrow> xs ! i \<le> 255"
proof -
  assume c: "core P m s n xs cs" and i: "i < n + 8"
  consider "i < n" | "i = n" | "n < i" by linarith
  then show ?thesis
  proof cases
    case 1
    then show ?thesis using coreD(7) [OF c 1] by (auto simp: node_ok_def split: cell.splits)
  qed (use coreD(5,6) [OF c] i in simp_all)
qed

text \<open>Beyond the nodes every info byte is smaller than any expected one.\<close>

lemma core_end_less: "core P m s n xs cs \<Longrightarrow> n \<le> j \<Longrightarrow> j < n + 8 \<Longrightarrow> xs ! j < inc_of s"
  using coreD(5,6) [of P m s n xs cs] inc_of_ge [OF coreD(4), of P m s n xs cs]
  by (cases "j = n") fastforce+

section \<open>Probing stops once and for all\<close>

lemma probe_stop_Suc:
  assumes c: "core P m s n xs cs" and h: "home_of P m k \<le> j" and j: "Suc j < n"
    and less: "xs ! j < einfo P m s k j"
  shows "xs ! Suc j < einfo P m s k (Suc j)"
proof (cases "2 * inc_of s \<le> xs ! Suc j")
  case True
  then have "xs ! Suc j \<le> xs ! j + inc_of s" using coreD(8) [OF c j] by blast
  then show ?thesis using less einfo_Suc [OF h] by simp
next
  case False
  then show ?thesis using einfo_Suc [OF h, of s] einfo_ge [of s P m k j] by linarith
qed

lemma probe_stop:
  assumes c: "core P m s n xs cs" and h: "home_of P m k \<le> j"
    and less: "xs ! j < einfo P m s k j" and "j \<le> j'" "j' < n"
  shows "xs ! j' < einfo P m s k j'"
  using assms(4,5)
proof (induction j' rule: dec_induct)
  case base
  then show ?case using less by simp
next
  case (step i)
  then show ?case using probe_stop_Suc [OF c _ _] h by simp
qed

text \<open>So a stored key is reached from its home position through positions whose info bytes are not
  smaller than the expected ones.\<close>

lemma stored_prefix:
  assumes c: "core P m s n xs cs" and i: "i < n" "cs ! i = Live kv"
    and j: "home_of P m (fst kv) \<le> j" "j \<le> i"
  shows "einfo P m s (fst kv) j \<le> xs ! j"
proof (rule ccontr)
  assume "\<not> ?thesis"
  then have "xs ! i < einfo P m s (fst kv) i"
    using probe_stop [OF c j(1) _ j(2) i(1)] by simp
  then show False using core_live(2) [OF c i] by simp
qed

lemma stored_prefix_pos:
  assumes c: "core P m s n xs cs" and i: "i < n" "cs ! i = Live kv"
    and j: "home_of P m (fst kv) \<le> j" "j \<le> i"
  shows "xs ! j \<noteq> 0"
  using stored_prefix [OF assms] einfo_ge [of s P m "fst kv" j] inc_of_ge [OF coreD(4) [OF c]]
  by linarith

text \<open>After a position with the expected info byte the info bytes are at most the expected ones.\<close>

lemma probe_le_Suc:
  assumes c: "core P m s n xs cs" and h: "home_of P m k \<le> j" and j: "Suc j < n"
    and le: "xs ! j \<le> einfo P m s k j"
  shows "xs ! Suc j \<le> einfo P m s k (Suc j)"
proof (cases "2 * inc_of s \<le> xs ! Suc j")
  case True
  then have "xs ! Suc j \<le> xs ! j + inc_of s" using coreD(8) [OF c j] by blast
  then show ?thesis using le einfo_Suc [OF h] by simp
next
  case False
  then show ?thesis using einfo_Suc [OF h, of s] einfo_ge [of s P m k j] by linarith
qed

section \<open>The stop position\<close>

text \<open>\<open>stop_at\<close> is the position where probing for \<open>k\<close> ends: the first position from the home
  position on whose info byte is smaller than the expected one.\<close>

definition stop_at ::
  "'k table_params \<Rightarrow> nat \<Rightarrow> nat \<Rightarrow> nat list \<Rightarrow> 'k \<Rightarrow> nat \<Rightarrow> bool" where
  "stop_at P m s xs k i \<longleftrightarrow>
     home_of P m k \<le> i \<and> xs ! i < einfo P m s k i \<and>
     (\<forall>j. home_of P m k \<le> j \<and> j < i \<longrightarrow> einfo P m s k j \<le> xs ! j)"

lemma stop_at_unique: "stop_at P m s xs k i \<Longrightarrow> stop_at P m s xs k j \<Longrightarrow> i = j"
  unfolding stop_at_def by (metis leD linorder_cases)

lemma stop_at_before:
  assumes "core P m s n xs cs" "stop_at P m s xs (fst kv) j" "i < n" "cs ! i = Live kv"
  shows "i < j"
  using assms stored_prefix [OF assms(1,3,4), of j] unfolding stop_at_def
  by (meson leD not_less)

lemma stop_at_le_n: "core P m s n xs cs \<Longrightarrow> stop_at P m s xs k i \<Longrightarrow> i \<le> n"
proof (rule ccontr)
  assume c: "core P m s n xs cs" and st: "stop_at P m s xs k i" and "\<not> i \<le> n"
  then have "einfo P m s k n \<le> xs ! n"
    using home_of_le [of P m k] coreD(3) [OF c] unfolding stop_at_def by simp
  then show False using core_end_less [OF c, of n] einfo_ge [of s P m k n] by simp
qed

end
