(* ===== verification/Hash_Table_Probe.thy ===== *)
theory Hash_Table_Probe
  imports Hash_Table_Inv
begin

text \<open>
  The probing loops of the hash table (\<^verbatim>\<open>nextWhileLess\<close>, the match loops of \<^verbatim>\<open>doInsert\<close>,
  \<^verbatim>\<open>insert_move\<close>, \<^verbatim>\<open>findIdx\<close> and \<^verbatim>\<open>erase\<close>) on an allocated table that satisfies the invariant of
  the arrays: none of them leaves the allocation, and each ends at the node of the key or at the
  stop position.
\<close>

section \<open>Allocated tables\<close>

abbreviation numNodes :: "('k, 'v) table \<Rightarrow> nat" where
  "numNodes t \<equiv> length (mKeyVals t)"

definition tbl_core :: "'k table_params \<Rightarrow> ('k, 'v) table \<Rightarrow> bool" where
  "tbl_core P t \<longleftrightarrow> mInfo t \<noteq> None \<and> mInfoInc t = inc_of (mInfoHashShift t) \<and>
     core P (mMask t) (mInfoHashShift t) (numNodes t) (infos t) (mKeyVals t)"

abbreviation homeT :: "'k table_params \<Rightarrow> ('k, 'v) table \<Rightarrow> 'k \<Rightarrow> nat" where
  "homeT P t k \<equiv> home_of P (mMask t) k"

abbreviation infoT :: "'k table_params \<Rightarrow> ('k, 'v) table \<Rightarrow> 'k \<Rightarrow> nat \<Rightarrow> nat" where
  "infoT P t k j \<equiv> einfo P (mMask t) (mInfoHashShift t) k j"

abbreviation stopT :: "'k table_params \<Rightarrow> ('k, 'v) table \<Rightarrow> 'k \<Rightarrow> nat \<Rightarrow> bool" where
  "stopT P t k i \<equiv> stop_at P (mMask t) (mInfoHashShift t) (infos t) k i"

text \<open>Node \<open>i\<close> holds the key \<open>k\<close>, up to \<^verbatim>\<open>KeyEqual\<close>.\<close>

definition holds :: "'k table_params \<Rightarrow> ('k, 'v) table \<Rightarrow> 'k \<Rightarrow> nat \<Rightarrow> bool" where
  "holds P t k i \<longleftrightarrow> i < numNodes t \<and> (\<exists>kv. mKeyVals t ! i = Live kv \<and> p_key_eq P k (fst kv))"

lemma tbl_core_core:
  "tbl_core P t \<Longrightarrow> core P (mMask t) (mInfoHashShift t) (numNodes t) (infos t) (mKeyVals t)"
  by (simp add: tbl_core_def)

lemmas tblD = coreD [OF tbl_core_core]
lemmas tbl_live = core_live [OF tbl_core_core]
lemmas tbl_end_less = core_end_less [OF tbl_core_core]
lemmas tbl_le_255 = core_le_255 [OF tbl_core_core]

lemma tbl_inc: "tbl_core P t \<Longrightarrow> mInfoInc t = inc_of (mInfoHashShift t)"
  by (simp add: tbl_core_def)

lemma tbl_home_less: "tbl_core P t \<Longrightarrow> homeT P t k < numNodes t"
  using home_of_le [of P "mMask t" k] tblD(3) [of P t] by simp

lemma rd_infos: "tbl_core P t \<Longrightarrow> j < numNodes t + 8 \<Longrightarrow> rd (infos t) j = Some (infos t ! j)"
  by (simp add: tblD(1))

lemma keyToIdx_eq:
  assumes "tbl_core P t"
  shows "keyToIdx P t k = (homeT P t k, infoT P t k (homeT P t k))"
proof -
  have "infoT P t k (homeT P t k) < 64"
    using einfo_home [OF tblD(4) [OF assms], of P "mMask t" k] inc_of_le [of "mInfoHashShift t"]
    by linarith
  moreover have "keyToIdx P t k = (homeT P t k,
      (inc_of (mInfoHashShift t) + hbits P (mInfoHashShift t) k) mod 2 ^ 32)"
    by (simp only: keyToIdx_def Let_def home_of_def hbits_def tbl_inc [OF assms])
  ultimately show ?thesis by (simp add: einfo_def)
qed

lemma next_info_eq:
  assumes "tbl_core P t" "homeT P t k \<le> j" "infoT P t k j < 1000"
  shows "next_info t (infoT P t k j) = infoT P t k (Suc j)"
  using assms(3) inc_of_le [of "mInfoHashShift t"]
  by (simp add: next_info_def einfo_Suc [OF assms(2)] tbl_inc [OF assms(1)])

lemma holdsD:
  assumes "params_ok P" "tbl_core P t" "holds P t k i"
  shows "i < numNodes t" "homeT P t k \<le> i" "infos t ! i = infoT P t k i"
    and "homeT P t k \<le> j \<Longrightarrow> j \<le> i \<Longrightarrow> infoT P t k j \<le> infos t ! j"
proof -
  from assms(3) obtain kv where i: "i < numNodes t" and kv: "mKeyVals t ! i = Live kv"
    and eq: "p_key_eq P k (fst kv)" by (auto simp: holds_def)
  have cong: "homeT P t k = homeT P t (fst kv)" "infoT P t k j = infoT P t (fst kv) j" for j
    using home_of_cong [OF assms(1) eq] einfo_cong [OF assms(1) eq] by auto
  show "i < numNodes t" by (rule i)
  show "homeT P t k \<le> i" "infos t ! i = infoT P t k i"
    using tbl_live [OF assms(2) i kv] cong by simp_all
  show "homeT P t k \<le> j \<Longrightarrow> j \<le> i \<Longrightarrow> infoT P t k j \<le> infos t ! j"
    using stored_prefix [OF tbl_core_core [OF assms(2)] i kv, of j] cong by simp
qed

lemma holds_unique:
  assumes "params_ok P" "tbl_core P t" "holds P t k i" "holds P t k j"
  shows "i = j"
  using assms(3,4) tblD(9) [OF assms(2), of i j] params_ok_eqD [OF assms(1)]
  unfolding holds_def by metis

lemma holds_before_stop:
  assumes "params_ok P" "tbl_core P t" "holds P t k i" "homeT P t k \<le> j"
    and "infos t ! j < infoT P t k j"
  shows "i < j"
  using holdsD(4) [OF assms(1-3,4)] assms(5) by (meson leD not_le)

lemma match_at_eq:
  assumes "params_ok P" "tbl_core P t" "j < numNodes t + 8"
  shows "match_at P t k j (infoT P t k j) = Some (holds P t k j)"
proof (cases "infoT P t k j = infos t ! j")
  case True
  then have "j < numNodes t"
    using tbl_end_less [OF assms(2), of j] assms(3) einfo_ge [of "mInfoHashShift t" P "mMask t" k j]
    by force
  moreover have "infos t ! j \<noteq> 0"
    using True einfo_ge [of "mInfoHashShift t" P "mMask t" k j] inc_of_ge [OF tblD(4) [OF assms(2)]]
    by linarith
  ultimately obtain kv where "mKeyVals t ! j = Live kv"
    using core_occupied [OF tbl_core_core [OF assms(2)]] by blast
  with \<open>j < numNodes t\<close> True show ?thesis
    by (simp add: match_at_def holds_def tblD(1) [OF assms(2)])
next
  case False
  then have "\<not> holds P t k j" using holdsD(3) [OF assms(1,2)] by metis
  with False show ?thesis by (simp add: match_at_def rd_infos [OF assms(2,3)])
qed

text \<open>Only nodes can reach the expected info byte.\<close>

lemma info_reached:
  assumes "tbl_core P t" "infoT P t k j \<le> infos t ! j" "j < numNodes t + 8"
  shows "j < numNodes t"
  using tbl_end_less [OF assms(1), of j] assms(2,3) einfo_ge [of "mInfoHashShift t" P "mMask t" k j]
  by force

section \<open>The loops\<close>

lemma nextWhileLess_spec:
  assumes t: "tbl_core P t" and "homeT P t k \<le> j" "j \<le> numNodes t"
    and "infoT P t k j < 1000" "\<forall>i. homeT P t k \<le> i \<and> i < j \<longrightarrow> infoT P t k i < infos t ! i"
  shows "\<exists>j'. nextWhileLess t j (infoT P t k j) = Some (j', infoT P t k j') \<and>
      homeT P t k \<le> j' \<and> j' \<le> numNodes t \<and> infoT P t k j' < 1000 \<and>
      infos t ! j' \<le> infoT P t k j' \<and>
      (\<forall>i. homeT P t k \<le> i \<and> i < j' \<longrightarrow> infoT P t k i < infos t ! i)"
  using assms(2-)
proof (induction "numNodes t - j" arbitrary: j rule: less_induct)
  case less
  have rdj: "rd (infos t) j = Some (infos t ! j)"
    using rd_infos [OF t, of j] less.prems(2) by simp
  show ?case
  proof (cases "infoT P t k j < infos t ! j")
    case True
    have "j < numNodes t" using info_reached [OF t, of k j] True less.prems(2) by simp
    moreover have "infoT P t k (Suc j) < 1000"
      using True tbl_le_255 [OF t, of j] \<open>j < numNodes t\<close> einfo_Suc [OF less.prems(1), of "mInfoHashShift t"]
        inc_of_le [of "mInfoHashShift t"] by simp
    moreover have "\<forall>i. homeT P t k \<le> i \<and> i < Suc j \<longrightarrow> infoT P t k i < infos t ! i"
      using True less.prems(4) by (auto simp: less_Suc_eq)
    ultimately show ?thesis
      using less.hyps [of "Suc j"] less.prems rdj True next_info_eq [OF t less.prems(1,3)]
      by (simp add: nextWhileLess.simps [of t j])
  next
    case False
    with less.prems rdj show ?thesis
      by (auto simp: nextWhileLess.simps [of t j])
  qed
qed

lemma match_loop_spec:
  assumes p: "params_ok P" and t: "tbl_core P t" and "homeT P t k \<le> j" "j \<le> numNodes t"
    and "infoT P t k j < 1000" "infos t ! j \<le> infoT P t k j"
    and "\<forall>i. homeT P t k \<le> i \<and> i < j \<longrightarrow> infoT P t k i \<le> infos t ! i"
    and "\<forall>i<j. \<not> holds P t k i"
  shows "(\<exists>i. match_loop P t k j (infoT P t k j) = Some (Inl i) \<and> holds P t k i) \<or>
    (\<exists>i. match_loop P t k j (infoT P t k j) = Some (Inr (i, infoT P t k i)) \<and> stopT P t k i \<and>
         infoT P t k i < 1000 \<and> (\<forall>i. \<not> holds P t k i))"
  using assms(3-)
proof (induction "numNodes t - j" arbitrary: j rule: less_induct)
  case less
  have j8: "j < numNodes t + 8" using less.prems(2) by simp
  have rdj: "rd (infos t) j = Some (infos t ! j)" using rd_infos [OF t j8] .
  show ?case
  proof (cases "infoT P t k j = infos t ! j")
    case eq: True
    then have jn: "j < numNodes t" using info_reached [OF t, of k j] j8 by simp
    show ?thesis
    proof (cases "holds P t k j")
      case True
      with rdj match_at_eq [OF p t j8, of k] show ?thesis
        by (simp add: match_loop.simps [of P t k j] eq)
    next
      case False
      have step: "match_loop P t k j (infoT P t k j) = match_loop P t k (Suc j) (infoT P t k (Suc j))"
        using rdj False next_info_eq [OF t less.prems(1,3)] match_at_eq [OF p t j8, of k]
        by (simp add: match_loop.simps [of P t k j] eq)
      have le: "infos t ! Suc j \<le> infoT P t k (Suc j)"
      proof (cases "Suc j < numNodes t")
        case True
        then show ?thesis
          using probe_le_Suc [OF tbl_core_core [OF t] less.prems(1) True] eq by simp
      next
        case False
        then show ?thesis
          using tbl_end_less [OF t, of "Suc j"] jn einfo_ge [of "mInfoHashShift t" P "mMask t" k "Suc j"]
          by simp
      qed
      have small: "infoT P t k (Suc j) < 1000"
        using eq tbl_le_255 [OF t, of j] j8 einfo_Suc [OF less.prems(1), of "mInfoHashShift t"]
          inc_of_le [of "mInfoHashShift t"] by simp
      have "\<forall>i. homeT P t k \<le> i \<and> i < Suc j \<longrightarrow> infoT P t k i \<le> infos t ! i"
        using eq less.prems(5) by (auto simp: less_Suc_eq)
      moreover have "\<forall>i<Suc j. \<not> holds P t k i"
        using False less.prems(6) by (auto simp: less_Suc_eq)
      ultimately show ?thesis
        unfolding step using less.hyps [of "Suc j"] less.prems(1) jn le small by simp
    qed
  next
    case False
    with less.prems(4) have lt: "infos t ! j < infoT P t k j" by simp
    then have "\<forall>i. \<not> holds P t k i"
      using holds_before_stop [OF p t _ less.prems(1)] less.prems(6) by blast
    with False lt rdj less.prems(1,3,5) show ?thesis
      by (simp add: match_loop.simps [of P t k j] stop_at_def)
  qed
qed

lemma probe_insert_spec:
  assumes p: "params_ok P" and t: "tbl_core P t"
  shows "(\<exists>i. probe_insert P t k = Some (Inl i) \<and> holds P t k i) \<or>
    (\<exists>i. probe_insert P t k = Some (Inr (i, infoT P t k i)) \<and> stopT P t k i \<and>
         infoT P t k i < 1000 \<and> (\<forall>i. \<not> holds P t k i))"
proof -
  have h: "homeT P t k \<le> numNodes t" using tbl_home_less [OF t, of k] by simp
  have small: "infoT P t k (homeT P t k) < 1000"
    using einfo_home [OF tblD(4) [OF t], of P "mMask t" k] inc_of_le [of "mInfoHashShift t"]
    by linarith
  obtain j where j: "nextWhileLess t (homeT P t k) (infoT P t k (homeT P t k)) =
      Some (j, infoT P t k j)" "homeT P t k \<le> j" "j \<le> numNodes t" "infoT P t k j < 1000"
      "infos t ! j \<le> infoT P t k j" "\<forall>i. homeT P t k \<le> i \<and> i < j \<longrightarrow> infoT P t k i < infos t ! i"
    using nextWhileLess_spec [OF t order.refl h small] by auto
  have le: "\<forall>i. homeT P t k \<le> i \<and> i < j \<longrightarrow> infoT P t k i \<le> infos t ! i"
    using j(6) less_imp_le by blast
  have no: "\<forall>i<j. \<not> holds P t k i"
    using j(6) holdsD(2,3) [OF p t] by (metis less_irrefl)
  show ?thesis
    using match_loop_spec [OF p t j(2-5) le no] j(1)
    by (simp add: probe_insert_def keyToIdx_eq [OF t])
qed

lemma skip_le_spec:
  assumes t: "tbl_core P t" and "homeT P t k \<le> j" "j \<le> numNodes t"
    and "infoT P t k j < 1000" "\<forall>i. homeT P t k \<le> i \<and> i < j \<longrightarrow> infoT P t k i \<le> infos t ! i"
  shows "\<exists>i. skip_le t j (infoT P t k j) = Some (i, infoT P t k i) \<and> stopT P t k i"
  using assms(2-)
proof (induction "numNodes t - j" arbitrary: j rule: less_induct)
  case less
  have rdj: "rd (infos t) j = Some (infos t ! j)"
    using rd_infos [OF t, of j] less.prems(2) by simp
  show ?case
  proof (cases "infoT P t k j \<le> infos t ! j")
    case True
    have "j < numNodes t" using info_reached [OF t True] less.prems(2) by simp
    moreover have "infoT P t k (Suc j) < 1000"
      using True tbl_le_255 [OF t, of j] \<open>j < numNodes t\<close> einfo_Suc [OF less.prems(1), of "mInfoHashShift t"]
        inc_of_le [of "mInfoHashShift t"] by simp
    moreover have "\<forall>i. homeT P t k \<le> i \<and> i < Suc j \<longrightarrow> infoT P t k i \<le> infos t ! i"
      using True less.prems(4) by (auto simp: less_Suc_eq)
    ultimately show ?thesis
      using less.hyps [of "Suc j"] less.prems rdj True next_info_eq [OF t less.prems(1,3)]
      by (simp add: skip_le.simps [of t j])
  next
    case False
    with less.prems rdj show ?thesis
      by (auto simp: skip_le.simps [of t j] stop_at_def)
  qed
qed

lemma findIdx_loop_spec:
  assumes p: "params_ok P" and t: "tbl_core P t" and "homeT P t k \<le> j" "j \<le> numNodes t"
    and "infoT P t k j < 900" "\<forall>i<j. \<not> holds P t k i"
  shows "(\<exists>i. findIdx_loop P t k j (infoT P t k j) = Some (Some i) \<and> holds P t k i) \<or>
    (findIdx_loop P t k j (infoT P t k j) = Some None \<and> (\<forall>i. \<not> holds P t k i))"
  using assms(3-)
proof (induction "numNodes t - j" arbitrary: j rule: less_induct)
  case less
  let ?e = "infoT P t k"
  have h1: "homeT P t k \<le> Suc j" and h2: "homeT P t k \<le> Suc (Suc j)" using less.prems(1) by auto
  have inc: "inc_of (mInfoHashShift t) \<le> 32" by (rule inc_of_le)
  have e1: "?e (Suc j) = ?e j + inc_of (mInfoHashShift t)"
    and e2: "?e (Suc (Suc j)) = ?e (Suc j) + inc_of (mInfoHashShift t)"
    using einfo_Suc [OF less.prems(1)] einfo_Suc [OF h1] by auto
  have n1: "next_info t (?e j) = ?e (Suc j)" and n2: "next_info t (?e (Suc j)) = ?e (Suc (Suc j))"
    using next_info_eq [OF t less.prems(1)] next_info_eq [OF t h1] less.prems(3) e1 inc by auto
  have bounds: "j < numNodes t + 8" "Suc j < numNodes t + 8" "Suc (Suc j) < numNodes t + 8"
    using less.prems(2) by auto
  note m = match_at_eq [OF p t bounds(1)] match_at_eq [OF p t bounds(2)]
  note unfold = findIdx_loop.simps [of P t k j] m n1 n2 rd_infos [OF t bounds(3)]
  show ?case
  proof (cases "holds P t k j \<or> holds P t k (Suc j)")
    case True
    then show ?thesis by (cases "holds P t k j") (auto simp: unfold)
  next
    case False
    then have no: "\<forall>i<Suc (Suc j). \<not> holds P t k i"
      using less.prems(4) by (auto simp: less_Suc_eq)
    show ?thesis
    proof (cases "?e (Suc (Suc j)) \<le> infos t ! Suc (Suc j)")
      case True
      then have "Suc (Suc j) < numNodes t" using info_reached [OF t True bounds(3)] by simp
      moreover have "?e (Suc (Suc j)) < 900"
        using True tbl_le_255 [OF t bounds(3)] by simp
      ultimately show ?thesis
        using less.hyps [of "Suc (Suc j)"] False True h2 no by (simp add: unfold)
    next
      case stop: False
      then have "\<forall>i. \<not> holds P t k i"
        using holds_before_stop [OF p t _ h2] no by (metis not_less)
      with stop False show ?thesis by (simp add: unfold)
    qed
  qed
qed

lemma findIdx_spec:
  assumes p: "params_ok P" and t: "tbl_core P t" and "mMask t \<noteq> 0"
  shows "(\<exists>i. findIdx P t k = Some i \<and> holds P t k i) \<or>
    (findIdx P t k = Some (end_idx t) \<and> (\<forall>i. \<not> holds P t k i))"
proof -
  have h: "homeT P t k \<le> numNodes t" using tbl_home_less [OF t, of k] by simp
  have small: "infoT P t k (homeT P t k) < 900"
    using einfo_home [OF tblD(4) [OF t], of P "mMask t" k] inc_of_le [of "mInfoHashShift t"]
    by linarith
  have no: "\<forall>i<homeT P t k. \<not> holds P t k i" using holdsD(2) [OF p t] by (metis leD)
  show ?thesis
    using findIdx_loop_spec [OF p t order.refl h small no] assms(3)
    by (auto simp: findIdx_def keyToIdx_eq [OF t])
qed

end
