(* ===== verification/Hash_Table_Update.thy ===== *)
theory Hash_Table_Update
  imports Hash_Table_Probe "HOL-Library.Multiset"
begin

text \<open>
  Placing and removing a node. \<open>ins_list\<close> and \<open>del_list\<close> are what the loops of \<^verbatim>\<open>shiftUp\<close> and
  \<^verbatim>\<open>shiftDown\<close> do to an array; \<open>core_insert\<close> and \<open>core_remove\<close> show that the invariant of the arrays
  survives.
\<close>

section \<open>Live objects of a buffer\<close>

fun live :: "'a cell list \<Rightarrow> 'a list" where
  "live [] = []"
| "live (Live v # cs) = v # live cs"
| "live (Raw # cs) = live cs"
| "live (Moved # cs) = live cs"

lemma live_append [simp]: "live (as @ bs) = live as @ live bs"
  by (induction as rule: live.induct) auto

lemma in_live_iff: "v \<in> set (live cs) \<longleftrightarrow> (\<exists>i<length cs. cs ! i = Live v)"
proof -
  have "v \<in> set (live cs) \<longleftrightarrow> Live v \<in> set cs" by (induction cs rule: live.induct) auto
  then show ?thesis by (auto simp: in_set_conv_nth)
qed

lemma live_replicate_Raw [simp]: "live (replicate n Raw) = []"
  by (induction n) auto

section \<open>Shifting part of a list\<close>

definition ins_list :: "nat \<Rightarrow> nat \<Rightarrow> 'a \<Rightarrow> 'a list \<Rightarrow> 'a list" where
  "ins_list i e v xs = take i xs @ v # take (e - i) (drop i xs) @ drop (Suc e) xs"

definition del_list :: "nat \<Rightarrow> nat \<Rightarrow> 'a \<Rightarrow> 'a list \<Rightarrow> 'a list" where
  "del_list i e v xs = take i xs @ take (e - i) (drop (Suc i) xs) @ v # drop (Suc e) xs"

lemma length_ins_list [size_simps]: "i \<le> e \<Longrightarrow> e < length xs \<Longrightarrow> length (ins_list i e v xs) = length xs"
  by (simp add: ins_list_def)

lemma nth_ins_list:
  assumes "i \<le> e" "e < length xs"
  shows "ins_list i e v xs ! j =
     (if j < i then xs ! j else if j = i then v else if j \<le> e then xs ! (j - 1) else xs ! j)"
proof -
  consider "j < i" | "j = i" | "i < j" "j \<le> e" | "e < j" by linarith
  then show ?thesis
  proof cases
    case 3
    then obtain d where d: "j = Suc (i + d)" using less_iff_Suc_add by auto
    with 3 have "d < e - i" by simp
    then show ?thesis using d 3 assms by (simp add: ins_list_def nth_append)
  next
    case 4
    then obtain d where d: "j = Suc e + d" using less_iff_Suc_add by auto
    then have "j - i = Suc (e - i + d)" using assms by simp
    then show ?thesis using d assms by (auto simp: ins_list_def nth_append)
  qed (use assms in \<open>simp_all add: ins_list_def nth_append\<close>)
qed

lemma length_del_list [size_simps]: "i \<le> e \<Longrightarrow> e < length xs \<Longrightarrow> length (del_list i e v xs) = length xs"
  by (simp add: del_list_def)

lemma nth_del_list:
  assumes "i \<le> e" "e < length xs"
  shows "del_list i e v xs ! j =
     (if j < i then xs ! j else if j < e then xs ! Suc j else if j = e then v else xs ! j)"
proof -
  consider "j < i" | "i \<le> j" "j < e" | "j = e" | "e < j" by linarith
  then show ?thesis
  proof cases
    case 4
    then obtain d where d: "j = Suc e + d" using less_iff_Suc_add by auto
    then have "j - i = Suc (e - i + d)" using assms by simp
    then show ?thesis using d assms by (auto simp: del_list_def nth_append)
  qed (use assms in \<open>auto simp: del_list_def nth_append\<close>)
qed

lemma live_split:
  assumes "i \<le> e" "e < length cs"
  shows "live cs = live (take i cs) @ live (take (e - i) (drop i cs)) @ live [cs ! e] @
     live (drop (Suc e) cs)"
proof -
  have "take e cs = take i cs @ take (e - i) (drop i cs)"
    using assms(1) by (metis le_add_diff_inverse take_add)
  then have "cs = (take i cs @ take (e - i) (drop i cs)) @ cs ! e # drop (Suc e) cs"
    using id_take_nth_drop [OF assms(2)] by simp
  then have "live cs = live ((take i cs @ take (e - i) (drop i cs)) @ [cs ! e] @ drop (Suc e) cs)"
    by simp
  then show ?thesis by (simp only: live_append append_assoc)
qed

lemma mset_live_ins_list:
  assumes "i \<le> e" "e < length cs" "cs ! e = Raw"
  shows "mset (live (ins_list i e (Live v) cs)) = add_mset v (mset (live cs))"
proof -
  have "live (ins_list i e (Live v) cs) =
      live (take i cs) @ v # live (take (e - i) (drop i cs)) @ live (drop (Suc e) cs)"
    by (simp add: ins_list_def)
  then show ?thesis using live_split [OF assms(1,2)] assms(3) by simp
qed

lemma mset_live_del_list:
  assumes "i \<le> e" "e < length cs" "cs ! i = Live v"
  shows "mset (live cs) = add_mset v (mset (live (del_list i e Raw cs)))"
proof -
  have i: "i < length cs" using assms by simp
  have "drop (Suc i) cs = take (e - i) (drop (Suc i) cs) @ drop (Suc e) cs"
    using assms(1) by (metis append_take_drop_id drop_drop le_add_diff_inverse2 add_Suc_right)
  then have "cs = take i cs @ [Live v] @ take (e - i) (drop (Suc i) cs) @ drop (Suc e) cs"
    using id_take_nth_drop [OF i] assms(3) by simp
  then have "live cs = live (take i cs @ [Live v] @ take (e - i) (drop (Suc i) cs) @ drop (Suc e) cs)"
    by simp
  then show ?thesis by (simp add: del_list_def)
qed

section \<open>The loops of \<open>shiftUp\<close>\<close>

lemma shiftUp_moves_spec:
  assumes "ins \<le> idx" "idx < length cs" "\<forall>j. ins \<le> j \<and> j < idx \<longrightarrow> (\<exists>v. cs ! j = Live v)"
    and "cs ! idx \<noteq> Raw"
  shows "\<exists>cs'. shiftUp_moves cs (Suc idx) ins = Some cs' \<and> length cs' = length cs \<and>
     (\<forall>j. cs' ! j = (if ins < j \<and> j \<le> idx then cs ! (j - 1)
                     else if j = ins \<and> ins < idx then Moved else cs ! j))"
  using assms
proof (induction idx arbitrary: cs)
  case 0
  then show ?case by auto
next
  case (Suc i)
  show ?case
  proof (cases "Suc i = ins")
    case True
    then show ?thesis by auto
  next
    case False
    with Suc.prems obtain v where v: "cs ! i = Live v" and i: "ins \<le> i" by (metis lessI not_less_eq_eq le_SucE)
    let ?cs2 = "cs[i := Moved, Suc i := Live v]"
    have step: "shiftUp_moves cs (Suc (Suc i)) ins = shiftUp_moves ?cs2 (Suc i) ins"
      using False Suc.prems v by simp
    have "?cs2 ! i \<noteq> Raw" "\<forall>j. ins \<le> j \<and> j < i \<longrightarrow> (\<exists>v. ?cs2 ! j = Live v)" "i < length ?cs2"
      using Suc.prems v by auto
    with Suc.IH [OF i, of ?cs2] obtain cs' where
      cs': "shiftUp_moves ?cs2 (Suc i) ins = Some cs'" "length cs' = length cs"
        "\<forall>j. cs' ! j = (if ins < j \<and> j \<le> i then ?cs2 ! (j - 1)
                     else if j = ins \<and> ins < i then Moved else ?cs2 ! j)" by auto
    have "cs' ! j = (if ins < j \<and> j \<le> Suc i then cs ! (j - 1)
                     else if j = ins \<and> ins < Suc i then Moved else cs ! j)" for j
    proof -
      consider "j = Suc i" | "j = i" "ins < i" | "j = i" "ins = i" | "j < i" | "Suc i < j"
        using i by linarith
      then show ?thesis
        using cs'(3) [rule_format, of j] i v Suc.prems(2) by cases (auto simp: nth_list_update)
    qed
    with step cs' show ?thesis by auto
  qed
qed

lemma infos_Some [simp]: "mInfo t = Some xs \<Longrightarrow> infos t = xs"
  by (simp add: infos_def)

lemma table_same: "mInfo t = Some xs \<Longrightarrow>
    t\<lparr>mInfo := Some xs, mMaxNumElementsAllowed := mMaxNumElementsAllowed t\<rparr> = t"
  by simp

lemma shiftUp_infos_spec:
  assumes "ins \<le> idx" "mInfo t = Some xs" "idx < length xs"
    and "\<forall>j. ins \<le> j \<and> j < idx \<longrightarrow> xs ! j + mInfoInc t \<le> 255"
  shows "\<exists>ys mx. shiftUp_infos t idx ins = Some (t\<lparr>mInfo := Some ys, mMaxNumElementsAllowed := mx\<rparr>) \<and>
     length ys = length xs \<and>
     (\<forall>j. ys ! j = (if ins < j \<and> j \<le> idx then xs ! (j - 1) + mInfoInc t else xs ! j)) \<and>
     (mx = 0 \<or> mx = mMaxNumElementsAllowed t \<and>
        (\<forall>j. ins < j \<and> j \<le> idx \<longrightarrow> ys ! j + mInfoInc t \<le> 255))"
  using assms
proof (induction idx arbitrary: t xs)
  case 0
  then show ?case
    by (intro exI [of _ xs] exI [of _ "mMaxNumElementsAllowed t"])
       (auto simp: shiftUp_infos.simps [of t] table_same)
next
  case (Suc i)
  show ?case
  proof (cases "Suc i = ins")
    case True
    with Suc.prems show ?thesis
      by (intro exI [of _ xs] exI [of _ "mMaxNumElementsAllowed t"])
         (auto simp: shiftUp_infos.simps [of t] table_same)
  next
    case False
    with Suc.prems(1) have i: "ins \<le> i" by simp
    define b where "b = xs ! i + mInfoInc t"
    have b: "b \<le> 255" using Suc.prems(4) i by (simp add: b_def)
    define t2 where "t2 = (if b + mInfoInc t > 255
      then t\<lparr>mInfo := Some (xs[Suc i := b]), mMaxNumElementsAllowed := 0\<rparr>
      else t\<lparr>mInfo := Some (xs[Suc i := b])\<rparr>)"
    have step: "shiftUp_infos t (Suc i) ins = shiftUp_infos t2 i ins"
      using False Suc.prems b
      by (simp add: shiftUp_infos.simps [of t "Suc i"] wr_info_def t2_def Let_def flip: b_def)
    have t2: "mInfo t2 = Some (xs[Suc i := b])" "mInfoInc t2 = mInfoInc t"
      by (auto simp: t2_def)
    have bound: "\<forall>j. ins \<le> j \<and> j < i \<longrightarrow> xs[Suc i := b] ! j + mInfoInc t \<le> 255"
      and len: "i < length xs"
      using Suc.prems(3,4) by auto
    obtain ys mx where ys:
      "shiftUp_infos t2 i ins = Some (t2\<lparr>mInfo := Some ys, mMaxNumElementsAllowed := mx\<rparr>)"
      "length ys = length xs"
      "\<forall>j. ys ! j = (if ins < j \<and> j \<le> i then xs[Suc i := b] ! (j - 1) + mInfoInc t
             else xs[Suc i := b] ! j)"
      "mx = 0 \<or> mx = mMaxNumElementsAllowed t2 \<and>
        (\<forall>j. ins < j \<and> j \<le> i \<longrightarrow> ys ! j + mInfoInc t \<le> 255)"
      using Suc.IH [OF i t2(1), unfolded t2(2) length_list_update, OF len bound] by blast
    have nth: "ys ! j = (if ins < j \<and> j \<le> Suc i then xs ! (j - 1) + mInfoInc t else xs ! j)" for j
    proof -
      consider "j = Suc i" | "j \<le> i" | "Suc i < j" by linarith
      then show ?thesis
        using ys(3) [rule_format, of j] i Suc.prems(3) by cases (auto simp: nth_list_update b_def)
    qed
    have mx: "mx = 0 \<or> mx = mMaxNumElementsAllowed t \<and>
        (\<forall>j. ins < j \<and> j \<le> Suc i \<longrightarrow> ys ! j + mInfoInc t \<le> 255)"
    proof (cases "mx = 0")
      case nz: False
      with ys(4) have "b + mInfoInc t \<le> 255" by (auto simp: t2_def split: if_splits)
      with nz ys(4) nth [of "Suc i"] i show ?thesis
        by (auto simp: t2_def b_def le_Suc_eq split: if_splits)
    qed simp
    have "t2\<lparr>mInfo := Some ys, mMaxNumElementsAllowed := mx\<rparr> =
        t\<lparr>mInfo := Some ys, mMaxNumElementsAllowed := mx\<rparr>"
      by (simp add: t2_def)
    with step ys(1,2) nth mx show ?thesis by metis
  qed
qed

lemma find_empty_spec:
  assumes "mInfo t = Some xs" "j \<le> z" "z < length xs" "xs ! z = 0"
  shows "\<exists>e. find_empty t j = Some e \<and> j \<le> e \<and> e \<le> z \<and> xs ! e = 0 \<and>
     (\<forall>i. j \<le> i \<and> i < e \<longrightarrow> xs ! i \<noteq> 0)"
  using assms(2)
proof (induction "z - j" arbitrary: j rule: less_induct)
  case less
  show ?case
  proof (cases "xs ! j = 0")
    case True
    then show ?thesis using assms less.prems by (auto simp: find_empty.simps [of t j])
  next
    case False
    then have "j < z" using less.prems assms(4) by (metis le_neq_implies_less)
    then obtain e where "find_empty t (Suc j) = Some e" "Suc j \<le> e" "e \<le> z" "xs ! e = 0"
      "\<forall>i. Suc j \<le> i \<and> i < e \<longrightarrow> xs ! i \<noteq> 0"
      using less.hyps [of "Suc j", OF diff_less_mono2] by auto
    moreover have "\<forall>i. j \<le> i \<and> i < e \<longrightarrow> xs ! i \<noteq> 0"
      using False calculation(5) by (metis le_neq_implies_less Suc_leI)
    ultimately show ?thesis
      using False \<open>j < z\<close> assms(1,3) by (auto simp: find_empty.simps [of t j])
  qed
qed

section \<open>Inserting keeps the invariant\<close>

text \<open>The info byte at the stop position still fits into a byte when the table has headroom.\<close>

lemma stop_info_le:
  assumes c: "core P m s n xs cs" and st: "stop_at P m s xs k i" and "i \<le> n"
    and room: "\<forall>i<n. xs ! i + inc_of s \<le> 255"
  shows "einfo P m s k i \<le> 255"
proof (cases "i = home_of P m k")
  case True
  then show ?thesis
    using einfo_home [OF coreD(4) [OF c], of P m k] inc_of_le [of s] by simp
next
  case False
  with st obtain j where j: "i = Suc j" "home_of P m k \<le> j"
    unfolding stop_at_def by (metis Suc_pred le_neq_implies_less less_Suc_eq_le not_gr0 not_less_zero zero_less_iff_neq_zero)
  with st have "einfo P m s k j \<le> xs ! j" unfolding stop_at_def by simp
  moreover have "xs ! j + inc_of s \<le> 255" using room j(1) assms(3) by simp
  ultimately show ?thesis using j einfo_Suc [OF j(2), of s] by simp
qed

text \<open>The arrays after the insertion of \<open>kv\<close> at \<open>i\<close>, with the first free node at \<open>e\<close>.\<close>

definition infos_after :: "nat \<Rightarrow> nat \<Rightarrow> nat \<Rightarrow> nat \<Rightarrow> nat list \<Rightarrow> nat list \<Rightarrow> bool" where
  "infos_after i e b inc xs ys \<longleftrightarrow> length ys = length xs \<and>
     (\<forall>j. ys ! j = (if j = i then b else if i < j \<and> j \<le> e then xs ! (j - 1) + inc else xs ! j))"

definition inserting ::
  "'k table_params \<Rightarrow> nat \<Rightarrow> nat \<Rightarrow> nat \<Rightarrow> nat list \<Rightarrow> nat list \<Rightarrow> ('k \<times> 'v) cell list \<Rightarrow>
     'k \<times> 'v \<Rightarrow> nat \<Rightarrow> nat \<Rightarrow> bool" where
  "inserting P m s n xs ys cs kv i e \<longleftrightarrow>
     params_ok P \<and> core P m s n xs cs \<and> stop_at P m s xs (fst kv) i \<and>
     i \<le> e \<and> e < n \<and> xs ! e = 0 \<and> (\<forall>j. i \<le> j \<and> j < e \<longrightarrow> xs ! j \<noteq> 0) \<and>
     (\<forall>i<n. xs ! i + inc_of s \<le> 255) \<and>
     (\<forall>j<n. \<forall>kv'. cs ! j = Live kv' \<longrightarrow> \<not> p_key_eq P (fst kv) (fst kv')) \<and>
     infos_after i e (einfo P m s (fst kv) i) (inc_of s) xs ys"

lemma insertingD:
  assumes "inserting P m s n xs ys cs kv i e"
  shows "params_ok P" "core P m s n xs cs" "stop_at P m s xs (fst kv) i"
    and "i \<le> e" "e < n" "xs ! e = 0" "\<forall>j. i \<le> j \<and> j < e \<longrightarrow> xs ! j \<noteq> 0"
    and "\<forall>i<n. xs ! i + inc_of s \<le> 255"
    and "\<forall>j<n. \<forall>kv'. cs ! j = Live kv' \<longrightarrow> \<not> p_key_eq P (fst kv) (fst kv')"
    and "infos_after i e (einfo P m s (fst kv) i) (inc_of s) xs ys"
  using assms unfolding inserting_def by blast+

lemma inserting_lens:
  assumes I: "inserting P m s n xs ys cs kv i e"
  shows "length xs = n + 8" "length cs = n" "length ys = n + 8"
  using coreD(1,2) [OF insertingD(2) [OF I]] insertingD(10) [OF I] by (auto simp: infos_after_def)

lemma inserting_nth_infos:
  assumes I: "inserting P m s n xs ys cs kv i e"
  shows "ys ! j = (if j = i then einfo P m s (fst kv) i
    else if i < j \<and> j \<le> e then xs ! (j - 1) + inc_of s else xs ! j)"
  using insertingD(10) [OF I] by (simp add: infos_after_def)

lemma inserting_nth_cells:
  assumes I: "inserting P m s n xs ys cs kv i e"
  shows "ins_list i e (Live kv) cs ! j = (if j < i then cs ! j else if j = i then Live kv
    else if j \<le> e then cs ! (j - 1) else cs ! j)"
  using nth_ins_list [of i e cs] insertingD(4,5) [OF I] inserting_lens [OF I] by simp

lemma inserting_nodes:
  assumes I: "inserting P m s n xs ys cs kv i e" and j: "j < n"
  shows "node_ok P m s j (ys ! j) (ins_list i e (Live kv) cs ! j)"
proof -
  note pok = insertingD(1) [OF I] and c = insertingD(2) [OF I] and stop = insertingD(3) [OF I]
    and e = insertingD(4-6) [OF I] and full = insertingD(7) [OF I] and room = insertingD(8) [OF I]
    and new = insertingD(9) [OF I]
  note nth_ys = inserting_nth_infos [OF I] and nth_cs' = inserting_nth_cells [OF I]
  consider "j = i" | "i < j" "j \<le> e" | "j < i \<or> e < j" by linarith
  then show ?thesis
  proof cases
    case 1
    then show ?thesis
      using stop stop_info_le [OF c stop _ room] j nth_ys [of j] nth_cs' [of j]
      by (simp add: node_ok_def stop_at_def)
  next
    case 2
    then obtain l where l: "j = Suc l" "i \<le> l" "l < e" by (cases j) auto
    then obtain kv' where kv': "cs ! l = Live kv'"
      using full core_occupied [OF c, of l] e by auto
    have "xs ! l + inc_of s \<le> 255" using room l e by simp
    then show ?thesis
      using core_live [OF c _ kv'] kv' l e nth_ys [of j] nth_cs' [of j]
      by (simp add: node_ok_def einfo_Suc)
  next
    case 3
    then show ?thesis
      using coreD(7) [OF c j] nth_ys [of j] nth_cs' [of j] e(1) by auto
  qed
qed

lemma inserting_neighbours:
  assumes I: "inserting P m s n xs ys cs kv i e" and "Suc j < n" "2 * inc_of s \<le> ys ! Suc j"
  shows "ys ! Suc j \<le> ys ! j + inc_of s"
proof -
  note pok = insertingD(1) [OF I] and c = insertingD(2) [OF I] and stop = insertingD(3) [OF I]
    and e = insertingD(4-6) [OF I] and full = insertingD(7) [OF I] and room = insertingD(8) [OF I]
    and new = insertingD(9) [OF I]
  note nth_ys = inserting_nth_infos [OF I] and nth_cs' = inserting_nth_cells [OF I]
  note assms = assms(2,3)
  consider "Suc j < i" | "Suc j = i" | "j = i" "i < e" | "i < j" "j < e" | "j = e" | "e < j"
    using e(1) by linarith
  then show ?thesis
  proof cases
    case 2
    then have "i \<noteq> home_of P m (fst kv)"
      using assms(2) einfo_home [OF coreD(4) [OF c], of P m "fst kv"] nth_ys [of i] by auto
    then have h: "home_of P m (fst kv) \<le> j" using stop 2 by (simp add: stop_at_def)
    then have "einfo P m s (fst kv) j \<le> xs ! j" using stop 2 by (simp add: stop_at_def)
    then show ?thesis
      using 2 nth_ys [of i] nth_ys [of j] einfo_Suc [OF h, of s] by simp
  next
    case 3
    then show ?thesis
      using stop nth_ys [of "Suc j"] nth_ys [of j] by (simp add: stop_at_def)
  next
    case 4
    then obtain l where l: "j = Suc l" by (cases j) auto
    have "xs ! Suc l \<le> xs ! l + inc_of s"
    proof (cases "2 * inc_of s \<le> xs ! Suc l")
      case True
      then show ?thesis using coreD(8) [OF c, of l] assms(1) l by simp
    next
      case False
      obtain kv' where "cs ! l = Live kv'"
        using full core_occupied [OF c, of l] 4 e l by auto
      then have "inc_of s \<le> xs ! l"
        using core_live(2) [OF c, of l] assms(1) l einfo_ge [of s P m "fst kv'" l] by simp
      then show ?thesis using False by simp
    qed
    then show ?thesis using 4 l nth_ys [of "Suc j"] nth_ys [of j] by simp
  next
    case 5
    have "xs ! Suc j < 2 * inc_of s"
    proof (rule ccontr)
      assume "\<not> ?thesis"
      then have "xs ! Suc j \<le> xs ! j + inc_of s" using coreD(8) [OF c assms(1)] by simp
      then show False using \<open>\<not> _\<close> 5 e(3) inc_of_ge [OF coreD(4) [OF c]] by simp
    qed
    then show ?thesis using 5 nth_ys [of "Suc j"] e(1) assms(2) by simp
  qed (use coreD(8) [OF c assms(1)] assms(2) nth_ys [of "Suc j"] nth_ys [of j] e(1) in auto)
qed

lemma inserting_unique:
  assumes I: "inserting P m s n xs ys cs kv i e" and "j < n" "l < n" "ins_list i e (Live kv) cs ! j = Live a" "ins_list i e (Live kv) cs ! l = Live b"
    and "p_key_eq P (fst a) (fst b)"
  shows "j = l"
proof -
  note pok = insertingD(1) [OF I] and c = insertingD(2) [OF I] and stop = insertingD(3) [OF I]
    and e = insertingD(4-6) [OF I] and full = insertingD(7) [OF I] and room = insertingD(8) [OF I]
    and new = insertingD(9) [OF I]
  note nth_ys = inserting_nth_infos [OF I] and nth_cs' = inserting_nth_cells [OF I]
  note assms = assms(2-)
  have old: "\<exists>l'. l' < n \<and> cs ! l' = Live b \<and> (l' = (if l < i \<or> e < l then l else l - 1))"
    if "l < n" "l \<noteq> i" "ins_list i e (Live kv) cs ! l = Live b" for l b
    using that nth_cs' [of l] e by (auto split: if_splits)
  have fresh: "l = i" if "l < n" "ins_list i e (Live kv) cs ! l = Live b" "p_key_eq P (fst kv) (fst b)" for l b
    using old [of l b] that new by blast
  show ?thesis
  proof (cases "j = i \<or> l = i")
    case True
    then show ?thesis
      using fresh [OF assms(2,4)] fresh [OF assms(1,3)] assms(3-5) nth_cs' [of i]
        params_ok_eqD(2) [OF pok assms(5)] by auto
  next
    case False
    obtain j' l' where "j' < n" "l' < n" "cs ! j' = Live a" "cs ! l' = Live b"
      "j' = (if j < i \<or> e < j then j else j - 1)" "l' = (if l < i \<or> e < l then l else l - 1)"
      using old [OF assms(1) _ assms(3)] old [OF assms(2) _ assms(4)] False by blast
    moreover have "cs ! e = Raw" using core_free [OF c e(2)] e(3) by simp
    ultimately show ?thesis
      using coreD(9) [OF c _ _ _ _ assms(5), of j' l'] False e
      by (auto split: if_splits)
  qed
qed

lemma core_insert:
  assumes I: "inserting P m s n xs ys cs kv i e"
  shows "core P m s n ys (ins_list i e (Live kv) cs)"
  unfolding core_def
proof (intro conjI)
  note c = insertingD(2) [OF I] and e = insertingD(4,5) [OF I]
  note nth_ys = inserting_nth_infos [OF I]
  show "\<forall>j. n < j \<and> j < n + 8 \<longrightarrow> ys ! j = 0" "ys ! n = 1"
    using coreD(5,6) [OF c] nth_ys e(1,2) by auto
  show "\<forall>j<n. node_ok P m s j (ys ! j) (ins_list i e (Live kv) cs ! j)" using inserting_nodes [OF I] by blast
  show "\<forall>j. Suc j < n \<and> 2 * inc_of s \<le> ys ! Suc j \<longrightarrow> ys ! Suc j \<le> ys ! j + inc_of s"
    using inserting_neighbours [OF I] by blast
  show "\<forall>j<n. \<forall>l<n. \<forall>a b. ins_list i e (Live kv) cs ! j = Live a \<and>
      ins_list i e (Live kv) cs ! l = Live b \<and> p_key_eq P (fst a) (fst b) \<longrightarrow> j = l"
    using inserting_unique [OF I] by blast
qed (use coreD(3,4) [OF insertingD(2) [OF I]] inserting_lens [OF I] insertingD(4,5) [OF I] in \<open>simp_all add: size_simps\<close>)

section \<open>\<open>place_node\<close>\<close>

lemma ins_list_same: "i < length xs \<Longrightarrow> ins_list i i v xs = xs[i := v]"
  by (simp add: ins_list_def upd_conv_take_nth_drop)

lemma shiftUp_cells_spec:
  assumes "ins < e" "e < length cs" "cs ! e = Raw"
    and "\<forall>j. ins \<le> j \<and> j < e \<longrightarrow> (\<exists>v. cs ! j = Live v)"
  shows "\<exists>v cs1 cs2 cs3. move_at cs (e - 1) = Some (v, cs1) \<and> construct_at cs1 e v = Some cs2 \<and>
     shiftUp_moves cs2 e ins = Some cs3 \<and> length cs3 = length cs \<and> cs3 ! ins \<noteq> Raw \<and>
     cs3[ins := Live w] = ins_list ins e (Live w) cs"
proof -
  obtain i where i: "e = Suc i" "ins \<le> i" using assms(1) by (cases e) auto
  then obtain v where v: "cs ! i = Live v" using assms(4) by auto
  let ?cs2 = "cs[i := Moved, e := Live v]"
  have m: "move_at cs (e - 1) = Some (v, cs[i := Moved])"
    and k: "construct_at (cs[i := Moved]) e v = Some ?cs2"
    using i v assms by simp_all
  obtain cs3 where cs3: "shiftUp_moves ?cs2 e ins = Some cs3" "length cs3 = length cs"
    "\<forall>j. cs3 ! j = (if ins < j \<and> j \<le> i then ?cs2 ! (j - 1)
                     else if j = ins \<and> ins < i then Moved else ?cs2 ! j)"
    using shiftUp_moves_spec [OF i(2), of ?cs2] i assms(2,4) by auto
  have "cs3 ! ins = Moved" using cs3(3) [rule_format, of ins] i assms(2) by auto
  moreover have "cs3[ins := Live w] = ins_list ins e (Live w) cs"
  proof (rule nth_equalityI)
    show "length (cs3[ins := Live w]) = length (ins_list ins e (Live w) cs)"
      using cs3(2) assms by (simp add: size_simps)
    fix j assume "j < length (cs3[ins := Live w])"
    then have j: "j < length cs" using cs3(2) by simp
    consider "j = ins" | "j = e" | "ins < j" "j < e" | "j < ins \<or> e < j" by linarith
    then show "cs3[ins := Live w] ! j = ins_list ins e (Live w) cs ! j"
      using nth_ins_list [of ins e cs "Live w" j] cs3(2) cs3(3) [rule_format, of j] i v j assms
      by cases (auto simp: nth_list_update)
  qed
  ultimately show ?thesis using m k cs3(1,2) by auto
qed

text \<open>The two ways of placing a node: at a free place, and after the nodes up to the next free place have moved.\<close>

definition marked_full :: "('k, 'v) table \<Rightarrow> nat \<Rightarrow> ('k, 'v) table" where
  "marked_full t b = (if b + mInfoInc t > 255 then t\<lparr>mMaxNumElementsAllowed := 0\<rparr> else t)"

lemma marked_full_simps [simp]:
  "mInfo (marked_full t b) = mInfo t" "mKeyVals (marked_full t b) = mKeyVals t" "mInfoInc (marked_full t b) = mInfoInc t"
  "mNumElements (marked_full t b) = mNumElements t"
  by (simp_all add: marked_full_def)

definition placed :: "('k, 'v) table \<Rightarrow> nat \<Rightarrow> nat \<Rightarrow> nat \<Rightarrow> 'k \<times> 'v \<Rightarrow> nat list \<Rightarrow> nat \<Rightarrow> bool" where
  "placed t i e b kv ys mx \<longleftrightarrow>
     place_node t i b kv = Some (t\<lparr>mKeyVals := ins_list i e (Live kv) (mKeyVals t),
        mInfo := Some ys, mMaxNumElementsAllowed := mx, mNumElements := Suc (mNumElements t)\<rparr>) \<and>
     infos_after i e b (mInfoInc t) (infos t) ys \<and>
     (mx = 0 \<or> mx = mMaxNumElementsAllowed t \<and> (\<forall>j<numNodes t. ys ! j + mInfoInc t \<le> 255))"

lemma place_node_free:
  assumes "mInfo t = Some xs" "numNodes t \<le> length xs" "i < numNodes t" "find_empty (marked_full t b) i = Some i" "mKeyVals t ! i = Raw" "b \<le> 255"
    "mNumElements t < 2 ^ 63" and room: "\<forall>j<numNodes t. xs ! j + mInfoInc t \<le> 255"
  shows "\<exists>ys mx. placed t i i b kv ys mx"
proof -
  let ?ys = "xs[i := b]" and ?mx = "mMaxNumElementsAllowed (marked_full t b)"
  have "place_node t i b kv = Some (t\<lparr>mKeyVals := ins_list i i (Live kv) (mKeyVals t),
      mInfo := Some ?ys, mMaxNumElementsAllowed := ?mx, mNumElements := Suc (mNumElements t)\<rparr>)"
    using assms by (simp add: place_node_def Let_def flip: marked_full_def) (simp add: marked_full_def wr_info_def ins_list_same)
  moreover have "infos_after i i b (mInfoInc t) xs ?ys" using assms(2,3) by (auto simp: infos_after_def nth_list_update)
  moreover have "?mx = 0 \<or> ?mx = mMaxNumElementsAllowed t \<and> (\<forall>j<numNodes t. ?ys ! j + mInfoInc t \<le> 255)"
    using room assms(2,3) by (auto simp: marked_full_def nth_list_update)
  ultimately show ?thesis using assms(1) by (auto simp: placed_def)
qed

lemma shiftUp_spec:
  assumes "mInfo t = Some xs" "i < e" "e < numNodes t" "e < length xs" "mKeyVals t ! e = Raw"
    and lv: "\<forall>j. i \<le> j \<and> j < e \<longrightarrow> (\<exists>v. mKeyVals t ! j = Live v)" and room: "\<forall>j. i \<le> j \<and> j < e \<longrightarrow> xs ! j + mInfoInc t \<le> 255"
  shows "\<exists>cs ys mx. shiftUp t e i = Some (t\<lparr>mKeyVals := cs, mInfo := Some ys, mMaxNumElementsAllowed := mx\<rparr>) \<and>
     length cs = numNodes t \<and> cs ! i \<noteq> Raw \<and> cs[i := Live kv] = ins_list i e (Live kv) (mKeyVals t) \<and>
     length ys = length xs \<and> (\<forall>j. ys ! j = (if i < j \<and> j \<le> e then xs ! (j - 1) + mInfoInc t else xs ! j)) \<and>
     (mx = 0 \<or> mx = mMaxNumElementsAllowed t \<and> (\<forall>j. i < j \<and> j \<le> e \<longrightarrow> ys ! j + mInfoInc t \<le> 255))"
proof -
  obtain v cs1 cs2 cs3 where cs: "move_at (mKeyVals t) (e - 1) = Some (v, cs1)" "construct_at cs1 e v = Some cs2"
    "shiftUp_moves cs2 e i = Some cs3" "length cs3 = numNodes t" "cs3 ! i \<noteq> Raw" "cs3[i := Live kv] = ins_list i e (Live kv) (mKeyVals t)"
    using shiftUp_cells_spec [OF assms(2,3,5) lv] by blast
  let ?t = "t\<lparr>mKeyVals := cs3\<rparr>"
  have t: "mInfo ?t = Some xs" "mInfoInc ?t = mInfoInc t" "mMaxNumElementsAllowed ?t = mMaxNumElementsAllowed t" using assms(1) by simp_all
  from shiftUp_infos_spec [OF less_imp_le [OF assms(2)] t(1) assms(4), unfolded t(2,3), OF room] obtain ys mx where
    "shiftUp_infos ?t e i = Some (?t\<lparr>mInfo := Some ys, mMaxNumElementsAllowed := mx\<rparr>)"
    "length ys = length xs" "\<forall>j. ys ! j = (if i < j \<and> j \<le> e then xs ! (j - 1) + mInfoInc t else xs ! j)"
    "mx = 0 \<or> mx = mMaxNumElementsAllowed t \<and> (\<forall>j. i < j \<and> j \<le> e \<longrightarrow> ys ! j + mInfoInc t \<le> 255)" by blast
  moreover from this(1) have "shiftUp t e i = Some (?t\<lparr>mInfo := Some ys, mMaxNumElementsAllowed := mx\<rparr>)"
    using cs(1-3) assms(2) by (simp add: shiftUp_def)
  ultimately show ?thesis using cs(4-6) by blast
qed

lemma place_node_shift:
  assumes mi: "mInfo t = Some xs" and len: "numNodes t \<le> length xs" and e: "find_empty (marked_full t b) i = Some e" "i < e" "e < numNodes t"
    and raw: "mKeyVals t ! e = Raw" and b: "b \<le> 255" and num: "mNumElements t < 2 ^ 63"
    and room: "\<forall>j<numNodes t. xs ! j + mInfoInc t \<le> 255" and lv: "\<forall>j. i \<le> j \<and> j < e \<longrightarrow> (\<exists>v. mKeyVals t ! j = Live v)"
  shows "\<exists>ys mx. placed t i e b kv ys mx"
proof -
  let ?t1 = "marked_full t b" and ?inc = "mInfoInc t"
  have "e < length xs" "\<forall>j. i \<le> j \<and> j < e \<longrightarrow> xs ! j + ?inc \<le> 255" using e(3) len room by auto
  from shiftUp_spec [of ?t1 xs i e kv, unfolded marked_full_simps, OF mi e(2,3) this(1) raw lv this(2)]
  obtain cs ys mx where up: "shiftUp ?t1 e i = Some (?t1\<lparr>mKeyVals := cs, mInfo := Some ys, mMaxNumElementsAllowed := mx\<rparr>)"
    "length cs = numNodes t" "cs ! i \<noteq> Raw" "cs[i := Live kv] = ins_list i e (Live kv) (mKeyVals t)" "length ys = length xs"
    "\<forall>j. ys ! j = (if i < j \<and> j \<le> e then xs ! (j - 1) + ?inc else xs ! j)"
    "mx = 0 \<or> mx = mMaxNumElementsAllowed ?t1 \<and> (\<forall>j. i < j \<and> j \<le> e \<longrightarrow> ys ! j + ?inc \<le> 255)"
    by blast
  have "place_node t i b kv = Some (t\<lparr>mKeyVals := ins_list i e (Live kv) (mKeyVals t),
      mInfo := Some (ys[i := b]), mMaxNumElementsAllowed := mx, mNumElements := Suc (mNumElements t)\<rparr>)"
    using e up(1-5) b num len
    by (simp add: place_node_def Let_def flip: marked_full_def) (simp add: marked_full_def wr_info_def)
  moreover have "infos_after i e b ?inc xs (ys[i := b])" using up(5,6) e len by (auto simp: infos_after_def nth_list_update)
  moreover have "mx = 0 \<or> mx = mMaxNumElementsAllowed t \<and> (\<forall>j<numNodes t. ys[i := b] ! j + ?inc \<le> 255)"
  proof (cases "mx = 0")
    case False
    then have "b + ?inc \<le> 255" "mx = mMaxNumElementsAllowed t" using up(7) by (auto simp: marked_full_def split: if_splits)
    moreover have "ys ! j + ?inc \<le> 255" if "j < numNodes t" for j using up(6,7) False room that by (cases "i < j \<and> j \<le> e") auto
    ultimately show ?thesis using up(5) len e by (auto simp: nth_list_update)
  qed simp
  ultimately show ?thesis using mi by (auto simp: placed_def)
qed

lemma place_node_spec:
  assumes p: "params_ok P" and t: "tbl_core P t" and st: "stopT P t (fst kv) i"
    and z: "i \<le> z" "z < numNodes t" "infos t ! z = 0"
    and room: "\<forall>j<numNodes t. infos t ! j + mInfoInc t \<le> 255"
    and new: "\<forall>j. \<not> holds P t (fst kv) j"
    and num: "mNumElements t < 2 ^ 63" and b: "b = infoT P t (fst kv) i"
  shows "\<exists>e ys mx. place_node t i b kv = Some (t\<lparr>mKeyVals := ins_list i e (Live kv) (mKeyVals t),
        mInfo := Some ys, mMaxNumElementsAllowed := mx, mNumElements := Suc (mNumElements t)\<rparr>) \<and>
     inserting P (mMask t) (mInfoHashShift t) (numNodes t) (infos t) ys (mKeyVals t) kv i e \<and>
     (mx = 0 \<or> mx = mMaxNumElementsAllowed t \<and> (\<forall>j<numNodes t. ys ! j + mInfoInc t \<le> 255))"
proof -
  obtain xs where mi: "mInfo t = Some xs" using t by (auto simp: tbl_core_def)
  have xs: "infos t = xs" using mi by simp
  let ?n = "numNodes t" and ?cs = "mKeyVals t" and ?inc = "mInfoInc t"
  note c = tbl_core_core [OF t, unfolded xs] and len = tblD(1) [OF t, unfolded xs]
  note st = st [unfolded xs] and z = z [unfolded xs] and room = room [unfolded xs]
  have inc: "?inc = inc_of (mInfoHashShift t)" by (rule tbl_inc [OF t])
  have b255: "b \<le> 255" using stop_info_le [OF c st] z room inc b by auto
  have t1: "mInfo (marked_full t b) = Some xs" by (simp add: mi)
  obtain e where e: "find_empty (marked_full t b) i = Some e" "i \<le> e" "e \<le> z" "xs ! e = 0"
    "\<forall>j. i \<le> j \<and> j < e \<longrightarrow> xs ! j \<noteq> 0"
    using find_empty_spec [OF t1 z(1) _ z(3)] z(2) len by auto
  have en: "e < ?n" using e(3) z(2) by simp
  have raw: "?cs ! e = Raw" using core_free [OF c en] e(4) by simp
  have lv: "\<forall>j. i \<le> j \<and> j < e \<longrightarrow> (\<exists>v. ?cs ! j = Live v)"
    using core_occupied [OF c] e(5) en by auto
  have ins: "inserting P (mMask t) (mInfoHashShift t) ?n xs ys ?cs kv i e"
    if "infos_after i e b ?inc xs ys" for ys
    using p c st e en room new that b inc by (auto simp: inserting_def holds_def)
  have "\<exists>ys mx. placed t i e b kv ys mx"
  proof (cases "e = i")
    case True
    then show ?thesis using place_node_free [OF mi _ _ _ _ b255 num room] e(1) raw en len by simp
  next
    case False
    then have "i < e" using e(2) by simp
    from place_node_shift [OF mi _ e(1) this en raw b255 num room lv] len show ?thesis by simp
  qed
  then show ?thesis unfolding placed_def xs using ins by blast
qed

end
