(* ===== verification/Hash_Table_Remove.thy ===== *)
theory Hash_Table_Remove
  imports Hash_Table_Update
begin

text \<open>
  Removing a node (\<^verbatim>\<open>shiftDown\<close>) and halving the info bytes (\<^verbatim>\<open>try_increase_info\<close>).
\<close>

section \<open>The loop of \<open>shiftDown\<close>\<close>

lemma shiftDown_loop_spec:
  assumes "mInfo t = Some xs" "length xs = numNodes t + 8" "idx < numNodes t"
    and "mKeyVals t ! idx \<noteq> Raw" "xs ! numNodes t < 2 * mInfoInc t" "0 < mInfoInc t"
    and "\<forall>j. idx < j \<and> j < numNodes t \<and> 2 * mInfoInc t \<le> xs ! j \<longrightarrow>
           xs ! j \<le> 255 \<and> (\<exists>v. mKeyVals t ! j = Live v)"
  shows "\<exists>z ys ds. shiftDown_loop t idx = Some (t\<lparr>mInfo := Some ys, mKeyVals := ds\<rparr>, z) \<and>
     idx \<le> z \<and> z < numNodes t \<and> length ys = length xs \<and> length ds = numNodes t \<and>
     (\<forall>j. idx \<le> j \<and> j < z \<longrightarrow> 2 * mInfoInc t \<le> xs ! Suc j) \<and> xs ! Suc z < 2 * mInfoInc t \<and>
     (\<forall>j. ys ! j = (if idx \<le> j \<and> j < z then xs ! Suc j - mInfoInc t else xs ! j)) \<and>
     (\<forall>j. ds ! j = (if idx \<le> j \<and> j < z then mKeyVals t ! Suc j
                    else if j = z \<and> idx < z then Moved else mKeyVals t ! j))"
  using assms
proof (induction "numNodes t - idx" arbitrary: idx t xs rule: less_induct)
  case less
  let ?n = "numNodes t" and ?inc = "mInfoInc t"
  have rdS: "rd (infos t) (Suc idx) = Some (xs ! Suc idx)" using less.prems(1-3) by simp
  show ?case
  proof (cases "2 * ?inc \<le> xs ! Suc idx")
    case False
    then have "shiftDown_loop t idx = Some (t, idx)"
      using rdS by (simp add: shiftDown_loop.simps [of t idx])
    moreover have "t\<lparr>mInfo := Some xs, mKeyVals := mKeyVals t\<rparr> = t" using less.prems(1) by simp
    ultimately show ?thesis
      using False less.prems(1-3)
      by (intro exI [of _ idx] exI [of _ xs] exI [of _ "mKeyVals t"]) auto
  next
    case True
    have S: "Suc idx < ?n"
      using True less.prems(3,5) by (metis Suc_lessI not_le)
    then obtain v where v: "mKeyVals t ! Suc idx = Live v" and b: "xs ! Suc idx \<le> 255"
      using True less.prems(7) by blast
    let ?xs' = "xs[idx := xs ! Suc idx - ?inc]"
    let ?cs' = "(mKeyVals t)[Suc idx := Moved, idx := Live v]"
    let ?t' = "t\<lparr>mInfo := Some ?xs', mKeyVals := ?cs'\<rparr>"
    have step: "shiftDown_loop t idx = shiftDown_loop ?t' (Suc idx)"
      using True rdS v b S less.prems(1-4)
      by (simp add: shiftDown_loop.simps [of t idx] wr_info_def)
    have n': "numNodes ?t' = ?n" "mInfoInc ?t' = ?inc" "mKeyVals ?t' = ?cs'" by simp_all
    have m': "mInfo ?t' = Some ?xs'" and less_diff: "?n - Suc idx < ?n - idx" using S by simp_all
    have IHp: "\<forall>j. Suc idx < j \<and> j < ?n \<and> 2 * ?inc \<le> ?xs' ! j \<longrightarrow>
           ?xs' ! j \<le> 255 \<and> (\<exists>v. ?cs' ! j = Live v)"
      using less.prems(7) by auto
    have p1: "length xs = ?n + 8" "Suc idx < ?n" "?cs' ! Suc idx \<noteq> Raw" "?xs' ! ?n < 2 * ?inc"
      using less.prems S by (simp_all add: nth_list_update)
    obtain z ys ds where z:
      "shiftDown_loop ?t' (Suc idx) = Some (?t'\<lparr>mInfo := Some ys, mKeyVals := ds\<rparr>, z)"
      "Suc idx \<le> z" "z < ?n" "length ys = length xs" "length ds = ?n"
      "\<forall>j. Suc idx \<le> j \<and> j < z \<longrightarrow> 2 * ?inc \<le> ?xs' ! Suc j" "?xs' ! Suc z < 2 * ?inc"
      "\<forall>j. ys ! j = (if Suc idx \<le> j \<and> j < z then ?xs' ! Suc j - ?inc else ?xs' ! j)"
      "\<forall>j. ds ! j = (if Suc idx \<le> j \<and> j < z then ?cs' ! Suc j
                    else if j = z \<and> Suc idx < z then Moved else ?cs' ! j)"
      using less.hyps [of ?t' "Suc idx" ?xs', unfolded n' length_list_update,
          OF less_diff m' p1 less.prems(6) IHp]
      by blast
    have ysn: "ys ! j = (if idx \<le> j \<and> j < z then xs ! Suc j - ?inc else xs ! j)" for j
      using z(2,8) less.prems(2,3) by (cases "j = idx") (auto simp: nth_list_update)
    have dsn: "ds ! j = (if idx \<le> j \<and> j < z then mKeyVals t ! Suc j
                    else if j = z \<and> idx < z then Moved else mKeyVals t ! j)" for j
    proof -
      consider "j = idx" | "j = Suc idx" | "j < idx \<or> Suc idx < j" by linarith
      then show ?thesis
        using z(2,3) z(9) [rule_format, of j] S v by cases (auto simp: nth_list_update)
    qed
    have big: "2 * ?inc \<le> xs ! Suc j" if "idx \<le> j" "j < z" for j
      using that z(6) [rule_format, of j] True by (cases "j = idx") auto
    have st: "shiftDown_loop t idx = Some (t\<lparr>mInfo := Some ys, mKeyVals := ds\<rparr>, z)"
      using step z(1) by simp
    have "xs ! Suc z < 2 * ?inc" using z(2,7) by simp
    with st z(2-5) ysn dsn big show ?thesis
      by (intro exI [of _ z] exI [of _ ys] exI [of _ ds]) simp
  qed
qed

section \<open>Removing keeps the invariant\<close>

definition removing ::
  "'k table_params \<Rightarrow> nat \<Rightarrow> nat \<Rightarrow> nat \<Rightarrow> nat list \<Rightarrow> nat list \<Rightarrow> ('k \<times> 'v) cell list \<Rightarrow>
     nat \<Rightarrow> nat \<Rightarrow> bool" where
  "removing P m s n xs ys cs i z \<longleftrightarrow>
     core P m s n xs cs \<and> i \<le> z \<and> z < n \<and> xs ! Suc z < 2 * inc_of s \<and>
     (\<forall>j. i \<le> j \<and> j < z \<longrightarrow> 2 * inc_of s \<le> xs ! Suc j) \<and> length ys = length xs \<and>
     (\<forall>j. ys ! j = (if i \<le> j \<and> j < z then xs ! Suc j - inc_of s
                    else if j = z then 0 else xs ! j))"

lemma removingD:
  assumes "removing P m s n xs ys cs i z"
  shows "core P m s n xs cs" "i \<le> z" "z < n" "xs ! Suc z < 2 * inc_of s"
    and "\<And>j. i \<le> j \<Longrightarrow> j < z \<Longrightarrow> 2 * inc_of s \<le> xs ! Suc j" "length ys = length xs"
    and "\<And>j. ys ! j = (if i \<le> j \<and> j < z then xs ! Suc j - inc_of s
                    else if j = z then 0 else xs ! j)"
  using assms unfolding removing_def by blast+

lemma removing_nth_cells:
  assumes R: "removing P m s n xs ys cs i z"
  shows "del_list i z Raw cs ! j =
     (if i \<le> j \<and> j < z then cs ! Suc j else if j = z then Raw else cs ! j)"
  using nth_del_list [of i z cs Raw j] removingD(2,3) [OF R] coreD(2) [OF removingD(1) [OF R]]
  by auto

lemma removing_nodes:
  assumes R: "removing P m s n xs ys cs i z" and j: "j < n"
  shows "node_ok P m s j (ys ! j) (del_list i z Raw cs ! j)"
proof -
  note c = removingD(1) [OF R] and yj = removingD(7) [OF R, of j]
    and cj = removing_nth_cells [OF R, of j]
  consider "i \<le> j" "j < z" | "j = z" | "j < i \<or> z < j" by linarith
  then show ?thesis
  proof cases
    case 1
    have S: "Suc j < n" using 1 removingD(3) [OF R] by simp
    have big: "2 * inc_of s \<le> xs ! Suc j" using removingD(5) [OF R 1] .
    then obtain kv where kv: "cs ! Suc j = Live kv"
      using core_occupied [OF c S] inc_of_ge [OF coreD(4) [OF c]] by auto
    note live = core_live [OF c S kv]
    have "home_of P m (fst kv) \<noteq> Suc j"
      using big live(2) einfo_home [OF coreD(4) [OF c], of P m "fst kv"] by auto
    then have "home_of P m (fst kv) \<le> j" using live(1) by simp
    then show ?thesis
      using 1 kv live yj cj by (simp add: node_ok_def einfo_Suc)
  next
    case 2
    then show ?thesis using yj cj by (simp add: node_ok_def)
  next
    case 3
    then show ?thesis using coreD(7) [OF c j] yj cj removingD(2) [OF R] by auto
  qed
qed

lemma removing_neighbours:
  assumes R: "removing P m s n xs ys cs i z" and S: "Suc j < n" and big: "2 * inc_of s \<le> ys ! Suc j"
  shows "ys ! Suc j \<le> ys ! j + inc_of s"
proof -
  note c = removingD(1) [OF R] and y1 = removingD(7) [OF R, of j]
    and y2 = removingD(7) [OF R, of "Suc j"] and iz = removingD(2,3) [OF R]
  have pos: "2 \<le> inc_of s" using inc_of_ge [OF coreD(4) [OF c]] .
  have step: "2 * inc_of s \<le> xs ! Suc l \<Longrightarrow> Suc l < n \<Longrightarrow> xs ! Suc l \<le> xs ! l + inc_of s" for l
    using coreD(8) [OF c] by blast
  consider "Suc j < i" | "Suc j = i" | "i \<le> j" "Suc j < z" | "Suc j = z" | "j = z" | "z < j"
    using iz(1) by linarith
  then show ?thesis
  proof cases
    case 2
    show ?thesis
    proof (cases "i < z")
      case True
      have "xs ! Suc i \<le> xs ! i + inc_of s"
        using step [of i] removingD(5) [OF R, of i] True iz(2) by simp
      then have "ys ! Suc j \<le> xs ! i" using y2 2 True by simp
      moreover have "xs ! Suc j \<le> xs ! j + inc_of s"
        using step [of j] big calculation 2 S by simp
      ultimately show ?thesis using y1 2 iz(1) by simp
    next
      case False
      then show ?thesis using y2 2 iz(1) big pos by simp
    qed
  next
    case 3
    then have "xs ! Suc (Suc j) \<le> xs ! Suc j + inc_of s"
      using step [of "Suc j"] removingD(5) [OF R, of "Suc j"] iz(2) by simp
    moreover have "2 * inc_of s \<le> xs ! Suc j" using removingD(5) [OF R, of j] 3 by simp
    ultimately show ?thesis using 3 y1 y2 by simp
  next
    case 4
    then show ?thesis using y2 big pos by simp
  next
    case 5
    then show ?thesis using y2 big removingD(4) [OF R] by simp
  qed (use step [OF _ S] big y1 y2 iz in auto)
qed

lemma removing_old:
  assumes R: "removing P m s n xs ys cs i z" and "j < n" "del_list i z Raw cs ! j = Live a"
  shows "\<exists>j'. j' < n \<and> cs ! j' = Live a \<and> j' = (if i \<le> j \<and> j < z then Suc j else j)"
  using assms(2,3) removing_nth_cells [OF R, of j] removingD(3) [OF R] by (auto split: if_splits)

lemma core_remove:
  assumes R: "removing P m s n xs ys cs i z"
  shows "core P m s n ys (del_list i z Raw cs)"
  unfolding core_def
proof (intro conjI)
  note c = removingD(1) [OF R] and iz = removingD(2,3) [OF R]
  show "length ys = n + 8" "length (del_list i z Raw cs) = n" "m < n" "s \<le> 4"
    using coreD(1-4) [OF c] iz removingD(6) [OF R] by (simp_all add: size_simps)
  show "\<forall>j. n < j \<and> j < n + 8 \<longrightarrow> ys ! j = 0" "ys ! n = 1"
    using coreD(5,6) [OF c] removingD(7) [OF R] iz by auto
  show "\<forall>j<n. node_ok P m s j (ys ! j) (del_list i z Raw cs ! j)"
    using removing_nodes [OF R] by blast
  show "\<forall>j. Suc j < n \<and> 2 * inc_of s \<le> ys ! Suc j \<longrightarrow> ys ! Suc j \<le> ys ! j + inc_of s"
    using removing_neighbours [OF R] by blast
  show "\<forall>j<n. \<forall>l<n. \<forall>a b. del_list i z Raw cs ! j = Live a \<and>
      del_list i z Raw cs ! l = Live b \<and> p_key_eq P (fst a) (fst b) \<longrightarrow> j = l"
  proof (intro allI impI)
    fix j l a b
    assume "j < n" "l < n" and ab: "del_list i z Raw cs ! j = Live a \<and>
      del_list i z Raw cs ! l = Live b \<and> p_key_eq P (fst a) (fst b)"
    then obtain j' l' where "j' < n" "l' < n" "cs ! j' = Live a" "cs ! l' = Live b"
      "j' = (if i \<le> j \<and> j < z then Suc j else j)" "l' = (if i \<le> l \<and> l < z then Suc l else l)"
      using removing_old [OF R] by blast
    moreover from this have "j' = l'" using coreD(9) [OF c] ab by blast
    moreover have "j \<noteq> z" "l \<noteq> z" using ab removing_nth_cells [OF R] iz(1) by auto
    ultimately show "j = l" using iz by (auto split: if_splits)
  qed
qed

lemma shiftDown_spec:
  assumes t: "tbl_core P t" and i: "i < numNodes t" and lv: "mKeyVals t ! i = Live kv"
  shows "\<exists>z ys. shiftDown t i = Some (t\<lparr>mInfo := Some ys, mKeyVals := del_list i z Raw (mKeyVals t)\<rparr>) \<and>
     removing P (mMask t) (mInfoHashShift t) (numNodes t) (infos t) ys (mKeyVals t) i z"
proof -
  obtain xs where mi: "mInfo t = Some xs" using t by (auto simp: tbl_core_def)
  have xs: "infos t = xs" using mi by simp
  let ?n = "numNodes t" and ?inc = "mInfoInc t" and ?cs = "mKeyVals t"
  note c = tbl_core_core [OF t, unfolded xs] and len = tblD(1) [OF t, unfolded xs]
  have inc: "?inc = inc_of (mInfoHashShift t)" "2 \<le> ?inc"
    using tbl_inc [OF t] inc_of_ge [OF tblD(4) [OF t]] by simp_all
  have pre: "\<forall>j. i < j \<and> j < ?n \<and> 2 * ?inc \<le> xs ! j \<longrightarrow> xs ! j \<le> 255 \<and> (\<exists>v. ?cs ! j = Live v)"
  proof (intro allI impI)
    fix j assume j: "i < j \<and> j < ?n \<and> 2 * ?inc \<le> xs ! j"
    then have "xs ! j \<noteq> 0" using inc(2) by linarith
    with j core_occupied [OF c, of j] core_le_255 [OF c, of j]
    show "xs ! j \<le> 255 \<and> (\<exists>v. ?cs ! j = Live v)" by simp
  qed
  have end_small: "xs ! ?n < 2 * ?inc" using coreD(5) [OF c] inc(2) by simp
  have raw: "?cs ! i \<noteq> Raw" using lv by simp
  obtain z ys ds where z: "shiftDown_loop t i = Some (t\<lparr>mInfo := Some ys, mKeyVals := ds\<rparr>, z)"
     "i \<le> z" "z < ?n" "length ys = length xs" "length ds = ?n"
     "\<forall>j. i \<le> j \<and> j < z \<longrightarrow> 2 * ?inc \<le> xs ! Suc j" "xs ! Suc z < 2 * ?inc"
     "\<forall>j. ys ! j = (if i \<le> j \<and> j < z then xs ! Suc j - ?inc else xs ! j)"
     "\<forall>j. ds ! j = (if i \<le> j \<and> j < z then ?cs ! Suc j else if j = z \<and> i < z then Moved else ?cs ! j)"
    using shiftDown_loop_spec [OF mi len i raw end_small _ pre] inc(2) by auto
  have dsz: "ds ! z \<noteq> Raw" using z(2,9) raw by (cases "i < z") auto
  have cells: "ds[z := Raw] = del_list i z Raw ?cs"
    using z(2,3,5,9) nth_del_list [of i z ?cs Raw]
    by (intro nth_equalityI) (auto simp: nth_list_update size_simps)
  have "shiftDown t i = Some (t\<lparr>mInfo := Some (ys[z := 0]), mKeyVals := del_list i z Raw ?cs\<rparr>)"
    using z(1,3-5) len dsz by (simp add: shiftDown_def wr_info_def flip: cells)
  moreover have "removing P (mMask t) (mInfoHashShift t) ?n xs (ys[z := 0]) ?cs i z"
    using c z len by (auto simp: removing_def inc(1) nth_list_update)
  ultimately show ?thesis unfolding xs by blast
qed

end
