(* ===== verification/Hash_Table_Grow.thy ===== *)
theory Hash_Table_Grow
  imports Hash_Table_Remove
begin

unbundle bit_operations_syntax

text \<open>
  Growing: the byte-parallel halving of the info bytes (\<^verbatim>\<open>try_increase_info\<close>), the invariant of
  the whole object, allocation (\<^verbatim>\<open>init_data\<close>), and the re-insertion of the nodes
  (\<^verbatim>\<open>insert_move\<close>, \<^verbatim>\<open>rehashPowerOfTwo\<close>, \<^verbatim>\<open>increase_size\<close>).
\<close>

section \<open>Eight bytes at a time\<close>

lemma val_bytes_less: "\<forall>b\<in>set bs. b < 256 \<Longrightarrow> val_bytes bs < 256 ^ length bs"
proof (induction bs)
  case (Cons b bs)
  then have "val_bytes bs + 1 \<le> 256 ^ length bs" "b < 256" by auto
  then show ?case by simp
qed simp

lemma bit_val_bytes:
  "\<forall>b\<in>set bs. b < 256 \<Longrightarrow>
     bit (val_bytes bs) k \<longleftrightarrow> k div 8 < length bs \<and> bit (bs ! (k div 8)) (k mod 8)"
proof (induction bs arbitrary: k)
  case (Cons b bs)
  show ?case
  proof (cases "k < 8")
    case True
    have "(256::nat) = 2 ^ (8 - k) * 2 ^ k" using True by (simp flip: power_add)
    then have "val_bytes (b # bs) = b + (2 ^ (8 - k) * val_bytes bs) * 2 ^ k"
      by (simp add: ac_simps)
    then have "val_bytes (b # bs) div 2 ^ k = b div 2 ^ k + 2 ^ (8 - k) * val_bytes bs"
      by (simp only: div_mult_self1) simp
    moreover have "even ((2::nat) ^ (8 - k))" using True by simp
    ultimately show ?thesis using True by (simp add: bit_iff_odd)
  next
    case False
    then obtain j where k: "k = 8 + j" by (metis le_add_diff_inverse not_less)
    have "val_bytes (b # bs) div 2 ^ 8 = val_bytes bs" using Cons.prems by simp
    then have "val_bytes (b # bs) div 2 ^ k = val_bytes bs div 2 ^ j"
      by (simp only: k power_add div_mult2_eq)
    then have "bit (val_bytes (b # bs)) k = bit (val_bytes bs) j" by (simp only: bit_iff_odd)
    moreover have "k div 8 = Suc (j div 8)" "k mod 8 = j mod 8" using k by simp_all
    ultimately show ?thesis using Cons by simp
  qed
qed simp

lemma halve_word:
  assumes "length bs = 8" "\<forall>b\<in>set bs. b < 256"
  shows "val_bytes bs div 2 AND 0x7f7f7f7f7f7f7f7f = val_bytes (map (\<lambda>b. b div 2) bs)"
proof (rule bit_eqI)
  fix k
  have "replicate 8 x = [x, x, x, x, x, x, x, x]" for x :: nat by (simp add: numeral_eq_Suc)
  from this [of 127] have mask: "(0x7f7f7f7f7f7f7f7f::nat) = val_bytes (replicate 8 127)" by simp
  have "bit (0x7f7f7f7f7f7f7f7f::nat) k \<longleftrightarrow> k div 8 < 8 \<and> bit (127::nat) (k mod 8)"
    by (subst mask, subst bit_val_bytes) auto
  moreover have "(127::nat) = mask 7" by (simp add: mask_eq_exp_minus_1)
  then have "bit (127::nat) (k mod 8) \<longleftrightarrow> k mod 8 < 7"
    by (simp only: bit_mask_iff) (simp add: possible_bit_def)
  ultimately have m: "bit (0x7f7f7f7f7f7f7f7f::nat) k \<longleftrightarrow> k div 8 < 8 \<and> k mod 8 < 7" by blast
  have "bit (val_bytes bs div 2 AND 0x7f7f7f7f7f7f7f7f) k \<longleftrightarrow>
      bit (val_bytes bs) (Suc k) \<and> k div 8 < 8 \<and> k mod 8 < 7"
    by (simp only: bit_and_iff m bit_Suc)
  also have "\<dots> \<longleftrightarrow> k div 8 < 8 \<and> k mod 8 < 7 \<and> bit (bs ! (k div 8)) (Suc (k mod 8))"
  proof -
    have "k mod 8 < 7 \<Longrightarrow> Suc k div 8 = k div 8 \<and> Suc k mod 8 = Suc (k mod 8)"
      by (simp add: div_Suc mod_Suc)
    then show ?thesis using bit_val_bytes [OF assms(2), of "Suc k"] assms(1) by auto
  qed
  also have "\<dots> \<longleftrightarrow> k div 8 < 8 \<and> bit (bs ! (k div 8) div 2) (k mod 8)"
  proof -
    have "\<not> bit (bs ! (k div 8) div 2) 7" if "k div 8 < 8"
    proof -
      have "bs ! (k div 8) < 256" using assms that by simp
      then show ?thesis by (simp add: bit_iff_odd flip: div_mult2_eq)
    qed
    moreover have "k mod 8 < 8" by simp
    then have "k mod 8 < 7 \<or> k mod 8 = 7" by linarith
    ultimately show ?thesis by (auto simp: bit_Suc)
  qed
  also have "\<dots> \<longleftrightarrow> bit (val_bytes (map (\<lambda>b. b div 2) bs)) k"
  proof -
    have "\<forall>b\<in>set (map (\<lambda>b. b div 2) bs). b < (256::nat)" using assms(2) by force
    from bit_val_bytes [OF this, of k] show ?thesis using assms(1) by auto
  qed
  finally show "bit (val_bytes bs div 2 AND 0x7f7f7f7f7f7f7f7f) k \<longleftrightarrow>
      bit (val_bytes (map (\<lambda>b. b div 2) bs)) k" .
qed

lemma val_bytes_div:
  "\<forall>b\<in>set bs. b < 256 \<Longrightarrow> val_bytes bs div 256 ^ j = val_bytes (drop j bs)"
proof (induction bs arbitrary: j)
  case (Cons b bs)
  then show ?case by (cases j) (simp_all add: div_mult2_eq)
qed simp

lemma bytes64_val_bytes:
  assumes "length bs = 8" "\<forall>b\<in>set bs. b < 256"
  shows "bytes64 (val_bytes bs) = bs"
proof (rule nth_equalityI)
  fix j assume "j < length (bytes64 (val_bytes bs))"
  then have j: "j < 8" by (simp add: bytes64_def)
  then have "drop j bs = bs ! j # drop (Suc j) bs" using assms(1) by (simp add: Cons_nth_drop_Suc)
  then have "val_bytes (drop j bs) mod 256 = bs ! j" using assms j by simp
  then show "bytes64 (val_bytes bs) ! j = bs ! j"
    using j by (simp add: bytes64_def val_bytes_div [OF assms(2)])
qed (simp add: bytes64_def assms(1))

lemma halve_infos_spec:
  assumes "\<forall>b\<in>set bs. b < 256" "length bs = n + 8"
  shows "\<exists>ys. halve_infos bs i n = Some ys \<and> length ys = length bs \<and> (\<forall>j<i. ys ! j = bs ! j) \<and>
     (\<forall>j. i \<le> j \<and> j < n \<longrightarrow> ys ! j = bs ! j div 2) \<and>
     (\<forall>j. n \<le> j \<longrightarrow> ys ! j = bs ! j \<or> ys ! j = bs ! j div 2)"
  using assms
proof (induction "n - i" arbitrary: i bs rule: less_induct)
  case less
  show ?case
  proof (cases "i < n")
    case False
    then show ?thesis by (auto simp: halve_infos.simps [of bs i n])
  next
    case True
    let ?w = "take 8 (drop i bs)"
    let ?bs' = "take i bs @ map (\<lambda>b. b div 2) ?w @ drop (i + 8) bs"
    have w: "length ?w = 8" "\<forall>b\<in>set ?w. b < 256"
      using True less.prems by (auto dest: in_set_takeD in_set_dropD)
    have h: "\<forall>b\<in>set (map (\<lambda>b. b div 2) ?w). b < (256::nat)" using w(2) by force
    have step: "halve_infos bs i n = halve_infos ?bs' (i + 8) n"
      using True less.prems(2) w bytes64_val_bytes [of "map (\<lambda>b. b div 2) ?w"] h
      by (simp add: halve_infos.simps [of bs i n] load64_def store64_def halve_word)
    have nth': "?bs' ! j = (if i \<le> j \<and> j < i + 8 then bs ! j div 2 else bs ! j)" for j
      using True less.prems(2) by (auto simp: nth_append min_def)
    have len': "length ?bs' = n + 8" using True less.prems(2) by simp
    have set': "\<forall>b\<in>set ?bs'. b < 256"
      using less.prems(1) h by (auto dest: in_set_takeD in_set_dropD)
    have less_i: "n - (i + 8) < n - i" using True by simp
    obtain ys where ys: "halve_infos ?bs' (i + 8) n = Some ys" "length ys = length ?bs'"
      "\<forall>j<i + 8. ys ! j = ?bs' ! j" "\<forall>j. i + 8 \<le> j \<and> j < n \<longrightarrow> ys ! j = ?bs' ! j div 2"
      "\<forall>j. n \<le> j \<longrightarrow> ys ! j = ?bs' ! j \<or> ys ! j = ?bs' ! j div 2"
      using less.hyps [OF less_i set' len'] by blast
    have "ys ! j = bs ! j div 2" if "i \<le> j" "j < n" for j
      using that ys(3,4) nth' [of j] by (cases "j < i + 8") auto
    moreover have "ys ! j = bs ! j \<or> ys ! j = bs ! j div 2" if "n \<le> j" for j
      using that ys(3) [rule_format, of j] ys(5) [rule_format, of j] nth' [of j]
      by (cases "j < i + 8") auto
    ultimately show ?thesis
      using step ys(1,2,3) nth' len' less.prems(2) by (intro exI [of _ ys]) auto
  qed
qed

section \<open>The invariant of the object\<close>

text \<open>
  Either the object owns no memory (\<open>dummy\<close>: \<open>mMask\<close> is 0 and both pointers point at it), or it owns
  a block of the size its mask asks for, the arrays satisfy \<open>core\<close>, the counters agree with the
  nodes, and \<open>mMaxNumElementsAllowed\<close> is the load limit unless some info byte is about to
  overflow, in which case it is 0.
\<close>

definition dummy :: "('k, 'v) table \<Rightarrow> bool" where
  "dummy t \<longleftrightarrow> mMask t = 0 \<and> mKeyVals t = [] \<and> mInfo t = None \<and> mNumElements t = 0 \<and>
     mMaxNumElementsAllowed t = 0 \<and> mInfoInc t = InitialInfoInc \<and>
     mInfoHashShift t = InitialInfoHashShift"

abbreviation cap :: "'k table_params \<Rightarrow> ('k, 'v) table \<Rightarrow> nat" where
  "cap P t \<equiv> calcMaxNumElementsAllowed P (Suc (mMask t))"

definition room :: "('k, 'v) table \<Rightarrow> bool" where
  "room t \<longleftrightarrow> (\<forall>j<numNodes t. infos t ! j + mInfoInc t \<le> 255)"

definition sized :: "'k table_params \<Rightarrow> ('k, 'v) table \<Rightarrow> bool" where
  "sized P t \<longleftrightarrow> tbl_core P t \<and> (\<exists>b\<ge>3. Suc (mMask t) = 2 ^ b) \<and>
     numNodes t = calcNumElementsWithBuffer P (Suc (mMask t)) \<and> numNodes t + 8 < 2 ^ 48 \<and>
     mNumElements t = length (live (mKeyVals t)) \<and> mNumElements t \<le> cap P t \<and>
     (mMaxNumElementsAllowed t = 0 \<or> mMaxNumElementsAllowed t = cap P t \<and> room t)"

definition table_inv :: "'k table_params \<Rightarrow> ('k, 'v) table \<Rightarrow> bool" where
  "table_inv P t \<longleftrightarrow> dummy t \<or> sized P t"

lemma params_ok_sizes:
  assumes "params_ok P"
  shows "10 < p_max_load P" "p_max_load P < 100" "0 < p_sizeof_node P" "p_sizeof_node P < 2 ^ 12"
    and "p_alloc P n b \<Longrightarrow> b < 2 ^ 48"
  using assms by (auto simp: params_ok_def)

lemma sizedD:
  assumes "sized P t"
  shows "tbl_core P t" "\<exists>b\<ge>3. Suc (mMask t) = 2 ^ b"
    and "numNodes t = calcNumElementsWithBuffer P (Suc (mMask t))" "numNodes t + 8 < 2 ^ 48"
    and "mNumElements t = length (live (mKeyVals t))" "mNumElements t \<le> cap P t"
    and "mMaxNumElementsAllowed t = 0 \<or> mMaxNumElementsAllowed t = cap P t \<and> room t"
  using assms by (auto simp: sized_def)

subsection \<open>Sizes without wrap-around\<close>

lemma calcMax_eq:
  assumes "params_ok P" "M < 2 ^ 56"
  shows "calcMaxNumElementsAllowed P M = M * p_max_load P div 100"
proof -
  have "M * p_max_load P < 2 ^ 56 * 100"
    using assms(2) params_ok_sizes(2) [OF assms(1)] by (intro mult_strict_mono) auto
  then show ?thesis using assms(2) by (simp add: calcMaxNumElementsAllowed_def size_max_def)
qed

lemma calcMax_le:
  assumes "params_ok P" "M < 2 ^ 56"
  shows "calcMaxNumElementsAllowed P M \<le> M"
proof -
  have "M * p_max_load P \<le> M * 100" using params_ok_sizes(2) [OF assms(1)] by (intro mult_le_mono) auto
  then have "M * p_max_load P div 100 \<le> M * 100 div 100" by (rule div_le_mono)
  then show ?thesis by (simp add: calcMax_eq [OF assms])
qed

lemma calcMax_double:
  assumes "params_ok P" "M < 2 ^ 55"
  shows "2 * calcMaxNumElementsAllowed P M \<le> calcMaxNumElementsAllowed P (2 * M)"
proof -
  have "2 * (x div 100) \<le> 2 * x div 100" for x :: nat
    by (simp add: less_eq_div_iff_mult_less_eq)
  from this [of "M * p_max_load P"] show ?thesis
    using calcMax_eq [OF assms(1), of M] calcMax_eq [OF assms(1), of "2 * M"] assms(2)
    by (simp add: mult.assoc)
qed

lemma calcMax_16_pos:
  assumes "params_ok P" "16 \<le> M" "M < 2 ^ 56"
  shows "0 < calcMaxNumElementsAllowed P M"
proof -
  have "16 * 11 \<le> M * p_max_load P"
    using assms(2) params_ok_sizes(1) [OF assms(1)] by (intro mult_le_mono) auto
  then show ?thesis by (simp add: calcMax_eq [OF assms(1,3)] div_greater_zero_iff)
qed

lemma withBuffer_eq:
  assumes "params_ok P" "M < 2 ^ 56"
  shows "calcNumElementsWithBuffer P M = M + min (calcMaxNumElementsAllowed P M) 255"
proof -
  have "M + min (calcMaxNumElementsAllowed P M) 255 < 2 ^ 64"
    using assms(2) by (simp add: min_def)
  then show ?thesis by (simp add: calcNumElementsWithBuffer_def)
qed

lemma sized_mask:
  assumes "params_ok P" "sized P t"
  shows "mMask t < 2 ^ 48" "7 \<le> mMask t" "size_wrap (mMask t + 1) = Suc (mMask t)"
    and "size_wrap (Suc (mMask t) * 2) = 2 * Suc (mMask t)"
proof -
  show m: "mMask t < 2 ^ 48" using tblD(3) [OF sizedD(1) [OF assms(2)]] sizedD(4) [OF assms(2)] by simp
  obtain b where b: "3 \<le> b" "Suc (mMask t) = 2 ^ b" using sizedD(2) [OF assms(2)] by blast
  have "(2::nat) ^ 3 \<le> 2 ^ b" using b(1) by (rule power_increasing) simp
  then show "7 \<le> mMask t" using b(2) by simp
  show "size_wrap (mMask t + 1) = Suc (mMask t)" "size_wrap (Suc (mMask t) * 2) = 2 * Suc (mMask t)"
    using m by simp_all
qed

lemma sized_nodes:
  assumes "params_ok P" "sized P t"
  shows "numNodes t = Suc (mMask t) + min (cap P t) 255"
  using sizedD(3) [OF assms(2)] withBuffer_eq [OF assms(1), of "Suc (mMask t)"] sized_mask(1) [OF assms]
  by simp

section \<open>Halving the info bytes\<close>

lemma core_halve:
  assumes c: "core P m s n xs cs" and s: "s < 4" and len: "length ys = n + 8"
    and ys: "\<forall>j<n. ys ! j = xs ! j div 2" "ys ! n = 1" "\<forall>j. n < j \<and> j < n + 8 \<longrightarrow> ys ! j = 0"
  shows "core P m (Suc s) n ys cs"
  unfolding core_def
proof (intro conjI)
  show "length ys = n + 8" "ys ! n = 1" "\<forall>j. n < j \<and> j < n + 8 \<longrightarrow> ys ! j = 0" "Suc s \<le> 4"
    "length cs = n" "m < n"
    using len ys s coreD(2,3) [OF c] by auto
  show "\<forall>i<n. \<forall>j<n. \<forall>kv kv'. cs ! i = Live kv \<and> cs ! j = Live kv' \<and>
        p_key_eq P (fst kv) (fst kv') \<longrightarrow> i = j"
    using coreD(9) [OF c] by blast
  have s4: "s \<le> 4" using s by simp
  show "\<forall>i<n. node_ok P m (Suc s) i (ys ! i) (cs ! i)"
  proof (intro allI impI)
    fix i assume i: "i < n"
    then show "node_ok P m (Suc s) i (ys ! i) (cs ! i)"
      using coreD(7) [OF c i] ys(1)
      by (auto simp: node_ok_def einfo_halve [OF s, symmetric] split: cell.splits)
  qed
  show "\<forall>i. Suc i < n \<and> 2 * inc_of (Suc s) \<le> ys ! Suc i \<longrightarrow> ys ! Suc i \<le> ys ! i + inc_of (Suc s)"
  proof (intro allI impI)
    fix i assume i: "Suc i < n \<and> 2 * inc_of (Suc s) \<le> ys ! Suc i"
    have e: "inc_of s = 2 * inc_of (Suc s)" using inc_of_even [OF s4] by (simp add: inc_of_Suc)
    have y: "ys ! i = xs ! i div 2" "ys ! Suc i = xs ! Suc i div 2" using ys(1) i by auto
    have "2 * inc_of s \<le> xs ! Suc i" using i y(2) e by linarith
    then have "xs ! Suc i \<le> xs ! i + inc_of s" using coreD(8) [OF c] i by blast
    then show "ys ! Suc i \<le> ys ! i + inc_of (Suc s)" using y e by linarith
  qed
qed

lemma try_increase_info_fails: "mInfoInc t \<le> 2 \<Longrightarrow> try_increase_info P t = Some (False, t)"
  by (simp add: try_increase_info_def)

lemma try_increase_info_spec:
  assumes p: "params_ok P" and t: "sized P t" and inc: "2 < mInfoInc t"
  shows "\<exists>ys. try_increase_info P t = Some (True, t\<lparr>mInfoInc := mInfoInc t div 2,
        mInfoHashShift := Suc (mInfoHashShift t), mInfo := Some ys, mMaxNumElementsAllowed := cap P t\<rparr>) \<and>
     core P (mMask t) (Suc (mInfoHashShift t)) (numNodes t) ys (mKeyVals t) \<and>
     (\<forall>j<numNodes t. ys ! j + mInfoInc t div 2 \<le> 255)"
proof -
  note tc = sizedD(1) [OF t]
  obtain xs where mi: "mInfo t = Some xs" using tc by (auto simp: tbl_core_def)
  have xs: "infos t = xs" using mi by simp
  let ?n = "numNodes t"
  note c = tbl_core_core [OF tc, unfolded xs] and len = tblD(1) [OF tc, unfolded xs]
  have small: "\<forall>b\<in>set xs. b < 256"
    using core_le_255 [OF c] len by (force simp: in_set_conv_nth less_Suc_eq_le [of _ 255, simplified])
  obtain ys where ys: "halve_infos xs 0 ?n = Some ys" "length ys = length xs"
    "\<forall>j. 0 \<le> j \<and> j < ?n \<longrightarrow> ys ! j = xs ! j div 2"
    "\<forall>j. ?n \<le> j \<longrightarrow> ys ! j = xs ! j \<or> ys ! j = xs ! j div 2"
    using halve_infos_spec [OF small len, of 0] by blast
  let ?ys = "ys[?n := 1]"
  have i4: "mInfoHashShift t < 4" "mInfoInc t = inc_of (mInfoHashShift t)" "mInfoInc t \<le> 32"
    using inc_of_gt2 [OF tblD(4) [OF tc]] tbl_inc [OF tc] inc inc_of_le by auto
  have z: "\<forall>j. ?n < j \<and> j < ?n + 8 \<longrightarrow> ?ys ! j = 0"
    using coreD(6) [OF c] ys(4) by (metis div_0 less_imp_le nat_neq_iff nth_list_update_neq)
  have eq: "try_increase_info P t = Some (True, t\<lparr>mInfoInc := mInfoInc t div 2,
        mInfoHashShift := Suc (mInfoHashShift t), mInfo := Some ?ys, mMaxNumElementsAllowed := cap P t\<rparr>)"
    using inc mi ys(1,2) len i4(3) sized_mask(3) [OF p t] sizedD(3) [OF t]
    by (simp add: try_increase_info_def)
  have "core P (mMask t) (Suc (mInfoHashShift t)) ?n ?ys (mKeyVals t)"
    using core_halve [OF c i4(1), of ?ys] ys(2,3) len z by simp
  moreover have "?ys ! j + mInfoInc t div 2 \<le> 255" if "j < ?n" for j
  proof -
    have "xs ! j \<le> 255" using core_le_255 [OF c, of j] that by simp
    then have "xs ! j div 2 \<le> 127" "mInfoInc t div 2 \<le> 16" using i4(3) by linarith+
    then show ?thesis using ys(3) that by simp
  qed
  ultimately show ?thesis using eq by blast
qed

section \<open>The last node is always free\<close>

lemma live_count: "length (live cs) = card {i. i < length cs \<and> (\<exists>v. cs ! i = Live v)}"
proof (induction cs rule: rev_induct)
  case (snoc c cs)
  let ?A = "\<lambda>cs. {i. i < length cs \<and> (\<exists>v. cs ! i = Live v)}"
  have "?A (cs @ [c]) = (if \<exists>v. c = Live v then insert (length cs) (?A cs) else ?A cs)"
    by (auto simp: nth_append less_Suc_eq)
  then show ?case using snoc by (cases c) auto
qed simp

lemma last_free:
  assumes p: "params_ok P" and t: "sized P t"
  shows "infos t ! (numNodes t - 1) = 0" "0 < numNodes t"
proof -
  note tc = sizedD(1) [OF t] and c = tbl_core_core [OF sizedD(1) [OF t]]
  let ?z = "numNodes t - 1" and ?s = "mInfoHashShift t"
  have n: "numNodes t = Suc (mMask t) + min (cap P t) 255" by (rule sized_nodes [OF p t])
  then show pos: "0 < numNodes t" by simp
  show "infos t ! ?z = 0"
  proof (rule ccontr)
    assume "infos t ! ?z \<noteq> 0"
    then obtain kv where kv: "mKeyVals t ! ?z = Live kv" using core_occupied [OF c, of ?z] pos by auto
    have h: "homeT P t (fst kv) \<le> mMask t" by (rule home_of_le)
    show False
    proof (cases "cap P t \<le> 255")
      case True
      have "{mMask t..?z} \<subseteq> {i. i < numNodes t \<and> (\<exists>v. mKeyVals t ! i = Live v)}"
      proof (intro subsetI CollectI)
        fix j assume "j \<in> {mMask t..?z}"
        then have "mMask t \<le> j" "j \<le> ?z" by auto
        then have j: "homeT P t (fst kv) \<le> j" "j \<le> ?z" "j < numNodes t" using h pos by linarith+
        with stored_prefix_pos [OF c _ kv] core_occupied [OF c j(3)] pos
        show "j < numNodes t \<and> (\<exists>v. mKeyVals t ! j = Live v)" by auto
      qed
      then have "card {mMask t..?z} \<le> length (live (mKeyVals t))"
        unfolding live_count by (intro card_mono) auto
      moreover have "card {mMask t..?z} = Suc (cap P t)" using n True by simp
      ultimately show False using sizedD(5,6) [OF t] by simp
    next
      case False
      have z: "?z = mMask t + 255" using n False by simp
      have "inc_of ?s * 255 \<le> inc_of ?s * (?z - homeT P t (fst kv))" using z h by (intro mult_le_mono) auto
      moreover have "infos t ! ?z = infoT P t (fst kv) ?z" "infos t ! ?z \<le> 255"
        using core_live [OF c _ kv] pos by auto
      moreover have "2 \<le> inc_of ?s" using inc_of_ge [OF tblD(4) [OF tc]] .
      then have "2 * 255 \<le> inc_of ?s * 255" by simp
      moreover have "inc_of ?s * (?z - homeT P t (fst kv)) \<le> infoT P t (fst kv) ?z"
        by (simp add: einfo_def)
      ultimately show False by linarith
    qed
  qed
qed

lemma stop_before_last:
  assumes p: "params_ok P" and t: "sized P t" and st: "stopT P t k i"
  shows "i \<le> numNodes t - 1"
proof (rule ccontr)
  assume "\<not> i \<le> numNodes t - 1"
  then have i: "numNodes t - 1 < i" by simp
  have "homeT P t k \<le> numNodes t - 1" using tbl_home_less [OF sizedD(1) [OF t], of k] by simp
  then have "infoT P t k (numNodes t - 1) \<le> infos t ! (numNodes t - 1)"
    using st i unfolding stop_at_def by blast
  then show False
    using last_free(1) [OF p t] einfo_ge [of "mInfoHashShift t" P "mMask t" k]
      inc_of_ge [OF tblD(4) [OF sizedD(1) [OF t]]]
    by (metis le_zero_eq not_numeral_le_zero order_trans)
qed

section \<open>Placing a node in a sized table\<close>

abbreviation nodes :: "('k, 'v) table \<Rightarrow> ('k \<times> 'v) multiset" where
  "nodes t \<equiv> mset (live (mKeyVals t))"

lemma holds_iff_nodes:
  "(\<exists>i. holds P t k i) \<longleftrightarrow> (\<exists>kv. kv \<in># nodes t \<and> p_key_eq P k (fst kv))"
  by (auto simp: holds_def in_live_iff)

lemma place_node_sized:
  assumes p: "params_ok P" and t: "sized P t" and st: "stopT P t (fst kv) i" and rm: "room t"
    and new: "\<forall>j. \<not> holds P t (fst kv) j" and N: "mNumElements t < cap P t"
    and b: "b = infoT P t (fst kv) i"
  shows "\<exists>t'. place_node t i b kv = Some t' \<and> sized P t' \<and> nodes t' = add_mset kv (nodes t) \<and>
     i < numNodes t' \<and> mKeyVals t' ! i = Live kv \<and> mMask t' = mMask t \<and> allocs t' = allocs t \<and>
     (mMaxNumElementsAllowed t' = 0 \<or> mMaxNumElementsAllowed t' = mMaxNumElementsAllowed t)"
proof -
  note tc = sizedD(1) [OF t]
  have z: "i \<le> numNodes t - 1" "numNodes t - 1 < numNodes t" "infos t ! (numNodes t - 1) = 0"
    using stop_before_last [OF p t st] last_free [OF p t] by auto
  have "cap P t < 2 ^ 49"
    using calcMax_le [OF p, of "Suc (mMask t)"] sized_mask(1) [OF p t] by simp
  then have num: "mNumElements t < 2 ^ 63" using N by simp
  obtain e ys mx where e: "place_node t i b kv = Some (t\<lparr>mKeyVals := ins_list i e (Live kv) (mKeyVals t),
        mInfo := Some ys, mMaxNumElementsAllowed := mx, mNumElements := Suc (mNumElements t)\<rparr>)"
    and I: "inserting P (mMask t) (mInfoHashShift t) (numNodes t) (infos t) ys (mKeyVals t) kv i e"
    and mx: "mx = 0 \<or> mx = mMaxNumElementsAllowed t \<and> (\<forall>j<numNodes t. ys ! j + mInfoInc t \<le> 255)"
    using place_node_spec [OF p tc st z rm [unfolded room_def] new num b] by blast
  let ?cs = "ins_list i e (Live kv) (mKeyVals t)"
  let ?t = "t\<lparr>mKeyVals := ?cs, mInfo := Some ys, mMaxNumElementsAllowed := mx,
     mNumElements := Suc (mNumElements t)\<rparr>"
  have ie: "i \<le> e" "e < numNodes t" "infos t ! e = 0" using insertingD(4-6) [OF I] by auto
  have raw: "mKeyVals t ! e = Raw" using core_free [OF tbl_core_core [OF tc] ie(2)] ie(3) by simp
  have len: "length ?cs = numNodes t" using ie by (simp add: size_simps)
  have ms: "mset (live ?cs) = add_mset kv (nodes t)" by (rule mset_live_ins_list [OF ie(1,2) raw])
  then have "size (mset (live ?cs)) = Suc (size (nodes t))" by simp
  then have cnt: "length (live ?cs) = Suc (mNumElements t)" using sizedD(5) [OF t] by simp
  have "tbl_core P ?t" using core_insert [OF I] tbl_inc [OF tc] len by (simp add: tbl_core_def)
  then have "sized P ?t"
    using sizedD(2-4,7) [OF t] len cnt N mx by (auto simp: sized_def room_def)
  moreover have "?cs ! i = Live kv" using ie by (simp add: nth_ins_list)
  ultimately show ?thesis using e ms mx len ie by (intro exI [of _ ?t]) auto
qed

section \<open>Allocation\<close>

text \<open>
  Every request to the allocator is counted in \<open>allocs\<close>. \<open>refused P t t'\<close>: since \<open>t\<close> a request was
  made, the last one asked for the block of the table with the mask that \<open>t'\<close> has, and it was not
  granted; the nodes of \<open>t\<close> are still there, the element count is already 0. \<open>exhausted t'\<close>: the
  info bytes leave no room, and their increment cannot be halved again.
\<close>

definition refused :: "'k table_params \<Rightarrow> ('k, 'v) table \<Rightarrow> ('k, 'v) table \<Rightarrow> bool" where
  "refused P t t' \<longleftrightarrow> allocs t < allocs t' \<and>
     \<not> p_alloc P (allocs t' - 1) (calcNumBytesTotal P (calcNumElementsWithBuffer P (Suc (mMask t')))) \<and>
     nodes t' = nodes t \<and> mNumElements t' = 0"

definition exhausted :: "('k, 'v) table \<Rightarrow> bool" where
  "exhausted t' \<longleftrightarrow> mInfoInc t' \<le> 2 \<and> mMaxNumElementsAllowed t' = 0"

lemma refused_trans:
  "refused P t1 t' \<Longrightarrow> nodes t1 = nodes t \<Longrightarrow> allocs t \<le> allocs t1 \<Longrightarrow> refused P t t'"
  by (simp add: refused_def)

text \<open>Only \<^verbatim>\<open>init_data\<close> asks for memory.\<close>

lemma wr_info_allocs: "wr_info t i v = Some t' \<Longrightarrow> allocs t' = allocs t"
  by (auto simp: wr_info_def split: option.splits)

lemma shiftUp_infos_allocs: "shiftUp_infos t idx ins = Some t' \<Longrightarrow> allocs t' = allocs t"
proof (induction idx arbitrary: t)
  case (Suc idx)
  from Suc.prems show ?case
    by (auto simp: shiftUp_infos.simps [of t "Suc idx"] Let_def dest!: wr_info_allocs Suc.IH
        split: if_splits option.splits)
qed (auto simp: shiftUp_infos.simps [of _ 0] split: if_splits)

lemma shiftUp_allocs: "shiftUp t idx ins = Some t' \<Longrightarrow> allocs t' = allocs t"
  by (auto simp: shiftUp_def Let_def dest!: shiftUp_infos_allocs split: option.splits if_splits bind_splits)

lemma place_node_allocs: "place_node t i info kv = Some t' \<Longrightarrow> allocs t' = allocs t"
  by (auto simp: place_node_def Let_def dest!: wr_info_allocs shiftUp_allocs split: bind_splits if_splits)

lemma try_increase_info_allocs: "try_increase_info P t = Some (ok, t') \<Longrightarrow> allocs t' = allocs t"
  by (auto simp: try_increase_info_def Let_def split: if_splits option.splits bind_splits)

lemma insert_move_allocs: "insert_move P t kv = Some (r, t') \<Longrightarrow> allocs t' = allocs t"
  by (auto simp: insert_move_def dest!: place_node_allocs try_increase_info_allocs
      split: if_splits bind_splits)

lemma rehash_loop_allocs: "rehash_loop P cs oi i n t = Some (r, t') \<Longrightarrow> allocs t' = allocs t"
proof (induction n arbitrary: cs i t)
  case (Suc n)
  from Suc.prems show ?case
    by (auto dest!: insert_move_allocs Suc.IH split: if_splits option.splits outcome.splits)
qed simp

lemma init_data_spec:
  assumes p: "params_ok P" and b: "3 \<le> b" and M: "(2::nat) ^ b < 2 ^ 50"
  shows "(\<exists>t'. init_data P t (2 ^ b) = Some (Throw BadAlloc, t') \<and> refused P t t') \<or>
     (\<exists>t'. init_data P t (2 ^ b) = Some (Ret (), t') \<and> sized P t' \<and> nodes t' = {#} \<and>
        Suc (mMask t') = 2 ^ b \<and> mNumElements t' = 0 \<and>
        mMaxNumElementsAllowed t' = calcMaxNumElementsAllowed P (2 ^ b) \<and> 2 < mInfoInc t' \<and> allocs t < allocs t')"
proof -
  let ?M = "(2::nat) ^ b"
  let ?n = "calcNumElementsWithBuffer P ?M" and ?c = "calcMaxNumElementsAllowed P ?M"
  have n: "?n = ?M + min ?c 255" using withBuffer_eq [OF p, of ?M] M by simp
  then have "?n < 2 ^ 51" using M by (simp add: min_def)
  then have "?n * p_sizeof_node P < 2 ^ 51 * 2 ^ 12"
    using params_ok_sizes(3,4) [OF p] by (intro mult_strict_mono) auto
  then have total: "calcNumBytesTotal P ?n = ?n * p_sizeof_node P + (?n + 8)"
    using \<open>?n < 2 ^ 51\<close> by (simp add: calcNumBytesTotal_def calcNumBytesInfo_def)
  have mask: "Suc (size_wrap (?M + (2 ^ 64 - 1))) = ?M"
  proof -
    have "?M + (2 ^ 64 - 1) = (?M - 1) + 2 ^ 64" by simp
    then have "size_wrap (?M + (2 ^ 64 - 1)) = ?M - 1" using M by (simp only: mod_add_self2) simp
    then show ?thesis by simp
  qed
  let ?m = "size_wrap (?M + (2 ^ 64 - 1))"
  let ?xs = "(replicate (?n + 8) 0)[?n := 1]"
  let ?t = "t\<lparr>mNumElements := 0, mMask := ?m, mMaxNumElementsAllowed := ?c, allocs := Suc (allocs t),
      mKeyVals := replicate ?n Raw, mInfo := Some ?xs, mInfoInc := InitialInfoInc,
      mInfoHashShift := InitialInfoHashShift\<rparr>"
  show ?thesis
  proof (cases "p_alloc P (allocs t) (calcNumBytesTotal P ?n)")
    case False
    then show ?thesis using mask by (auto simp: init_data_def Let_def refused_def)
  next
    case True
    have eq: "init_data P t ?M = Some (Ret (), ?t)"
      using True total by (simp add: init_data_def Let_def del: One_nat_def)
    have "?n + 8 < 2 ^ 48"
    proof -
      have "?n * p_sizeof_node P + (?n + 8) < 2 ^ 48" using params_ok_sizes(5) [OF p True] total by simp
      then show ?thesis by linarith
    qed
    moreover have "core P ?m 0 ?n ?xs (replicate ?n Raw)"
      using mask n by (auto simp: core_def node_ok_def nth_list_update)
    then have "tbl_core P ?t"
      by (simp add: tbl_core_def InitialInfoInc_def InitialInfoHashShift_def inc_of_def)
    moreover have "room ?t" by (auto simp: room_def InitialInfoInc_def nth_list_update)
    ultimately have "sized P ?t" using b mask by (auto simp: sized_def)
    then show ?thesis using eq mask by (simp add: InitialInfoInc_def)
  qed
qed

lemma try_increase_sized:
  assumes p: "params_ok P" and t: "sized P t" and inc: "2 < mInfoInc t"
  shows "\<exists>t1. try_increase_info P t = Some (True, t1) \<and> sized P t1 \<and> room t1 \<and>
     mKeyVals t1 = mKeyVals t \<and> mMask t1 = mMask t \<and> mNumElements t1 = mNumElements t \<and>
     mMaxNumElementsAllowed t1 = cap P t \<and> allocs t1 = allocs t"
proof -
  obtain ys where ys: "try_increase_info P t = Some (True, t\<lparr>mInfoInc := mInfoInc t div 2,
        mInfoHashShift := Suc (mInfoHashShift t), mInfo := Some ys, mMaxNumElementsAllowed := cap P t\<rparr>)"
    (is "_ = Some (True, ?t)")
    and c: "core P (mMask t) (Suc (mInfoHashShift t)) (numNodes t) ys (mKeyVals t)"
    and r: "\<forall>j<numNodes t. ys ! j + mInfoInc t div 2 \<le> 255"
    using try_increase_info_spec [OF assms] by blast
  have rm: "room ?t" using r by (simp add: room_def)
  have "tbl_core P ?t" using c tbl_inc [OF sizedD(1) [OF t]] by (simp add: tbl_core_def inc_of_Suc)
  then have "sized P ?t" using sizedD(2-6) [OF t] rm by (simp add: sized_def)
  with ys rm show ?thesis by (intro exI [of _ ?t]) simp
qed

section \<open>Re-inserting nodes\<close>

lemma insert_move_place:
  assumes p: "params_ok P" and t: "sized P t" and rm: "room t"
    and new: "\<forall>j. \<not> holds P t (fst kv) j" and N: "mNumElements t < cap P t"
  shows "\<exists>i t'. (do { (i, info) \<leftarrow> (let (idx, info) = keyToIdx P t (fst kv) in skip_le t idx info);
                     t2 \<leftarrow> place_node t i (info mod 256) kv; Some (Ret i, t2) }) = Some (Ret i, t') \<and>
     sized P t' \<and> nodes t' = add_mset kv (nodes t) \<and> mMask t' = mMask t"
proof -
  note tc = sizedD(1) [OF t]
  have small: "infoT P t (fst kv) (homeT P t (fst kv)) < 1000"
    using einfo_home [OF tblD(4) [OF tc], of P "mMask t" "fst kv"] inc_of_le [of "mInfoHashShift t"]
    by linarith
  obtain i where i: "skip_le t (homeT P t (fst kv)) (infoT P t (fst kv) (homeT P t (fst kv))) =
      Some (i, infoT P t (fst kv) i)" and st: "stopT P t (fst kv) i"
    using skip_le_spec [OF tc order.refl _ small] tbl_home_less [OF tc, of "fst kv"] by auto
  have "infoT P t (fst kv) i \<le> 255"
    using stop_info_le [OF tbl_core_core [OF tc] st stop_at_le_n [OF tbl_core_core [OF tc] st]]
      rm tbl_inc [OF tc] by (simp add: room_def)
  then have "infoT P t (fst kv) i mod 256 = infoT P t (fst kv) i" by simp
  with place_node_sized [OF p t st rm new N refl] i keyToIdx_eq [OF tc, of "fst kv"]
  show ?thesis by (auto simp: Let_def)
qed

lemma insert_move_spec:
  assumes p: "params_ok P" and t: "sized P t"
    and new: "\<forall>j. \<not> holds P t (fst kv) j" and N: "mNumElements t < cap P t"
  shows "insert_move P t kv = Some (Throw OverflowError, t) \<and> exhausted t \<or>
     (\<exists>i t'. insert_move P t kv = Some (Ret i, t') \<and> sized P t' \<and>
        nodes t' = add_mset kv (nodes t) \<and> mMask t' = mMask t)"
proof (cases "mMaxNumElementsAllowed t = 0")
  case False
  then have "room t" using sizedD(7) [OF t] by simp
  then show ?thesis
    using False insert_move_place [OF p t _ new N] by (auto simp: insert_move_def)
next
  case True
  show ?thesis
  proof (cases "2 < mInfoInc t")
    case False
    then show ?thesis using True try_increase_info_fails [of t P] by (simp add: insert_move_def exhausted_def)
  next
    case inc: True
    obtain t1 where t1: "try_increase_info P t = Some (True, t1)" "sized P t1" "room t1"
      "mKeyVals t1 = mKeyVals t" "mMask t1 = mMask t" "mNumElements t1 = mNumElements t"
      using try_increase_sized [OF p t inc] by blast
    have "\<forall>j. \<not> holds P t1 (fst kv) j" using new t1(4) by (simp add: holds_def)
    then show ?thesis
      using True t1 N insert_move_place [OF p t1(2,3), of kv] by (auto simp: insert_move_def)
  qed
qed

text \<open>No two entries of a list have equal keys.\<close>

definition keys_differ :: "'k table_params \<Rightarrow> ('k \<times> 'v) list \<Rightarrow> bool" where
  "keys_differ P kvs \<longleftrightarrow> sorted_wrt (\<lambda>a b. \<not> p_key_eq P (fst a) (fst b)) kvs"

lemma sorted_wrt_live:
  assumes "\<And>i j a b. i < j \<Longrightarrow> j < length cs \<Longrightarrow> cs ! i = Live a \<Longrightarrow> cs ! j = Live b \<Longrightarrow> R a b"
  shows "sorted_wrt R (live cs)"
  using assms
proof (induction cs)
  case (Cons c cs)
  have "sorted_wrt R (live cs)"
    using Cons.prems [of "Suc _" "Suc _"] by (intro Cons.IH) auto
  moreover have "R a b" if "c = Live a" "b \<in> set (live cs)" for a b
    using that Cons.prems [of 0 "Suc _"] by (auto simp: in_live_iff)
  ultimately show ?case by (cases c) auto
qed simp

lemma core_keys_differ:
  assumes "core P m s n xs cs"
  shows "keys_differ P (live cs)"
  unfolding keys_differ_def
  by (rule sorted_wrt_live) (use coreD(2,9) [OF assms] in \<open>metis order.strict_trans less_irrefl\<close>)

lemma holds_add:
  assumes "nodes t' = add_mset kv (nodes t)"
  shows "(\<exists>i. holds P t' k i) \<longleftrightarrow> p_key_eq P k (fst kv) \<or> (\<exists>i. holds P t k i)"
  unfolding holds_iff_nodes assms by (simp del: split_paired_Ex) blast

lemma rehash_loop_spec:
  assumes p: "params_ok P" and "sized P t" "i + n = length cs" "length cs \<le> length oi"
    and "\<forall>j. i \<le> j \<and> j < length cs \<longrightarrow> (oi ! j \<noteq> 0 \<longleftrightarrow> (\<exists>v. cs ! j = Live v)) \<and> cs ! j \<noteq> Moved"
    and "keys_differ P (live (drop i cs))"
    and "\<forall>kv\<in>set (live (drop i cs)). \<forall>j. \<not> holds P t (fst kv) j"
    and "mNumElements t + length (live (drop i cs)) \<le> cap P t"
  shows "\<exists>r t'. rehash_loop P cs oi i n t = Some (r, t') \<and> sized P t' \<and> mMask t' = mMask t \<and>
     (r = Ret () \<and> nodes t' = nodes t + mset (live (drop i cs)) \<or>
      r = Throw OverflowError \<and> exhausted t' \<and> nodes t' \<subseteq># nodes t + mset (live (drop i cs)))"
  using assms(2-)
proof (induction n arbitrary: t i cs)
  case 0
  then show ?case by simp
next
  case (Suc n)
  have i: "i < length cs" "i < length oi" using Suc.prems(2,3) by auto
  have dr: "drop i cs = cs ! i # drop (Suc i) cs" using i(1) by (simp add: Cons_nth_drop_Suc)
  show ?case
  proof (cases "oi ! i = 0")
    case True
    then have raw: "cs ! i = Raw" using Suc.prems(4) i(1) by (cases "cs ! i") auto
    have eq: "live (drop i cs) = live (drop (Suc i) cs)" using dr raw by simp
    have "rehash_loop P cs oi i (Suc n) t = rehash_loop P cs oi (Suc i) n t" using True i by simp
    with Suc.IH [of t "Suc i" cs] Suc.prems eq show ?thesis by simp
  next
    case False
    then obtain kv where kv: "cs ! i = Live kv" using Suc.prems(4) i(1) by auto
    let ?rest = "live (drop (Suc i) cs)"
    have eq: "live (drop i cs) = kv # ?rest" using dr kv by simp
    note pr = Suc.prems [unfolded eq]
    have new: "\<forall>j. \<not> holds P t (fst kv) j" and N: "mNumElements t < cap P t"
      using pr(6,7) by simp_all
    let ?cs' = "cs[i := Raw]"
    have dr': "drop (Suc i) ?cs' = drop (Suc i) cs" by simp
    from insert_move_spec [OF p Suc.prems(1) new N] show ?thesis
    proof (elim disjE exE conjE)
      assume "insert_move P t kv = Some (Throw OverflowError, t)" "exhausted t"
      then show ?thesis using False i kv Suc.prems(1) by simp
    next
      fix l t1 assume t1: "insert_move P t kv = Some (Ret l, t1)" "sized P t1"
        "nodes t1 = add_mset kv (nodes t)" "mMask t1 = mMask t"
      have step: "rehash_loop P cs oi i (Suc n) t = rehash_loop P ?cs' oi (Suc i) n t1"
        using False i kv t1(1) by simp
      have "size (nodes t1) = Suc (size (nodes t))" by (simp only: t1(3) size_add_mset)
      then have num: "mNumElements t1 = Suc (mNumElements t)"
        using sizedD(5) [OF t1(2)] sizedD(5) [OF Suc.prems(1)] by simp
      have fresh: "\<forall>a\<in>set ?rest. \<forall>j. \<not> holds P t1 (fst a) j"
      proof (intro ballI allI notI)
        fix a j assume a: "a \<in> set ?rest" and h: "holds P t1 (fst a) j"
        have "\<not> p_key_eq P (fst kv) (fst a)" using pr(5) a by (simp add: keys_differ_def)
        then have "\<not> p_key_eq P (fst a) (fst kv)" using params_ok_eqD(2) [OF p] by blast
        then show False using holds_add [OF t1(3), of P "fst a"] h pr(6) a by auto
      qed
      obtain r t' where r: "rehash_loop P ?cs' oi (Suc i) n t1 = Some (r, t')" "sized P t'"
        "mMask t' = mMask t1" "r = Ret () \<and> nodes t' = nodes t1 + mset ?rest \<or>
          r = Throw OverflowError \<and> exhausted t' \<and> nodes t' \<subseteq># nodes t1 + mset ?rest"
        using Suc.IH [of t1 "Suc i" ?cs', unfolded dr'] t1(2,4) pr(2-5,7) fresh num
        by (auto simp: keys_differ_def)
      then show ?thesis
        unfolding step eq using t1(3,4) by (intro exI [of _ r] exI [of _ t']) auto
    qed
  qed
qed

lemma sized_flags:
  assumes "sized P t" "j < numNodes t"
  shows "(infos t ! j \<noteq> 0 \<longleftrightarrow> (\<exists>v. mKeyVals t ! j = Live v)) \<and> mKeyVals t ! j \<noteq> Moved"
proof -
  note c = tbl_core_core [OF sizedD(1) [OF assms(1)]]
  show ?thesis
    using core_occupied [OF c assms(2)] coreD(7) [OF c assms(2)] by (auto simp: node_ok_def)
qed

text \<open>
  Re-hashing either keeps exactly the entries, or throws: \<open>BadAlloc\<close> when the allocator refuses the
  new block, \<open>OverflowError\<close> when the info bytes of the new table overflow, which loses entries.
\<close>

definition rehash_result ::
  "'k table_params \<Rightarrow> ('k, 'v) table \<Rightarrow> nat \<Rightarrow> (unit outcome \<times> ('k, 'v) table) option \<Rightarrow> bool" where
  "rehash_result P t M res \<longleftrightarrow>
     (\<exists>r t'. res = Some (r, t') \<and>
       (r = Ret () \<and> sized P t' \<and> nodes t' = nodes t \<and> Suc (mMask t') = M \<and> allocs t < allocs t' \<or>
        r = Throw OverflowError \<and> sized P t' \<and> nodes t' \<subseteq># nodes t \<and> exhausted t' \<or>
        r = Throw BadAlloc \<and> refused P t t'))"

lemma rehashPowerOfTwo_spec:
  assumes p: "params_ok P" and t: "table_inv P t" and b: "3 \<le> b" "(2::nat) ^ b < 2 ^ 50"
    and N: "mNumElements t \<le> calcMaxNumElementsAllowed P (2 ^ b)"
  shows "rehash_result P t (2 ^ b) (rehashPowerOfTwo P t (2 ^ b))"
proof -
  let ?M = "(2::nat) ^ b"
  let ?old = "calcNumElementsWithBuffer P (size_wrap (mMask t + 1))"
  from init_data_spec [OF p b, of t] show ?thesis
  proof (elim disjE exE conjE)
    fix t' assume "init_data P t ?M = Some (Throw BadAlloc, t')" "refused P t t'"
    then show ?thesis by (auto simp: rehashPowerOfTwo_def rehash_result_def)
  next
    fix t1 assume t1: "init_data P t ?M = Some (Ret (), t1)" "sized P t1" "nodes t1 = {#}"
      "Suc (mMask t1) = ?M" "mNumElements t1 = 0" "allocs t < allocs t1"
    from t show ?thesis unfolding table_inv_def
    proof
      assume d: "dummy t"
      then have "?old = 1"
        using withBuffer_eq [OF p, of 1] calcMax_eq [OF p, of 1] params_ok_sizes(2) [OF p]
        by (simp add: dummy_def)
      then show ?thesis
        using t1 d by (auto simp: rehashPowerOfTwo_def rehash_result_def dummy_def)
    next
      assume s: "sized P t"
      have old: "?old = numNodes t" using sizedD(3) [OF s] sized_mask(3) [OF p s] by simp
      have big: "1 < numNodes t" using sized_nodes [OF p s] sized_mask(2) [OF p s] by simp
      have none: "\<not> holds P t1 k j" for k j
        using t1(3) holds_iff_nodes [of P t1 k] by auto
      have "\<exists>r t'. rehash_loop P (mKeyVals t) (infos t) 0 (numNodes t) t1 = Some (r, t') \<and>
         sized P t' \<and> mMask t' = mMask t1 \<and>
         (r = Ret () \<and> nodes t' = nodes t1 + mset (live (drop 0 (mKeyVals t))) \<or>
          r = Throw OverflowError \<and> exhausted t' \<and> nodes t' \<subseteq># nodes t1 + mset (live (drop 0 (mKeyVals t))))"
        using sized_flags [OF s] tblD(1) [OF sizedD(1) [OF s]] none N sizedD(5) [OF s] t1(4,5)
          core_keys_differ [OF tbl_core_core [OF sizedD(1) [OF s]]]
        by (intro rehash_loop_spec [OF p t1(2)]) simp_all
      then show ?thesis
        using t1 old big by (auto simp: rehashPowerOfTwo_def rehash_result_def rehash_loop_allocs)
    qed
  qed
qed

end
