(* ===== verification/Hash_Table_Insert.thy ===== *)
theory Hash_Table_Insert
  imports Hash_Table_Grow
begin

text \<open>
  \<^verbatim>\<open>increase_size\<close> and \<^verbatim>\<open>doInsert\<close>: on a table that satisfies the invariant the loop of \<^verbatim>\<open>doInsert\<close>
  always returns, keeps the invariant, and adds exactly the new entry or throws.
\<close>

section \<open>Tables without memory\<close>

lemma dummyD:
  assumes "dummy t"
  shows "mMask t = 0" "mKeyVals t = []" "mInfo t = None" "mNumElements t = 0"
    and "mMaxNumElementsAllowed t = 0" "mInfoInc t = 32" "mInfoHashShift t = 0"
  using assms by (simp_all add: dummy_def InitialInfoInc_def InitialInfoHashShift_def)

lemma dummy_infos: "dummy t \<Longrightarrow> infos t = replicate 8 0"
  by (simp add: dummyD infos_def bytes64_def map_replicate_const)

lemma dummy_keyToIdx:
  assumes "dummy t"
  obtains info where "keyToIdx P t k = (0, info)" "32 \<le> info" "info < 64"
proof -
  have "unat (drop_bit 0 (mixed_hash P k AND InfoMask)) < 32"
    using hbits_less [of 0 P k] by (simp add: hbits_def inc_of_def)
  then show ?thesis using that dummyD [OF assms] by (auto simp: keyToIdx_def Let_def)
qed

lemma dummy_probe:
  assumes "dummy t"
  shows "\<exists>info. probe_insert P t k = Some (Inr (0, info))"
proof -
  obtain info where i: "keyToIdx P t k = (0, info)" "32 \<le> info" "info < 64"
    using dummy_keyToIdx [OF assms] by blast
  then show ?thesis
    by (simp add: probe_insert_def dummy_infos [OF assms] nextWhileLess.simps [of t 0 info]
        match_loop.simps [of P t k 0 info])
qed

lemma dummy_findIdx:
  assumes "dummy t"
  shows "findIdx P t k = Some (end_idx t)"
proof -
  obtain info where i: "keyToIdx P t k = (0, info)" "32 \<le> info" "info < 64"
    using dummy_keyToIdx [OF assms] by blast
  have "findIdx_loop P t k 0 info = Some None"
    using i dummyD [OF assms]
    by (simp add: findIdx_loop.simps [of P t k 0 info] match_at_def dummy_infos [OF assms] next_info_def)
  then show ?thesis using i dummyD [OF assms] by (simp add: findIdx_def end_idx_def)
qed

lemma dummy_no_holds: "dummy t \<Longrightarrow> \<not> holds P t k i"
  by (simp add: holds_def dummyD)

section \<open>Insertion\<close>

text \<open>
  What \<^verbatim>\<open>doInsert\<close> may answer for a key that is not there: a new entry, an \<open>OverflowError\<close> with a
  table that holds no more than before and whose info bytes are exhausted, or \<open>BadAlloc\<close> when the
  allocator refused the request for a larger table.
\<close>

definition insert_result ::
  "'k table_params \<Rightarrow> ('k, 'v) table \<Rightarrow> 'k \<times> 'v \<Rightarrow> ((nat \<times> bool) outcome \<times> ('k, 'v) table) option \<Rightarrow> bool" where
  "insert_result P t kv res \<longleftrightarrow>
     (\<exists>r t'. res = Some (r, t') \<and>
       ((\<exists>i. r = Ret (i, True) \<and> sized P t' \<and> nodes t' = add_mset kv (nodes t) \<and>
             i < numNodes t' \<and> mKeyVals t' ! i = Live kv) \<or>
        r = Throw OverflowError \<and> sized P t' \<and> nodes t' \<subseteq># nodes t \<and> exhausted t' \<or>
        r = Throw BadAlloc \<and> refused P t t'))"

lemma insert_result_nodes:
  "insert_result P t1 kv res \<Longrightarrow> nodes t1 = nodes t \<Longrightarrow> allocs t \<le> allocs t1 \<Longrightarrow> insert_result P t kv res"
  unfolding insert_result_def by (auto dest: refused_trans)

lemma absent_probe:
  assumes p: "params_ok P" and t: "sized P t" and new: "\<forall>j. \<not> holds P t k j"
  shows "\<exists>i. probe_insert P t k = Some (Inr (i, infoT P t k i)) \<and> stopT P t k i"
  using probe_insert_spec [OF p sizedD(1) [OF t], of k] new by blast

lemma doInsert_ready:
  assumes p: "params_ok P" and t: "sized P t" and new: "\<forall>j. \<not> holds P t (fst kv) j"
    and N: "mNumElements t < mMaxNumElementsAllowed t"
  shows "insert_result P t kv (doInsert_loop (Suc n) P t kv)"
proof -
  have c: "mMaxNumElementsAllowed t = cap P t" and rm: "room t" using sizedD(7) [OF t] N by auto
  obtain i where i: "probe_insert P t (fst kv) = Some (Inr (i, infoT P t (fst kv) i))"
    "stopT P t (fst kv) i"
    using absent_probe [OF p t new] by blast
  obtain t' where t': "place_node t i (infoT P t (fst kv) i) kv = Some t'" "sized P t'"
    "nodes t' = add_mset kv (nodes t)" "i < numNodes t'" "mKeyVals t' ! i = Live kv"
    using place_node_sized [OF p t i(2) rm new _ refl] N c by auto
  have "doInsert_loop (Suc n) P t kv = Some (Ret (i, True), t')" using i(1) t'(1) N by simp
  then show ?thesis using t'(2-) by (simp add: insert_result_def)
qed

lemma doInsert_grows:
  assumes p: "params_ok P" and t: "sized P t" and new: "\<forall>j. \<not> holds P t (fst kv) j"
    and N: "mMaxNumElementsAllowed t \<le> mNumElements t"
  shows "doInsert_loop (Suc n) P t kv =
     (case increase_size P t of None \<Rightarrow> None
      | Some (Throw e, t1) \<Rightarrow> Some (Throw e, t1)
      | Some (Ret _, t1) \<Rightarrow> doInsert_loop n P t1 kv)"
  using absent_probe [OF p t new] N by auto

lemma increase_size_halves:
  assumes p: "params_ok P" and t: "sized P t" and "mNumElements t < cap P t" "2 < mInfoInc t"
  shows "\<exists>t1. increase_size P t = Some (Ret (), t1) \<and> sized P t1 \<and> mKeyVals t1 = mKeyVals t \<and>
     mNumElements t1 = mNumElements t \<and> mMaxNumElementsAllowed t1 = cap P t \<and> allocs t1 = allocs t"
proof -
  obtain t1 where t1: "try_increase_info P t = Some (True, t1)" "sized P t1"
    "mKeyVals t1 = mKeyVals t" "mNumElements t1 = mNumElements t" "mMaxNumElementsAllowed t1 = cap P t"
    "allocs t1 = allocs t"
    using try_increase_sized [OF p t assms(4)] by blast
  then show ?thesis
    using assms(3) sized_mask(2,3) [OF p t] by (simp add: increase_size_def Let_def)
qed

lemma increase_size_refuses:
  assumes p: "params_ok P" and t: "sized P t" and "2 * mNumElements t < cap P t" "\<not> 2 < mInfoInc t"
  shows "increase_size P t = Some (Throw OverflowError, t)"
proof -
  have "cap P t < 2 ^ 63" using calcMax_le [OF p, of "Suc (mMask t)"] sized_mask(1) [OF p t] by simp
  then have "size_wrap (mNumElements t * 2) = 2 * mNumElements t" using assms(3) by simp
  then show ?thesis
    using assms(3,4) try_increase_info_fails [of t P] sized_mask(2,3) [OF p t]
    by (simp add: increase_size_def Let_def)
qed

lemma increase_size_rehashes:
  assumes p: "params_ok P" and t: "sized P t" and "cap P t \<le> 2 * mNumElements t"
    and "mNumElements t = cap P t \<or> \<not> 2 < mInfoInc t"
  shows "rehash_result P t (2 * Suc (mMask t)) (increase_size P t)"
proof -
  have c: "cap P t < 2 ^ 62" using calcMax_le [OF p, of "Suc (mMask t)"] sized_mask(1) [OF p t] by simp
  then have w: "size_wrap (mNumElements t * 2) = 2 * mNumElements t" using sizedD(6) [OF t] by simp
  obtain b where b: "3 \<le> b" "Suc (mMask t) = 2 ^ b" using sizedD(2) [OF t] by blast
  have eq: "increase_size P t = rehashPowerOfTwo P t (2 ^ Suc b)"
    using assms(3,4) try_increase_info_fails [of t P] sized_mask(2-4) [OF p t] w b
    by (auto simp: increase_size_def Let_def)
  have "mNumElements t \<le> calcMaxNumElementsAllowed P (2 ^ Suc b)"
    using calcMax_double [OF p, of "2 ^ b"] sizedD(6) [OF t] sized_mask(1) [OF p t] b by simp
  then have "rehash_result P t (2 ^ Suc b) (rehashPowerOfTwo P t (2 ^ Suc b))"
    using t b sized_mask(1) [OF p t] by (intro rehashPowerOfTwo_spec [OF p]) (auto simp: table_inv_def)
  then show ?thesis using eq b by simp
qed

lemma num_of_nodes: "sized P t \<Longrightarrow> sized P t1 \<Longrightarrow> nodes t1 = nodes t \<Longrightarrow> mNumElements t1 = mNumElements t"
  by (metis sizedD(5) size_mset)

lemma holds_of_nodes: "nodes t1 = nodes t \<Longrightarrow> (\<forall>j. \<not> holds P t1 k j) \<longleftrightarrow> (\<forall>j. \<not> holds P t k j)"
  using holds_iff_nodes [of P t k] holds_iff_nodes [of P t1 k] by auto

text \<open>The rounds of \<^verbatim>\<open>doInsert\<close>. With less than half of the load limit used, at most one halving of
  the info bytes comes before the node is placed.\<close>

lemma doInsert_half:
  assumes p: "params_ok P" and t: "sized P t" and new: "\<forall>j. \<not> holds P t (fst kv) j"
    and N: "2 * mNumElements t < cap P t"
  shows "insert_result P t kv (doInsert_loop (Suc (Suc n)) P t kv)"
proof (cases "mNumElements t < mMaxNumElementsAllowed t")
  case True
  then show ?thesis by (rule doInsert_ready [OF p t new])
next
  case False
  then have le: "mMaxNumElementsAllowed t \<le> mNumElements t" by simp
  show ?thesis
  proof (cases "2 < mInfoInc t")
    case True
    obtain t1 where t1: "increase_size P t = Some (Ret (), t1)" "sized P t1" "mKeyVals t1 = mKeyVals t"
      "mNumElements t1 = mNumElements t" "mMaxNumElementsAllowed t1 = cap P t" "allocs t1 = allocs t"
      using increase_size_halves [OF p t _ True] N by auto
    have "insert_result P t1 kv (doInsert_loop (Suc n) P t1 kv)"
      using t1 N new by (intro doInsert_ready [OF p t1(2)]) (simp_all add: holds_def)
    then show ?thesis
      unfolding doInsert_grows [OF p t new le] using t1(1,3,6) by (simp add: insert_result_nodes)
  next
    case False
    then show ?thesis
      unfolding doInsert_grows [OF p t new le] increase_size_refuses [OF p t N False]
      using t N le False sizedD(7) [OF t] by (auto simp: insert_result_def exhausted_def)
  qed
qed

lemma doInsert_after_rehash:
  assumes p: "params_ok P" and t: "sized P t" and new: "\<forall>j. \<not> holds P t (fst kv) j"
    and le: "mMaxNumElementsAllowed t \<le> mNumElements t"
    and r: "rehash_result P t (2 * Suc (mMask t)) (increase_size P t)"
    and go: "\<And>t1. sized P t1 \<Longrightarrow> mNumElements t1 = mNumElements t \<Longrightarrow> 2 * cap P t \<le> cap P t1 \<Longrightarrow>
       Suc (mMask t1) = 2 * Suc (mMask t) \<Longrightarrow> \<forall>j. \<not> holds P t1 (fst kv) j \<Longrightarrow>
       insert_result P t1 kv (doInsert_loop n P t1 kv)"
  shows "insert_result P t kv (doInsert_loop (Suc n) P t kv)"
proof -
  from r obtain o1 t1 where o1: "increase_size P t = Some (o1, t1)"
    and cs: "o1 = Ret () \<and> sized P t1 \<and> nodes t1 = nodes t \<and> Suc (mMask t1) = 2 * Suc (mMask t) \<and>
        allocs t < allocs t1 \<or>
      o1 = Throw OverflowError \<and> sized P t1 \<and> nodes t1 \<subseteq># nodes t \<and> exhausted t1 \<or>
      o1 = Throw BadAlloc \<and> refused P t t1"
    unfolding rehash_result_def by blast
  from cs show ?thesis unfolding doInsert_grows [OF p t new le] o1
  proof (elim disjE conjE)
    assume a: "o1 = Ret ()" "sized P t1" "nodes t1 = nodes t" "Suc (mMask t1) = 2 * Suc (mMask t)"
      "allocs t < allocs t1"
    have "2 * cap P t \<le> cap P t1"
      using calcMax_double [OF p, of "Suc (mMask t)"] sized_mask(1) [OF p t] a(4) by simp
    then have "insert_result P t1 kv (doInsert_loop n P t1 kv)"
      using go [OF a(2) num_of_nodes [OF t a(2,3)]] a(4) holds_of_nodes [OF a(3)] new by blast
    then show "insert_result P t kv (case Some (o1, t1) of None \<Rightarrow> None
        | Some (Throw e, t1) \<Rightarrow> Some (Throw e, t1)
        | Some (Ret _, t1) \<Rightarrow> doInsert_loop n P t1 kv)"
      using a(1,3,5) by (simp add: insert_result_nodes)
  qed (simp_all add: insert_result_def)
qed

lemma doInsert_below:
  fixes t :: "('k, 'v) table"
  assumes p: "params_ok P" and t: "sized P t" and new: "\<forall>j. \<not> holds P t (fst kv) j"
    and N: "mNumElements t < cap P t"
  shows "insert_result P t kv (doInsert_loop (Suc (Suc (Suc n))) P t kv)"
proof -
  consider "2 * mNumElements t < cap P t" | "mNumElements t < mMaxNumElementsAllowed t"
    | "mMaxNumElementsAllowed t \<le> mNumElements t" "2 < mInfoInc t"
    | "mMaxNumElementsAllowed t \<le> mNumElements t" "\<not> 2 < mInfoInc t" "cap P t \<le> 2 * mNumElements t"
    by linarith
  then show ?thesis
  proof cases
    case 3
    obtain t1 where t1: "increase_size P t = Some (Ret (), t1)" "sized P t1" "mKeyVals t1 = mKeyVals t"
      "mNumElements t1 = mNumElements t" "mMaxNumElementsAllowed t1 = cap P t" "allocs t1 = allocs t"
      using increase_size_halves [OF p t N 3(2)] by auto
    have "insert_result P t1 kv (doInsert_loop (Suc (Suc n)) P t1 kv)"
      using t1 N new by (intro doInsert_ready [OF p t1(2)]) (simp_all add: holds_def)
    then show ?thesis
      unfolding doInsert_grows [OF p t new 3(1)] using t1(1,3,6) by (simp add: insert_result_nodes)
  next
    case 4
    have re: "rehash_result P t (2 * Suc (mMask t)) (increase_size P t)"
      using increase_size_rehashes [OF p t 4(3)] 4(2) by simp
    show ?thesis
    proof (rule doInsert_after_rehash [OF p t new 4(1) re])
      fix t1 :: "('k, 'v) table"
      assume "sized P t1" "mNumElements t1 = mNumElements t" "2 * cap P t \<le> cap P t1"
        "\<forall>j. \<not> holds P t1 (fst kv) j"
      then show "insert_result P t1 kv (doInsert_loop (Suc (Suc n)) P t1 kv)"
        using N by (intro doInsert_half [OF p]) simp_all
    qed
  qed (blast intro: doInsert_half [OF p t new] doInsert_ready [OF p t new])+
qed

lemma doInsert_sized:
  fixes t :: "('k, 'v) table"
  assumes p: "params_ok P" and t: "sized P t" and new: "\<forall>j. \<not> holds P t (fst kv) j"
  shows "insert_result P t kv (doInsert_loop (Suc (Suc (Suc (Suc n)))) P t kv)"
proof (cases "mNumElements t < cap P t")
  case True
  then show ?thesis by (rule doInsert_below [OF p t new])
next
  case False
  then have eq: "mNumElements t = cap P t" using sizedD(6) [OF t] by simp
  then have le: "mMaxNumElementsAllowed t \<le> mNumElements t" using sizedD(7) [OF t] by auto
  have re: "rehash_result P t (2 * Suc (mMask t)) (increase_size P t)"
    using increase_size_rehashes [OF p t] eq by simp
  show ?thesis
  proof (rule doInsert_after_rehash [OF p t new le re])
    fix t1 :: "('k, 'v) table"
    assume t1: "sized P t1" "mNumElements t1 = mNumElements t" "2 * cap P t \<le> cap P t1"
      "Suc (mMask t1) = 2 * Suc (mMask t)" "\<forall>j. \<not> holds P t1 (fst kv) j"
    have "0 < cap P t1"
      using calcMax_16_pos [OF p, of "Suc (mMask t1)"] t1(4) sized_mask(1,2) [OF p t] by simp
    then have "mNumElements t1 < cap P t1" using t1(2,3) eq by linarith
    then show "insert_result P t1 kv (doInsert_loop (Suc (Suc (Suc n))) P t1 kv)"
      by (rule doInsert_below [OF p t1(1,5)])
  qed
qed

text \<open>The whole of \<^verbatim>\<open>doInsert\<close>: the bound on the rounds is never reached.\<close>

lemma doInsert_present:
  assumes "params_ok P" "table_inv P t" "holds P t (fst kv) i"
  shows "doInsert P t kv = Some (Ret (i, False), t)"
proof -
  have t: "sized P t" using assms(2,3) dummy_no_holds [of t P] by (auto simp: table_inv_def)
  obtain j where "probe_insert P t (fst kv) = Some (Inl j)" "holds P t (fst kv) j"
    using probe_insert_spec [OF assms(1) sizedD(1) [OF t], of "fst kv"] assms(3) by blast
  with holds_unique [OF assms(1) sizedD(1) [OF t] assms(3)] show ?thesis
    by (auto simp: doInsert_def max_rounds_def numeral_eq_Suc)
qed

lemma doInsert_absent:
  assumes p: "params_ok P" and t: "table_inv P t" and new: "\<forall>j. \<not> holds P t (fst kv) j"
  shows "insert_result P t kv (doInsert P t kv)"
proof -
  have rounds: "doInsert P t kv = doInsert_loop (Suc (Suc (Suc (Suc (Suc 1))))) P t kv"
    by (simp add: doInsert_def max_rounds_def numeral_eq_Suc)
  show ?thesis
  proof (cases "dummy t")
    case False
    then have "sized P t" using t by (simp add: table_inv_def)
    then show ?thesis unfolding rounds by (rule doInsert_sized [OF p _ new])
  next
    case True
    obtain info where i: "probe_insert P t (fst kv) = Some (Inr (0, info))"
      using dummy_probe [OF True] by blast
    have inc: "increase_size P t = init_data P t (2 ^ 3)"
      using dummyD [OF True] by (simp add: increase_size_def InitialNumElements_def)
    have step: "doInsert P t kv = (case init_data P t (2 ^ 3) of None \<Rightarrow> None
        | Some (Throw e, t1) \<Rightarrow> Some (Throw e, t1)
        | Some (Ret _, t1) \<Rightarrow> doInsert_loop (Suc (Suc (Suc (Suc 1)))) P t1 kv)"
      unfolding rounds doInsert_loop.simps(2) [of "Suc (Suc (Suc (Suc 1)))"] i inc [symmetric]
      using dummyD [OF True] by simp
    have "(2::nat) ^ 3 < 2 ^ 50" by simp
    from init_data_spec [OF p order.refl this, of t] show ?thesis unfolding step
    proof (elim disjE exE conjE)
      fix t1 assume t1: "init_data P t (2 ^ 3) = Some (Ret (), t1)" "sized P t1" "nodes t1 = {#}"
        "allocs t < allocs t1"
      have "insert_result P t1 kv (doInsert_loop (Suc (Suc (Suc (Suc 1)))) P t1 kv)"
        using t1(3) holds_iff_nodes [of P t1 "fst kv"] by (intro doInsert_sized [OF p t1(2)]) auto
      then show "insert_result P t kv (case init_data P t (2 ^ 3) of None \<Rightarrow> None
        | Some (Throw e, t1) \<Rightarrow> Some (Throw e, t1)
        | Some (Ret _, t1) \<Rightarrow> doInsert_loop (Suc (Suc (Suc (Suc 1)))) P t1 kv)"
        using t1(1,3,4) dummyD(2) [OF True] by (simp add: insert_result_nodes)
    qed (auto simp: insert_result_def)
  qed
qed

end
