(* ===== verification/Hash_Table_Map.thy ===== *)
theory Hash_Table_Map
  imports Hash_Table_Insert
begin

unbundle bit_operations_syntax

text \<open>
  The table as a finite map. \<open>abs_map\<close> is the abstraction function; lookup, insertion, erasure and
  iteration are shown to be the operations of the map, up to \<^verbatim>\<open>KeyEqual\<close>.
\<close>

section \<open>Abstraction\<close>

definition abs_map :: "'k table_params \<Rightarrow> ('k, 'v) table \<Rightarrow> 'k \<Rightarrow> 'v option" where
  "abs_map P t k = map_option snd (find (\<lambda>kv. p_key_eq P k (fst kv)) (live (mKeyVals t)))"

lemma inv_keys_differ: "table_inv P t \<Longrightarrow> keys_differ P (live (mKeyVals t))"
  unfolding table_inv_def
  by (auto simp: dummyD(2) keys_differ_def
      intro: core_keys_differ [OF tbl_core_core [OF sizedD(1)], unfolded keys_differ_def])

lemma keys_differ_unique:
  assumes "params_ok P" "keys_differ P kvs" "a \<in> set kvs" "b \<in> set kvs"
    and "p_key_eq P k (fst a)" "p_key_eq P k (fst b)"
  shows "a = b"
proof (rule ccontr)
  assume "a \<noteq> b"
  then obtain i j where ij: "i < j" "j < length kvs" "kvs ! i = a \<and> kvs ! j = b \<or> kvs ! i = b \<and> kvs ! j = a"
    using assms(3,4) by (metis in_set_conv_nth linorder_neqE_nat)
  then have "\<not> p_key_eq P (fst (kvs ! i)) (fst (kvs ! j))"
    using assms(2) sorted_wrt_nth_less unfolding keys_differ_def by blast
  then show False using ij(3) params_ok_eqD [OF assms(1)] assms(5,6) by blast
qed

lemma abs_map_Some_iff:
  assumes p: "params_ok P" and t: "table_inv P t"
  shows "abs_map P t k = Some v \<longleftrightarrow> (\<exists>k'. (k', v) \<in># nodes t \<and> p_key_eq P k k')"
proof
  assume "abs_map P t k = Some v"
  then obtain kv where kv: "find (\<lambda>kv. p_key_eq P k (fst kv)) (live (mKeyVals t)) = Some kv" "snd kv = v"
    by (auto simp: abs_map_def)
  then have "kv \<in> set (live (mKeyVals t))" "p_key_eq P k (fst kv)"
    by (auto simp: find_Some_iff)
  then show "\<exists>k'. (k', v) \<in># nodes t \<and> p_key_eq P k k'"
    using kv(2) by (intro exI [of _ "fst kv"]) auto
next
  assume "\<exists>k'. (k', v) \<in># nodes t \<and> p_key_eq P k k'"
  then obtain k' where k': "(k', v) \<in> set (live (mKeyVals t))" "p_key_eq P k k'" by auto
  then obtain kv where kv: "find (\<lambda>kv. p_key_eq P k (fst kv)) (live (mKeyVals t)) = Some kv"
    by (metis (mono_tags, lifting) find_None_iff fst_conv not_None_eq)
  then have "kv \<in> set (live (mKeyVals t))" "p_key_eq P k (fst kv)"
    by (auto simp: find_Some_iff)
  then have "kv = (k', v)" using keys_differ_unique [OF p inv_keys_differ [OF t] _ k'(1)] k'(2) by simp
  then show "abs_map P t k = Some v" using kv by (simp add: abs_map_def)
qed

lemma abs_map_None_iff: "abs_map P t k = None \<longleftrightarrow> (\<forall>i. \<not> holds P t k i)"
  using holds_iff_nodes [of P t k] by (auto simp: abs_map_def find_None_iff)

lemma abs_map_holds:
  assumes "params_ok P" "table_inv P t" "holds P t k i"
  shows "\<exists>k' v. mKeyVals t ! i = Live (k', v) \<and> p_key_eq P k k' \<and> abs_map P t k = Some v"
proof -
  obtain k' v where kv: "i < numNodes t" "mKeyVals t ! i = Live (k', v)" "p_key_eq P k k'"
    using assms(3) by (auto simp: holds_def)
  then have "(k', v) \<in># nodes t" by (auto simp: in_live_iff)
  then show ?thesis using kv abs_map_Some_iff [OF assms(1,2)] by blast
qed

lemma abs_map_cong_nodes:
  assumes "params_ok P" "table_inv P t" "table_inv P t'" "nodes t' = nodes t"
  shows "abs_map P t' = abs_map P t"
  using abs_map_Some_iff [OF assms(1,2)] abs_map_Some_iff [OF assms(1,3)] assms(4)
  by (intro ext option.expand) (metis not_None_eq option.sel)+

lemma abs_map_add:
  assumes p: "params_ok P" and t: "table_inv P t" "table_inv P t'"
    and n: "nodes t' = add_mset (k0, v0) (nodes t)"
  shows "abs_map P t' k = (if p_key_eq P k k0 then Some v0 else abs_map P t k)"
proof (cases "p_key_eq P k k0")
  case True
  then show ?thesis using abs_map_Some_iff [OF p t(2), of k v0] n by auto
next
  case False
  then have "abs_map P t' k = Some v \<longleftrightarrow> abs_map P t k = Some v" for v
    using abs_map_Some_iff [OF p t(1), of k v] abs_map_Some_iff [OF p t(2), of k v] n by auto
  then show ?thesis using False by (metis not_None_eq)
qed

lemma abs_map_remove:
  assumes p: "params_ok P" and t: "table_inv P t" "table_inv P t'"
    and n: "nodes t = add_mset (k0, v0) (nodes t')"
  shows "abs_map P t' k = (if p_key_eq P k k0 then None else abs_map P t k)"
proof (cases "p_key_eq P k k0")
  case False
  then show ?thesis using abs_map_add [OF p t(2,1) n, of k] by simp
next
  case True
  have "abs_map P t' k \<noteq> Some v" for v
  proof
    assume "abs_map P t' k = Some v"
    then obtain k' where k': "(k', v) \<in># nodes t'" "p_key_eq P k k'"
      using abs_map_Some_iff [OF p t(2)] by blast
    let ?l = "live (mKeyVals t)"
    have "(k', v) = (k0, v0)"
      using keys_differ_unique [OF p inv_keys_differ [OF t(1)], of "(k', v)" "(k0, v0)" k] k' True n
      by (metis (no_types, lifting) fst_conv insert_iff set_mset_add_mset_insert set_mset_mset)
    then have "2 \<le> count (nodes t) (k0, v0)" using n k'(1) by (simp add: Suc_le_eq)
    moreover have "distinct ?l"
      using inv_keys_differ [OF t(1)] params_ok_eqD(1) [OF p] unfolding keys_differ_def
      by (metis (no_types, lifting) distinct_conv_nth linorder_neqE_nat sorted_wrt_nth_less)
    then have "count (nodes t) (k0, v0) \<le> 1" by (simp add: distinct_count_atmost_1)
    ultimately show False by simp
  qed
  then show ?thesis using True by (metis not_None_eq)
qed

section \<open>Lookup\<close>

lemma findIdx_inv:
  assumes p: "params_ok P" and t: "table_inv P t"
  shows "(\<exists>i. findIdx P t k = Some i \<and> holds P t k i) \<or>
    (findIdx P t k = Some (end_idx t) \<and> (\<forall>i. \<not> holds P t k i))"
proof (cases "dummy t")
  case True
  then show ?thesis using dummy_findIdx [of t P k] dummy_no_holds [of t P k] by simp
next
  case False
  then have s: "sized P t" using t by (simp add: table_inv_def)
  then show ?thesis using findIdx_spec [OF p sizedD(1) [OF s]] sized_mask(2) [OF p s] by simp
qed

lemma findIdx_cases:
  assumes "params_ok P" "table_inv P t"
  obtains (found) i k' v where "findIdx P t k = Some i" "i < end_idx t" "holds P t k i"
      "mKeyVals t ! i = Live (k', v)" "p_key_eq P k k'" "abs_map P t k = Some v"
    | (absent) "findIdx P t k = Some (end_idx t)" "abs_map P t k = None"
proof -
  from findIdx_inv [OF assms, of k] show thesis
  proof (elim disjE exE conjE)
    fix i assume i: "findIdx P t k = Some i" "holds P t k i"
    then have "i < end_idx t" by (simp add: holds_def end_idx_def)
    then show thesis using abs_map_holds [OF assms i(2)] i by (auto intro: found)
  qed (auto simp: abs_map_None_iff intro: absent)
qed

section \<open>Erasing\<close>

lemma erase_loop_spec:
  assumes p: "params_ok P" and t: "tbl_core P t" and "homeT P t k \<le> j" "j \<le> numNodes t"
    and "infoT P t k j < 900" "\<forall>i<j. \<not> holds P t k i"
  shows "(\<exists>i. holds P t k i \<and> erase_loop P t k j (infoT P t k j) = map_option (\<lambda>t1.
        (1, t1\<lparr>mNumElements := size_wrap (mNumElements t1 + (2 ^ 64 - 1))\<rparr>)) (shiftDown t i)) \<or>
    (erase_loop P t k j (infoT P t k j) = Some (0, t) \<and> (\<forall>i. \<not> holds P t k i))"
  using assms(3-)
proof (induction "numNodes t - j" arbitrary: j rule: less_induct)
  case less
  let ?e = "infoT P t k"
  have h1: "homeT P t k \<le> Suc j" using less.prems(1) by simp
  have n1: "next_info t (?e j) = ?e (Suc j)" using next_info_eq [OF t less.prems(1)] less.prems(3) by simp
  have bounds: "j < numNodes t + 8" "Suc j < numNodes t + 8" using less.prems(2) by auto
  note unfold = erase_loop.simps [of P t k j] match_at_eq [OF p t bounds(1)] n1 rd_infos [OF t bounds(2)]
  show ?case
  proof (cases "holds P t k j")
    case True
    then show ?thesis by (intro disjI1 exI [of _ j]) (simp add: unfold split: option.split)
  next
    case False
    then have no: "\<forall>i<Suc j. \<not> holds P t k i" using less.prems(4) by (auto simp: less_Suc_eq)
    show ?thesis
    proof (cases "?e (Suc j) \<le> infos t ! Suc j")
      case True
      then have "Suc j < numNodes t" using info_reached [OF t True bounds(2)] by simp
      moreover have "?e (Suc j) < 900" using True tbl_le_255 [OF t bounds(2)] by simp
      ultimately show ?thesis
        using less.hyps [of "Suc j"] False True h1 no by (simp add: unfold)
    next
      case stop: False
      then have "\<forall>i. \<not> holds P t k i" using holds_before_stop [OF p t _ h1] no by (metis not_less)
      with stop False show ?thesis by (simp add: unfold)
    qed
  qed
qed

lemma shiftDown_sized:
  assumes p: "params_ok P" and t: "sized P t" and i: "i < numNodes t" "mKeyVals t ! i = Live kv"
  shows "\<exists>t1. shiftDown t i = Some t1 \<and> mNumElements t1 = mNumElements t \<and>
     sized P (t1\<lparr>mNumElements := size_wrap (mNumElements t1 + (2 ^ 64 - 1))\<rparr>) \<and>
     nodes t = add_mset kv (nodes t1) \<and> numNodes t1 = numNodes t \<and>
     (\<forall>j<i. infos t1 ! j = infos t ! j) \<and>
     (\<exists>z. i \<le> z \<and> z < numNodes t \<and> mKeyVals t1 = del_list i z Raw (mKeyVals t))"
proof -
  obtain z ys where e: "shiftDown t i = Some (t\<lparr>mInfo := Some ys, mKeyVals := del_list i z Raw (mKeyVals t)\<rparr>)"
    (is "_ = Some ?t1")
    and R: "removing P (mMask t) (mInfoHashShift t) (numNodes t) (infos t) ys (mKeyVals t) i z"
    using shiftDown_spec [OF sizedD(1) [OF t] i] by blast
  let ?t2 = "?t1\<lparr>mNumElements := size_wrap (mNumElements t + (2 ^ 64 - 1))\<rparr>"
  note z = removingD(2,3) [OF R] and ysn = removingD(7) [OF R] and inc = tbl_inc [OF sizedD(1) [OF t]]
  have ms: "nodes t = add_mset kv (nodes ?t1)" using mset_live_del_list [OF z i(2)] by simp
  then have "size (nodes t) = Suc (size (nodes ?t1))" by simp
  then have N: "mNumElements t = Suc (length (live (mKeyVals ?t1)))" using sizedD(5) [OF t] by simp
  have "length (live (mKeyVals ?t1)) < 2 ^ 62"
    using N sizedD(6) [OF t] calcMax_le [OF p, of "Suc (mMask t)"] sized_mask(1) [OF p t] by simp
  then have w: "size_wrap (mNumElements t + (2 ^ 64 - 1)) = length (live (mKeyVals ?t1))"
    using N by simp
  have rm: "room ?t2" if r: "room t"
  proof -
    have "ys ! j + mInfoInc t \<le> 255" if j: "j < numNodes t" for j
    proof (cases "i \<le> j \<and> j < z")
      case True
      then show ?thesis
        using removingD(5) [OF R, of j] tbl_le_255 [OF sizedD(1) [OF t], of "Suc j"] ysn [of j] inc j by simp
    next
      case False
      then show ?thesis using r j ysn [of j] by (auto simp: room_def)
    qed
    then show ?thesis using z by (simp add: room_def size_simps)
  qed
  have "tbl_core P ?t2" using core_remove [OF R] inc z by (simp add: tbl_core_def size_simps)
  then have "sized P ?t2"
    using sizedD(2-7) [OF t] rm w N z by (auto simp: sized_def size_simps)
  with e ms z ysn show ?thesis by (intro exI [of _ ?t1]) (auto simp: size_simps)
qed

lemma erase_key_cases:
  assumes p: "params_ok P" and t: "table_inv P t"
  obtains (found) kv t' where "erase_key P t k = Some (1, t')" "table_inv P t'" "p_key_eq P k (fst kv)"
      "nodes t = add_mset kv (nodes t')"
    | (absent) "erase_key P t k = Some (0, t)" "\<forall>i. \<not> holds P t k i"
proof (cases "dummy t")
  case True
  obtain info where i: "keyToIdx P t k = (0, info)" "32 \<le> info" "info < 64"
    using dummy_keyToIdx [OF True] by blast
  have "erase_loop P t k 0 info = Some (0, t)"
    using i dummyD [OF True]
    by (simp add: erase_loop.simps [of P t k 0 info] match_at_def dummy_infos [OF True] next_info_def)
  then show thesis using i dummy_no_holds [OF True] by (intro absent) (auto simp: erase_key_def)
next
  case False
  then have s: "sized P t" using t by (simp add: table_inv_def)
  note tc = sizedD(1) [OF s]
  have h: "homeT P t k \<le> numNodes t" using tbl_home_less [OF tc, of k] by simp
  have small: "infoT P t k (homeT P t k) < 900"
    using einfo_home [OF tblD(4) [OF tc], of P "mMask t" k] inc_of_le [of "mInfoHashShift t"]
    by linarith
  have no: "\<forall>i<homeT P t k. \<not> holds P t k i" using holdsD(2) [OF p tc] by (metis leD)
  from erase_loop_spec [OF p tc order.refl h small no] show thesis
  proof (elim disjE exE conjE)
    fix i assume i: "holds P t k i" and e: "erase_loop P t k (homeT P t k) (infoT P t k (homeT P t k)) =
      map_option (\<lambda>t1. (1, t1\<lparr>mNumElements := size_wrap (mNumElements t1 + (2 ^ 64 - 1))\<rparr>)) (shiftDown t i)"
    obtain kv where kv: "i < numNodes t" "mKeyVals t ! i = Live kv" "p_key_eq P k (fst kv)"
      using i by (auto simp: holds_def)
    obtain t1 where t1: "shiftDown t i = Some t1"
      "sized P (t1\<lparr>mNumElements := size_wrap (mNumElements t1 + (2 ^ 64 - 1))\<rparr>)"
      "nodes t = add_mset kv (nodes t1)"
      using shiftDown_sized [OF p s kv(1,2)] by blast
    show thesis
    proof (rule found [OF _ _ kv(3)])
      show "erase_key P t k = Some (1, t1\<lparr>mNumElements := size_wrap (mNumElements t1 + (2 ^ 64 - 1))\<rparr>)"
        using e t1(1) by (simp add: erase_key_def keyToIdx_eq [OF tc])
    qed (use t1 in \<open>simp_all add: table_inv_def\<close>)
  next
    assume "erase_loop P t k (homeT P t k) (infoT P t k (homeT P t k)) = Some (0, t)"
      "\<forall>i. \<not> holds P t k i"
    then show thesis by (intro absent) (simp_all add: erase_key_def keyToIdx_eq [OF tc])
  qed
qed

section \<open>Iteration\<close>

lemma ctz_bit: "n \<noteq> 0 \<Longrightarrow> bit n (ctz n) \<and> (\<forall>k<ctz n. \<not> bit n k)"
proof (induction n rule: ctz.induct)
  case (1 n)
  show ?case
  proof (cases "odd n")
    case True
    then show ?thesis using 1(2) by (simp add: ctz.simps [of n] bit_0)
  next
    case False
    have c: "ctz n = Suc (ctz (n div 2))" using False 1(2) by (simp add: ctz.simps [of n])
    have h: "bit (n div 2) (ctz (n div 2))" "\<forall>k<ctz (n div 2). \<not> bit (n div 2) k"
      using 1 False by (auto elim: evenE)
    have "\<not> bit n k" if "k < ctz n" for k
      using that h(2) False c by (cases k) (auto simp: bit_0 bit_Suc)
    then show ?thesis using h(1) c by (simp add: bit_Suc)
  qed
qed

lemma val_bytes_0_iff: "val_bytes bs = 0 \<longleftrightarrow> (\<forall>b\<in>set bs. b = 0)"
  by (induction bs) auto

text \<open>The trailing zeroes of the loaded word locate the first non-zero byte.\<close>

lemma ctz_first_byte:
  assumes "\<forall>b\<in>set bs. b < 256" "val_bytes bs \<noteq> 0"
  defines "d \<equiv> ctz (val_bytes bs) div 8"
  shows "d < length bs" "bs ! d \<noteq> 0" "j < d \<Longrightarrow> bs ! j = 0"
proof -
  let ?c = "ctz (val_bytes bs)"
  have c: "bit (val_bytes bs) ?c" "\<And>k. k < ?c \<Longrightarrow> \<not> bit (val_bytes bs) k"
    using ctz_bit [OF assms(2)] by auto
  then have d: "d < length bs \<and> bit (bs ! d) (?c mod 8)"
    using bit_val_bytes [OF assms(1)] by (simp add: d_def)
  then show dl: "d < length bs" by simp
  show "bs ! d \<noteq> 0" using d by (intro notI) simp
  assume j: "j < d"
  show "bs ! j = 0"
  proof (rule bit_eqI)
    fix k
    show "bit (bs ! j) k = bit 0 k"
    proof (cases "k < 8")
      case True
      have "8 * j + k < ?c" using j True unfolding d_def by linarith
      then have "\<not> bit (val_bytes bs) (8 * j + k)" by (rule c(2))
      then show ?thesis using bit_val_bytes [OF assms(1), of "8 * j + k"] True j dl by auto
    next
      case False
      then have "(256::nat) \<le> 2 ^ k" using power_increasing [of 8 k "2::nat"] by simp
      moreover have "bs ! j < 256" using assms(1) j dl by simp
      ultimately have "bs ! j div 2 ^ k = 0" by simp
      then show ?thesis by (simp add: bit_iff_odd)
    qed
  qed
qed

lemma fastForward_spec:
  assumes "\<forall>b\<in>set (infos t). b < 256" "length (infos t) = n + 8" "pos \<le> n" "infos t ! n \<noteq> 0"
  shows "\<exists>q. fastForward t pos = Some q \<and> pos \<le> q \<and> q \<le> n \<and> infos t ! q \<noteq> 0 \<and>
     (\<forall>j. pos \<le> j \<and> j < q \<longrightarrow> infos t ! j = 0)"
  using assms(3)
proof (induction "n - pos" arbitrary: pos rule: less_induct)
  case less
  let ?w = "take 8 (drop pos (infos t))"
  have w: "length ?w = 8" "\<forall>b\<in>set ?w. b < 256" "\<And>j. j < 8 \<Longrightarrow> ?w ! j = infos t ! (pos + j)"
    using less.prems assms(1,2) by (auto dest: in_set_takeD in_set_dropD)
  have ld: "load64 (infos t) pos = Some (val_bytes ?w)" using less.prems assms(2) by (simp add: load64_def)
  show ?case
  proof (cases "val_bytes ?w = 0")
    case True
    have zero: "infos t ! (pos + j) = 0" if "j < 8" for j
      using True w(1,3) that unfolding val_bytes_0_iff by (metis nth_mem)
    have "pos + 8 \<le> n"
    proof (rule ccontr)
      assume "\<not> pos + 8 \<le> n"
      then have "n - pos < 8" using less.prems by linarith
      then show False using zero [of "n - pos"] less.prems assms(4) by simp
    qed
    then have "n - (pos + 8) < n - pos" by linarith
    with \<open>pos + 8 \<le> n\<close> obtain q where q: "fastForward t (pos + 8) = Some q" "pos + 8 \<le> q" "q \<le> n" "infos t ! q \<noteq> 0"
      "\<forall>j. pos + 8 \<le> j \<and> j < q \<longrightarrow> infos t ! j = 0"
      using less.hyps [of "pos + 8"] by auto
    have "infos t ! j = 0" if "pos \<le> j" "j < q" for j
      using that q(5) zero [of "j - pos"] by (cases "j < pos + 8") auto
    then show ?thesis using q ld True by (auto simp: fastForward.simps [of t pos])
  next
    case False
    let ?d = "ctz (val_bytes ?w) div 8"
    note d = ctz_first_byte [OF w(2) False]
    have dw: "?d < 8" "infos t ! (pos + ?d) \<noteq> 0" using d(1,2) w(1,3) by auto
    have z: "infos t ! j = 0" if "pos \<le> j" "j < pos + ?d" for j
      using d(3) [of "j - pos"] w(3) [of "j - pos"] that dw(1) by auto
    have "pos + ?d \<le> n"
    proof (rule ccontr)
      assume "\<not> pos + ?d \<le> n"
      then show False using z [of n] less.prems assms(4) by simp
    qed
    then show ?thesis using ld False dw(2) z by (simp add: fastForward.simps [of t pos])
  qed
qed

lemma sized_fastForward:
  assumes t: "sized P t" and pos: "pos \<le> numNodes t"
  shows "\<exists>q. fastForward t pos = Some q \<and> pos \<le> q \<and> q \<le> numNodes t \<and> infos t ! q \<noteq> 0 \<and>
     live (drop q (mKeyVals t)) = live (drop pos (mKeyVals t))"
proof -
  note tc = sizedD(1) [OF t] and c = tbl_core_core [OF sizedD(1) [OF t]]
  have "\<forall>b\<in>set (infos t). b < 256"
    using core_le_255 [OF c] tblD(1) [OF tc] by (force simp: in_set_conv_nth less_Suc_eq_le [of _ 255, simplified])
  then obtain q where q: "fastForward t pos = Some q" "pos \<le> q" "q \<le> numNodes t" "infos t ! q \<noteq> 0"
    "\<forall>j. pos \<le> j \<and> j < q \<longrightarrow> infos t ! j = 0"
    using fastForward_spec [OF _ tblD(1) [OF tc] pos] tblD(5) [OF tc] by auto
  have "live (drop pos (mKeyVals t)) = live (drop q (mKeyVals t))"
    using q(2,3,5)
  proof (induction "q - pos" arbitrary: pos)
    case (Suc d)
    then have "pos < numNodes t" by linarith
    moreover have "mKeyVals t ! pos = Raw"
      using core_free [OF c \<open>pos < numNodes t\<close>] Suc.prems Suc.hyps(2) by auto
    ultimately have "live (drop pos (mKeyVals t)) = live (drop (Suc pos) (mKeyVals t))"
      by (simp flip: Cons_nth_drop_Suc)
    then show ?case using Suc.hyps(1) [of "Suc pos"] Suc.hyps(2) Suc.prems by simp
  qed simp
  then show ?thesis using q(1-4) by auto
qed

lemma iterate_spec:
  assumes t: "sized P t" and "pos \<le> numNodes t" "infos t ! pos \<noteq> 0" "numNodes t - pos < fuel"
  shows "iterate fuel t pos = Some (live (drop pos (mKeyVals t)))"
  using assms(2-)
proof (induction fuel arbitrary: pos)
  case (Suc fuel)
  show ?case
  proof (cases "pos = end_idx t")
    case True
    then show ?thesis by (simp add: end_idx_def)
  next
    case False
    then have pos: "pos < numNodes t" using Suc.prems(1) by (simp add: end_idx_def)
    then obtain kv where kv: "mKeyVals t ! pos = Live kv" using sized_flags [OF t pos] Suc.prems(2) by auto
    obtain q where q: "fastForward t (Suc pos) = Some q" "Suc pos \<le> q" "q \<le> numNodes t"
      "infos t ! q \<noteq> 0" "live (drop q (mKeyVals t)) = live (drop (Suc pos) (mKeyVals t))"
      using sized_fastForward [OF t, of "Suc pos"] pos by auto
    then have "iterate fuel t q = Some (live (drop (Suc pos) (mKeyVals t)))"
      using Suc.IH [of q] Suc.prems(3) by simp
    moreover have "live (drop pos (mKeyVals t)) = kv # live (drop (Suc pos) (mKeyVals t))"
      using pos kv by (simp flip: Cons_nth_drop_Suc)
    ultimately show ?thesis using False pos kv q(1) by (simp add: next_idx_def)
  qed
qed simp

lemma entries_inv:
  assumes "table_inv P t"
  shows "entries t = Some (live (mKeyVals t))"
proof (cases "mNumElements t = 0")
  case True
  then have "live (mKeyVals t) = []"
    using assms sizedD(5) [of P t] dummyD(2) [of t] by (auto simp: table_inv_def)
  then show ?thesis using True by (simp add: entries_def begin_idx_def is_empty_def end_idx_def)
next
  case False
  then have s: "sized P t" using assms dummyD(4) [of t] by (auto simp: table_inv_def)
  obtain q where q: "fastForward t 0 = Some q" "q \<le> numNodes t" "infos t ! q \<noteq> 0"
    "live (drop q (mKeyVals t)) = live (mKeyVals t)"
    using sized_fastForward [OF s, of 0] by auto
  then show ?thesis
    using iterate_spec [OF s q(2,3), of "Suc (numNodes t)"] False
    by (simp add: entries_def begin_idx_def is_empty_def)
qed

end
