(* ===== verification/Hash_Table_Whole.thy ===== *)
theory Hash_Table_Whole
  imports Hash_Table_Map
begin

text \<open>
  The operations on whole tables: \<^verbatim>\<open>clear\<close>, \<^verbatim>\<open>destroy\<close>, copying, moving, \<^verbatim>\<open>operator==\<close>, \<^verbatim>\<open>reserve\<close> and
  \<^verbatim>\<open>rehash\<close>.
\<close>

section \<open>Destroying the nodes\<close>

lemma destroy_nodes_spec:
  assumes "i + n = length cs" "length cs \<le> length xs"
    and "\<forall>j. i \<le> j \<and> j < length cs \<longrightarrow> (xs ! j \<noteq> 0 \<longleftrightarrow> (\<exists>v. cs ! j = Live v)) \<and> cs ! j \<noteq> Moved"
  shows "destroy_nodes cs xs i n = Some (take i cs @ replicate n Raw)"
  using assms
proof (induction n arbitrary: i cs)
  case (Suc n)
  let ?cs = "cs[i := Raw]"
  have i: "i < length cs" "i < length xs" using Suc.prems(1,2) by auto
  have step: "destroy_nodes cs xs i (Suc n) = destroy_nodes ?cs xs (Suc i) n"
  proof (cases "xs ! i = 0")
    case True
    then have "cs ! i = Raw" using Suc.prems(3) i by (cases "cs ! i") auto
    then have "?cs = cs" by (metis list_update_id)
    then show ?thesis using True i by simp
  next
    case False
    then have "cs ! i \<noteq> Raw" using Suc.prems(3) i by auto
    then show ?thesis using False i by simp
  qed
  have "destroy_nodes ?cs xs (Suc i) n = Some (take (Suc i) ?cs @ replicate n Raw)"
    using Suc.prems by (intro Suc.IH) auto
  moreover have "take (Suc i) ?cs = take i cs @ [Raw]" using i(1) by (simp add: take_Suc_conv_app_nth)
  ultimately show ?case using step by (simp flip: replicate_Suc replicate_append_same)
qed simp

lemma nodes_destroyed_sized:
  assumes p: "params_ok P" and t: "sized P t"
  shows "nodes_destroyed P t = Some (t\<lparr>mNumElements := 0, mKeyVals := replicate (numNodes t) Raw\<rparr>)"
proof -
  have "destroy_nodes (mKeyVals t) (infos t) 0 (numNodes t) = Some (take 0 (mKeyVals t) @ replicate (numNodes t) Raw)"
    using sized_flags [OF t] tblD(1) [OF sizedD(1) [OF t]] by (intro destroy_nodes_spec) auto
  then show ?thesis
    using sizedD(3) [OF t] sized_mask(3) [OF p t] by (simp add: nodes_destroyed_def)
qed

lemma nodes_destroyed_dummy:
  assumes p: "params_ok P" and t: "dummy t"
  shows "nodes_destroyed P t = Some t"
proof -
  have "calcNumElementsWithBuffer P (size_wrap (mMask t + 1)) = 1"
    using withBuffer_eq [OF p, of 1] calcMax_eq [OF p, of 1] params_ok_sizes(2) [OF p] dummyD(1) [OF t] by simp
  moreover have "t\<lparr>mNumElements := 0, mKeyVals := []\<rparr> = t" using dummyD(2,4) [OF t] by simp
  ultimately show ?thesis
    using dummyD [OF t] by (simp add: nodes_destroyed_def dummy_infos [OF t])
qed

definition fresh_infos :: "nat \<Rightarrow> nat list" where
  "fresh_infos n = (replicate (n + 8) 0)[n := 1]"

lemma core_fresh: "m < n \<Longrightarrow> core P m 0 n (fresh_infos n) (replicate n Raw)"
  by (auto simp: core_def node_ok_def nth_list_update fresh_infos_def)

lemma clear_inv:
  assumes p: "params_ok P" and t: "table_inv P t"
  shows "\<exists>t'. clear P t = Some t' \<and> table_inv P t' \<and> nodes t' = {#} \<and> mMask t' = mMask t"
proof (cases "mNumElements t = 0")
  case True
  then have "live (mKeyVals t) = []"
    using t sizedD(5) [of P t] dummyD(2) [of t] by (auto simp: table_inv_def)
  then show ?thesis using True t by (simp add: clear_def is_empty_def)
next
  case False
  then have s: "sized P t" using t dummyD(4) [of t] by (auto simp: table_inv_def)
  let ?n = "numNodes t"
  obtain xs where mi: "mInfo t = Some xs" using sizedD(1) [OF s] by (auto simp: tbl_core_def)
  let ?t = "t\<lparr>mNumElements := 0, mKeyVals := replicate ?n Raw, mInfo := Some (fresh_infos ?n),
     mInfoInc := InitialInfoInc, mInfoHashShift := InitialInfoHashShift\<rparr>"
  have "calcNumBytesInfo ?n = ?n + 8" using sizedD(4) [OF s] by (simp add: calcNumBytesInfo_def)
  moreover have "length xs = ?n + 8" using tblD(1) [OF sizedD(1) [OF s]] mi by simp
  ultimately have "clear P t = Some ?t"
    using False mi nodes_destroyed_sized [OF p s] sizedD(3) [OF s] sized_mask(3) [OF p s]
    by (simp add: clear_def is_empty_def fresh_infos_def Let_def)
  moreover have "tbl_core P ?t" using core_fresh [of "mMask t" ?n P] tblD(3) [OF sizedD(1) [OF s]]
    by (simp add: tbl_core_def InitialInfoInc_def InitialInfoHashShift_def inc_of_def)
  moreover have "room ?t" by (auto simp: room_def InitialInfoInc_def fresh_infos_def nth_list_update)
  ultimately show ?thesis
    using sizedD(2-4,7) [OF s] by (auto simp: table_inv_def sized_def)
qed

section \<open>Copying\<close>

lemma clone_nodes_spec:
  assumes "i + n = length src" "length src \<le> length xs" "length tgt = length src"
    and "\<forall>j. i \<le> j \<and> j < length src \<longrightarrow> (xs ! j \<noteq> 0 \<longleftrightarrow> (\<exists>v. src ! j = Live v)) \<and> src ! j \<noteq> Moved"
    and "\<forall>j. i \<le> j \<and> j < length src \<longrightarrow> tgt ! j = Raw"
  shows "clone_nodes src tgt xs i n = Some (take i tgt @ drop i src)"
  using assms
proof (induction n arbitrary: i tgt)
  case 0
  then show ?case by simp
next
  case (Suc n)
  let ?tgt = "tgt[i := src ! i]"
  have i: "i < length src" "i < length xs" "i < length tgt" using Suc.prems(1-3) by auto
  have step: "clone_nodes src tgt xs i (Suc n) = clone_nodes src ?tgt xs (Suc i) n"
  proof (cases "xs ! i = 0")
    case True
    then have "src ! i = Raw" using Suc.prems(4) i by (cases "src ! i") auto
    moreover have "tgt ! i = Raw" using Suc.prems(5) i by simp
    ultimately have "?tgt = tgt" by (metis list_update_id)
    then show ?thesis using True i by simp
  next
    case False
    then obtain v where "src ! i = Live v" using Suc.prems(4) i by auto
    then show ?thesis using False i Suc.prems(5) by simp
  qed
  have "clone_nodes src ?tgt xs (Suc i) n = Some (take (Suc i) ?tgt @ drop (Suc i) src)"
    using Suc.prems by (intro Suc.IH) auto
  moreover have "take (Suc i) ?tgt = take i tgt @ [src ! i]" using i(3) by (simp add: take_Suc_conv_app_nth)
  ultimately show ?case using step i(1) by (simp flip: Cons_nth_drop_Suc)
qed

lemma cloneData_spec:
  assumes p: "params_ok P" and s: "sized P src" and t: "mInfo t = Some old"
    and "length old = numNodes src + 8" "mKeyVals t = replicate (numNodes src) Raw" "mMask t = mMask src"
  shows "cloneData P src t = Some (t\<lparr>mInfo := Some (infos src), mKeyVals := mKeyVals src\<rparr>)"
proof -
  have n: "calcNumElementsWithBuffer P (size_wrap (mMask t + 1)) = numNodes src"
    using sizedD(3) [OF s] sized_mask(3) [OF p s] assms(6) by simp
  have m: "calcNumBytesInfo (numNodes src) = numNodes src + 8"
    using sizedD(4) [OF s] by (simp add: calcNumBytesInfo_def)
  note len = tblD(1) [OF sizedD(1) [OF s]]
  have "clone_nodes (mKeyVals src) (replicate (numNodes src) Raw) (infos src) 0 (numNodes src) =
      Some (take 0 (replicate (numNodes src) Raw) @ drop 0 (mKeyVals src))"
    using sized_flags [OF s] len by (intro clone_nodes_spec) auto
  then show ?thesis using t assms(4,5) n m len by (simp add: cloneData_def Let_def)
qed

text \<open>The last request asked for a block of the size of the source's, and was not granted.\<close>

definition refused_copy :: "'k table_params \<Rightarrow> ('k, 'v) table \<Rightarrow> ('k, 'v) table \<Rightarrow> bool" where
  "refused_copy P src t' \<longleftrightarrow> 0 < allocs t' \<and>
     \<not> p_alloc P (allocs t' - 1) (calcNumBytesTotal P (numNodes src))"

lemma alloc_arrays_spec:
  assumes p: "params_ok P" and s: "sized P src"
  shows "(\<exists>t'. alloc_arrays P junk t (mMask src) = Some (Throw BadAlloc, t') \<and> refused_copy P src t') \<or>
     (\<exists>old. alloc_arrays P junk t (mMask src) = Some (Ret (), t\<lparr>allocs := Suc (allocs t),
        mKeyVals := replicate (numNodes src) Raw, mInfo := Some old\<rparr>) \<and> length old = numNodes src + 8)"
proof -
  have n: "calcNumElementsWithBuffer P (size_wrap (mMask src + 1)) = numNodes src"
    using sizedD(3) [OF s] sized_mask(3) [OF p s] by simp
  have "numNodes src * p_sizeof_node P < 2 ^ 48 * 2 ^ 12"
    using params_ok_sizes(3,4) [OF p] sizedD(4) [OF s] by (intro mult_strict_mono) auto
  then have total: "calcNumBytesTotal P (numNodes src) = numNodes src * p_sizeof_node P + (numNodes src + 8)"
    using sizedD(4) [OF s] by (simp add: calcNumBytesTotal_def calcNumBytesInfo_def)
  show ?thesis
  proof (cases "p_alloc P (allocs t) (calcNumBytesTotal P (numNodes src))")
    case True
    then show ?thesis using total n by (auto simp: alloc_arrays_def Let_def)
  next
    case False
    then show ?thesis using n by (auto simp: alloc_arrays_def Let_def refused_copy_def)
  qed
qed

text \<open>A table with the members and the arrays of a sized table is sized.\<close>

lemma sized_copy:
  assumes "sized P src" "t = (copy_members src t0)\<lparr>mInfo := Some (infos src), mKeyVals := mKeyVals src\<rparr>"
  shows "sized P t" "nodes t = nodes src"
proof -
  have f: "mKeyVals t = mKeyVals src" "infos t = infos src" "mMask t = mMask src"
    "mNumElements t = mNumElements src" "mInfoInc t = mInfoInc src"
    "mInfoHashShift t = mInfoHashShift src" "mMaxNumElementsAllowed t = mMaxNumElementsAllowed src"
    and "mInfo t \<noteq> None"
    using assms(2) by (simp_all add: copy_members_def)
  then show "sized P t" using assms(1) unfolding sized_def tbl_core_def room_def f by blast
  show "nodes t = nodes src" using f by simp
qed

definition copy_result ::
  "'k table_params \<Rightarrow> ('k, 'v) table \<Rightarrow> (unit outcome \<times> ('k, 'v) table) option \<Rightarrow> bool" where
  "copy_result P src res \<longleftrightarrow>
     (\<exists>r t'. res = Some (r, t') \<and>
       (r = Ret () \<and> table_inv P t' \<and> nodes t' = nodes src \<or>
        r = Throw BadAlloc \<and> refused_copy P src t'))"

lemma copy_into_result:
  assumes p: "params_ok P" and s: "sized P src"
  shows "copy_result P src (case alloc_arrays P junk t (mMask src) of None \<Rightarrow> None
      | Some (Throw e, t1) \<Rightarrow> Some (Throw e, t1)
      | Some (Ret _, t1) \<Rightarrow> map_option (Pair (Ret ())) (cloneData P src (copy_members src t1)))"
  using alloc_arrays_spec [OF p s, of junk t]
proof (elim disjE exE conjE)
  fix old
  assume a: "alloc_arrays P junk t (mMask src) = Some (Ret (), t\<lparr>allocs := Suc (allocs t),
      mKeyVals := replicate (numNodes src) Raw, mInfo := Some old\<rparr>)" (is "_ = Some (Ret (), ?t1)")
    and len: "length old = numNodes src + 8"
  have "cloneData P src (copy_members src ?t1) =
      Some ((copy_members src ?t1)\<lparr>mInfo := Some (infos src), mKeyVals := mKeyVals src\<rparr>)"
    using len by (intro cloneData_spec [OF p s, where old = old]) (simp_all add: copy_members_def)
  with sized_copy [OF s refl, of ?t1] a show ?thesis
    by (simp add: copy_result_def table_inv_def)
qed (auto simp: copy_result_def)

lemma inv_nonempty: "table_inv P t \<Longrightarrow> mNumElements t \<noteq> 0 \<Longrightarrow> sized P t"
  using dummyD(4) [of t] by (auto simp: table_inv_def)

lemma inv_empty: "table_inv P t \<Longrightarrow> mNumElements t = 0 \<Longrightarrow> nodes t = {#}"
  using sizedD(5) [of P t] dummyD(2) [of t] by (auto simp: table_inv_def)

lemma dummy_init [simp]: "dummy (init t)" "dummy (empty_table\<lparr>allocs := n\<rparr>)" "dummy empty_table"
  by (simp_all add: dummy_def init_def empty_table_def)

lemma nodes_init [simp]: "mKeyVals (init t) = []" "mKeyVals empty_table = []"
  by (simp_all add: init_def empty_table_def)

lemma copy_construct_result:
  assumes "params_ok P" "table_inv P src"
  shows "copy_result P src (copy_construct P junk src)"
proof (cases "mNumElements src = 0")
  case True
  then show ?thesis
    using inv_empty [OF assms(2)]
    by (simp add: copy_construct_def copy_result_def is_empty_def table_inv_def)
next
  case False
  then show ?thesis
    using copy_into_result [OF assms(1) inv_nonempty [OF assms(2) False], of junk]
    by (simp add: copy_construct_def is_empty_def)
qed

lemma destroy_inv:
  assumes "params_ok P" "table_inv P t"
  shows "\<exists>t'. destroy P t = Some t' \<and> live (mKeyVals t') = []"
proof (cases "dummy t")
  case True
  then show ?thesis using dummyD [OF True] by (simp add: destroy_def)
next
  case False
  then have s: "sized P t" using assms(2) by (simp add: table_inv_def)
  then show ?thesis
    using nodes_destroyed_sized [OF assms(1) s] sized_mask(2) [OF assms(1) s] by (simp add: destroy_def)
qed

lemma copy_assign_result:
  assumes p: "params_ok P" and t: "table_inv P t" and src: "table_inv P src"
  shows "copy_result P src (copy_assign P junk t src)"
proof (cases "mNumElements src = 0")
  case True
  then have e: "nodes src = {#}" by (rule inv_empty [OF src])
  show ?thesis
  proof (cases "mMask t = 0")
    case m: True
    then have "dummy t" using t sized_mask(2) [OF p, of t] by (auto simp: table_inv_def)
    then show ?thesis
      using True m e t dummyD(2) [of t] by (simp add: copy_assign_def is_empty_def copy_result_def)
  next
    case False
    then show ?thesis
      using True e destroy_inv [OF p t]
      by (auto simp: copy_assign_def is_empty_def copy_result_def table_inv_def)
  qed
next
  case False
  then have s: "sized P src" by (rule inv_nonempty [OF src])
  obtain t1 where t1: "nodes_destroyed P t = Some t1" "mMask t1 = mMask t"
    using t nodes_destroyed_sized [OF p] nodes_destroyed_dummy [OF p] by (force simp: table_inv_def)
  show ?thesis
  proof (cases "mMask t = mMask src")
    case m: True
    then have "\<not> dummy t" using dummyD(1) [of t] sized_mask(2) [OF p s] by auto
    then have st: "sized P t" using t by (simp add: table_inv_def)
    obtain old where old: "mInfo t = Some old" using sizedD(1) [OF st] by (auto simp: tbl_core_def)
    have n: "numNodes t = numNodes src" using sizedD(3) [OF st] sizedD(3) [OF s] m by simp
    have len: "length old = numNodes src + 8" using tblD(1) [OF sizedD(1) [OF st]] old n by simp
    let ?t1 = "t\<lparr>mNumElements := 0, mKeyVals := replicate (numNodes t) Raw\<rparr>"
    have "cloneData P src (copy_members src ?t1) =
        Some ((copy_members src ?t1)\<lparr>mInfo := Some (infos src), mKeyVals := mKeyVals src\<rparr>)"
      using len old n by (intro cloneData_spec [OF p s, where old = old]) (simp_all add: copy_members_def)
    with sized_copy [OF s refl, of ?t1] show ?thesis
      using False m nodes_destroyed_sized [OF p st]
      by (simp add: copy_assign_def is_empty_def copy_result_def table_inv_def)
  next
    case m: False
    then show ?thesis
      using False t1 copy_into_result [OF p s, of junk
        "if mMask t1 \<noteq> 0 then t1\<lparr>mKeyVals := [], mInfo := Some []\<rparr> else t1"]
      by (simp add: copy_assign_def is_empty_def)
  qed
qed

section \<open>Moving\<close>

lemma move_members_sized:
  assumes "sized P src"
  shows "sized P (move_members src t)" "nodes (move_members src t) = nodes src"
proof -
  obtain xs where mi: "mInfo src = Some xs" using sizedD(1) [OF assms] by (auto simp: tbl_core_def)
  then have "move_members src t =
      (copy_members src t)\<lparr>mInfo := Some (infos src), mKeyVals := mKeyVals src\<rparr>"
    by (simp add: move_members_def copy_members_def)
  from sized_copy [OF assms this]
  show "sized P (move_members src t)" "nodes (move_members src t) = nodes src" by auto
qed

lemma move_construct_inv:
  assumes p: "params_ok P" and "table_inv P src" "move_construct src = (t, src')"
  shows "table_inv P t" "table_inv P src'" "nodes t = nodes src" "nodes src' = {#}"
proof -
  have "table_inv P t \<and> table_inv P src' \<and> nodes t = nodes src \<and> nodes src' = {#}"
  proof (cases "dummy src")
    case True
    then show ?thesis using assms(3) dummyD [OF True] by (auto simp: move_construct_def table_inv_def)
  next
    case False
    then have s: "sized P src" using assms(2) by (simp add: table_inv_def)
    then show ?thesis
      using assms(3) sized_mask(2) [OF p s] move_members_sized [OF s]
      by (auto simp: move_construct_def table_inv_def)
  qed
  then show "table_inv P t" "table_inv P src'" "nodes t = nodes src" "nodes src' = {#}" by auto
qed

lemma move_assign_inv:
  assumes p: "params_ok P" and t: "table_inv P t" and src: "table_inv P src"
  shows "\<exists>t' src'. move_assign P t src = Some (t', src') \<and> table_inv P t' \<and> table_inv P src' \<and>
     nodes t' = nodes src \<and> nodes src' = {#}"
proof (cases "dummy src")
  case True
  then show ?thesis
    using clear_inv [OF p t] dummyD(1,2) [OF True] src by (auto simp: move_assign_def)
next
  case False
  then have s: "sized P src" using src by (simp add: table_inv_def)
  obtain t1 where "destroy P t = Some t1" using destroy_inv [OF p t] by blast
  then show ?thesis
    using sized_mask(2) [OF p s] move_members_sized [OF s, of t1]
    by (simp add: move_assign_def table_inv_def)
qed

section \<open>Comparing\<close>

lemma has_entry_eq:
  assumes "params_ok P" "table_inv P t"
  shows "has_entry P veq t e = Some (case abs_map P t (fst e) of None \<Rightarrow> False | Some v \<Rightarrow> veq v (snd e))"
  by (rule findIdx_cases [OF assms, of "fst e"])
     (simp_all add: has_entry_def find_key_def end_idx_def)

lemma has_all_eq:
  assumes "params_ok P" "table_inv P t"
  shows "has_all P veq t es =
     Some (\<forall>e\<in>set es. case abs_map P t (fst e) of None \<Rightarrow> False | Some v \<Rightarrow> veq v (snd e))"
proof (induction es)
  case (Cons e es)
  then show ?case
    by (cases "case abs_map P t (fst e) of None \<Rightarrow> False | Some v \<Rightarrow> veq v (snd e)")
       (simp_all add: has_entry_eq [OF assms])
qed simp

text \<open>Comparison by counting: equally many entries, and every entry of one table is in the other.\<close>

lemma inv_distinct:
  assumes "params_ok P" "table_inv P t"
  shows "distinct (live (mKeyVals t))"
  using inv_keys_differ [OF assms(2)] params_ok_eqD(1) [OF assms(1)] unfolding keys_differ_def
  by (metis (no_types, lifting) distinct_conv_nth linorder_neqE_nat sorted_wrt_nth_less)

lemma included_inj:
  assumes p: "params_ok P" and t: "table_inv P t" and u: "table_inv P u"
    and sub: "\<And>k v. (k, v) \<in># nodes u \<Longrightarrow> abs_map P t k = Some v"
  obtains g where "inj_on g (set (live (mKeyVals u)))" "g ` set (live (mKeyVals u)) \<subseteq> set (live (mKeyVals t))"
    "\<And>e. e \<in> set (live (mKeyVals u)) \<Longrightarrow> p_key_eq P (fst e) (fst (g e)) \<and> snd (g e) = snd e"
proof -
  have "\<forall>e\<in>set (live (mKeyVals u)). \<exists>f. f \<in> set (live (mKeyVals t)) \<and>
      p_key_eq P (fst e) (fst f) \<and> snd f = snd e"
    using sub abs_map_Some_iff [OF p t] by force
  then obtain g where g: "\<And>e. e \<in> set (live (mKeyVals u)) \<Longrightarrow> g e \<in> set (live (mKeyVals t)) \<and>
      p_key_eq P (fst e) (fst (g e)) \<and> snd (g e) = snd e"
    by metis
  have "inj_on g (set (live (mKeyVals u)))"
  proof (rule inj_onI)
    fix a b assume ab: "a \<in> set (live (mKeyVals u))" "b \<in> set (live (mKeyVals u))" "g a = g b"
    then have "p_key_eq P (fst a) (fst a)" "p_key_eq P (fst a) (fst b)"
      using g [OF ab(1)] g [OF ab(2)] params_ok_eqD [OF p] by metis+
    then show "a = b" using keys_differ_unique [OF p inv_keys_differ [OF u] ab(1,2)] by blast
  qed
  then show thesis using g by (intro that [of g]) auto
qed

lemma included_size:
  assumes p: "params_ok P" and t: "table_inv P t" and u: "table_inv P u"
    and sub: "\<And>k v. (k, v) \<in># nodes u \<Longrightarrow> abs_map P t k = Some v"
  shows "size (nodes u) \<le> size (nodes t)"
proof -
  obtain g where "inj_on g (set (live (mKeyVals u)))" "g ` set (live (mKeyVals u)) \<subseteq> set (live (mKeyVals t))"
    using included_inj [OF assms] by metis
  then have "card (set (live (mKeyVals u))) \<le> card (set (live (mKeyVals t)))" by (metis card_inj_on_le List.finite_set)
  then show ?thesis by (simp add: distinct_card [OF inv_distinct [OF p t]] distinct_card [OF inv_distinct [OF p u]])
qed

lemma equal_if_included:
  assumes p: "params_ok P" and t: "table_inv P t" and u: "table_inv P u"
    and num: "size (nodes u) = size (nodes t)"
    and sub: "\<And>k v. (k, v) \<in># nodes u \<Longrightarrow> abs_map P t k = Some v"
  shows "abs_map P u = abs_map P t"
proof -
  obtain g where inj: "inj_on g (set (live (mKeyVals u)))"
    and img: "g ` set (live (mKeyVals u)) \<subseteq> set (live (mKeyVals t))"
    and g: "\<And>e. e \<in> set (live (mKeyVals u)) \<Longrightarrow> p_key_eq P (fst e) (fst (g e)) \<and> snd (g e) = snd e"
    using included_inj [OF p t u sub] by metis
  have "card (g ` set (live (mKeyVals u))) = card (set (live (mKeyVals t)))"
    using num inj by (simp add: card_image distinct_card [OF inv_distinct [OF p t]]
        distinct_card [OF inv_distinct [OF p u]])
  then have surj: "g ` set (live (mKeyVals u)) = set (live (mKeyVals t))"
    using img by (intro card_subset_eq) auto
  show ?thesis
  proof (rule ext, rule option.expand)
    have fwd: "abs_map P u k = Some v" if k: "abs_map P t k = Some v" for k v
    proof -
      obtain k' where "(k', v) \<in> set (live (mKeyVals t))" "p_key_eq P k k'"
        using abs_map_Some_iff [OF p t] k by auto
      then obtain e where "e \<in> set (live (mKeyVals u))" "g e = (k', v)" using surj by (metis imageE)
      then have "(fst e, v) \<in># nodes u" "p_key_eq P k (fst e)"
        using g [of e] params_ok_eqD [OF p] \<open>p_key_eq P k k'\<close> by (metis fst_conv snd_conv prod.collapse set_mset_mset)+
      then show ?thesis using abs_map_Some_iff [OF p u] by blast
    qed
    have bwd: "abs_map P t k = Some v" if k: "abs_map P u k = Some v" for k v
    proof -
      obtain k' where k': "(k', v) \<in># nodes u" "p_key_eq P k k'" using abs_map_Some_iff [OF p u] k by blast
      then obtain k'' where "(k'', v) \<in># nodes t" "p_key_eq P k' k''"
        using sub abs_map_Some_iff [OF p t] by blast
      then show ?thesis using abs_map_Some_iff [OF p t] params_ok_eqD(3) [OF p k'(2)] by blast
    qed
    fix k
    show "(abs_map P u k = None) = (abs_map P t k = None)" using fwd bwd by (metis not_None_eq)
    assume "abs_map P u k \<noteq> None" "abs_map P t k \<noteq> None"
    then show "the (abs_map P u k) = the (abs_map P t k)" using bwd by fastforce
  qed
qed

section \<open>Reserving\<close>

lemma calcMax_mono:
  assumes "params_ok P" "M \<le> M'" "M' < 2 ^ 56"
  shows "calcMaxNumElementsAllowed P M \<le> calcMaxNumElementsAllowed P M'"
  using assms by (simp add: calcMax_eq div_le_mono)

lemma reserve_size_spec:
  assumes p: "params_ok P" and B: "B < 50" "m \<le> calcMaxNumElementsAllowed P (2 ^ B)"
    and "b \<le> B" "B - b < fuel"
  shows "\<exists>b'. b \<le> b' \<and> b' \<le> B \<and> reserve_size fuel P m (2 ^ b) = Some (2 ^ b') \<and>
     m \<le> calcMaxNumElementsAllowed P (2 ^ b') \<and>
     (\<forall>j. b \<le> j \<and> j < b' \<longrightarrow> calcMaxNumElementsAllowed P (2 ^ j) < m)"
  using assms(4,5)
proof (induction fuel arbitrary: b)
  case (Suc fuel)
  show ?case
  proof (cases "calcMaxNumElementsAllowed P (2 ^ b) < m")
    case False
    then show ?thesis using Suc.prems by (intro exI [of _ b]) auto
  next
    case True
    then have "b < B" using Suc.prems(1) B(2) by (cases "b = B") auto
    have "(2::nat) ^ b < 2 ^ 50" using \<open>b < B\<close> B(1) by (intro power_strict_increasing) auto
    then have "size_wrap (2 ^ b * 2) = 2 ^ Suc b" by simp
    then have step: "reserve_size (Suc fuel) P m (2 ^ b) = reserve_size fuel P m (2 ^ Suc b)"
      using True by simp
    have le: "Suc b \<le> B" "B - Suc b < fuel" using Suc.prems \<open>b < B\<close> by linarith+
    obtain b' where b': "Suc b \<le> b'" "b' \<le> B" "reserve_size fuel P m (2 ^ Suc b) = Some (2 ^ b')"
      "m \<le> calcMaxNumElementsAllowed P (2 ^ b')"
      "\<forall>j. Suc b \<le> j \<and> j < b' \<longrightarrow> calcMaxNumElementsAllowed P (2 ^ j) < m"
      using Suc.IH [OF le] by blast
    have "calcMaxNumElementsAllowed P (2 ^ j) < m" if "b \<le> j" "j < b'" for j
      using that True b'(5) by (cases "j = b") auto
    then show ?thesis unfolding step using b' by (intro exI [of _ b']) auto
  qed
qed simp

text \<open>\<^verbatim>\<open>reserve\<close> and \<^verbatim>\<open>rehash\<close>, for counts below \<open>2 ^ 44\<close>, choose the smallest sufficient power of two.\<close>

lemma reserve_impl_result:
  assumes p: "params_ok P" and t: "table_inv P t" and c: "c \<le> 2 ^ 44"
  shows "\<exists>b\<ge>3. max c (mNumElements t) \<le> calcMaxNumElementsAllowed P (2 ^ b) \<and>
     reserve_impl P t c force =
       (if force \<or> Suc (mMask t) < 2 ^ b then rehashPowerOfTwo P t (2 ^ b) else Some (Ret (), t)) \<and>
     rehash_result P t (2 ^ b) (rehashPowerOfTwo P t (2 ^ b))"
proof -
  have "(2::nat) ^ 48 * 11 div 100 \<le> 2 ^ 48 * p_max_load P div 100"
    using params_ok_sizes(1) [OF p] by (intro div_le_mono mult_le_mono2) simp
  moreover have "(2::nat) ^ 44 \<le> 2 ^ 48 * 11 div 100" by simp
  ultimately have c48: "c \<le> calcMaxNumElementsAllowed P (2 ^ 48)"
    using c calcMax_eq [OF p, of "2 ^ 48"] by simp
  have m48: "Suc (mMask t) \<le> 2 ^ 48"
    using t sized_mask(1) [OF p, of t] dummyD(1) [of t] by (auto simp: table_inv_def)
  have "mNumElements t \<le> calcMaxNumElementsAllowed P (Suc (mMask t))"
    using t sizedD(6) [of P t] dummyD(4) [of t] by (auto simp: table_inv_def)
  also have "\<dots> \<le> calcMaxNumElementsAllowed P (2 ^ 48)" using m48 by (intro calcMax_mono [OF p]) auto
  finally have "max c (mNumElements t) \<le> calcMaxNumElementsAllowed P (2 ^ 48)" using c48 by simp
  from reserve_size_spec [OF p _ this, of 3 64] obtain b where b: "3 \<le> b" "b \<le> 48"
    "reserve_size 64 P (max c (mNumElements t)) (2 ^ 3) = Some (2 ^ b)"
    "max c (mNumElements t) \<le> calcMaxNumElementsAllowed P (2 ^ b)"
    by auto
  have sm: "(2::nat) ^ b < 2 ^ 50" using b(2) by (intro power_strict_increasing) auto
  have r: "rehash_result P t (2 ^ b) (rehashPowerOfTwo P t (2 ^ b))"
    using b(4) by (intro rehashPowerOfTwo_spec [OF p t b(1) sm]) simp
  have "reserve_impl P t c force =
      (if force \<or> Suc (mMask t) < 2 ^ b then rehashPowerOfTwo P t (2 ^ b) else Some (Ret (), t))"
    using b(3) m48 by (simp add: reserve_impl_def InitialNumElements_def)
  with b r show ?thesis by blast
qed

end
