(* ===== verification/Hash_Table_Spec.thy ===== *)
theory Hash_Table_Spec
  imports Hash_Table_Whole
begin

text \<open>
  What the hash table promises its clients. The locale \<open>keyed_map\<close> is the interface of a map whose
  insertion may throw; its lemmas are about any provider. The table is shown to be one, and the
  properties of its operations are stated over the definitions of the model.
\<close>

section \<open>The interface\<close>

locale keyed_map =
  fixes valid :: "'p \<Rightarrow> bool" and inv :: "'p \<Rightarrow> 't \<Rightarrow> bool" and same :: "'p \<Rightarrow> 'k \<Rightarrow> 'k \<Rightarrow> bool"
    and lookup :: "'p \<Rightarrow> 't \<Rightarrow> 'k \<Rightarrow> 'v option" and empty :: 't
    and ins :: "'p \<Rightarrow> 't \<Rightarrow> 'k \<times> 'v \<Rightarrow> ((nat \<times> bool) outcome \<times> 't) option"
    and del :: "'p \<Rightarrow> 't \<Rightarrow> 'k \<Rightarrow> (nat \<times> 't) option"
  assumes same_refl: "valid p \<Longrightarrow> same p k k"
    and same_sym: "valid p \<Longrightarrow> same p k k' \<Longrightarrow> same p k' k"
    and same_trans: "valid p \<Longrightarrow> same p k k' \<Longrightarrow> same p k' k'' \<Longrightarrow> same p k k''"
    and inv_empty_map: "valid p \<Longrightarrow> inv p empty"
    and lookup_empty: "lookup p empty k = None"
    and lookup_same: "valid p \<Longrightarrow> inv p t \<Longrightarrow> same p k k' \<Longrightarrow> lookup p t k = lookup p t k'"
    and ins_returns: "valid p \<Longrightarrow> inv p t \<Longrightarrow> \<exists>r t'. ins p t e = Some (r, t')"
    and ins_ret: "valid p \<Longrightarrow> inv p t \<Longrightarrow> ins p t (k, v) = Some (Ret (i, new), t') \<Longrightarrow>
      inv p t' \<and> new = (lookup p t k = None) \<and>
      lookup p t' x = (if new \<and> same p x k then Some v else lookup p t x)"
    and del_ret: "valid p \<Longrightarrow> inv p t \<Longrightarrow> \<exists>n t'. del p t k = Some (n, t') \<and> inv p t' \<and>
      n = (if lookup p t k = None then 0 else 1) \<and>
      (\<forall>x. lookup p t' x = (if same p x k then None else lookup p t x))"
begin

lemma ins_again:
  assumes "valid p" "inv p t" "ins p t (k, v) = Some (Ret (i, b), t')" "ins p t' (k, w) = Some (Ret (j, c), u)"
  shows "\<not> c" "lookup p u x = lookup p t' x"
proof -
  have t': "inv p t'" "lookup p t' k \<noteq> None"
    using ins_ret [OF assms(1-3), of k] same_refl [OF assms(1)] by auto
  show "\<not> c" "lookup p u x = lookup p t' x" using ins_ret [OF assms(1) t'(1) assms(4), of x] t'(2) by auto
qed

lemma del_undoes_ins:
  assumes "valid p" "inv p t" "ins p t (k, v) = Some (Ret (i, True), t')"
  shows "\<exists>u. del p t' k = Some (1, u) \<and> inv p u \<and> lookup p u = lookup p t"
proof -
  have i: "inv p t'" "lookup p t k = None"
    and l: "\<And>x. lookup p t' x = (if same p x k then Some v else lookup p t x)"
    using ins_ret [OF assms] by auto
  obtain n u where u: "del p t' k = Some (n, u)" "inv p u" "n = (if lookup p t' k = None then 0 else 1)"
    "\<And>x. lookup p u x = (if same p x k then None else lookup p t' x)"
    using del_ret [OF assms(1) i(1), of k] by blast
  have "lookup p t x = None" if "same p x k" for x using lookup_same [OF assms(1,2) that] i(2) by simp
  then have "lookup p u = lookup p t" using u(4) l by auto
  then show ?thesis using u(1-3) l [of k] same_refl [OF assms(1)] by auto
qed

end

text \<open>Inserting a range of entries one by one keeps, for every key, the entry that was there or else
  the first of the range.\<close>

locale keyed_map_range = keyed_map +
  fixes ins_range :: "'a \<Rightarrow> 'b \<Rightarrow> ('c \<times> 'd) list \<Rightarrow> (unit outcome \<times> 'b) option"
  assumes range_Nil: "ins_range p t [] = Some (Ret (), t)"
    and range_Cons: "ins_range p t (e # es) =
      (case ins p t e of None \<Rightarrow> None
       | Some (Throw x, t1) \<Rightarrow> Some (Throw x, t1)
       | Some (Ret _, t1) \<Rightarrow> ins_range p t1 es)"
begin

lemma range_ret:
  assumes "valid p" "inv p t" "ins_range p t es = Some (Ret (), t')"
  shows "inv p t' \<and> lookup p t' x =
    (case lookup p t x of Some v \<Rightarrow> Some v
     | None \<Rightarrow> map_option snd (find (\<lambda>e. same p x (fst e)) es))"
  using assms(2,3)
proof (induction es arbitrary: t)
  case Nil
  then show ?case by (simp add: range_Nil split: option.split)
next
  case (Cons e es)
  obtain k v where e: "e = (k, v)" by force
  obtain i b t1 where t1: "ins p t (k, v) = Some (Ret (i, b), t1)" "ins_range p t1 es = Some (Ret (), t')"
    using Cons.prems(2) e by (auto simp: range_Cons split: option.splits outcome.splits)
  note r = ins_ret [OF assms(1) Cons.prems(1) t1(1), of x]
  have "lookup p t x = None" if "same p x k" "lookup p t k = None"
    using lookup_same [OF assms(1) Cons.prems(1) that(1)] that(2) by simp
  moreover have "lookup p t x \<noteq> None" if "same p x k" "lookup p t k \<noteq> None"
    using lookup_same [OF assms(1) Cons.prems(1) that(1)] that(2) by simp
  ultimately show ?case using Cons.IH [of t1] r t1(2) e by (auto split: option.splits)
qed

end

section \<open>The table is a keyed map\<close>

lemma abs_map_same:
  assumes p: "params_ok P" and t: "table_inv P t" and eq: "p_key_eq P j k"
  shows "abs_map P t j = abs_map P t k"
proof -
  have "p_key_eq P j x = p_key_eq P k x" for x using eq params_ok_eqD [OF p] by blast
  then show ?thesis by (simp add: abs_map_def)
qed

lemma abs_map_absent_iff: "abs_map P t k = None \<longleftrightarrow> (\<forall>j. \<not> holds P t k j)"
  by (rule abs_map_None_iff)

lemma abs_map_mono:
  assumes "params_ok P" "table_inv P t" "table_inv P t'" "nodes t' \<subseteq># nodes t"
  shows "abs_map P t' \<subseteq>\<^sub>m abs_map P t"
proof (unfold map_le_def, intro ballI)
  fix x assume "x \<in> dom (abs_map P t')"
  then obtain v where v: "abs_map P t' x = Some v" by blast
  then show "abs_map P t' x = abs_map P t x"
    using abs_map_Some_iff [OF assms(1,2), of x v] abs_map_Some_iff [OF assms(1,3), of x v]
      mset_subset_eqD [OF assms(4)] by auto
qed

lemma doInsert_cases:
  assumes p: "params_ok P" and t: "table_inv P t"
  obtains (old) i v' where "doInsert P t (k, v) = Some (Ret (i, False), t)" "holds P t k i" "abs_map P t k = Some v'"
    | (new) i t' where "doInsert P t (k, v) = Some (Ret (i, True), t')" "abs_map P t k = None" "table_inv P t'"
        "nodes t' = add_mset (k, v) (nodes t)" "i < numNodes t'" "mKeyVals t' ! i = Live (k, v)"
    | (overflow) t' where "doInsert P t (k, v) = Some (Throw OverflowError, t')" "abs_map P t k = None"
        "table_inv P t'" "nodes t' \<subseteq># nodes t" "exhausted t'"
    | (refused) t' where "doInsert P t (k, v) = Some (Throw BadAlloc, t')" "abs_map P t k = None"
        "refused P t t'"
proof (cases "\<exists>i. holds P t k i")
  case True
  then obtain i where i: "holds P t k i" by blast
  then show thesis
    using doInsert_present [OF p t, of "(k, v)" i] abs_map_holds [OF p t i] old by auto
next
  case False
  then have n: "\<forall>j. \<not> holds P t (fst (k, v)) j" and a: "abs_map P t k = None"
    by (auto simp: abs_map_None_iff)
  from doInsert_absent [OF p t n] show thesis
    unfolding insert_result_def using a new overflow refused unfolding table_inv_def by blast
qed

lemma erase_key_map:
  assumes p: "params_ok P" and t: "table_inv P t"
  shows "\<exists>n t'. erase_key P t k = Some (n, t') \<and> table_inv P t' \<and>
     n = (if abs_map P t k = None then 0 else 1) \<and>
     (\<forall>x. abs_map P t' x = (if p_key_eq P x k then None else abs_map P t x))"
proof (rule erase_key_cases [OF p t, of k])
  fix kv t' assume a: "erase_key P t k = Some (1, t')" "table_inv P t'" "p_key_eq P k (fst kv)"
    "nodes t = add_mset kv (nodes t')"
  obtain k0 v0 where kv: "kv = (k0, v0)" by force
  have same: "p_key_eq P x k0 = p_key_eq P x k" for x
    using a(3) kv params_ok_eqD [OF p] by (metis fst_conv)
  have "abs_map P t k = Some v0" using abs_map_Some_iff [OF p t] a(3,4) kv by auto
  then show ?thesis using a abs_map_remove [OF p t a(2), of k0 v0] kv same by auto
next
  assume a: "erase_key P t k = Some (0, t)" "\<forall>i. \<not> holds P t k i"
  then have "abs_map P t k = None" by (simp add: abs_map_None_iff)
  then show ?thesis using a(1) t abs_map_same [OF p t] by auto
qed

lemma inv_empty_table [simp]: "table_inv P empty_table"
  by (simp add: table_inv_def)

interpretation ht: keyed_map params_ok table_inv p_key_eq abs_map empty_table doInsert erase_key
proof unfold_locales
  fix p :: "'a table_params" and t :: "('a, 'b) table" and k v i new t' x
  assume p: "params_ok p" and t: "table_inv p t" and r: "doInsert p t (k, v) = Some (Ret (i, new), t')"
  show "table_inv p t' \<and> new = (abs_map p t k = None) \<and>
      abs_map p t' x = (if new \<and> p_key_eq p x k then Some v else abs_map p t x)"
    by (rule doInsert_cases [OF p t, of k v]) (use r t abs_map_add [OF p t, of t' k v x] in auto)
next
  fix p :: "'a table_params" and t :: "('a, 'b) table" and e :: "'a \<times> 'b"
  assume p: "params_ok p" and t: "table_inv p t"
  obtain k v where "e = (k, v)" by force
  then show "\<exists>r t'. doInsert p t e = Some (r, t')" by (auto intro: doInsert_cases [OF p t, of k v])
next
  fix p :: "'a table_params" and k
  show "abs_map p (empty_table :: ('a, 'b) table) k = None" by (simp add: abs_map_def)
qed (blast intro: params_ok_eqD abs_map_same erase_key_map inv_empty_table)+

interpretation ht: keyed_map_range params_ok table_inv p_key_eq abs_map empty_table doInsert erase_key
  insert_range
  by unfold_locales simp_all

section \<open>A concrete table\<close>

text \<open>Two entries whose keys have the same home position, in a table of eight buckets.\<close>

definition demo_params :: "nat table_params" where
  "demo_params = \<lparr>p_hash = (\<lambda>k. of_nat (32 * k)), p_is_ktl_hash = True, p_key_eq = (=),
     p_max_load = 80, p_sizeof_node = 16, p_alloc = (\<lambda>n b. b < 2 ^ 40)\<rparr>"

definition demo_table :: "(nat, nat) table" where
  "demo_table = \<lparr>mKeyVals = (replicate 14 Raw)[3 := Live (3, 30), 4 := Live (11, 110)],
     mInfo = Some ((replicate 22 0)[3 := 32, 4 := 64, 14 := 1]), mNumElements = 2, mMask = 7,
     mMaxNumElementsAllowed = 6, mInfoInc = 32, mInfoHashShift = 0, allocs = 1\<rparr>"

lemma demo_params_ok: "params_ok demo_params"
  by (simp add: params_ok_def demo_params_def identity_equivp)

lemma demo_build: "insert_range demo_params empty_table [(3, 30), (11, 110)] = Some (Ret (), demo_table)"
  by code_simp

lemma demo_inv: "table_inv demo_params demo_table"
  using ht.range_ret [OF demo_params_ok inv_empty_table demo_build] by blast

lemma demo_lookup: "abs_map demo_params demo_table 11 = Some 110" "abs_map demo_params demo_table 4 = None"
  by code_simp+

section \<open>Properties of the operations\<close>

text \<open>
  C1: \<^verbatim>\<open>doInsert\<close> (\<^verbatim>\<open>insert\<close>, \<^verbatim>\<open>emplace\<close>) always returns on a table that satisfies the invariant. When it
  returns normally, the invariant holds, the flag says whether the key was absent, the map gains
  exactly the entry when it was, and the returned position holds the key. When it throws
  \<open>OverflowError\<close> the table is still valid, holds no entry it did not hold before, and its info
  bytes are full with an increment that cannot be halved again. It throws \<open>BadAlloc\<close> only when the
  last request it made in this call, for the block of the table whose mask is already stored, was
  refused; the nodes are then those it had, while the element count is 0. It throws nothing else.
\<close>

theorem doInsert_refines:
  assumes "params_ok P" "table_inv P t"
  shows "\<exists>r t'. doInsert P t (k, v) = Some (r, t') \<and>
    (case r of
       Ret (i, new) \<Rightarrow> table_inv P t' \<and> new = (abs_map P t k = None) \<and> holds P t' k i \<and>
         abs_map P t' = (\<lambda>x. if new \<and> p_key_eq P x k then Some v else abs_map P t x)
     | Throw e \<Rightarrow> abs_map P t k = None \<and>
         (e = OverflowError \<and> exhausted t' \<and> table_inv P t' \<and> abs_map P t' \<subseteq>\<^sub>m abs_map P t \<or>
          e = BadAlloc \<and> refused P t t'))"
proof (rule doInsert_cases [OF assms, of k v])
  fix i v' assume a: "doInsert P t (k, v) = Some (Ret (i, False), t)" "holds P t k i" "abs_map P t k = Some v'"
  then show ?thesis using assms(2) by auto
next
  fix i t' assume a: "doInsert P t (k, v) = Some (Ret (i, True), t')" "abs_map P t k = None" "table_inv P t'"
    "nodes t' = add_mset (k, v) (nodes t)" "i < numNodes t'" "mKeyVals t' ! i = Live (k, v)"
  moreover have "holds P t' k i" using a(5,6) params_ok_eqD(1) [OF assms(1)] by (simp add: holds_def)
  ultimately show ?thesis using abs_map_add [OF assms a(3,4)] by auto
next
  fix t' assume a: "doInsert P t (k, v) = Some (Throw OverflowError, t')" "abs_map P t k = None"
    "table_inv P t'" "nodes t' \<subseteq># nodes t" "exhausted t'"
  then show ?thesis using abs_map_mono [OF assms a(3,4)] by auto
qed auto

theorem doInsert_refines_witness:
  "\<exists>r t'. doInsert demo_params demo_table (4, 40) = Some (r, t') \<and>
    (case r of
       Ret (i, new) \<Rightarrow> table_inv demo_params t' \<and> new = (abs_map demo_params demo_table 4 = None) \<and>
         holds demo_params t' 4 i \<and> abs_map demo_params t' =
           (\<lambda>x. if new \<and> p_key_eq demo_params x 4 then Some 40 else abs_map demo_params demo_table x)
     | Throw e \<Rightarrow> abs_map demo_params demo_table 4 = None \<and>
         (e = OverflowError \<and> exhausted t' \<and> table_inv demo_params t' \<and>
            abs_map demo_params t' \<subseteq>\<^sub>m abs_map demo_params demo_table \<or>
          e = BadAlloc \<and> refused demo_params demo_table t'))"
  by (rule doInsert_refines [OF demo_params_ok demo_inv])

text \<open>
  C2: \<^verbatim>\<open>erase(key)\<close> returns 1 and removes exactly the entry of the key when there is one, and returns 0
  and changes nothing in the map otherwise; the invariant holds afterwards.
\<close>

theorem erase_key_refines:
  assumes "params_ok P" "table_inv P t"
  shows "\<exists>n t'. erase_key P t k = Some (n, t') \<and> table_inv P t' \<and>
     n = (if abs_map P t k = None then 0 else 1) \<and>
     (\<forall>x. abs_map P t' x = (if p_key_eq P x k then None else abs_map P t x))"
  by (rule erase_key_map [OF assms])

theorem erase_key_refines_witness:
  "\<exists>n t'. erase_key demo_params demo_table 3 = Some (n, t') \<and> table_inv demo_params t' \<and>
     n = (if abs_map demo_params demo_table 3 = None then 0 else 1) \<and>
     (\<forall>x. abs_map demo_params t' x =
        (if p_key_eq demo_params x 3 then None else abs_map demo_params demo_table x))"
  by (rule erase_key_refines [OF demo_params_ok demo_inv])

text \<open>
  C3: Lookup agrees with the map: \<^verbatim>\<open>contains\<close> and \<^verbatim>\<open>count\<close> say whether the key has an entry, \<^verbatim>\<open>at\<close> returns
  its value and throws \<^verbatim>\<open>out_of_range\<close> when there is none, \<^verbatim>\<open>find\<close> returns the position of the entry or
  \<^verbatim>\<open>end()\<close>. None of them reads outside the arrays.
\<close>

theorem lookup_refines:
  assumes "params_ok P" "table_inv P t"
  shows "contains P t k = Some (abs_map P t k \<noteq> None) \<and>
     count_key P t k = Some (if abs_map P t k = None then 0 else 1) \<and>
     at_key P t k = Some (case abs_map P t k of None \<Rightarrow> Throw OutOfRange | Some v \<Rightarrow> Ret v) \<and>
     (\<exists>i. find_key P t k = Some i \<and> (if abs_map P t k = None then i = end_idx t else holds P t k i))"
  by (rule findIdx_cases [OF assms, of k])
     (auto simp: contains_def count_key_def at_key_def find_key_def end_idx_def)

theorem lookup_refines_witness:
  "contains demo_params demo_table 11 = Some (abs_map demo_params demo_table 11 \<noteq> None) \<and>
   count_key demo_params demo_table 11 = Some (if abs_map demo_params demo_table 11 = None then 0 else 1) \<and>
   at_key demo_params demo_table 11 =
     Some (case abs_map demo_params demo_table 11 of None \<Rightarrow> Throw OutOfRange | Some v \<Rightarrow> Ret v) \<and>
   (\<exists>i. find_key demo_params demo_table 11 = Some i \<and>
      (if abs_map demo_params demo_table 11 = None then i = end_idx demo_table
       else holds demo_params demo_table 11 i))"
  by (rule lookup_refines [OF demo_params_ok demo_inv])

text \<open>
  Erasing the key that was just inserted gives back the map from before the insertion.
\<close>

theorem erase_undoes_insert:
  assumes "params_ok P" "table_inv P t" "doInsert P t (k, v) = Some (Ret (i, True), t')"
  shows "\<exists>u. erase_key P t' k = Some (1, u) \<and> table_inv P u \<and> abs_map P u = abs_map P t"
  by (rule ht.del_undoes_ins [OF assms])

theorem erase_undoes_insert_witness:
  "\<exists>t'. doInsert demo_params empty_table (3, 30) = Some (Ret (3, True), t') \<and>
     (\<exists>u. erase_key demo_params t' 3 = Some (1, u) \<and> table_inv demo_params u \<and>
          abs_map demo_params u = abs_map demo_params (empty_table :: (nat, nat) table))"
proof -
  have "case doInsert demo_params empty_table (3, 30 :: nat) of
      Some (Ret (i, b), t') \<Rightarrow> i = 3 \<and> b | _ \<Rightarrow> False"
    by code_simp
  then obtain t' where "doInsert demo_params empty_table (3, 30 :: nat) = Some (Ret (3, True), t')"
    by (auto split: option.splits outcome.splits)
  with erase_undoes_insert [OF demo_params_ok inv_empty_table this] show ?thesis by blast
qed

text \<open>
  Inserting a range of entries that throws nothing leaves, for every key, the entry the table
  already had, or else the first one of the range.
\<close>

theorem insert_range_refines:
  assumes "params_ok P" "table_inv P t" "insert_range P t kvs = Some (Ret (), t')"
  shows "table_inv P t' \<and> abs_map P t' x =
    (case abs_map P t x of Some v \<Rightarrow> Some v
     | None \<Rightarrow> map_option snd (find (\<lambda>e. p_key_eq P x (fst e)) kvs))"
  by (rule ht.range_ret [OF assms])

theorem insert_range_refines_witness:
  "table_inv demo_params demo_table \<and> abs_map demo_params demo_table 11 =
    (case abs_map demo_params empty_table 11 of Some v \<Rightarrow> Some v
     | None \<Rightarrow> map_option snd (find (\<lambda>e. p_key_eq demo_params 11 (fst e)) [(3, 30), (11, 110)]))"
  by (rule insert_range_refines [OF demo_params_ok inv_empty_table demo_build])

text \<open>
  C4: Iteration from \<^verbatim>\<open>begin()\<close> to \<^verbatim>\<open>end()\<close> (with \<^verbatim>\<open>fastForward\<close> skipping eight info bytes at a time)
  ends, visits \<^verbatim>\<open>size()\<close> entries with pairwise different keys, and exactly the entries of the map.
\<close>

theorem entries_refines:
  assumes "params_ok P" "table_inv P t"
  shows "\<exists>es. entries t = Some es \<and> length es = mNumElements t \<and> keys_differ P es \<and>
     (\<forall>k v. abs_map P t k = Some v \<longleftrightarrow> (\<exists>k'. (k', v) \<in> set es \<and> p_key_eq P k k'))"
proof -
  have "length (live (mKeyVals t)) = mNumElements t"
    using assms(2) sizedD(5) [of P t] dummyD(2,4) [of t] by (auto simp: table_inv_def)
  then show ?thesis
    using entries_inv [OF assms(2)] inv_keys_differ [OF assms(2)] abs_map_Some_iff [OF assms] by simp
qed

theorem entries_refines_witness:
  "\<exists>es. entries demo_table = Some es \<and> length es = mNumElements demo_table \<and> keys_differ demo_params es \<and>
     (\<forall>k v. abs_map demo_params demo_table k = Some v \<longleftrightarrow>
        (\<exists>k'. (k', v) \<in> set es \<and> p_key_eq demo_params k k'))"
  by (rule entries_refines [OF demo_params_ok demo_inv])

lemma fastForward_cong: "infos t = infos u \<Longrightarrow> fastForward t pos = fastForward u pos"
proof (induction t pos rule: fastForward.induct)
  case (1 t pos)
  then show ?case
    by (subst fastForward.simps [of t], subst fastForward.simps [of u]) (simp split: option.split)
qed

lemma live_drop_del_list:
  assumes "i \<le> z" "z < length cs"
  shows "live (drop i (del_list i z Raw cs)) = live (drop (Suc i) cs)"
proof -
  have "drop (Suc i) cs = take (z - i) (drop (Suc i) cs) @ drop (Suc z) cs"
    using assms by (metis append_take_drop_id drop_drop le_add_diff_inverse2 add_Suc_right)
  then have "live (drop (Suc i) cs) = live (take (z - i) (drop (Suc i) cs)) @ live (drop (Suc z) cs)"
    by (metis live_append)
  then show ?thesis using assms by (simp add: del_list_def)
qed

text \<open>
  \<^verbatim>\<open>erase(iterator)\<close> removes exactly the entry at the position and returns a position from which
  iteration visits exactly the entries that followed it, so erasing while iterating neither skips
  nor repeats an entry.
\<close>

theorem erase_at_refines:
  assumes "params_ok P" "table_inv P t" "i < end_idx t" "read_at (mKeyVals t) i = Some kv"
  shows "\<exists>j t'. erase_at t i = Some (j, t') \<and> table_inv P t' \<and> nodes t = add_mset kv (nodes t') \<and>
     iterate (Suc (end_idx t')) t' j = Some (live (drop (Suc i) (mKeyVals t)))"
proof -
  have i: "i < numNodes t" "mKeyVals t ! i = Live kv" using assms(3,4) by (auto simp: mem_simps)
  then have s: "sized P t" using assms(2) dummyD(2) [of t] by (auto simp: table_inv_def)
  obtain t1 z where t1: "shiftDown t i = Some t1"
    "sized P (t1\<lparr>mNumElements := size_wrap (mNumElements t1 + (2 ^ 64 - 1))\<rparr>)"
    "nodes t = add_mset kv (nodes t1)" "numNodes t1 = numNodes t" "i \<le> z" "z < numNodes t"
    "mKeyVals t1 = del_list i z Raw (mKeyVals t)"
    using shiftDown_sized [OF assms(1) s i] by blast
  let ?t = "t1\<lparr>mNumElements := size_wrap (mNumElements t1 + (2 ^ 64 - 1))\<rparr>"
  have inf: "infos t1 = infos ?t" by (simp add: infos_def split: option.split)
  have ff: "fastForward t1 q = fastForward ?t q" for q by (rule fastForward_cong [OF inf])
  have rd: "rd (infos t1) i = Some (infos ?t ! i)"
    using tblD(1) [OF sizedD(1) [OF t1(2)]] i(1) t1(4) inf by simp
  have lv: "live (drop i (mKeyVals ?t)) = live (drop (Suc i) (mKeyVals t))"
    using t1(5-7) by (simp add: live_drop_del_list)
  obtain j where j: "erase_at t i = Some (j, ?t)" "j \<le> numNodes ?t" "infos ?t ! j \<noteq> 0"
    "live (drop j (mKeyVals ?t)) = live (drop i (mKeyVals ?t))"
  proof (cases "infos ?t ! i = 0")
    case False
    then show thesis using that [of i] t1(1,4) rd i(1) by (simp add: erase_at_def)
  next
    case True
    have "Suc i \<le> numNodes ?t" using i(1) t1(4) by simp
    from sized_fastForward [OF t1(2) this] obtain q where q: "fastForward ?t (Suc i) = Some q"
      "q \<le> numNodes ?t" "infos ?t ! q \<noteq> 0" "live (drop q (mKeyVals ?t)) = live (drop (Suc i) (mKeyVals ?t))"
      by blast
    moreover have "mKeyVals ?t ! i = Raw"
      using core_free [OF tbl_core_core [OF sizedD(1) [OF t1(2)]], of i] True i(1) t1(4) by simp
    then have "live (drop (Suc i) (mKeyVals ?t)) = live (drop i (mKeyVals ?t))"
      using i(1) t1(4) by (simp flip: Cons_nth_drop_Suc)
    ultimately show thesis
      using that [of q] t1(1) rd True ff by (simp add: erase_at_def next_idx_def)
  qed
  have "iterate (Suc (end_idx ?t)) ?t j = Some (live (drop j (mKeyVals ?t)))"
    using j(2) by (intro iterate_spec [OF t1(2) j(2,3)]) (simp add: end_idx_def)
  then show ?thesis
    using j(1,4) lv t1(2,3) by (intro exI [of _ j] exI [of _ ?t]) (simp add: table_inv_def)
qed

theorem erase_at_refines_witness:
  "\<exists>j t'. erase_at demo_table 3 = Some (j, t') \<and> table_inv demo_params t' \<and>
     nodes demo_table = add_mset (3, 30) (nodes t') \<and>
     iterate (Suc (end_idx t')) t' j = Some (live (drop (Suc 3) (mKeyVals demo_table)))"
  by (rule erase_at_refines [OF demo_params_ok demo_inv]) (simp_all add: demo_table_def end_idx_def)

lemma live_update:
  assumes "i < length cs" "cs ! i = Live a"
  shows "\<exists>M. mset (live cs) = add_mset a M \<and> mset (live (cs[i := Live b])) = add_mset b M"
    and "length (live (cs[i := Live b])) = length (live cs)"
proof -
  have c: "cs = take i cs @ Live a # drop (Suc i) cs" using id_take_nth_drop [OF assms(1)] assms(2) by simp
  have "live cs = live (take i cs @ Live a # drop (Suc i) cs)" using c by simp
  then have l: "live cs = live (take i cs) @ a # live (drop (Suc i) cs)" by simp
  have u: "live (cs[i := Live b]) = live (take i cs) @ b # live (drop (Suc i) cs)"
    using assms(1) by (simp add: upd_conv_take_nth_drop)
  show "\<exists>M. mset (live cs) = add_mset a M \<and> mset (live (cs[i := Live b])) = add_mset b M"
    using l u by simp
  show "length (live (cs[i := Live b])) = length (live cs)" using l u by simp
qed

lemma assign_inv:
  assumes t: "table_inv P t" and i: "i < numNodes t" "mKeyVals t ! i = Live (k', v')"
  shows "table_inv P (t\<lparr>mKeyVals := (mKeyVals t)[i := Live (k', v)]\<rparr>)"
proof -
  have s: "sized P t" using t i(1) dummyD(2) [of t] by (auto simp: table_inv_def)
  let ?cs = "(mKeyVals t)[i := Live (k', v)]"
  note c = tbl_core_core [OF sizedD(1) [OF s]]
  have key: "\<exists>w. mKeyVals t ! j = Live (fst kv, w)" if "?cs ! j = Live kv" "j < numNodes t" for j kv
    using that i by (cases "j = i"; cases kv) auto
  have "core P (mMask t) (mInfoHashShift t) (numNodes t) (infos t) ?cs"
    unfolding core_def
  proof (intro conjI)
    show "\<forall>j<numNodes t. node_ok P (mMask t) (mInfoHashShift t) j (infos t ! j) (?cs ! j)"
      using coreD(7) [OF c] coreD(7) [OF c i(1)] i by (auto simp: node_ok_def nth_list_update)
    show "\<forall>j<numNodes t. \<forall>l<numNodes t. \<forall>a b. ?cs ! j = Live a \<and> ?cs ! l = Live b \<and>
        p_key_eq P (fst a) (fst b) \<longrightarrow> j = l"
      using key coreD(9) [OF c] by (metis fst_conv)
  qed (use coreD(1-6,8) [OF c] in auto)
  moreover have inf: "infos (t\<lparr>mKeyVals := ?cs\<rparr>) = infos t" by (simp add: infos_def split: option.split)
  ultimately have "tbl_core P (t\<lparr>mKeyVals := ?cs\<rparr>)" using sizedD(1) [OF s] by (simp add: tbl_core_def)
  then show ?thesis
    using sizedD(2-7) [OF s] live_update(2) [OF i] inf by (simp add: table_inv_def sized_def room_def)
qed

lemma assign_map:
  assumes p: "params_ok P" and t: "table_inv P t" and i: "i < numNodes t" "mKeyVals t ! i = Live (k', v')"
  shows "abs_map P (t\<lparr>mKeyVals := (mKeyVals t)[i := Live (k', v)]\<rparr>) x =
     (if p_key_eq P x k' then Some v else abs_map P t x)"
proof -
  let ?u = "t\<lparr>mKeyVals := (mKeyVals t)[i := Live (k', v)]\<rparr>"
  note u = assign_inv [OF t i, of v]
  obtain M where M: "nodes t = add_mset (k', v') M" "nodes ?u = add_mset (k', v) M"
    using live_update(1) [OF i, of "(k', v)"] by auto
  show ?thesis
  proof (cases "p_key_eq P x k'")
    case True
    moreover have "(k', v) \<in># nodes ?u" unfolding M(2) by simp
    ultimately show ?thesis using abs_map_Some_iff [OF p u, of x v] by auto
  next
    case False
    then have "abs_map P ?u x = Some w \<longleftrightarrow> abs_map P t x = Some w" for w
      using abs_map_Some_iff [OF p u, of x w] abs_map_Some_iff [OF p t, of x w]
      unfolding M by auto
    then show ?thesis using False by (metis not_None_eq)
  qed
qed

text \<open>
  \<^verbatim>\<open>insert_or_assign\<close> makes the key map to the given value whether or not it was present, and
  changes nothing else; \<^verbatim>\<open>try_emplace\<close> leaves the table unchanged when the key is present.
\<close>

theorem insert_or_assign_refines:
  assumes "params_ok P" "table_inv P t"
  shows "\<exists>r t'. insert_or_assign P t k v = Some (r, t') \<and>
    (case r of
       Ret (i, new) \<Rightarrow> table_inv P t' \<and> new = (abs_map P t k = None) \<and>
         abs_map P t' = (\<lambda>x. if p_key_eq P x k then Some v else abs_map P t x)
     | Throw e \<Rightarrow> abs_map P t k = None) \<and>
    (abs_map P t k \<noteq> None \<longrightarrow> (\<exists>i. try_emplace P t k v = Some (Ret (i, False), t)))"
proof (rule findIdx_cases [OF assms, of k])
  fix i k' v' assume f: "findIdx P t k = Some i" "i < end_idx t" "holds P t k i"
    "mKeyVals t ! i = Live (k', v')" "p_key_eq P k k'" "abs_map P t k = Some v'"
  then have i: "i < numNodes t" by (simp add: end_idx_def)
  have "p_key_eq P x k' = p_key_eq P x k" for x using f(5) params_ok_eqD [OF assms(1)] by blast
  then show ?thesis
    using f i assign_map [OF assms i f(4), of v] assign_inv [OF assms(2) i f(4), of v]
    by (auto simp: insert_or_assign_def try_emplace_def find_key_def)
next
  assume f: "findIdx P t k = Some (end_idx t)" "abs_map P t k = None"
  then have eq: "insert_or_assign P t k v = doInsert P t (k, v)"
    by (simp add: insert_or_assign_def find_key_def emplace_def)
  obtain r t' where r: "doInsert P t (k, v) = Some (r, t')" using ht.ins_returns [OF assms] by blast
  then show ?thesis
  proof (cases r)
    case (Ret x)
    obtain i new where x: "x = (i, new)" by force
    then show ?thesis using ht.ins_ret [OF assms, of k v i new t'] r Ret eq f(2) by auto
  qed (use eq f(2) r in auto)
qed

theorem insert_or_assign_refines_witness:
  "\<exists>r t'. insert_or_assign demo_params demo_table 11 7 = Some (r, t') \<and>
    (case r of
       Ret (i, new) \<Rightarrow> table_inv demo_params t' \<and> new = (abs_map demo_params demo_table 11 = None) \<and>
         abs_map demo_params t' =
           (\<lambda>x. if p_key_eq demo_params x 11 then Some 7 else abs_map demo_params demo_table x)
     | Throw e \<Rightarrow> abs_map demo_params demo_table 11 = None) \<and>
    (abs_map demo_params demo_table 11 \<noteq> None \<longrightarrow>
      (\<exists>i. try_emplace demo_params demo_table 11 7 = Some (Ret (i, False), demo_table)))"
  by (rule insert_or_assign_refines [OF demo_params_ok demo_inv])

text \<open>
  \<^verbatim>\<open>rehash(c)\<close> and \<^verbatim>\<open>reserve(c)\<close>, for counts up to \<open>2 ^ 44\<close>, always return; when they return normally
  the map is unchanged and the load limit of the table is at least \<open>c\<close>. They throw only
  \<open>OverflowError\<close>, with a valid table that holds no entry it did not hold before and whose info
  bytes are exhausted, or \<open>BadAlloc\<close> when the allocator refused the new block.
\<close>

theorem reserve_refines:
  assumes "params_ok P" "table_inv P t" "c \<le> 2 ^ 44"
  shows "\<exists>r t'. reserve_impl P t c force = Some (r, t') \<and>
    (case r of
       Ret _ \<Rightarrow> table_inv P t' \<and> abs_map P t' = abs_map P t \<and>
         c \<le> calcMaxNumElementsAllowed P (Suc (mMask t'))
     | Throw e \<Rightarrow> e = OverflowError \<and> exhausted t' \<and> table_inv P t' \<and> abs_map P t' \<subseteq>\<^sub>m abs_map P t \<or>
         e = BadAlloc \<and> refused P t t')"
proof -
  obtain b where b: "max c (mNumElements t) \<le> calcMaxNumElementsAllowed P (2 ^ b)"
    "reserve_impl P t c force =
       (if force \<or> Suc (mMask t) < 2 ^ b then rehashPowerOfTwo P t (2 ^ b) else Some (Ret (), t))"
    "rehash_result P t (2 ^ b) (rehashPowerOfTwo P t (2 ^ b))"
    using reserve_impl_result [OF assms, of force] by blast
  show ?thesis
  proof (cases "force \<or> Suc (mMask t) < 2 ^ b")
    case True
    from b(3) obtain r t' where r: "rehashPowerOfTwo P t (2 ^ b) = Some (r, t')"
      "r = Ret () \<and> sized P t' \<and> nodes t' = nodes t \<and> Suc (mMask t') = 2 ^ b \<or>
        r = Throw OverflowError \<and> sized P t' \<and> nodes t' \<subseteq># nodes t \<and> exhausted t' \<or>
        r = Throw BadAlloc \<and> refused P t t'"
      unfolding rehash_result_def by blast
    have inv: "sized P t' \<Longrightarrow> table_inv P t'" by (simp add: table_inv_def)
    from r(2) show ?thesis
      using r(1) True b(1,2) inv
      by (elim disjE conjE) (simp_all add: abs_map_cong_nodes [OF assms(1,2)] abs_map_mono [OF assms(1,2)])
  next
    case False
    then have "2 ^ b \<le> Suc (mMask t)" "Suc (mMask t) < 2 ^ 56"
      using assms(2) sized_mask(1) [OF assms(1), of t] dummyD(1) [of t] by (auto simp: table_inv_def)
    then have "c \<le> calcMaxNumElementsAllowed P (Suc (mMask t))"
      using b(1) calcMax_mono [OF assms(1)] by (meson max.boundedE order_trans)
    then show ?thesis using b(2) False assms(2) by auto
  qed
qed

theorem reserve_refines_witness:
  "\<exists>r t'. reserve_impl demo_params demo_table 100 False = Some (r, t') \<and>
    (case r of
       Ret _ \<Rightarrow> table_inv demo_params t' \<and> abs_map demo_params t' = abs_map demo_params demo_table \<and>
         100 \<le> calcMaxNumElementsAllowed demo_params (Suc (mMask t'))
     | Throw e \<Rightarrow> e = OverflowError \<and> exhausted t' \<and> table_inv demo_params t' \<and>
           abs_map demo_params t' \<subseteq>\<^sub>m abs_map demo_params demo_table \<or>
         e = BadAlloc \<and> refused demo_params demo_table t')"
  by (rule reserve_refines [OF demo_params_ok demo_inv]) simp

text \<open>
  Copy construction and copy assignment give a valid table with the same map as the source,
  whatever the uninitialised block contained, or throw \<open>BadAlloc\<close> when the allocator refused a
  block of the size of the source's.
\<close>

theorem copy_refines:
  assumes "params_ok P" "table_inv P t" "table_inv P src"
    and "res = copy_construct P junk src \<or> res = copy_assign P junk t src"
  shows "\<exists>r t'. res = Some (r, t') \<and>
    (case r of Ret _ \<Rightarrow> table_inv P t' \<and> abs_map P t' = abs_map P src
     | Throw e \<Rightarrow> e = BadAlloc \<and> refused_copy P src t')"
proof -
  have "copy_result P src res"
    using assms copy_construct_result [OF assms(1,3)] copy_assign_result [OF assms(1-3)] by auto
  then obtain r t' where "res = Some (r, t')"
    "r = Ret () \<and> table_inv P t' \<and> nodes t' = nodes src \<or> r = Throw BadAlloc \<and> refused_copy P src t'"
    unfolding copy_result_def by blast
  then show ?thesis
    by (elim disjE conjE) (simp_all add: abs_map_cong_nodes [OF assms(1,3)])
qed

theorem copy_refines_witness:
  "\<exists>r t'. copy_assign demo_params [] empty_table demo_table = Some (r, t') \<and>
    (case r of Ret _ \<Rightarrow> table_inv demo_params t' \<and> abs_map demo_params t' = abs_map demo_params demo_table
     | Throw e \<Rightarrow> e = BadAlloc \<and> refused_copy demo_params demo_table t')"
  by (rule copy_refines [OF demo_params_ok inv_empty_table demo_inv disjI2 [OF refl]])

text \<open>
  Move assignment hands the map over: the target has the map of the source, the source is left
  empty and valid; \<^verbatim>\<open>clear\<close> leaves a valid empty table.
\<close>

theorem move_and_clear_refine:
  assumes "params_ok P" "table_inv P t" "table_inv P src"
  shows "(\<exists>t' src'. move_assign P t src = Some (t', src') \<and> table_inv P t' \<and> table_inv P src' \<and>
       abs_map P t' = abs_map P src \<and> abs_map P src' = Map.empty) \<and>
     (\<exists>t'. clear P t = Some t' \<and> table_inv P t' \<and> abs_map P t' = Map.empty)"
proof -
  have none: "abs_map P u = Map.empty" if "nodes u = {#}" for u :: "('a, 'b) table"
    using that by (auto simp: abs_map_def)
  show ?thesis
    using move_assign_inv [OF assms] clear_inv [OF assms(1,2)] none abs_map_cong_nodes [OF assms(1,3)]
    by blast
qed

theorem move_and_clear_refine_witness:
  "(\<exists>t' src'. move_assign demo_params demo_table demo_table = Some (t', src') \<and>
       table_inv demo_params t' \<and> table_inv demo_params src' \<and>
       abs_map demo_params t' = abs_map demo_params demo_table \<and> abs_map demo_params src' = Map.empty) \<and>
     (\<exists>t'. clear demo_params demo_table = Some t' \<and> table_inv demo_params t' \<and>
       abs_map demo_params t' = Map.empty)"
  by (rule move_and_clear_refine [OF demo_params_ok demo_inv demo_inv])

text \<open>
  \<^verbatim>\<open>operator==\<close>, which compares the sizes and then looks up every entry of one table in the other,
  decides whether the two tables are the same map.
\<close>

theorem table_eq_refines:
  assumes "params_ok P" "table_inv P t" "table_inv P u"
  shows "table_eq P (=) t u = Some (abs_map P t = abs_map P u)"
proof -
  have num: "mNumElements x = size (nodes x)" if "table_inv P x" for x :: "('a, 'b) table"
    using that sizedD(5) [of P x] dummyD(2,4) [of x] by (auto simp: table_inv_def)
  have sub: "(\<forall>e\<in>set (live (mKeyVals u)). case abs_map P t (fst e) of None \<Rightarrow> False | Some v \<Rightarrow> v = snd e)
      \<longleftrightarrow> (\<forall>k v. (k, v) \<in># nodes u \<longrightarrow> abs_map P t k = Some v)"
    by (fastforce split: option.splits)
  have self: "abs_map P x k = Some v" if "(k, v) \<in># nodes x" "table_inv P x" for x :: "('a, 'b) table" and k v
    using abs_map_Some_iff [OF assms(1) that(2)] that(1) params_ok_eqD(1) [OF assms(1)] by blast
  have eq: "table_eq P (=) t u = Some (size (nodes u) = size (nodes t) \<and>
      (\<forall>k v. (k, v) \<in># nodes u \<longrightarrow> abs_map P t k = Some v))"
    using has_all_eq [OF assms(1,2)] entries_inv [OF assms(3)] num [OF assms(2)] num [OF assms(3)] sub
    by (simp add: table_eq_def)
  have "size (nodes u) = size (nodes t)" if e: "abs_map P t = abs_map P u"
    using included_size [OF assms] included_size [OF assms(1,3,2)] self assms(2,3) e
    by (metis le_antisym)
  then show ?thesis unfolding eq using equal_if_included [OF assms] self [OF _ assms(3)] by auto
qed

theorem table_eq_refines_witness:
  "table_eq demo_params (=) demo_table empty_table =
     Some (abs_map demo_params demo_table = abs_map demo_params empty_table)"
  by (rule table_eq_refines [OF demo_params_ok demo_inv inv_empty_table])

section \<open>A refused allocation\<close>

text \<open>What \<^verbatim>\<open>init_data\<close> leaves of an empty table when the first request is refused.\<close>

definition half_built :: "'k table_params \<Rightarrow> ('k, 'v) table" where
  "half_built P = empty_table\<lparr>mMask := 7, mMaxNumElementsAllowed := calcMaxNumElementsAllowed P 8, allocs := 1\<rparr>"

lemma half_built_simps:
  "mMask (half_built P) = 7" "mKeyVals (half_built P) = []" "mInfo (half_built P) = None"
  "mNumElements (half_built P) = 0" "mMaxNumElementsAllowed (half_built P) = calcMaxNumElementsAllowed P 8"
  "mInfoInc (half_built P) = 32" "mInfoHashShift (half_built P) = 0"
  by (simp_all add: half_built_def empty_table_def InitialInfoInc_def InitialInfoHashShift_def)

lemma half_built_infos: "infos (half_built P) = [7, 0, 0, 0, 0, 0, 0, 0]"
proof -
  have "bytes64 7 = [7, 0, 0, 0, 0, 0, 0, 0]" by code_simp
  then show ?thesis by (simp add: infos_def half_built_simps)
qed

lemma half_built_broken: "\<not> table_inv P (half_built P)"
  by (simp add: table_inv_def dummy_def sized_def tbl_core_def half_built_simps)

text \<open>The probe of an insertion reads one byte of \<^verbatim>\<open>mMask\<close> and stops at the home position.\<close>

lemma half_built_probe:
  fixes t :: "('k, 'v) table"
  assumes t: "t = half_built P"
  shows "\<exists>i<8. \<exists>info. probe_insert P t k = Some (Inr (i, info))"
proof -
  have "unat (drop_bit 0 (mixed_hash P k AND InfoMask)) < 32"
    using hbits_less [of 0 P k] by (simp add: hbits_def inc_of_def)
  moreover have "unat (x AND 7 :: 64 word) < 8" for x
    using word_and_le1 [of x 7] by (simp add: word_le_nat_alt)
  ultimately obtain i info where i: "keyToIdx P t k = (i, info)" "i < 8" "32 \<le> info"
    by (simp add: keyToIdx_def Let_def half_built_simps t)
  then obtain b where b: "rd (infos t) i = Some b" "b < 32"
    by (auto simp: half_built_infos t rd_def less_Suc_eq numeral_eq_Suc)
  have "probe_insert P t k = Some (Inr (i, info))"
    using i b by (simp add: probe_insert_def nextWhileLess.simps [of t i info]
        match_loop.simps [of P t k i info])
  with i(2) show ?thesis by blast
qed

text \<open>There is no node array to construct the node in.\<close>

lemma half_built_place: "place_node (half_built P) i info kv = None"
proof -
  have "construct_at [] j kv = None" "assign_at [] j kv = None" for j
    by (simp_all add: construct_at_def assign_at_def rd_def)
  moreover have "shiftUp t idx i = None" if "mKeyVals t = []" for t :: "('a, 'b) table" and idx
    using that by (simp add: shiftUp_def move_at_def rd_def)
  ultimately show ?thesis
    by (auto simp: place_node_def Let_def half_built_simps split: bind_splits)
qed

text \<open>
  C36: The table is not safe against a failed allocation. \<^verbatim>\<open>init_data\<close> stores the new mask and counters
  before it asks for memory. When the allocator refuses the first request, the first insertion into
  an empty table, of any key, throws \<open>BadAlloc\<close> and leaves the mask of a table of 8 buckets and its
  load limit beside pointers that still point at the member \<^verbatim>\<open>mMask\<close>: no node array, and the
  invariant is lost. Every later insertion then takes one of these buckets as a free place within the
  load limit, asks for no memory and is undefined, whatever the key: the node is constructed
  where the table owns no memory. The load limit of 8 buckets is positive for every \<^verbatim>\<open>MaxLoadFactor100\<close>
  from 13.
\<close>

theorem failed_allocation_corrupts:
  assumes "params_ok P" "0 < calcMaxNumElementsAllowed P 8"
    and "\<not> p_alloc P 0 (calcNumBytesTotal P (calcNumElementsWithBuffer P 8))"
  shows "\<exists>t'. doInsert P empty_table (k, v) = Some (Throw BadAlloc, t') \<and> mMask t' = 7 \<and>
     mKeyVals t' = [] \<and> mInfo t' = None \<and> \<not> table_inv P t' \<and>
     (\<forall>k' v'. doInsert P t' (k', v') = None \<and>
        (\<exists>i info. i < 8 \<and> probe_insert P t' k' = Some (Inr (i, info)) \<and>
           mNumElements t' < mMaxNumElementsAllowed t' \<and> place_node t' i info (k', v') = None))"
proof -
  let ?t = "half_built P :: ('a, 'b) table"
  obtain n where rounds: "max_rounds = Suc n" by (cases max_rounds) (simp_all add: max_rounds_def)
  have d: "dummy (empty_table :: ('a, 'b) table)" by simp
  obtain info where "probe_insert P (empty_table :: ('a, 'b) table) k = Some (Inr (0, info))"
    using dummy_probe [OF d] by blast
  moreover have "init_data P (empty_table :: ('a, 'b) table) 8 = Some (Throw BadAlloc, half_built P)"
    using assms(3) by (simp add: init_data_def Let_def half_built_def empty_table_def)
  ultimately have "doInsert P empty_table (k, v) = Some (Throw BadAlloc, half_built P)"
    using dummyD [OF d] by (simp add: doInsert_def rounds increase_size_def InitialNumElements_def)
  moreover have "doInsert P ?t (k', v') = None \<and>
      (\<exists>i info. i < 8 \<and> probe_insert P ?t k' = Some (Inr (i, info)) \<and>
         mNumElements ?t < mMaxNumElementsAllowed ?t \<and> place_node ?t i info (k', v') = None)" for k' v'
    using half_built_probe [of ?t P k'] assms(2)
    by (auto simp: doInsert_def rounds half_built_simps half_built_place)
  ultimately show ?thesis
    by (intro exI [of _ ?t]) (simp add: half_built_simps half_built_broken)
qed

theorem failed_allocation_corrupts_witness:
  "\<exists>t'. doInsert (demo_params\<lparr>p_alloc := \<lambda>n b. False\<rparr>) empty_table (3, 30 :: nat) =
       Some (Throw BadAlloc, t') \<and> mMask t' = 7 \<and> mKeyVals t' = [] \<and> mInfo t' = None \<and>
     \<not> table_inv (demo_params\<lparr>p_alloc := \<lambda>n b. False\<rparr>) t' \<and>
     (\<forall>k' v'. doInsert (demo_params\<lparr>p_alloc := \<lambda>n b. False\<rparr>) t' (k', v') = None \<and>
        (\<exists>i info. i < 8 \<and> probe_insert (demo_params\<lparr>p_alloc := \<lambda>n b. False\<rparr>) t' k' = Some (Inr (i, info)) \<and>
           mNumElements t' < mMaxNumElementsAllowed t' \<and> place_node t' i info (k', v') = None))"
proof (rule failed_allocation_corrupts)
  show "params_ok (demo_params\<lparr>p_alloc := \<lambda>n b. False\<rparr>)"
    by (simp add: params_ok_def demo_params_def identity_equivp)
qed code_simp+

end
