(* ===== verification/Shared_Ptr.thy ===== *)
theory Shared_Ptr
  imports Ktl_Prelude
begin

text \<open>
  \<^verbatim>\<open>include/smart_pointer.hpp\<close>: \<^verbatim>\<open>shared_ptr\<close> and \<^verbatim>\<open>weak_ptr\<close> with their control blocks.

  \<^item> Objects and control blocks live at addresses of a \<open>heap\<close>. An object is \<open>Alive\<close>, or \<open>Dead\<close> when
    its destructor has run and its storage is still there; an address without an entry is free.
  \<^item> A control block (\<^verbatim>\<open>ref_counter_base\<close> and its two subclasses) has two 32-bit counters, the address of
    its object and the two policies it was instantiated with.
  \<^item> A pointer object (\<^verbatim>\<open>refcounted_ptr_base\<close>) is a record of the value pointer and the pointer to the
    control block. Its operations take the concrete \<^verbatim>\<open>incref\<close> and \<^verbatim>\<open>decref\<close> as arguments, as the class takes
    them from the derived class.
  \<^item> Touching a freed control block, destroying an object that is not alive and freeing storage twice
    are undefined behaviour, \<open>None\<close>.
  \<^item> Destructors of objects do not themselves touch smart pointers, and deleters free the object.
\<close>

section \<open>Control blocks\<close>

type_synonym addr = nat

datatype life = Alive | Dead

datatype destroy_policy = DestroyObjectWithDeleter | DestroyObjectInPlace | DestroyObjectWithAllocator

datatype delete_policy =
  DeleteItself | DeallocateItself | DestroyItselfAndDeleteAll | DestroyItselfAndDeallocateAll

record ref_counter =
  m_strong_counter :: nat
  m_weak_counter :: nat
  rc_ptr :: addr
  DestroyObjectPolicy :: destroy_policy
  DeleteItselfPolicy :: delete_policy

record heap =
  objs :: "addr \<Rightarrow> life option"
  counters :: "addr \<Rightarrow> ref_counter option"
  next_addr :: addr

definition inc32 :: "nat \<Rightarrow> nat" where "inc32 n = (n + 1) mod 2 ^ 32"
definition dec32 :: "nat \<Rightarrow> nat" where "dec32 n = (n + (2 ^ 32 - 1)) mod 2 ^ 32"

definition put_rc :: "addr \<Rightarrow> ref_counter \<Rightarrow> heap \<Rightarrow> heap" where
  "put_rc rc b h = h\<lparr>counters := (counters h)(rc := Some b)\<rparr>"

text \<open>The policies. A deleter and \<^verbatim>\<open>delete\<close> end the object and free its storage; destruction in place
  and through the allocator keep the storage, which belongs to the joint allocation.\<close>

definition apply_destroy :: "destroy_policy \<Rightarrow> addr \<Rightarrow> heap \<Rightarrow> heap option" where
  "apply_destroy pol target h =
     (if objs h target \<noteq> Some Alive then None
      else case pol of
        DestroyObjectWithDeleter \<Rightarrow> Some (h\<lparr>objs := (objs h)(target := None)\<rparr>)
      | DestroyObjectInPlace \<Rightarrow> Some (h\<lparr>objs := (objs h)(target := Some Dead)\<rparr>)
      | DestroyObjectWithAllocator \<Rightarrow> Some (h\<lparr>objs := (objs h)(target := Some Dead)\<rparr>))"

definition free_joint :: "addr \<Rightarrow> heap \<Rightarrow> heap option" where
  "free_joint target h =
     (if objs h target = Some Dead then Some (h\<lparr>objs := (objs h)(target := None)\<rparr>) else None)"

definition apply_delete :: "delete_policy \<Rightarrow> addr \<Rightarrow> addr \<Rightarrow> heap \<Rightarrow> heap option" where
  "apply_delete pol rc target h =
     (let h1 = h\<lparr>counters := (counters h)(rc := None)\<rparr>
      in case pol of
        DeleteItself \<Rightarrow> Some h1
      | DeallocateItself \<Rightarrow> Some h1
      | DestroyItselfAndDeleteAll \<Rightarrow> free_joint target h1
      | DestroyItselfAndDeallocateAll \<Rightarrow> free_joint target h1)"

definition destroy_object :: "addr \<Rightarrow> heap \<Rightarrow> heap option" where
  "destroy_object rc h =
     (case counters h rc of None \<Rightarrow> None
      | Some b \<Rightarrow> apply_destroy (DestroyObjectPolicy b) (rc_ptr b) h)"

definition delete_this :: "addr \<Rightarrow> heap \<Rightarrow> heap option" where
  "delete_this rc h =
     (case counters h rc of None \<Rightarrow> None
      | Some b \<Rightarrow> apply_delete (DeleteItselfPolicy b) rc (rc_ptr b) h)"

definition Acquire :: "addr \<Rightarrow> heap \<Rightarrow> heap option" where
  "Acquire rc h =
     (case counters h rc of None \<Rightarrow> None
      | Some b \<Rightarrow> Some (put_rc rc (b\<lparr>m_strong_counter := inc32 (m_strong_counter b)\<rparr>) h))"

definition Follow :: "addr \<Rightarrow> heap \<Rightarrow> heap option" where
  "Follow rc h =
     (case counters h rc of None \<Rightarrow> None
      | Some b \<Rightarrow> Some (put_rc rc (b\<lparr>m_weak_counter := inc32 (m_weak_counter b)\<rparr>) h))"

definition Unfollow :: "addr \<Rightarrow> heap \<Rightarrow> heap option" where
  "Unfollow rc h =
     (case counters h rc of None \<Rightarrow> None
      | Some b \<Rightarrow>
        let n = dec32 (m_weak_counter b); h1 = put_rc rc (b\<lparr>m_weak_counter := n\<rparr>) h
        in if n = 0 then delete_this rc h1 else Some h1)"

definition Release :: "addr \<Rightarrow> heap \<Rightarrow> heap option" where
  "Release rc h =
     (case counters h rc of None \<Rightarrow> None
      | Some b \<Rightarrow>
        let n = dec32 (m_strong_counter b); h1 = put_rc rc (b\<lparr>m_strong_counter := n\<rparr>) h
        in if n = 0 then Option.bind (destroy_object rc h1) (Unfollow rc) else Some h1)"

definition StrongRefsCount :: "addr \<Rightarrow> heap \<Rightarrow> nat option" where
  "StrongRefsCount rc h = map_option m_strong_counter (counters h rc)"

definition WeakRefsCount :: "addr \<Rightarrow> heap \<Rightarrow> nat option" where
  "WeakRefsCount rc h = map_option (\<lambda>b. dec32 (m_weak_counter b)) (counters h rc)"

section \<open>Pointer objects\<close>

record rptr =
  m_value_ptr :: "addr option"
  m_ref_counter :: "addr option"

definition null_ptr :: rptr where "null_ptr = \<lparr>m_value_ptr = None, m_ref_counter = None\<rparr>"

definition use_count :: "rptr \<Rightarrow> heap \<Rightarrow> nat option" where
  "use_count p h = (case m_ref_counter p of None \<Rightarrow> Some 0 | Some rc \<Rightarrow> StrongRefsCount rc h)"

definition ref_if_not_null :: "(addr \<Rightarrow> heap \<Rightarrow> heap option) \<Rightarrow> rptr \<Rightarrow> heap \<Rightarrow> heap option" where
  "ref_if_not_null f p h = (case m_ref_counter p of None \<Rightarrow> Some h | Some rc \<Rightarrow> f rc h)"

definition copy_construct_from ::
  "(addr \<Rightarrow> heap \<Rightarrow> heap option) \<Rightarrow> (addr \<Rightarrow> heap \<Rightarrow> heap option) \<Rightarrow> rptr \<Rightarrow> rptr \<Rightarrow> heap \<Rightarrow>
     (rptr \<times> heap) option" where
  "copy_construct_from incref decref self other h =
     do { h1 \<leftarrow> ref_if_not_null decref self h;
          let self1 = \<lparr>m_value_ptr = m_value_ptr other, m_ref_counter = m_ref_counter other\<rparr>;
          h2 \<leftarrow> ref_if_not_null incref self1 h1;
          Some (self1, h2) }"

definition move_construct_from ::
  "(addr \<Rightarrow> heap \<Rightarrow> heap option) \<Rightarrow> rptr \<Rightarrow> rptr \<Rightarrow> heap \<Rightarrow> (rptr \<times> rptr \<times> heap) option" where
  "move_construct_from decref self other h =
     do { h1 \<leftarrow> ref_if_not_null decref self h;
          Some (\<lparr>m_value_ptr = m_value_ptr other, m_ref_counter = m_ref_counter other\<rparr>, null_ptr, h1) }"

definition reset_ptr ::
  "(addr \<Rightarrow> heap \<Rightarrow> heap option) \<Rightarrow> rptr \<Rightarrow> heap \<Rightarrow> (rptr \<times> heap) option" where
  "reset_ptr decref self h = do { h1 \<leftarrow> ref_if_not_null decref self h; Some (null_ptr, h1) }"

definition expired :: "rptr \<Rightarrow> heap \<Rightarrow> bool option" where
  "expired w h = map_option (\<lambda>n. n = 0) (use_count w h)"

text \<open>\<^verbatim>\<open>shared_ptr(Ty*)\<close>: \<^verbatim>\<open>make_ref_counter\<close> allocates a control block for a pointer that is not null.\<close>

definition new_block :: "addr \<Rightarrow> destroy_policy \<Rightarrow> delete_policy \<Rightarrow> heap \<Rightarrow> addr \<times> heap" where
  "new_block a dp xp h =
     (let rc = next_addr h
      in (rc, (put_rc rc \<lparr>m_strong_counter = 1, m_weak_counter = 1, rc_ptr = a,
                 DestroyObjectPolicy = dp, DeleteItselfPolicy = xp\<rparr> h)\<lparr>next_addr := Suc rc\<rparr>))"

definition make_ref_counter :: "addr option \<Rightarrow> heap \<Rightarrow> addr option \<times> heap" where
  "make_ref_counter guard h =
     (case guard of None \<Rightarrow> (None, h)
      | Some a \<Rightarrow> apfst Some (new_block a DestroyObjectWithDeleter DeleteItself h))"

definition shared_from_raw :: "addr option \<Rightarrow> heap \<Rightarrow> rptr \<times> heap" where
  "shared_from_raw ptr h =
     (let (rc, h1) = make_ref_counter ptr h in (\<lparr>m_value_ptr = ptr, m_ref_counter = rc\<rparr>, h1))"

definition allocate_ref_counter_impl :: "addr \<Rightarrow> heap \<Rightarrow> addr \<times> heap" where
  "allocate_ref_counter_impl ptr h = new_block ptr DestroyObjectWithDeleter DeallocateItself h"

definition shared_with_alloc :: "addr \<Rightarrow> heap \<Rightarrow> rptr \<times> heap" where
  "shared_with_alloc ptr h =
     (let (rc, h1) = allocate_ref_counter_impl ptr h
      in (\<lparr>m_value_ptr = Some ptr, m_ref_counter = Some rc\<rparr>, h1))"

text \<open>\<^verbatim>\<open>new Ty(...)\<close>: a fresh object.\<close>

definition new_obj :: "heap \<Rightarrow> addr \<times> heap" where
  "new_obj h = (next_addr h, h\<lparr>objs := (objs h)(next_addr h := Some Alive), next_addr := Suc (next_addr h)\<rparr>)"

definition make_shared :: "heap \<Rightarrow> rptr \<times> heap" where
  "make_shared h =
     (let (a, h1) = new_obj h;
          (rc, h2) = new_block a DestroyObjectInPlace DestroyItselfAndDeleteAll h1
      in (\<lparr>m_value_ptr = Some a, m_ref_counter = Some rc\<rparr>, h2))"

definition allocate_shared :: "heap \<Rightarrow> rptr \<times> heap" where
  "allocate_shared h =
     (let (a, h1) = new_obj h;
          (rc, h2) = new_block a DestroyObjectWithAllocator DestroyItselfAndDeallocateAll h1
      in (\<lparr>m_value_ptr = Some a, m_ref_counter = Some rc\<rparr>, h2))"

text \<open>\<^verbatim>\<open>shared_from_weak\<close>, behind \<^verbatim>\<open>weak_ptr::lock\<close>, and the throwing constructor from a \<^verbatim>\<open>weak_ptr\<close>
  (\<open>Inl\<close> is \<^verbatim>\<open>bad_weak_ptr\<close>).\<close>

definition lock_ptr :: "rptr \<Rightarrow> heap \<Rightarrow> (rptr \<times> heap) option" where
  "lock_ptr wptr h =
     do { e \<leftarrow> expired wptr h;
          if e then Some (null_ptr, h) else copy_construct_from Acquire Release null_ptr wptr h }"

definition shared_from_weak_ctor :: "rptr \<Rightarrow> heap \<Rightarrow> (unit + rptr \<times> heap) option" where
  "shared_from_weak_ctor wptr h =
     do { e \<leftarrow> expired wptr h;
          if e then Some (Inl ())
          else map_option Inr (copy_construct_from Acquire Release null_ptr wptr h) }"

section \<open>A program over pointer variables\<close>

text \<open>The variables of a program: \<open>shared\<close> and \<open>weak\<close> are its \<^verbatim>\<open>shared_ptr\<close> and \<^verbatim>\<open>weak_ptr\<close> objects, by
  index. An operation names variables; \<open>None\<close> is also an index that does not exist.\<close>

record world =
  hp :: heap
  shared :: "rptr list"
  weak :: "rptr list"

datatype sp_op =
  Declare_shared | Declare_weak
  | Reset_new nat | Reset_alloc nat | Assign_make_shared nat | Assign_allocate_shared nat
  | Copy_shared nat nat | Move_shared nat nat | Swap_shared nat nat | Reset_shared nat
  | Weak_from_shared nat nat | Copy_weak nat nat | Move_weak nat nat | Reset_weak nat | Lock nat nat

text \<open>\<^verbatim>\<open>p_i = shared_ptr(...)\<close>: the temporary is moved into the variable and destroyed as a null pointer.\<close>

definition move_in :: "nat \<Rightarrow> rptr \<Rightarrow> heap \<Rightarrow> world \<Rightarrow> world option" where
  "move_in i tmp h w =
     do { p \<leftarrow> rd (shared w) i;
          (p1, tmp1, h1) \<leftarrow> move_construct_from Release p tmp h;
          (tmp2, h2) \<leftarrow> reset_ptr Release tmp1 h1;
          Some (w\<lparr>hp := h2, shared := (shared w)[i := p1]\<rparr>) }"

text \<open>The members of \<^verbatim>\<open>shared_ptr\<close> and \<^verbatim>\<open>weak_ptr\<close> on variables.\<close>

definition shared_reset_new :: "nat \<Rightarrow> world \<Rightarrow> world option" where
  [simp]: "shared_reset_new i w =
     (let (a, h1) = new_obj (hp w); (tmp, h2) = shared_from_raw (Some a) h1
      in do { p \<leftarrow> rd (shared w) i;
              (tmp1, h3) \<leftarrow> reset_ptr Release p h2;
              Some (w\<lparr>hp := h3, shared := (shared w)[i := tmp]\<rparr>) })"

definition shared_copy_assign :: "nat \<Rightarrow> nat \<Rightarrow> world \<Rightarrow> world option" where
  [simp]: "shared_copy_assign i j w =
     do { p \<leftarrow> rd (shared w) i; q \<leftarrow> rd (shared w) j;
          if i = j then Some w
          else do { (p1, h1) \<leftarrow> copy_construct_from Acquire Release p q (hp w);
                    Some (w\<lparr>hp := h1, shared := (shared w)[i := p1]\<rparr>) } }"

definition shared_move_assign :: "nat \<Rightarrow> nat \<Rightarrow> world \<Rightarrow> world option" where
  [simp]: "shared_move_assign i j w =
     do { p \<leftarrow> rd (shared w) i; q \<leftarrow> rd (shared w) j;
          if i = j then Some w
          else do { (p1, q1, h1) \<leftarrow> move_construct_from Release p q (hp w);
                    Some (w\<lparr>hp := h1, shared := (shared w)[i := p1, j := q1]\<rparr>) } }"

definition shared_swap :: "nat \<Rightarrow> nat \<Rightarrow> world \<Rightarrow> world option" where
  [simp]: "shared_swap i j w =
     do { p \<leftarrow> rd (shared w) i; q \<leftarrow> rd (shared w) j;
          Some (w\<lparr>shared := (shared w)[i := q, j := p]\<rparr>) }"

definition shared_reset :: "nat \<Rightarrow> world \<Rightarrow> world option" where
  [simp]: "shared_reset i w =
     do { p \<leftarrow> rd (shared w) i; (p1, h1) \<leftarrow> reset_ptr Release p (hp w);
          Some (w\<lparr>hp := h1, shared := (shared w)[i := p1]\<rparr>) }"

definition weak_from_shared :: "nat \<Rightarrow> nat \<Rightarrow> world \<Rightarrow> world option" where
  [simp]: "weak_from_shared i j w =
     do { p \<leftarrow> rd (weak w) i; q \<leftarrow> rd (shared w) j;
          (tmp, h1) \<leftarrow> copy_construct_from Follow Unfollow null_ptr q (hp w);
          (p1, tmp1, h2) \<leftarrow> move_construct_from Unfollow p tmp h1;
          (tmp2, h3) \<leftarrow> reset_ptr Unfollow tmp1 h2;
          Some (w\<lparr>hp := h3, weak := (weak w)[i := p1]\<rparr>) }"

definition weak_copy_assign :: "nat \<Rightarrow> nat \<Rightarrow> world \<Rightarrow> world option" where
  [simp]: "weak_copy_assign i j w =
     do { p \<leftarrow> rd (weak w) i; q \<leftarrow> rd (weak w) j;
          if i = j then Some w
          else do { (p1, h1) \<leftarrow> copy_construct_from Follow Unfollow p q (hp w);
                    Some (w\<lparr>hp := h1, weak := (weak w)[i := p1]\<rparr>) } }"

definition weak_move_assign :: "nat \<Rightarrow> nat \<Rightarrow> world \<Rightarrow> world option" where
  [simp]: "weak_move_assign i j w =
     do { p \<leftarrow> rd (weak w) i; q \<leftarrow> rd (weak w) j;
          if i = j then Some w
          else do { (p1, q1, h1) \<leftarrow> move_construct_from Unfollow p q (hp w);
                    Some (w\<lparr>hp := h1, weak := (weak w)[i := p1, j := q1]\<rparr>) } }"

definition weak_reset :: "nat \<Rightarrow> world \<Rightarrow> world option" where
  [simp]: "weak_reset i w =
     do { p \<leftarrow> rd (weak w) i; (p1, h1) \<leftarrow> reset_ptr Unfollow p (hp w);
          Some (w\<lparr>hp := h1, weak := (weak w)[i := p1]\<rparr>) }"

definition weak_lock :: "nat \<Rightarrow> nat \<Rightarrow> world \<Rightarrow> world option" where
  [simp]: "weak_lock i j w =
     do { q \<leftarrow> rd (weak w) j;
          (tmp, h1) \<leftarrow> lock_ptr q (hp w);
          move_in i tmp h1 w }"

fun exec :: "sp_op \<Rightarrow> world \<Rightarrow> world option" where
  "exec Declare_shared w = Some (w\<lparr>shared := shared w @ [null_ptr]\<rparr>)"
| "exec Declare_weak w = Some (w\<lparr>weak := weak w @ [null_ptr]\<rparr>)"
| "exec (Reset_new i) w = shared_reset_new i w"
| "exec (Reset_alloc i) w =
     (let (a, h1) = new_obj (hp w); (tmp, h2) = shared_with_alloc a h1 in move_in i tmp h2 w)"
| "exec (Assign_make_shared i) w = (let (tmp, h1) = make_shared (hp w) in move_in i tmp h1 w)"
| "exec (Assign_allocate_shared i) w = (let (tmp, h1) = allocate_shared (hp w) in move_in i tmp h1 w)"
| "exec (Copy_shared i j) w = shared_copy_assign i j w"
| "exec (Move_shared i j) w = shared_move_assign i j w"
| "exec (Swap_shared i j) w = shared_swap i j w"
| "exec (Reset_shared i) w = shared_reset i w"
| "exec (Weak_from_shared i j) w = weak_from_shared i j w"
| "exec (Copy_weak i j) w = weak_copy_assign i j w"
| "exec (Move_weak i j) w = weak_move_assign i j w"
| "exec (Reset_weak i) w = weak_reset i w"
| "exec (Lock i j) w = weak_lock i j w"

fun run :: "sp_op list \<Rightarrow> world \<Rightarrow> world option" where
  "run [] w = Some w"
| "run (c # cs) w = Option.bind (exec c w) (run cs)"

definition empty_world :: world where
  "empty_world = \<lparr>hp = \<lparr>objs = (\<lambda>_. None), counters = (\<lambda>_. None), next_addr = 1\<rparr>, shared = [], weak = []\<rparr>"

end
