(* ===== verification/Shared_Ptr_Inv.thy ===== *)
theory Shared_Ptr_Inv
  imports Shared_Ptr
begin

text \<open>
  The invariant of heaps with control blocks: both counters count the references there are. The
  operations on the counters are shown to keep it; the locale \<open>counted_refs\<close> is the contract the
  pointer classes rely on, interpreted for strong and for weak references.
\<close>

section \<open>The invariant\<close>

definition joint :: "ref_counter \<Rightarrow> bool" where
  "joint b \<longleftrightarrow> DeleteItselfPolicy b \<in> {DestroyItselfAndDeleteAll, DestroyItselfAndDeallocateAll}"

definition policies_ok :: "ref_counter \<Rightarrow> bool" where
  "policies_ok b \<longleftrightarrow> (DestroyObjectPolicy b \<noteq> DestroyObjectWithDeleter) = joint b"

text \<open>\<open>ns\<close> and \<open>nw\<close> say how many strong and weak references there are to each control block. All strong
  references together hold one weak reference.\<close>

definition block_ok :: "heap \<Rightarrow> nat \<Rightarrow> nat \<Rightarrow> ref_counter \<Rightarrow> bool" where
  "block_ok h s k b \<longleftrightarrow>
     m_strong_counter b = s \<and> m_weak_counter b = k + (if 0 < s then 1 else 0) \<and> 0 < m_weak_counter b \<and>
     policies_ok b \<and> objs h (rc_ptr b) = (if 0 < s then Some Alive else if joint b then Some Dead else None)"

definition heap_ok :: "heap \<Rightarrow> (addr \<Rightarrow> nat) \<Rightarrow> (addr \<Rightarrow> nat) \<Rightarrow> bool" where
  "heap_ok h ns nw \<longleftrightarrow>
     (\<forall>rc. counters h rc = None \<longrightarrow> ns rc = 0 \<and> nw rc = 0) \<and>
     (\<forall>rc b. counters h rc = Some b \<longrightarrow> block_ok h (ns rc) (nw rc) b \<and> rc < next_addr h \<and> rc_ptr b < next_addr h) \<and>
     (\<forall>rc rc' b b'. counters h rc = Some b \<and> counters h rc' = Some b' \<and> rc_ptr b = rc_ptr b' \<longrightarrow> rc = rc') \<and>
     (\<forall>a. objs h a \<noteq> None \<longrightarrow> (\<exists>rc b. counters h rc = Some b \<and> rc_ptr b = a))"

lemma heap_okD:
  assumes "heap_ok h ns nw"
  shows "counters h rc = None \<Longrightarrow> ns rc = 0 \<and> nw rc = 0"
    and "counters h rc = Some b \<Longrightarrow> block_ok h (ns rc) (nw rc) b"
    and "counters h rc = Some b \<Longrightarrow> rc < next_addr h \<and> rc_ptr b < next_addr h"
    and "counters h rc = Some b \<Longrightarrow> counters h rc' = Some b' \<Longrightarrow> rc_ptr b = rc_ptr b' \<Longrightarrow> rc = rc'"
    and "objs h a \<noteq> None \<Longrightarrow> \<exists>rc b. counters h rc = Some b \<and> rc_ptr b = a"
  using assms unfolding heap_ok_def by blast+

lemma heap_ok_block:
  assumes "heap_ok h ns nw" "0 < ns rc \<or> 0 < nw rc"
  obtains b where "counters h rc = Some b" "block_ok h (ns rc) (nw rc) b"
  using heap_okD(1,2) [OF assms(1), of rc] assms(2) by (cases "counters h rc") auto

lemma block_ok_cong: "objs h' (rc_ptr b) = objs h (rc_ptr b) \<Longrightarrow> block_ok h' s k b = block_ok h s k b"
  by (simp add: block_ok_def)

lemma inc32_eq: "n + 1 < 2 ^ 32 \<Longrightarrow> inc32 n = n + 1"
  by (simp add: inc32_def)

lemma dec32_eq: "0 < n \<Longrightarrow> n < 2 ^ 32 \<Longrightarrow> dec32 n = n - 1"
proof -
  assume n: "0 < n" "n < 2 ^ 32"
  then have "n + (2 ^ 32 - 1) = (n - 1) + 2 ^ 32" by simp
  then show ?thesis using n unfolding dec32_def by (simp only: mod_add_self2) simp
qed

text \<open>Replacing one block: the other blocks and their objects are not affected.\<close>

lemma heap_ok_replace:
  assumes h: "heap_ok h ns nw" and b: "counters h rc = Some b"
    and ptr: "rc_ptr b' = rc_ptr b"
    and cs: "counters h' = (counters h)(rc := Some b')" and nx: "next_addr h' = next_addr h"
    and ob: "\<And>a. a \<noteq> rc_ptr b \<Longrightarrow> objs h' a = objs h a"
    and ok: "block_ok h' s k b'"
  shows "heap_ok h' (ns(rc := s)) (nw(rc := k))"
  unfolding heap_ok_def
proof (intro conjI allI impI)
  fix rc' b1 assume b1: "counters h' rc' = Some b1"
  show "block_ok h' ((ns(rc := s)) rc') ((nw(rc := k)) rc') b1"
  proof (cases "rc' = rc")
    case True
    then show ?thesis using b1 cs ok by simp
  next
    case False
    then have c1: "counters h rc' = Some b1" using b1 cs by simp
    then have "rc_ptr b1 \<noteq> rc_ptr b" using heap_okD(4) [OF h b c1] False by metis
    then show ?thesis using heap_okD(2) [OF h c1] False block_ok_cong [OF ob] by simp
  qed
  show "rc' < next_addr h'" "rc_ptr b1 < next_addr h'"
    using b1 cs nx ptr heap_okD(3) [OF h b] heap_okD(3) [OF h, of rc' b1] by (auto split: if_splits)
next
  fix rc1 rc2 b1 b2
  assume "counters h' rc1 = Some b1 \<and> counters h' rc2 = Some b2 \<and> rc_ptr b1 = rc_ptr b2"
  then show "rc1 = rc2"
    using heap_okD(4) [OF h] b ptr unfolding cs by (metis fun_upd_apply option.inject)
next
  fix rc' assume n: "counters h' rc' = None"
  then have "rc' \<noteq> rc" "counters h rc' = None" using cs by (auto split: if_splits)
  then show "(ns(rc := s)) rc' = 0" "(nw(rc := k)) rc' = 0" using heap_okD(1) [OF h, of rc'] by simp_all
next
  fix a assume a: "objs h' a \<noteq> None"
  show "\<exists>rc b. counters h' rc = Some b \<and> rc_ptr b = a"
  proof (cases "a = rc_ptr b")
    case True
    then show ?thesis using cs ptr by (metis fun_upd_same)
  next
    case False
    then obtain rc1 b1 where "counters h rc1 = Some b1" "rc_ptr b1 = a"
      using heap_okD(5) [OF h] ob a by metis
    then show ?thesis using False b cs by (metis fun_upd_other option.inject)
  qed
qed

text \<open>Removing a block whose object is gone.\<close>

lemma heap_ok_remove:
  assumes h: "heap_ok h ns nw" and b: "counters h rc = Some b"
    and cs: "counters h' = (counters h)(rc := None)" and nx: "next_addr h' = next_addr h"
    and ob: "\<And>a. a \<noteq> rc_ptr b \<Longrightarrow> objs h' a = objs h a" "objs h' (rc_ptr b) = None"
  shows "heap_ok h' (ns(rc := 0)) (nw(rc := 0))"
  unfolding heap_ok_def
proof (intro conjI allI impI)
  fix rc' b1 assume b1: "counters h' rc' = Some b1"
  then have c1: "counters h rc' = Some b1" "rc' \<noteq> rc" using cs by (auto split: if_splits)
  then have "rc_ptr b1 \<noteq> rc_ptr b" using heap_okD(4) [OF h b c1(1)] by metis
  then show "block_ok h' ((ns(rc := 0)) rc') ((nw(rc := 0)) rc') b1"
    using heap_okD(2) [OF h c1(1)] c1(2) block_ok_cong [OF ob(1)] by simp
  show "rc' < next_addr h'" "rc_ptr b1 < next_addr h'" using heap_okD(3) [OF h c1(1)] nx by auto
next
  fix rc1 rc2 b1 b2
  assume "counters h' rc1 = Some b1 \<and> counters h' rc2 = Some b2 \<and> rc_ptr b1 = rc_ptr b2"
  then show "rc1 = rc2" using heap_okD(4) [OF h] unfolding cs by (auto split: if_splits)
next
  fix rc' assume n: "counters h' rc' = None"
  then show "(ns(rc := 0)) rc' = 0" "(nw(rc := 0)) rc' = 0"
    using heap_okD(1) [OF h, of rc'] cs by (auto split: if_splits)
next
  fix a assume a: "objs h' a \<noteq> None"
  then obtain rc1 b1 where "counters h rc1 = Some b1" "rc_ptr b1 = a"
    using heap_okD(5) [OF h] ob by metis
  then show "\<exists>rc b. counters h' rc = Some b \<and> rc_ptr b = a"
    using a ob(2) b cs by (metis fun_upd_other option.inject)
qed

section \<open>The reference counts\<close>

lemma Acquire_ok:
  assumes h: "heap_ok h ns nw" and n: "0 < ns rc" "ns rc + 1 < 2 ^ 32"
  shows "\<exists>h'. Acquire rc h = Some h' \<and> heap_ok h' (ns(rc := ns rc + 1)) nw"
proof -
  obtain b where b: "counters h rc = Some b" "block_ok h (ns rc) (nw rc) b"
    using heap_ok_block [OF h, of rc] n(1) by blast
  let ?b = "b\<lparr>m_strong_counter := inc32 (m_strong_counter b)\<rparr>"
  have "block_ok (put_rc rc ?b h) (ns rc + 1) (nw rc) ?b"
    using b(2) n by (simp add: block_ok_def inc32_eq put_rc_def policies_ok_def joint_def)
  then have "heap_ok (put_rc rc ?b h) (ns(rc := ns rc + 1)) (nw(rc := nw rc))"
    by (intro heap_ok_replace [OF h b(1)]) (simp_all add: put_rc_def)
  then show ?thesis using b(1) by (simp add: Acquire_def)
qed

lemma Follow_ok:
  assumes h: "heap_ok h ns nw" and n: "0 < ns rc \<or> 0 < nw rc" "nw rc + 2 < 2 ^ 32"
  shows "\<exists>h'. Follow rc h = Some h' \<and> heap_ok h' ns (nw(rc := nw rc + 1))"
proof -
  obtain b where b: "counters h rc = Some b" "block_ok h (ns rc) (nw rc) b"
    using heap_ok_block [OF h n(1)] by blast
  let ?b = "b\<lparr>m_weak_counter := inc32 (m_weak_counter b)\<rparr>"
  have "block_ok (put_rc rc ?b h) (ns rc) (nw rc + 1) ?b"
    using b(2) n by (auto simp: block_ok_def inc32_eq put_rc_def policies_ok_def joint_def)
  then have "heap_ok (put_rc rc ?b h) (ns(rc := ns rc)) (nw(rc := nw rc + 1))"
    by (intro heap_ok_replace [OF h b(1)]) (simp_all add: put_rc_def)
  then show ?thesis using b(1) by (simp add: Follow_def)
qed

text \<open>The last weak reference frees the block, and with it the storage of a joint allocation.\<close>

lemma delete_this_ok:
  assumes h: "heap_ok h0 ns nw" and b: "counters h0 rc = Some b"
    and cs: "counters h = (counters h0)(rc := Some b')" "next_addr h = next_addr h0"
    and ptr: "rc_ptr b' = rc_ptr b" "joint b' = joint b"
    and ob: "\<And>a. a \<noteq> rc_ptr b \<Longrightarrow> objs h a = objs h0 a"
    and st: "objs h (rc_ptr b) = (if joint b then Some Dead else None)"
  shows "\<exists>h'. delete_this rc h = Some h' \<and> heap_ok h' (ns(rc := 0)) (nw(rc := 0))"
proof -
  let ?h1 = "h\<lparr>counters := (counters h)(rc := None)\<rparr>"
  let ?h' = "if joint b then ?h1\<lparr>objs := (objs h)(rc_ptr b := None)\<rparr> else ?h1"
  have "delete_this rc h = Some ?h'"
    using cs ptr st
    by (cases "DeleteItselfPolicy b'") (simp_all add: delete_this_def apply_delete_def joint_def free_joint_def)
  moreover have "heap_ok ?h' (ns(rc := 0)) (nw(rc := 0))"
    using cs ob st by (intro heap_ok_remove [OF h b]) (auto simp: fun_upd_def)
  ultimately show ?thesis by blast
qed

lemma Unfollow_ok:
  assumes h: "heap_ok h ns nw" and n: "0 < nw rc" "nw rc + 1 < 2 ^ 32"
  shows "\<exists>h'. Unfollow rc h = Some h' \<and> heap_ok h' ns (nw(rc := nw rc - 1))"
proof -
  obtain b where b: "counters h rc = Some b" "block_ok h (ns rc) (nw rc) b"
    using heap_ok_block [OF h, of rc] n(1) by blast
  let ?b = "b\<lparr>m_weak_counter := m_weak_counter b - 1\<rparr>"
  have dec: "dec32 (m_weak_counter b) = m_weak_counter b - 1"
    using b(2) n by (intro dec32_eq) (auto simp: block_ok_def)
  show ?thesis
  proof (cases "m_weak_counter b = 1")
    case True
    then have z: "ns rc = 0" "nw rc = 1" using b(2) n(1) by (auto simp: block_ok_def split: if_splits)
    have "\<exists>h'. delete_this rc (put_rc rc ?b h) = Some h' \<and> heap_ok h' (ns(rc := 0)) (nw(rc := 0))"
      using b(2) z
      by (intro delete_this_ok [OF h b(1), where b' = ?b]) (simp_all add: put_rc_def joint_def block_ok_def)
    then show ?thesis using b(1) dec True z by (auto simp: Unfollow_def fun_upd_idem)
  next
    case False
    have "block_ok (put_rc rc ?b h) (ns rc) (nw rc - 1) ?b"
      using b(2) n False by (auto simp: block_ok_def put_rc_def policies_ok_def joint_def split: if_splits)
    then have "heap_ok (put_rc rc ?b h) (ns(rc := ns rc)) (nw(rc := nw rc - 1))"
      by (intro heap_ok_replace [OF h b(1)]) (simp_all add: put_rc_def)
    moreover have "m_weak_counter b - 1 \<noteq> 0" using False b(2) by (auto simp: block_ok_def)
    ultimately show ?thesis using b(1) dec by (simp add: Unfollow_def)
  qed
qed

lemma destroy_object_eq:
  assumes "counters h rc = Some b" "policies_ok b" "objs h (rc_ptr b) = Some Alive"
  shows "destroy_object rc h = Some (h\<lparr>objs := (objs h)(rc_ptr b := if joint b then Some Dead else None)\<rparr>)"
  using assms
  by (cases "DestroyObjectPolicy b") (auto simp: destroy_object_def apply_destroy_def policies_ok_def)

lemma Release_ok:
  assumes h: "heap_ok h ns nw" and n: "0 < ns rc" "ns rc < 2 ^ 32" "nw rc + 1 < 2 ^ 32"
  shows "\<exists>h'. Release rc h = Some h' \<and> heap_ok h' (ns(rc := ns rc - 1)) nw"
proof -
  obtain b where b: "counters h rc = Some b" "block_ok h (ns rc) (nw rc) b"
    using heap_ok_block [OF h, of rc] n(1) by blast
  let ?b = "b\<lparr>m_strong_counter := m_strong_counter b - 1\<rparr>"
  have dec: "dec32 (m_strong_counter b) = m_strong_counter b - 1"
    using b(2) n by (intro dec32_eq) (auto simp: block_ok_def)
  show ?thesis
  proof (cases "ns rc = 1")
    case False
    have "block_ok (put_rc rc ?b h) (ns rc - 1) (nw rc) ?b"
      using b(2) n False by (auto simp: block_ok_def put_rc_def policies_ok_def joint_def)
    then have "heap_ok (put_rc rc ?b h) (ns(rc := ns rc - 1)) (nw(rc := nw rc))"
      by (intro heap_ok_replace [OF h b(1)]) (simp_all add: put_rc_def)
    then show ?thesis using b dec n(1) False by (auto simp: Release_def block_ok_def)
  next
    case True
    let ?h1 = "put_rc rc ?b h"
    let ?h2 = "?h1\<lparr>objs := (objs h)(rc_ptr b := if joint b then Some Dead else None)\<rparr>"
    let ?b2 = "?b\<lparr>m_weak_counter := nw rc\<rparr>"
    have pol: "policies_ok ?b" "joint ?b = joint b" "joint ?b2 = joint b" "policies_ok ?b2"
      using b(2) by (simp_all add: block_ok_def policies_ok_def joint_def)
    have wk: "m_weak_counter b = nw rc + 1" using b(2) True by (simp add: block_ok_def)
    have d: "destroy_object rc ?h1 = Some ?h2"
      using destroy_object_eq [of ?h1 rc ?b] b(2) True pol by (simp add: put_rc_def block_ok_def)
    have u: "Unfollow rc ?h2 = (if nw rc = 0 then delete_this rc (put_rc rc ?b2 ?h2) else Some (put_rc rc ?b2 ?h2))"
      using wk dec32_eq [of "nw rc + 1"] n(3) by (simp add: Unfollow_def put_rc_def Let_def)
    have r: "Release rc h = Unfollow rc ?h2"
      using b d dec True by (simp add: Release_def block_ok_def)
    show ?thesis
    proof (cases "nw rc = 0")
      case z: True
      have "\<exists>h'. delete_this rc (put_rc rc ?b2 ?h2) = Some h' \<and> heap_ok h' (ns(rc := 0)) (nw(rc := 0))"
        using pol by (intro delete_this_ok [OF h b(1), where b' = ?b2]) (simp_all add: put_rc_def)
      then show ?thesis using r u z True by (auto simp: fun_upd_idem)
    next
      case z: False
      have "block_ok (put_rc rc ?b2 ?h2) 0 (nw rc) ?b2"
        using b(2) z True pol by (simp add: block_ok_def put_rc_def)
      then have "heap_ok (put_rc rc ?b2 ?h2) (ns(rc := 0)) (nw(rc := nw rc))"
        by (intro heap_ok_replace [OF h b(1)]) (simp_all add: put_rc_def)
      then show ?thesis using r u z True by simp
    qed
  qed
qed

lemma new_block_ok:
  assumes h: "heap_ok h ns nw" and dp: "(dp \<noteq> DestroyObjectWithDeleter) =
      (xp \<in> {DestroyItselfAndDeleteAll, DestroyItselfAndDeallocateAll})"
    and a: "new_obj h = (a, h1)" and nb: "new_block a dp xp h1 = (rc, h2)"
  shows "heap_ok h2 (ns(rc := 1)) nw" "ns rc = 0" "nw rc = 0" "a \<noteq> rc" "counters h2 rc \<noteq> None"
    and "\<And>rc' b. counters h rc' = Some b \<Longrightarrow> counters h2 rc' = Some b"
    and "\<And>b. counters h2 rc = Some b \<Longrightarrow> rc_ptr b = a"
proof -
  let ?n = "next_addr h"
  let ?b = "\<lparr>m_strong_counter = 1, m_weak_counter = 1, rc_ptr = a, DestroyObjectPolicy = dp, DeleteItselfPolicy = xp\<rparr>"
  have eq: "a = ?n" "rc = Suc ?n"
    "h2 = h\<lparr>objs := (objs h)(?n := Some Alive), counters := (counters h)(Suc ?n := Some ?b), next_addr := Suc (Suc ?n)\<rparr>"
    using a nb by (auto simp: new_obj_def new_block_def put_rc_def Let_def)
  have none: "counters h (Suc ?n) = None" "counters h ?n = None"
    using heap_okD(3) [OF h, of "Suc ?n"] heap_okD(3) [OF h, of ?n] by (metis not_None_eq not_less_eq less_irrefl lessI less_trans)+
  then show z: "ns rc = 0" "nw rc = 0" using heap_okD(1) [OF h] eq(2) by auto
  show "a \<noteq> rc" "counters h2 rc \<noteq> None" "\<And>b. counters h2 rc = Some b \<Longrightarrow> rc_ptr b = a" using eq by auto
  show "\<And>rc' b. counters h rc' = Some b \<Longrightarrow> counters h2 rc' = Some b" using eq none by auto
  show "heap_ok h2 (ns(rc := 1)) nw"
    unfolding heap_ok_def
  proof (intro conjI allI impI)
    fix rc' b1 assume b1: "counters h2 rc' = Some b1"
    show "block_ok h2 ((ns(rc := 1)) rc') (nw rc') b1"
    proof (cases "rc' = rc")
      case True
      then have e: "b1 = ?b" using b1 eq(2,3) by simp
      have o: "objs h2 a = Some Alive" using eq(1,3) by simp
      show ?thesis unfolding e using True o z dp by (simp add: block_ok_def policies_ok_def joint_def)
    next
      case False
      then have c1: "counters h rc' = Some b1" using b1 eq by simp
      then have "rc_ptr b1 \<noteq> ?n" using heap_okD(3) [OF h c1] by simp
      then show ?thesis using heap_okD(2) [OF h c1] False eq(3) block_ok_cong [of h2 b1 h] by simp
    qed
    show "rc' < next_addr h2" "rc_ptr b1 < next_addr h2"
      using b1 eq heap_okD(3) [OF h, of rc' b1] by (auto split: if_splits)
  next
    fix rc1 rc2 b1 b2
    assume "counters h2 rc1 = Some b1 \<and> counters h2 rc2 = Some b2 \<and> rc_ptr b1 = rc_ptr b2"
    then show "rc1 = rc2"
      using heap_okD(4) [OF h, of rc1 b1 rc2 b2] heap_okD(3) [OF h, of rc1 b1] heap_okD(3) [OF h, of rc2 b2] eq
      by (auto split: if_splits)
  next
    fix rc' assume "counters h2 rc' = None"
    then show "(ns(rc := 1)) rc' = 0" "nw rc' = 0"
      using heap_okD(1) [OF h, of rc'] eq by (auto split: if_splits)
  next
    fix a' assume a': "objs h2 a' \<noteq> None"
    show "\<exists>rc b. counters h2 rc = Some b \<and> rc_ptr b = a'"
    proof (cases "a' = ?n")
      case True
      then show ?thesis using eq by (intro exI [of _ rc] exI [of _ ?b]) simp
    next
      case False
      then have "objs h a' \<noteq> None" using a' eq(3) by simp
      then obtain rc1 b1 where "counters h rc1 = Some b1" "rc_ptr b1 = a'"
        using heap_okD(5) [OF h] by blast
      then show ?thesis using eq none by (intro exI [of _ rc1] exI [of _ b1]) auto
    qed
  qed
qed

section \<open>Counting the pointer objects\<close>

definition cnt :: "rptr list \<Rightarrow> addr \<Rightarrow> nat" where
  "cnt ps rc = length (filter (\<lambda>p. m_ref_counter p = Some rc) ps)"

lemma cnt_le: "cnt ps rc \<le> length ps"
  by (simp add: cnt_def)

lemma cnt_snoc [simp]: "m_ref_counter p = None \<Longrightarrow> cnt (ps @ [p]) = cnt ps"
  by (simp add: cnt_def fun_eq_iff)

lemma cnt_update:
  assumes "i < length ps"
  shows "cnt (ps[i := q]) rc + (if m_ref_counter (ps ! i) = Some rc then 1 else 0) =
     cnt ps rc + (if m_ref_counter q = Some rc then 1 else 0)"
  using assms
proof (induction ps arbitrary: i)
  case (Cons p ps)
  then show ?case by (cases i) (auto simp: cnt_def)
qed simp

lemma cnt_pos: "i < length ps \<Longrightarrow> m_ref_counter (ps ! i) = Some rc \<Longrightarrow> 0 < cnt ps rc"
  unfolding cnt_def by (metis (mono_tags, lifting) filter_empty_conv length_greater_0_conv nth_mem)

lemma cnt_pos_iff: "0 < cnt ps rc \<longleftrightarrow> (\<exists>p\<in>set ps. m_ref_counter p = Some rc)"
  by (auto simp: cnt_def filter_empty_conv)

lemma cnt_put:
  assumes "i < length ps" "m_ref_counter (ps ! i) = None"
  shows "cnt (ps[i := q]) =
     (case m_ref_counter q of None \<Rightarrow> cnt ps | Some rc \<Rightarrow> (cnt ps)(rc := cnt ps rc + 1))"
proof
  fix rc show "cnt (ps[i := q]) rc =
     (case m_ref_counter q of None \<Rightarrow> cnt ps | Some rc \<Rightarrow> (cnt ps)(rc := cnt ps rc + 1)) rc"
    using cnt_update [OF assms(1), of q rc] assms(2) by (cases "m_ref_counter q") auto
qed

lemma cnt_drop:
  assumes "i < length ps"
  shows "cnt (ps[i := null_ptr]) =
     (case m_ref_counter (ps ! i) of None \<Rightarrow> cnt ps | Some rc \<Rightarrow> (cnt ps)(rc := cnt ps rc - 1))"
proof
  fix rc show "cnt (ps[i := null_ptr]) rc =
     (case m_ref_counter (ps ! i) of None \<Rightarrow> cnt ps | Some rc \<Rightarrow> (cnt ps)(rc := cnt ps rc - 1)) rc"
    using cnt_update [OF assms, of null_ptr rc]
    by (cases "m_ref_counter (ps ! i)") (auto simp: null_ptr_def)
qed

lemma cnt_swap:
  assumes "i < length ps" "j < length ps"
  shows "cnt (ps[i := ps ! j, j := ps ! i]) = cnt ps"
proof
  fix rc show "cnt (ps[i := ps ! j, j := ps ! i]) rc = cnt ps rc"
    using cnt_update [OF assms(1), of "ps ! j" rc] cnt_update [of j "ps[i := ps ! j]" "ps ! i" rc] assms
    by (cases "i = j") auto
qed

section \<open>The interface of the counters, for both kinds of pointers\<close>

text \<open>\<open>ok h n\<close>: the heap is consistent with \<open>n\<close> references of the kind at hand.\<close>

locale counted_refs =
  fixes inc dec :: "addr \<Rightarrow> heap \<Rightarrow> heap option" and ok :: "heap \<Rightarrow> (addr \<Rightarrow> nat) \<Rightarrow> bool"
  assumes inc_ok: "ok h n \<Longrightarrow> 0 < n rc \<Longrightarrow> n rc + 2 < 2 ^ 32 \<Longrightarrow>
      \<exists>h'. inc rc h = Some h' \<and> ok h' (n(rc := n rc + 1))"
    and dec_ok: "ok h n \<Longrightarrow> 0 < n rc \<Longrightarrow> n rc + 2 < 2 ^ 32 \<Longrightarrow>
      \<exists>h'. dec rc h = Some h' \<and> ok h' (n(rc := n rc - 1))"
begin

lemma drop_ok:
  assumes "ok h (cnt ps)" "i < length ps" "length ps + 2 < 2 ^ 32"
  shows "\<exists>h'. ref_if_not_null dec (ps ! i) h = Some h' \<and> ok h' (cnt (ps[i := null_ptr]))"
proof (cases "m_ref_counter (ps ! i)")
  case None
  then show ?thesis using assms cnt_drop [OF assms(2)] by (simp add: ref_if_not_null_def)
next
  case (Some rc)
  have "cnt ps rc + 2 < 2 ^ 32" using cnt_le [of ps rc] assms(3) by linarith
  then show ?thesis
    using dec_ok [OF assms(1) cnt_pos [OF assms(2) Some]] Some cnt_drop [OF assms(2)]
    by (simp add: ref_if_not_null_def)
qed

lemma put_ok:
  assumes "ok h (cnt ps)" "i < length ps" "length ps + 2 < 2 ^ 32" "m_ref_counter (ps ! i) = None"
    and "\<And>rc. m_ref_counter q = Some rc \<Longrightarrow> 0 < cnt ps rc"
  shows "\<exists>h'. ref_if_not_null inc q h = Some h' \<and> ok h' (cnt (ps[i := q]))"
proof (cases "m_ref_counter q")
  case None
  then show ?thesis using assms cnt_put [OF assms(2,4)] by (simp add: ref_if_not_null_def)
next
  case (Some rc)
  have "cnt ps rc + 2 < 2 ^ 32" using cnt_le [of ps rc] assms(3) by linarith
  then show ?thesis
    using inc_ok [OF assms(1) assms(5) [OF Some]] Some cnt_put [OF assms(2,4)]
    by (simp add: ref_if_not_null_def)
qed

lemma reset_ok:
  assumes "ok h (cnt ps)" "i < length ps" "length ps + 2 < 2 ^ 32"
  shows "\<exists>h'. reset_ptr dec (ps ! i) h = Some (null_ptr, h') \<and> ok h' (cnt (ps[i := null_ptr]))"
  using drop_ok [OF assms] by (auto simp: reset_ptr_def)

lemma copy_ok:
  assumes "ok h (cnt ps)" "i < length ps" "j < length ps" "i \<noteq> j" "length ps + 2 < 2 ^ 32"
  shows "\<exists>h'. copy_construct_from inc dec (ps ! i) (ps ! j) h = Some (ps ! j, h') \<and> ok h' (cnt (ps[i := ps ! j]))"
proof -
  let ?ps = "ps[i := null_ptr]"
  obtain h1 where h1: "ref_if_not_null dec (ps ! i) h = Some h1" "ok h1 (cnt ?ps)"
    using drop_ok [OF assms(1,2,5)] by blast
  have "0 < cnt ?ps rc" if "m_ref_counter (ps ! j) = Some rc" for rc
    using that assms(2-4) by (intro cnt_pos [of j]) auto
  then obtain h2 where h2: "ref_if_not_null inc (ps ! j) h1 = Some h2" "ok h2 (cnt (?ps[i := ps ! j]))"
    using put_ok [OF h1(2), of i "ps ! j"] assms(2,5) by (auto simp: null_ptr_def)
  then show ?thesis using h1(1) by (simp add: copy_construct_from_def ref_if_not_null_def)
qed

lemma move_ok:
  assumes "ok h (cnt ps)" "i < length ps" "j < length ps" "i \<noteq> j" "length ps + 2 < 2 ^ 32"
  shows "\<exists>h'. move_construct_from dec (ps ! i) (ps ! j) h = Some (ps ! j, null_ptr, h') \<and>
     ok h' (cnt (ps[i := ps ! j, j := null_ptr]))"
proof -
  obtain h1 where h1: "ref_if_not_null dec (ps ! i) h = Some h1" "ok h1 (cnt (ps[i := null_ptr]))"
    using drop_ok [OF assms(1,2,5)] by blast
  have "ps[i := ps ! j, j := null_ptr] = ps[i := null_ptr, i := ps ! j, j := ps[i := null_ptr] ! i]"
    using assms(2,4) by simp
  then have "cnt (ps[i := ps ! j, j := null_ptr]) = cnt (ps[i := null_ptr])"
    using cnt_swap [of i "ps[i := null_ptr]" j] assms(2-4) by simp
  then show ?thesis using h1 by (simp add: move_construct_from_def)
qed

end

interpretation strong: counted_refs Acquire Release "\<lambda>h n. heap_ok h n nw \<and> (\<forall>rc. nw rc + 2 < 2 ^ 32)" for nw
proof
  fix h n rc
  assume "heap_ok h n nw \<and> (\<forall>rc. nw rc + 2 < 2 ^ 32)" "0 < n rc" "n rc + 2 < 2 ^ 32"
  then show "\<exists>h'. Acquire rc h = Some h' \<and> heap_ok h' (n(rc := n rc + 1)) nw \<and> (\<forall>rc. nw rc + 2 < 2 ^ 32)"
    "\<exists>h'. Release rc h = Some h' \<and> heap_ok h' (n(rc := n rc - 1)) nw \<and> (\<forall>rc. nw rc + 2 < 2 ^ 32)"
    using Acquire_ok [of h n nw rc] Release_ok [of h n nw rc] add_lessD1 [of "nw rc + 1" 1 "2 ^ 32"] by auto
qed

interpretation weak: counted_refs Follow Unfollow "\<lambda>h n. heap_ok h ns n" for ns
proof
  fix h n rc
  assume "heap_ok h ns n" "0 < n rc" "n rc + 2 < 2 ^ 32"
  then show "\<exists>h'. Follow rc h = Some h' \<and> heap_ok h' ns (n(rc := n rc + 1))"
    "\<exists>h'. Unfollow rc h = Some h' \<and> heap_ok h' ns (n(rc := n rc - 1))"
    using Follow_ok [of h ns n rc] Unfollow_ok [of h ns n rc] by auto
qed

section \<open>Value pointers\<close>

text \<open>No operation changes which object a control block is for.\<close>

definition keeps :: "heap \<Rightarrow> heap \<Rightarrow> bool" where
  "keeps h h' \<longleftrightarrow> (\<forall>rc b'. counters h' rc = Some b' \<longrightarrow> (\<exists>b. counters h rc = Some b \<and> rc_ptr b' = rc_ptr b))"

lemma keeps_refl [simp]: "keeps h h" by (simp add: keeps_def)

lemma keeps_trans: "keeps h1 h2 \<Longrightarrow> keeps h2 h3 \<Longrightarrow> keeps h1 h3"
  unfolding keeps_def by metis

lemma keeps_counters: "counters h rc = Some b \<Longrightarrow> rc_ptr b' = rc_ptr b \<Longrightarrow> keeps h (put_rc rc b' h)"
  by (simp add: keeps_def put_rc_def)

lemma keeps_destroy: "destroy_object rc h = Some h' \<Longrightarrow> keeps h h'"
  by (auto simp: destroy_object_def apply_destroy_def keeps_def split: option.splits if_splits destroy_policy.splits)

lemma keeps_delete: "delete_this rc h = Some h' \<Longrightarrow> keeps h h'"
  by (auto simp: delete_this_def apply_delete_def free_joint_def keeps_def Let_def
      split: option.splits if_splits delete_policy.splits)

lemma keeps_put:
  "counters h rc = Some b \<Longrightarrow> keeps (put_rc rc (b\<lparr>m_strong_counter := n\<rparr>) h) h' \<Longrightarrow> keeps h h'"
  "counters h rc = Some b \<Longrightarrow> keeps (put_rc rc (b\<lparr>m_weak_counter := n\<rparr>) h) h' \<Longrightarrow> keeps h h'"
  by (rule keeps_trans [OF keeps_counters]; simp)+

lemma keeps_Unfollow: "Unfollow rc h = Some h' \<Longrightarrow> keeps h h'"
  unfolding Unfollow_def Let_def
  by (auto split: option.splits if_splits intro: keeps_counters dest!: keeps_delete dest: keeps_put)

lemma keeps_Release: "Release rc h = Some h' \<Longrightarrow> keeps h h'"
  unfolding Release_def Let_def
  by (auto split: option.splits if_splits bind_splits intro: keeps_counters
      dest!: keeps_Unfollow keeps_destroy dest: keeps_put keeps_trans)

lemma keeps_Acquire: "Acquire rc h = Some h' \<Longrightarrow> keeps h h'"
  by (auto simp: Acquire_def split: option.splits intro: keeps_counters)

lemma keeps_Follow: "Follow rc h = Some h' \<Longrightarrow> keeps h h'"
  by (auto simp: Follow_def split: option.splits intro: keeps_counters)

definition keeping :: "(addr \<Rightarrow> heap \<Rightarrow> heap option) \<Rightarrow> bool" where
  "keeping f \<longleftrightarrow> (\<forall>rc h h'. f rc h = Some h' \<longrightarrow> keeps h h')"

lemma keeping_ops: "keeping Acquire" "keeping Release" "keeping Follow" "keeping Unfollow"
  by (auto simp: keeping_def intro: keeps_Acquire keeps_Release keeps_Follow keeps_Unfollow)

lemma keeps_ref: "keeping f \<Longrightarrow> ref_if_not_null f p h = Some h' \<Longrightarrow> keeps h h'"
  by (auto simp: ref_if_not_null_def keeping_def split: option.splits)

definition val_ok :: "heap \<Rightarrow> rptr \<Rightarrow> bool" where
  "val_ok h p =
     (case m_ref_counter p of None \<Rightarrow> m_value_ptr p = None
      | Some rc \<Rightarrow> \<forall>b. counters h rc = Some b \<longrightarrow> m_value_ptr p = Some (rc_ptr b))"

lemma val_ok_keeps: "val_ok h p \<Longrightarrow> keeps h h' \<Longrightarrow> val_ok h' p"
  unfolding val_ok_def keeps_def by (auto split: option.splits) metis

lemma val_ok_null [simp]: "val_ok h null_ptr"
  by (simp add: val_ok_def null_ptr_def)

definition sp_inv :: "world \<Rightarrow> bool" where
  "sp_inv w \<longleftrightarrow> heap_ok (hp w) (cnt (shared w)) (cnt (weak w)) \<and>
     list_all (val_ok (hp w)) (shared w) \<and> list_all (val_ok (hp w)) (weak w) \<and>
     length (shared w) + 3 < 2 ^ 32 \<and> length (weak w) + 3 < 2 ^ 32"

lemma sp_invD:
  assumes "sp_inv w"
  shows "heap_ok (hp w) (cnt (shared w)) (cnt (weak w))"
    and "i < length (shared w) \<Longrightarrow> val_ok (hp w) (shared w ! i)"
    and "i < length (weak w) \<Longrightarrow> val_ok (hp w) (weak w ! i)"
    and "length (shared w) + 3 < 2 ^ 32" "length (weak w) + 3 < 2 ^ 32"
  using assms by (auto simp: sp_inv_def list_all_length)

lemma weak_bound:
  assumes "sp_inv w"
  shows "\<forall>rc. cnt (weak w) rc + 2 < 2 ^ 32"
proof
  fix rc show "cnt (weak w) rc + 2 < 2 ^ 32"
    using sp_invD(5) [OF assms] cnt_le [of "weak w" rc] by linarith
qed

lemma sp_inv_shared:
  assumes w: "sp_inv w" and k: "keeps (hp w) h'" and v: "val_ok h' p"
    and h: "heap_ok h' (cnt ((shared w)[i := p])) (cnt (weak w))"
  shows "sp_inv (w\<lparr>hp := h', shared := (shared w)[i := p]\<rparr>)"
  using w h v val_ok_keeps [OF _ k] unfolding sp_inv_def
  by (auto simp: list_all_iff dest!: set_update_subset_insert [THEN subsetD])

lemma sp_inv_weak:
  assumes w: "sp_inv w" and k: "keeps (hp w) h'" and v: "val_ok h' p"
    and h: "heap_ok h' (cnt (shared w)) (cnt ((weak w)[i := p]))"
  shows "sp_inv (w\<lparr>hp := h', weak := (weak w)[i := p]\<rparr>)"
  using w h v val_ok_keeps [OF _ k] unfolding sp_inv_def
  by (auto simp: list_all_iff dest!: set_update_subset_insert [THEN subsetD])

end
