(* ===== verification/Shared_Ptr_Spec.thy ===== *)
theory Shared_Ptr_Spec
  imports Shared_Ptr_Inv
begin

text \<open>
  Programs over \<^verbatim>\<open>shared_ptr\<close> and \<^verbatim>\<open>weak_ptr\<close> variables: every operation keeps the invariant, so there are
  no dangling owners and no leaks; and the race in \<^verbatim>\<open>weak_ptr::lock\<close>.
\<close>

section \<open>Every operation keeps the invariant\<close>

definition creates :: "world \<Rightarrow> rptr \<Rightarrow> heap \<Rightarrow> bool" where
  "creates w tmp h \<longleftrightarrow> heap_ok h (cnt (shared w @ [tmp])) (cnt (weak w)) \<and> val_ok h tmp \<and>
     list_all (val_ok h) (shared w) \<and> list_all (val_ok h) (weak w)"

lemma cnt_snoc_Some: "m_ref_counter p = Some rc \<Longrightarrow> cnt (ps @ [p]) = (cnt ps)(rc := cnt ps rc + 1)"
  by (auto simp: cnt_def fun_eq_iff)

lemma val_ok_fresh:
  assumes "val_ok h p" "cnt ps rc = 0" "p \<in> set ps"
    and "\<And>rc' b. rc' \<noteq> rc \<Longrightarrow> counters h2 rc' = Some b \<Longrightarrow> counters h rc' = Some b"
  shows "val_ok h2 p"
proof (cases "m_ref_counter p")
  case (Some rc')
  then have "rc' \<noteq> rc" using assms(2,3) cnt_pos_iff [of ps rc] by auto
  then show ?thesis using assms(1,4) Some by (auto simp: val_ok_def)
qed (use assms(1) in \<open>simp add: val_ok_def\<close>)

lemma new_block_creates:
  assumes w: "sp_inv w" and dp: "(dp \<noteq> DestroyObjectWithDeleter) =
      (xp \<in> {DestroyItselfAndDeleteAll, DestroyItselfAndDeallocateAll})"
    and a: "new_obj (hp w) = (a, h1)" and nb: "new_block a dp xp h1 = (rc, h2)"
  shows "creates w \<lparr>m_value_ptr = Some a, m_ref_counter = Some rc\<rparr> h2"
proof -
  note n = new_block_ok [OF sp_invD(1) [OF w] dp a nb]
  have old: "counters (hp w) rc' = Some b" if "rc' \<noteq> rc" "counters h2 rc' = Some b" for rc' b
    using that a nb by (auto simp: new_obj_def new_block_def put_rc_def Let_def)
  have "val_ok h2 p" if "p \<in> set (shared w) \<union> set (weak w)" for p
    using that w n(2,3) old val_ok_fresh [of "hp w" p "shared w" rc h2] val_ok_fresh [of "hp w" p "weak w" rc h2]
    by (auto simp: sp_inv_def list_all_iff)
  then show ?thesis
    using n(1,2,7) cnt_snoc_Some [of "\<lparr>m_value_ptr = Some a, m_ref_counter = Some rc\<rparr>" rc "shared w"]
    by (auto simp: creates_def val_ok_def list_all_iff)
qed

lemma move_in_ok:
  assumes w: "sp_inv w" and c: "creates w tmp h" and i: "i < length (shared w)"
  shows "\<exists>w'. move_in i tmp h w = Some w' \<and> sp_inv w' \<and> length (shared w') = length (shared w) \<and> weak w' = weak w"
proof -
  let ?ps = "shared w @ [tmp]" and ?j = "length (shared w)"
  have ok: "heap_ok h (cnt ?ps) (cnt (weak w)) \<and> (\<forall>rc. cnt (weak w) rc + 2 < 2 ^ 32)"
    using c weak_bound [OF w] by (simp add: creates_def)
  obtain h' where h': "move_construct_from Release (shared w ! i) tmp h = Some (tmp, null_ptr, h')"
    "heap_ok h' (cnt (?ps[i := tmp, ?j := null_ptr])) (cnt (weak w))"
    using strong.move_ok [OF ok, of i ?j] i sp_invD(4) [OF w] by (auto simp: nth_append)
  have ps: "?ps[i := tmp, ?j := null_ptr] = (shared w)[i := tmp] @ [null_ptr]"
    using i by (simp add: list_update_append)
  have k: "keeps h h'"
    using h'(1) keeps_ref [OF keeping_ops(2)] by (auto simp: move_construct_from_def split: bind_splits)
  let ?w = "w\<lparr>hp := h', shared := (shared w)[i := tmp]\<rparr>"
  have "move_in i tmp h w = Some ?w"
    using h'(1) i by (simp add: move_in_def reset_ptr_def ref_if_not_null_def null_ptr_def)
  moreover have "sp_inv ?w"
    using h'(2) w c k ps val_ok_keeps [OF _ k] unfolding sp_inv_def creates_def
    by (auto simp: list_all_iff null_ptr_def dest!: set_update_subset_insert [THEN subsetD])
  ultimately show ?thesis by auto
qed

text \<open>An operation of a program with \<open>s\<close> \<^verbatim>\<open>shared_ptr\<close> and \<open>k\<close> \<^verbatim>\<open>weak_ptr\<close> variables: the variables exist, and
  there are not so many of them that a 32-bit counter could overflow.\<close>

fun op_fits :: "sp_op \<Rightarrow> nat \<Rightarrow> nat \<Rightarrow> bool" where
  "op_fits Declare_shared s k = (s + 4 < 2 ^ 32)"
| "op_fits Declare_weak s k = (k + 4 < 2 ^ 32)"
| "op_fits (Reset_new i) s k = (i < s)"
| "op_fits (Reset_alloc i) s k = (i < s)"
| "op_fits (Assign_make_shared i) s k = (i < s)"
| "op_fits (Assign_allocate_shared i) s k = (i < s)"
| "op_fits (Copy_shared i j) s k = (i < s \<and> j < s)"
| "op_fits (Move_shared i j) s k = (i < s \<and> j < s)"
| "op_fits (Swap_shared i j) s k = (i < s \<and> j < s)"
| "op_fits (Reset_shared i) s k = (i < s)"
| "op_fits (Weak_from_shared i j) s k = (i < k \<and> j < s)"
| "op_fits (Copy_weak i j) s k = (i < k \<and> j < k)"
| "op_fits (Move_weak i j) s k = (i < k \<and> j < k)"
| "op_fits (Reset_weak i) s k = (i < k)"
| "op_fits (Lock i j) s k = (i < s \<and> j < k)"

fun vars_after :: "sp_op \<Rightarrow> nat \<times> nat \<Rightarrow> nat \<times> nat" where
  "vars_after Declare_shared (s, k) = (Suc s, k)"
| "vars_after Declare_weak (s, k) = (s, Suc k)"
| "vars_after _ (s, k) = (s, k)"

abbreviation vars :: "world \<Rightarrow> nat \<times> nat" where
  "vars w \<equiv> (length (shared w), length (weak w))"

text \<open>The four ways to create an owner.\<close>

lemma create_exec:
  assumes w: "sp_inv w" and i: "i < length (shared w)"
    and c: "c \<in> {Reset_alloc i, Assign_make_shared i, Assign_allocate_shared i}"
  shows "\<exists>w'. exec c w = Some w' \<and> sp_inv w' \<and> vars w' = vars w"
proof -
  obtain a h1 where a: "new_obj (hp w) = (a, h1)" by force
  have "\<exists>w'. (let (rc, h2) = new_block a dp xp h1 in
        move_in i \<lparr>m_value_ptr = Some a, m_ref_counter = Some rc\<rparr> h2 w) = Some w' \<and> sp_inv w' \<and> vars w' = vars w"
    if "(dp \<noteq> DestroyObjectWithDeleter) = (xp \<in> {DestroyItselfAndDeleteAll, DestroyItselfAndDeallocateAll})"
    for dp xp
  proof -
    obtain rc h2 where nb: "new_block a dp xp h1 = (rc, h2)" by force
    show ?thesis using move_in_ok [OF w new_block_creates [OF w that a nb] i] nb by auto
  qed
  from this [of DestroyObjectWithDeleter DeallocateItself]
    this [of DestroyObjectInPlace DestroyItselfAndDeleteAll]
    this [of DestroyObjectWithAllocator DestroyItselfAndDeallocateAll] c a
  show ?thesis
    by (auto simp: shared_with_alloc_def allocate_ref_counter_impl_def make_shared_def allocate_shared_def
        Let_def split_def)
qed

lemma reset_new_exec:
  assumes w: "sp_inv w" and i: "i < length (shared w)"
  shows "\<exists>w'. exec (Reset_new i) w = Some w' \<and> sp_inv w' \<and> vars w' = vars w"
proof -
  obtain a h1 where a: "new_obj (hp w) = (a, h1)" by force
  obtain rc h2 where nb: "new_block a DestroyObjectWithDeleter DeleteItself h1 = (rc, h2)" by force
  let ?tmp = "\<lparr>m_value_ptr = Some a, m_ref_counter = Some rc\<rparr>"
  have c: "creates w ?tmp h2" by (rule new_block_creates [OF w _ a nb]) simp
  let ?p = "shared w ! i" and ?j = "length (shared w)"
  let ?ps = "(shared w)[i := ?tmp] @ [?p]"
  have "cnt ?ps = cnt (shared w @ [?tmp])"
    using cnt_swap [of i "shared w @ [?tmp]" ?j] i by (simp add: list_update_append nth_append)
  then have "heap_ok h2 (cnt ?ps) (cnt (weak w)) \<and> (\<forall>rc. cnt (weak w) rc + 2 < 2 ^ 32)"
    using c weak_bound [OF w] by (simp add: creates_def)
  from strong.reset_ok [OF this, of ?j] sp_invD(4) [OF w]
  obtain h3 where h3: "reset_ptr Release ?p h2 = Some (null_ptr, h3)"
    "heap_ok h3 (cnt ((shared w)[i := ?tmp] @ [null_ptr])) (cnt (weak w))"
    by (auto simp: nth_append list_update_append)
  have k: "keeps h2 h3"
    using h3(1) keeps_ref [OF keeping_ops(2)] by (auto simp: reset_ptr_def split: bind_splits)
  let ?w = "w\<lparr>hp := h3, shared := (shared w)[i := ?tmp]\<rparr>"
  have "exec (Reset_new i) w = Some ?w"
    using a nb h3(1) i by (simp add: shared_from_raw_def make_ref_counter_def)
  moreover have "sp_inv ?w"
    using h3(2) w c val_ok_keeps [OF _ k] unfolding sp_inv_def creates_def
    by (auto simp: list_all_iff null_ptr_def dest!: set_update_subset_insert [THEN subsetD])
  ultimately show ?thesis by auto
qed

lemma keeps_copy:
  assumes "copy_construct_from f g p q h = Some (p', h')"
    and "keeping f" "keeping g"
  shows "keeps h h'"
  using assms(1) keeps_ref [OF assms(2)] keeps_ref [OF assms(3)]
  by (auto simp: copy_construct_from_def Let_def split: bind_splits) (blast intro: keeps_trans)

lemma keeps_move:
  assumes "move_construct_from g p q h = Some (p', q', h')" "keeping g"
  shows "keeps h h'"
  using assms(1) keeps_ref [OF assms(2)] by (auto simp: move_construct_from_def split: bind_splits)

lemma keeps_reset:
  assumes "reset_ptr g p h = Some (p', h')" "keeping g"
  shows "keeps h h'"
  using assms(1) keeps_ref [OF assms(2)] by (auto simp: reset_ptr_def split: bind_splits)

lemma shared_exec:
  assumes w: "sp_inv w" and i: "i < length (shared w)" "j < length (shared w)"
    and c: "c \<in> {Copy_shared i j, Move_shared i j, Swap_shared i j, Reset_shared i}"
  shows "\<exists>w'. exec c w = Some w' \<and> sp_inv w' \<and> vars w' = vars w"
proof -
  let ?ps = "shared w"
  have ok: "heap_ok (hp w) (cnt ?ps) (cnt (weak w)) \<and> (\<forall>rc. cnt (weak w) rc + 2 < 2 ^ 32)"
    using sp_invD(1) [OF w] weak_bound [OF w] by simp
  have len: "length ?ps + 2 < 2 ^ 32" using sp_invD(4) [OF w] by linarith
  consider "c = Reset_shared i" | "c = Swap_shared i j" | "i = j" "c = Copy_shared i j \<or> c = Move_shared i j"
    | "i \<noteq> j" "c = Copy_shared i j" | "i \<noteq> j" "c = Move_shared i j"
    using c by auto
  then show ?thesis
  proof cases
    case 1
    obtain h' where h': "reset_ptr Release (?ps ! i) (hp w) = Some (null_ptr, h')"
      "heap_ok h' (cnt (?ps[i := null_ptr])) (cnt (weak w))"
      using strong.reset_ok [OF ok i(1) len] by blast
    then show ?thesis
      using 1 i sp_inv_shared [OF w keeps_reset [OF h'(1) keeping_ops(2)], of null_ptr i] by simp
  next
    case 2
    have "set (?ps[i := ?ps ! j, j := ?ps ! i]) \<subseteq> set ?ps"
      using i by (auto dest!: set_update_subset_insert [THEN subsetD])
    then show ?thesis using 2 i w cnt_swap [OF i] by (auto simp: sp_inv_def list_all_iff)
  next
    case 3
    then show ?thesis using i w by auto
  next
    case 4
    obtain h' where h': "copy_construct_from Acquire Release (?ps ! i) (?ps ! j) (hp w) = Some (?ps ! j, h')"
      "heap_ok h' (cnt (?ps[i := ?ps ! j])) (cnt (weak w))"
      using strong.copy_ok [OF ok i 4(1) len] by blast
    note k = keeps_copy [OF h'(1) keeping_ops(1,2)]
    show ?thesis
      using 4 i h' sp_inv_shared [OF w k val_ok_keeps [OF sp_invD(2) [OF w i(2)] k] h'(2)] by simp
  next
    case 5
    obtain h' where h': "move_construct_from Release (?ps ! i) (?ps ! j) (hp w) = Some (?ps ! j, null_ptr, h')"
      "heap_ok h' (cnt (?ps[i := ?ps ! j, j := null_ptr])) (cnt (weak w))"
      using strong.move_ok [OF ok i 5(1) len] by blast
    note k = keeps_move [OF h'(1) keeping_ops(2)]
    have "sp_inv (w\<lparr>hp := h', shared := ?ps[i := ?ps ! j, j := null_ptr]\<rparr>)"
      using w h'(2) i val_ok_keeps [OF _ k] unfolding sp_inv_def
      by (auto simp: list_all_iff dest!: set_update_subset_insert [THEN subsetD])
    then show ?thesis using 5 i h'(1) by simp
  qed
qed

lemma weak_exec:
  assumes w: "sp_inv w" and i: "i < length (weak w)" "j < length (weak w)"
    and c: "c \<in> {Copy_weak i j, Move_weak i j, Reset_weak i}"
  shows "\<exists>w'. exec c w = Some w' \<and> sp_inv w' \<and> vars w' = vars w"
proof -
  let ?ps = "weak w"
  note ok = sp_invD(1) [OF w]
  have len: "length ?ps + 2 < 2 ^ 32" using sp_invD(5) [OF w] by linarith
  consider "c = Reset_weak i" | "i = j" "c = Copy_weak i j \<or> c = Move_weak i j"
    | "i \<noteq> j" "c = Copy_weak i j" | "i \<noteq> j" "c = Move_weak i j"
    using c by auto
  then show ?thesis
  proof cases
    case 1
    obtain h' where h': "reset_ptr Unfollow (?ps ! i) (hp w) = Some (null_ptr, h')"
      "heap_ok h' (cnt (shared w)) (cnt (?ps[i := null_ptr]))"
      using weak.reset_ok [OF ok i(1) len] by blast
    then show ?thesis
      using 1 i sp_inv_weak [OF w keeps_reset [OF h'(1) keeping_ops(4)], of null_ptr i] by simp
  next
    case 2
    then show ?thesis using i w by auto
  next
    case 3
    obtain h' where h': "copy_construct_from Follow Unfollow (?ps ! i) (?ps ! j) (hp w) = Some (?ps ! j, h')"
      "heap_ok h' (cnt (shared w)) (cnt (?ps[i := ?ps ! j]))"
      using weak.copy_ok [OF ok i 3(1) len] by blast
    note k = keeps_copy [OF h'(1) keeping_ops(3,4)]
    show ?thesis
      using 3 i h' sp_inv_weak [OF w k val_ok_keeps [OF sp_invD(3) [OF w i(2)] k] h'(2)] by simp
  next
    case 4
    obtain h' where h': "move_construct_from Unfollow (?ps ! i) (?ps ! j) (hp w) = Some (?ps ! j, null_ptr, h')"
      "heap_ok h' (cnt (shared w)) (cnt (?ps[i := ?ps ! j, j := null_ptr]))"
      using weak.move_ok [OF ok i 4(1) len] by blast
    note k = keeps_move [OF h'(1) keeping_ops(4)]
    have "sp_inv (w\<lparr>hp := h', weak := ?ps[i := ?ps ! j, j := null_ptr]\<rparr>)"
      using w h'(2) i val_ok_keeps [OF _ k] unfolding sp_inv_def
      by (auto simp: list_all_iff dest!: set_update_subset_insert [THEN subsetD])
    then show ?thesis using 4 i h'(1) by simp
  qed
qed

text \<open>A weak reference taken from an owner.\<close>

lemma weak_from_shared_exec:
  assumes w: "sp_inv w" and i: "i < length (weak w)" and j: "j < length (shared w)"
  shows "\<exists>w'. exec (Weak_from_shared i j) w = Some w' \<and> sp_inv w' \<and> vars w' = vars w"
proof -
  let ?q = "shared w ! j" and ?ps = "weak w @ [shared w ! j]" and ?l = "length (weak w)"
  have "\<exists>h1. copy_construct_from Follow Unfollow null_ptr ?q (hp w) = Some (?q, h1) \<and>
      heap_ok h1 (cnt (shared w)) (cnt ?ps)"
  proof (cases "m_ref_counter ?q")
    case None
    then show ?thesis
      using sp_invD(1) [OF w] by (simp add: copy_construct_from_def ref_if_not_null_def null_ptr_def)
  next
    case (Some rc)
    have "cnt (weak w) rc + 2 < 2 ^ 32" using weak_bound [OF w] by blast
    then show ?thesis
      using Follow_ok [OF sp_invD(1) [OF w], of rc] cnt_pos [OF j Some] Some cnt_snoc_Some [OF Some, of "weak w"]
      by (auto simp: copy_construct_from_def ref_if_not_null_def null_ptr_def)
  qed
  then obtain h1 where h1: "copy_construct_from Follow Unfollow null_ptr ?q (hp w) = Some (?q, h1)"
    "heap_ok h1 (cnt (shared w)) (cnt ?ps)" by blast
  obtain h2 where h2: "move_construct_from Unfollow (weak w ! i) ?q h1 = Some (?q, null_ptr, h2)"
    "heap_ok h2 (cnt (shared w)) (cnt (?ps[i := ?q, ?l := null_ptr]))"
    using weak.move_ok [OF h1(2), of i ?l] i sp_invD(5) [OF w] by (auto simp: nth_append)
  have ps: "?ps[i := ?q, ?l := null_ptr] = (weak w)[i := ?q] @ [null_ptr]" using i by (simp add: list_update_append)
  have k: "keeps (hp w) h2"
    using keeps_trans [OF keeps_copy [OF h1(1) keeping_ops(3,4)] keeps_move [OF h2(1) keeping_ops(4)]] .
  have "exec (Weak_from_shared i j) w = Some (w\<lparr>hp := h2, weak := (weak w)[i := ?q]\<rparr>)"
    using i j h1(1) h2(1) by (simp add: reset_ptr_def ref_if_not_null_def null_ptr_def)
  then show ?thesis
    using sp_inv_weak [OF w k val_ok_keeps [OF sp_invD(2) [OF w j] k], of i] h2(2) ps
    by (simp add: null_ptr_def)
qed

lemma lock_creates:
  assumes w: "sp_inv w" and j: "j < length (weak w)"
  shows "\<exists>tmp h. lock_ptr (weak w ! j) (hp w) = Some (tmp, h) \<and> creates w tmp h \<and>
     tmp = (if \<exists>p\<in>set (shared w). \<exists>rc. m_ref_counter p = Some rc \<and> m_ref_counter (weak w ! j) = Some rc
            then weak w ! j else null_ptr)"
proof (cases "m_ref_counter (weak w ! j)")
  case None
  then show ?thesis
    using w by (auto simp: lock_ptr_def expired_def use_count_def creates_def sp_inv_def null_ptr_def
        copy_construct_from_def val_ok_def)
next
  case (Some rc)
  have nw: "0 < cnt (weak w) rc" using cnt_pos [OF j Some] .
  obtain b where b: "counters (hp w) rc = Some b" "block_ok (hp w) (cnt (shared w) rc) (cnt (weak w) rc) b"
    using heap_ok_block [OF sp_invD(1) [OF w], of rc] nw by blast
  have e: "expired (weak w ! j) (hp w) = Some (cnt (shared w) rc = 0)"
    using b Some by (simp add: expired_def use_count_def StrongRefsCount_def block_ok_def)
  have iff: "(\<exists>p\<in>set (shared w). \<exists>rc. m_ref_counter p = Some rc \<and> m_ref_counter (weak w ! j) = Some rc)
      \<longleftrightarrow> 0 < cnt (shared w) rc"
    using Some cnt_pos_iff [of "shared w" rc] by auto
  show ?thesis
  proof (cases "cnt (shared w) rc = 0")
    case True
    then show ?thesis unfolding iff using e w by (simp add: lock_ptr_def creates_def sp_inv_def null_ptr_def val_ok_def)
  next
    case False
    have "cnt (shared w) rc + 1 < 2 ^ 32" using cnt_le [of "shared w" rc] sp_invD(4) [OF w] by linarith
    then obtain h' where h': "Acquire rc (hp w) = Some h'"
      "heap_ok h' ((cnt (shared w))(rc := cnt (shared w) rc + 1)) (cnt (weak w))"
      using Acquire_ok [OF sp_invD(1) [OF w], of rc] False by auto
    have k: "keeps (hp w) h'" by (rule keeps_Acquire [OF h'(1)])
    have "lock_ptr (weak w ! j) (hp w) = Some (weak w ! j, h')"
      using e False h'(1) Some
      by (simp add: lock_ptr_def copy_construct_from_def ref_if_not_null_def null_ptr_def)
    moreover have "creates w (weak w ! j) h'"
      using h'(2) cnt_snoc_Some [OF Some, of "shared w"] w j val_ok_keeps [OF _ k]
      by (auto simp: creates_def sp_inv_def list_all_iff)
    ultimately show ?thesis unfolding iff using False by auto
  qed
qed

lemma exec_ok:
  assumes w: "sp_inv w" and f: "op_fits c (length (shared w)) (length (weak w))"
  shows "\<exists>w'. exec c w = Some w' \<and> sp_inv w' \<and> vars w' = vars_after c (vars w)"
proof (cases c)
  case Declare_shared
  then show ?thesis using w f by (simp add: sp_inv_def null_ptr_def val_ok_def)
next
  case Declare_weak
  then show ?thesis using w f by (simp add: sp_inv_def null_ptr_def val_ok_def)
next
  case (Lock i j)
  then have ij: "i < length (shared w)" "j < length (weak w)" using f by auto
  obtain tmp h where t: "lock_ptr (weak w ! j) (hp w) = Some (tmp, h)" "creates w tmp h"
    using lock_creates [OF w ij(2)] by blast
  show ?thesis using move_in_ok [OF w t(2) ij(1)] t(1) ij Lock by auto
qed (use f create_exec [OF w] reset_new_exec [OF w] shared_exec [OF w] weak_exec [OF w]
      weak_from_shared_exec [OF w] in \<open>auto simp del: exec.simps\<close>)

section \<open>Properties\<close>

fun prog_fits :: "sp_op list \<Rightarrow> nat \<times> nat \<Rightarrow> bool" where
  "prog_fits [] v = True"
| "prog_fits (c # cs) v = (op_fits c (fst v) (snd v) \<and> prog_fits cs (vars_after c v))"

lemma run_ok:
  assumes "sp_inv w" "prog_fits cs (vars w)"
  shows "\<exists>w'. run cs w = Some w' \<and> sp_inv w'"
  using assms
proof (induction cs arbitrary: w)
  case (Cons c cs)
  then obtain w1 where "exec c w = Some w1" "sp_inv w1" "vars w1 = vars_after c (vars w)"
    using exec_ok [OF Cons.prems(1), of c] by auto
  then show ?case using Cons by simp
qed simp

lemma empty_world_inv: "sp_inv empty_world"
  by (simp add: sp_inv_def empty_world_def heap_ok_def cnt_def)

text \<open>
  C11: Every program over \<^verbatim>\<open>shared_ptr\<close> and \<^verbatim>\<open>weak_ptr\<close> variables runs without undefined behaviour (no
  freed control block is touched, no object is destroyed twice, no storage is freed twice), and it
  keeps the invariant that both counters of every control block count its references.
\<close>

theorem shared_programs_safe:
  assumes "prog_fits cs (0, 0)"
  shows "\<exists>w. run cs empty_world = Some w \<and> sp_inv w"
  using run_ok [OF empty_world_inv, of cs] assms by (simp add: empty_world_def)

definition demo_prog :: "sp_op list" where
  "demo_prog = [Declare_shared, Declare_shared, Declare_weak, Assign_make_shared 0, Copy_shared 1 0,
     Weak_from_shared 0 1, Reset_shared 0, Reset_new 0, Reset_shared 1, Lock 1 0]"

theorem shared_programs_safe_witness:
  "\<exists>w. run demo_prog empty_world = Some w \<and> sp_inv w"
  by (rule shared_programs_safe) (simp add: demo_prog_def)

text \<open>What the invariant says of objects and blocks.\<close>

lemma inv_owners:
  assumes "sp_inv w"
  shows "(objs (hp w) a = Some Alive \<longleftrightarrow> (\<exists>p\<in>set (shared w). m_value_ptr p = Some a)) \<and>
     (counters (hp w) rc \<noteq> None \<longleftrightarrow>
        (\<exists>p\<in>set (shared w) \<union> set (weak w). m_ref_counter p = Some rc)) \<and>
     (objs (hp w) a \<noteq> None \<longrightarrow> (\<exists>rc b. counters (hp w) rc = Some b \<and> rc_ptr b = a))"
proof (intro conjI)
  note h = sp_invD(1) [OF assms]
  have v: "val_ok (hp w) p" if "p \<in> set (shared w)" for p
    using assms that by (auto simp: sp_inv_def list_all_iff)
  show "objs (hp w) a = Some Alive \<longleftrightarrow> (\<exists>p\<in>set (shared w). m_value_ptr p = Some a)"
  proof
    assume a: "objs (hp w) a = Some Alive"
    then obtain rc b where b: "counters (hp w) rc = Some b" "rc_ptr b = a" using heap_okD(5) [OF h, of a] by auto
    then have "0 < cnt (shared w) rc"
      using heap_okD(2) [OF h b(1)] a by (auto simp: block_ok_def split: if_splits)
    then obtain p where p: "p \<in> set (shared w)" "m_ref_counter p = Some rc" by (auto simp: cnt_pos_iff)
    then show "\<exists>p\<in>set (shared w). m_value_ptr p = Some a" using v [OF p(1)] b by (auto simp: val_ok_def)
  next
    assume "\<exists>p\<in>set (shared w). m_value_ptr p = Some a"
    then obtain p where p: "p \<in> set (shared w)" "m_value_ptr p = Some a" by blast
    then obtain rc where rc: "m_ref_counter p = Some rc" using v [OF p(1)] by (auto simp: val_ok_def split: option.splits)
    then have pos: "0 < cnt (shared w) rc" using p(1) by (auto simp: cnt_pos_iff)
    then obtain b where b: "counters (hp w) rc = Some b" "block_ok (hp w) (cnt (shared w) rc) (cnt (weak w) rc) b"
      using heap_ok_block [OF h, of rc] by blast
    then show "objs (hp w) a = Some Alive" using v [OF p(1)] rc p(2) pos by (auto simp: val_ok_def block_ok_def)
  qed
  show "counters (hp w) rc \<noteq> None \<longleftrightarrow> (\<exists>p\<in>set (shared w) \<union> set (weak w). m_ref_counter p = Some rc)"
  proof -
    have "counters (hp w) rc \<noteq> None \<longleftrightarrow> 0 < cnt (shared w) rc \<or> 0 < cnt (weak w) rc"
      using heap_okD(1,2) [OF h, of rc] by (cases "counters (hp w) rc") (auto simp: block_ok_def split: if_splits)
    then show ?thesis by (auto simp: cnt_pos_iff)
  qed
  show "objs (hp w) a \<noteq> None \<longrightarrow> (\<exists>rc b. counters (hp w) rc = Some b \<and> rc_ptr b = a)"
    using heap_okD(5) [OF h] by blast
qed

text \<open>
  C12: No dangling owners and no leaks. After every program over \<^verbatim>\<open>shared_ptr\<close> and \<^verbatim>\<open>weak_ptr\<close>
  variables, run from the empty world, an object is alive exactly when some \<^verbatim>\<open>shared_ptr\<close> points to it
  (so the release of the last owner has destroyed it, and no earlier one), a control block
  exists exactly when some \<^verbatim>\<open>shared_ptr\<close> or \<^verbatim>\<open>weak_ptr\<close> refers to it, and a storage that is still
  occupied belongs to such a block. When all variables are null, nothing is allocated any more.
\<close>

theorem owners_and_objects:
  assumes "prog_fits cs (0, 0)"
  shows "\<exists>w. run cs empty_world = Some w \<and>
     (\<forall>a. objs (hp w) a = Some Alive \<longleftrightarrow> (\<exists>p\<in>set (shared w). m_value_ptr p = Some a)) \<and>
     (\<forall>rc. counters (hp w) rc \<noteq> None \<longleftrightarrow>
        (\<exists>p\<in>set (shared w) \<union> set (weak w). m_ref_counter p = Some rc)) \<and>
     (\<forall>a. objs (hp w) a \<noteq> None \<longrightarrow> (\<exists>rc b. counters (hp w) rc = Some b \<and> rc_ptr b = a)) \<and>
     (set (shared w) \<union> set (weak w) \<subseteq> {p. m_ref_counter p = None} \<longrightarrow>
        objs (hp w) = (\<lambda>_. None) \<and> counters (hp w) = (\<lambda>_. None))"
proof -
  obtain w where w: "run cs empty_world = Some w" "sp_inv w"
    using run_ok [OF empty_world_inv, of cs] assms by (auto simp: empty_world_def)
  have "objs (hp w) = (\<lambda>_. None) \<and> counters (hp w) = (\<lambda>_. None)"
    if none: "set (shared w) \<union> set (weak w) \<subseteq> {p. m_ref_counter p = None}"
  proof -
    have "counters (hp w) rc = None" for rc using inv_owners [OF w(2), of _ rc] none by fastforce
    moreover from this have "objs (hp w) a = None" for a using inv_owners [OF w(2), of a] by auto
    ultimately show ?thesis by blast
  qed
  then show ?thesis using w(1) inv_owners [OF w(2)] by blast
qed

text \<open>
  \<^verbatim>\<open>weak_ptr::lock\<close> gives an owner of the observed object exactly when an owner still exists, and a
  null pointer otherwise; it never touches a freed control block.
\<close>

theorem lock_gives_owner:
  assumes "sp_inv w" "j < length (weak w)"
  shows "\<exists>tmp h. lock_ptr (weak w ! j) (hp w) = Some (tmp, h) \<and>
     tmp = (if \<exists>p\<in>set (shared w). \<exists>rc. m_ref_counter p = Some rc \<and> m_ref_counter (weak w ! j) = Some rc
            then weak w ! j else null_ptr)"
  using lock_creates [OF assms] by blast

theorem lock_gives_owner_witness:
  "\<exists>w. run [Declare_weak] empty_world = Some w \<and> (\<exists>tmp h. lock_ptr (weak w ! 0) (hp w) = Some (tmp, h) \<and>
     tmp = (if \<exists>p\<in>set (shared w). \<exists>rc. m_ref_counter p = Some rc \<and> m_ref_counter (weak w ! 0) = Some rc
            then weak w ! 0 else null_ptr))"
proof -
  obtain w where w: "run [Declare_weak] empty_world = Some w" "sp_inv w"
    using run_ok [OF empty_world_inv, of "[Declare_weak]"] by (auto simp: empty_world_def)
  moreover have "0 < length (weak w)" using w(1) by auto
  ultimately show ?thesis using lock_gives_owner [of w 0] by blast
qed

section \<open>Locking a weak pointer while another thread releases the last owner\<close>

text \<open>
  The counters are atomic, but \<^verbatim>\<open>lock\<close> reads the strong counter (\<^verbatim>\<open>expired\<close>) and increments it in two
  steps. Two threads: one runs \<^verbatim>\<open>lock\<close>, the other drops the last \<^verbatim>\<open>shared_ptr\<close>.
\<close>

datatype lock_pc = Lock_check | Lock_acquire | Lock_done
datatype release_pc = Rel_dec | Rel_destroy | Rel_unfollow | Rel_done

record race =
  r_heap :: heap
  r_lock :: lock_pc
  r_rel :: release_pc
  r_result :: rptr

inductive race_step :: "rptr \<Rightarrow> addr \<Rightarrow> race \<Rightarrow> race \<Rightarrow> bool" for wptr rc where
  check: "r_lock r = Lock_check \<Longrightarrow> expired wptr (r_heap r) = Some e \<Longrightarrow>
     race_step wptr rc r (r\<lparr>r_lock := if e then Lock_done else Lock_acquire\<rparr>)"
| acquire: "r_lock r = Lock_acquire \<Longrightarrow>
     copy_construct_from Acquire Release null_ptr wptr (r_heap r) = Some (p, h) \<Longrightarrow>
     race_step wptr rc r (r\<lparr>r_heap := h, r_lock := Lock_done, r_result := p\<rparr>)"
| decrement: "r_rel r = Rel_dec \<Longrightarrow> counters (r_heap r) rc = Some b \<Longrightarrow> n = dec32 (m_strong_counter b) \<Longrightarrow>
     race_step wptr rc r (r\<lparr>r_heap := put_rc rc (b\<lparr>m_strong_counter := n\<rparr>) (r_heap r),
        r_rel := if n = 0 then Rel_destroy else Rel_done\<rparr>)"
| destroy: "r_rel r = Rel_destroy \<Longrightarrow> destroy_object rc (r_heap r) = Some h \<Longrightarrow>
     race_step wptr rc r (r\<lparr>r_heap := h, r_rel := Rel_unfollow\<rparr>)"
| unfollow: "r_rel r = Rel_unfollow \<Longrightarrow> Unfollow rc (r_heap r) = Some h \<Longrightarrow>
     race_step wptr rc r (r\<lparr>r_heap := h, r_rel := Rel_done\<rparr>)"

definition race_start :: "heap \<Rightarrow> race" where
  "race_start h = \<lparr>r_heap = h, r_lock = Lock_check, r_rel = Rel_dec, r_result = null_ptr\<rparr>"

text \<open>The world in which the race starts: one owner and one observer of an object.\<close>

definition race_world :: world where
  "race_world =
     (let p = \<lparr>m_value_ptr = Some 1, m_ref_counter = Some 2\<rparr>
      in \<lparr>hp = \<lparr>objs = (\<lambda>_. None)(1 := Some Alive),
                counters = (\<lambda>_. None)(2 := Some \<lparr>m_strong_counter = 1, m_weak_counter = 2, rc_ptr = 1,
                   DestroyObjectPolicy = DestroyObjectInPlace, DeleteItselfPolicy = DestroyItselfAndDeleteAll\<rparr>),
                next_addr = 3\<rparr>, shared = [p], weak = [p]\<rparr>)"

lemma race_world_run:
  "run [Declare_shared, Declare_weak, Assign_make_shared 0, Weak_from_shared 0 0] empty_world = Some race_world"
proof -
  have i: "inc32 (Suc 0) = Suc (Suc 0)" by (simp add: inc32_def)
  show ?thesis
    by (simp add: empty_world_def race_world_def make_shared_def new_obj_def new_block_def put_rc_def move_in_def
        move_construct_from_def reset_ptr_def ref_if_not_null_def null_ptr_def copy_construct_from_def Follow_def
        i Let_def numeral_2_eq_2 numeral_3_eq_3)
qed

lemma race_world_inv: "sp_inv race_world"
  using run_ok [OF empty_world_inv, of "[Declare_shared, Declare_weak, Assign_make_shared 0, Weak_from_shared 0 0]"]
  unfolding race_world_run by (simp add: empty_world_def)

theorem owners_and_objects_witness:
  "\<exists>w. run [Declare_shared, Declare_weak, Assign_make_shared 0, Weak_from_shared 0 0] empty_world = Some w \<and>
     objs (hp w) 1 = Some Alive \<and> (\<exists>p\<in>set (shared w). m_value_ptr p = Some 1) \<and>
     (\<exists>p\<in>set (shared w) \<union> set (weak w). m_ref_counter p = Some 2)"
proof -
  have "prog_fits [Declare_shared, Declare_weak, Assign_make_shared 0, Weak_from_shared 0 0] (0, 0)" by simp
  from owners_and_objects [OF this]
  obtain w where w: "run [Declare_shared, Declare_weak, Assign_make_shared 0, Weak_from_shared 0 0] empty_world = Some w"
    "\<forall>a. objs (hp w) a = Some Alive \<longleftrightarrow> (\<exists>p\<in>set (shared w). m_value_ptr p = Some a)"
    "\<forall>rc. counters (hp w) rc \<noteq> None \<longleftrightarrow> (\<exists>p\<in>set (shared w) \<union> set (weak w). m_ref_counter p = Some rc)"
    by blast
  then have "w = race_world" using race_world_run by simp
  then have "objs (hp w) 1 = Some Alive" "counters (hp w) 2 \<noteq> None" by (simp_all add: race_world_def Let_def)
  then show ?thesis using w by blast
qed

text \<open>
  C37: \<^verbatim>\<open>weak_ptr::lock\<close> is not atomic. When the last owner is released between its check and its
  increment, \<^verbatim>\<open>lock\<close> returns a \<^verbatim>\<open>shared_ptr\<close> that is not null and points to an object whose destructor
  has already run.
\<close>

theorem lock_race_resurrects:
  "\<exists>w r a. run [Declare_shared, Declare_weak, Assign_make_shared 0, Weak_from_shared 0 0] empty_world = Some w \<and>
     sp_inv w \<and> (race_step (weak w ! 0) 2)\<^sup>*\<^sup>* (race_start (hp w)) r \<and>
     r_lock r = Lock_done \<and> m_value_ptr (r_result r) = Some a \<and> objs (r_heap r) a \<noteq> Some Alive"
proof -
  let ?p = "\<lparr>m_value_ptr = Some 1, m_ref_counter = Some 2\<rparr>" and ?w = race_world
  let ?b = "\<lambda>n. \<lparr>m_strong_counter = n, m_weak_counter = 2, rc_ptr = 1,
     DestroyObjectPolicy = DestroyObjectInPlace, DeleteItselfPolicy = DestroyItselfAndDeleteAll\<rparr>"
  let ?h = "\<lambda>l n. \<lparr>objs = (\<lambda>_. None)(1 := Some l), counters = (\<lambda>_. None)(2 := Some (?b n)), next_addr = 3\<rparr>"
  let ?r = "\<lambda>l n k d q. \<lparr>r_heap = ?h l n, r_lock = k, r_rel = d, r_result = q\<rparr>"
  let ?R = "race_step ?p 2"
  have s0: "race_start (hp ?w) = ?r Alive 1 Lock_check Rel_dec null_ptr"
    by (simp add: race_start_def race_world_def Let_def)
  have s1: "?R (?r Alive 1 Lock_check Rel_dec null_ptr) (?r Alive 1 Lock_acquire Rel_dec null_ptr)"
    using race_step.check [of "?r Alive 1 Lock_check Rel_dec null_ptr" ?p False 2]
    by (simp add: expired_def use_count_def StrongRefsCount_def)
  have s2: "?R (?r Alive 1 Lock_acquire Rel_dec null_ptr) (?r Alive 0 Lock_acquire Rel_destroy null_ptr)"
    using race_step.decrement [of "?r Alive 1 Lock_acquire Rel_dec null_ptr" 2 "?b 1" 0 ?p]
    by (simp add: dec32_def put_rc_def)
  have s3: "?R (?r Alive 0 Lock_acquire Rel_destroy null_ptr) (?r Dead 0 Lock_acquire Rel_unfollow null_ptr)"
    using race_step.destroy [of "?r Alive 0 Lock_acquire Rel_destroy null_ptr" 2 "?h Dead 0" ?p]
    by (simp add: destroy_object_def apply_destroy_def)
  have s4: "?R (?r Dead 0 Lock_acquire Rel_unfollow null_ptr) (?r Dead 1 Lock_done Rel_unfollow ?p)"
    using race_step.acquire [of "?r Dead 0 Lock_acquire Rel_unfollow null_ptr" ?p ?p "?h Dead 1" 2]
    by (simp add: copy_construct_from_def ref_if_not_null_def null_ptr_def Acquire_def inc32_def put_rc_def)
  have "?R\<^sup>*\<^sup>* (race_start (hp ?w)) (?r Dead 1 Lock_done Rel_unfollow ?p)"
    unfolding s0 using s1 s2 s3 s4 by (meson rtranclp.rtrancl_into_rtrancl rtranclp.rtrancl_refl)
  moreover have "weak ?w ! 0 = ?p" by (simp add: race_world_def Let_def)
  moreover have "sp_inv ?w" by (rule race_world_inv)
  ultimately show ?thesis
    using race_world_run by (intro exI [of _ ?w] exI [of _ "?r Dead 1 Lock_done Rel_unfollow ?p"] exI [of _ 1]) simp
qed

end
