(* ===== verification/Exc_Memory.thy ===== *)
theory Exc_Memory
  imports Ktl_Prelude
begin

text \<open>
  The machine level of the exception runtime (\<^verbatim>\<open>runtime/src/exc_engine\<close>): bytes,
  addresses, little-endian reads, relative virtual addresses (\<^verbatim>\<open>rva.hpp\<close>), flag sets
  (\<^verbatim>\<open>flag_set.hpp\<close>) and the compressed integers of the \<^verbatim>\<open>__CxxFrameHandler4\<close> tables
  (\<^verbatim>\<open>read_unsigned\<close>, \<^verbatim>\<open>read_int\<close>, \<^verbatim>\<open>read_rva\<close>).

  Memory is a total function from 64-bit addresses to bytes. The executable image (the tables the
  compiler emitted, \<^verbatim>\<open>.pdata\<close>, \<^verbatim>\<open>.xdata\<close>, \<^verbatim>\<open>.rdata\<close>) is one such function, constant during
  an exception; the stack, which destructors may change, is another one, kept in the state.

  The functions \<open>encode_unsigned\<close> and \<open>nat_bytes\<close> are the reference encoder of the compressed
  format; \<open>read_unsigned_encode\<close> is the round trip.
\<close>

unbundle bit_operations_syntax

named_theorems read_simps \<open>evaluation of table reads\<close>

type_synonym addr = "64 word"
type_synonym u32 = "32 word"
type_synonym byte = "8 word"
type_synonym memory = "addr \<Rightarrow> byte"

section \<open>Little-endian reads\<close>

fun le_nat :: "byte list \<Rightarrow> nat" where
  "le_nat [] = 0"
| "le_nat (b # bs) = unat b + 256 * le_nat bs"

definition bytes_at :: "memory \<Rightarrow> addr \<Rightarrow> nat \<Rightarrow> byte list" where
  "bytes_at m a n = map (\<lambda>i. m (a + of_nat i)) [0..<n]"

definition rd16 :: "memory \<Rightarrow> addr \<Rightarrow> 16 word" where
  "rd16 m a = of_nat (le_nat (bytes_at m a 2))"

definition rd32 :: "memory \<Rightarrow> addr \<Rightarrow> u32" where
  "rd32 m a = of_nat (le_nat (bytes_at m a 4))"

definition rd64 :: "memory \<Rightarrow> addr \<Rightarrow> 64 word" where
  "rd64 m a = of_nat (le_nat (bytes_at m a 8))"

definition rd128 :: "memory \<Rightarrow> addr \<Rightarrow> 128 word" where
  "rd128 m a = of_nat (le_nat (bytes_at m a 16))"

fun nat_bytes :: "nat \<Rightarrow> nat \<Rightarrow> byte list" where
  "nat_bytes 0 v = []"
| "nat_bytes (Suc n) v = of_nat v # nat_bytes n (v div 256)"

text \<open>\<open>store_bytes m a bs\<close> writes the bytes at consecutive addresses (\<^verbatim>\<open>memcpy\<close>, pointer stores).\<close>

fun store_bytes :: "memory \<Rightarrow> addr \<Rightarrow> byte list \<Rightarrow> memory" where
  "store_bytes m a [] = m"
| "store_bytes m a (b # bs) = store_bytes (m(a := b)) (a + 1) bs"

definition wr64 :: "memory \<Rightarrow> addr \<Rightarrow> 64 word \<Rightarrow> memory" where
  "wr64 m a v = store_bytes m a (nat_bytes 8 (unat v))"

definition wr32 :: "memory \<Rightarrow> addr \<Rightarrow> u32 \<Rightarrow> memory" where
  "wr32 m a v = store_bytes m a (nat_bytes 4 (unat v))"

text \<open>Concrete memories: chunks of bytes, zero elsewhere.\<close>

definition mem_of :: "(addr \<times> byte list) list \<Rightarrow> memory" where
  "mem_of chunks = foldr (\<lambda>(a, bs) m. store_bytes m a bs) chunks (\<lambda>_. 0)"

section \<open>Relative virtual addresses\<close>

text \<open>An RVA is a 32-bit offset (\<^verbatim>\<open>offset_t\<close>); \<open>base + rva\<close> widens it.\<close>

definition rva_at :: "addr \<Rightarrow> u32 \<Rightarrow> addr" where
  "rva_at base rva = base + ucast rva"

text \<open>\<open>make_rva ptr base\<close>: the difference is narrowed to 32 bits; the range is only asserted.\<close>

definition make_rva :: "addr \<Rightarrow> addr \<Rightarrow> u32" where
  "make_rva ptr base = ucast (ptr - base)"

section \<open>Flag sets\<close>

definition has_any_of :: "'a::len word \<Rightarrow> 'a word \<Rightarrow> bool" where
  "has_any_of flags bits \<longleftrightarrow> flags AND bits \<noteq> 0"

text \<open>\<^verbatim>\<open>count_trailing_zeros\<close> is only called on masks with at least two bits set, so the loop ends;
  the model stops on zero.\<close>

function count_trailing_zeros :: "'a::len word \<Rightarrow> nat" where
  "count_trailing_zeros v =
     (if v = 0 then 0 else if v AND 1 = 0 then Suc (count_trailing_zeros (drop_bit 1 v)) else 0)"
  by pat_completeness auto

termination count_trailing_zeros
proof (relation "measure unat")
  fix v :: "'a::len word"
  assume "v \<noteq> 0"
  then have "0 < unat v" by (simp add: unat_gt_0)
  then show "(drop_bit 1 v, v) \<in> measure unat"
    by (simp add: drop_bit_eq_div unat_div)
qed simp

declare count_trailing_zeros.simps [simp del]

definition flag_get :: "'a::len word \<Rightarrow> 'a word \<Rightarrow> 'a word" where
  "flag_get bits value =
     (if bits AND (bits - 1) \<noteq> 0 then drop_bit (count_trailing_zeros bits) (value AND bits)
      else if value AND bits \<noteq> 0 then 1 else 0)"

section \<open>Compressed integers\<close>

definition lengths :: "nat list" where
  "lengths = [1, 2, 1, 3, 1, 2, 1, 4, 1, 2, 1, 3, 1, 2, 1, 5]"

definition shifts :: "nat list" where
  "shifts = [25, 18, 25, 11, 25, 18, 25, 4, 25, 18, 25, 11, 25, 18, 25, 0]"

definition read_unsigned :: "memory \<Rightarrow> addr \<Rightarrow> u32 \<times> addr" where
  "read_unsigned img data =
     (let enc_type = unat (img data AND 15);
          len = lengths ! enc_type;
          result = drop_bit (shifts ! enc_type) (rd32 img (data + of_nat len - 4))
      in (result, data + of_nat len))"

definition read_int :: "memory \<Rightarrow> addr \<Rightarrow> int \<times> addr" where
  "read_int img data = (sint (rd32 img data), data + 4)"

definition read_rva :: "memory \<Rightarrow> addr \<Rightarrow> u32 \<times> addr" where
  "read_rva img data = (let (off, p) = read_int img data in (word_of_int off, p))"

definition encode_unsigned :: "u32 \<Rightarrow> byte list" where
  "encode_unsigned w =
     (let v = unat w in
      if v < 2 ^ 7 then nat_bytes 1 (2 * v)
      else if v < 2 ^ 14 then nat_bytes 2 (4 * v + 1)
      else if v < 2 ^ 21 then nat_bytes 3 (8 * v + 3)
      else if v < 2 ^ 28 then nat_bytes 4 (16 * v + 7)
      else 15 # nat_bytes 4 v)"

definition holds :: "memory \<Rightarrow> addr \<Rightarrow> byte list \<Rightarrow> bool" where
  "holds m a bs \<longleftrightarrow> (\<forall>i<length bs. m (a + of_nat i) = bs ! i)"

section \<open>Lemmas\<close>

lemma unat_less_exp: "unat (w :: 'a::len word) < 2 ^ LENGTH('a)"
  by (rule unsigned_less)

lemma length_nat_bytes [simp]: "length (nat_bytes n v) = n"
  by (induction n arbitrary: v) auto

lemma le_nat_bytes [simp]: "le_nat (nat_bytes n v) = v mod 256 ^ n"
proof (induction n arbitrary: v)
  case (Suc n)
  have "unat (of_nat v :: byte) = v mod 256"
    by (simp add: unat_of_nat)
  then show ?case using Suc mod_mult2_eq [of v 256 "256 ^ n"] by simp
qed simp

lemma le_nat_less: "le_nat bs < 256 ^ length bs"
proof (induction bs)
  case (Cons b bs)
  have "unat b < 256" using unat_less_exp [of b] by simp
  then show ?case using Cons by simp
qed simp

lemma le_nat_append: "le_nat (xs @ ys) = le_nat xs + 256 ^ length xs * le_nat ys"
  by (induction xs) (auto simp: algebra_simps)

lemma length_bytes_at [simp]: "length (bytes_at m a n) = n"
  by (simp add: bytes_at_def)

lemma bytes_at_add: "bytes_at m a (k + n) = bytes_at m a k @ bytes_at m (a + of_nat k) n"
proof -
  have "[0..<k + n] = [0..<k] @ map (\<lambda>i. i + k) [0..<n]"
    by (induction n) (auto simp: add.commute)
  then show ?thesis by (simp add: bytes_at_def comp_def algebra_simps)
qed

lemma holds_bytes_at: "holds m a bs \<longleftrightarrow> bytes_at m a (length bs) = bs"
  unfolding holds_def list_eq_iff_nth_eq by (simp add: bytes_at_def)

lemma holds_Nil [simp]: "holds m a []"
  by (simp add: holds_def)

lemma holds_append: "holds m a (xs @ ys) \<longleftrightarrow> holds m a xs \<and> holds m (a + of_nat (length xs)) ys"
  by (simp add: holds_bytes_at bytes_at_add)

lemma holds_Cons: "holds m a (x # xs) \<longleftrightarrow> m a = x \<and> holds m (a + 1) xs"
  using holds_append [of m a "[x]" xs] by (simp add: holds_def)

lemma rd32_unat: "unat (rd32 m a) = le_nat (bytes_at m a 4)"
proof -
  have "le_nat (bytes_at m a 4) < 2 ^ 32" using le_nat_less [of "bytes_at m a 4"] by simp
  then show ?thesis by (simp add: rd32_def unat_of_nat)
qed

lemma rd64_unat: "unat (rd64 m a) = le_nat (bytes_at m a 8)"
proof -
  have "le_nat (bytes_at m a 8) < 2 ^ 64" using le_nat_less [of "bytes_at m a 8"] by simp
  then show ?thesis by (simp add: rd64_def unat_of_nat)
qed

lemma read_rva_eq [read_simps]: "read_rva img p = (rd32 img p, p + 4)"
  by (simp add: read_rva_def read_int_def)

lemma rd32_holds: "holds img p (nat_bytes 4 (unat v)) \<Longrightarrow> rd32 img p = v"
  using unat_less_exp [of v] by (simp add: holds_bytes_at rd32_def)

lemma rd64_holds: "holds m a (nat_bytes 8 (unat v)) \<Longrightarrow> rd64 m a = v"
  using unat_less_exp [of v] by (simp add: holds_bytes_at rd64_def)

lemma nat_bytes_numeral:
  "nat_bytes (numeral k) v = of_nat v # nat_bytes (pred_numeral k) (v div 256)"
  unfolding numeral_eq_Suc [of k] by simp

lemma rd16_bytes: "rd16 m a = of_nat (unat (m a) + 256 * unat (m (a + 1)))"
  by (simp add: rd16_def bytes_at_def upt_rec)

lemma rd32_bytes:
  "rd32 m a = of_nat (unat (m a) + 256 * (unat (m (a + 1)) + 256 * (unat (m (a + 2)) + 256 * unat (m (a + 3)))))"
  by (simp add: rd32_def bytes_at_def upt_rec)

lemma rd64_bytes:
  "rd64 m a = of_nat (unat (m a) + 256 * (unat (m (a + 1)) + 256 * (unat (m (a + 2)) + 256 * (unat (m (a + 3)) +
     256 * (unat (m (a + 4)) + 256 * (unat (m (a + 5)) + 256 * (unat (m (a + 6)) + 256 * unat (m (a + 7)))))))))"
  by (simp add: rd64_def bytes_at_def upt_rec)

lemmas eval_mem = nat_bytes_numeral rd16_bytes rd32_bytes rd64_bytes mem_of_def

text \<open>A shifted four-byte read that ends after \<open>n\<close> bytes from \<open>p\<close> only sees those bytes.\<close>

lemma shifted_read:
  assumes "bytes_at img p n = bs" "length bs = n" "n \<le> 4" "8 * (4 - n) \<le> s"
  shows "drop_bit s (rd32 img (p + of_nat n - 4)) = of_nat (le_nat bs div 2 ^ (s - 8 * (4 - n)))"
proof -
  define k where "k = 4 - n"
  have eq: "p + of_nat n - 4 + of_nat k = p" using assms(3) by (simp add: k_def of_nat_diff)
  have "bytes_at img (p + of_nat n - 4) 4 = bytes_at img (p + of_nat n - 4) k @ bs"
    using bytes_at_add [of img "p + of_nat n - 4" k n] eq assms k_def by simp
  then have le: "le_nat (bytes_at img (p + of_nat n - 4) 4)
      = le_nat (bytes_at img (p + of_nat n - 4) k) + 256 ^ k * le_nat bs"
    by (simp add: le_nat_append)
  have low: "le_nat (bytes_at img (p + of_nat n - 4) k) < 256 ^ k"
    using le_nat_less [of "bytes_at img (p + of_nat n - 4) k"] by simp
  have p2: "(256::nat) ^ k = 2 ^ (8 * k)" by (simp add: power_mult)
  have "2 ^ s = (2::nat) ^ (8 * k) * 2 ^ (s - 8 * k)"
    using assms(4) by (simp add: k_def flip: power_add)
  then have "le_nat (bytes_at img (p + of_nat n - 4) 4) div 2 ^ s = le_nat bs div 2 ^ (s - 8 * k)"
    using le low p2 by (simp add: div_mult2_eq)
  then have "unat (drop_bit s (rd32 img (p + of_nat n - 4))) = le_nat bs div 2 ^ (s - 8 * k)"
    by (simp only: unat_drop_bit_eq rd32_unat) (simp add: drop_bit_eq_div)
  then have "of_nat (unat (drop_bit s (rd32 img (p + of_nat n - 4)))) = (of_nat (le_nat bs div 2 ^ (s - 8 * k)) :: u32)"
    by (rule arg_cong)
  then show ?thesis by (simp only: k_def of_nat_unat ucast_id)
qed


lemma enc_type_eq: "unat (b AND (15::byte)) = unat b mod 16"
proof -
  have "b AND 15 = take_bit 4 b"
    by (simp add: take_bit_eq_mask mask_eq_decr_exp)
  then have "unat (b AND 15) = take_bit 4 (unat b)" by (simp only: unsigned_take_bit_eq)
  then show ?thesis by (simp add: take_bit_eq_mod)
qed

lemma lengths_nth:
  "n mod 2 = 0 \<Longrightarrow> lengths ! (n mod 16) = 1 \<and> shifts ! (n mod 16) = 25"
  "n mod 4 = 1 \<Longrightarrow> lengths ! (n mod 16) = 2 \<and> shifts ! (n mod 16) = 18"
  "n mod 8 = 3 \<Longrightarrow> lengths ! (n mod 16) = 3 \<and> shifts ! (n mod 16) = 11"
  "n mod 16 = 7 \<Longrightarrow> lengths ! (n mod 16) = 4 \<and> shifts ! (n mod 16) = 4"
  "n mod 16 = 15 \<Longrightarrow> lengths ! (n mod 16) = 5 \<and> shifts ! (n mod 16) = 0"
proof -
  have c: "n mod 16 \<in> set [0..<16]" by simp
  have d: "n mod 2 = n mod 16 mod 2" "n mod 4 = n mod 16 mod 4" "n mod 8 = n mod 16 mod 8"
    by (simp_all add: mod_mod_cancel)
  show "n mod 2 = 0 \<Longrightarrow> lengths ! (n mod 16) = 1 \<and> shifts ! (n mod 16) = 25"
    using c unfolding d upt_rec_numeral by (auto simp: lengths_def shifts_def upt_rec)
  show "n mod 4 = 1 \<Longrightarrow> lengths ! (n mod 16) = 2 \<and> shifts ! (n mod 16) = 18"
    using c unfolding d upt_rec_numeral by (auto simp: lengths_def shifts_def upt_rec)
  show "n mod 8 = 3 \<Longrightarrow> lengths ! (n mod 16) = 3 \<and> shifts ! (n mod 16) = 11"
    using c unfolding d upt_rec_numeral by (auto simp: lengths_def shifts_def upt_rec)
qed (simp_all add: lengths_def shifts_def)

text \<open>Reading an integer of 1 to 4 bytes, whose first byte carries the length in its low bits.\<close>

lemma read_unsigned_short:
  assumes bs: "bytes_at img p n = bs" "length bs = n" "0 < n" "n \<le> 4"
    and tab: "lengths ! (le_nat bs mod 16) = n" "shifts ! (le_nat bs mod 16) = 8 * (4 - n) + n"
  shows "read_unsigned img p = (of_nat (le_nat bs div 2 ^ n), p + of_nat n)"
proof -
  have "bs = img p # tl bs"
    using bs by (cases bs) (auto simp: bytes_at_def upt_conv_Cons)
  then have "le_nat bs = unat (img p) + 16 * (16 * le_nat (tl bs))"
    using le_nat.simps(2) [of "img p" "tl bs"] by simp
  then have "le_nat bs mod 16 = unat (img p) mod 16" by (simp only: mod_mult_self2)
  then have "unat (img p AND 15) = le_nat bs mod 16" by (simp add: enc_type_eq)
  then show ?thesis using tab shifted_read [of img p n bs "8 * (4 - n) + n"] bs
    by (simp add: read_unsigned_def Let_def)
qed


lemma read_unsigned_long:
  assumes "img p = 15" "bytes_at img (p + 1) 4 = bs"
  shows "read_unsigned img p = (of_nat (le_nat bs), p + 5)"
proof -
  have "rd32 img (p + 5 - 4) = of_nat (le_nat bs)"
    using assms(2) by (simp add: rd32_def add.commute)
  then show ?thesis using assms(1)
    by (simp add: read_unsigned_def Let_def enc_type_eq lengths_def shifts_def)
qed

text \<open>The round trip: reading what the reference encoder wrote gives the value back, moves past
  exactly the encoding, and does not depend on the neighbouring bytes that the four-byte read
  touches.\<close>

lemma read_unsigned_encode:
  assumes "holds img p (encode_unsigned v)"
  shows "read_unsigned img p = (v, p + of_nat (length (encode_unsigned v)))"
proof -
  define n where "n = unat v"
  have v: "of_nat n = v" by (simp add: n_def)
  have n32: "n < 2 ^ 32" using unat_less_exp [of v] by (simp add: n_def)
  have short: "read_unsigned img p = (v, p + of_nat k)"
    if k: "0 < k" "k \<le> 4" and e: "encode_unsigned v = nat_bytes k (2 ^ k * n + c)"
      and b: "2 ^ k * n + c < 256 ^ k" "c < 2 ^ k"
      and t: "lengths ! ((2 ^ k * n + c) mod 16) = k" "shifts ! ((2 ^ k * n + c) mod 16) = 8 * (4 - k) + k" for k c
  proof -
    have le: "le_nat (nat_bytes k (2 ^ k * n + c)) = 2 ^ k * n + c" using b(1) by simp
    have "bytes_at img p k = nat_bytes k (2 ^ k * n + c)"
      using assms e by (simp add: holds_bytes_at)
    from read_unsigned_short [OF this _ k] t show ?thesis using b(2) v unfolding le by simp
  qed
  consider "n < 2 ^ 7" | "2 ^ 7 \<le> n" "n < 2 ^ 14" | "2 ^ 14 \<le> n" "n < 2 ^ 21" | "2 ^ 21 \<le> n" "n < 2 ^ 28" | "2 ^ 28 \<le> n"
    by linarith
  then show ?thesis
  proof cases
    case 1
    then have e: "encode_unsigned v = nat_bytes 1 (2 ^ 1 * n + 0)"
      unfolding encode_unsigned_def Let_def n_def [symmetric] by simp
    show ?thesis using short [OF _ _ e] 1 lengths_nth(1) [of "2 ^ 1 * n + 0"] e by simp
  next
    case 2
    then have e: "encode_unsigned v = nat_bytes 2 (2 ^ 2 * n + 1)"
      unfolding encode_unsigned_def Let_def n_def [symmetric] by simp
    have "(2 ^ 2 * n + 1) mod 4 = 1" by (simp add: mod_mult_self4)
    with short [OF _ _ e] 2 lengths_nth(2) [of "2 ^ 2 * n + 1"] e show ?thesis by simp
  next
    case 3
    then have e: "encode_unsigned v = nat_bytes 3 (2 ^ 3 * n + 3)"
      unfolding encode_unsigned_def Let_def n_def [symmetric] by simp
    have "(2 ^ 3 * n + 3) mod 8 = 3" by (simp add: mod_mult_self4)
    with short [OF _ _ e] 3 lengths_nth(3) [of "2 ^ 3 * n + 3"] e show ?thesis by simp
  next
    case 4
    then have e: "encode_unsigned v = nat_bytes 4 (2 ^ 4 * n + 7)"
      unfolding encode_unsigned_def Let_def n_def [symmetric] by simp
    have "(2 ^ 4 * n + 7) mod 16 = 7" by (simp add: mod_mult_self4)
    with short [OF _ _ e] 4 lengths_nth(4) [of "2 ^ 4 * n + 7"] e show ?thesis by simp
  next
    case 5
    then have e: "encode_unsigned v = 15 # nat_bytes 4 n"
      unfolding encode_unsigned_def Let_def n_def [symmetric] by simp
    then have "img p = 15" "bytes_at img (p + 1) 4 = nat_bytes 4 n"
      using assms by (simp_all add: holds_Cons) (simp add: holds_bytes_at)
    from read_unsigned_long [OF this] show ?thesis using e n32 v by simp
  qed
qed

end
