(* ===== verification/Exc_Unwind.thy ===== *)
theory Exc_Unwind
  imports Exc_Memory
begin

text \<open>
  Stack walking (\<^verbatim>\<open>unwind_handler.cpp\<close>, \<^verbatim>\<open>cpu_context.hpp\<close>): the PE header is checked and the
  function table located (\<open>pdata_of_image\<close>), the function of an address is found by binary search
  (\<open>find_function_entry\<close>), and the unwind codes of a function are interpreted to restore the
  caller's non-volatile registers (\<open>unwind\<close>). \<open>terminate()\<close> does not return: a bug check is the
  left value of a sum.
\<close>

section \<open>Bug checks\<close>

datatype BugCheckReason = CorruptedPeHeader | UnwindOnUnsafeException | InvalidTargetUnwind
  | CorruptedFunctionUnwindState | CorruptedEhUnwindData | CorruptedExceptionState
  | UnwindingNonCxxFrame | SehHandlerNotInSafeseh | CorruptedMachineState
  | DestructorThrewDuringUnwind | CorruptedExceptionRegistrationChain | NoexceptViolation
  | ExceptionSpecificationNotSupported | CorruptedExceptionHandler | NoMatchingExceptionHandler
  | BufferSecurityCheckFailure | DestroyingJoinableThread | AssertionFailure | ForbiddenCall | StdAbort

text \<open>\<open>Fault\<close> is a null pointer dereference; \<open>Terminate\<close> a call of \<^verbatim>\<open>terminate()\<close> after
  \<^verbatim>\<open>set_termination_context\<close>.\<close>

datatype stop = Terminate BugCheckReason | Fault

type_synonym 'a eh = "stop + 'a"

fun eh_bind :: "'a eh \<Rightarrow> ('a \<Rightarrow> 'b eh) \<Rightarrow> 'b eh" where
  "eh_bind (Inl e) f = Inl e"
| "eh_bind (Inr x) f = f x"

lemma eh_bind_Inr_iff [simp]: "eh_bind x f = Inr z \<longleftrightarrow> (\<exists>y. x = Inr y \<and> f y = Inr z)"
  by (cases x) auto

lemma eh_bind_cong [fundef_cong]:
  "x = x' \<Longrightarrow> (\<And>y. x' = Inr y \<Longrightarrow> f y = f' y) \<Longrightarrow> eh_bind x f = eh_bind x' f'"
  by (cases x') auto

section \<open>Data\<close>

record frame_walk_context =
  gp_regs :: "64 word list"       \<comment> \<open>rbx, rbp, rsi, rdi, r12, r13, r14, r15\<close>
  xmm_regs :: "128 word list"     \<comment> \<open>xmm6 to xmm15\<close>
  dummy_rsp :: "64 word"
  dummy_rip :: addr

record machine_frame =
  rip :: addr
  cs :: "64 word"
  eflags :: "64 word"
  rsp :: "64 word"
  ss :: "64 word"

record pe_function =
  fn_begin :: u32
  fn_end :: u32
  fn_unwind_info :: u32

record frame_walk_pdata =
  m_image_base :: addr
  m_functions :: addr
  m_function_count :: u32
  m_image_size :: u32

text \<open>\<open>function\<close>: three RVAs, twelve bytes.\<close>

definition read_function :: "memory \<Rightarrow> addr \<Rightarrow> pe_function" where
  "read_function img a = \<lparr> fn_begin = rd32 img a, fn_end = rd32 img (a + 4),
     fn_unwind_info = rd32 img (a + 8) \<rparr>"

datatype UnwindCode = PushNonVolatileReg | AllocLarge | AllocSmall | SetFramePointer
  | SaveNonVolatileReg | SaveFarNonVolatileReg | Epilog | Reserved07 | SaveXmm128
  | SaveFarXmm128 | PushMachineFrame | OtherCode

text \<open>\<open>unwind_info\<close>: the four header bytes with their bit fields, then 16-bit slots.\<close>

definition ui_flags :: "memory \<Rightarrow> addr \<Rightarrow> byte" where
  "ui_flags img ui = drop_bit 3 (img ui)"

definition ui_code_count :: "memory \<Rightarrow> addr \<Rightarrow> nat" where
  "ui_code_count img ui = unat (img (ui + 2))"

definition ui_frame_reg :: "memory \<Rightarrow> addr \<Rightarrow> nat" where
  "ui_frame_reg img ui = unat (img (ui + 3)) mod 16"

definition ui_frame_reg_disp :: "memory \<Rightarrow> addr \<Rightarrow> nat" where
  "ui_frame_reg_disp img ui = unat (img (ui + 3)) div 16"

definition ui_data :: "memory \<Rightarrow> addr \<Rightarrow> nat \<Rightarrow> 16 word" where
  "ui_data img ui i = rd16 img (ui + 4 + of_nat (2 * i))"

definition code_of :: "nat \<Rightarrow> UnwindCode" where
  "code_of n = (if n = 0 then PushNonVolatileReg else if n = 1 then AllocLarge
     else if n = 2 then AllocSmall else if n = 3 then SetFramePointer
     else if n = 4 then SaveNonVolatileReg else if n = 5 then SaveFarNonVolatileReg
     else if n = 6 then Epilog else if n = 7 then Reserved07 else if n = 8 then SaveXmm128
     else if n = 9 then SaveFarXmm128 else if n = 10 then PushMachineFrame else OtherCode)"

definition entry_code :: "memory \<Rightarrow> addr \<Rightarrow> nat \<Rightarrow> UnwindCode" where
  "entry_code img ui i = code_of (unat (img (ui + 4 + of_nat (2 * i) + 1)) mod 16)"

definition entry_info :: "memory \<Rightarrow> addr \<Rightarrow> nat \<Rightarrow> nat" where
  "entry_info img ui i = unat (img (ui + 4 + of_nat (2 * i) + 1)) div 16"

section \<open>The image and its function table\<close>

definition pdata_of_image :: "memory \<Rightarrow> addr \<Rightarrow> frame_walk_pdata eh" where
  "pdata_of_image img base =
     (let image_header = rd32 img (base + 0x3c);
          pe_hdr = rva_at base image_header;
          image_size = rd32 img (pe_hdr + 0x50);
          headers_size = rd32 img (pe_hdr + 0x54);
          table_rva = rd32 img (pe_hdr + 0xa0);
          table_size = rd32 img (pe_hdr + 0xa4)
      in if rd16 img base = 0x5a4d \<and> rd32 img pe_hdr = 0x4550 \<and> rd16 img (pe_hdr + 4) = 0x8664
            \<and> rd16 img (pe_hdr + 0x18) = 0x20b
            \<and> unat image_header + 0xa8 \<le> unat headers_size
            \<and> headers_size \<le> image_size \<and> 4 \<le> rd32 img (pe_hdr + 0x84)
            \<and> table_size mod 12 = 0
         then Inr \<lparr> m_image_base = base, m_functions = rva_at base table_rva,
                m_function_count = table_size div 12, m_image_size = image_size \<rparr>
         else Inl (Terminate CorruptedPeHeader))"

definition contains_address :: "frame_walk_pdata \<Rightarrow> addr \<Rightarrow> bool" where
  "contains_address pd a \<longleftrightarrow>
     m_image_base pd \<le> a \<and> sint (a - m_image_base pd) < int (unat (m_image_size pd))"

text \<open>The binary search; the result is the address of the entry, or \<open>None\<close> for \<^verbatim>\<open>nullptr\<close>.\<close>

definition fn_entry :: "frame_walk_pdata \<Rightarrow> nat \<Rightarrow> addr" where
  "fn_entry pd i = m_functions pd + of_nat (12 * i)"

function search_function :: "memory \<Rightarrow> frame_walk_pdata \<Rightarrow> u32 \<Rightarrow> nat \<Rightarrow> nat \<Rightarrow> addr option" where
  "search_function img pd pc_rva left_bound right_bound =
     (if left_bound < right_bound then
        let idx = left_bound + (right_bound - left_bound) div 2;
            f = read_function img (fn_entry pd idx)
        in if pc_rva < fn_begin f then search_function img pd pc_rva left_bound idx
           else if fn_end f \<le> pc_rva then search_function img pd pc_rva (idx + 1) right_bound
           else Some (fn_entry pd idx)
      else None)"
  by pat_completeness auto

termination search_function
  by (relation "measure (\<lambda>(_, _, _, l, r). r - l)") auto

declare search_function.simps [simp del]

definition find_function_entry :: "memory \<Rightarrow> frame_walk_pdata \<Rightarrow> addr \<Rightarrow> addr option eh" where
  "find_function_entry img pd a =
     (if \<not> contains_address pd a then Inl (Terminate NoMatchingExceptionHandler)
      else Inr (search_function img pd (make_rva a (m_image_base pd)) 0 (unat (m_function_count pd))))"

section \<open>Registers\<close>

definition conv :: "int list" where
  "conv = [-1, -1, -1, 0, -1, 1, 2, 3, -1, -1, -1, -1, 4, 5, 6, 7]"

definition gp_index :: "nat \<Rightarrow> nat eh" where
  "gp_index idx = (let offs = conv ! idx in
     if offs < 0 then Inl (Terminate CorruptedMachineState) else Inr (nat offs))"

definition gp :: "nat \<Rightarrow> frame_walk_context \<Rightarrow> 64 word eh" where
  "gp idx ctx = eh_bind (gp_index idx) (\<lambda>i. Inr (gp_regs ctx ! i))"

definition set_gp :: "nat \<Rightarrow> 64 word \<Rightarrow> frame_walk_context \<Rightarrow> frame_walk_context eh" where
  "set_gp idx v ctx = eh_bind (gp_index idx) (\<lambda>i. Inr (ctx\<lparr> gp_regs := (gp_regs ctx)[i := v] \<rparr>))"

definition set_xmm :: "nat \<Rightarrow> 128 word \<Rightarrow> frame_walk_context \<Rightarrow> frame_walk_context eh" where
  "set_xmm idx v ctx =
     (if idx < 6 \<or> 16 \<le> idx then Inl (Terminate CorruptedMachineState)
      else Inr (ctx\<lparr> xmm_regs := (xmm_regs ctx)[idx - 6 := v] \<rparr>))"

section \<open>Interpretation of the unwind codes\<close>

text \<open>
  \<open>unwind_step\<close> is one iteration of the loop: the entry at \<open>idx\<close>, the registers, the machine frame
  and the flag \<^verbatim>\<open>rip_updated\<close>; it returns the index of the next entry. The offsets are read exactly
  as the source reads them: \<^verbatim>\<open>AllocLarge\<close> with a non-zero info and \<^verbatim>\<open>SaveFarXmm128\<close> take one
  16-bit slot, \<^verbatim>\<open>SaveFarNonVolatileReg\<close> takes 32 bits that start at the entry itself. The
  products with 8 and 16 are computed in \<^verbatim>\<open>int\<close> and cannot overflow there.
\<close>

definition unwind_step :: "memory \<Rightarrow> memory \<Rightarrow> addr \<Rightarrow> nat \<Rightarrow> frame_walk_context \<Rightarrow> machine_frame \<Rightarrow> bool
    \<Rightarrow> (nat \<times> frame_walk_context \<times> machine_frame \<times> bool) eh" where
  "unwind_step img stk ui idx ctx mach upd =
     (let info = entry_info img ui idx; slot = (\<lambda>i. of_nat (unat (ui_data img ui i)) :: 64 word) in
      case entry_code img ui idx of
        PushNonVolatileReg \<Rightarrow> eh_bind (set_gp info (rd64 stk (rsp mach)) ctx) (\<lambda>ctx.
          Inr (idx + 1, ctx, mach\<lparr> rsp := rsp mach + 8 \<rparr>, upd))
      | AllocLarge \<Rightarrow>
          if info = 0 then Inr (idx + 2, ctx, mach\<lparr> rsp := rsp mach + slot (idx + 1) * 8 \<rparr>, upd)
          else Inr (idx + 3, ctx, mach\<lparr> rsp := rsp mach + slot (idx + 1) \<rparr>, upd)
      | AllocSmall \<Rightarrow> Inr (idx + 1, ctx, mach\<lparr> rsp := rsp mach + of_nat (info * 8 + 8) \<rparr>, upd)
      | SetFramePointer \<Rightarrow> eh_bind (gp (ui_frame_reg img ui) ctx) (\<lambda>v.
          Inr (idx + 1, ctx, mach\<lparr> rsp := v - of_nat (ui_frame_reg_disp img ui * 16) \<rparr>, upd))
      | SaveNonVolatileReg \<Rightarrow> eh_bind (set_gp info (rd64 stk (rsp mach + slot (idx + 1) * 8)) ctx) (\<lambda>ctx.
          Inr (idx + 2, ctx, mach, upd))
      | SaveFarNonVolatileReg \<Rightarrow>
          eh_bind (set_gp info (rd64 stk (rsp mach + ucast (rd32 img (ui + 4 + of_nat (2 * idx))))) ctx) (\<lambda>ctx.
          Inr (idx + 3, ctx, mach, upd))
      | Epilog \<Rightarrow> Inr (idx + 2, ctx, mach, upd)
      | Reserved07 \<Rightarrow> Inr (idx + 3, ctx, mach, upd)
      | SaveXmm128 \<Rightarrow> eh_bind (set_xmm info (rd128 stk (rsp mach + slot (idx + 1) * 16)) ctx) (\<lambda>ctx.
          Inr (idx + 2, ctx, mach, upd))
      | SaveFarXmm128 \<Rightarrow> eh_bind (set_xmm info (rd128 stk (rsp mach + slot (idx + 1))) ctx) (\<lambda>ctx.
          Inr (idx + 3, ctx, mach, upd))
      | PushMachineFrame \<Rightarrow>
          let sp = rsp mach + of_nat info * 8
          in Inr (idx + 1, ctx, mach\<lparr> rip := rd64 stk sp, rsp := rd64 stk (sp + 24) \<rparr>, True)
      | OtherCode \<Rightarrow> Inr (idx + 1, ctx, mach, upd))"

lemma unwind_step_progress:
  "unwind_step img stk ui idx ctx mach upd = Inr (idx', r) \<Longrightarrow> idx < idx'"
  unfolding unwind_step_def Let_def by (cases "entry_code img ui idx") (auto split: if_splits)

text \<open>The loop over the slots; every step moves on by at least one slot.\<close>

function unwind_loop :: "memory \<Rightarrow> memory \<Rightarrow> addr \<Rightarrow> nat \<Rightarrow> frame_walk_context \<Rightarrow> machine_frame \<Rightarrow> bool
    \<Rightarrow> (frame_walk_context \<times> machine_frame \<times> bool) eh" where
  "unwind_loop img stk ui idx ctx mach upd =
     (if idx < ui_code_count img ui then
        eh_bind (unwind_step img stk ui idx ctx mach upd) (\<lambda>(idx, ctx, mach, upd).
          unwind_loop img stk ui idx ctx mach upd)
      else Inr (ctx, mach, upd))"
  by pat_completeness auto

termination unwind_loop
  by (relation "measure (\<lambda>(img, _, ui, idx, _). ui_code_count img ui - idx)")
    (auto dest!: unwind_step_progress)

declare unwind_loop.simps [simp del]

definition unwind :: "memory \<Rightarrow> memory \<Rightarrow> addr \<Rightarrow> frame_walk_context \<Rightarrow> machine_frame
    \<Rightarrow> (frame_walk_context \<times> machine_frame) eh" where
  "unwind img stk ui ctx mach =
     eh_bind (unwind_loop img stk ui 0 ctx mach False) (\<lambda>(ctx, mach, upd).
       Inr (ctx, if upd then mach
                 else mach\<lparr> rip := rd64 stk (rsp mach), rsp := rsp mach + 8 \<rparr>))"


end
