(* ===== verification/Exc_Catch.thy ===== *)
theory Exc_Catch
  imports Exc_Unwind
begin

text \<open>
  Exception objects and catch blocks (\<^verbatim>\<open>catch.cpp\<close>, \<^verbatim>\<open>catch.hpp\<close>, \<^verbatim>\<open>exception_info.hpp\<close>,
  \<^verbatim>\<open>member_ptr.cpp\<close>, the SEH checks of \<^verbatim>\<open>bugcheck.cpp\<close>): matching a thrown type against a catch
  block, transferring the object into the catch variable, and the ownership of exception objects by
  catch frames.

  The state keeps the stack as bytes, the \<open>catch_info\<close> structures of the catch frames by their
  address, the throw frame (\<open>cur\<close> is its \<open>catch_info\<close>, \<open>walk_ctx\<close> and \<open>walk_mach\<close> the registers of the
  frame the walk has reached), the handler chosen by the dispatcher, and the list of calls made to code of the program (destructors, copy constructors, cleanup funclets).
  What such a call does to the stack is the parameter \<open>client\<close> of the program.
\<close>

section \<open>State\<close>

datatype eh_call =
    Destroy_object addr addr          \<comment> \<open>destructor, object\<close>
  | Run_funclet addr addr             \<comment> \<open>cleanup funclet, frame pointer\<close>
  | Copy_ctor addr addr addr          \<comment> \<open>constructor, catch variable, exception object\<close>
  | Copy_ctor_virtual_base addr addr addr
  | Destroy_exception addr addr       \<comment> \<open>destructor, exception object\<close>

record catch_info =
  continuation_address :: "addr list"
  primary_frame_ptr :: addr
  exception_object_or_link :: addr
  throw_info_if_owner :: addr
  unwind_context :: "64 word"

text \<open>The code of the program and of the system that the runtime calls: the effect of the calls above on
  the stack; which handler is at an address; what a handler of another language (for instance
  \<^verbatim>\<open>__C_specific_handler\<close>) does to the stack; and the check of the security cookie
  (\<^verbatim>\<open>__GSHandlerCheckCommon\<close>) for a frame and its handler data.\<close>

datatype handler_kind = Cxx_frame_handler3 | Cxx_frame_handler4 | GS_handler_check_EH | GS_handler_check_EH4
  | Call_catch_frame_handler | Seh_frame_handler | Foreign_handler

record program =
  image :: memory
  client :: "eh_call \<Rightarrow> memory \<Rightarrow> memory"
  handler_at :: "addr \<Rightarrow> handler_kind"
  foreign :: "addr \<Rightarrow> addr \<Rightarrow> memory \<Rightarrow> memory"
  gs_ok :: "addr \<Rightarrow> addr \<Rightarrow> memory \<Rightarrow> bool"

record eh_state =
  stack :: memory
  infos :: "addr \<Rightarrow> catch_info"
  cur :: catch_info
  dc_handler :: addr
  walk_ctx :: frame_walk_context
  walk_mach :: machine_frame
  calls :: "eh_call list"

definition do_call :: "program \<Rightarrow> eh_call \<Rightarrow> eh_state \<Rightarrow> eh_state" where
  "do_call P c s = s\<lparr> stack := client P c (stack s), calls := calls s @ [c] \<rparr>"

datatype cookie = unwind_cookie | rethrow_probe_cookie | other_cookie

datatype ExceptionDisposition = ContinueExecution | ContinueSearch | Nested | Collided | CxxHandler

text \<open>The exception record passed to a handler: the cookie of a C++ exception, or a record of the
  operating system with its flags.\<close>

datatype exception_record = exc_record_cookie | Seh_record u32

definition verify_seh :: "u32 \<Rightarrow> unit eh" where
  "verify_seh flags = (if has_any_of flags 2 then Inl (Terminate UnwindingNonCxxFrame) else Inr ())"

section \<open>Exception objects\<close>

definition get_exception_object :: "catch_info \<Rightarrow> eh_state \<Rightarrow> addr" where
  "get_exception_object ci s =
     (if throw_info_if_owner ci \<noteq> 0 then exception_object_or_link ci
      else if exception_object_or_link ci \<noteq> 0
      then exception_object_or_link (infos s (exception_object_or_link ci)) else 0)"

definition get_throw_info :: "catch_info \<Rightarrow> eh_state \<Rightarrow> addr" where
  "get_throw_info ci s =
     (if exception_object_or_link ci \<noteq> 0 then
        if throw_info_if_owner ci = 0 then throw_info_if_owner (infos s (exception_object_or_link ci))
        else throw_info_if_owner ci
      else 0)"

record member_ptr =
  m_vbase_offset :: u32
  m_vbtable_ptr_offset :: u32
  m_member_offset :: u32

definition member_apply :: "program \<Rightarrow> memory \<Rightarrow> member_ptr \<Rightarrow> addr \<Rightarrow> addr" where
  "member_apply P stk mp obj =
     (let obj = (if m_vbtable_ptr_offset mp \<noteq> 0 then
            let vbtable_ptr = obj + ucast (m_vbtable_ptr_offset mp);
                vbtable = rd64 stk vbtable_ptr
            in vbtable_ptr + ucast (rd32 (image P) (vbtable + ucast (m_vbase_offset mp)))
          else obj)
      in obj + ucast (m_member_offset mp))"

record catchable_type =
  ct_properties :: u32
  ct_desc :: u32
  ct_offset :: member_ptr
  ct_size :: u32
  ct_copy_fn :: u32

definition read_catchable :: "memory \<Rightarrow> addr \<Rightarrow> catchable_type" where
  "read_catchable img a = \<lparr> ct_properties = rd32 img a, ct_desc = rd32 img (a + 4),
     ct_offset = \<lparr> m_vbase_offset = rd32 img (a + 8), m_vbtable_ptr_offset = rd32 img (a + 12),
        m_member_offset = rd32 img (a + 16) \<rparr>,
     ct_size = rd32 img (a + 20), ct_copy_fn = rd32 img (a + 24) \<rparr>"

record throw_info =
  ti_attributes :: u32
  ti_destroy_exc_obj :: u32
  ti_compat_fn :: u32
  ti_catchables :: u32

definition read_throw_info :: "memory \<Rightarrow> addr \<Rightarrow> throw_info" where
  "read_throw_info img a = \<lparr> ti_attributes = rd32 img a, ti_destroy_exc_obj = rd32 img (a + 4),
     ti_compat_fn = rd32 img (a + 8), ti_catchables = rd32 img (a + 12) \<rparr>"

definition copy_to_catch_block :: "program \<Rightarrow> addr \<Rightarrow> catchable_type \<Rightarrow> addr \<Rightarrow> addr \<Rightarrow> eh_state \<Rightarrow> eh_state" where
  "copy_to_catch_block P base ct catch_var obj s =
     (if has_any_of (ct_properties ct) 1 then
        s\<lparr> stack := store_bytes (stack s) catch_var (bytes_at (stack s) obj (unat (ct_size ct))) \<rparr>
      else if ct_copy_fn ct = 0 then
        let address = member_apply P (stack s) (ct_offset ct) obj
        in s\<lparr> stack := store_bytes (stack s) catch_var (bytes_at (stack s) address (unat (ct_size ct))) \<rparr>
      else if has_any_of (ct_properties ct) 4 then
        do_call P (Copy_ctor_virtual_base (rva_at base (ct_copy_fn ct)) catch_var obj) s
      else do_call P (Copy_ctor (rva_at base (ct_copy_fn ct)) catch_var obj) s)"

definition transfer_to_catch_block :: "program \<Rightarrow> addr \<Rightarrow> u32 \<Rightarrow> catchable_type \<Rightarrow> addr \<Rightarrow> addr \<Rightarrow> eh_state \<Rightarrow> eh_state" where
  "transfer_to_catch_block P base adjectives ct catch_var obj s =
     (if \<not> has_any_of (ct_properties ct) 2 \<or> has_any_of adjectives 8 then
        if \<not> has_any_of adjectives 8 then copy_to_catch_block P base ct catch_var obj s
        else s\<lparr> stack := wr64 (stack s) catch_var obj \<rparr>
      else s)"

text \<open>The search through the list of catchable types; \<open>n\<close> counts the entries left.\<close>

definition catchable_at :: "program \<Rightarrow> addr \<Rightarrow> addr \<Rightarrow> nat \<Rightarrow> catchable_type" where
  "catchable_at P base lst i = read_catchable (image P) (rva_at base (rd32 (image P) (lst + 4 + of_nat (4 * i))))"

fun find_catchable :: "program \<Rightarrow> addr \<Rightarrow> addr \<Rightarrow> addr \<Rightarrow> nat \<Rightarrow> nat \<Rightarrow> catchable_type option" where
  "find_catchable P base match_type lst i 0 = None"
| "find_catchable P base match_type lst i (Suc n) =
     (let ct = catchable_at P base lst i in
      if rva_at base (ct_desc ct) = match_type then Some ct
      else find_catchable P base match_type lst (i + 1) n)"

definition process_catch_block_unchecked :: "program \<Rightarrow> addr \<Rightarrow> u32 \<Rightarrow> addr \<Rightarrow> addr \<Rightarrow> addr \<Rightarrow> addr
    \<Rightarrow> eh_state \<Rightarrow> bool \<times> eh_state" where
  "process_catch_block_unchecked P base adjectives match_type catch_var obj lst s =
     (case find_catchable P base match_type lst 0 (unat (rd32 (image P) lst)) of
        None \<Rightarrow> (False, s)
      | Some ct \<Rightarrow> (True, transfer_to_catch_block P base adjectives ct catch_var obj s))"

definition process_catch_block :: "program \<Rightarrow> addr \<Rightarrow> u32 \<Rightarrow> addr \<Rightarrow> addr \<Rightarrow> addr \<Rightarrow> throw_info
    \<Rightarrow> eh_state \<Rightarrow> bool \<times> eh_state" where
  "process_catch_block P base adjectives match_type catch_var obj ti s =
     (if has_any_of adjectives 0x40 then (True, s)
      else if (ti_attributes ti AND (1 OR 2 OR 4)) AND NOT adjectives \<noteq> 0 then (False, s)
      else process_catch_block_unchecked P base adjectives match_type catch_var obj
             (rva_at base (ti_catchables ti)) s)"

section \<open>Handlers of the runtime's own frames\<close>

definition cxx_seh_frame_handler :: "exception_record \<Rightarrow> ExceptionDisposition eh" where
  "cxx_seh_frame_handler rec =
     (case rec of exc_record_cookie \<Rightarrow> Inr ContinueSearch
      | Seh_record flags \<Rightarrow> eh_bind (verify_seh flags) (\<lambda>_. Inr ContinueSearch))"

text \<open>\<open>image_base\<close> is the symbol \<^verbatim>\<open>__ImageBase\<close>.\<close>

definition cxx_destroy_exception :: "program \<Rightarrow> addr \<Rightarrow> catch_info \<Rightarrow> eh_state \<Rightarrow> eh_state" where
  "cxx_destroy_exception P base ci s =
     (let ti = read_throw_info (image P) (throw_info_if_owner ci) in
      if throw_info_if_owner ci \<noteq> 0 \<and> ti_destroy_exc_obj ti \<noteq> 0
      then do_call P (Destroy_exception (rva_at base (ti_destroy_exc_obj ti)) (exception_object_or_link ci)) s
      else s)"

text \<open>The catch info of a catch frame is at offset 0x48 (red zone of 0x20 bytes, machine frame of 0x28).\<close>

definition catch_info_of_frame :: "addr \<Rightarrow> addr" where
  "catch_info_of_frame frame_ptr = frame_ptr + 0x48"

definition cxx_call_catch_frame_handler :: "program \<Rightarrow> addr \<Rightarrow> exception_record \<Rightarrow> addr \<Rightarrow> cookie \<Rightarrow> eh_state
    \<Rightarrow> (ExceptionDisposition \<times> eh_state) eh" where
  "cxx_call_catch_frame_handler P base rec frame_ptr cky s =
     (case rec of
        Seh_record flags \<Rightarrow> eh_bind (verify_seh flags) (\<lambda>_. Inr (ContinueSearch, s))
      | exc_record_cookie \<Rightarrow>
          let a = catch_info_of_frame frame_ptr; fi = infos s a; ci = cur s in
          case cky of
            rethrow_probe_cookie \<Rightarrow>
              if exception_object_or_link fi = 0 then Inl (Terminate CorruptedExceptionHandler)
              else if throw_info_if_owner fi \<noteq> 0
                then Inr (CxxHandler, s\<lparr> cur := ci\<lparr> exception_object_or_link := a \<rparr> \<rparr>)
                else Inr (CxxHandler, s\<lparr> cur := ci\<lparr> exception_object_or_link := exception_object_or_link fi \<rparr> \<rparr>)
          | unwind_cookie \<Rightarrow>
              let s = (if exception_object_or_link ci = 0 \<or> exception_object_or_link ci = a
                       then s\<lparr> cur := ci\<lparr> exception_object_or_link := exception_object_or_link fi,
                                          throw_info_if_owner := throw_info_if_owner fi \<rparr> \<rparr>
                       else cxx_destroy_exception P base fi s)
              in Inr (CxxHandler, s\<lparr> cur := (cur s)\<lparr> primary_frame_ptr := primary_frame_ptr fi,
                                                       unwind_context := unwind_context fi \<rparr> \<rparr>)
          | other_cookie \<Rightarrow> Inr (ContinueSearch, s))"

text \<open>The catch info at the start of \<^verbatim>\<open>__cxx_dispatch_exception\<close>; the other fields are not
  initialised and keep what the stack holds there.\<close>

definition start_throw :: "addr \<Rightarrow> addr \<Rightarrow> eh_state \<Rightarrow> eh_state" where
  "start_throw obj ti s = s\<lparr> dc_handler := 0,
     cur := (cur s)\<lparr> exception_object_or_link := obj, throw_info_if_owner := ti, primary_frame_ptr := 0 \<rparr> \<rparr>"

end
