(* ===== verification/Exc_Probe.thy ===== *)
theory Exc_Probe
  imports Exc_Catch
begin

text \<open>
  Calling the frame handler of a function (\<^verbatim>\<open>get_frame_handler\<close>, \<^verbatim>\<open>execute_handler\<close> in \<^verbatim>\<open>catch.cpp\<close>,
  \<^verbatim>\<open>make_context\<close> in \<^verbatim>\<open>throw.cpp\<close>) and the search for the object of a rethrow (\<^verbatim>\<open>probe_for_exception\<close>).
  The walk ends at a catch frame or with a bug check outside of the image, but nothing in the code
  bounds it: \<open>None\<close> is a walk that does not end.
\<close>

type_synonym 'a run = "'a eh option"

fun run_bind :: "'a run \<Rightarrow> ('a \<Rightarrow> 'b run) \<Rightarrow> 'b run" where
  "run_bind None f = None"
| "run_bind (Some (Inl e)) f = Some (Inl e)"
| "run_bind (Some (Inr x)) f = f x"

abbreviation run_eh :: "'a eh \<Rightarrow> 'a run" where
  "run_eh x \<equiv> Some x"

abbreviation run_ret :: "'a \<Rightarrow> 'a run" where
  "run_ret x \<equiv> Some (Inr x)"

lemma run_bind_ret_iff [simp]: "run_bind x f = Some (Inr z) \<longleftrightarrow> (\<exists>y. x = Some (Inr y) \<and> f y = Some (Inr z))"
  by (cases "(x, f)" rule: run_bind.cases) auto

lemma run_bind_cong [fundef_cong]:
  "x = x' \<Longrightarrow> (\<And>y. x' = Some (Inr y) \<Longrightarrow> f y = f' y) \<Longrightarrow> run_bind x f = run_bind x' f'"
  by (cases "(x', f')" rule: run_bind.cases) auto

text \<open>What a handler is called with: the function, its handler data and the frame pointer.\<close>

record handler_call =
  hc_fn :: pe_function
  hc_data :: addr
  hc_frame :: addr
  hc_cookie :: cookie

text \<open>\<open>get_frame_handler\<close>: the RVA of the handler follows the unwind codes, its data follow the RVA.\<close>

definition get_frame_handler :: "memory \<Rightarrow> addr \<Rightarrow> addr \<Rightarrow> nat \<Rightarrow> addr \<times> addr" where
  "get_frame_handler img base ui slots =
     (let p = ui + 4 + of_nat (2 * slots) in (rva_at base (rd32 img p), p + 4))"

definition prepare_for_non_cxx_handler :: "eh_state \<Rightarrow> eh_state" where
  "prepare_for_non_cxx_handler s =
     s\<lparr> walk_ctx := (walk_ctx s)\<lparr> dummy_rsp := rsp (walk_mach s), dummy_rip := rip (walk_mach s) \<rparr> \<rparr>"

text \<open>\<open>call h c s\<close> is the call through the handler pointer. A missing function entry is dereferenced.\<close>

definition execute_handler :: "(addr \<Rightarrow> handler_call \<Rightarrow> eh_state \<Rightarrow> eh_state run) \<Rightarrow> program \<Rightarrow> frame_walk_pdata
    \<Rightarrow> cookie \<Rightarrow> eh_state \<Rightarrow> (addr \<times> eh_state) run" where
  "execute_handler call P pd cky s =
     run_bind (run_eh (find_function_entry (image P) pd (rip (walk_mach s)))) (\<lambda>entry.
       case entry of None \<Rightarrow> Some (Inl Fault)
       | Some e \<Rightarrow>
           let fn = read_function (image P) e; ui = rva_at (m_image_base pd) (fn_unwind_info fn)
           in if has_any_of (ui_flags (image P) ui) (1 OR 2) then
                let unwind_slots = (ui_code_count (image P) ui + 1) div 2 * 2;
                    (handler, extra_data) = get_frame_handler (image P) (m_image_base pd) ui unwind_slots
                in run_bind (run_eh (if ui_frame_reg (image P) ui \<noteq> 0 then gp (ui_frame_reg (image P) ui) (walk_ctx s)
                                     else Inr (rsp (walk_mach s)))) (\<lambda>frame_ptr.
                   run_bind (call handler \<lparr> hc_fn = fn, hc_data = extra_data, hc_frame = frame_ptr, hc_cookie = cky \<rparr>
                               (prepare_for_non_cxx_handler s)) (\<lambda>s.
                   run_ret (ui, s)))
              else run_ret (ui, s))"

text \<open>The loop over the unwind graph of a function: while the state is above the target, the action of
  the state is run and the next state taken.\<close>

partial_function (option) unwind_states :: "(int \<Rightarrow> 's \<Rightarrow> 's) \<Rightarrow> (int \<Rightarrow> int) \<Rightarrow> int \<Rightarrow> int \<Rightarrow> 's \<Rightarrow> 's option" where
  "unwind_states act nxt state target s =
     (if state > target then unwind_states act nxt (nxt state) target (act state s) else Some s)"

section \<open>The probe\<close>

definition gs_handler :: "program \<Rightarrow> addr \<Rightarrow> addr \<Rightarrow> eh_state \<Rightarrow> unit eh" where
  "gs_handler P frame_ptr data s =
     (if gs_ok P frame_ptr (data + 4) (stack s) then Inr () else Inl (Terminate BufferSecurityCheckFailure))"

text \<open>The handlers under the probe cookie: the C++ frame handlers return at once, the handler of the
  catch frames links the throw to its frame.\<close>

definition probe_handler :: "program \<Rightarrow> frame_walk_pdata \<Rightarrow> addr \<Rightarrow> handler_call \<Rightarrow> eh_state \<Rightarrow> eh_state run" where
  "probe_handler P pd h c s =
     (case handler_at P h of
        Cxx_frame_handler3 \<Rightarrow> run_ret s
      | Cxx_frame_handler4 \<Rightarrow> run_ret s
      | GS_handler_check_EH \<Rightarrow> run_bind (run_eh (gs_handler P (hc_frame c) (hc_data c) s)) (\<lambda>_. run_ret s)
      | GS_handler_check_EH4 \<Rightarrow> run_bind (run_eh (gs_handler P (hc_frame c) (hc_data c) s)) (\<lambda>_. run_ret s)
      | Call_catch_frame_handler \<Rightarrow>
          run_bind (run_eh (cxx_call_catch_frame_handler P (m_image_base pd) exc_record_cookie (hc_frame c) rethrow_probe_cookie s))
            (\<lambda>(_, s). run_ret s)
      | Seh_frame_handler \<Rightarrow> run_bind (run_eh (cxx_seh_frame_handler exc_record_cookie)) (\<lambda>_. run_ret s)
      | Foreign_handler \<Rightarrow> run_ret (s\<lparr> stack := foreign P h (hc_frame c) (stack s) \<rparr>))"

text \<open>\<open>unwind_frame\<close> is the call \<^verbatim>\<open>pdata.unwind(*unwind_info, ctx, mach)\<close> on the registers of the throw
  frame. The probe works on these registers themselves (\<^verbatim>\<open>auto& [_, probe_ctx, probe_mach, ci]{frame}\<close>).\<close>

definition unwind_frame :: "program \<Rightarrow> addr \<Rightarrow> eh_state \<Rightarrow> eh_state eh" where
  "unwind_frame P ui s =
     eh_bind (unwind (image P) (stack s) ui (walk_ctx s) (walk_mach s)) (\<lambda>(c, m).
       Inr (s\<lparr> walk_ctx := c, walk_mach := m \<rparr>))"

partial_function (option) probe_for_exception :: "program \<Rightarrow> frame_walk_pdata \<Rightarrow> eh_state \<Rightarrow> eh_state run" where
  "probe_for_exception P pd s =
     (case execute_handler (probe_handler P pd) P pd rethrow_probe_cookie s of
        None \<Rightarrow> None
      | Some (Inl e) \<Rightarrow> Some (Inl e)
      | Some (Inr (ui, s)) \<Rightarrow>
          if exception_object_or_link (cur s) \<noteq> 0 then Some (Inr s)
          else case unwind_frame P ui s of Inl e \<Rightarrow> Some (Inl e)
               | Inr s \<Rightarrow> probe_for_exception P pd s)"

end
