(* ===== verification/Frame_Handler3.thy ===== *)
theory Frame_Handler3
  imports Exc_Probe
begin

text \<open>
  \<^verbatim>\<open>__CxxFrameHandler3\<close> (\<^verbatim>\<open>frame_handler3.cpp\<close>): the same task as \<^verbatim>\<open>__CxxFrameHandler4\<close> on the older,
  uncompressed tables. The layouts are those of \<^verbatim>\<open>exception_info.hpp\<close>.
\<close>

record try_block =
  tb_try_low :: int
  tb_try_high :: int
  tb_catch_high :: int
  tb_catch_count :: int
  tb_catch_handlers :: u32

definition read_try_block :: "memory \<Rightarrow> addr \<Rightarrow> int \<Rightarrow> try_block" where
  "read_try_block img a i =
     (let a = a + word_of_int (20 * i)
      in \<lparr> tb_try_low = sint (rd32 img a), tb_try_high = sint (rd32 img (a + 4)), tb_catch_high = sint (rd32 img (a + 8)),
           tb_catch_count = sint (rd32 img (a + 12)), tb_catch_handlers = rd32 img (a + 16) \<rparr>)"

record catch_handler =
  ch_adjectives :: u32
  ch_type_desc :: u32
  ch_catch_object_offset :: u32
  ch_handler :: u32
  ch_node_offset :: u32

definition read_catch_handler :: "memory \<Rightarrow> addr \<Rightarrow> nat \<Rightarrow> catch_handler" where
  "read_catch_handler img a i =
     (let a = a + of_nat (20 * i)
      in \<lparr> ch_adjectives = rd32 img a, ch_type_desc = rd32 img (a + 4), ch_catch_object_offset = rd32 img (a + 8),
           ch_handler = rd32 img (a + 12), ch_node_offset = rd32 img (a + 16) \<rparr>)"

record function_eh_info =
  fe_unwind_graph :: u32
  fe_try_block_count :: int
  fe_try_blocks :: u32
  fe_region_count :: u32
  fe_regions :: u32
  fe_eh_flags :: u32

definition read_eh_info :: "memory \<Rightarrow> addr \<Rightarrow> function_eh_info" where
  "read_eh_info img a = \<lparr> fe_unwind_graph = rd32 img (a + 8), fe_try_block_count = sint (rd32 img (a + 12)),
     fe_try_blocks = rd32 img (a + 16), fe_region_count = rd32 img (a + 20), fe_regions = rd32 img (a + 24),
     fe_eh_flags = rd32 img (a + 36) \<rparr>"

text \<open>\<open>eh_region\<close>: eight bytes, the first address and the state.\<close>

definition region_ip :: "memory \<Rightarrow> addr \<Rightarrow> u32 \<Rightarrow> u32" where
  "region_ip img a i = rd32 img (a + 8 * ucast i)"

definition region_st :: "memory \<Rightarrow> addr \<Rightarrow> u32 \<Rightarrow> int" where
  "region_st img a i = sint (rd32 img (a + 8 * ucast i + 4))"

text \<open>The loop \<^verbatim>\<open>for (i = 1; i != region_count; ++i)\<close> runs \<open>region_count - 1\<close> times, modulo \<open>2 ^ 32\<close>.\<close>

fun find_region :: "memory \<Rightarrow> addr \<Rightarrow> u32 \<Rightarrow> int \<Rightarrow> u32 \<Rightarrow> nat \<Rightarrow> int" where
  "find_region img a pc dflt i 0 = dflt"
| "find_region img a pc dflt i (Suc n) =
     (if pc < region_ip img a i then region_st img a (i - 1) else find_region img a pc dflt (i + 1) n)"

definition state_of_ip :: "memory \<Rightarrow> addr \<Rightarrow> function_eh_info \<Rightarrow> u32 \<Rightarrow> int" where
  "state_of_ip img base fe pc =
     (let a = rva_at base (fe_regions fe)
      in find_region img a pc (region_st img a (fe_region_count fe - 1)) 1 (unat (fe_region_count fe - 1)))"

section \<open>The funclet\<close>

text \<open>The primary frame pointer is stored in a node of the funclet's frame. \<open>i\<close> runs over the handlers.\<close>

fun find_node :: "program \<Rightarrow> addr \<Rightarrow> u32 \<Rightarrow> addr \<Rightarrow> addr \<Rightarrow> nat \<Rightarrow> nat \<Rightarrow> eh_state \<Rightarrow> addr eh" where
  "find_node P hs fn frame_ptr pfp i 0 s = Inr pfp"
| "find_node P hs fn frame_ptr pfp i (Suc n) s =
     (let h = read_catch_handler (image P) hs i in
      if ch_handler h = fn then
        let p = rd64 (stack s) (rva_at frame_ptr (ch_node_offset h))
        in if p < frame_ptr then Inl (Terminate CorruptedExceptionHandler) else Inr p
      else find_node P hs fn frame_ptr pfp (i + 1) n s)"

text \<open>The search for the try block whose catch funclet is running, from the last block down; \<open>n\<close> is
  \<^verbatim>\<open>home_block_index + 1\<close>. The result is the index (\<open>-1\<close> if there is none), the lowest state of the
  funclet and the primary frame pointer.\<close>

fun find_home :: "program \<Rightarrow> addr \<Rightarrow> addr \<Rightarrow> u32 \<Rightarrow> addr \<Rightarrow> int \<Rightarrow> addr \<Rightarrow> nat \<Rightarrow> eh_state \<Rightarrow> (int \<times> int \<times> addr) eh" where
  "find_home P base tries fn frame_ptr state pfp 0 s = Inr (-1, -1, pfp)"
| "find_home P base tries fn frame_ptr state pfp (Suc n) s =
     (let tb = read_try_block (image P) tries (int n) in
      if tb_try_high tb < state \<and> state \<le> tb_catch_high tb then
        eh_bind (if pfp < frame_ptr
                 then find_node P (rva_at base (tb_catch_handlers tb)) fn frame_ptr pfp 0 (nat (tb_catch_count tb)) s
                 else Inr pfp) (\<lambda>pfp. Inr (int n, tb_try_low tb, pfp))
      else find_home P base tries fn frame_ptr state pfp n s)"

section \<open>The search for a handler\<close>

fun match_handlers :: "program \<Rightarrow> addr \<Rightarrow> addr \<Rightarrow> addr \<Rightarrow> nat \<Rightarrow> nat \<Rightarrow> addr \<Rightarrow> eh_state \<Rightarrow> catch_handler option \<times> eh_state" where
  "match_handlers P base hs pfp i 0 ti s = (None, s)"
| "match_handlers P base hs pfp i (Suc n) ti s =
     (let h = read_catch_handler (image P) hs i;
          (caught, s) = process_catch_block P base (ch_adjectives h) (rva_at base (ch_type_desc h))
             (rva_at pfp (ch_catch_object_offset h)) (get_exception_object (cur s) s) (read_throw_info (image P) ti) s
      in if caught then (Some h, s) else match_handlers P base hs pfp (i + 1) n ti s)"

text \<open>The context of the function is stored through the pointer \<open>ctx\<close>, which is the value of
  \<^verbatim>\<open>unwind_context\<close>.\<close>

definition store_context :: "addr \<Rightarrow> int \<Rightarrow> int \<Rightarrow> memory \<Rightarrow> memory" where
  "store_context ctx state home m = wr32 (wr32 m (ctx + 4) (word_of_int home)) ctx (word_of_int state)"

text \<open>\<open>n\<close> try blocks are left, from index \<open>i\<close> on; the result is the chosen handler and the target state.\<close>

fun match_blocks :: "program \<Rightarrow> frame_walk_pdata \<Rightarrow> addr \<Rightarrow> addr \<Rightarrow> int \<Rightarrow> int \<Rightarrow> int \<Rightarrow> addr \<Rightarrow> addr \<Rightarrow> int \<Rightarrow> nat \<Rightarrow> eh_state
    \<Rightarrow> (catch_handler option \<times> int \<times> eh_state) run" where
  "match_blocks P pd tries pfp state low home ctx ti i 0 s = run_ret (None, low, s)"
| "match_blocks P pd tries pfp state low home ctx ti i (Suc n) s =
     (let tb = read_try_block (image P) tries i in
      if \<not> (tb_try_low tb \<le> state \<and> state \<le> tb_try_high tb) \<or> tb_try_low tb < low
      then match_blocks P pd tries pfp state low home ctx ti (i + 1) n s
      else run_bind (if ti = 0 then run_bind (probe_for_exception P pd s) (\<lambda>s. run_ret (get_throw_info (cur s) s, s))
                     else run_ret (ti, s)) (\<lambda>(ti, s).
           case match_handlers P (m_image_base pd) (rva_at (m_image_base pd) (tb_catch_handlers tb)) pfp 0
                  (nat (tb_catch_count tb)) ti s of
             (None, s) \<Rightarrow> match_blocks P pd tries pfp state low home ctx ti (i + 1) n s
           | (Some h, s) \<Rightarrow>
               run_ret (Some h, tb_try_low tb - 1,
                 s\<lparr> dc_handler := rva_at (m_image_base pd) (ch_handler h),
                    cur := (cur s)\<lparr> primary_frame_ptr := pfp \<rparr>,
                    stack := store_context ctx (tb_try_low tb - 1) home (stack s) \<rparr>)))"

text \<open>One edge of the unwind graph: the next state and the cleanup funclet.\<close>

definition edge_next :: "memory \<Rightarrow> addr \<Rightarrow> int \<Rightarrow> int" where
  "edge_next img g i = sint (rd32 img (g + word_of_int (8 * i)))"

definition cleanup :: "program \<Rightarrow> addr \<Rightarrow> addr \<Rightarrow> addr \<Rightarrow> int \<Rightarrow> eh_state \<Rightarrow> eh_state" where
  "cleanup P base frame_ptr g i s =
     (let h = rd32 (image P) (g + word_of_int (8 * i) + 4)
      in if h \<noteq> 0 then do_call P (Run_funclet (rva_at base h) frame_ptr) s else s)"

definition frame_handler3 :: "program \<Rightarrow> frame_walk_pdata \<Rightarrow> handler_call \<Rightarrow> eh_state
    \<Rightarrow> (ExceptionDisposition \<times> eh_state) run" where
  "frame_handler3 P pd c s =
     (if hc_cookie c = rethrow_probe_cookie then run_ret (CxxHandler, s)
      else if hc_cookie c \<noteq> unwind_cookie then run_ret (ContinueSearch, s)
      else
        let img = image P; base = m_image_base pd; frame_ptr = hc_frame c;
            ctx = unwind_context (cur s);
            fe = read_eh_info img (rva_at base (rd32 img (hc_data c)));
            tries = rva_at base (fe_try_blocks fe);
            pfp = primary_frame_ptr (cur s);
            (state, home) =
              (if pfp < frame_ptr
               then (state_of_ip img base fe (make_rva (rip (walk_mach s)) base), fe_try_block_count fe - 1)
               else (sint (rd32 (stack s) ctx), sint (rd32 (stack s) (ctx + 4))))
        in run_bind (run_eh (if pfp = frame_ptr then Inr (-1, -1, pfp)
                   else eh_bind (if home < -1 then Inr (home, -1, pfp)
                                 else find_home P base tries (fn_begin (hc_fn c)) frame_ptr state pfp (nat (home + 1)) s)
                          (\<lambda>(home, low, pfp). Inr (home, low, if pfp < frame_ptr then frame_ptr else pfp))))
           (\<lambda>(home, low, pfp).
           run_bind (match_blocks P pd tries pfp state low home ctx (get_throw_info (cur s) s) (home + 1)
                       (nat (fe_try_block_count fe - (home + 1))) s) (\<lambda>(target, target_state, s).
           if home = -1 \<and> target = None \<and> has_any_of (fe_eh_flags fe) 4 then Some (Inl (Terminate NoexceptViolation))
           else if target_state < low then Some (Inl (Terminate CorruptedFunctionUnwindState))
           else case unwind_states (cleanup P base frame_ptr (rva_at base (fe_unwind_graph fe)))
                       (edge_next img (rva_at base (fe_unwind_graph fe))) state target_state s of
                  None \<Rightarrow> None
                | Some s \<Rightarrow> run_ret (CxxHandler, s))))"

definition CxxFrameHandler3 :: "program \<Rightarrow> frame_walk_pdata \<Rightarrow> exception_record \<Rightarrow> handler_call \<Rightarrow> eh_state
    \<Rightarrow> (ExceptionDisposition \<times> eh_state) run" where
  "CxxFrameHandler3 P pd rec c s =
     (case rec of
        Seh_record flags \<Rightarrow> run_bind (run_eh (verify_seh flags)) (\<lambda>_. run_ret (ContinueSearch, s))
      | exc_record_cookie \<Rightarrow> frame_handler3 P pd c s)"

definition GSHandlerCheck_EH :: "program \<Rightarrow> frame_walk_pdata \<Rightarrow> exception_record \<Rightarrow> handler_call \<Rightarrow> eh_state
    \<Rightarrow> (ExceptionDisposition \<times> eh_state) run" where
  "GSHandlerCheck_EH P pd rec c s =
     run_bind (run_eh (gs_handler P (hc_frame c) (hc_data c) s)) (\<lambda>_. CxxFrameHandler3 P pd rec c s)"

end
