(* ===== verification/Frame_Handler4.thy ===== *)
theory Frame_Handler4
  imports Exc_Probe
begin

text \<open>
  \<^verbatim>\<open>__CxxFrameHandler4\<close> (\<^verbatim>\<open>frame_handler4.cpp\<close>): the compressed tables of a function are decoded, the
  state of the interrupted instruction is looked up, the try blocks around it are searched for a
  handler of the exception, and the objects of the states that are left are destroyed.
\<close>

section \<open>Tables\<close>

record exc_info =
  ei_flags :: byte
  ei_bbt_flags :: u32
  ei_unwind_graph :: u32
  ei_try_blocks :: u32
  ei_regions :: u32
  ei_primary_frame_ptr :: u32

text \<open>The map of the funclets, each with its RVA and that of its regions; \<open>n\<close> entries are left.\<close>

fun find_funclet :: "memory \<Rightarrow> addr \<Rightarrow> u32 \<Rightarrow> nat \<Rightarrow> u32" where
  "find_funclet img p fn 0 = 0"
| "find_funclet img p fn (Suc n) =
     (let (fn_rva, p) = read_rva img p; (regions, p) = read_rva img p
      in if fn_rva = fn then regions else find_funclet img p fn n)"

definition load_exception_info :: "memory \<Rightarrow> addr \<Rightarrow> addr \<Rightarrow> pe_function \<Rightarrow> exc_info" where
  "load_exception_info img data base fn =
     (let flags = img data; data = data + 1;
          (bbt, data) = (if has_any_of flags 0x04 then read_unsigned img data else (0, data));
          (graph, data) = (if has_any_of flags 0x08 then read_rva img data else (0, data));
          (tries, data) = (if has_any_of flags 0x10 then read_rva img data else (0, data));
          (regions, data) =
            (let (r, data) = read_rva img data
             in if has_any_of flags 0x02 then
                  let (count, p) = read_unsigned img (rva_at base r)
                  in (find_funclet img p (fn_begin fn) (unat count), data)
                else (r, data));
          primary = (if has_any_of flags 0x01 then fst (read_unsigned img data) else 0)
      in \<lparr> ei_flags = flags, ei_bbt_flags = bbt, ei_unwind_graph = graph, ei_try_blocks = tries,
           ei_regions = regions, ei_primary_frame_ptr = primary \<rparr>)"

text \<open>The state of an instruction: the regions are listed by increasing offset from the start of the
  function, each with the difference to its predecessor and its state plus one.\<close>

fun scan_regions :: "memory \<Rightarrow> addr \<Rightarrow> u32 \<Rightarrow> u32 \<Rightarrow> int \<Rightarrow> nat \<Rightarrow> int" where
  "scan_regions img p pc fn_rva state 0 = state"
| "scan_regions img p pc fn_rva state (Suc n) =
     (let (d, p) = read_unsigned img p; fn_rva = fn_rva + d
      in if pc < fn_rva then state
         else let (v, p) = read_unsigned img p in scan_regions img p pc fn_rva (sint (v - 1)) n)"

definition lookup_region :: "exc_info \<Rightarrow> memory \<Rightarrow> addr \<Rightarrow> u32 \<Rightarrow> addr \<Rightarrow> int" where
  "lookup_region ei img base fn control_pc =
     (if ei_regions ei = 0 then -1
      else let (region_count, p) = read_unsigned img (rva_at base (ei_regions ei))
           in scan_regions img p (make_rva control_pc (rva_at base fn)) 0 (-1) (unat region_count))"

section \<open>Destroying objects\<close>

datatype edge_type = Trivial | ObjectOffset | ObjectPtrOffset | FunctionEdge

definition edge_type_of :: "u32 \<Rightarrow> edge_type" where
  "edge_type_of w = (let t = unat (w AND 3) in
     if t = 0 then Trivial else if t = 1 then ObjectOffset else if t = 2 then ObjectPtrOffset else FunctionEdge)"

record unwind_edge =
  target_offset :: u32
  ue_type :: edge_type
  destroy_fn :: u32
  ue_object :: u32

definition read_edge :: "memory \<Rightarrow> addr \<Rightarrow> unwind_edge \<times> addr" where
  "read_edge img p =
     (let (w, p) = read_unsigned img p;
          t = edge_type_of w;
          (fn, p) = (if t \<noteq> Trivial then read_rva img p else (0, p));
          (obj, p) = (if t = ObjectOffset \<or> t = ObjectPtrOffset then read_unsigned img p else (0, p))
      in (\<lparr> target_offset = drop_bit 2 w, ue_type = t, destroy_fn = fn, ue_object = obj \<rparr>, p))"

definition skip_edge :: "memory \<Rightarrow> addr \<Rightarrow> addr" where
  "skip_edge img p = snd (read_edge img p)"

text \<open>The switch of the unwinding loop: \<open>p\<close> is the position after the offset and type.\<close>

definition run_edge :: "program \<Rightarrow> addr \<Rightarrow> addr \<Rightarrow> edge_type \<Rightarrow> addr \<Rightarrow> eh_state \<Rightarrow> eh_state" where
  "run_edge P base frame_ptr t p s =
     (case t of
        Trivial \<Rightarrow> s
      | ObjectOffset \<Rightarrow>
          let (fn, p) = read_rva (image P) p; (off, p) = read_unsigned (image P) p
          in do_call P (Destroy_object (rva_at base fn) (frame_ptr + ucast off)) s
      | ObjectPtrOffset \<Rightarrow>
          let (fn, p) = read_rva (image P) p; (off, p) = read_unsigned (image P) p
          in do_call P (Destroy_object (rva_at base fn) (rd64 (stack s) (frame_ptr + ucast off))) s
      | FunctionEdge \<Rightarrow>
          let (fn, p) = read_rva (image P) p in do_call P (Run_funclet (rva_at base fn) frame_ptr) s)"

text \<open>The position of the first edge, and that of the edge after the final state, are found by
  skipping edges.\<close>

fun scan_edges :: "memory \<Rightarrow> int \<Rightarrow> int \<Rightarrow> addr \<Rightarrow> addr \<Rightarrow> nat \<Rightarrow> addr \<times> addr" where
  "scan_edges img final idx cur_edge last_edge 0 = (cur_edge, last_edge)"
| "scan_edges img final idx cur_edge last_edge (Suc n) =
     (let cur_edge = skip_edge img cur_edge
      in scan_edges img final (idx + 1) cur_edge (if idx = final then cur_edge else last_edge) n)"

lemma signed_diff_step:
  assumes "o' \<noteq> (0::u32)" "\<not> sint (d :: 64 word) < int (unat o')"
  shows "sint (d - ucast o') = sint d - int (unat o')" "int (unat o') > 0"
proof -
  have pos: "0 \<le> sint d" using assms(2) by linarith
  have u: "uint (ucast o' :: 64 word) = int (unat o')"
    using unsigned_less [of o', where ?'a = int]
    by (simp add: unsigned_ucast_eq take_bit_int_eq_self order.strict_trans2)
  have d: "uint d = sint d"
    using pos sint_lt [of d] by (simp add: uint_sint take_bit_int_eq_self)
  then have "uint (d - ucast o') = sint d - int (unat o')"
    using assms(2) u by (simp add: uint_sub_lem [THEN iffD1])
  moreover have "sint d < 2 ^ 63" using sint_lt [of d] by simp
  then have "0 \<le> sint d - int (unat o')" "sint d - int (unat o') < 2 ^ 63"
    using assms(2) of_nat_0_le_iff [of "unat o'", where ?'a = int] by linarith+
  ultimately show "sint (d - ucast o') = sint d - int (unat o')"
    by (simp add: sint_uint signed_take_bit_int_eq_self)
  show "int (unat o') > 0" using assms(1) unat_gt_0 [of o'] by linarith
qed

function destroy_loop :: "program \<Rightarrow> addr \<Rightarrow> addr \<Rightarrow> addr \<Rightarrow> addr \<Rightarrow> eh_state \<Rightarrow> eh_state eh" where
  "destroy_loop P base frame_ptr cur_edge last_edge s =
     (let (w, p) = read_unsigned (image P) cur_edge; off = drop_bit 2 w
      in if off = 0 then Inl (Terminate CorruptedEhUnwindData)
         else let s = run_edge P base frame_ptr (edge_type_of w) p s
              in if sint (cur_edge - last_edge) < int (unat off) then Inr s
                 else destroy_loop P base frame_ptr (cur_edge - ucast off) last_edge s)"
  by pat_completeness auto

termination destroy_loop
proof (relation "measure (\<lambda>(_, _, _, c, l, _). nat (sint (c - l)))", goal_cases)
  case (2 P base frame_ptr c l s x w p off s')
  then have "sint (c - l - ucast off) = sint (c - l) - int (unat off)" "int (unat off) > 0"
    using signed_diff_step [of off "c - l"] by auto
  then have "sint (c - ucast off - l) < sint (c - l)" by (simp add: diff_right_commute [of c])
  moreover have "0 < sint (c - l)" using 2 \<open>int (unat off) > 0\<close> by linarith
  ultimately show ?case by simp
qed simp

declare destroy_loop.simps [simp del]

definition destroy_objects :: "program \<Rightarrow> addr \<Rightarrow> u32 \<Rightarrow> addr \<Rightarrow> int \<Rightarrow> int \<Rightarrow> eh_state \<Rightarrow> eh_state eh" where
  "destroy_objects P base graph_rva frame_ptr initial_state final_state s =
     (let (count, graph) = read_unsigned (image P) (rva_at base graph_rva)
      in if initial_state < 0 \<or> word_of_int initial_state \<ge> count then Inl (Terminate CorruptedEhUnwindData)
         else let (cur_edge, last_edge) = scan_edges (image P) final_state 0 graph graph (nat initial_state);
                  last_edge = (if initial_state = final_state then cur_edge else last_edge)
              in destroy_loop P base frame_ptr cur_edge last_edge s)"


section \<open>The frame handler\<close>

text \<open>One entry of a handler list.\<close>

record catch_entry =
  ce_type_flags :: u32
  ce_type :: u32
  ce_catch_var :: u32
  ce_handler :: u32
  ce_conts :: "addr list"

fun read_conts :: "(addr \<Rightarrow> addr \<times> addr) \<Rightarrow> addr \<Rightarrow> nat \<Rightarrow> addr list \<times> addr" where
  "read_conts get q 0 = ([], q)"
| "read_conts get q (Suc n) = (let (a, q) = get q; (as, q) = read_conts get q n in (a # as, q))"

definition read_catch_entry :: "memory \<Rightarrow> addr \<Rightarrow> u32 \<Rightarrow> addr \<Rightarrow> catch_entry \<times> addr" where
  "read_catch_entry img base fn q =
     (let flags = img q; q = q + 1;
          (type_flags, q) = (if has_any_of flags 0x01 then read_unsigned img q else (0, q));
          (type, q) = (if has_any_of flags 0x02 then read_rva img q else (0, q));
          count = flag_get 0x30 flags;
          (catch_var, q) = (if has_any_of flags 0x04 then read_unsigned img q else (0, q));
          (handler, q) = read_rva img q;
          (conts, q) = read_conts (\<lambda>q. if has_any_of flags 0x08
               then (let (r, q) = read_rva img q in (rva_at base r, q))
               else (let (d, q) = read_unsigned img q in (rva_at base fn + ucast d, q))) q (unat count)
      in (\<lparr> ce_type_flags = type_flags, ce_type = type, ce_catch_var = catch_var, ce_handler = handler,
            ce_conts = conts \<rparr>, q))"

text \<open>The continuation addresses are stored into an array of two: a third one is out of bounds.\<close>

fun store_conts :: "nat \<Rightarrow> addr list \<Rightarrow> catch_info \<Rightarrow> catch_info eh" where
  "store_conts k [] ci = Inr ci"
| "store_conts k (a # as) ci =
     (if k < 2 then store_conts (k + 1) as (ci\<lparr> continuation_address := (continuation_address ci)[k := a] \<rparr>)
      else Inl Fault)"

text \<open>The handlers of a try block with the lower state \<open>try_low\<close>; the flag says whether one was chosen.\<close>

fun try_handlers :: "program \<Rightarrow> addr \<Rightarrow> u32 \<Rightarrow> addr \<Rightarrow> u32 \<Rightarrow> addr \<Rightarrow> addr \<Rightarrow> nat \<Rightarrow> eh_state \<Rightarrow> (bool \<times> eh_state) eh" where
  "try_handlers P base fn pfp try_low ti q 0 s = Inr (False, s)"
| "try_handlers P base fn pfp try_low ti q (Suc n) s =
     (let (e, q) = read_catch_entry (image P) base fn q in
      eh_bind (store_conts 0 (ce_conts e) (cur s)) (\<lambda>ci.
        let s = s\<lparr> cur := ci \<rparr>;
            (caught, s) = process_catch_block P base (ce_type_flags e) (rva_at base (ce_type e)) (rva_at pfp (ce_catch_var e))
                  (get_exception_object (cur s) s) (read_throw_info (image P) ti) s
        in if caught then
             Inr (True, s\<lparr> dc_handler := rva_at base (ce_handler e),
                cur := (cur s)\<lparr> primary_frame_ptr := pfp, unwind_context := word_of_int (sint (try_low - 1)) \<rparr> \<rparr>)
           else try_handlers P base fn pfp try_low ti q n s))"

text \<open>The try blocks around the state, in the order of the table; the result carries
  \<^verbatim>\<open>target_state\<close>. A rethrow probes for its object before the first block it enters.\<close>

fun try_blocks :: "program \<Rightarrow> frame_walk_pdata \<Rightarrow> u32 \<Rightarrow> addr \<Rightarrow> int \<Rightarrow> addr \<Rightarrow> int \<Rightarrow> addr \<Rightarrow> nat \<Rightarrow> eh_state
    \<Rightarrow> (int \<times> eh_state) run" where
  "try_blocks P pd fn pfp state ti target p 0 s = run_ret (target, s)"
| "try_blocks P pd fn pfp state ti target p (Suc n) s =
     (let (try_low, p) = read_unsigned (image P) p;
          (try_high, p) = read_unsigned (image P) p;
          (catch_high, p) = read_unsigned (image P) p;
          (handlers, p) = read_rva (image P) p
      in if try_low > word_of_int state \<or> word_of_int state > try_high
         then try_blocks P pd fn pfp state ti target p n s
         else run_bind (if ti = 0 then run_bind (probe_for_exception P pd s) (\<lambda>s. run_ret (get_throw_info (cur s) s, s))
                        else run_ret (ti, s)) (\<lambda>(ti, s).
              let (count, q) = read_unsigned (image P) (rva_at (m_image_base pd) handlers)
              in run_bind (run_eh (try_handlers P (m_image_base pd) fn pfp try_low ti q (unat count) s)) (\<lambda>(caught, s).
                 let target = (if caught then sint (try_low - 1) else target)
                 in if dc_handler s \<noteq> 0 then run_ret (target, s)
                    else try_blocks P pd fn pfp state ti target p n s)))"

text \<open>\<open>frame_handler4\<close> is the body behind the checks of \<^verbatim>\<open>__CxxFrameHandler4\<close>.\<close>

definition initial_frame :: "program \<Rightarrow> frame_walk_pdata \<Rightarrow> handler_call \<Rightarrow> exc_info \<Rightarrow> eh_state \<Rightarrow> addr \<times> int" where
  "initial_frame P pd c ei s =
     (if primary_frame_ptr (cur s) \<ge> hc_frame c
      then (primary_frame_ptr (cur s), sint (ucast (unwind_context (cur s)) :: u32))
      else (if has_any_of (ei_flags ei) 0x01 then rd64 (stack s) (rva_at (hc_frame c) (ei_primary_frame_ptr ei)) else hc_frame c,
            lookup_region ei (image P) (m_image_base pd) (fn_begin (hc_fn c)) (rip (walk_mach s))))"

definition frame_handler4 :: "program \<Rightarrow> frame_walk_pdata \<Rightarrow> handler_call \<Rightarrow> eh_state
    \<Rightarrow> (ExceptionDisposition \<times> eh_state) run" where
  "frame_handler4 P pd c s =
     (if hc_cookie c = rethrow_probe_cookie then run_ret (CxxHandler, s)
      else if hc_cookie c \<noteq> unwind_cookie then run_ret (ContinueSearch, s)
      else
        let base = m_image_base pd;
            ei = load_exception_info (image P) (rva_at base (rd32 (image P) (hc_data c))) base (hc_fn c);
            (pfp, initial_state) = initial_frame P pd c ei s
        in run_bind (if ei_try_blocks ei \<noteq> 0 \<and> initial_state \<ge> 0 then
               let (count, p) = read_unsigned (image P) (rva_at base (ei_try_blocks ei))
               in try_blocks P pd (fn_begin (hc_fn c)) pfp initial_state (get_throw_info (cur s) s) (-1) p (unat count) s
             else run_ret (-1, s)) (\<lambda>(target_state, s).
           if target_state < initial_state then
             run_bind (run_eh (destroy_objects P base (ei_unwind_graph ei) (hc_frame c) initial_state target_state s)) (\<lambda>s.
               run_ret (CxxHandler, s))
           else run_ret (CxxHandler, s)))"

definition CxxFrameHandler4 :: "program \<Rightarrow> frame_walk_pdata \<Rightarrow> exception_record \<Rightarrow> handler_call \<Rightarrow> eh_state
    \<Rightarrow> (ExceptionDisposition \<times> eh_state) run" where
  "CxxFrameHandler4 P pd rec c s =
     (case rec of
        Seh_record flags \<Rightarrow> run_bind (run_eh (verify_seh flags)) (\<lambda>_. run_ret (ContinueSearch, s))
      | exc_record_cookie \<Rightarrow> frame_handler4 P pd c s)"

definition GSHandlerCheck_EH4 :: "program \<Rightarrow> frame_walk_pdata \<Rightarrow> exception_record \<Rightarrow> handler_call \<Rightarrow> eh_state
    \<Rightarrow> (ExceptionDisposition \<times> eh_state) run" where
  "GSHandlerCheck_EH4 P pd rec c s =
     run_bind (run_eh (gs_handler P (hc_frame c) (hc_data c) s)) (\<lambda>_. CxxFrameHandler4 P pd rec c s)"

end
