(* ===== verification/Exc_Dispatch.thy ===== *)
theory Exc_Dispatch
  imports Frame_Handler3 Frame_Handler4
begin

text \<open>
  The dispatch of an exception (\<^verbatim>\<open>__cxx_dispatch_exception\<close> in \<^verbatim>\<open>catch.cpp\<close>): the handler of each frame is
  run, from the throwing function outwards, until one has chosen a catch block; a frame that has
  none is unwound. \<open>run_handler\<close> is the call through the handler pointer of a function.
\<close>

definition run_handler :: "program \<Rightarrow> frame_walk_pdata \<Rightarrow> addr \<Rightarrow> handler_call \<Rightarrow> eh_state \<Rightarrow> eh_state run" where
  "run_handler P pd h c s =
     (let ret = (\<lambda>r. run_bind r (\<lambda>(d, s). run_ret s)) in
      case handler_at P h of
        Cxx_frame_handler3 \<Rightarrow> ret (CxxFrameHandler3 P pd exc_record_cookie c s)
      | Cxx_frame_handler4 \<Rightarrow> ret (CxxFrameHandler4 P pd exc_record_cookie c s)
      | GS_handler_check_EH \<Rightarrow> ret (GSHandlerCheck_EH P pd exc_record_cookie c s)
      | GS_handler_check_EH4 \<Rightarrow> ret (GSHandlerCheck_EH4 P pd exc_record_cookie c s)
      | Call_catch_frame_handler \<Rightarrow>
          ret (run_eh (cxx_call_catch_frame_handler P (m_image_base pd) exc_record_cookie (hc_frame c) (hc_cookie c) s))
      | Seh_frame_handler \<Rightarrow> run_bind (run_eh (cxx_seh_frame_handler exc_record_cookie)) (\<lambda>_. run_ret s)
      | Foreign_handler \<Rightarrow> run_ret (s\<lparr> stack := foreign P h (hc_frame c) (stack s) \<rparr>))"

partial_function (option) dispatch_loop :: "program \<Rightarrow> frame_walk_pdata \<Rightarrow> eh_state \<Rightarrow> (addr \<times> eh_state) run" where
  "dispatch_loop P pd s =
     (case execute_handler (run_handler P pd) P pd unwind_cookie s of
        None \<Rightarrow> None
      | Some (Inl e) \<Rightarrow> Some (Inl e)
      | Some (Inr (ui, s)) \<Rightarrow>
          if dc_handler s \<noteq> 0 then Some (Inr (dc_handler s, s))
          else case unwind_frame P ui s of Inl e \<Rightarrow> Some (Inl e) | Inr s \<Rightarrow> dispatch_loop P pd s)"

definition cxx_dispatch_exception :: "program \<Rightarrow> addr \<Rightarrow> addr \<Rightarrow> addr \<Rightarrow> eh_state \<Rightarrow> (addr \<times> eh_state) run" where
  "cxx_dispatch_exception P base obj ti s =
     run_bind (run_eh (pdata_of_image (image P) base)) (\<lambda>pd. dispatch_loop P pd (start_throw obj ti s))"

text \<open>Under the probe cookie the handlers do what \<open>probe_handler\<close> says.\<close>

lemma run_handler_probe:
  assumes "hc_cookie c = rethrow_probe_cookie"
  shows "run_handler P pd h c s = probe_handler P pd h c s"
proof -
  have gs: "run_bind (run_bind (Some g) (\<lambda>_. run_ret (d, s))) (\<lambda>(d, s). run_ret s) = run_bind (Some g) (\<lambda>_. run_ret s)"
    for g :: "unit eh" and d :: ExceptionDisposition by (cases g) auto
  show ?thesis
    using assms gs
    by (cases "handler_at P h")
      (simp_all add: run_handler_def probe_handler_def CxxFrameHandler3_def CxxFrameHandler4_def GSHandlerCheck_EH_def
        GSHandlerCheck_EH4_def frame_handler3_def frame_handler4_def Let_def)
qed

end
