(* ===== verification/Exc_Catch_Spec.thy ===== *)
theory Exc_Catch_Spec
  imports Exc_Catch
begin

text \<open>
  Properties of catching: which catch block accepts an exception and what the catch variable holds,
  and the lifetime of exception objects over arbitrary sequences of throws, rethrows, unwinding
  through active catch frames, catches and ends of catch blocks (\<open>eh_step\<close>).
\<close>

section \<open>Stores\<close>

lemma store_bytes_other:
  assumes "\<And>i. i < length bs \<Longrightarrow> b \<noteq> a + of_nat i"
  shows "store_bytes m a bs b = m b"
  using assms
proof (induction bs arbitrary: m a)
  case (Cons x bs)
  have "b \<noteq> a" using Cons.prems [of 0] by simp
  moreover have "store_bytes (m(a := x)) (a + 1) bs b = (m(a := x)) b"
  proof (rule Cons.IH)
    fix i assume "i < length bs"
    then show "b \<noteq> a + 1 + of_nat i" using Cons.prems [of "Suc i"] by (simp add: algebra_simps)
  qed
  ultimately show ?case by simp
qed simp

lemma store_bytes_holds:
  assumes "length bs < 2 ^ 64"
  shows "holds (store_bytes m a bs) a bs"
  using assms
proof (induction bs arbitrary: m a)
  case (Cons x bs)
  have "store_bytes (m(a := x)) (a + 1) bs a = (m(a := x)) a"
  proof (rule store_bytes_other)
    fix i assume "i < length bs"
    then have "Suc i < 2 ^ 64" using Cons.prems by simp
    then have "unat (of_nat (Suc i) :: addr) = Suc i" by (simp only: unat_of_nat) simp
    then have "(of_nat (Suc i) :: addr) \<noteq> 0" by (metis nat.distinct(1) unat_0)
    then show "a \<noteq> a + 1 + of_nat i" by (simp add: add.assoc)
  qed
  then show ?case using Cons by (simp add: holds_Cons)
qed simp

lemma rd64_wr64 [simp]: "rd64 (wr64 m a v) a = v"
  unfolding wr64_def by (rule rd64_holds, rule store_bytes_holds) simp

section \<open>Matching\<close>

lemma find_catchable_eq_None:
  "find_catchable P base ty lst i n = None \<longleftrightarrow>
     \<not> (\<exists>j. i \<le> j \<and> j < i + n \<and> rva_at base (ct_desc (catchable_at P base lst j)) = ty)"
proof (induction n arbitrary: i)
  case (Suc n)
  have "(\<exists>j. i \<le> j \<and> j < i + Suc n \<and> P' j) \<longleftrightarrow> P' i \<or> (\<exists>j. i + 1 \<le> j \<and> j < i + 1 + n \<and> P' j)" for P'
    by (metis Suc_eq_plus1 add_Suc_right add_Suc_shift le_antisym le_eq_less_or_eq not_less_eq_eq less_add_Suc1 Suc_leD)
  with Suc show ?case by (simp add: Let_def)
qed simp

definition catchable_as :: "program \<Rightarrow> addr \<Rightarrow> throw_info \<Rightarrow> addr \<Rightarrow> bool" where
  "catchable_as P base ti ty \<longleftrightarrow>
     (let lst = rva_at base (ti_catchables ti) in
      \<exists>j. j < unat (rd32 (image P) lst) \<and> rva_at base (ct_desc (catchable_at P base lst j)) = ty)"

lemma catchable_as_iff:
  "catchable_as P base ti ty \<longleftrightarrow>
     (let lst = rva_at base (ti_catchables ti) in find_catchable P base ty lst 0 (unat (rd32 (image P) lst)) \<noteq> None)"
  unfolding catchable_as_def Let_def using find_catchable_eq_None by simp

definition drops_qualifier :: "u32 \<Rightarrow> throw_info \<Rightarrow> bool" where
  "drops_qualifier adjectives ti \<longleftrightarrow>
     (\<exists>q \<in> {0, 1, 2}. bit (ti_attributes ti) q \<and> \<not> bit adjectives q)"

lemma qualifier_mask:
  "(ti_attributes ti AND (1 OR 2 OR 4)) AND NOT adjectives \<noteq> 0 \<longleftrightarrow> drops_qualifier adjectives ti"
proof -
  have m: "(1 OR 2 OR 4 :: u32) = mask 3" by (simp add: mask_eq_decr_exp)
  have "(ti_attributes ti AND (1 OR 2 OR 4)) AND NOT adjectives = 0 \<longleftrightarrow>
      (\<forall>n. \<not> (n < 3 \<and> bit (ti_attributes ti) n \<and> \<not> bit adjectives n))"
    unfolding m by (simp add: bit_eq_iff bit_simps) (rule iffI; clarsimp)
  then show ?thesis by (auto simp: drops_qualifier_def less_Suc_eq numeral_3_eq_3 numeral_2_eq_2)
qed

text \<open>
  A catch block accepts an exception exactly when it is \<^verbatim>\<open>catch (...)\<close>, or the thrown object has no
  \<^verbatim>\<open>const\<close>, \<^verbatim>\<open>volatile\<close> or \<^verbatim>\<open>__unaligned\<close> qualifier that the catch block lacks and the type of the block
  is among the catchable types of the throw. A block that does not accept leaves the state alone.
\<close>

theorem catch_block_accepts:
  "(fst (process_catch_block P base adjectives ty var obj ti s) \<longleftrightarrow>
      has_any_of adjectives 0x40 \<or> (\<not> drops_qualifier adjectives ti \<and> catchable_as P base ti ty)) \<and>
   (fst (process_catch_block P base adjectives ty var obj ti s) \<or>
      snd (process_catch_block P base adjectives ty var obj ti s) = s)"
  unfolding process_catch_block_def process_catch_block_unchecked_def qualifier_mask catchable_as_iff Let_def
  by (auto split: option.split)

text \<open>
  A block that catches by reference binds the catch variable to the exception object itself, at
  its own address, whatever base class the block names: the offset of the base in the object
  (\<open>ct_offset\<close>) is not applied.
\<close>

theorem catch_by_reference:
  assumes "catchable_as P base ti ty" "\<not> drops_qualifier adjectives ti"
    and "has_any_of adjectives 8" "\<not> has_any_of adjectives 0x40"
  shows "\<exists>s'. process_catch_block P base adjectives ty var obj ti s = (True, s') \<and>
     rd64 (stack s') var = obj \<and> calls s' = calls s \<and> cur s' = cur s \<and> infos s' = infos s"
proof -
  let ?lst = "rva_at base (ti_catchables ti)"
  obtain ct where "find_catchable P base ty ?lst 0 (unat (rd32 (image P) ?lst)) = Some ct"
    using assms(1) unfolding catchable_as_iff Let_def by auto
  then have "process_catch_block P base adjectives ty var obj ti s = (True, s\<lparr> stack := wr64 (stack s) var obj \<rparr>)"
    using assms unfolding process_catch_block_def process_catch_block_unchecked_def qualifier_mask
    by (simp add: transfer_to_catch_block_def)
  then show ?thesis by simp
qed


definition throw_image :: program where
  "throw_image = \<lparr> image = mem_of [(0x10, [0, 0, 0, 0, 0, 0, 0, 0, 0, 0, 0, 0, 0x20, 0, 0, 0]),
       (0x20, [1, 0, 0, 0, 0x30, 0, 0, 0]), (0x30, [0, 0, 0, 0, 0x90, 0, 0, 0])], client = (\<lambda>_ m. m),
     handler_at = (\<lambda>_. Foreign_handler), foreign = (\<lambda>_ _ m. m), gs_ok = (\<lambda>_ _ _. True) \<rparr>"

definition idle_info :: catch_info where
  "idle_info = \<lparr> continuation_address = [0, 0], primary_frame_ptr = 0, exception_object_or_link = 0,
     throw_info_if_owner = 0, unwind_context = 0 \<rparr>"

definition idle_state :: eh_state where
  "idle_state = \<lparr> stack = (\<lambda>_. 0), infos = (\<lambda>_. idle_info), cur = idle_info, dc_handler = 0,
     walk_ctx = \<lparr> gp_regs = replicate 8 0, xmm_regs = replicate 10 0, dummy_rsp = 0, dummy_rip = 0 \<rparr>,
     walk_mach = \<lparr> rip = 0, cs = 0, eflags = 0, rsp = 0, ss = 0 \<rparr>, calls = [] \<rparr>"

theorem catch_by_reference_witness:
  "\<exists>s'. process_catch_block throw_image 0 8 0x90 0x1000 0x2000 (read_throw_info (image throw_image) 0x10) idle_state = (True, s') \<and>
     rd64 (stack s') 0x1000 = 0x2000 \<and> calls s' = calls idle_state \<and> cur s' = cur idle_state \<and> infos s' = infos idle_state"
proof (rule catch_by_reference)
  show "catchable_as throw_image 0 (read_throw_info (image throw_image) 0x10) 0x90"
    unfolding catchable_as_def Let_def
    by (rule exI [of _ 0]) (simp add: throw_image_def read_throw_info_def eval_mem rva_at_def catchable_at_def read_catchable_def)
qed (simp_all add: throw_image_def read_throw_info_def eval_mem drops_qualifier_def has_any_of_def)


section \<open>Lifetime of exception objects\<close>

text \<open>
  The steps follow \<^verbatim>\<open>_CxxThrowException\<close> (\<^verbatim>\<open>capture.asm\<close>): a throw or rethrow starts the dispatch; while
  the dispatcher walks the stack it runs the handler of each active catch frame it leaves; before a
  catch block can be selected a rethrow finds its object by a probe; a selected catch block becomes
  a new active catch frame; when the block ends, \<^verbatim>\<open>__cxx_destroy_exception\<close> is called for it. \<open>active\<close>
  lists the catch infos of the active catch frames, innermost first.
\<close>

datatype eh_mode = Running | Throwing

record eh_world =
  active :: "addr list"
  es :: eh_state
  emode :: eh_mode
  thrown :: "addr list"

definition owner :: "catch_info \<Rightarrow> bool" where
  "owner ci \<longleftrightarrow> throw_info_if_owner ci \<noteq> 0"

definition holders :: "eh_world \<Rightarrow> catch_info list" where
  "holders w = (if emode w = Throwing then [cur (es w)] else []) @ map (infos (es w)) (active w)"

definition owned :: "eh_world \<Rightarrow> addr list" where
  "owned w = map exception_object_or_link (filter owner (holders w))"

definition has_destructor :: "program \<Rightarrow> addr \<Rightarrow> bool" where
  "has_destructor P ti \<longleftrightarrow> ti_destroy_exc_obj (read_throw_info (image P) ti) \<noteq> 0"

inductive eh_step :: "program \<Rightarrow> addr \<Rightarrow> eh_world \<Rightarrow> eh_world \<Rightarrow> bool" for P base where
  throw_new: "emode w = Running \<Longrightarrow> obj \<noteq> 0 \<Longrightarrow> ti \<noteq> 0 \<Longrightarrow> has_destructor P ti \<Longrightarrow>
     obj \<notin> set (owned w) \<Longrightarrow> obj \<notin> set (active w) \<Longrightarrow>
     eh_step P base w (w\<lparr> es := start_throw obj ti (es w), emode := Throwing, thrown := obj # thrown w \<rparr>)"
| rethrow: "emode w = Running \<Longrightarrow>
     eh_step P base w (w\<lparr> es := start_throw 0 0 (es w), emode := Throwing \<rparr>)"
| probe: "emode w = Throwing \<Longrightarrow> active w = catch_info_of_frame fp # as \<Longrightarrow>
     exception_object_or_link (cur (es w)) = 0 \<Longrightarrow>
     cxx_call_catch_frame_handler P base exc_record_cookie fp rethrow_probe_cookie (es w) = Inr (d, s) \<Longrightarrow>
     eh_step P base w (w\<lparr> es := s \<rparr>)"
| leave_frame: "emode w = Throwing \<Longrightarrow> active w = catch_info_of_frame fp # as \<Longrightarrow>
     cxx_call_catch_frame_handler P base exc_record_cookie fp unwind_cookie (es w) = Inr (d, s) \<Longrightarrow>
     eh_step P base w (w\<lparr> active := as, es := s \<rparr>)"
| enter_catch: "emode w = Throwing \<Longrightarrow> exception_object_or_link (cur (es w)) \<noteq> 0 \<Longrightarrow>
     a \<notin> set (active w) \<Longrightarrow> a \<notin> set (owned w) \<Longrightarrow> a \<noteq> 0 \<Longrightarrow>
     eh_step P base w (w\<lparr> es := (es w)\<lparr> infos := (infos (es w))(a := cur (es w)) \<rparr>,
       emode := Running, active := a # active w \<rparr>)"
| end_catch: "emode w = Running \<Longrightarrow> active w = a # as \<Longrightarrow>
     eh_step P base w (w\<lparr> es := cxx_destroy_exception P base (infos (es w) a) (es w), active := as \<rparr>)"

fun links_ok :: "(addr \<Rightarrow> catch_info) \<Rightarrow> addr list \<Rightarrow> bool" where
  "links_ok f [] \<longleftrightarrow> True"
| "links_ok f (a # as) \<longleftrightarrow> links_ok f as \<and>
     (owner (f a) \<or> exception_object_or_link (f a) \<in> set as \<and> owner (f (exception_object_or_link (f a))))"

fun is_destroy :: "addr \<Rightarrow> eh_call \<Rightarrow> bool" where
  "is_destroy x (Destroy_exception _ y) \<longleftrightarrow> x = y"
| "is_destroy x _ \<longleftrightarrow> False"

definition destroyed :: "eh_world \<Rightarrow> addr \<Rightarrow> nat" where
  "destroyed w x = length (filter (is_destroy x) (calls (es w)))"

definition eh_inv :: "program \<Rightarrow> eh_world \<Rightarrow> bool" where
  "eh_inv P w \<longleftrightarrow> distinct (active w) \<and> 0 \<notin> set (active w) \<and>
     distinct (owned w) \<and> 0 \<notin> set (owned w) \<and> set (owned w) \<inter> set (active w) = {} \<and>
     (\<forall>ci \<in> set (holders w). owner ci \<longrightarrow> has_destructor P (throw_info_if_owner ci)) \<and>
     links_ok (infos (es w)) (active w) \<and>
     (emode w = Throwing \<longrightarrow> owner (cur (es w)) \<or> exception_object_or_link (cur (es w)) = 0 \<or>
        exception_object_or_link (cur (es w)) \<in> set (active w) \<and>
        owner (infos (es w) (exception_object_or_link (cur (es w))))) \<and>
     (\<forall>x. count_list (thrown w) x = destroyed w x + count_list (owned w) x)"

lemma destroy_exception_frame [simp]:
  "infos (cxx_destroy_exception P base ci s) = infos s" "cur (cxx_destroy_exception P base ci s) = cur s"
  by (simp_all add: cxx_destroy_exception_def do_call_def Let_def)

lemma destroy_exception_calls:
  assumes "owner ci \<Longrightarrow> has_destructor P (throw_info_if_owner ci)"
  shows "length (filter (is_destroy x) (calls (cxx_destroy_exception P base ci s))) =
     length (filter (is_destroy x) (calls s)) + (if owner ci \<and> exception_object_or_link ci = x then 1 else 0)"
  using assms by (auto simp: cxx_destroy_exception_def do_call_def Let_def owner_def has_destructor_def)

lemma links_ok_update: "a \<notin> set as \<Longrightarrow> links_ok f as \<Longrightarrow> links_ok (f(a := c)) as"
  by (induction as) auto

lemma map_update_other: "a \<notin> set as \<Longrightarrow> map (f(a := c)) as = map f as"
  by (induction as) auto

lemma eh_invD:
  assumes "eh_inv P w"
  shows "distinct (active w)" "0 \<notin> set (active w)" "distinct (owned w)" "0 \<notin> set (owned w)"
    "set (owned w) \<inter> set (active w) = {}"
    "\<And>ci. ci \<in> set (holders w) \<Longrightarrow> owner ci \<Longrightarrow> has_destructor P (throw_info_if_owner ci)"
    "links_ok (infos (es w)) (active w)"
    "emode w = Throwing \<Longrightarrow> owner (cur (es w)) \<or> exception_object_or_link (cur (es w)) = 0 \<or>
        exception_object_or_link (cur (es w)) \<in> set (active w) \<and>
        owner (infos (es w) (exception_object_or_link (cur (es w))))"
    "\<And>x. count_list (thrown w) x = destroyed w x + count_list (owned w) x"
  using assms unfolding eh_inv_def by blast+

lemma holders_Throwing: "emode w = Throwing \<Longrightarrow> holders w = cur (es w) # map (infos (es w)) (active w)"
  by (simp add: holders_def)

lemma holders_Running: "emode w = Running \<Longrightarrow> holders w = map (infos (es w)) (active w)"
  by (simp add: holders_def)

text \<open>An owner holds an object, which is neither null nor the address of an active frame.\<close>

lemma cur_not_owner:
  assumes "eh_inv P w" "emode w = Throwing" "exception_object_or_link (cur (es w)) \<in> insert 0 (set (active w))"
  shows "\<not> owner (cur (es w))"
proof
  assume "owner (cur (es w))"
  then have "exception_object_or_link (cur (es w)) \<in> set (owned w)"
    using assms(2) by (simp add: owned_def holders_Throwing)
  then show False using assms(3) eh_invD(4,5) [OF assms(1)] by auto
qed

lemma throw_inv:
  assumes "eh_inv P w" "emode w = Running" "obj \<noteq> 0" "ti \<noteq> 0" "has_destructor P ti"
    "obj \<notin> set (owned w)" "obj \<notin> set (active w)"
  shows "eh_inv P (w\<lparr> es := start_throw obj ti (es w), emode := Throwing, thrown := obj # thrown w \<rparr>)" (is "eh_inv P ?w")
proof -
  have h: "holders ?w = cur (es ?w) # holders w" using assms(2) by (simp add: holders_def start_throw_def)
  have o: "owned ?w = obj # owned w" using assms(4) unfolding owned_def h by (simp add: owner_def start_throw_def)
  have d: "destroyed ?w = destroyed w" by (simp add: fun_eq_iff destroyed_def start_throw_def)
  have c: "owner (cur (es ?w))" "throw_info_if_owner (cur (es ?w)) = ti"
    "infos (es ?w) = infos (es w)" "active ?w = active w" "thrown ?w = obj # thrown w"
    using assms(4) by (simp_all add: owner_def start_throw_def)
  show ?thesis unfolding eh_inv_def h o d c using eh_invD [OF assms(1)] assms(3-) c by auto
qed

lemma rethrow_inv:
  assumes "eh_inv P w" "emode w = Running"
  shows "eh_inv P (w\<lparr> es := start_throw 0 0 (es w), emode := Throwing \<rparr>)" (is "eh_inv P ?w")
proof -
  have h: "holders ?w = cur (es ?w) # holders w" using assms(2) by (simp add: holders_def start_throw_def)
  have o: "owned ?w = owned w" unfolding owned_def h by (simp add: owner_def start_throw_def)
  have d: "destroyed ?w = destroyed w" by (simp add: fun_eq_iff destroyed_def start_throw_def)
  have c: "\<not> owner (cur (es ?w))" "exception_object_or_link (cur (es ?w)) = 0"
    "infos (es ?w) = infos (es w)" "active ?w = active w" "thrown ?w = thrown w"
    by (simp_all add: owner_def start_throw_def)
  show ?thesis unfolding eh_inv_def h o d c using eh_invD [OF assms(1)] c by auto
qed

text \<open>The current throw takes over a link, keeping what it owns.\<close>

lemma relink_inv:
  assumes w: "eh_inv P w" "emode w = Throwing" and e: "exception_object_or_link (cur (es w)) = 0"
    and l: "l \<in> set (active w)" "owner (infos (es w) l)"
  shows "eh_inv P (w\<lparr> es := (es w)\<lparr> cur := (cur (es w))\<lparr> exception_object_or_link := l \<rparr> \<rparr> \<rparr>)" (is "eh_inv P ?w")
proof -
  have n: "\<not> owner (cur (es w))" using cur_not_owner [OF w] e by simp
  then have n': "\<not> owner (cur (es ?w))" by (simp add: owner_def)
  have h: "holders w = cur (es w) # map (infos (es w)) (active w)"
    "holders ?w = cur (es ?w) # map (infos (es w)) (active w)" using w(2) by (simp_all add: holders_Throwing)
  have o: "owned ?w = owned w" unfolding owned_def h using n n' by simp
  have d: "destroyed ?w = destroyed w" by (simp add: fun_eq_iff destroyed_def)
  have c: "exception_object_or_link (cur (es ?w)) = l" "infos (es ?w) = infos (es w)" "active ?w = active w"
    "thrown ?w = thrown w" by simp_all
  show ?thesis unfolding eh_inv_def o d c h using eh_invD [OF w(1)] n n' l h by auto
qed

lemma probe_inv:
  assumes w: "eh_inv P w" "emode w = Throwing" "active w = catch_info_of_frame fp # as"
    and e: "exception_object_or_link (cur (es w)) = 0"
  shows "\<exists>s. cxx_call_catch_frame_handler P base exc_record_cookie fp rethrow_probe_cookie (es w) = Inr (CxxHandler, s) \<and>
     eh_inv P (w\<lparr> es := s \<rparr>)"
proof -
  let ?a = "catch_info_of_frame fp" let ?i = "infos (es w) (catch_info_of_frame fp)"
  have l: "owner ?i \<or> exception_object_or_link ?i \<in> set as \<and> owner (infos (es w) (exception_object_or_link ?i))"
    using eh_invD(7) [OF w(1)] w(3) by simp
  have z: "exception_object_or_link ?i \<noteq> 0"
  proof (cases "owner ?i")
    case True
    then have "exception_object_or_link ?i \<in> set (owned w)" using w by (simp add: owned_def holders_Throwing)
    then show ?thesis using eh_invD(4) [OF w(1)] by auto
  next
    case False
    then show ?thesis using l eh_invD(2) [OF w(1)] w(3) by auto
  qed
  show ?thesis
  proof (cases "owner ?i")
    case True
    then show ?thesis using z relink_inv [OF w(1,2) e, of ?a] w(3)
      by (simp add: cxx_call_catch_frame_handler_def Let_def owner_def)
  next
    case False
    then show ?thesis using z l relink_inv [OF w(1,2) e, of "exception_object_or_link ?i"] w(3)
      by (simp add: cxx_call_catch_frame_handler_def Let_def owner_def)
  qed
qed

text \<open>Dropping a frame together with its object: what the handler and the end of a block do with an
  exception that is not the current one.\<close>

lemma count_list_distinct: "distinct xs \<Longrightarrow> count_list xs x = (if x \<in> set xs then 1 else 0)"
  by (induction xs) auto

lemma drop_inv:
  assumes w: "eh_inv P w" "active w = a # as"
    and c: "emode w = Throwing \<Longrightarrow> owner (cur (es w)) \<or> exception_object_or_link (cur (es w)) \<noteq> a \<and> exception_object_or_link (cur (es w)) \<noteq> 0"
  shows "eh_inv P (w\<lparr> es := cxx_destroy_exception P base (infos (es w) a) (es w), active := as \<rparr>)" (is "eh_inv P ?w")
proof -
  let ?i = "infos (es w) a"
  let ?pre = "if emode w = Throwing then [cur (es w)] else []"
  have h: "holders w = ?pre @ ?i # map (infos (es w)) as" "holders ?w = ?pre @ map (infos (es w)) as"
    using w(2) by (simp_all add: holders_def)
  have hs: "set (holders ?w) \<subseteq> set (holders w)" unfolding h by auto
  have hd: "owner ?i \<Longrightarrow> has_destructor P (throw_info_if_owner ?i)" using eh_invD(6) [OF w(1)] unfolding h by auto
  have o: "\<exists>xs ys. owned w = xs @ (if owner ?i then [exception_object_or_link ?i] else []) @ ys \<and> owned ?w = xs @ ys"
    unfolding owned_def h by (auto intro: exI [of _ "map exception_object_or_link (filter owner ?pre)"])
  then obtain xs ys where o: "owned w = xs @ (if owner ?i then [exception_object_or_link ?i] else []) @ ys" "owned ?w = xs @ ys"
    by blast
  have d: "destroyed ?w x = destroyed w x + (if owner ?i \<and> exception_object_or_link ?i = x then 1 else 0)" for x
    using destroy_exception_calls [of ?i P x base "es w"] hd by (simp add: destroyed_def)
  have cnt: "count_list (thrown ?w) x = destroyed ?w x + count_list (owned ?w) x" for x
    using eh_invD(9) [OF w(1), of x] unfolding d o by simp
  have "links_ok (infos (es w)) as" using eh_invD(7) [OF w(1)] w(2) by simp
  moreover have "distinct (owned ?w)" "set (owned ?w) \<subseteq> set (owned w)"
    using eh_invD(3) [OF w(1)] o by (auto split: if_splits)
  moreover have "emode w = Throwing \<Longrightarrow> owner (cur (es w)) \<or> exception_object_or_link (cur (es w)) \<in> set as \<and>
      owner (infos (es w) (exception_object_or_link (cur (es w))))"
    using c eh_invD(8) [OF w(1)] w(2) by auto
  ultimately show ?thesis
    unfolding eh_inv_def using cnt hs eh_invD [OF w(1)] w(2) by auto
qed


lemma cur_fields_inv:
  assumes w: "eh_inv P w"
  shows "eh_inv P (w\<lparr> es := (es w)\<lparr> cur := (cur (es w))\<lparr> primary_frame_ptr := x, unwind_context := y \<rparr> \<rparr> \<rparr>)" (is "eh_inv P ?w")
proof -
  let ?c = "(cur (es w))\<lparr> primary_frame_ptr := x, unwind_context := y \<rparr>"
  have ow: "owner ?c = owner (cur (es w))" by (simp add: owner_def)
  have h: "holders ?w = (if emode w = Throwing then [?c] else []) @ map (infos (es w)) (active w)"
    by (simp add: holders_def)
  have o: "owned ?w = owned w" unfolding owned_def h holders_def using ow by simp
  have hd: "\<forall>ci \<in> set (holders ?w). owner ci \<longrightarrow> has_destructor P (throw_info_if_owner ci)"
    using eh_invD(6) [OF w] ow unfolding h holders_def by (auto split: if_splits)
  have d: "destroyed ?w = destroyed w" by (simp add: fun_eq_iff destroyed_def)
  show ?thesis unfolding eh_inv_def o d using hd eh_invD [OF w] ow by auto
qed

text \<open>A rethrow takes the object of the frame over.\<close>

lemma take_over_inv:
  assumes w: "eh_inv P w" "emode w = Throwing" "active w = a # as"
    and e: "exception_object_or_link (cur (es w)) = 0 \<or> exception_object_or_link (cur (es w)) = a"
  shows "eh_inv P (w\<lparr> es := (es w)\<lparr> cur := (cur (es w))\<lparr>
     exception_object_or_link := exception_object_or_link (infos (es w) a),
     throw_info_if_owner := throw_info_if_owner (infos (es w) a) \<rparr> \<rparr>, active := as \<rparr>)" (is "eh_inv P ?w")
proof -
  let ?i = "infos (es w) a"
  have n: "\<not> owner (cur (es w))" using cur_not_owner [OF w(1,2)] e w(3) by auto
  have c: "owner (cur (es ?w)) = owner ?i" "exception_object_or_link (cur (es ?w)) = exception_object_or_link ?i"
    "throw_info_if_owner (cur (es ?w)) = throw_info_if_owner ?i" "infos (es ?w) = infos (es w)" "active ?w = as"
    "thrown ?w = thrown w" by (simp_all add: owner_def)
  have h: "holders w = cur (es w) # ?i # map (infos (es w)) as" "holders ?w = cur (es ?w) # map (infos (es w)) as"
    using w(2,3) by (simp_all add: holders_Throwing)
  have o: "owned ?w = owned w" unfolding owned_def h using n c by simp
  have hd: "\<forall>ci \<in> set (holders ?w). owner ci \<longrightarrow> has_destructor P (throw_info_if_owner ci)"
    using eh_invD(6) [OF w(1)] c unfolding h by auto
  have d: "destroyed ?w = destroyed w" by (simp add: fun_eq_iff destroyed_def)
  have l: "links_ok (infos (es w)) as"
    "owner ?i \<or> exception_object_or_link ?i \<in> set as \<and> owner (infos (es w) (exception_object_or_link ?i))"
    using eh_invD(7) [OF w(1)] w(3) by auto
  show ?thesis unfolding eh_inv_def o d c using hd l eh_invD [OF w(1)] w(3) by auto
qed

lemma leave_frame_inv:
  assumes w: "eh_inv P w" "emode w = Throwing" "active w = catch_info_of_frame fp # as"
  shows "\<exists>s. cxx_call_catch_frame_handler P base exc_record_cookie fp unwind_cookie (es w) = Inr (CxxHandler, s) \<and>
     eh_inv P (w\<lparr> active := as, es := s \<rparr>)"
proof -
  let ?a = "catch_info_of_frame fp" let ?i = "infos (es w) (catch_info_of_frame fp)"
  show ?thesis
  proof (cases "exception_object_or_link (cur (es w)) = 0 \<or> exception_object_or_link (cur (es w)) = ?a")
    case True
    from cur_fields_inv [OF take_over_inv [OF w True], where x = "primary_frame_ptr ?i" and y = "unwind_context ?i"] True
    show ?thesis by (simp add: cxx_call_catch_frame_handler_def Let_def)
  next
    case False
    then have "eh_inv P (w\<lparr> es := cxx_destroy_exception P base ?i (es w), active := as \<rparr>)"
      by (intro drop_inv [OF w(1,3)]) simp
    from cur_fields_inv [OF this, where x = "primary_frame_ptr ?i" and y = "unwind_context ?i"] False
    show ?thesis by (simp add: cxx_call_catch_frame_handler_def Let_def)
  qed
qed

lemma enter_catch_inv:
  assumes w: "eh_inv P w" "emode w = Throwing" "exception_object_or_link (cur (es w)) \<noteq> 0"
    and a: "a \<notin> set (active w)" "a \<notin> set (owned w)" "a \<noteq> 0"
  shows "eh_inv P (w\<lparr> es := (es w)\<lparr> infos := (infos (es w))(a := cur (es w)) \<rparr>, emode := Running, active := a # active w \<rparr>)"
    (is "eh_inv P ?w")
proof -
  have h: "holders ?w = holders w" using w(2) a(1) by (simp add: holders_def map_update_other)
  have o: "owned ?w = owned w" by (simp add: owned_def h)
  have d: "destroyed ?w = destroyed w" by (simp add: fun_eq_iff destroyed_def)
  have l: "links_ok ((infos (es w))(a := cur (es w))) (active w)"
    by (rule links_ok_update [OF a(1) eh_invD(7) [OF w(1)]])
  have k: "owner (cur (es w)) \<or> exception_object_or_link (cur (es w)) \<in> set (active w) \<and>
      owner (infos (es w) (exception_object_or_link (cur (es w))))"
    using eh_invD(8) [OF w(1,2)] w(3) by auto
  have "links_ok (infos (es ?w)) (active ?w)" using l k a(1) by auto
  then show ?thesis unfolding eh_inv_def o d h using eh_invD [OF w(1)] a by auto
qed

lemma end_catch_inv:
  assumes w: "eh_inv P w" "emode w = Running" "active w = a # as"
  shows "eh_inv P (w\<lparr> es := cxx_destroy_exception P base (infos (es w) a) (es w), active := as \<rparr>)"
  using drop_inv [OF w(1,3)] w(2) by simp

lemma eh_step_inv:
  assumes "eh_step P base w w'" "eh_inv P w"
  shows "eh_inv P w'"
  using assms
proof (cases rule: eh_step.cases)
  case (probe fp as d s)
  with probe_inv [OF assms(2) probe(2,3,4), of base] show ?thesis by auto
next
  case (leave_frame fp as d s)
  with leave_frame_inv [OF assms(2) leave_frame(2,3), of base] show ?thesis by auto
qed (use assms(2) in \<open>simp_all add: throw_inv rethrow_inv enter_catch_inv end_catch_inv\<close>)

definition idle_world :: eh_world where
  "idle_world = \<lparr> active = [], es = idle_state, emode = Running, thrown = [] \<rparr>"

lemma idle_world_inv: "eh_inv P idle_world"
  by (simp add: eh_inv_def idle_world_def holders_def owned_def destroyed_def idle_state_def)

lemma eh_reachable_inv: "(eh_step P base)\<^sup>*\<^sup>* idle_world w \<Longrightarrow> eh_inv P w"
  by (induction rule: rtranclp_induct) (auto intro: idle_world_inv eh_step_inv)

text \<open>
  C14: Every exception object is destroyed exactly once. Over all sequences of throws, rethrows, unwound
  catch frames, catches and ends of catch blocks, the number of throws of an object is the number of
  its destructions plus one if the throw in progress or an active catch frame owns it now; it never
  has two owners. When no exception is in progress and no catch block is active, nothing is left.
\<close>

theorem exception_objects_destroyed_once:
  assumes "(eh_step P base)\<^sup>*\<^sup>* idle_world w"
  shows "distinct (owned w) \<and>
     (\<forall>x. count_list (thrown w) x = destroyed w x + (if x \<in> set (owned w) then 1 else 0)) \<and>
     (emode w = Running \<and> active w = [] \<longrightarrow> (\<forall>x. destroyed w x = count_list (thrown w) x))"
proof -
  note i = eh_invD [OF eh_reachable_inv [OF assms]]
  have c: "count_list (owned w) x = (if x \<in> set (owned w) then 1 else 0)" for x
    by (rule count_list_distinct [OF i(3)])
  have "owned w = []" if "emode w = Running \<and> active w = []"
    using that by (simp add: owned_def holders_def)
  with i(3,9) c show ?thesis by auto
qed


text \<open>An object with a destructor is thrown, caught, rethrown out of its catch block, caught again, and
  the second block ends.\<close>

definition dtor_image :: program where
  "dtor_image = \<lparr> image = mem_of [(0x10, [0, 0, 0, 0, 0x80, 0, 0, 0])], client = (\<lambda>_ m. m),
     handler_at = (\<lambda>_. Foreign_handler), foreign = (\<lambda>_ _ m. m), gs_ok = (\<lambda>_ _ _. True) \<rparr>"

lemma dtor_image_destructor: "has_destructor dtor_image 0x10"
  by (simp add: has_destructor_def dtor_image_def read_throw_info_def eval_mem)

lemma rethrow_run:
  "\<exists>w. (eh_step dtor_image 0)\<^sup>*\<^sup>* idle_world w \<and> emode w = Running \<and> active w = [] \<and> thrown w = [0x2000]"
proof -
  let ?R = "eh_step dtor_image 0" and ?fp = "0x3000 :: addr"
  let ?a = "catch_info_of_frame ?fp"
  define w1 where "w1 = idle_world\<lparr> es := start_throw 0x2000 0x10 (es idle_world), emode := Throwing, thrown := 0x2000 # thrown idle_world \<rparr>"
  define w2 where "w2 = w1\<lparr> es := (es w1)\<lparr> infos := (infos (es w1))(?a := cur (es w1)) \<rparr>, emode := Running, active := ?a # active w1 \<rparr>"
  define w3 where "w3 = w2\<lparr> es := start_throw 0 0 (es w2), emode := Throwing \<rparr>"
  have s1: "?R idle_world w1" unfolding w1_def
    by (rule throw_new) (simp_all add: idle_world_def owned_def holders_def dtor_image_destructor)
  have s2: "?R w1 w2" unfolding w2_def
    by (rule enter_catch) (simp_all add: w1_def idle_world_def start_throw_def owned_def holders_def owner_def catch_info_of_frame_def)
  have s3: "?R w2 w3" unfolding w3_def by (rule rethrow) (simp add: w2_def)
  have i3: "eh_inv dtor_image w3" using s1 s2 s3 idle_world_inv eh_step_inv by blast
  have m3: "emode w3 = Throwing" "active w3 = ?a # []"
    by (simp_all add: w3_def w2_def w1_def idle_world_def)
  from leave_frame_inv [OF i3 m3, of 0] obtain s where
    s: "cxx_call_catch_frame_handler dtor_image 0 exc_record_cookie ?fp unwind_cookie (es w3) = Inr (CxxHandler, s)" by blast
  have cs: "exception_object_or_link (cur s) = 0x2000"
    using s by (simp add: w3_def w2_def w1_def idle_world_def start_throw_def cxx_call_catch_frame_handler_def Let_def split: if_splits) auto
  define w4 where "w4 = w3\<lparr> active := [], es := s \<rparr>"
  have s4: "?R w3 w4" unfolding w4_def by (rule leave_frame [OF m3 s])
  have o4: "set (owned w4) \<subseteq> {0x2000}" using cs by (auto simp: owned_def holders_def w4_def split: if_splits)
  define w5 where "w5 = w4\<lparr> es := (es w4)\<lparr> infos := (infos (es w4))(?a := cur (es w4)) \<rparr>, emode := Running, active := ?a # active w4 \<rparr>"
  have s5: "?R w4 w5" unfolding w5_def
    using o4 by (intro enter_catch) (auto simp: w4_def cs m3 catch_info_of_frame_def)
  define w6 where "w6 = w5\<lparr> es := cxx_destroy_exception dtor_image 0 (infos (es w5) ?a) (es w5), active := [] \<rparr>"
  have s6: "?R w5 w6" unfolding w6_def by (rule end_catch) (simp_all add: w5_def w4_def)
  have "?R\<^sup>*\<^sup>* idle_world w6" using s1 s2 s3 s4 s5 s6 by (meson converse_rtranclp_into_rtranclp rtranclp.rtrancl_refl)
  then show ?thesis
    by (intro exI [of _ w6]) (simp add: w6_def w5_def w4_def w3_def w2_def w1_def idle_world_def)
qed

theorem exception_objects_destroyed_once_witness:
  "\<exists>w. (eh_step dtor_image 0)\<^sup>*\<^sup>* idle_world w \<and> thrown w = [0x2000] \<and> destroyed w 0x2000 = 1"
proof -
  obtain w where w: "(eh_step dtor_image 0)\<^sup>*\<^sup>* idle_world w" "emode w = Running" "active w = []" "thrown w = [0x2000]"
    using rethrow_run by blast
  from exception_objects_destroyed_once [OF w(1)] w(2-) have "destroyed w 0x2000 = 1" by simp
  with w show ?thesis by blast
qed

end
