(* ===== verification/Frame_Handler4_Spec.thy ===== *)
theory Frame_Handler4_Spec
  imports Frame_Handler4 Exc_Catch_Spec
begin

text \<open>
  Correctness of the decoding and unwinding of \<^verbatim>\<open>__CxxFrameHandler4\<close>: the region lookup on an encoded
  table, the destruction of objects against the reference loop \<open>unwind_states\<close>, and the choice of the
  catch block.
\<close>

section \<open>Compressed integers\<close>

text \<open>
  Reading a compressed integer gives back what the encoder wrote, for every 32-bit value, and moves
  past exactly its encoding, although the four-byte read starts up to three bytes before it.
\<close>

theorem read_unsigned_roundtrip:
  assumes "holds img p (encode_unsigned v @ rest)"
  shows "read_unsigned img p = (v, p + of_nat (length (encode_unsigned v))) \<and>
     holds img (snd (read_unsigned img p)) rest"
  using read_unsigned_encode [of img p v] assms by (simp add: holds_append)

theorem read_unsigned_roundtrip_witness:
  "read_unsigned (mem_of [(0x20, encode_unsigned 300 @ [7])]) 0x20 = (300, 0x22) \<and>
   holds (mem_of [(0x20, encode_unsigned 300 @ [7])]) 0x22 [7]"
proof -
  have e: "encode_unsigned 300 = [0xb1, 0x04]"
    by (simp add: encode_unsigned_def Let_def nat_bytes_numeral)
  have "holds (mem_of [(0x20, encode_unsigned 300 @ [7])]) 0x20 (encode_unsigned 300 @ [7])"
    by (simp add: e holds_Cons mem_of_def)
  from read_unsigned_roundtrip [OF this] show ?thesis by (auto simp: e)
qed

section \<open>Regions\<close>

definition encode_regions :: "(u32 \<times> u32) list \<Rightarrow> byte list" where
  "encode_regions rs = concat (map (\<lambda>(d, v). encode_unsigned d @ encode_unsigned v) rs)"

fun starts :: "nat \<Rightarrow> (u32 \<times> u32) list \<Rightarrow> nat list" where
  "starts a [] = []"
| "starts a ((d, v) # rs) = (a + unat d) # starts (a + unat d) rs"

text \<open>The state of the last region that starts at or before the offset, \<open>-1\<close> before the first one.\<close>

definition region_state :: "(u32 \<times> u32) list \<Rightarrow> u32 \<Rightarrow> int" where
  "region_state rs pc =
     (let k = length (takeWhile (\<lambda>st. st \<le> unat pc) (starts 0 rs))
      in if k = 0 then -1 else sint (snd (rs ! (k - 1)) - 1))"

lemma starts_ge: "x \<in> set (starts a rs) \<Longrightarrow> a \<le> x"
  by (induction a rs rule: starts.induct) force+

lemma scan_regions_state:
  assumes "holds img p (encode_regions rs)" "\<forall>x \<in> set (starts (unat a) rs). x < 2 ^ 32"
  shows "scan_regions img p pc a st (length rs) =
     (let k = length (takeWhile (\<lambda>x. x \<le> unat pc) (starts (unat a) rs))
      in if k = 0 then st else sint (snd (rs ! (k - 1)) - 1))"
  using assms
proof (induction rs arbitrary: p a st)
  case (Cons r rs)
  obtain d v where r: "r = (d, v)" by fastforce
  let ?q = "p + of_nat (length (encode_unsigned d))"
  let ?q' = "?q + of_nat (length (encode_unsigned v))"
  have h: "holds img p (encode_unsigned d)" "holds img ?q (encode_unsigned v)" "holds img ?q' (encode_regions rs)"
    using Cons.prems(1) unfolding r by (simp_all add: encode_regions_def holds_append)
  have ad: "unat (a + d) = unat a + unat d"
    using Cons.prems(2) unfolding r by (simp add: unat_add_lem [THEN iffD1])
  have ih: "scan_regions img ?q' pc (a + d) st' (length rs) =
      (let k = length (takeWhile (\<lambda>x. x \<le> unat pc) (starts (unat a + unat d) rs))
       in if k = 0 then st' else sint (snd (rs ! (k - 1)) - 1))" for st'
    using Cons.IH [OF h(3), of "a + d" st'] Cons.prems(2) unfolding r ad by simp
  have less: "pc < a + d \<longleftrightarrow> \<not> unat a + unat d \<le> unat pc"
    by (simp add: word_less_nat_alt ad not_le)
  show ?case
    using read_unsigned_encode [OF h(1)] read_unsigned_encode [OF h(2)] ih less
    by (auto simp: r Let_def nth_Cons')
qed (simp add: encode_regions_def)

text \<open>
  Looking up the state of an instruction in the encoded region table of a function gives the state
  of the last region that starts at or before it, and \<open>-1\<close> (nothing to destroy, no try block) before
  the first region.
\<close>

theorem lookup_region_correct:
  assumes "ei_regions ei \<noteq> 0" "length rs < 2 ^ 32" "\<forall>x \<in> set (starts 0 rs). x < 2 ^ 32"
    and "holds img (rva_at base (ei_regions ei)) (encode_unsigned (of_nat (length rs)) @ encode_regions rs)"
  shows "lookup_region ei img base fn pc = region_state rs (make_rva pc (rva_at base fn))"
proof -
  let ?a = "rva_at base (ei_regions ei)" and ?n = "of_nat (length rs) :: u32"
  have h: "holds img ?a (encode_unsigned ?n)" "holds img (?a + of_nat (length (encode_unsigned ?n))) (encode_regions rs)"
    using assms(4) by (simp_all add: holds_append)
  have "unat ?n = length rs" using assms(2) by (simp add: unat_of_nat)
  then show ?thesis
    using assms(1,3) read_unsigned_encode [OF h(1)] scan_regions_state [OF h(2), of 0]
    by (simp add: lookup_region_def region_state_def Let_def)
qed

definition region_image :: memory where
  "region_image = mem_of [(0x40, encode_unsigned 2 @ encode_regions [(0x10, 1), (0x20, 3)])]"

definition region_info :: exc_info where
  "region_info = \<lparr> ei_flags = 0, ei_bbt_flags = 0, ei_unwind_graph = 0, ei_try_blocks = 0, ei_regions = 0x40, ei_primary_frame_ptr = 0 \<rparr>"

theorem lookup_region_correct_witness:
  "lookup_region region_info region_image 0 0x1000 0x1038 = 2"
proof -
  have e: "encode_unsigned 2 @ encode_regions [(0x10, 1), (0x20, 3)] = [4, 0x20, 2, 0x40, 6]"
    by (simp add: encode_regions_def encode_unsigned_def Let_def nat_bytes_numeral)
  have "lookup_region region_info region_image 0 0x1000 0x1038 = region_state [(0x10, 1), (0x20, 3)] (make_rva 0x1038 (rva_at 0 0x1000))"
  proof (rule lookup_region_correct)
    show "holds region_image (rva_at 0 (ei_regions region_info))
        (encode_unsigned (of_nat (length [(0x10 :: u32, 1 :: u32), (0x20, 3)])) @ encode_regions [(0x10, 1), (0x20, 3)])"
      using e by (simp add: region_image_def region_info_def rva_at_def holds_Cons mem_of_def)
  qed (simp_all add: region_info_def)
  then show ?thesis by (simp add: region_state_def make_rva_def rva_at_def)
qed


section \<open>Destroying objects\<close>

text \<open>The edges of an unwind graph are consecutive; an edge takes between 1 and 14 bytes.\<close>

definition advance :: "memory \<Rightarrow> addr \<Rightarrow> nat" where
  "advance img p = lengths ! unat (img p AND 15)"

lemma advance_bounds: "0 < advance img p" "advance img p \<le> 5"
proof -
  have "advance img p \<in> set lengths"
    unfolding advance_def by (rule nth_mem) (simp add: enc_type_eq lengths_def)
  then show "0 < advance img p" "advance img p \<le> 5" by (auto simp: lengths_def)
qed

lemma snd_read_unsigned: "snd (read_unsigned img p) = p + of_nat (advance img p)"
  by (simp add: read_unsigned_def advance_def Let_def)

definition edge_len :: "memory \<Rightarrow> addr \<Rightarrow> nat" where
  "edge_len img p =
     (let a = advance img p; t = edge_type_of (fst (read_unsigned img p))
      in a + (if t \<noteq> Trivial then 4 else 0)
           + (if t = ObjectOffset \<or> t = ObjectPtrOffset then advance img (p + of_nat a + 4) else 0))"

lemma edge_len_bounds: "0 < edge_len img p" "edge_len img p \<le> 14"
  using advance_bounds [of img p] advance_bounds [of img "p + of_nat (advance img p) + 4"]
  by (auto simp: edge_len_def Let_def)

lemma skip_edge_len: "skip_edge img p = p + of_nat (edge_len img p)"
  using snd_read_unsigned [of img p] snd_read_unsigned [of img "p + of_nat (advance img p) + 4"]
  by (auto simp: skip_edge_def read_edge_def edge_len_def Let_def read_rva_eq split: prod.splits)

text \<open>\<open>offs img g i\<close> is the offset of edge \<open>i\<close> from the first one.\<close>

fun offs :: "memory \<Rightarrow> addr \<Rightarrow> nat \<Rightarrow> nat" where
  "offs img g 0 = 0"
| "offs img g (Suc i) = offs img g i + edge_len img (g + of_nat (offs img g i))"

definition edge_pos :: "memory \<Rightarrow> addr \<Rightarrow> nat \<Rightarrow> addr" where
  "edge_pos img g i = g + of_nat (offs img g i)"

lemma skip_edge_pos: "skip_edge img (edge_pos img g i) = edge_pos img g (Suc i)"
  by (simp add: edge_pos_def skip_edge_len)

lemma offs_less: "i < j \<Longrightarrow> offs img g i < offs img g j"
proof (induction j)
  case (Suc j)
  then show ?case using edge_len_bounds(1) [of img "g + of_nat (offs img g j)"] by (cases "i = j") auto
qed simp

lemma offs_less_iff: "offs img g i < offs img g j \<longleftrightarrow> i < j"
  by (metis offs_less linorder_less_linear order_less_imp_not_less)

lemma offs_bound: "offs img g i \<le> 14 * i"
proof (induction i)
  case (Suc i)
  then show ?case using edge_len_bounds(2) [of img "g + of_nat (offs img g i)"] by simp
qed simp

lemma pos_diff:
  assumes "i \<le> j" "j < 2 ^ 31"
  shows "sint (edge_pos img g j - edge_pos img g i) = int (offs img g j - offs img g i)"
proof -
  have le: "offs img g i \<le> offs img g j" using assms(1) offs_less_iff [of img g j i] by (simp add: not_less)
  have "offs img g j < 2 ^ 63" using offs_bound [of img g j] assms(2) by simp
  then have b: "int (offs img g j - offs img g i) < 2 ^ 63" by simp
  have "edge_pos img g j - edge_pos img g i = word_of_int (int (offs img g j - offs img g i))"
    using le by (simp add: edge_pos_def of_nat_diff)
  moreover have "sint (word_of_int (int (offs img g j - offs img g i)) :: addr) = signed_take_bit 63 (int (offs img g j - offs img g i))"
    by (subst signed_of_int) simp
  ultimately show ?thesis using b by (simp only: signed_take_bit_int_eq_self)
qed

lemma scan_edges_pos:
  "scan_edges img final (int i) (edge_pos img g i) l n =
     (edge_pos img g (i + n), if int i \<le> final \<and> final < int (i + n) then edge_pos img g (nat final + 1) else l)"
proof (induction n arbitrary: i l)
  case (Suc n)
  have "scan_edges img final (int i) (edge_pos img g i) l (Suc n) =
      scan_edges img final (int (Suc i)) (edge_pos img g (Suc i))
        (if int i = final then edge_pos img g (Suc i) else l) n"
    by (simp add: skip_edge_pos Let_def add.commute)
  also have "\<dots> = (edge_pos img g (i + Suc n),
      if int i \<le> final \<and> final < int (i + Suc n) then edge_pos img g (nat final + 1) else l)"
    unfolding Suc.IH by auto
  finally show ?case .
qed auto

text \<open>
  An unwind graph of \<open>n\<close> states, where state \<open>i\<close> goes to the smaller state \<open>nxt i\<close>: the offset of an
  edge leads back to the edge of the next state; an edge to state \<open>-1\<close> leads before the first edge.
\<close>

definition edge_offset :: "memory \<Rightarrow> addr \<Rightarrow> nat \<Rightarrow> nat" where
  "edge_offset img g i = unat (drop_bit 2 (fst (read_unsigned img (edge_pos img g i))))"

definition unwind_graph :: "memory \<Rightarrow> addr \<Rightarrow> nat \<Rightarrow> (int \<Rightarrow> int) \<Rightarrow> bool" where
  "unwind_graph img g n nxt \<longleftrightarrow> n \<le> 2 ^ 31 \<and>
     (\<forall>i<n. -1 \<le> nxt (int i) \<and> nxt (int i) < int i \<and>
        (if nxt (int i) = -1 then offs img g i < edge_offset img g i
         else edge_offset img g i = offs img g i - offs img g (nat (nxt (int i)))))"

definition edge_action :: "program \<Rightarrow> addr \<Rightarrow> addr \<Rightarrow> addr \<Rightarrow> int \<Rightarrow> eh_state \<Rightarrow> eh_state" where
  "edge_action P base fp g i =
     (let (w, p) = read_unsigned (image P) (edge_pos (image P) g (nat i)) in run_edge P base fp (edge_type_of w) p)"

lemma destroy_loop_states:
  assumes "unwind_graph (image P) g n nxt" "i < n" "-1 \<le> final" "final < int i"
  shows "\<exists>s'. destroy_loop P base fp (edge_pos (image P) g i) (edge_pos (image P) g (nat (final + 1))) s = Inr s' \<and>
     unwind_states (edge_action P base fp g) nxt (int i) final s = Some s'"
  using assms(2,4)
proof (induction i arbitrary: s rule: less_induct)
  case (less i)
  let ?img = "image P" and ?l = "nat (final + 1)"
  let ?s = "edge_action P base fp g (int i) s"
  note u = assms(1) [unfolded unwind_graph_def]
  have g: "n \<le> 2 ^ 31" "-1 \<le> nxt (int i)" "nxt (int i) < int i"
    "nxt (int i) = -1 \<Longrightarrow> offs ?img g i < edge_offset ?img g i"
    "nxt (int i) \<noteq> -1 \<Longrightarrow> edge_offset ?img g i = offs ?img g i - offs ?img g (nat (nxt (int i)))"
    using u less.prems by (auto split: if_splits)
  have li: "?l \<le> i" using less.prems assms(3) by linarith
  obtain w p where wp: "read_unsigned ?img (edge_pos ?img g i) = (w, p)" by fastforce
  have off: "unat (drop_bit 2 w) = edge_offset ?img g i" by (simp add: edge_offset_def wp)
  have pos: "0 < edge_offset ?img g i"
    using g(2-5) offs_less [of "nat (nxt (int i))" i ?img g] by (cases "nxt (int i) = -1") auto
  then have nz: "drop_bit 2 w \<noteq> 0" unfolding off [symmetric] unat_gt_0 .
  have act: "?s = run_edge P base fp (edge_type_of w) p s" by (simp add: edge_action_def wp)
  have diff: "sint (edge_pos ?img g i - edge_pos ?img g ?l) = int (offs ?img g i - offs ?img g ?l)"
    using pos_diff [OF li] less.prems(1) g(1) by simp
  have loop: "destroy_loop P base fp (edge_pos ?img g i) (edge_pos ?img g ?l) s =
      (if offs ?img g i - offs ?img g ?l < edge_offset ?img g i then Inr ?s
       else destroy_loop P base fp (edge_pos ?img g i - of_nat (edge_offset ?img g i)) (edge_pos ?img g ?l) ?s)"
  proof -
    have "ucast (drop_bit 2 w) = (of_nat (edge_offset ?img g i) :: addr)" unfolding off [symmetric] by simp
    then show ?thesis using nz unfolding act by (subst destroy_loop.simps) (simp add: wp diff Let_def off)
  qed
  have step: "unwind_states (edge_action P base fp g) nxt (int i) final s
      = unwind_states (edge_action P base fp g) nxt (nxt (int i)) final ?s"
    using less.prems by (subst unwind_states.simps) simp
  show ?case
  proof (cases "nxt (int i) \<le> final")
    case True
    have "offs ?img g i - offs ?img g ?l < edge_offset ?img g i"
    proof (cases "nxt (int i) = -1")
      case False
      then have "nat (nxt (int i)) < ?l" using True g(2) by linarith
      then show ?thesis using g(5) [OF False] offs_less [of _ ?l ?img g] offs_less_iff [of ?img g i ?l] li
        by (smt (verit) diff_less_mono2 le_less_trans not_less offs_less_iff order_le_less)
    qed (use g(4) in simp)
    moreover have "unwind_states (edge_action P base fp g) nxt (nxt (int i)) final ?s = Some ?s"
      using True by (subst unwind_states.simps) simp
    ultimately show ?thesis using loop step by simp
  next
    case False
    define j where "j = nat (nxt (int i))"
    have j: "nxt (int i) = int j" "?l \<le> j" "j < i" "nxt (int i) \<noteq> -1" "final < int j"
      using False g(2,3) assms(3) by (auto simp: j_def)
    have o: "offs ?img g ?l \<le> offs ?img g j" "offs ?img g j < offs ?img g i"
      using j(2,3) offs_less_iff [of ?img g j ?l] offs_less by (auto simp: not_less)
    have e: "edge_offset ?img g i = offs ?img g i - offs ?img g j" using g(5) [OF j(4)] by (simp add: j_def)
    have "edge_pos ?img g i - of_nat (edge_offset ?img g i) = edge_pos ?img g j"
      using o(2) by (simp add: e edge_pos_def of_nat_diff)
    moreover have "\<not> offs ?img g i - offs ?img g ?l < edge_offset ?img g i" using e o by simp
    ultimately show ?thesis
      using less.IH [OF j(3) _ j(5)] less.prems(1) j(1,3) loop step by simp
  qed
qed


lemma destroy_objects_ref:
  assumes "read_unsigned (image P) (rva_at base graph_rva) = (of_nat n, g)"
    and "unwind_graph (image P) g n nxt" "-1 \<le> final" "final < initial" "initial < int n"
  shows "\<exists>s'. destroy_objects P base graph_rva fp initial final s = Inr s' \<and>
     unwind_states (edge_action P base fp g) nxt initial final s = Some s'"
proof -
  define i where "i = nat initial"
  have i: "initial = int i" "i < n" "final < int i" using assms(3-5) by (auto simp: i_def)
  have n: "n \<le> 2 ^ 31" using assms(2) by (simp add: unwind_graph_def)
  have "unat (of_nat i :: u32) = i" "unat (of_nat n :: u32) = n" using n i(2) by (simp_all add: unat_of_nat)
  then have "\<not> (of_nat i :: u32) \<ge> of_nat n" using i(2) by (simp add: word_le_nat_alt)
  then have ok: "\<not> (initial < 0 \<or> (word_of_int initial :: u32) \<ge> of_nat n)" using i(1) by simp
  have scan: "scan_edges (image P) final 0 g g i = (edge_pos (image P) g i, edge_pos (image P) g (nat (final + 1)))"
    using scan_edges_pos [of "image P" final 0 g g i] i(3) assms(3)
    by (cases "final = -1") (auto simp: edge_pos_def nat_add_distrib)
  have "destroy_objects P base graph_rva fp initial final s =
      destroy_loop P base fp (edge_pos (image P) g i) (edge_pos (image P) g (nat (final + 1))) s"
    unfolding destroy_objects_def assms(1) using ok scan assms(4) by (simp add: i_def Let_def)
  then show ?thesis using destroy_loop_states [OF assms(2) i(2) assms(3) i(3)] i(1) by simp
qed

text \<open>
  C20: On a well-formed unwind graph, \<^verbatim>\<open>destroy_objects\<close> terminates without a bug check and does exactly
  what the reference loop does: starting at the initial state it runs the action of every state on
  the way down, in that order, and stops at the first state that is not above the final one.
\<close>

theorem destroy_objects_unwinds:
  assumes "read_unsigned (image P) (rva_at base graph_rva) = (of_nat n, g)"
    and "unwind_graph (image P) g n nxt" "-1 \<le> final" "final < initial" "initial < int n"
  shows "\<exists>s'. destroy_objects P base graph_rva fp initial final s = Inr s' \<and>
     unwind_states (edge_action P base fp g) nxt initial final s = Some s'"
  by (rule destroy_objects_ref [OF assms])

text \<open>A graph of two states: state 0 destroys the object at offset 8 of the frame and goes to \<open>-1\<close>,
  state 1 runs a funclet and goes to state 0.\<close>

definition graph_image :: program where
  "graph_image = throw_image\<lparr> image := mem_of [(0x50, [4, 10, 0x80, 0, 0, 0, 16, 54, 0x90, 0, 0, 0])] \<rparr>"

lemma read_unsigned_byte:
  assumes "unat (img p) mod 2 = 0"
  shows "read_unsigned img p = (of_nat (unat (img p) div 2), p + 1)"
  using read_unsigned_short [of img p 1 "[img p]"] lengths_nth(1) [OF assms] by (simp add: bytes_at_def)

lemma graph_image_reads:
  "read_unsigned (image graph_image) 0x50 = (2, 0x51)" "read_unsigned (image graph_image) 0x51 = (5, 0x52)"
  "read_unsigned (image graph_image) 0x56 = (8, 0x57)" "read_unsigned (image graph_image) 0x57 = (27, 0x58)"
  "rd32 (image graph_image) 0x52 = 0x80" "rd32 (image graph_image) 0x58 = 0x90"
  by (subst read_unsigned_byte; simp add: graph_image_def mem_of_def)+ (simp_all add: graph_image_def eval_mem)

lemma graph_image_offs:
  "offs (image graph_image) 0x51 0 = 0" "offs (image graph_image) 0x51 (Suc 0) = 6"
proof -
  have a: "advance (image graph_image) 0x51 = 1" "advance (image graph_image) 0x56 = 1"
    by (simp_all add: advance_def graph_image_def mem_of_def lengths_def enc_type_eq)
  show "offs (image graph_image) 0x51 (Suc 0) = 6"
    by (simp add: edge_len_def Let_def a graph_image_reads edge_type_of_def)
qed simp

lemma graph_image_graph: "unwind_graph (image graph_image) 0x51 2 (\<lambda>i. i - 1)"
proof -
  have "edge_offset (image graph_image) 0x51 0 = 1" "edge_offset (image graph_image) 0x51 (Suc 0) = 6"
    by (simp_all add: edge_offset_def edge_pos_def graph_image_offs graph_image_reads del: offs.simps)
  then show ?thesis by (auto simp: unwind_graph_def less_2_cases_iff graph_image_offs simp del: offs.simps)
qed

theorem destroy_objects_unwinds_witness:
  "\<exists>s'. destroy_objects graph_image 0 0x50 0x1000 1 (-1) idle_state = Inr s' \<and>
     calls s' = [Run_funclet 0x90 0x1000, Destroy_object 0x80 0x1008]"
proof -
  have r: "read_unsigned (image graph_image) (rva_at 0 0x50) = (of_nat 2, 0x51)"
    by (simp add: rva_at_def graph_image_reads)
  obtain s' where s': "destroy_objects graph_image 0 0x50 0x1000 1 (-1) idle_state = Inr s'"
    "unwind_states (edge_action graph_image 0 0x1000 0x51) (\<lambda>i. i - 1) 1 (-1) idle_state = Some s'"
    using destroy_objects_unwinds [OF r graph_image_graph, where final = "-1" and initial = 1 and fp = "0x1000" and s = idle_state] by auto
  have "unwind_states (edge_action graph_image 0 0x1000 0x51) (\<lambda>i. i - 1) 1 (-1) idle_state =
      Some (edge_action graph_image 0 0x1000 0x51 0 (edge_action graph_image 0 0x1000 0x51 1 idle_state))"
    by (subst unwind_states.simps, simp, subst unwind_states.simps, simp, subst unwind_states.simps, simp)
  moreover have "calls (edge_action graph_image 0 0x1000 0x51 0 (edge_action graph_image 0 0x1000 0x51 1 idle_state)) =
      [Run_funclet 0x90 0x1000, Destroy_object 0x80 0x1008]"
    by (simp add: edge_action_def edge_pos_def graph_image_offs graph_image_reads edge_type_of_def run_edge_def
        do_call_def read_rva_eq rva_at_def idle_state_def del: offs.simps)
  ultimately show ?thesis using s' by auto
qed


section \<open>The choice of the catch block\<close>

fun entries_at :: "memory \<Rightarrow> addr \<Rightarrow> u32 \<Rightarrow> addr \<Rightarrow> nat \<Rightarrow> catch_entry list" where
  "entries_at img base fn q 0 = []"
| "entries_at img base fn q (Suc n) = (let (e, q) = read_catch_entry img base fn q in e # entries_at img base fn q n)"

text \<open>The handlers of the try blocks around a state, each with the lower state of its block, in the
  order of the tables.\<close>

fun enclosing_handlers :: "memory \<Rightarrow> addr \<Rightarrow> u32 \<Rightarrow> int \<Rightarrow> addr \<Rightarrow> nat \<Rightarrow> (u32 \<times> catch_entry) list" where
  "enclosing_handlers img base fn state p 0 = []"
| "enclosing_handlers img base fn state p (Suc n) =
     (let (try_low, p) = read_unsigned img p; (try_high, p) = read_unsigned img p;
          (catch_high, p) = read_unsigned img p; (handlers, p) = read_rva img p;
          (count, q) = read_unsigned img (rva_at base handlers)
      in (if try_low \<le> word_of_int state \<and> word_of_int state \<le> try_high
          then map (Pair try_low) (entries_at img base fn q (unat count)) else [])
         @ enclosing_handlers img base fn state p n)"

definition entry_accepts :: "program \<Rightarrow> addr \<Rightarrow> addr \<Rightarrow> catch_entry \<Rightarrow> bool" where
  "entry_accepts P base ti e \<longleftrightarrow> has_any_of (ce_type_flags e) 0x40 \<or>
     (\<not> drops_qualifier (ce_type_flags e) (read_throw_info (image P) ti) \<and>
      catchable_as P base (read_throw_info (image P) ti) (rva_at base (ce_type e)))"

definition conts_only :: "eh_state \<Rightarrow> eh_state \<Rightarrow> bool" where
  "conts_only s s' \<longleftrightarrow> (\<exists>xs. length xs = 2 \<and> s' = s\<lparr> cur := (cur s)\<lparr> continuation_address := xs \<rparr> \<rparr>)"

text \<open>What the choice of entry \<open>e\<close> in a block with lower state \<open>low\<close> leaves behind.\<close>

definition chosen :: "addr \<Rightarrow> addr \<Rightarrow> u32 \<Rightarrow> catch_entry \<Rightarrow> eh_state \<Rightarrow> eh_state \<Rightarrow> bool" where
  "chosen base pfp low e s s' \<longleftrightarrow> dc_handler s' = rva_at base (ce_handler e) \<and>
     primary_frame_ptr (cur s') = pfp \<and> unwind_context (cur s') = word_of_int (sint (low - 1)) \<and>
     take (length (ce_conts e)) (continuation_address (cur s')) = ce_conts e \<and>
     exception_object_or_link (cur s') = exception_object_or_link (cur s) \<and>
     throw_info_if_owner (cur s') = throw_info_if_owner (cur s)"

lemma process_keeps [simp]:
  "cur (snd (process_catch_block P base adj ty var obj ti s)) = cur s"
  "infos (snd (process_catch_block P base adj ty var obj ti s)) = infos s"
  "dc_handler (snd (process_catch_block P base adj ty var obj ti s)) = dc_handler s"
  by (auto simp: process_catch_block_def process_catch_block_unchecked_def transfer_to_catch_block_def
      copy_to_catch_block_def do_call_def Let_def split: option.split)

lemma store_conts_ok:
  assumes "length (continuation_address ci) = 2" "k + length xs \<le> 2"
  shows "\<exists>ys. store_conts k xs ci = Inr (ci\<lparr> continuation_address := ys \<rparr>) \<and> length ys = 2 \<and>
     take (k + length xs) ys = take k (continuation_address ci) @ xs"
  using assms
proof (induction xs arbitrary: k ci)
  case (Cons x xs)
  let ?ci = "ci\<lparr> continuation_address := (continuation_address ci)[k := x] \<rparr>"
  from Cons.IH [of ?ci "k + 1"] Cons.prems obtain ys where
    "store_conts (k + 1) xs ?ci = Inr (ci\<lparr> continuation_address := ys \<rparr>)" "length ys = 2"
    "take (k + 1 + length xs) ys = take (k + 1) ((continuation_address ci)[k := x]) @ xs" by auto
  moreover have "take (k + 1) ((continuation_address ci)[k := x]) = take k (continuation_address ci) @ [x]"
    using Cons.prems by (simp add: take_Suc_conv_app_nth)
  ultimately show ?case using Cons.prems by (intro exI [of _ ys]) simp
next
  case (Nil k ci)
  then show ?case by (intro exI [of _ "continuation_address ci"]) simp
qed

lemma conts_only_trans: "conts_only s s' \<Longrightarrow> conts_only s' s'' \<Longrightarrow> conts_only s s''"
  by (auto simp: conts_only_def)

lemma conts_only_refl: "length (continuation_address (cur s)) = 2 \<Longrightarrow> conts_only s s"
  by (auto simp: conts_only_def intro: exI [of _ "continuation_address (cur s)"])

lemma chosen_conts: "conts_only s s' \<Longrightarrow> chosen base pfp low e s' s'' \<Longrightarrow> chosen base pfp low e s s''"
  by (auto simp: conts_only_def chosen_def)

lemma conts_only_len: "conts_only s s' \<Longrightarrow> length (continuation_address (cur s')) = 2"
  by (auto simp: conts_only_def)

lemma try_handlers_first:
  assumes "length (continuation_address (cur s)) = 2"
    "\<forall>e \<in> set (entries_at (image P) base fn q n). length (ce_conts e) \<le> 2"
  shows "case find (entry_accepts P base ti) (entries_at (image P) base fn q n) of
      None \<Rightarrow> \<exists>s'. try_handlers P base fn pfp low ti q n s = Inr (False, s') \<and> conts_only s s'
    | Some e \<Rightarrow> \<exists>s'. try_handlers P base fn pfp low ti q n s = Inr (True, s') \<and> chosen base pfp low e s s'"
  using assms
proof (induction n arbitrary: q s)
  case (Suc n)
  obtain e q' where e: "read_catch_entry (image P) base fn q = (e, q')" by fastforce
  obtain ys where ys: "store_conts 0 (ce_conts e) (cur s) = Inr ((cur s)\<lparr> continuation_address := ys \<rparr>)" "length ys = 2"
    "take (length (ce_conts e)) ys = ce_conts e"
    using store_conts_ok [of "cur s" 0 "ce_conts e"] Suc.prems by (auto simp: e)
  let ?s = "s\<lparr> cur := (cur s)\<lparr> continuation_address := ys \<rparr> \<rparr>"
  have c: "conts_only s ?s" using ys(2) by (auto simp: conts_only_def)
  obtain b t where r: "process_catch_block P base (ce_type_flags e) (rva_at base (ce_type e)) (rva_at pfp (ce_catch_var e))
      (get_exception_object (cur ?s) ?s) (read_throw_info (image P) ti) ?s = (b, t)" by fastforce
  have acc: "b \<longleftrightarrow> entry_accepts P base ti e" "b \<or> t = ?s"
    unfolding entry_accepts_def using catch_block_accepts r by (metis fst_conv snd_conv)+
  have keep: "cur t = cur ?s" using process_keeps(1) r by (metis snd_conv)
  have step: "try_handlers P base fn pfp low ti q (Suc n) s =
      (if b then Inr (True, t\<lparr> dc_handler := rva_at base (ce_handler e),
          cur := (cur t)\<lparr> primary_frame_ptr := pfp, unwind_context := word_of_int (sint (low - 1)) \<rparr> \<rparr>)
       else try_handlers P base fn pfp low ti q' n t)"
    using r by (simp add: e ys(1) Let_def)
  show ?case
  proof (cases "entry_accepts P base ti e")
    case True
    then show ?thesis using step acc ys(3) by (simp add: e chosen_def keep del: try_handlers.simps)
  next
    case False
    then have t: "t = ?s" "\<not> b" using acc by auto
    have len: "length (continuation_address (cur ?s)) = 2" using ys(2) by simp
    from Suc.IH [OF len, of q'] Suc.prems(2) show ?thesis
      using False step t conts_only_trans [OF c] chosen_conts [OF c]
      by (auto simp: e simp del: try_handlers.simps split: option.splits)
  qed
qed (simp add: conts_only_refl)


lemma find_Pair_append:
  "find (\<lambda>(l, e). Q e) (map (Pair low) xs @ rest) =
     (case find Q xs of Some e \<Rightarrow> Some (low, e) | None \<Rightarrow> find (\<lambda>(l, e). Q e) rest)"
  by (induction xs) auto

lemma dc_conts_only: "conts_only s s' \<Longrightarrow> dc_handler s' = dc_handler s"
  by (auto simp: conts_only_def)

text \<open>The search of a frame takes the first handler, in table order, of the try blocks around the state
  that accepts the exception.\<close>

lemma try_blocks_first_match:
  assumes "ti \<noteq> 0" "dc_handler s = 0" "length (continuation_address (cur s)) = 2"
    and "\<forall>(low, e) \<in> set (enclosing_handlers (image P) (m_image_base pd) fn state p n).
       length (ce_conts e) \<le> 2 \<and> rva_at (m_image_base pd) (ce_handler e) \<noteq> 0"
  shows "case find (\<lambda>(low, e). entry_accepts P (m_image_base pd) ti e)
          (enclosing_handlers (image P) (m_image_base pd) fn state p n) of
      None \<Rightarrow> \<exists>s'. try_blocks P pd fn pfp state ti (-1) p n s = run_ret (-1, s') \<and> conts_only s s'
    | Some (low, e) \<Rightarrow> \<exists>s'. try_blocks P pd fn pfp state ti (-1) p n s = run_ret (sint (low - 1), s') \<and>
         chosen (m_image_base pd) pfp low e s s'"
  using assms(2-)
proof (induction n arbitrary: p s)
  case (Suc n)
  let ?b = "m_image_base pd"
  obtain low p1 where r1: "read_unsigned (image P) p = (low, p1)" by fastforce
  obtain high p2 where r2: "read_unsigned (image P) p1 = (high, p2)" by fastforce
  obtain ch p3 where r3: "read_unsigned (image P) p2 = (ch, p3)" by fastforce
  obtain hs p4 where r4: "read_rva (image P) p3 = (hs, p4)" by fastforce
  obtain cnt q where r5: "read_unsigned (image P) (rva_at ?b hs) = (cnt, q)" by fastforce
  note r = r1 r2 r3 r4 r5
  let ?rest = "enclosing_handlers (image P) ?b fn state p4 n"
  show ?case
  proof (cases "low \<le> word_of_int state \<and> word_of_int state \<le> high")
    case False
    then have eq1: "try_blocks P pd fn pfp state ti (-1) p (Suc n) s = try_blocks P pd fn pfp state ti (-1) p4 n s"
      by (auto simp: r not_le)
    have eq2: "enclosing_handlers (image P) ?b fn state p (Suc n) = ?rest" using False by (auto simp: r)
    show ?thesis using Suc.IH [OF Suc.prems(1,2), of p4] Suc.prems(3) unfolding eq1 eq2 by blast
  next
    case True
    let ?es = "entries_at (image P) ?b fn q (unat cnt)"
    have all: "enclosing_handlers (image P) ?b fn state p (Suc n) = map (Pair low) ?es @ ?rest" using True by (simp add: r)
    have step: "try_blocks P pd fn pfp state ti (-1) p (Suc n) s =
        run_bind (run_eh (try_handlers P ?b fn pfp low ti q (unat cnt) s)) (\<lambda>(caught, s).
          let target = (if caught then sint (low - 1) else -1)
          in if dc_handler s \<noteq> 0 then run_ret (target, s) else try_blocks P pd fn pfp state ti target p4 n s)"
    proof -
      have "\<not> word_of_int state < low" "\<not> high < word_of_int state" using True by (auto simp: not_less)
      then show ?thesis using assms(1) by (simp add: r)
    qed
    have fm: "find (\<lambda>(low, e). entry_accepts P ?b ti e) (map (Pair low) ?es @ ?rest) =
        (case find (entry_accepts P ?b ti) ?es of Some e \<Rightarrow> Some (low, e)
         | None \<Rightarrow> find (\<lambda>(low, e). entry_accepts P ?b ti e) ?rest)"
      by (rule find_Pair_append)
    have he: "\<forall>e \<in> set ?es. length (ce_conts e) \<le> 2 \<and> rva_at ?b (ce_handler e) \<noteq> 0"
      using Suc.prems(3) unfolding all by auto
    show ?thesis
    proof (cases "find (entry_accepts P ?b ti) ?es")
      case (Some e)
      then have "e \<in> set ?es" by (auto simp: find_Some_iff)
      with Some try_handlers_first [OF Suc.prems(2), where P = P and base = ?b and fn = fn and q = q and n = "unat cnt"
            and ti = ti and pfp = pfp and low = low] he obtain s' where
        "try_handlers P ?b fn pfp low ti q (unat cnt) s = Inr (True, s')" "chosen ?b pfp low e s s'" by auto
      moreover from this he \<open>e \<in> set ?es\<close> have "dc_handler s' \<noteq> 0" by (auto simp: chosen_def)
      ultimately show ?thesis unfolding all fm step using Some by simp
    next
      case None
      with try_handlers_first [OF Suc.prems(2), where P = P and base = ?b and fn = fn and q = q and n = "unat cnt"
            and ti = ti and pfp = pfp and low = low] he obtain s' where
        s': "try_handlers P ?b fn pfp low ti q (unat cnt) s = Inr (False, s')" "conts_only s s'" by auto
      have "dc_handler s' = 0" using dc_conts_only [OF s'(2)] Suc.prems(1) by simp
      moreover from Suc.IH [OF this conts_only_len [OF s'(2)], of p4] Suc.prems(3)
      have "case find (\<lambda>(low, e). entry_accepts P ?b ti e) ?rest of
          None \<Rightarrow> \<exists>s''. try_blocks P pd fn pfp state ti (-1) p4 n s' = run_ret (-1, s'') \<and> conts_only s' s''
        | Some (low, e) \<Rightarrow> \<exists>s''. try_blocks P pd fn pfp state ti (-1) p4 n s' = run_ret (sint (low - 1), s'') \<and>
             chosen ?b pfp low e s' s''" unfolding all by auto
      ultimately show ?thesis unfolding all fm step
        using None s'(1) conts_only_trans [OF s'(2)] chosen_conts [OF s'(2)] by (auto split: option.splits)
    qed
  qed
qed (simp add: conts_only_refl)


section \<open>The frame handler\<close>

lemma edge_action_keeps:
  "dc_handler (edge_action P base fp g i s) = dc_handler s" "cur (edge_action P base fp g i s) = cur s"
  by (auto simp: edge_action_def run_edge_def do_call_def Let_def split: prod.split edge_type.split)

lemma enclosing_low:
  assumes "(low, e) \<in> set (enclosing_handlers img base fn state p n)"
  shows "low \<le> word_of_int state"
  using assms by (induction n arbitrary: p) (auto simp: Let_def split: prod.splits if_splits)

lemma low_target:
  assumes "low \<le> (word_of_int state :: u32)" "0 \<le> state" "state < 2 ^ 31"
  shows "sint (low - 1) = int (unat low) - 1" "int (unat low) - 1 < state"
proof -
  have "unat (word_of_int state :: u32) = nat state"
    using assms(2,3) by (simp add: unat_eq_nat_uint uint_word_of_int_eq take_bit_int_eq_self)
  then have l: "int (unat low) \<le> state" using assms(1,2) by (simp add: word_le_nat_alt le_nat_iff del: of_nat_unat)
  then show "int (unat low) - 1 < state" by simp
  have w: "low - 1 = word_of_int (int (unat low) - 1)" by simp
  have z: "- (2 ^ 31) \<le> int (unat low) - 1" "int (unat low) - 1 < 2 ^ 31"
    using l assms(3) of_nat_0_le_iff [of "unat low", where ?'a = int] by linarith+
  have "sint (word_of_int (int (unat low) - 1) :: u32) = signed_take_bit 31 (int (unat low) - 1)"
    by (subst signed_of_int) simp
  then show "sint (low - 1) = int (unat low) - 1" unfolding w using z by (simp only: signed_take_bit_int_eq_self)
qed

lemma frame_handler4_first:
  assumes c: "hc_cookie c = unwind_cookie"
    and ei: "ei = load_exception_info (image P) (rva_at base (rd32 (image P) (hc_data c))) base (hc_fn c)"
    and st: "initial_frame P pd c ei s = (pfp, st)" "0 \<le> st" "st < int n" and b: "m_image_base pd = base"
    and tr: "ei_try_blocks ei \<noteq> 0" "read_unsigned (image P) (rva_at base (ei_try_blocks ei)) = (count, p)"
    and hs: "hs = enclosing_handlers (image P) base (fn_begin (hc_fn c)) st p (unat count)"
      "\<forall>(low, e) \<in> set hs. length (ce_conts e) \<le> 2 \<and> rva_at base (ce_handler e) \<noteq> 0"
    and ti: "get_throw_info (cur s) s \<noteq> 0"
    and s: "dc_handler s = 0" "length (continuation_address (cur s)) = 2"
    and gr: "read_unsigned (image P) (rva_at base (ei_unwind_graph ei)) = (of_nat n, g)" "unwind_graph (image P) g n nxt"
  shows "\<exists>s1 s2. frame_handler4 P pd c s = run_ret (CxxHandler, s2) \<and>
     (case find (\<lambda>(low, e). entry_accepts P base (get_throw_info (cur s) s) e) hs of
        None \<Rightarrow> conts_only s s1 \<and> unwind_states (edge_action P base (hc_frame c) g) nxt st (-1) s1 = Some s2
      | Some (low, e) \<Rightarrow> chosen base pfp low e s s1 \<and>
          unwind_states (edge_action P base (hc_frame c) g) nxt st (int (unat low) - 1) s1 = Some s2)"
proof -
  let ?ti = "get_throw_info (cur s) s" and ?fn = "fn_begin (hc_fn c)"
  have run: "frame_handler4 P pd c s =
      run_bind (try_blocks P pd ?fn pfp st ?ti (-1) p (unat count) s) (\<lambda>(t, s).
        if t < st then run_bind (run_eh (destroy_objects P base (ei_unwind_graph ei) (hc_frame c) st t s)) (\<lambda>s. run_ret (CxxHandler, s))
        else run_ret (CxxHandler, s))"
    using c st tr unfolding frame_handler4_def b Let_def ei [symmetric] by simp
  have go: "\<exists>s2. frame_handler4 P pd c s = run_ret (CxxHandler, s2) \<and>
      unwind_states (edge_action P base (hc_frame c) g) nxt st t s1 = Some s2"
    if "try_blocks P pd ?fn pfp st ?ti (-1) p (unat count) s = run_ret (t, s1)" "-1 \<le> t" "t < st" for t s1
    using destroy_objects_ref [OF gr that(2,3) st(3), of "hc_frame c" s1] that unfolding run by auto
  note first = try_blocks_first_match [OF ti s, where P = P and pd = pd and fn = ?fn and state = st and p = p
      and n = "unat count" and pfp = pfp, unfolded b, folded hs(1), OF hs(2)]
  show ?thesis
  proof (cases "find (\<lambda>(low, e). entry_accepts P base ?ti e) hs")
    case None
    with first obtain s1 where s1: "try_blocks P pd ?fn pfp st ?ti (-1) p (unat count) s = run_ret (-1, s1)" "conts_only s s1"
      by auto
    from go [OF s1(1)] st(2) s1(2) None show ?thesis by auto
  next
    case (Some a)
    obtain low e where a: "a = (low, e)" by fastforce
    with Some have "(low, e) \<in> set hs" by (auto simp: find_Some_iff in_set_conv_nth)
    then have "low \<le> word_of_int st" unfolding hs(1) by (rule enclosing_low)
    moreover have "st < 2 ^ 31" using st(3) gr(2) by (simp add: unwind_graph_def)
    ultimately have t: "sint (low - 1) = int (unat low) - 1" "int (unat low) - 1 < st" using low_target st(2) by blast+
    from first Some a obtain s1 where s1: "try_blocks P pd ?fn pfp st ?ti (-1) p (unat count) s = run_ret (sint (low - 1), s1)"
      "chosen base pfp low e s s1" by auto
    have "-1 \<le> int (unat low) - 1" using of_nat_0_le_iff [of "unat low", where ?'a = int] by linarith
    from go [OF s1(1) [unfolded t(1)] this t(2)] s1(2) Some a show ?thesis by auto
  qed
qed

text \<open>
  C16: The frame handler. For an exception with its own type information that interrupts a function in
  state \<open>st\<close>, \<^verbatim>\<open>__CxxFrameHandler4\<close> chooses the first handler, in table order, of the try blocks around the
  state that accepts the exception, records it with its frame, continuation addresses and target
  state, and then destroys the objects of exactly the states from \<open>st\<close> down to the start of that try
  block. If no handler accepts, none is chosen and all objects of the function are destroyed.
\<close>

theorem frame_handler4_catches:
  assumes c: "hc_cookie c = unwind_cookie"
    and ei: "ei = load_exception_info (image P) (rva_at base (rd32 (image P) (hc_data c))) base (hc_fn c)"
    and st: "initial_frame P pd c ei s = (pfp, st)" "0 \<le> st" "st < int n" and b: "m_image_base pd = base"
    and tr: "ei_try_blocks ei \<noteq> 0" "read_unsigned (image P) (rva_at base (ei_try_blocks ei)) = (count, p)"
    and hs: "hs = enclosing_handlers (image P) base (fn_begin (hc_fn c)) st p (unat count)"
      "\<forall>(low, e) \<in> set hs. length (ce_conts e) \<le> 2 \<and> rva_at base (ce_handler e) \<noteq> 0"
    and ti: "get_throw_info (cur s) s \<noteq> 0"
    and s: "dc_handler s = 0" "length (continuation_address (cur s)) = 2"
    and gr: "read_unsigned (image P) (rva_at base (ei_unwind_graph ei)) = (of_nat n, g)" "unwind_graph (image P) g n nxt"
  shows "\<exists>s1 s2. frame_handler4 P pd c s = run_ret (CxxHandler, s2) \<and>
     (case find (\<lambda>(low, e). entry_accepts P base (get_throw_info (cur s) s) e) hs of
        None \<Rightarrow> conts_only s s1 \<and> unwind_states (edge_action P base (hc_frame c) g) nxt st (-1) s1 = Some s2
      | Some (low, e) \<Rightarrow> chosen base pfp low e s s1 \<and>
          unwind_states (edge_action P base (hc_frame c) g) nxt st (int (unat low) - 1) s1 = Some s2)"
  using assms by (rule frame_handler4_first)


text \<open>A function in state 1 of two states, inside a try block of state 1 whose handlers are one for the
  type at 0x70, which the thrown object does not have, and \<^verbatim>\<open>catch (...)\<close>. The image has a header at 0x6000 and
  a table of two functions at 0x300, the second without a handler.\<close>

definition try_image :: program where
  "try_image = throw_image\<lparr> image := mem_of [(0x10, [0, 0, 0, 0, 0, 0, 0, 0, 0, 0, 0, 0, 0x20, 0, 0, 0]),
     (0x30, [0x38, 0, 0, 0]), (0x38, [0x18, 0x50, 0, 0, 0, 0x60, 0, 0, 0, 0x48, 0, 0, 0]), (0x48, [2, 0, 4]),
     (0x50, [4, 10, 0x80, 0, 0, 0, 16, 54, 0x90, 0, 0, 0]), (0x60, [2, 2, 2, 4, 0x80, 0, 0, 0]),
     (0x80, [4, 2, 0x70, 0, 0, 0, 0x90, 0, 0, 0, 1, 0x80, 0xa0, 0, 0, 0]),
     (0, [0x4d, 0x5a]), (0x300, [0, 0x10, 0, 0, 0, 0x11, 0, 0, 0, 4, 0, 0, 0, 0x11, 0, 0, 0, 0x12, 0, 0, 0, 5, 0, 0]),
     (0x400, [9, 0, 0, 0, 0xb0, 0, 0, 0, 0x38, 0, 0, 0]), (0x500, [1, 0, 0, 0]), (0x6000, [0x50, 0x45, 0, 0, 0x64, 0x86]),
     (0x6018, [0x0b, 2]), (0x6050, [0, 0x80, 0, 0, 0, 0x70, 0, 0]), (0x6084, [4, 0, 0, 0]), (0x60a0, [0, 3, 0, 0, 24, 0, 0, 0])],
     handler_at := (\<lambda>a. if a = 0xb0 then Cxx_frame_handler4 else Foreign_handler) \<rparr>"

definition zero_pdata :: frame_walk_pdata where
  "zero_pdata = \<lparr> m_image_base = 0, m_functions = 0, m_function_count = 0, m_image_size = 0 \<rparr>"

definition try_call :: handler_call where
  "try_call = \<lparr> hc_fn = \<lparr> fn_begin = 0x1000, fn_end = 0x1100, fn_unwind_info = 0 \<rparr>, hc_data = 0x30, hc_frame = 0x7000,
     hc_cookie = unwind_cookie \<rparr>"

definition try_state :: eh_state where
  "try_state = idle_state\<lparr> cur := idle_info\<lparr> exception_object_or_link := 0x2000, throw_info_if_owner := 0x10 \<rparr>,
     walk_mach := (walk_mach idle_state)\<lparr> rip := 0x1005 \<rparr> \<rparr>"

definition try_info :: exc_info where
  "try_info = \<lparr> ei_flags = 0x18, ei_bbt_flags = 0, ei_unwind_graph = 0x50, ei_try_blocks = 0x60, ei_regions = 0x48,
     ei_primary_frame_ptr = 0 \<rparr>"

abbreviation typed_entry :: catch_entry where
  "typed_entry \<equiv> \<lparr> ce_type_flags = 0, ce_type = 0x70, ce_catch_var = 0, ce_handler = 0x90, ce_conts = [] \<rparr>"

abbreviation ellipsis_entry :: catch_entry where
  "ellipsis_entry \<equiv> \<lparr> ce_type_flags = 0x40, ce_type = 0, ce_catch_var = 0, ce_handler = 0xa0, ce_conts = [] \<rparr>"

lemma try_image_ints:
  "read_unsigned (image try_image) 0x48 = (1, 0x49)" "read_unsigned (image try_image) 0x49 = (0, 0x4a)"
  "read_unsigned (image try_image) 0x4a = (2, 0x4b)" "read_unsigned (image try_image) 0x50 = (2, 0x51)"
  "read_unsigned (image try_image) 0x51 = (5, 0x52)" "read_unsigned (image try_image) 0x57 = (27, 0x58)"
  "read_unsigned (image try_image) 0x60 = (1, 0x61)" "read_unsigned (image try_image) 0x61 = (1, 0x62)"
  "read_unsigned (image try_image) 0x62 = (1, 0x63)" "read_unsigned (image try_image) 0x63 = (2, 0x64)"
  "read_unsigned (image try_image) 0x80 = (2, 0x81)" "read_unsigned (image try_image) 0x8b = (0x40, 0x8c)"
  by (subst read_unsigned_byte; simp add: try_image_def mem_of_def)+

lemma try_image_bytes:
  "rd32 (image try_image) 0x30 = 0x38" "rd32 (image try_image) 0x39 = 0x50" "rd32 (image try_image) 0x3d = 0x60"
  "rd32 (image try_image) 0x41 = 0x48" "rd32 (image try_image) 0x64 = 0x80" "rd32 (image try_image) 0x82 = 0x70"
  "rd32 (image try_image) 0x86 = 0x90" "rd32 (image try_image) 0x8c = 0xa0"
  "image try_image 0x38 = 0x18" "image try_image 0x81 = 2" "image try_image 0x8a = 1" 
  by (simp_all add: try_image_def eval_mem)

lemmas try_image_reads = try_image_ints try_image_bytes

lemma flag_get_none: "value AND bits = 0 \<Longrightarrow> flag_get bits value = 0"
  by (simp add: flag_get_def)

lemma try_image_handlers:
  "enclosing_handlers (image try_image) 0 0x1000 1 0x61 1 = [(1, typed_entry), (1, ellipsis_entry)]"
proof -
  have "read_catch_entry (image try_image) 0 0x1000 0x81 = (typed_entry, 0x8a)"
    "read_catch_entry (image try_image) 0 0x1000 0x8a = (ellipsis_entry, 0x90)"
    by (simp_all add: read_catch_entry_def try_image_reads has_any_of_def flag_get_none read_rva_eq)
  then have "entries_at (image try_image) 0 0x1000 0x81 (Suc (Suc 0)) = [typed_entry, ellipsis_entry]" by simp
  then have "entries_at (image try_image) 0 0x1000 0x81 2 = [typed_entry, ellipsis_entry]" by (simp only: numeral_2_eq_2)
  then show ?thesis by (simp add: try_image_reads read_rva_eq rva_at_def)
qed

lemma try_image_info:
  "load_exception_info (image try_image) (rva_at 0 (rd32 (image try_image) (hc_data try_call))) 0 (hc_fn try_call) = try_info"
  by (simp add: load_exception_info_def try_call_def try_image_reads rva_at_def has_any_of_def read_rva_eq try_info_def)

lemma try_image_state: "initial_frame try_image zero_pdata try_call try_info try_state = (0x7000, 1)"
  by (simp add: initial_frame_def try_state_def try_call_def idle_state_def idle_info_def try_info_def has_any_of_def
      lookup_region_def zero_pdata_def make_rva_def rva_at_def try_image_reads)

lemma try_image_graph: "unwind_graph (image try_image) 0x51 2 (\<lambda>i. i - 1)"
proof -
  have a: "advance (image try_image) 0x51 = 1" "advance (image try_image) 0x56 = 1"
    by (simp_all add: advance_def try_image_def mem_of_def lengths_def enc_type_eq)
  have o: "offs (image try_image) 0x51 0 = 0" "offs (image try_image) 0x51 (Suc 0) = 6"
    by (simp_all add: edge_len_def Let_def a try_image_reads edge_type_of_def)
  have "edge_offset (image try_image) 0x51 0 = 1" "edge_offset (image try_image) 0x51 (Suc 0) = 6"
    by (simp_all add: edge_offset_def edge_pos_def o try_image_reads del: offs.simps)
  then show ?thesis by (auto simp: unwind_graph_def less_2_cases_iff o simp del: offs.simps)
qed

theorem frame_handler4_catches_witness:
  "\<exists>s1 s2. frame_handler4 try_image zero_pdata try_call try_state = run_ret (CxxHandler, s2) \<and>
     chosen 0 0x7000 1 ellipsis_entry try_state s1 \<and>
     unwind_states (edge_action try_image 0 0x7000 0x51) (\<lambda>i. i - 1) 1 0 s1 = Some s2"
proof -
  have b: "m_image_base zero_pdata = 0" by (simp add: zero_pdata_def)
  have ti: "get_throw_info (cur try_state) try_state = 0x10" by (simp add: get_throw_info_def try_state_def idle_info_def)
  have n: "\<not> entry_accepts try_image 0 0x10 typed_entry"
    by (simp add: entry_accepts_def has_any_of_def catchable_as_def Let_def read_throw_info_def try_image_def eval_mem rva_at_def)
  have y: "entry_accepts try_image 0 0x10 ellipsis_entry" by (simp add: entry_accepts_def has_any_of_def)
  have "\<exists>s1 s2. frame_handler4 try_image zero_pdata try_call try_state = run_ret (CxxHandler, s2) \<and>
     (case find (\<lambda>(low, e). entry_accepts try_image 0 (get_throw_info (cur try_state) try_state) e) [(1, typed_entry), (1, ellipsis_entry)] of
        None \<Rightarrow> conts_only try_state s1 \<and> unwind_states (edge_action try_image 0 (hc_frame try_call) 0x51) (\<lambda>i. i - 1) 1 (-1) s1 = Some s2
      | Some (low, e) \<Rightarrow> chosen 0 0x7000 low e try_state s1 \<and>
          unwind_states (edge_action try_image 0 (hc_frame try_call) 0x51) (\<lambda>i. i - 1) 1 (int (unat low) - 1) s1 = Some s2)"
    by (rule frame_handler4_catches [where ei = try_info and n = 2 and count = 1 and p = "0x61"])
      (simp_all add: try_image_info try_image_state b ti try_image_graph try_image_handlers [unfolded One_nat_def] del: enclosing_handlers.simps,
       simp_all add: try_call_def try_info_def try_image_reads rva_at_def try_state_def idle_state_def idle_info_def try_image_handlers [unfolded One_nat_def]
         del: enclosing_handlers.simps)
  then show ?thesis using n y by (simp add: ti try_call_def)
qed

end
