(* ===== verification/Exc_Unwind_Spec.thy ===== *)
theory Exc_Unwind_Spec
  imports Exc_Unwind
begin

text \<open>
  Correctness of stack walking: the binary search over \<^verbatim>\<open>.pdata\<close> finds the entry that covers an
  address whenever there is one, and interpreting the unwind codes of a function takes the registers
  of its body back to those of its caller. The relation \<open>framed\<close> says what a function with a given
  prologue has done to the registers and the stack; it does not mention the unwinder.
\<close>

section \<open>The function of an address\<close>

definition table_fn :: "memory \<Rightarrow> frame_walk_pdata \<Rightarrow> nat \<Rightarrow> pe_function" where
  "table_fn img pd i = read_function img (fn_entry pd i)"

definition covers :: "pe_function \<Rightarrow> u32 \<Rightarrow> bool" where
  "covers f pc \<longleftrightarrow> fn_begin f \<le> pc \<and> pc < fn_end f"

text \<open>The linker sorts \<^verbatim>\<open>.pdata\<close> by address, and the functions do not overlap.\<close>

definition table_sorted :: "memory \<Rightarrow> frame_walk_pdata \<Rightarrow> bool" where
  "table_sorted img pd \<longleftrightarrow>
     (\<forall>j<unat (m_function_count pd). fn_begin (table_fn img pd j) \<le> fn_end (table_fn img pd j) \<and>
        (\<forall>i<j. fn_end (table_fn img pd i) \<le> fn_begin (table_fn img pd j)))"

lemma table_sortedD:
  assumes "table_sorted img pd" "i < j" "j < unat (m_function_count pd)"
  shows "fn_end (table_fn img pd i) \<le> fn_begin (table_fn img pd j)"
    "fn_begin (table_fn img pd i) \<le> fn_end (table_fn img pd i)"
    "fn_begin (table_fn img pd j) \<le> fn_end (table_fn img pd j)"
  using assms by (auto simp: table_sorted_def)

lemma covers_unique:
  assumes "table_sorted img pd" "i < unat (m_function_count pd)" "j < unat (m_function_count pd)"
    "covers (table_fn img pd i) pc" "covers (table_fn img pd j) pc"
  shows "i = j"
proof (rule ccontr)
  assume "i \<noteq> j"
  then consider "i < j" | "j < i" by linarith
  then show False
    using table_sortedD(1) [OF assms(1)] assms(2-) by cases (force simp: covers_def)+
qed

lemma search_function_Some:
  assumes "search_function img pd pc l r = Some e"
  shows "\<exists>i. l \<le> i \<and> i < r \<and> e = fn_entry pd i \<and> covers (table_fn img pd i) pc"
  using assms
proof (induction img pd pc l r rule: search_function.induct)
  case (1 img pd pc l r)
  define idx where "idx = l + (r - l) div 2"
  define f where "f = read_function img (fn_entry pd idx)"
  have lr: "l < r" using "1.prems" by (subst (asm) search_function.simps) (auto split: if_splits)
  then have idx: "l \<le> idx" "idx < r" by (auto simp: idx_def)
  consider "pc < fn_begin f" | "\<not> pc < fn_begin f" "fn_end f \<le> pc" | "\<not> pc < fn_begin f" "\<not> fn_end f \<le> pc"
    by blast
  then show ?case
  proof cases
    case a: 1
    then have "search_function img pd pc l idx = Some e"
      using "1.prems" lr by (subst (asm) search_function.simps) (simp add: Let_def idx_def f_def)
    from "1.IH"(1) [OF lr idx_def f_def a this] idx show ?thesis by auto
  next
    case b: 2
    then have "search_function img pd pc (idx + 1) r = Some e"
      using "1.prems" lr by (subst (asm) search_function.simps) (simp add: Let_def idx_def f_def)
    from "1.IH"(2) [OF lr idx_def f_def b this] obtain i where "idx + 1 \<le> i" "i < r"
      "e = fn_entry pd i \<and> covers (table_fn img pd i) pc" by blast
    moreover from this idx have "l \<le> i" by simp
    ultimately show ?thesis by blast
  next
    case c: 3
    then have "e = fn_entry pd idx"
      using "1.prems" lr by (subst (asm) search_function.simps) (simp add: Let_def idx_def f_def)
    with c idx show ?thesis by (auto simp: table_fn_def f_def covers_def not_less not_le)
  qed
qed

lemma search_function_None:
  assumes "table_sorted img pd" "r \<le> unat (m_function_count pd)"
    "search_function img pd pc l r = None" "l \<le> i" "i < r"
  shows "\<not> covers (table_fn img pd i) pc"
  using assms
proof (induction img pd pc l r rule: search_function.induct)
  case (1 img pd pc l r)
  define idx where "idx = l + (r - l) div 2"
  define f where "f = read_function img (fn_entry pd idx)"
  have lr: "l < r" using "1.prems" by linarith
  then have idx: "l \<le> idx" "idx < r" by (auto simp: idx_def)
  have fi: "table_fn img pd idx = f" by (simp add: table_fn_def f_def)
  note srt = table_sortedD [OF "1.prems"(1)]
  consider "pc < fn_begin f" | "\<not> pc < fn_begin f" "fn_end f \<le> pc" | "\<not> pc < fn_begin f" "\<not> fn_end f \<le> pc"
    by blast
  then show ?case
  proof cases
    case a: 1
    then have none: "search_function img pd pc l idx = None"
      using "1.prems"(3) lr by (subst (asm) search_function.simps) (simp add: Let_def idx_def f_def)
    show ?thesis
    proof (cases "i < idx")
      case True
      then show ?thesis using "1.IH"(1) [OF lr idx_def f_def a "1.prems"(1) _ none] "1.prems" idx by simp
    next
      case False
      then have "fn_begin f \<le> fn_begin (table_fn img pd i)"
        using srt(1) [of idx i] srt(2) [of idx i] "1.prems" fi by (cases "i = idx") (auto intro: order_trans)
      with a show ?thesis by (auto simp: covers_def)
    qed
  next
    case b: 2
    then have none: "search_function img pd pc (idx + 1) r = None"
      using "1.prems"(3) lr by (subst (asm) search_function.simps) (simp add: Let_def idx_def f_def)
    show ?thesis
    proof (cases "idx < i")
      case True
      then show ?thesis using "1.IH"(2) [OF lr idx_def f_def b "1.prems"(1,2) none] "1.prems" by simp
    next
      case False
      then have "fn_end (table_fn img pd i) \<le> fn_end f"
        using srt(1) [of i idx] srt(3) [of i idx] "1.prems" idx fi by (cases "i = idx") (auto intro: order_trans)
      with b show ?thesis by (auto simp: covers_def)
    qed
  next
    case c: 3
    then have "search_function img pd pc l r = Some (fn_entry pd idx)"
      using lr by (subst search_function.simps) (simp add: Let_def idx_def f_def)
    with "1.prems"(3) show ?thesis by simp
  qed
qed

text \<open>
  For a sorted function table, \<^verbatim>\<open>find_function_entry\<close> returns the entry of the function that covers
  an address of the image if there is one, and null only if there is none; outside of the image it
  stops with \<^verbatim>\<open>NoMatchingExceptionHandler\<close>.
\<close>

theorem find_function_entry_correct:
  assumes "table_sorted img pd"
  shows "case find_function_entry img pd a of
      Inl e \<Rightarrow> e = Terminate NoMatchingExceptionHandler \<and> \<not> contains_address pd a
    | Inr None \<Rightarrow> contains_address pd a \<and>
        \<not> (\<exists>i. i < unat (m_function_count pd) \<and> covers (table_fn img pd i) (make_rva a (m_image_base pd)))
    | Inr (Some e) \<Rightarrow> contains_address pd a \<and>
        (\<exists>!i. i < unat (m_function_count pd) \<and> covers (table_fn img pd i) (make_rva a (m_image_base pd))) \<and>
        (\<exists>i. i < unat (m_function_count pd) \<and> covers (table_fn img pd i) (make_rva a (m_image_base pd)) \<and> e = fn_entry pd i)"
proof (cases "contains_address pd a")
  case True
  define pc where "pc = make_rva a (m_image_base pd)"
  define n where "n = unat (m_function_count pd)"
  show ?thesis
  proof (cases "search_function img pd pc 0 n")
    case None
    then have "\<not> (\<exists>i<n. covers (table_fn img pd i) pc)"
      using search_function_None [OF assms, of n pc 0] by (auto simp: n_def)
    with None True show ?thesis by (auto simp: find_function_entry_def pc_def n_def)
  next
    case (Some e)
    from search_function_Some [OF this] obtain i where i: "i < n" "covers (table_fn img pd i) pc" "e = fn_entry pd i"
      by auto
    have "\<exists>!i. i < n \<and> covers (table_fn img pd i) pc"
      using i covers_unique [OF assms] by (auto simp: n_def)
    with i Some True show ?thesis by (auto simp: find_function_entry_def pc_def n_def)
  qed
qed (simp add: find_function_entry_def)


section \<open>Unwinding a frame\<close>

text \<open>The operations of a prologue, in the order of the unwind codes (the last one first).
  \<open>POther n\<close> is a code without effect on the walk: \<^verbatim>\<open>Epilog\<close> (2 slots) or \<^verbatim>\<open>Reserved07\<close> (3).\<close>

datatype prolog_op = PPush nat | PAllocSmall nat | PAllocLarge nat | PSetFp | PSave nat nat
  | PSaveXmm nat nat | PEpilog | PReserved

fun op_at :: "memory \<Rightarrow> addr \<Rightarrow> nat \<Rightarrow> prolog_op \<Rightarrow> bool" where
  "op_at img ui i (PPush r) \<longleftrightarrow> entry_code img ui i = PushNonVolatileReg \<and> entry_info img ui i = r"
| "op_at img ui i (PAllocSmall n) \<longleftrightarrow> entry_code img ui i = AllocSmall \<and> n = 8 * entry_info img ui i + 8"
| "op_at img ui i (PAllocLarge n) \<longleftrightarrow> entry_code img ui i = AllocLarge \<and> entry_info img ui i = 0 \<and>
     n = 8 * unat (ui_data img ui (i + 1))"
| "op_at img ui i PSetFp \<longleftrightarrow> entry_code img ui i = SetFramePointer"
| "op_at img ui i (PSave r off) \<longleftrightarrow> entry_code img ui i = SaveNonVolatileReg \<and> entry_info img ui i = r \<and>
     off = 8 * unat (ui_data img ui (i + 1))"
| "op_at img ui i (PSaveXmm r off) \<longleftrightarrow> entry_code img ui i = SaveXmm128 \<and> entry_info img ui i = r \<and>
     off = 16 * unat (ui_data img ui (i + 1))"
| "op_at img ui i PEpilog \<longleftrightarrow> entry_code img ui i = Epilog"
| "op_at img ui i PReserved \<longleftrightarrow> entry_code img ui i = Reserved07"

fun op_len :: "prolog_op \<Rightarrow> nat" where
  "op_len (PAllocLarge _) = 2"
| "op_len (PSave _ _) = 2"
| "op_len (PSaveXmm _ _) = 2"
| "op_len PEpilog = 2"
| "op_len PReserved = 3"
| "op_len _ = 1"

fun ops_at :: "memory \<Rightarrow> addr \<Rightarrow> nat \<Rightarrow> prolog_op list \<Rightarrow> bool" where
  "ops_at img ui i [] \<longleftrightarrow> i = ui_code_count img ui"
| "ops_at img ui i (p # ps) \<longleftrightarrow> i < ui_code_count img ui \<and> op_at img ui i p \<and> ops_at img ui (i + op_len p) ps"

text \<open>
  \<open>framed stk fr disp ops caller body\<close>: a function with the prologue \<open>ops\<close> (frame register \<open>fr\<close>,
  displacement \<open>16 * disp\<close>) was entered from \<open>caller\<close> (its registers once the call returns), and
  \<open>body\<close> are the registers at some point of its body. A pushed or saved register may have any value
  in the body, because its slot still holds the caller's value; after the frame pointer is set,
  \<^verbatim>\<open>rsp\<close> may have any value.
\<close>

inductive framed :: "memory \<Rightarrow> nat \<Rightarrow> nat \<Rightarrow> prolog_op list
    \<Rightarrow> frame_walk_context \<times> machine_frame \<Rightarrow> frame_walk_context \<times> machine_frame \<Rightarrow> bool"
  for stk fr disp where
  framed_call: "rsp mb = sp - 8 \<Longrightarrow> rd64 stk (rsp mb) = ret \<Longrightarrow>
     framed stk fr disp [] (c, mb\<lparr> rip := ret, rsp := sp \<rparr>) (c, mb)"
| framed_push: "framed stk fr disp ops caller (c, mb\<lparr> rsp := sp \<rparr>) \<Longrightarrow> gp_index r = Inr k \<Longrightarrow>
     rsp mb = sp - 8 \<Longrightarrow> rd64 stk (rsp mb) = gp_regs c ! k \<Longrightarrow>
     framed stk fr disp (PPush r # ops) caller (c\<lparr> gp_regs := (gp_regs c)[k := v] \<rparr>, mb)"
| framed_small: "framed stk fr disp ops caller (c, mb\<lparr> rsp := sp \<rparr>) \<Longrightarrow> rsp mb = sp - of_nat n \<Longrightarrow>
     framed stk fr disp (PAllocSmall n # ops) caller (c, mb)"
| framed_large: "framed stk fr disp ops caller (c, mb\<lparr> rsp := sp \<rparr>) \<Longrightarrow> rsp mb = sp - of_nat n \<Longrightarrow>
     framed stk fr disp (PAllocLarge n # ops) caller (c, mb)"
| framed_fp: "framed stk fr disp ops caller (c, mb\<lparr> rsp := sp \<rparr>) \<Longrightarrow>
     gp fr c = Inr (sp + of_nat (disp * 16)) \<Longrightarrow>
     framed stk fr disp (PSetFp # ops) caller (c, mb)"
| framed_save: "framed stk fr disp ops caller (c, mb) \<Longrightarrow> gp_index r = Inr k \<Longrightarrow>
     rd64 stk (rsp mb + of_nat off) = gp_regs c ! k \<Longrightarrow>
     framed stk fr disp (PSave r off # ops) caller (c\<lparr> gp_regs := (gp_regs c)[k := v] \<rparr>, mb)"
| framed_xmm: "framed stk fr disp ops caller (c, mb) \<Longrightarrow> 6 \<le> r \<Longrightarrow> r < 16 \<Longrightarrow>
     rd128 stk (rsp mb + of_nat off) = xmm_regs c ! (r - 6) \<Longrightarrow>
     framed stk fr disp (PSaveXmm r off # ops) caller (c\<lparr> xmm_regs := (xmm_regs c)[r - 6 := x] \<rparr>, mb)"
| framed_epilog: "framed stk fr disp ops caller b \<Longrightarrow> framed stk fr disp (PEpilog # ops) caller b"
| framed_reserved: "framed stk fr disp ops caller b \<Longrightarrow> framed stk fr disp (PReserved # ops) caller b"

lemma list_update_back: "xs[k := v, k := xs ! k] = xs"
  by simp

text \<open>The end of \<open>unwind\<close>: the return address is popped.\<close>

definition finish :: "memory \<Rightarrow> frame_walk_context \<times> machine_frame \<times> bool \<Rightarrow> frame_walk_context \<times> machine_frame" where
  "finish stk = (\<lambda>(c, m, upd). (c, if upd then m else m\<lparr> rip := rd64 stk (rsp m), rsp := rsp m + 8 \<rparr>))"

lemma unwind_loop_step:
  assumes "i < ui_code_count img ui" "unwind_step img stk ui i c m u = Inr (j, c', m', u')"
  shows "unwind_loop img stk ui i c m u = unwind_loop img stk ui j c' m' u'"
  using assms by (subst unwind_loop.simps) simp

lemma unwind_loop_framed:
  assumes "framed stk (ui_frame_reg img ui) (ui_frame_reg_disp img ui) ops caller body" "ops_at img ui i ops"
  shows "\<exists>r. unwind_loop img stk ui i (fst body) (snd body) False = Inr r \<and> finish stk r = caller"
  using assms
proof (induction ops caller body arbitrary: i rule: framed.induct)
  case (framed_call mb sp ret c)
  then show ?case by (subst unwind_loop.simps) (simp add: finish_def)
next
  case (framed_push ops caller c sp mb r k v)
  from framed_push.prems framed_push.hyps have "unwind_step img stk ui i (c\<lparr> gp_regs := (gp_regs c)[k := v] \<rparr>) mb False
      = Inr (i + 1, c, mb\<lparr> rsp := sp \<rparr>, False)"
    by (simp add: unwind_step_def Let_def set_gp_def)
  from unwind_loop_step [OF _ this] framed_push show ?case by simp
next
  case (framed_small ops caller c sp mb n)
  then have "unwind_step img stk ui i c mb False = Inr (i + 1, c, mb\<lparr> rsp := sp \<rparr>, False)"
    by (simp add: unwind_step_def Let_def algebra_simps)
  from unwind_loop_step [OF _ this] framed_small show ?case by simp
next
  case (framed_large ops caller c sp mb n)
  then have "unwind_step img stk ui i c mb False = Inr (i + 2, c, mb\<lparr> rsp := sp \<rparr>, False)"
    by (simp add: unwind_step_def Let_def algebra_simps)
  from unwind_loop_step [OF _ this] framed_large show ?case by simp
next
  case (framed_fp ops caller c sp mb)
  then have "unwind_step img stk ui i c mb False = Inr (i + 1, c, mb\<lparr> rsp := sp \<rparr>, False)"
    by (simp add: unwind_step_def Let_def algebra_simps)
  from unwind_loop_step [OF _ this] framed_fp show ?case by simp
next
  case (framed_save ops caller c mb r k off v)
  from framed_save.prems framed_save.hyps have "unwind_step img stk ui i (c\<lparr> gp_regs := (gp_regs c)[k := v] \<rparr>) mb False
      = Inr (i + 2, c, mb, False)"
    by (simp add: unwind_step_def Let_def set_gp_def mult.commute)
  from unwind_loop_step [OF _ this] framed_save show ?case by simp
next
  case (framed_xmm ops caller c mb r off x)
  from framed_xmm.prems framed_xmm.hyps have "unwind_step img stk ui i (c\<lparr> xmm_regs := (xmm_regs c)[r - 6 := x] \<rparr>) mb False
      = Inr (i + 2, c, mb, False)"
    by (simp add: unwind_step_def Let_def set_xmm_def mult.commute)
  from unwind_loop_step [OF _ this] framed_xmm show ?case by simp
next
  case (framed_epilog ops caller b)
  then have "unwind_step img stk ui i (fst b) (snd b) False = Inr (i + 2, fst b, snd b, False)"
    by (simp add: unwind_step_def Let_def)
  from unwind_loop_step [OF _ this] framed_epilog show ?case by simp
next
  case (framed_reserved ops caller b)
  then have "unwind_step img stk ui i (fst b) (snd b) False = Inr (i + 3, fst b, snd b, False)"
    by (simp add: unwind_step_def Let_def)
  from unwind_loop_step [OF _ this] framed_reserved show ?case by simp
qed

text \<open>
  C18: \<^verbatim>\<open>frame_walk_pdata::unwind\<close> restores the caller of a function whose unwind information consists of
  the codes for pushes, small allocations, large allocations with a 16-bit size, a frame pointer, general
  and vector registers saved at near offsets (\<^verbatim>\<open>SaveNonVolatileReg\<close>, \<^verbatim>\<open>SaveXmm128\<close>), and the entries for the epilogue, which are skipped. If these
  codes describe the prologue the function executed, then unwinding from its body gives
  exactly the caller's non-volatile registers, stack pointer and return address. Not covered are the far
  forms (\<^verbatim>\<open>SaveFarNonVolatileReg\<close>, \<^verbatim>\<open>SaveFarXmm128\<close>, large allocations with a 32-bit size), of which the first and the last
  are decoded wrongly (\<open>far_codes_misread\<close>), and \<^verbatim>\<open>PushMachineFrame\<close>.
\<close>

theorem unwind_restores_caller:
  assumes "framed stk (ui_frame_reg img ui) (ui_frame_reg_disp img ui) ops caller (c, m)"
    and "ops_at img ui 0 ops"
  shows "unwind img stk ui c m = Inr caller"
  using unwind_loop_framed [OF assms] by (auto simp: unwind_def finish_def split: if_splits)


section \<open>Concrete frames\<close>

lemma all_less_two: "(\<forall>j<2. P j) \<longleftrightarrow> P (0::nat) \<and> P 1"
  by (auto simp: less_2_cases_iff)

text \<open>An image whose function table, at address 0, has the functions 0x10-0x20 and 0x20-0x30.\<close>

definition two_functions :: memory where
  "two_functions = mem_of [(0, [0x10, 0, 0, 0, 0x20, 0, 0, 0, 0, 0, 0, 0]), (12, [0x20, 0, 0, 0, 0x30, 0, 0, 0, 0, 0, 0, 0])]"

definition two_pdata :: frame_walk_pdata where
  "two_pdata = \<lparr> m_image_base = 0, m_functions = 0, m_function_count = 2, m_image_size = 0x100 \<rparr>"

lemmas two_defs = two_functions_def two_pdata_def table_fn_def fn_entry_def read_function_def covers_def make_rva_def

lemma two_functions_sorted: "table_sorted two_functions two_pdata"
  by (simp add: table_sorted_def two_defs eval_mem all_less_two)

theorem find_function_entry_correct_witness:
  "find_function_entry two_functions two_pdata 0x25 = Inr (Some (fn_entry two_pdata 1))"
proof -
  have c: "make_rva 0x25 (m_image_base two_pdata) = 0x25" "\<not> covers (table_fn two_functions two_pdata 0) 0x25"
    "covers (table_fn two_functions two_pdata 1) 0x25" "unat (m_function_count two_pdata) = 2" 
    "contains_address two_pdata 0x25"
    by (simp_all add: two_defs eval_mem contains_address_def)
  show ?thesis
    using find_function_entry_correct [OF two_functions_sorted, of "0x25"] c
    by (auto split: sum.splits option.splits simp: less_2_cases_iff)
qed

text \<open>A function that pushed \<^verbatim>\<open>rbx\<close> and allocated 32 bytes: its unwind information at address 0 and
  the stack at 0x1000.\<close>

definition push_alloc_image :: memory where
  "push_alloc_image = mem_of [(0, [1, 5, 2, 0, 5, 0x32, 1, 0x30])]"

definition push_alloc_stack :: memory where
  "push_alloc_stack = mem_of [(0x1020, nat_bytes 8 7), (0x1028, nat_bytes 8 0x4444)]"

definition regs0 :: frame_walk_context where
  "regs0 = \<lparr> gp_regs = replicate 8 0, xmm_regs = replicate 10 0, dummy_rsp = 0, dummy_rip = 0 \<rparr>"

definition mach0 :: machine_frame where
  "mach0 = \<lparr> rip = 0x100, cs = 0, eflags = 0, rsp = 0x1000, ss = 0 \<rparr>"

lemma push_alloc_framed:
  "framed push_alloc_stack (ui_frame_reg push_alloc_image 0) (ui_frame_reg_disp push_alloc_image 0)
     [PAllocSmall 32, PPush 3] (regs0\<lparr> gp_regs := 7 # replicate 7 0 \<rparr>, mach0\<lparr> rip := 0x4444, rsp := 0x1030 \<rparr>)
     (regs0, mach0)"
proof -
  let ?c = "regs0\<lparr> gp_regs := 7 # replicate 7 0 \<rparr>"
  let ?m = "\<lambda>sp. mach0\<lparr> rsp := sp \<rparr>"
  note f = framed.intros [where stk = push_alloc_stack and fr = "ui_frame_reg push_alloc_image 0"
      and disp = "ui_frame_reg_disp push_alloc_image 0"]
  have r: "rd64 push_alloc_stack 0x1028 = 0x4444" "rd64 push_alloc_stack 0x1020 = 7"
    by (simp_all add: push_alloc_stack_def eval_mem)
  have k: "gp_index 3 = Inr 0" by (simp add: gp_index_def conv_def)
  have 0: "framed push_alloc_stack (ui_frame_reg push_alloc_image 0) (ui_frame_reg_disp push_alloc_image 0)
      [] (?c, (?m 0x1028)\<lparr> rip := 0x4444, rsp := 0x1030 \<rparr>) (?c, ?m 0x1028)"
    by (rule f(1)) (simp_all add: r)
  have 1: "framed push_alloc_stack (ui_frame_reg push_alloc_image 0) (ui_frame_reg_disp push_alloc_image 0)
      [PPush 3] (?c, (?m 0x1028)\<lparr> rip := 0x4444, rsp := 0x1030 \<rparr>) (?c\<lparr> gp_regs := (gp_regs ?c)[0 := 0] \<rparr>, ?m 0x1020)"
    by (rule f(2) [where sp = "0x1028", OF _ k]) (use 0 in \<open>simp_all add: r\<close>)
  have "framed push_alloc_stack (ui_frame_reg push_alloc_image 0) (ui_frame_reg_disp push_alloc_image 0)
      [PAllocSmall 32, PPush 3] (?c, (?m 0x1028)\<lparr> rip := 0x4444, rsp := 0x1030 \<rparr>)
      (?c\<lparr> gp_regs := (gp_regs ?c)[0 := 0] \<rparr>, ?m 0x1000)"
    by (rule f(3) [where sp = "0x1020"]) (use 1 in simp_all)
  then show ?thesis by (simp add: regs0_def mach0_def numeral_eq_Suc)
qed

theorem unwind_restores_caller_witness:
  "unwind push_alloc_image push_alloc_stack 0 regs0 mach0
     = Inr (regs0\<lparr> gp_regs := 7 # replicate 7 0 \<rparr>, mach0\<lparr> rip := 0x4444, rsp := 0x1030 \<rparr>)"
proof -
  have "ops_at push_alloc_image 0 0 [PAllocSmall 32, PPush 3]"
    by (simp add: push_alloc_image_def eval_mem ui_code_count_def entry_code_def entry_info_def code_of_def)
  from unwind_restores_caller [OF push_alloc_framed this] show ?thesis .
qed

text \<open>An image with the codes \<^verbatim>\<open>SaveFarNonVolatileReg rbx, 0x100\<close> (at 0) and \<^verbatim>\<open>AllocLarge 0x10008\<close> (at
  0x20), each with its 32-bit operand in the two slots after the code.\<close>

definition far_image :: memory where
  "far_image = mem_of [(0, [1, 5, 3, 0, 0x10, 0x35, 0, 1, 0, 0]), (0x20, [1, 5, 3, 0, 0x10, 0x11, 8, 0, 1, 0])]"

definition far_stack :: memory where
  "far_stack = mem_of [(0x1100, nat_bytes 8 7)]"

text \<open>
  The far forms of the unwind codes are decoded wrongly. A register saved at offset 0x100 with
  \<^verbatim>\<open>SaveFarNonVolatileReg\<close> is restored from another address, because the operand is read at the
  code's own slot (\<^verbatim>\<open>+idx\<close>); a frame of 0x10008 bytes allocated with the 32-bit form of
  \<^verbatim>\<open>AllocLarge\<close> is popped by 8 bytes only, because one 16-bit slot of the operand is read.
\<close>

theorem far_codes_misread:
  "rd32 far_image 6 = 0x100 \<and> rd64 far_stack (rsp mach0 + 0x100) = 7 \<and>
   map_sum id (\<lambda>(i, c, m, u). gp_regs c ! 0) (unwind_step far_image far_stack 0 0 regs0 mach0 False) = Inr 0 \<and>
   rd32 far_image 0x26 = 0x10008 \<and>
   map_sum id (\<lambda>(i, c, m, u). rsp m - rsp mach0) (unwind_step far_image far_stack 0x20 0 regs0 mach0 False) = Inr 8"
  by (simp add: far_image_def far_stack_def eval_mem unwind_step_def entry_code_def entry_info_def code_of_def
      ui_data_def regs0_def mach0_def set_gp_def gp_index_def conv_def Let_def)

end
