(* ===== verification/Exc_Dispatch_Spec.thy ===== *)
theory Exc_Dispatch_Spec
  imports Exc_Dispatch Frame_Handler4_Spec Exc_Unwind_Spec
begin

text \<open>
  Properties of the older frame handler and of the dispatch: the cleanup loop terminates and runs each
  state once, the dispatcher returns the handler of the first frame that has chosen one, and two
  defects: the probe for a rethrown exception moves the registers of the throw frame, and
  \<^verbatim>\<open>__CxxFrameHandler3\<close> writes through an uninitialised pointer.
\<close>

section \<open>Cleanup\<close>

function chain :: "(int \<Rightarrow> int) \<Rightarrow> int \<Rightarrow> int \<Rightarrow> int list" where
  "chain nxt state target =
     (if state > target \<and> nxt state < state then state # chain nxt (nxt state) target else [])"
  by pat_completeness auto

termination chain
  by (relation "measure (\<lambda>(_, s, t). nat (s - t))") auto

declare chain.simps [simp del]

lemma unwind_states_chain:
  assumes "\<And>i. target < i \<Longrightarrow> i \<le> state \<Longrightarrow> nxt i < i"
  shows "unwind_states act nxt state target s = Some (fold act (chain nxt state target) s)"
  using assms
proof (induction nxt state target arbitrary: s rule: chain.induct)
  case (1 nxt state target)
  show ?case
  proof (cases "state > target")
    case True
    with 1 have "nxt state < state" by simp
    with True "1.IH" [of "act state s"] "1.prems" show ?thesis
      by (subst unwind_states.simps, subst chain.simps) auto
  next
    case False
    then show ?thesis by (subst unwind_states.simps, subst chain.simps) simp
  qed
qed

lemma chain_le: "x \<in> set (chain nxt state target) \<Longrightarrow> target < x \<and> x \<le> state"
proof (induction nxt state target rule: chain.induct)
  case (1 nxt state target)
  show ?case
  proof (cases "state > target \<and> nxt state < state")
    case True
    have "chain nxt state target = state # chain nxt (nxt state) target"
      using True by (subst chain.simps) simp
    with 1 True show ?thesis by force
  next
    case False
    then have "chain nxt state target = []" by (subst chain.simps) simp
    with 1 show ?thesis by simp
  qed
qed

lemma chain_decreasing: "sorted_wrt (>) (chain nxt state target)"
proof (induction nxt state target rule: chain.induct)
  case (1 nxt state target)
  show ?case
  proof (cases "state > target \<and> nxt state < state")
    case True
    then have c: "chain nxt state target = state # chain nxt (nxt state) target" by (subst chain.simps) simp
    from 1 True show ?thesis unfolding c by (auto dest: chain_le)
  next
    case False
    then have "chain nxt state target = []" by (subst chain.simps) simp
    then show ?thesis by simp
  qed
qed

lemma chain_last:
  assumes "\<And>i. target < i \<Longrightarrow> i \<le> state \<Longrightarrow> nxt i < i" "chain nxt state target \<noteq> []"
  shows "nxt (last (chain nxt state target)) \<le> target"
  using assms
proof (induction nxt state target rule: chain.induct)
  case (1 nxt state target)
  then have c: "state > target \<and> nxt state < state" by (subst (asm) (2) chain.simps) (auto split: if_splits)
  then have e: "chain nxt state target = state # chain nxt (nxt state) target" by (subst chain.simps) simp
  show ?case
  proof (cases "chain nxt (nxt state) target = []")
    case True
    have "nxt state \<le> target"
    proof (rule ccontr)
      assume "\<not> nxt state \<le> target"
      then have "nxt (nxt state) < nxt state" using "1.prems"(1) c by simp
      then show False using True \<open>\<not> nxt state \<le> target\<close> by (subst (asm) chain.simps) simp
    qed
    then show ?thesis using e True by simp
  next
    case False
    then show ?thesis using "1.IH" [OF c] "1.prems"(1) c e by simp
  qed
qed

lemma chain_head: "state > target \<Longrightarrow> nxt state < state \<Longrightarrow> hd (chain nxt state target) = state"
  by (subst chain.simps) simp

text \<open>
  C25: The cleanup loop of \<^verbatim>\<open>__CxxFrameHandler3\<close> terminates when every edge of the unwind graph leads to a
  smaller state. It runs the cleanup funclets of exactly the states on the path from the current state to
  the target: the first is the current state, each next one is where the edge of the one before leads, and
  the edge of the last one leads to the target or below it. The order is strictly decreasing, so none is run
  twice and none at or below the target; when the current state is not above the target, none is run.
\<close>

theorem fh3_cleanup_terminates:
  assumes "\<forall>i. target < i \<and> i \<le> state \<longrightarrow> edge_next (image P) g i < i"
  shows "\<exists>xs. unwind_states (cleanup P base fp g) (edge_next (image P) g) state target s = Some (fold (cleanup P base fp g) xs s) \<and>
     sorted_wrt (>) xs \<and> (\<forall>x \<in> set xs. target < x \<and> x \<le> state) \<and>
     (\<forall>i. Suc i < length xs \<longrightarrow> xs ! Suc i = edge_next (image P) g (xs ! i)) \<and>
     (if target < state then xs \<noteq> [] \<and> hd xs = state \<and> edge_next (image P) g (last xs) \<le> target else xs = [])"
proof -
  let ?n = "edge_next (image P) g"
  let ?xs = "chain ?n state target"
  have step: "Suc i < length (chain nxt st t) \<Longrightarrow> chain nxt st t ! Suc i = nxt (chain nxt st t ! i)" for nxt st t i
  proof (induction nxt st t arbitrary: i rule: chain.induct)
    case (1 nxt st t)
    then have c: "st > t \<and> nxt st < st" by (subst (asm) chain.simps) (auto split: if_splits)
    then have e: "chain nxt st t = st # chain nxt (nxt st) t" by (subst chain.simps) simp
    show ?case
    proof (cases i)
      case 0
      with 1(2) e have "chain nxt (nxt st) t \<noteq> []" by auto
      then have "nxt st > t \<and> nxt (nxt st) < nxt st" by (subst (asm) chain.simps) (auto split: if_splits)
      then have "hd (chain nxt (nxt st) t) = nxt st" by (simp add: chain_head)
      with 0 e \<open>chain nxt (nxt st) t \<noteq> []\<close> show ?thesis by (simp add: hd_conv_nth)
    next
      case (Suc j)
      with 1 c e show ?thesis by simp
    qed
  qed
  have "target < state \<Longrightarrow> ?xs \<noteq> [] \<and> hd ?xs = state"
    using assms by (subst (1 2) chain.simps) simp
  moreover have "\<not> target < state \<Longrightarrow> ?xs = []" by (subst chain.simps) simp
  moreover have "?xs \<noteq> [] \<Longrightarrow> ?n (last ?xs) \<le> target" using chain_last [of target state ?n] assms by simp
  ultimately show ?thesis
    using unwind_states_chain [of target state ?n "cleanup P base fp g" s] assms chain_decreasing step
    by (intro exI [of _ ?xs]) (auto dest: chain_le)
qed


text \<open>An unwind graph of two states at address 0x40, with funclets at 0x80 and 0x90.\<close>

definition graph3_image :: program where
  "graph3_image = throw_image\<lparr> image := mem_of [(0x40, [0xff, 0xff, 0xff, 0xff, 0x80, 0, 0, 0, 0, 0, 0, 0, 0x90, 0, 0, 0])] \<rparr>"

lemma graph3_edges: "edge_next (image graph3_image) 0x40 0 = -1" "edge_next (image graph3_image) 0x40 1 = 0"
  by (simp_all add: edge_next_def graph3_image_def eval_mem)

theorem fh3_cleanup_terminates_witness:
  "\<exists>xs. unwind_states (cleanup graph3_image 0 0x7000 0x40) (edge_next (image graph3_image) 0x40) 1 (-1) idle_state
       = Some (fold (cleanup graph3_image 0 0x7000 0x40) xs idle_state) \<and>
     sorted_wrt (>) xs \<and> xs \<noteq> [] \<and> hd xs = 1 \<and> edge_next (image graph3_image) 0x40 (last xs) \<le> -1"
proof -
  have "edge_next (image graph3_image) 0x40 i < i" if "-1 < i" "i \<le> 1" for i
  proof -
    from that have "i = 0 \<or> i = 1" by linarith
    then show ?thesis by (auto simp: graph3_edges)
  qed
  then show ?thesis
    using fh3_cleanup_terminates [where target = "-1" and state = 1 and P = graph3_image and g = "0x40"
        and base = 0 and fp = "0x7000" and s = idle_state] by auto
qed

section \<open>Dispatch\<close>

text \<open>The frames that a dispatch meets, described by the tables of the image alone: a function without a
  handler, and a function with \<^verbatim>\<open>__CxxFrameHandler4\<close> (directly or behind \<^verbatim>\<open>__GSHandlerCheck_EH4\<close> with an
  intact cookie). For the latter, its call of the handler, primary frame, current state, unwind graph,
  and the handlers of the try blocks around the state, in table order.\<close>

record try_frame =
  tf_call :: handler_call
  tf_pfp :: addr
  tf_state :: int
  tf_graph :: addr
  tf_next :: "int \<Rightarrow> int"
  tf_handlers :: "(u32 \<times> catch_entry) list"

definition handlers_of :: "program \<Rightarrow> frame_walk_pdata \<Rightarrow> exc_info \<Rightarrow> u32 \<Rightarrow> int \<Rightarrow> (u32 \<times> catch_entry) list" where
  "handlers_of P pd ei fn st =
     (if ei_try_blocks ei \<noteq> 0 \<and> 0 \<le> st then
        let (count, p) = read_unsigned (image P) (rva_at (m_image_base pd) (ei_try_blocks ei))
        in enclosing_handlers (image P) (m_image_base pd) fn st p (unat count)
      else [])"

definition fh4_tables :: "program \<Rightarrow> frame_walk_pdata \<Rightarrow> eh_state \<Rightarrow> try_frame \<Rightarrow> bool" where
  "fh4_tables P pd s f \<longleftrightarrow> (\<exists>ei n.
     ei = load_exception_info (image P) (rva_at (m_image_base pd) (rd32 (image P) (hc_data (tf_call f)))) (m_image_base pd) (hc_fn (tf_call f)) \<and>
     initial_frame P pd (tf_call f) ei s = (tf_pfp f, tf_state f) \<and> -1 \<le> tf_state f \<and> tf_state f < int n \<and>
     tf_handlers f = handlers_of P pd ei (fn_begin (hc_fn (tf_call f))) (tf_state f) \<and>
     (\<forall>(low, e) \<in> set (tf_handlers f). length (ce_conts e) \<le> 2 \<and> rva_at (m_image_base pd) (ce_handler e) \<noteq> 0) \<and>
     read_unsigned (image P) (rva_at (m_image_base pd) (ei_unwind_graph ei)) = (of_nat n, tf_graph f) \<and>
     unwind_graph (image P) (tf_graph f) n (tf_next f))"

definition function_at :: "program \<Rightarrow> frame_walk_pdata \<Rightarrow> eh_state \<Rightarrow> addr \<Rightarrow> pe_function \<Rightarrow> bool" where
  "function_at P pd s ui fn \<longleftrightarrow> (\<exists>e. find_function_entry (image P) pd (rip (walk_mach s)) = Inr (Some e) \<and>
     fn = read_function (image P) e \<and> ui = rva_at (m_image_base pd) (fn_unwind_info fn))"

definition plain_frame :: "program \<Rightarrow> frame_walk_pdata \<Rightarrow> eh_state \<Rightarrow> addr \<Rightarrow> bool" where
  "plain_frame P pd s ui \<longleftrightarrow> (\<exists>fn. function_at P pd s ui fn) \<and> \<not> has_any_of (ui_flags (image P) ui) (1 OR 2)"

definition fh4_frame :: "program \<Rightarrow> frame_walk_pdata \<Rightarrow> eh_state \<Rightarrow> addr \<Rightarrow> try_frame \<Rightarrow> bool" where
  "fh4_frame P pd s ui f \<longleftrightarrow> has_any_of (ui_flags (image P) ui) (1 OR 2) \<and> (\<exists>fn h data fp.
     function_at P pd s ui fn \<and>
     get_frame_handler (image P) (m_image_base pd) ui ((ui_code_count (image P) ui + 1) div 2 * 2) = (h, data) \<and>
     (if ui_frame_reg (image P) ui \<noteq> 0 then gp (ui_frame_reg (image P) ui) (walk_ctx s) else Inr (rsp (walk_mach s))) = Inr fp \<and>
     (handler_at P h = Cxx_frame_handler4 \<or> handler_at P h = GS_handler_check_EH4 \<and> gs_ok P fp (data + 4) (stack s)) \<and>
     tf_call f = \<lparr> hc_fn = fn, hc_data = data, hc_frame = fp, hc_cookie = unwind_cookie \<rparr>) \<and>
     fh4_tables P pd (prepare_for_non_cxx_handler s) f"

text \<open>The first handler, in table order, that accepts the exception in flight.\<close>

definition accepting :: "program \<Rightarrow> frame_walk_pdata \<Rightarrow> eh_state \<Rightarrow> try_frame \<Rightarrow> (u32 \<times> catch_entry) option" where
  "accepting P pd s f = find (\<lambda>(low, e). entry_accepts P (m_image_base pd) (get_throw_info (cur s) s) e) (tf_handlers f)"

definition destroying :: "program \<Rightarrow> frame_walk_pdata \<Rightarrow> try_frame \<Rightarrow> int \<Rightarrow> eh_state \<Rightarrow> eh_state option" where
  "destroying P pd f target s =
     unwind_states (edge_action P (m_image_base pd) (hc_frame (tf_call f)) (tf_graph f)) (tf_next f) (tf_state f) target s"

text \<open>A frame is left: it has no handler, or none of its handlers accepts and all its objects are destroyed.\<close>

inductive leaves :: "program \<Rightarrow> frame_walk_pdata \<Rightarrow> eh_state \<Rightarrow> addr \<Rightarrow> eh_state \<Rightarrow> bool" for P pd where
  leave_plain: "plain_frame P pd s ui \<Longrightarrow> leaves P pd s ui s"
| leave_fh4: "fh4_frame P pd s ui f \<Longrightarrow> accepting P pd s f = None \<Longrightarrow> conts_only (prepare_for_non_cxx_handler s) s1 \<Longrightarrow>
    destroying P pd f (-1) s1 = Some s2 \<Longrightarrow> leaves P pd s ui s2"

text \<open>A frame catches: its first accepting handler is recorded, and the objects of the states from the current one
  down to the start of the handler's try block are destroyed.\<close>

definition catches :: "program \<Rightarrow> frame_walk_pdata \<Rightarrow> eh_state \<Rightarrow> addr \<Rightarrow> eh_state \<Rightarrow> bool" where
  "catches P pd s h s' \<longleftrightarrow> (\<exists>ui f low e s1. fh4_frame P pd s ui f \<and> accepting P pd s f = Some (low, e) \<and>
     chosen (m_image_base pd) (tf_pfp f) low e (prepare_for_non_cxx_handler s) s1 \<and>
     destroying P pd f (int (unat low) - 1) s1 = Some s' \<and> h = rva_at (m_image_base pd) (ce_handler e))"

text \<open>\<open>k\<close> frames are left and unwound, the next one catches.\<close>

inductive caught_after :: "program \<Rightarrow> frame_walk_pdata \<Rightarrow> nat \<Rightarrow> eh_state \<Rightarrow> addr \<Rightarrow> eh_state \<Rightarrow> bool" for P pd where
  caught_here: "catches P pd s h s' \<Longrightarrow> caught_after P pd 0 s h s'"
| caught_outside: "leaves P pd s ui s1 \<Longrightarrow> unwind_frame P ui s1 = Inr s2 \<Longrightarrow> caught_after P pd k s2 h s' \<Longrightarrow>
    caught_after P pd (Suc k) s h s'"

text \<open>The stack below a throw: \<open>k\<close> frames that no handler of theirs keeps and whose unwind codes can be read, whatever their
  destructors write, and a frame with an accepting handler.\<close>

fun catchable :: "program \<Rightarrow> frame_walk_pdata \<Rightarrow> nat \<Rightarrow> eh_state \<Rightarrow> bool" where
  "catchable P pd 0 s \<longleftrightarrow> (\<exists>ui f. fh4_frame P pd s ui f \<and> accepting P pd s f \<noteq> None)"
| "catchable P pd (Suc k) s \<longleftrightarrow>
     ((\<exists>ui. plain_frame P pd s ui) \<or> (\<exists>ui f. fh4_frame P pd s ui f \<and> accepting P pd s f = None)) \<and>
     (\<forall>ui s1. leaves P pd s ui s1 \<longrightarrow> (\<exists>s2. unwind_frame P ui s1 = Inr s2 \<and> catchable P pd k s2))"

text \<open>What the walk keeps: an exception is in flight and no handler is chosen.\<close>

definition throwing :: "eh_state \<Rightarrow> bool" where
  "throwing s \<longleftrightarrow> dc_handler s = 0 \<and> length (continuation_address (cur s)) = 2 \<and> get_throw_info (cur s) s \<noteq> 0"

lemma throwing_cong:
  assumes "throwing s" "cur s' = cur s" "infos s' = infos s" "dc_handler s' = dc_handler s"
  shows "throwing s'"
proof -
  have "get_throw_info (cur s') s' = get_throw_info (cur s) s" using assms(2,3) by (simp add: get_throw_info_def)
  then show ?thesis using assms by (simp add: throwing_def)
qed

lemma throwing_prepare: "throwing s \<Longrightarrow> throwing (prepare_for_non_cxx_handler s)"
  by (erule throwing_cong) (simp_all add: prepare_for_non_cxx_handler_def)

lemma throwing_conts: "throwing s \<Longrightarrow> conts_only s s' \<Longrightarrow> throwing s'"
  by (auto simp: throwing_def conts_only_def get_throw_info_def split: if_splits)

lemma throwing_unwind_frame: "throwing s \<Longrightarrow> unwind_frame P ui s = Inr s' \<Longrightarrow> throwing s'"
  by (erule throwing_cong; cases "unwind (image P) (stack s) ui (walk_ctx s) (walk_mach s)") (auto simp: unwind_frame_def)

lemma accepting_prepare: "accepting P pd (prepare_for_non_cxx_handler s) f = accepting P pd s f"
  by (simp add: accepting_def prepare_for_non_cxx_handler_def get_throw_info_def)

text \<open>Destructors and cleanup funclets run on the stack; they do not reach the state of the dispatch.\<close>

lemma unwind_states_keeps:
  assumes "unwind_states act nxt st t s = Some s'" "\<And>i s. f (act i s) = f s"
  shows "f s' = f s"
proof -
  let ?Q = "\<lambda>a nxt st t s s'. a = act \<longrightarrow> f s' = f s"
  have "?Q act nxt st t s s'"
    by (rule unwind_states.raw_induct [where P = ?Q, OF _ assms(1)]) (auto simp: assms(2) split: if_splits)
  then show ?thesis by simp
qed

lemma edge_action_infos: "infos (edge_action P base fp g i s) = infos s"
  by (auto simp: edge_action_def run_edge_def do_call_def split: prod.splits edge_type.splits)

lemma destroying_keeps:
  assumes "destroying P pd f t s = Some s'"
  shows "cur s' = cur s" "infos s' = infos s" "dc_handler s' = dc_handler s"
  using unwind_states_keeps [OF assms [unfolded destroying_def], of cur]
    unwind_states_keeps [OF assms [unfolded destroying_def], of infos]
    unwind_states_keeps [OF assms [unfolded destroying_def], of dc_handler] by (simp_all add: edge_action_keeps edge_action_infos)

text \<open>One frame: what the handler call does.\<close>

lemma fh4_frame_handler:
  assumes "fh4_tables P pd s f" "hc_cookie (tf_call f) = unwind_cookie" "throwing s"
  shows "\<exists>s1 s2. frame_handler4 P pd (tf_call f) s = run_ret (CxxHandler, s2) \<and>
     (case accepting P pd s f of
        None \<Rightarrow> conts_only s s1 \<and> destroying P pd f (-1) s1 = Some s2
      | Some (low, e) \<Rightarrow> chosen (m_image_base pd) (tf_pfp f) low e s s1 \<and> destroying P pd f (int (unat low) - 1) s1 = Some s2)"
proof -
  let ?base = "m_image_base pd" and ?c = "tf_call f"
  obtain ei n where ei: "ei = load_exception_info (image P) (rva_at ?base (rd32 (image P) (hc_data ?c))) ?base (hc_fn ?c)"
    and st: "initial_frame P pd ?c ei s = (tf_pfp f, tf_state f)" "-1 \<le> tf_state f" "tf_state f < int n"
    and hs: "tf_handlers f = handlers_of P pd ei (fn_begin (hc_fn ?c)) (tf_state f)"
      "\<forall>(low, e) \<in> set (tf_handlers f). length (ce_conts e) \<le> 2 \<and> rva_at ?base (ce_handler e) \<noteq> 0"
    and gr: "read_unsigned (image P) (rva_at ?base (ei_unwind_graph ei)) = (of_nat n, tf_graph f)" "unwind_graph (image P) (tf_graph f) n (tf_next f)"
    using assms(1) unfolding fh4_tables_def by blast
  have thr: "get_throw_info (cur s) s \<noteq> 0" "dc_handler s = 0" "length (continuation_address (cur s)) = 2"
    using assms(3) by (simp_all add: throwing_def)
  show ?thesis
  proof (cases "ei_try_blocks ei \<noteq> 0 \<and> 0 \<le> tf_state f")
    case True
    obtain count p where tr: "read_unsigned (image P) (rva_at ?base (ei_try_blocks ei)) = (count, p)" by fastforce
    then have h: "tf_handlers f = enclosing_handlers (image P) ?base (fn_begin (hc_fn ?c)) (tf_state f) p (unat count)"
      using hs(1) True by (simp add: handlers_of_def)
    from frame_handler4_first [OF assms(2) ei st(1) _ st(3) refl _ tr h hs(2) thr gr] True
    show ?thesis unfolding accepting_def destroying_def by simp
  next
    case False
    then have none: "accepting P pd s f = None" using hs(1) unfolding handlers_of_def if_not_P [OF False] by (simp add: accepting_def)
    have run: "frame_handler4 P pd ?c s = (if -1 < tf_state f
        then run_bind (run_eh (destroy_objects P ?base (ei_unwind_graph ei) (hc_frame ?c) (tf_state f) (-1) s)) (\<lambda>s. run_ret (CxxHandler, s))
        else run_ret (CxxHandler, s))"
      using assms(2) st(1) False unfolding frame_handler4_def Let_def ei [symmetric] by auto
    show ?thesis
    proof (cases "-1 < tf_state f")
      case True
      from destroy_objects_ref [OF gr _ True st(3), of "hc_frame ?c" s] obtain s2 where
        "destroy_objects P ?base (ei_unwind_graph ei) (hc_frame ?c) (tf_state f) (-1) s = Inr s2" "destroying P pd f (-1) s = Some s2"
        unfolding destroying_def by auto
      then show ?thesis using run True none thr(3) by (auto intro!: exI [of _ s] conts_only_refl)
    next
      case False
      then have "destroying P pd f (-1) s = Some s" unfolding destroying_def by (subst unwind_states.simps) simp
      then show ?thesis using run False none thr(3) by (auto intro!: exI [of _ s] conts_only_refl)
    qed
  qed
qed

lemma execute_plain:
  assumes "plain_frame P pd s ui"
  shows "execute_handler call P pd cky s = run_ret (ui, s)"
  using assms by (auto simp: plain_frame_def function_at_def execute_handler_def Let_def)

lemma execute_fh4:
  assumes "fh4_frame P pd s ui f" "throwing s"
  shows "\<exists>s1 s2. execute_handler (run_handler P pd) P pd unwind_cookie s = run_ret (ui, s2) \<and>
     (case accepting P pd s f of
        None \<Rightarrow> conts_only (prepare_for_non_cxx_handler s) s1 \<and> destroying P pd f (-1) s1 = Some s2
      | Some (low, e) \<Rightarrow> chosen (m_image_base pd) (tf_pfp f) low e (prepare_for_non_cxx_handler s) s1 \<and>
          destroying P pd f (int (unat low) - 1) s1 = Some s2)"
proof -
  let ?s = "prepare_for_non_cxx_handler s"
  obtain fn h data fp where fr: "function_at P pd s ui fn" "has_any_of (ui_flags (image P) ui) (1 OR 2)"
    "get_frame_handler (image P) (m_image_base pd) ui ((ui_code_count (image P) ui + 1) div 2 * 2) = (h, data)"
    "(if ui_frame_reg (image P) ui \<noteq> 0 then gp (ui_frame_reg (image P) ui) (walk_ctx s) else Inr (rsp (walk_mach s))) = Inr fp"
    "handler_at P h = Cxx_frame_handler4 \<or> handler_at P h = GS_handler_check_EH4 \<and> gs_ok P fp (data + 4) (stack s)"
    "tf_call f = \<lparr> hc_fn = fn, hc_data = data, hc_frame = fp, hc_cookie = unwind_cookie \<rparr>" and tb: "fh4_tables P pd ?s f"
    using assms(1) unfolding fh4_frame_def by blast
  from fh4_frame_handler [OF tb _ throwing_prepare [OF assms(2)]] fr(6) obtain s1 s2 where
    s2: "frame_handler4 P pd (tf_call f) ?s = run_ret (CxxHandler, s2)"
    and res: "case accepting P pd ?s f of
        None \<Rightarrow> conts_only ?s s1 \<and> destroying P pd f (-1) s1 = Some s2
      | Some (low, e) \<Rightarrow> chosen (m_image_base pd) (tf_pfp f) low e ?s s1 \<and> destroying P pd f (int (unat low) - 1) s1 = Some s2"
    by auto
  have "run_handler P pd h (tf_call f) ?s = run_ret s2"
    using fr(5) s2 fr(6) by (auto simp: run_handler_def CxxFrameHandler4_def GSHandlerCheck_EH4_def gs_handler_def
        prepare_for_non_cxx_handler_def Let_def)
  then have "execute_handler (run_handler P pd) P pd unwind_cookie s = run_ret (ui, s2)"
    using fr by (auto simp: execute_handler_def function_at_def Let_def)
  then show ?thesis using res unfolding accepting_prepare by blast
qed

lemma leaves_step:
  assumes "(\<exists>ui. plain_frame P pd s ui) \<or> (\<exists>ui f. fh4_frame P pd s ui f \<and> accepting P pd s f = None)" "throwing s"
  shows "\<exists>ui s1. execute_handler (run_handler P pd) P pd unwind_cookie s = run_ret (ui, s1) \<and> leaves P pd s ui s1 \<and> throwing s1"
  using assms(1)
proof (elim disjE exE conjE)
  fix ui assume "plain_frame P pd s ui"
  then show ?thesis using execute_plain leave_plain assms(2) by blast
next
  fix ui f assume f: "fh4_frame P pd s ui f" "accepting P pd s f = None"
  with execute_fh4 [OF f(1) assms(2)] obtain s1 s2 where
    "execute_handler (run_handler P pd) P pd unwind_cookie s = run_ret (ui, s2)"
    and s1: "conts_only (prepare_for_non_cxx_handler s) s1" "destroying P pd f (-1) s1 = Some s2" by auto
  moreover have "throwing s2"
    using throwing_cong [OF throwing_conts [OF throwing_prepare [OF assms(2)] s1(1)]] destroying_keeps [OF s1(2)] by blast
  ultimately show ?thesis using leave_fh4 [OF f s1] by blast
qed

lemma catches_step:
  assumes "fh4_frame P pd s ui f" "accepting P pd s f \<noteq> None" "throwing s"
  shows "\<exists>h s'. execute_handler (run_handler P pd) P pd unwind_cookie s = run_ret (ui, s') \<and> catches P pd s h s' \<and>
     dc_handler s' = h \<and> h \<noteq> 0"
proof -
  obtain low e where a: "accepting P pd s f = Some (low, e)" using assms(2) by auto
  with execute_fh4 [OF assms(1,3)] obtain s1 s2 where
    s2: "execute_handler (run_handler P pd) P pd unwind_cookie s = run_ret (ui, s2)"
    and s1: "chosen (m_image_base pd) (tf_pfp f) low e (prepare_for_non_cxx_handler s) s1" "destroying P pd f (int (unat low) - 1) s1 = Some s2"
    by auto
  have "(low, e) \<in> set (tf_handlers f)" using a by (auto simp: accepting_def find_Some_iff in_set_conv_nth)
  then have "rva_at (m_image_base pd) (ce_handler e) \<noteq> 0" using assms(1) by (auto simp: fh4_frame_def fh4_tables_def)
  moreover have "dc_handler s2 = rva_at (m_image_base pd) (ce_handler e)"
    using destroying_keeps(3) [OF s1(2)] s1(1) by (simp add: chosen_def)
  ultimately show ?thesis using s2 a s1 assms(1) unfolding catches_def by blast
qed

lemma dispatch_loop_finds:
  "catchable P pd k s \<Longrightarrow> throwing s \<Longrightarrow> \<exists>h s'. dispatch_loop P pd s = run_ret (h, s') \<and> caught_after P pd k s h s'"
proof (induction k arbitrary: s)
  case 0
  then obtain ui f where "fh4_frame P pd s ui f" "accepting P pd s f \<noteq> None" by auto
  from catches_step [OF this 0(2)] obtain h s' where
    "execute_handler (run_handler P pd) P pd unwind_cookie s = run_ret (ui, s')" "catches P pd s h s'" "dc_handler s' = h" "h \<noteq> 0" by blast
  then show ?case by (subst dispatch_loop.simps) (auto intro: caught_here)
next
  case (Suc k)
  then obtain ui s1 where s1: "execute_handler (run_handler P pd) P pd unwind_cookie s = run_ret (ui, s1)" "leaves P pd s ui s1" "throwing s1"
    using leaves_step [of P pd s] by auto
  then obtain s2 where s2: "unwind_frame P ui s1 = Inr s2" "catchable P pd k s2" using Suc.prems(1) by auto
  from Suc.IH [OF s2(2) throwing_unwind_frame [OF s1(3) s2(1)]] obtain h s' where
    "dispatch_loop P pd s2 = run_ret (h, s')" "caught_after P pd k s2 h s'" by blast
  then show ?case
    using s1 s2(1) by (subst dispatch_loop.simps) (auto simp: throwing_def intro: caught_outside)
qed

text \<open>
  C22: The dispatch of an exception, end to end, for a stack of functions without a handler and functions with
  \<^verbatim>\<open>__CxxFrameHandler4\<close> and well-formed tables. When the handlers of the \<open>k\<close> innermost frames do not accept the exception and the
  frame outside of them has one that does, \<^verbatim>\<open>__cxx_dispatch_exception\<close> returns. It has destroyed all objects of the \<open>k\<close> frames,
  from the innermost outwards, and unwound each of them by its unwind codes; in the frame that catches it has chosen the first handler, in table
  order, of the try blocks around the interrupted state that accepts the exception, and destroyed exactly the objects down to
  the start of that try block. The address it returns is that handler's.
\<close>

theorem dispatch_finds_handler:
  assumes "pdata_of_image (image P) base = Inr pd" "obj \<noteq> 0" "ti \<noteq> 0" "length (continuation_address (cur s)) = 2"
    and "catchable P pd k (start_throw obj ti s)"
  shows "\<exists>h s'. cxx_dispatch_exception P base obj ti s = run_ret (h, s') \<and> caught_after P pd k (start_throw obj ti s) h s'"
proof -
  have "throwing (start_throw obj ti s)" using assms(2-4) by (simp add: throwing_def start_throw_def get_throw_info_def)
  then show ?thesis using dispatch_loop_finds [OF assms(5)] assms(1) by (simp add: cxx_dispatch_exception_def)
qed

text \<open>A function at 0x1100 without a handler throws; it was called at 0x1005, from the try block of the function at 0x1000.\<close>

definition dispatch_pdata :: frame_walk_pdata where
  "dispatch_pdata = \<lparr> m_image_base = 0, m_functions = 0x300, m_function_count = 2, m_image_size = 0x8000 \<rparr>"

definition dispatch_state :: eh_state where
  "dispatch_state = idle_state\<lparr> stack := mem_of [(0x6ff8, nat_bytes 8 0x1005)],
     walk_mach := (walk_mach idle_state)\<lparr> rip := 0x1105, rsp := 0x6ff8 \<rparr> \<rparr>"

definition outer_frame :: try_frame where
  "outer_frame = \<lparr> tf_call = \<lparr> hc_fn = \<lparr> fn_begin = 0x1000, fn_end = 0x1100, fn_unwind_info = 0x400 \<rparr>, hc_data = 0x408, hc_frame = 0x7000,
     hc_cookie = unwind_cookie \<rparr>, tf_pfp = 0x7000, tf_state = 1, tf_graph = 0x51, tf_next = (\<lambda>i. i - 1),
     tf_handlers = [(1, typed_entry), (1, ellipsis_entry)] \<rparr>"

lemma dispatch_header:
  "rd16 (image try_image) 0 = 0x5a4d" "rd32 (image try_image) 0x3c = 0x6000" "rd32 (image try_image) 0x6000 = 0x4550"
  "rd16 (image try_image) 0x6004 = 0x8664" "rd16 (image try_image) 0x6018 = 0x20b" "rd32 (image try_image) 0x6050 = 0x8000"
  "rd32 (image try_image) 0x6054 = 0x7000" "rd32 (image try_image) 0x6084 = 4" "rd32 (image try_image) 0x60a0 = 0x300"
  "rd32 (image try_image) 0x60a4 = 24"
  by (simp_all add: try_image_def eval_mem)

lemma dispatch_image_pdata: "pdata_of_image (image try_image) 0 = Inr dispatch_pdata"
  by (simp add: pdata_of_image_def Let_def rva_at_def dispatch_header dispatch_pdata_def)

lemma dispatch_functions:
  "read_function (image try_image) 0x30c = \<lparr> fn_begin = 0x1100, fn_end = 0x1200, fn_unwind_info = 0x500 \<rparr>"
  "read_function (image try_image) 0x300 = \<lparr> fn_begin = 0x1000, fn_end = 0x1100, fn_unwind_info = 0x400 \<rparr>"
  "handler_at try_image 0xb0 = Cxx_frame_handler4" "m_image_base dispatch_pdata = 0"
  by (simp_all add: read_function_def try_image_def eval_mem dispatch_pdata_def)

lemma dispatch_entries:
  "find_function_entry (image try_image) dispatch_pdata 0x1105 = Inr (Some 0x30c)"
  "find_function_entry (image try_image) dispatch_pdata 0x1005 = Inr (Some 0x300)"
  by (simp_all add: find_function_entry_def contains_address_def dispatch_pdata_def make_rva_def search_function.simps
      fn_entry_def dispatch_functions)

lemma dispatch_unwind_info:
  "ui_flags (image try_image) 0x500 = 0" "ui_flags (image try_image) 0x400 = 1"
  "ui_code_count (image try_image) 0x500 = 0" "ui_code_count (image try_image) 0x400 = 0"
  "ui_frame_reg (image try_image) 0x500 = 0" "ui_frame_reg (image try_image) 0x400 = 0"
  "rd32 (image try_image) 0x404 = 0xb0" "rd32 (image try_image) 0x408 = 0x38"
  by (simp_all add: ui_flags_def ui_code_count_def ui_frame_reg_def try_image_def eval_mem)

lemma dispatch_function:
  "function_at try_image dispatch_pdata (start_throw obj ti dispatch_state) ui fn \<longleftrightarrow>
     fn = \<lparr> fn_begin = 0x1100, fn_end = 0x1200, fn_unwind_info = 0x500 \<rparr> \<and> ui = 0x500"
  by (auto simp: function_at_def start_throw_def dispatch_state_def dispatch_entries dispatch_functions rva_at_def)

definition dispatch_caller :: eh_state where
  "dispatch_caller = (start_throw 0x2000 0x10 dispatch_state)
     \<lparr> walk_mach := (walk_mach idle_state)\<lparr> rip := 0x1005, rsp := 0x7000 \<rparr> \<rparr>"

lemma dispatch_unwound: "unwind_frame try_image 0x500 (start_throw 0x2000 0x10 dispatch_state) = Inr dispatch_caller"
  by (simp add: unwind_frame_def unwind_def unwind_loop.simps dispatch_unwind_info dispatch_caller_def start_throw_def
      dispatch_state_def idle_state_def eval_mem)

lemma outer_frame_catches: "fh4_frame try_image dispatch_pdata dispatch_caller 0x400 outer_frame"
proof -
  let ?s = "prepare_for_non_cxx_handler dispatch_caller"
  have "load_exception_info (image try_image) (rva_at 0 (rd32 (image try_image) 0x408)) 0
      \<lparr> fn_begin = 0x1000, fn_end = 0x1100, fn_unwind_info = 0x400 \<rparr> = try_info"
    by (simp add: load_exception_info_def dispatch_unwind_info try_image_reads rva_at_def has_any_of_def read_rva_eq try_info_def)
  moreover have "initial_frame try_image dispatch_pdata (tf_call outer_frame) try_info ?s = (0x7000, 1)"
    by (simp add: initial_frame_def outer_frame_def dispatch_caller_def prepare_for_non_cxx_handler_def start_throw_def
        dispatch_state_def idle_state_def idle_info_def try_info_def has_any_of_def lookup_region_def dispatch_pdata_def
        make_rva_def rva_at_def try_image_reads)
  moreover have "handlers_of try_image dispatch_pdata try_info 0x1000 1 = [(1, typed_entry), (1, ellipsis_entry)]"
    by (simp add: handlers_of_def try_info_def rva_at_def try_image_reads dispatch_pdata_def try_image_handlers [unfolded One_nat_def]
        del: enclosing_handlers.simps)
  ultimately have "fh4_tables try_image dispatch_pdata ?s outer_frame"
    unfolding fh4_tables_def using try_image_graph
    by (intro exI [of _ try_info] exI [of _ 2])
      (simp add: outer_frame_def dispatch_pdata_def try_info_def rva_at_def try_image_reads)
  then show ?thesis
    by (simp add: fh4_frame_def function_at_def dispatch_caller_def dispatch_entries dispatch_unwind_info dispatch_functions rva_at_def
        has_any_of_def get_frame_handler_def) (simp add: outer_frame_def)
qed

theorem dispatch_finds_handler_witness:
  "\<exists>h s'. cxx_dispatch_exception try_image 0 0x2000 0x10 dispatch_state = run_ret (h, s') \<and>
     caught_after try_image dispatch_pdata 1 (start_throw 0x2000 0x10 dispatch_state) h s'"
proof (rule dispatch_finds_handler [OF dispatch_image_pdata])
  let ?s = "start_throw 0x2000 0x10 dispatch_state"
  have acc: "accepting try_image dispatch_pdata dispatch_caller outer_frame \<noteq> None"
    by (simp add: accepting_def outer_frame_def entry_accepts_def has_any_of_def)
  have no: "\<not> fh4_frame try_image dispatch_pdata ?s ui f" for ui f
    by (auto simp: fh4_frame_def dispatch_function dispatch_unwind_info has_any_of_def)
  have "plain_frame try_image dispatch_pdata ?s 0x500"
    by (simp add: plain_frame_def dispatch_function dispatch_unwind_info has_any_of_def)
  moreover have "\<exists>s2. unwind_frame try_image ui s1 = Inr s2 \<and> catchable try_image dispatch_pdata 0 s2"
    if "leaves try_image dispatch_pdata ?s ui s1" for ui s1
  proof -
    from that have "ui = 0x500" "s1 = ?s"
      using no by (auto elim!: leaves.cases simp: plain_frame_def dispatch_function)
    then show ?thesis using dispatch_unwound outer_frame_catches acc by auto
  qed
  ultimately show "catchable try_image dispatch_pdata 1 ?s" by (auto simp: One_nat_def)
qed (simp_all add: dispatch_state_def idle_state_def idle_info_def)

section \<open>The probe moves the throw frame\<close>

text \<open>
  Two functions: one that is being unwound, with \<^verbatim>\<open>__CxxFrameHandler4\<close>, was called from the frame that runs
  a catch block (\<^verbatim>\<open>__cxx_call_catch_handler\<close>), whose catch info at 0x1050 owns the object at 0x2000.
\<close>

definition probe_image :: program where
  "probe_image = throw_image\<lparr> image := mem_of [(0x40, [9, 0, 0, 0, 0x60, 0, 0, 0]), (0x50, [9, 0, 0, 0, 0x70, 0, 0, 0]),
       (0x200, [0x10, 0, 0, 0, 0x20, 0, 0, 0, 0x40, 0, 0, 0, 0x20, 0, 0, 0, 0x30, 0, 0, 0, 0x50, 0, 0, 0])],
     handler_at := (\<lambda>a. if a = 0x70 then Call_catch_frame_handler else Cxx_frame_handler4) \<rparr>"

definition probe_pdata :: frame_walk_pdata where
  "probe_pdata = \<lparr> m_image_base = 0, m_functions = 0x200, m_function_count = 2, m_image_size = 0x1000 \<rparr>"

definition probe_state :: eh_state where
  "probe_state = idle_state\<lparr> stack := mem_of [(0x1000, nat_bytes 8 0x25)],
     infos := (\<lambda>_. idle_info)(0x1050 := idle_info\<lparr> exception_object_or_link := 0x2000, throw_info_if_owner := 0x10 \<rparr>),
     walk_mach := (walk_mach idle_state)\<lparr> rip := 0x15, rsp := 0x1000 \<rparr> \<rparr>"


lemma probe_entries:
  "find_function_entry (image probe_image) probe_pdata 0x15 = Inr (Some 0x200)"
  "find_function_entry (image probe_image) probe_pdata 0x25 = Inr (Some 0x20c)"
  by (simp_all add: find_function_entry_def contains_address_def probe_pdata_def make_rva_def search_function.simps
      fn_entry_def read_function_def probe_image_def eval_mem)

lemma probe_functions:
  "read_function (image probe_image) 0x200 = \<lparr> fn_begin = 0x10, fn_end = 0x20, fn_unwind_info = 0x40 \<rparr>"
  "read_function (image probe_image) 0x20c = \<lparr> fn_begin = 0x20, fn_end = 0x30, fn_unwind_info = 0x50 \<rparr>"
  by (simp_all add: read_function_def probe_image_def eval_mem)

lemma probe_unwind_info:
  "ui_flags (image probe_image) 0x40 = 1" "ui_flags (image probe_image) 0x50 = 1"
  "ui_code_count (image probe_image) 0x40 = 0" "ui_code_count (image probe_image) 0x50 = 0"
  "ui_frame_reg (image probe_image) 0x40 = 0" "ui_frame_reg (image probe_image) 0x50 = 0"
  "rd32 (image probe_image) 0x44 = 0x60" "rd32 (image probe_image) 0x54 = 0x70"
  by (simp_all add: ui_flags_def ui_code_count_def ui_frame_reg_def probe_image_def eval_mem)

text \<open>
  \<^verbatim>\<open>probe_for_exception\<close> looks for the object of a rethrow by unwinding the registers of the throw frame
  itself and does not restore them. Afterwards the throw frame describes the frame of the active
  catch block instead of the function whose handler is running: in the example the instruction
  pointer has moved from 0x15 to 0x25 and the stack pointer from 0x1000 to 0x1008.
\<close>

theorem probe_moves_throw_frame:
  "\<exists>s'. probe_for_exception probe_image probe_pdata probe_state = run_ret s' \<and>
     exception_object_or_link (cur s') = 0x1050 \<and>
     rip (walk_mach probe_state) = 0x15 \<and> rip (walk_mach s') = 0x25 \<and>
     rsp (walk_mach probe_state) = 0x1000 \<and> rsp (walk_mach s') = 0x1008"
proof -
  have r: "rd64 (stack probe_state) 0x1000 = 0x25" by (simp add: probe_state_def eval_mem)
  have m: "walk_mach probe_state = \<lparr> rip = 0x15, cs = 0, eflags = 0, rsp = 0x1000, ss = 0 \<rparr>"
    by (simp add: probe_state_def idle_state_def)
  have h: "handler_at probe_image 0x60 = Cxx_frame_handler4" "handler_at probe_image 0x70 = Call_catch_frame_handler"
    by (simp_all add: probe_image_def)
  have b: "m_image_base probe_pdata = 0" by (simp add: probe_pdata_def)
  let ?s1 = "prepare_for_non_cxx_handler probe_state"
  let ?s2 = "?s1\<lparr> walk_mach := (walk_mach probe_state)\<lparr> rip := 0x25, rsp := 0x1008 \<rparr> \<rparr>"
  have e1: "execute_handler (probe_handler probe_image probe_pdata) probe_image probe_pdata rethrow_probe_cookie probe_state
      = run_ret (0x40, ?s1)"
    by (simp add: execute_handler_def m probe_entries probe_functions probe_unwind_info b rva_at_def has_any_of_def
        get_frame_handler_def probe_handler_def h)
  have u: "unwind_frame probe_image 0x40 ?s1 = Inr ?s2"
    by (simp add: unwind_frame_def unwind_def unwind_loop.simps probe_unwind_info prepare_for_non_cxx_handler_def m r)
  have i: "infos ?s2 0x1050 = idle_info\<lparr> exception_object_or_link := 0x2000, throw_info_if_owner := 0x10 \<rparr>"
    by (simp add: prepare_for_non_cxx_handler_def probe_state_def)
  have "\<exists>s'. execute_handler (probe_handler probe_image probe_pdata) probe_image probe_pdata rethrow_probe_cookie ?s2
      = run_ret (0x50, s') \<and> exception_object_or_link (cur s') = 0x1050 \<and> walk_mach s' = walk_mach ?s2"
    using i by (simp add: execute_handler_def m probe_entries probe_functions probe_unwind_info b rva_at_def has_any_of_def
        get_frame_handler_def probe_handler_def h cxx_call_catch_frame_handler_def catch_info_of_frame_def
        prepare_for_non_cxx_handler_def Let_def)
  then obtain s' where e2: "execute_handler (probe_handler probe_image probe_pdata) probe_image probe_pdata rethrow_probe_cookie ?s2
      = run_ret (0x50, s')" "exception_object_or_link (cur s') = 0x1050" "walk_mach s' = walk_mach ?s2" by blast
  have n: "exception_object_or_link (cur ?s1) = 0"
    by (simp add: prepare_for_non_cxx_handler_def probe_state_def idle_state_def idle_info_def)
  have "probe_for_exception probe_image probe_pdata ?s2 = run_ret s'"
    by (subst probe_for_exception.simps) (simp add: e2)
  then have "probe_for_exception probe_image probe_pdata probe_state = run_ret s'"
    by (subst probe_for_exception.simps) (simp add: e1 u n)
  then show ?thesis using e2 m by (intro exI [of _ s']) simp
qed


section \<open>The context pointer of the older handler\<close>

lemma rd32_wr32 [simp]: "rd32 (wr32 m a v) a = v"
  unfolding wr32_def by (rule rd32_holds, rule store_bytes_holds) simp

text \<open>A function in state 0 inside a try block with one handler, \<^verbatim>\<open>catch (...)\<close>, described by the older tables.\<close>

definition fh3_image :: program where
  "fh3_image = throw_image\<lparr> image := mem_of [(0x30, [0x38, 0, 0, 0]),
     (0x38, [0, 0, 0, 0, 0, 0, 0, 0, 0, 1, 0, 0, 1, 0, 0, 0, 0x10, 1, 0, 0, 1, 0, 0, 0, 0x30, 1, 0, 0]),
     (0x100, [0xff, 0xff, 0xff, 0xff, 0, 0, 0, 0]),
     (0x110, [0, 0, 0, 0, 0, 0, 0, 0, 1, 0, 0, 0, 1, 0, 0, 0, 0x40, 1, 0, 0]),
     (0x140, [0x40, 0, 0, 0, 0, 0, 0, 0, 0, 0, 0, 0, 0xa0, 0, 0, 0, 0, 0, 0, 0])] \<rparr>"

definition fh3_state :: "64 word \<Rightarrow> eh_state" where
  "fh3_state u = start_throw 0x2000 0x10 (try_state\<lparr> cur := idle_info\<lparr> unwind_context := u \<rparr> \<rparr>)"

lemma fh3_tables:
  "read_eh_info (image fh3_image) 0x38 = \<lparr> fe_unwind_graph = 0x100, fe_try_block_count = 1, fe_try_blocks = 0x110,
     fe_region_count = 1, fe_regions = 0x130, fe_eh_flags = 0 \<rparr>"
  "read_try_block (image fh3_image) 0x110 0 = \<lparr> tb_try_low = 0, tb_try_high = 0, tb_catch_high = 1, tb_catch_count = 1,
     tb_catch_handlers = 0x140 \<rparr>"
  "read_catch_handler (image fh3_image) 0x140 0 = \<lparr> ch_adjectives = 0x40, ch_type_desc = 0, ch_catch_object_offset = 0,
     ch_handler = 0xa0, ch_node_offset = 0 \<rparr>"
  "rd32 (image fh3_image) 0x30 = 0x38" "region_st (image fh3_image) 0x130 0 = 0"
  "edge_next (image fh3_image) 0x100 0 = -1" "cleanup fh3_image 0 fp 0x100 0 s = s"
  by (simp_all add: read_eh_info_def read_try_block_def read_catch_handler_def region_st_def edge_next_def cleanup_def
      fh3_image_def eval_mem)

text \<open>
  \<^verbatim>\<open>__CxxFrameHandler3\<close> takes the value of \<^verbatim>\<open>unwind_context\<close> for a pointer to the function's context. The
  throw frame leaves that value uninitialised, so choosing a catch block writes to whatever address
  \<open>u\<close> it happens to hold.
\<close>

theorem fh3_writes_through_garbage:
  "\<exists>s'. frame_handler3 fh3_image zero_pdata try_call (fh3_state u) = run_ret (CxxHandler, s') \<and>
     dc_handler s' = 0xa0 \<and> rd32 (stack s') u = 0xffffffff"
proof -
  let ?s = "fh3_state u"
  have f: "unwind_context (cur ?s) = u" "primary_frame_ptr (cur ?s) = 0" "get_throw_info (cur ?s) ?s = 0x10"
    "exception_object_or_link (cur ?s) = 0x2000"
    by (simp_all add: fh3_state_def start_throw_def get_throw_info_def)
  have c: "hc_cookie try_call = unwind_cookie" "hc_data try_call = 0x30" "hc_frame try_call = 0x7000"
    "fn_begin (hc_fn try_call) = 0x1000" "m_image_base zero_pdata = 0" by (simp_all add: try_call_def zero_pdata_def)
  have st: "state_of_ip (image fh3_image) 0 (read_eh_info (image fh3_image) 0x38) pc = 0" for pc
    by (simp add: state_of_ip_def fh3_tables rva_at_def)
  have home: "find_home fh3_image 0 0x110 0x1000 0x7000 0 0 (Suc 0) ?s = Inr (-1, -1, 0)"
    by (simp add: fh3_tables)
  have catch: "process_catch_block fh3_image 0 0x40 ty var obj ti s = (True, s)" for ty var obj ti s
    by (simp add: process_catch_block_def has_any_of_def)
  have match: "match_blocks fh3_image zero_pdata 0x110 0x7000 0 (-1) (-1) u 0x10 0 (Suc 0) ?s =
      run_ret (Some (read_catch_handler (image fh3_image) 0x140 0), -1, ?s\<lparr> dc_handler := 0xa0,
        cur := (cur ?s)\<lparr> primary_frame_ptr := 0x7000 \<rparr>, stack := store_context u (-1) (-1) (stack ?s) \<rparr>)"
    by (simp add: fh3_tables c catch rva_at_def)
  have unw: "unwind_states (cleanup fh3_image 0 0x7000 0x100) (edge_next (image fh3_image) 0x100) 0 (-1) s = Some s" for s
    by (subst unwind_states.simps, simp add: fh3_tables, subst unwind_states.simps, simp)
  show ?thesis
    using match home unw f c st
    by (simp add: frame_handler3_def Let_def rva_at_def fh3_tables has_any_of_def store_context_def
        del: find_home.simps match_blocks.simps)
qed

end
