(* ===== verification/Exc_Objects.thy ===== *)
theory Exc_Objects
  imports Exc_Memory
begin

text \<open>
  Exception objects (\<^verbatim>\<open>runtime/src/exception.cpp\<close>, \<^verbatim>\<open>exception.hpp\<close>): the pool of reserved slots for their
  messages (\<open>exception_allocator\<close>) and the classes' common base (\<open>exception_base\<close>), whose copies share
  one reference-counted message block. The pointer to a shared block is marked in its lowest bit;
  an unmarked pointer is a message with static lifetime.

  The kernel's allocator is not part of the source: an operation that may allocate takes the
  address it returns (0 when it fails) as an argument.
\<close>

section \<open>The slot allocator\<close>

definition SLOT_SIZE :: nat where "SLOT_SIZE = 512"
definition RESERVED_BYTES_COUNT :: nat where "RESERVED_BYTES_COUNT = 4096 * 1"
definition SLOT_COUNT :: nat where "SLOT_COUNT = RESERVED_BYTES_COUNT div SLOT_SIZE"

record exception_allocator =
  m_slots :: "addr list"
  m_buffer :: addr
  m_current_slot :: u32

definition slot_addr :: "addr \<Rightarrow> nat \<Rightarrow> addr" where
  "slot_addr buffer i = buffer + of_nat (SLOT_SIZE * i)"

text \<open>\<open>run\<close>: the result is the status (\<open>True\<close> for success) and the allocator.\<close>

definition pool_run :: "addr \<Rightarrow> exception_allocator \<Rightarrow> bool \<times> exception_allocator" where
  "pool_run buffer p =
     (if buffer = 0 then (False, p\<lparr> m_buffer := 0 \<rparr>)
      else (True, p\<lparr> m_buffer := buffer, m_slots := map (slot_addr buffer) [0..<SLOT_COUNT] \<rparr>))"

text \<open>The increment and the decrement of the counter are interlocked operations.\<close>

definition try_get_slot :: "exception_allocator \<Rightarrow> addr \<times> exception_allocator" where
  "try_get_slot p =
     (let counter = m_current_slot p + 1; slot_index = unat (counter - 1)
      in if slot_index < SLOT_COUNT then (m_slots p ! slot_index, p\<lparr> m_current_slot := counter \<rparr>)
         else (0, p\<lparr> m_current_slot := counter - 1 \<rparr>))"

definition allocate_from_heap :: "bool \<Rightarrow> addr \<Rightarrow> addr outcome" where
  "allocate_from_heap irql_above_dispatch heap_result =
     (if irql_above_dispatch then Throw BadAlloc
      else if heap_result = 0 then Throw BadAlloc else Ret heap_result)"

definition allocate :: "nat \<Rightarrow> bool \<Rightarrow> addr \<Rightarrow> exception_allocator \<Rightarrow> addr outcome \<times> exception_allocator" where
  "allocate bytes_count irql heap_result p =
     (if bytes_count \<le> SLOT_SIZE then
        let (slot, p) = try_get_slot p
        in if slot \<noteq> 0 then (Ret slot, p) else (allocate_from_heap irql heap_result, p)
      else (allocate_from_heap irql heap_result, p))"

text \<open>\<open>deallocate\<close>: the flag says that the block goes back to the kernel's allocator
  (\<^verbatim>\<open>free_to_heap\<close>); a write outside of the array of slots is undefined.\<close>

definition deallocate :: "addr \<Rightarrow> exception_allocator \<Rightarrow> (bool \<times> exception_allocator) option" where
  "deallocate ptr p =
     (let last_slot_begin = m_buffer p + of_nat RESERVED_BYTES_COUNT - of_nat SLOT_SIZE
      in if ptr < m_buffer p \<or> ptr > last_slot_begin then Some (True, p)
         else let slot_index = m_current_slot p - 1
              in case wr (m_slots p) (unat slot_index) ptr of
                   None \<Rightarrow> None
                 | Some slots \<Rightarrow> Some (False, p\<lparr> m_current_slot := slot_index, m_slots := slots \<rparr>))"

section \<open>Messages\<close>

record shared_data =
  description :: string
  ref_counter :: "64 word"

record exc_world =
  pool :: exception_allocator
  blocks :: "addr \<rightharpoonup> shared_data"
  heap_freed :: "addr list"

definition SHARED_DATA_MASK :: addr where "SHARED_DATA_MASK = 1"

definition mask_ptr :: "addr \<Rightarrow> addr" where
  "mask_ptr ptr = ptr OR SHARED_DATA_MASK"

definition unmask_ptr :: "addr \<Rightarrow> addr" where
  "unmask_ptr ptr = ptr AND NOT SHARED_DATA_MASK"

definition is_shared :: "addr \<Rightarrow> bool" where
  "is_shared m_data \<longleftrightarrow> m_data AND SHARED_DATA_MASK = 1"

definition DISPATCH_LEVEL :: nat where "DISPATCH_LEVEL = 2"

text \<open>The characters up to the terminating zero: what a \<^verbatim>\<open>const char*\<close> is read as.\<close>

definition c_string :: "string \<Rightarrow> string" where
  "c_string = takeWhile (\<lambda>c. c \<noteq> CHR 0x00)"

text \<open>\<open>sizeof (shared_data)\<close> is 16: a pointer and a counter.\<close>

definition header_size :: nat where "header_size = 16"

text \<open>\<open>construct_header\<close> writes the terminating zero and the header of a buffer whose message area holds
  \<open>chars\<close>; a zero written behind the last byte of the block is undefined (\<open>None\<close>). A block of the
  pool is a whole slot, a block of the kernel's allocator has the size that was requested.\<close>

definition block_size :: "exception_allocator \<Rightarrow> addr \<Rightarrow> nat \<Rightarrow> nat" where
  "block_size p buffer bytes_count = (if buffer \<in> set (m_slots p) then SLOT_SIZE else bytes_count)"

definition construct_header ::
  "addr \<Rightarrow> nat \<Rightarrow> (nat \<Rightarrow> char) \<Rightarrow> nat \<Rightarrow> exc_world \<Rightarrow> (addr \<times> exc_world) option" where
  "construct_header buffer block_bytes chars msg_length w =
     (if header_size + msg_length < block_bytes then
        Some (mask_ptr buffer,
              w\<lparr> blocks := (blocks w)(buffer \<mapsto>
                   \<lparr> description = c_string (map chars [0..<msg_length]), ref_counter = 1 \<rparr>) \<rparr>)
      else None)"

text \<open>\<open>fill msg old\<close>: the message area, which held \<open>old\<close>, after \<open>msg\<close> was copied to its start.\<close>

definition fill :: "string \<Rightarrow> (nat \<Rightarrow> char) \<Rightarrow> nat \<Rightarrow> char" where
  "fill msg old i = (if i < length msg then msg ! i else old i)"

text \<open>Both overloads of \<^verbatim>\<open>make_shared_data\<close> allocate the header, the message and one byte, copy the
  message (\<open>desc\<close>) and pass a length to \<open>construct_header\<close>.\<close>

definition new_shared_data ::
  "string \<Rightarrow> nat \<Rightarrow> (nat \<Rightarrow> char) \<Rightarrow> bool \<Rightarrow> addr \<Rightarrow> exc_world \<Rightarrow> (addr outcome \<times> exc_world) option" where
  "new_shared_data desc msg_length old irql heap_result w =
     (let bytes_count = header_size + length desc + 1
      in case allocate bytes_count irql heap_result (pool w) of
           (Throw e, p) \<Rightarrow> Some (Throw e, w\<lparr> pool := p \<rparr>)
         | (Ret buffer, p) \<Rightarrow>
             map_option (\<lambda>(r, w). (Ret r, w))
               (construct_header buffer (block_size (pool w) buffer bytes_count) (fill desc old) msg_length
                  (w\<lparr> pool := p \<rparr>)))"

definition make_shared_data ::
  "string \<Rightarrow> (nat \<Rightarrow> char) \<Rightarrow> bool \<Rightarrow> addr \<Rightarrow> exc_world \<Rightarrow> (addr outcome \<times> exc_world) option" where
  "make_shared_data msg = new_shared_data msg (length msg)"

text \<open>The overload for wide messages: \<open>convert\<close> stands for \<^verbatim>\<open>RtlUnicodeToMultiByteN\<close> and the length of its
  result for \<^verbatim>\<open>RtlUnicodeToMultiByteSize\<close>. The length it passes on is \<^verbatim>\<open>src_length_in_bytes\<close>, an
  \<^verbatim>\<open>unsigned long\<close>.\<close>

definition make_shared_data_wide ::
  "(16 word list \<Rightarrow> string) \<Rightarrow> 16 word list \<Rightarrow> (nat \<Rightarrow> char) \<Rightarrow> bool \<Rightarrow> addr \<Rightarrow> exc_world \<Rightarrow> (addr outcome \<times> exc_world) option" where
  "make_shared_data_wide convert msg = new_shared_data (convert msg) (length msg * 2 mod 2 ^ 32)"

text \<open>\<open>failed_literal\<close> is the address of \<^verbatim>\<open>UNICODE_CONVERSION_FAILED\<close>.\<close>

definition construct_from_unicode ::
  "addr \<Rightarrow> (16 word list \<Rightarrow> string) \<Rightarrow> 16 word list \<Rightarrow> (nat \<Rightarrow> char) \<Rightarrow> nat \<Rightarrow> addr \<Rightarrow> exc_world \<Rightarrow> (addr outcome \<times> exc_world) option" where
  "construct_from_unicode failed_literal convert msg old irql heap_result w =
     (if irql \<ge> DISPATCH_LEVEL then Some (Ret failed_literal, w)
      else make_shared_data_wide convert msg old (irql > DISPATCH_LEVEL) heap_result w)"

text \<open>The constructors and assignments of \<open>exception_base\<close>; an exception is its field \<^verbatim>\<open>m_data\<close>. Reading
  a block that does not exist is undefined (\<open>None\<close>). \<open>empty_msg\<close> is the address of the literal
  \<^verbatim>\<open>""\<close> that a moved-from exception gets.\<close>

definition copy_exception :: "addr \<Rightarrow> exc_world \<Rightarrow> (addr \<times> exc_world) option" where
  "copy_exception other w =
     (if is_shared other then
        case blocks w (unmask_ptr other) of None \<Rightarrow> None
        | Some b \<Rightarrow> Some (other, w\<lparr> blocks := (blocks w)(unmask_ptr other \<mapsto> b\<lparr> ref_counter := ref_counter b + 1 \<rparr>) \<rparr>)
      else Some (other, w))"

definition move_exception :: "addr \<Rightarrow> addr \<Rightarrow> addr \<times> addr" where
  "move_exception empty_msg other = (other, empty_msg)"

definition destroy_exception :: "addr \<Rightarrow> exc_world \<Rightarrow> exc_world option" where
  "destroy_exception m_data w =
     (if is_shared m_data then
        let a = unmask_ptr m_data in
        case blocks w a of None \<Rightarrow> None
        | Some b \<Rightarrow>
            let n = ref_counter b - 1 in
            if n = 0 then
              case deallocate a (pool w) of None \<Rightarrow> None
              | Some (to_heap, p) \<Rightarrow>
                  Some (w\<lparr> pool := p, blocks := (blocks w)(a := None),
                           heap_freed := (if to_heap then a # heap_freed w else heap_freed w) \<rparr>)
            else Some (w\<lparr> blocks := (blocks w)(a \<mapsto> b\<lparr> ref_counter := n \<rparr>) \<rparr>)
      else Some w)"

text \<open>Copy assignment to a different object: a copy is swapped in and the old value destroyed with it.
  The result is the new field.\<close>

definition assign_copy :: "addr \<Rightarrow> addr \<Rightarrow> exc_world \<Rightarrow> (addr \<times> exc_world) option" where
  "assign_copy this other w =
     Option.bind (copy_exception other w) (\<lambda>(tmp, w).
     Option.bind (destroy_exception this w) (\<lambda>w. Some (tmp, w)))"

definition assign_move :: "addr \<Rightarrow> addr \<Rightarrow> addr \<Rightarrow> exc_world \<Rightarrow> (addr \<times> addr \<times> exc_world) option" where
  "assign_move empty_msg this other w =
     (let (tmp, other) = move_exception empty_msg other
      in Option.bind (destroy_exception this w) (\<lambda>w. Some (tmp, other, w)))"

text \<open>\<open>get_message\<close>: the description, or the string at an unmarked address (\<open>literal\<close>).\<close>

definition get_message :: "(addr \<Rightarrow> string) \<Rightarrow> addr \<Rightarrow> exc_world \<Rightarrow> string option" where
  "get_message literal m_data w =
     (if is_shared m_data then map_option description (blocks w (unmask_ptr m_data)) else Some (literal m_data))"

section \<open>Programs over exceptions\<close>

text \<open>The local exceptions of a program are numbered; a destroyed one has no value.\<close>

datatype exc_op =
    Construct string "nat \<Rightarrow> char" nat addr  \<comment> \<open>message, old bytes of the block, IRQL, result of the kernel's allocator\<close>
  | Construct_wide "16 word list" "nat \<Rightarrow> char" nat addr
  | Construct_persistent addr
  | Copy nat
  | Move nat
  | Assign_copy nat nat
  | Assign_move nat nat
  | Destroy nat

type_synonym exc_state = "addr option list \<times> exc_world"

text \<open>What the runtime links to: the conversion, the addresses of the two literals.\<close>

record exc_env =
  convert :: "16 word list \<Rightarrow> string"
  empty_literal :: addr
  failed_literal :: addr

fun push_result :: "addr option list \<Rightarrow> addr outcome \<times> exc_world \<Rightarrow> exc_state" where
  "push_result vs (Throw e, w) = (vs, w)"
| "push_result vs (Ret m, w) = (vs @ [Some m], w)"

fun exc_exec :: "exc_env \<Rightarrow> exc_op \<Rightarrow> exc_state \<Rightarrow> exc_state option" where
  "exc_exec env (Construct msg old irql h) (vs, w) =
     map_option (push_result vs) (make_shared_data msg old (irql > DISPATCH_LEVEL) h w)"
| "exc_exec env (Construct_wide msg old irql h) (vs, w) =
     map_option (push_result vs) (construct_from_unicode (failed_literal env) (convert env) msg old irql h w)"
| "exc_exec env (Construct_persistent a) (vs, w) = Some (vs @ [Some a], w)"
| "exc_exec env (Copy i) (vs, w) =
     (case rd vs i of Some (Some m) \<Rightarrow> Option.bind (copy_exception m w) (\<lambda>(m', w). Some (vs @ [Some m'], w)) | _ \<Rightarrow> None)"
| "exc_exec env (Move i) (vs, w) =
     (case rd vs i of Some (Some m) \<Rightarrow> (let (m', o') = move_exception (empty_literal env) m in Some (vs[i := Some o'] @ [Some m'], w)) | _ \<Rightarrow> None)"
| "exc_exec env (Assign_copy i j) (vs, w) =
     (case (rd vs i, rd vs j) of
        (Some (Some m), Some (Some m')) \<Rightarrow>
          if i = j then Some (vs, w)
          else Option.bind (assign_copy m m' w) (\<lambda>(r, w). Some (vs[i := Some r], w))
      | _ \<Rightarrow> None)"
| "exc_exec env (Assign_move i j) (vs, w) =
     (case (rd vs i, rd vs j) of
        (Some (Some m), Some (Some m')) \<Rightarrow>
          if i = j then Some (vs, w)
          else Option.bind (assign_move (empty_literal env) m m' w) (\<lambda>(r, o', w). Some (vs[i := Some r, j := Some o'], w))
      | _ \<Rightarrow> None)"
| "exc_exec env (Destroy i) (vs, w) =
     (case rd vs i of Some (Some m) \<Rightarrow> Option.bind (destroy_exception m w) (\<lambda>w. Some (vs[i := None], w)) | _ \<Rightarrow> None)"

text \<open>The state when the driver starts: the allocator has reserved its page, there is no exception.\<close>

definition start_pool :: "addr \<Rightarrow> exception_allocator" where
  "start_pool buffer = snd (pool_run buffer \<lparr> m_slots = replicate SLOT_COUNT 0, m_buffer = 0, m_current_slot = 0 \<rparr>)"

definition start_world :: "addr \<Rightarrow> exc_world" where
  "start_world buffer = \<lparr> pool = start_pool buffer, blocks = Map.empty, heap_freed = [] \<rparr>"

section \<open>Two threads in the allocator\<close>

text \<open>An allocation is the interlocked increment followed by the read of the slot; a deallocation is
  the interlocked decrement followed by the write of the slot. \<open>pool_step\<close> interleaves one of each.\<close>

datatype alloc_pc = Alloc_inc | Alloc_read nat | Alloc_done addr
datatype free_pc = Free_dec addr | Free_write nat addr | Free_done

inductive pool_step :: "exception_allocator \<times> alloc_pc \<times> free_pc \<Rightarrow> exception_allocator \<times> alloc_pc \<times> free_pc \<Rightarrow> bool" where
  alloc_inc: "unat (m_current_slot p) < SLOT_COUNT \<Longrightarrow>
     pool_step (p, Alloc_inc, f) (p\<lparr> m_current_slot := m_current_slot p + 1 \<rparr>, Alloc_read (unat (m_current_slot p)), f)"
| alloc_read: "pool_step (p, Alloc_read i, f) (p, Alloc_done (m_slots p ! i), f)"
| free_dec: "pool_step (p, a, Free_dec ptr)
     (p\<lparr> m_current_slot := m_current_slot p - 1 \<rparr>, a, Free_write (unat (m_current_slot p - 1)) ptr)"
| free_write: "pool_step (p, a, Free_write i ptr) (p\<lparr> m_slots := (m_slots p)[i := ptr] \<rparr>, a, Free_done)"

end
