(* ===== verification/Exc_Objects_Spec.thy ===== *)
theory Exc_Objects_Spec
  imports Exc_Objects
begin

text \<open>
  Properties of exception objects.

  \<open>exc_inv\<close> relates the variables of a program to the world: the counter of every message block is
  the number of variables that refer to it, and the free part of the array of slots holds
  exactly the slots without a block. The kernel's allocator is assumed to return memory that is
  not in use (\<open>heap_ok\<close>), and literals to have even addresses (\<open>env_ok\<close>).
\<close>

section \<open>Marked pointers\<close>

lemma unmask_mask: "even a \<Longrightarrow> unmask_ptr (mask_ptr a) = a"
  by (rule bit_word_eqI)
    (auto simp: unmask_ptr_def mask_ptr_def SHARED_DATA_MASK_def bit_simps even_iff_mod_2_eq_zero bit_0
      simp flip: bit_0)

lemma is_shared_iff_odd: "is_shared m \<longleftrightarrow> odd m"
  by (simp add: is_shared_def SHARED_DATA_MASK_def and_one_eq odd_iff_mod_2_eq_one)

lemma is_shared_mask [simp]: "is_shared (mask_ptr a)"
  by (simp add: is_shared_iff_odd mask_ptr_def SHARED_DATA_MASK_def even_or_iff)

lemma not_shared_even [simp]: "even a \<Longrightarrow> \<not> is_shared a"
  by (simp add: is_shared_iff_odd)

section \<open>The invariant\<close>

definition refers :: "addr \<Rightarrow> addr option \<Rightarrow> bool" where
  "refers a v \<longleftrightarrow> (case v of None \<Rightarrow> False | Some m \<Rightarrow> is_shared m \<and> unmask_ptr m = a)"

definition refs :: "addr option list \<Rightarrow> addr \<Rightarrow> nat" where
  "refs vs a = length (filter (refers a) vs)"

text \<open>\<open>counters_ok R w\<close>: the block at every address \<open>a\<close> counts \<open>R a\<close> references, and exists if there are any.\<close>

definition counters_ok :: "(addr \<Rightarrow> nat) \<Rightarrow> exc_world \<Rightarrow> bool" where
  "counters_ok R w \<longleftrightarrow>
     (\<forall>a. blocks w a = None \<longrightarrow> R a = 0) \<and>
     (\<forall>a b. blocks w a = Some b \<longrightarrow> unat (ref_counter b) = R a \<and> 0 < R a \<and> even a)"

definition slots_of :: "addr \<Rightarrow> addr set" where
  "slots_of buffer = slot_addr buffer ` {..<SLOT_COUNT}"

definition outside :: "addr \<Rightarrow> addr \<Rightarrow> bool" where
  "outside buffer a \<longleftrightarrow> a < buffer \<or> a > buffer + of_nat RESERVED_BYTES_COUNT - of_nat SLOT_SIZE"

text \<open>The page reserved by \<^verbatim>\<open>run\<close> is aligned and does not wrap around the end of the address space.\<close>

definition buffer_ok :: "addr \<Rightarrow> bool" where
  "buffer_ok buffer \<longleftrightarrow> buffer \<noteq> 0 \<and> even buffer \<and> unat buffer + RESERVED_BYTES_COUNT \<le> 2 ^ 64"

definition pool_ok :: "exception_allocator \<Rightarrow> addr set \<Rightarrow> bool" where
  "pool_ok p used \<longleftrightarrow>
     buffer_ok (m_buffer p) \<and> length (m_slots p) = SLOT_COUNT \<and> unat (m_current_slot p) \<le> SLOT_COUNT \<and>
     set (m_slots p) \<subseteq> slots_of (m_buffer p) \<and>
     distinct (drop (unat (m_current_slot p)) (m_slots p)) \<and>
     set (drop (unat (m_current_slot p)) (m_slots p)) = slots_of (m_buffer p) - used \<and>
     (\<forall>a \<in> used. a \<in> slots_of (m_buffer p) \<or> outside (m_buffer p) a)"

definition exc_inv :: "exc_state \<Rightarrow> bool" where
  "exc_inv s \<longleftrightarrow> counters_ok (refs (fst s)) (snd s) \<and> pool_ok (pool (snd s)) (dom (blocks (snd s)))"

section \<open>The pool\<close>

lemmas pool_consts = SLOT_SIZE_def RESERVED_BYTES_COUNT_def SLOT_COUNT_def

lemma unat_slot_addr:
  "buffer_ok buffer \<Longrightarrow> i < SLOT_COUNT \<Longrightarrow> unat (slot_addr buffer i) = unat buffer + SLOT_SIZE * i"
proof -
  assume b: "buffer_ok buffer" and i: "i < SLOT_COUNT"
  have u: "unat (of_nat (SLOT_SIZE * i) :: addr) = SLOT_SIZE * i"
    using i by (simp only: unat_of_nat) (simp add: pool_consts)
  show ?thesis
    using b i unfolding slot_addr_def unat_word_ariths u buffer_ok_def by (simp add: pool_consts)
qed

lemma slot_addr_inj: "buffer_ok buffer \<Longrightarrow> inj_on (slot_addr buffer) {..<SLOT_COUNT}"
proof (rule inj_onI)
  fix i j assume "buffer_ok buffer" "i \<in> {..<SLOT_COUNT}" "j \<in> {..<SLOT_COUNT}" "slot_addr buffer i = slot_addr buffer j"
  then have "unat buffer + SLOT_SIZE * i = unat buffer + SLOT_SIZE * j"
    by (metis lessThan_iff unat_slot_addr)
  then show "i = j" by (simp add: SLOT_SIZE_def)
qed

lemma card_slots_of: "buffer_ok buffer \<Longrightarrow> card (slots_of buffer) = SLOT_COUNT"
  by (simp add: slots_of_def card_image slot_addr_inj)

lemma finite_slots_of [simp]: "finite (slots_of buffer)"
  by (simp add: slots_of_def)

lemma unat_last_slot:
  "buffer_ok buffer \<Longrightarrow> unat (buffer + of_nat RESERVED_BYTES_COUNT - of_nat SLOT_SIZE) = unat buffer + 3584"
proof -
  assume "buffer_ok buffer"
  moreover have "buffer + of_nat RESERVED_BYTES_COUNT - of_nat SLOT_SIZE = slot_addr buffer 7"
    by (simp add: pool_consts slot_addr_def)
  ultimately show ?thesis by (simp add: unat_slot_addr) (simp add: pool_consts unat_slot_addr)
qed

lemma slot_not_outside: "buffer_ok buffer \<Longrightarrow> a \<in> slots_of buffer \<Longrightarrow> \<not> outside buffer a"
  by (auto simp: slots_of_def outside_def word_less_nat_alt unat_slot_addr unat_last_slot) (simp add: pool_consts)

lemma slot_even_nonzero: "buffer_ok buffer \<Longrightarrow> a \<in> slots_of buffer \<Longrightarrow> even a \<and> a \<noteq> 0"
proof -
  assume b: "buffer_ok buffer" and "a \<in> slots_of buffer"
  then obtain i where i: "i < SLOT_COUNT" "a = slot_addr buffer i" by (auto simp: slots_of_def)
  have "even a" using b by (simp add: i slot_addr_def SLOT_SIZE_def buffer_ok_def)
  moreover have "unat a \<noteq> 0" using b i unat_slot_addr [OF b i(1)] by (simp add: buffer_ok_def unat_eq_0)
  ultimately show ?thesis by auto
qed

text \<open>\<open>heap_ok p used h\<close>: the kernel's allocator failed (0), or returned an aligned block that is neither in
  use nor part of the pool.\<close>

definition heap_ok :: "exception_allocator \<Rightarrow> addr set \<Rightarrow> addr \<Rightarrow> bool" where
  "heap_ok p used h \<longleftrightarrow> h = 0 \<or> even h \<and> h \<notin> used \<and> outside (m_buffer p) h"

lemma pool_ok_heap_block: "pool_ok p used \<Longrightarrow> heap_ok p used h \<Longrightarrow> h \<noteq> 0 \<Longrightarrow> pool_ok p (insert h used)"
  using slot_not_outside [of "m_buffer p" h] by (auto simp: pool_ok_def heap_ok_def)

lemma unat_succ_less: "unat (c :: u32) < SLOT_COUNT \<Longrightarrow> unat (c + 1) = Suc (unat c)"
  by (simp add: pool_consts unat_word_ariths)

lemma try_get_slot_ok:
  assumes "pool_ok p used" "try_get_slot p = (b, p')"
  shows "b = 0 \<and> p' = p \<or> b \<in> slots_of (m_buffer p) - used \<and> pool_ok p' (insert b used) \<and> m_buffer p' = m_buffer p"
proof (cases "unat (m_current_slot p) < SLOT_COUNT")
  case True
  let ?c = "unat (m_current_slot p)"
  have len: "?c < length (m_slots p)" using True assms(1) by (simp add: pool_ok_def)
  have b: "b = m_slots p ! ?c" and p': "p' = p\<lparr> m_current_slot := m_current_slot p + 1 \<rparr>"
    using assms(2) True by (auto simp: try_get_slot_def)
  have d: "drop ?c (m_slots p) = b # drop (Suc ?c) (m_slots p)"
    unfolding b by (rule Cons_nth_drop_Suc [OF len, symmetric])
  have "b \<in> slots_of (m_buffer p) - used"
    using assms(1) d by (metis list.set_intros(1) pool_ok_def)
  moreover have "pool_ok p' (insert b used)"
    using assms(1) calculation d True unfolding pool_ok_def p' by (auto simp: unat_succ_less)
  ultimately show ?thesis by (simp add: p')
next
  case False
  then show ?thesis using assms(2) by (auto simp: try_get_slot_def)
qed

lemma allocate_ok:
  assumes "pool_ok p used" "heap_ok p used h" "allocate n irql h p = (r, p')"
  shows "m_buffer p' = m_buffer p"
    and "r = Ret b \<Longrightarrow> even b \<and> b \<noteq> 0 \<and> b \<notin> used \<and> pool_ok p' (insert b used)"
    and "r = Throw e \<Longrightarrow> e = BadAlloc \<and> pool_ok p' used"
proof -
  obtain s q where s: "try_get_slot p = (s, q)" by (cases "try_get_slot p")
  note t = try_get_slot_ok [OF assms(1) s]
  have n: "0 \<notin> slots_of (m_buffer p)" using assms(1) slot_even_nonzero by (auto simp: pool_ok_def)
  have hp: "h \<noteq> 0 \<Longrightarrow> even h \<and> h \<notin> used \<and> pool_ok p (insert h used)"
    using pool_ok_heap_block [OF assms(1,2)] assms(2) by (auto simp: heap_ok_def)
  have ev: "s \<in> slots_of (m_buffer p) \<Longrightarrow> even s" using assms(1) slot_even_nonzero by (auto simp: pool_ok_def)
  show "m_buffer p' = m_buffer p"
    using assms(3) t n by (auto simp: allocate_def s split: if_splits)
  show "r = Ret b \<Longrightarrow> even b \<and> b \<noteq> 0 \<and> b \<notin> used \<and> pool_ok p' (insert b used)"
    using assms(3) t n hp ev by (auto simp: allocate_def allocate_from_heap_def s split: if_splits)
  show "r = Throw e \<Longrightarrow> e = BadAlloc \<and> pool_ok p' used"
    using assms(1,3) t n by (auto simp: allocate_def allocate_from_heap_def s split: if_splits)
qed

lemma deallocate_ok:
  assumes p: "pool_ok p used" and a: "a \<in> used"
  obtains f p' where "deallocate a p = Some (f, p')" "f \<longleftrightarrow> outside (m_buffer p) a"
    "pool_ok p' (used - {a})" "m_buffer p' = m_buffer p"
proof (cases "outside (m_buffer p) a")
  case True
  then have "deallocate a p = Some (True, p)" by (simp add: deallocate_def outside_def)
  moreover have "pool_ok p (used - {a})"
    using p True slot_not_outside [of "m_buffer p" a] by (auto simp: pool_ok_def)
  ultimately show thesis using True that by blast
next
  case False
  let ?c = "m_current_slot p" and ?S = "slots_of (m_buffer p)"
  have b: "buffer_ok (m_buffer p)" and d: "distinct (drop (unat ?c) (m_slots p))"
    and l: "length (m_slots p) = SLOT_COUNT" and s: "set (drop (unat ?c) (m_slots p)) = ?S - used"
    and cb: "unat ?c \<le> SLOT_COUNT"
    using p by (simp_all add: pool_ok_def)
  have aS: "a \<in> ?S" using p a False by (auto simp: pool_ok_def)
  have "SLOT_COUNT - unat ?c = card (?S - used)"
    using distinct_card [OF d] l s by simp
  also have "\<dots> < card ?S" by (rule psubset_card_mono) (use aS a in auto)
  finally have c0: "0 < unat ?c" using card_slots_of [OF b] by simp
  then have c1: "unat (?c - 1) = unat ?c - 1" by (metis One_nat_def Suc_leI le_unat_uoi nat_neq_iff unat_1 unat_minus_one unat_sub word_le_nat_alt unat_gt_0)
  then have cl: "unat (?c - 1) < length (m_slots p)" using c0 cb l by simp
  let ?p' = "p\<lparr> m_current_slot := ?c - 1, m_slots := (m_slots p)[unat (?c - 1) := a] \<rparr>"
  have de: "deallocate a p = Some (False, ?p')"
    using False cl by (simp add: deallocate_def outside_def Let_def)
  have dr: "drop (unat (?c - 1)) ((m_slots p)[unat (?c - 1) := a]) = a # drop (unat ?c) (m_slots p)"
    using cl c0 by (simp add: drop_update_swap Cons_nth_drop_Suc [symmetric] c1)
  have "pool_ok ?p' (used - {a})"
    using p aS a dr cl l unfolding pool_ok_def
    by (auto dest: set_update_subset_insert [THEN subsetD])
  then show thesis using that [OF de] False by simp
qed

lemma allocate_fits:
  assumes "pool_ok p used" "heap_ok p used h" "allocate n irql h p = (Ret b, p')"
  shows "n \<le> block_size p b n"
proof -
  have "b \<in> set (m_slots p) \<Longrightarrow> \<not> outside (m_buffer p) b"
    using assms(1) slot_not_outside by (auto simp: pool_ok_def)
  then show ?thesis
    using assms(2,3)
    by (auto simp: allocate_def allocate_from_heap_def block_size_def heap_ok_def split: if_splits prod.splits)
qed

section \<open>Counting references\<close>

lemma refs_simps [simp]:
  "refs [] a = 0"
  "refs (vs @ [v]) a = refs vs a + of_bool (refers a v)"
  by (simp_all add: refs_def)

lemma refs_update:
  "i < length vs \<Longrightarrow> refs (vs[i := v]) a + of_bool (refers a (vs ! i)) = refs vs a + of_bool (refers a v)"
proof (induction vs arbitrary: i)
  case (Cons x xs)
  show ?case
  proof (cases i)
    case (Suc j)
    then show ?thesis using Cons by (simp add: refs_def)
  qed (simp add: refs_def)
qed simp

lemma refs_le: "refs vs a \<le> length vs"
  by (simp add: refs_def)

lemma refs_pos: "Some m \<in> set vs \<Longrightarrow> refers a (Some m) \<Longrightarrow> 0 < refs vs a"
  by (auto simp: refs_def filter_empty_conv)

lemma refers_simps [simp]:
  "refers a None \<longleftrightarrow> False"
  "refers a (Some m) \<longleftrightarrow> is_shared m \<and> unmask_ptr m = a"
  by (simp_all add: refers_def)

lemma counters_block:
  "counters_ok R w \<Longrightarrow> 0 < R a \<Longrightarrow> \<exists>b. blocks w a = Some b \<and> unat (ref_counter b) = R a \<and> even a"
  by (cases "blocks w a") (auto simp: counters_ok_def)

lemma copy_counted:
  assumes c: "counters_ok R w" and m: "is_shared m \<Longrightarrow> 0 < R (unmask_ptr m) \<and> R (unmask_ptr m) < 2 ^ 64 - 1"
  obtains w' where "copy_exception m w = Some (m, w')" "pool w' = pool w" "dom (blocks w') = dom (blocks w)"
    "counters_ok (\<lambda>a. R a + of_bool (refers a (Some m))) w'"
    "\<And>a. map_option description (blocks w' a) = map_option description (blocks w a)"
proof (cases "is_shared m")
  case True
  then obtain b where b: "blocks w (unmask_ptr m) = Some b" "unat (ref_counter b) = R (unmask_ptr m)"
    using counters_block [OF c] m by blast
  have n: "unat (ref_counter b + 1) = Suc (unat (ref_counter b))"
    using m [OF True] b(2) by (simp add: unat_word_ariths)
  let ?w = "w\<lparr> blocks := (blocks w)(unmask_ptr m \<mapsto> b\<lparr> ref_counter := ref_counter b + 1 \<rparr>) \<rparr>"
  show thesis
  proof (rule that [of ?w])
    show "copy_exception m w = Some (m, ?w)" using True b by (simp add: copy_exception_def)
    show "counters_ok (\<lambda>a. R a + of_bool (refers a (Some m))) ?w"
      using c b n True by (simp add: counters_ok_def)
  qed (use b in auto)
next
  case False
  then show thesis using c by (intro that [of w]) (auto simp: copy_exception_def)
qed

text \<open>Destroying an exception that holds one of the counted references.\<close>

lemma destroy_ok:
  assumes c: "counters_ok (\<lambda>a. R a + of_bool (refers a (Some m))) w" and p: "pool_ok (pool w) (dom (blocks w))"
  obtains w' where "destroy_exception m w = Some w'" "counters_ok R w'" "pool_ok (pool w') (dom (blocks w'))"
    "m_buffer (pool w') = m_buffer (pool w)"
    "\<And>a. 0 < R a \<Longrightarrow> map_option description (blocks w' a) = map_option description (blocks w a)"
proof (cases "is_shared m")
  case True
  let ?a = "unmask_ptr m"
  obtain b where b: "blocks w ?a = Some b" "unat (ref_counter b) = Suc (R ?a)" "even ?a"
    using counters_block [OF c, of ?a] True by auto
  have n: "unat (ref_counter b - 1) = R ?a"
    using b(2) by (metis Suc_diff_1 diff_Suc_1 nat.distinct(1) unat_0 unat_minus_one)
  show thesis
  proof (cases "R ?a")
    case 0
    then have z: "ref_counter b - 1 = 0" using n by (simp add: unat_eq_0)
    obtain f q where d: "deallocate ?a (pool w) = Some (f, q)" "pool_ok q (dom (blocks w) - {?a})"
      "m_buffer q = m_buffer (pool w)"
      using deallocate_ok [OF p, of ?a] b by blast
    let ?w = "w\<lparr> pool := q, blocks := (blocks w)(?a := None),
                 heap_freed := (if f then ?a # heap_freed w else heap_freed w) \<rparr>"
    show thesis
    proof (rule that [of ?w])
      show "destroy_exception m w = Some ?w" using True b z d by (simp add: destroy_exception_def Let_def)
      show "counters_ok R ?w" using c 0 True by (auto simp: counters_ok_def)
    qed (use d 0 in auto)
  next
    case (Suc k)
    then have z: "ref_counter b - 1 \<noteq> 0" using n by auto
    let ?w = "w\<lparr> blocks := (blocks w)(?a \<mapsto> b\<lparr> ref_counter := ref_counter b - 1 \<rparr>) \<rparr>"
    show thesis
    proof (rule that [of ?w])
      show "destroy_exception m w = Some ?w" using True b z by (simp add: destroy_exception_def Let_def)
      show "counters_ok R ?w" using c b n Suc True by (auto simp: counters_ok_def)
      show "pool_ok (pool ?w) (dom (blocks ?w))"
        using p b by (simp add: insert_absorb domI)
    qed (use b in auto)
  qed
next
  case False
  then show thesis using c p by (intro that [of w]) (auto simp: destroy_exception_def)
qed

text \<open>A new message block: \<open>n\<close> is the length passed to \<^verbatim>\<open>construct_header\<close>.\<close>

lemma new_shared_data_ok:
  assumes c: "counters_ok R w" and p: "pool_ok (pool w) (dom (blocks w))"
    and h: "heap_ok (pool w) (dom (blocks w)) h" and n: "n \<le> length desc"
  obtains (throw) w' where "new_shared_data desc n old irql h w = Some (Throw BadAlloc, w')" "blocks w' = blocks w"
      "pool_ok (pool w') (dom (blocks w'))" "m_buffer (pool w') = m_buffer (pool w)"
  | (ret) b w' where "new_shared_data desc n old irql h w = Some (Ret (mask_ptr b), w')" "blocks w b = None" "even b"
      "blocks w' = (blocks w)(b \<mapsto> \<lparr> description = c_string (take n desc), ref_counter = 1 \<rparr>)"
      "counters_ok (\<lambda>a. R a + of_bool (refers a (Some (mask_ptr b)))) w'"
      "pool_ok (pool w') (dom (blocks w'))" "m_buffer (pool w') = m_buffer (pool w)"
proof -
  let ?n = "header_size + length desc + 1"
  obtain r q where a: "allocate ?n irql h (pool w) = (r, q)" by (cases "allocate ?n irql h (pool w)")
  note ok = allocate_ok [OF p h a]
  show thesis
  proof (cases r)
    case (Throw e)
    then show thesis using ok(1) ok(3) [OF Throw] a by (intro throw [of "w\<lparr> pool := q \<rparr>"]) (auto simp: new_shared_data_def)
  next
    case (Ret b)
    have fits: "header_size + n < block_size (pool w) b ?n"
      using allocate_fits [OF p h] a n Ret by fastforce
    have chars: "map (fill desc old) [0..<n] = take n desc"
      using n by (auto simp: fill_def intro: nth_equalityI)
    let ?w = "w\<lparr> pool := q, blocks := (blocks w)(b \<mapsto> \<lparr> description = c_string (take n desc), ref_counter = 1 \<rparr>) \<rparr>"
    have b: "blocks w b = None" "even b" "pool_ok q (insert b (dom (blocks w)))" using ok(2) [OF Ret] by auto
    show thesis
    proof (rule ret [of b ?w])
      show "new_shared_data desc n old irql h w = Some (Ret (mask_ptr b), ?w)"
        using a Ret fits chars by (simp add: new_shared_data_def construct_header_def)
      show "counters_ok (\<lambda>a. R a + of_bool (refers a (Some (mask_ptr b)))) ?w"
        using c b by (auto simp: counters_ok_def unmask_mask)
    qed (use b ok(1) in auto)
  qed
qed

section \<open>Programs\<close>

definition env_ok :: "exc_env \<Rightarrow> bool" where
  "env_ok env \<longleftrightarrow> even (empty_literal env) \<and> even (failed_literal env)"

definition alive :: "addr option list \<Rightarrow> nat \<Rightarrow> bool" where
  "alive vs i \<longleftrightarrow> i < length vs \<and> vs ! i \<noteq> None"

text \<open>What an operation of a program has to respect. The length condition on a wide message is what its
  constructor needs to stay inside of its block (\<open>wide_message_overruns\<close> below).\<close>

fun op_ok :: "exc_env \<Rightarrow> exc_op \<Rightarrow> exc_state \<Rightarrow> bool" where
  "op_ok env (Construct msg old irql h) (vs, w) \<longleftrightarrow> heap_ok (pool w) (dom (blocks w)) h"
| "op_ok env (Construct_wide msg old irql h) (vs, w) \<longleftrightarrow>
     heap_ok (pool w) (dom (blocks w)) h \<and> 2 * length msg \<le> length (convert env msg)"
| "op_ok env (Construct_persistent a) (vs, w) \<longleftrightarrow> even a"
| "op_ok env (Copy i) (vs, w) \<longleftrightarrow> alive vs i \<and> length vs < 2 ^ 64 - 1"
| "op_ok env (Move i) (vs, w) \<longleftrightarrow> alive vs i"
| "op_ok env (Assign_copy i j) (vs, w) \<longleftrightarrow> alive vs i \<and> alive vs j \<and> length vs < 2 ^ 64 - 1"
| "op_ok env (Assign_move i j) (vs, w) \<longleftrightarrow> alive vs i \<and> alive vs j"
| "op_ok env (Destroy i) (vs, w) \<longleftrightarrow> alive vs i"

text \<open>\<open>moves_to s s'\<close>: the invariant holds in \<open>s'\<close>, and a block with references before and after has kept its
  message.\<close>

definition moves_to :: "exc_state \<Rightarrow> exc_state \<Rightarrow> bool" where
  "moves_to s s' \<longleftrightarrow> exc_inv s' \<and> m_buffer (pool (snd s')) = m_buffer (pool (snd s)) \<and>
     (\<forall>a. 0 < refs (fst s) a \<and> 0 < refs (fst s') a \<longrightarrow>
        map_option description (blocks (snd s') a) = map_option description (blocks (snd s) a))"

lemma counters_ok_cong: "counters_ok R w \<Longrightarrow> (\<And>a. R a = R' a) \<Longrightarrow> counters_ok R' w"
  by (simp add: counters_ok_def)

lemma refs_snoc: "refs (vs @ [v]) = (\<lambda>a. refs vs a + of_bool (refers a v))"
  by (rule ext) simp

lemma refs_move:
  "i < length vs \<Longrightarrow> vs ! i = Some m \<Longrightarrow> even e \<Longrightarrow> refs (vs[i := Some e]) a + of_bool (refers a (Some m)) = refs vs a"
  using refs_update [of i vs "Some e" a] by simp

lemma alive_elim: "alive vs i \<Longrightarrow> (\<And>m. i < length vs \<Longrightarrow> vs ! i = Some m \<Longrightarrow> P) \<Longrightarrow> P"
  by (auto simp: alive_def)

lemma construct_moves:
  assumes i: "exc_inv (vs, w)" and h: "heap_ok (pool w) (dom (blocks w)) h" and n: "n \<le> length desc"
  shows "\<exists>r. new_shared_data desc n old irql h w = Some r \<and> moves_to (vs, w) (push_result vs r)"
proof -
  have c: "counters_ok (refs vs) w" and p: "pool_ok (pool w) (dom (blocks w))"
    using i by (simp_all add: exc_inv_def)
  show ?thesis
  proof (cases rule: new_shared_data_ok [OF c p h n, of old irql, case_names throw ret])
    case (throw w')
    then show ?thesis using c by (simp add: moves_to_def exc_inv_def counters_ok_def)
  next
    case (ret b w')
    have "refs vs b = 0" using c ret(2) by (simp add: counters_ok_def)
    then show ?thesis using ret by (auto simp: moves_to_def exc_inv_def refs_snoc)
  qed
qed

lemma copy_moves:
  assumes i: "exc_inv (vs, w)" and m: "Some m \<in> set vs" and l: "length vs < 2 ^ 64 - 1"
  obtains w' where "copy_exception m w = Some (m, w')" "moves_to (vs, w) (vs @ [Some m], w')"
    "counters_ok (\<lambda>a. refs vs a + of_bool (refers a (Some m))) w'" "pool_ok (pool w') (dom (blocks w'))"
    "m_buffer (pool w') = m_buffer (pool w)"
    "\<And>a. map_option description (blocks w' a) = map_option description (blocks w a)"
proof -
  have c: "counters_ok (refs vs) w" and p: "pool_ok (pool w) (dom (blocks w))"
    using i by (simp_all add: exc_inv_def)
  have "is_shared m \<Longrightarrow> 0 < refs vs (unmask_ptr m) \<and> refs vs (unmask_ptr m) < 2 ^ 64 - 1"
    using refs_pos [OF m, of "unmask_ptr m"] refs_le [of vs "unmask_ptr m"] l by simp
  from copy_counted [OF c this] obtain w' where w': "copy_exception m w = Some (m, w')" "pool w' = pool w"
    "dom (blocks w') = dom (blocks w)" "counters_ok (\<lambda>a. refs vs a + of_bool (refers a (Some m))) w'"
    "\<And>a. map_option description (blocks w' a) = map_option description (blocks w a)"
    by blast
  show thesis
    by (rule that [OF w'(1)]) (use w' p in \<open>simp_all add: moves_to_def exc_inv_def refs_snoc\<close>)
qed

lemma destroy_moves:
  assumes c: "counters_ok (\<lambda>a. refs vs a + of_bool (refers a (Some m))) w"
    and p: "pool_ok (pool w) (dom (blocks w))"
  obtains w' where "destroy_exception m w = Some w'" "exc_inv (vs, w')" "m_buffer (pool w') = m_buffer (pool w)"
    "\<And>a. 0 < refs vs a \<Longrightarrow> map_option description (blocks w' a) = map_option description (blocks w a)"
  using destroy_ok [OF c p] by (metis exc_inv_def fst_conv snd_conv)

lemma assign_copy_moves:
  assumes i: "exc_inv (vs, w)" and m: "k < length vs" "vs ! k = Some m" "Some m' \<in> set vs" and l: "length vs < 2 ^ 64 - 1"
  obtains w' where "assign_copy m m' w = Some (m', w')" "moves_to (vs, w) (vs[k := Some m'], w')"
proof -
  obtain w1 where w1: "copy_exception m' w = Some (m', w1)" "moves_to (vs, w) (vs @ [Some m'], w1)"
    "counters_ok (\<lambda>a. refs vs a + of_bool (refers a (Some m'))) w1" "pool_ok (pool w1) (dom (blocks w1))"
    "m_buffer (pool w1) = m_buffer (pool w)"
    "\<And>a. map_option description (blocks w1 a) = map_option description (blocks w a)"
    by (rule copy_moves [OF i m(3) l], rule that)
  have "counters_ok (\<lambda>a. refs (vs[k := Some m']) a + of_bool (refers a (Some m))) w1"
    by (rule counters_ok_cong [OF w1(3)]) (use refs_update [OF m(1), of "Some m'"] m(2) in simp)
  from destroy_moves [OF this w1(4)] obtain w2 where
    "destroy_exception m w1 = Some w2" "exc_inv (vs[k := Some m'], w2)" "m_buffer (pool w2) = m_buffer (pool w1)"
    "\<And>a. 0 < refs (vs[k := Some m']) a \<Longrightarrow> map_option description (blocks w2 a) = map_option description (blocks w1 a)"
    by blast
  then show thesis using w1 by (intro that [of w2]) (simp_all add: assign_copy_def moves_to_def)
qed

lemma assign_move_moves:
  assumes i: "exc_inv (vs, w)" and e: "even e" and kj: "k \<noteq> j" "k < length vs" "vs ! k = Some m" "j < length vs" "vs ! j = Some m'"
  obtains w' where "assign_move e m m' w = Some (m', e, w')" "moves_to (vs, w) (vs[k := Some m', j := Some e], w')"
proof -
  let ?vs = "vs[k := Some m', j := Some e]"
  have eq: "refs ?vs a + of_bool (refers a (Some m)) = refs vs a" for a
    using refs_update [of k vs "Some m'" a] refs_move [of j "vs[k := Some m']" m' e a] kj e by simp
  have "counters_ok (\<lambda>a. refs ?vs a + of_bool (refers a (Some m))) w" "pool_ok (pool w) (dom (blocks w))"
    using i eq by (simp_all add: exc_inv_def)
  from destroy_moves [OF this] obtain w' where
    "destroy_exception m w = Some w'" "exc_inv (?vs, w')" "m_buffer (pool w') = m_buffer (pool w)"
    "\<And>a. 0 < refs ?vs a \<Longrightarrow> map_option description (blocks w' a) = map_option description (blocks w a)"
    by blast
  then show thesis by (intro that [of w']) (simp_all add: assign_move_def move_exception_def moves_to_def)
qed

lemma refs_frame: "exc_inv (vs, w) \<Longrightarrow> (\<And>a. refs vs' a = refs vs a) \<Longrightarrow> moves_to (vs, w) (vs', w)"
  by (auto simp: moves_to_def exc_inv_def intro: counters_ok_cong)

lemma exec_construct:
  assumes env: "env_ok env" and i: "exc_inv (vs, w)" and ok: "op_ok env op (vs, w)" and op: "op = Construct msg old irql h"
  shows "\<exists>s'. exc_exec env op (vs, w) = Some s' \<and> moves_to (vs, w) s'"
proof -
  note Construct = op
  from Construct have "heap_ok (pool w) (dom (blocks w)) h" using ok by simp
  from construct_moves [OF i this le_refl, of msg old "DISPATCH_LEVEL < irql"] obtain r where
    "make_shared_data msg old (DISPATCH_LEVEL < irql) h w = Some r" "moves_to (vs, w) (push_result vs r)"
    by (auto simp only: make_shared_data_def)
  then show ?thesis using Construct by simp
qed

lemma exec_construct_wide:
  assumes env: "env_ok env" and i: "exc_inv (vs, w)" and ok: "op_ok env op (vs, w)" and op: "op = Construct_wide msg old irql h"
  shows "\<exists>s'. exc_exec env op (vs, w) = Some s' \<and> moves_to (vs, w) s'"
proof -
  note Construct_wide = op
  from Construct_wide have l: "length msg * 2 mod 2 ^ 32 \<le> length (convert env msg)"
    using ok by (simp add: le_trans [OF mod_less_eq_dividend])
  have f: "moves_to (vs, w) (vs @ [Some (failed_literal env)], w)"
    using refs_frame [OF i] env by (simp add: env_ok_def)
  have h: "heap_ok (pool w) (dom (blocks w)) h" using Construct_wide ok by simp
  from construct_moves [OF i h l, of old False] obtain r where
    r: "make_shared_data_wide (convert env) msg old False h w = Some r" "moves_to (vs, w) (push_result vs r)"
    by (auto simp only: make_shared_data_wide_def)
  show ?thesis
    by (cases "DISPATCH_LEVEL \<le> irql") (use Construct_wide f r in \<open>simp_all add: construct_from_unicode_def\<close>)
qed

lemma exec_assign_copy:
  assumes env: "env_ok env" and i: "exc_inv (vs, w)" and ok: "op_ok env op (vs, w)" and op: "op = Assign_copy k j"
  shows "\<exists>s'. exc_exec env op (vs, w) = Some s' \<and> moves_to (vs, w) s'"
proof -
  note Assign_copy = op
  from Assign_copy obtain m m' where *: "k < length vs" "vs ! k = Some m" "j < length vs" "vs ! j = Some m'" "length vs < 2 ^ 64 - 1"
    using ok by (auto elim!: alive_elim)
  show ?thesis
  proof (cases "k = j")
    case False
    have "Some m' \<in> set vs" using nth_mem [OF *(3)] *(4) by simp
    from assign_copy_moves [OF i *(1,2) this *(5)] obtain w' where
      "assign_copy m m' w = Some (m', w')" "moves_to (vs, w) (vs[k := Some m'], w')" by blast
    then show ?thesis using Assign_copy * False by simp
  qed (use Assign_copy * refs_frame [OF i] in simp)
qed

lemma exec_assign_move:
  assumes env: "env_ok env" and i: "exc_inv (vs, w)" and ok: "op_ok env op (vs, w)" and op: "op = Assign_move k j"
  shows "\<exists>s'. exc_exec env op (vs, w) = Some s' \<and> moves_to (vs, w) s'"
proof -
  note Assign_move = op
  from Assign_move obtain m m' where *: "k < length vs" "vs ! k = Some m" "j < length vs" "vs ! j = Some m'"
    using ok by (auto elim!: alive_elim)
  show ?thesis
  proof (cases "k = j")
    case False
    have "even (empty_literal env)" using env by (simp add: env_ok_def)
    from assign_move_moves [OF i this False *] obtain w' where
      "assign_move (empty_literal env) m m' w = Some (m', empty_literal env, w')"
      "moves_to (vs, w) (vs[k := Some m', j := Some (empty_literal env)], w')" by blast
    then show ?thesis using Assign_move * False by simp
  qed (use Assign_move * refs_frame [OF i] in simp)
qed

lemma exec_destroy:
  assumes env: "env_ok env" and i: "exc_inv (vs, w)" and ok: "op_ok env op (vs, w)" and op: "op = Destroy j"
  shows "\<exists>s'. exc_exec env op (vs, w) = Some s' \<and> moves_to (vs, w) s'"
proof -
  note Destroy = op
  from Destroy obtain m where *: "j < length vs" "vs ! j = Some m" using ok by (auto elim: alive_elim)
  have "counters_ok (\<lambda>a. refs (vs[j := None]) a + of_bool (refers a (Some m))) w" "pool_ok (pool w) (dom (blocks w))"
    using i refs_update [OF *(1), of None] *(2) by (simp_all add: exc_inv_def)
  from destroy_moves [OF this] obtain w' where
    "destroy_exception m w = Some w'" "exc_inv (vs[j := None], w')" "m_buffer (pool w') = m_buffer (pool w)"
    "\<And>a. 0 < refs (vs[j := None]) a \<Longrightarrow> map_option description (blocks w' a) = map_option description (blocks w a)"
    by blast
  then show ?thesis using Destroy * by (simp add: moves_to_def)
qed

lemma exec_moves:
  assumes env: "env_ok env" and i: "exc_inv (vs, w)" and ok: "op_ok env op (vs, w)"
  shows "\<exists>s'. exc_exec env op (vs, w) = Some s' \<and> moves_to (vs, w) s'"
proof (cases op)
  case (Construct msg old irql h)
  then show ?thesis using exec_construct [OF env i ok] by blast
next
  case (Construct_wide msg old irql h)
  then show ?thesis using exec_construct_wide [OF env i ok] by blast
next
  case (Construct_persistent a)
  then show ?thesis using refs_frame [OF i] ok by simp
next
  case (Copy j)
  then obtain m where *: "j < length vs" "vs ! j = Some m" "length vs < 2 ^ 64 - 1" using ok by (auto elim: alive_elim)
  then have "Some m \<in> set vs" by (metis nth_mem)
  from copy_moves [OF i this *(3)] obtain w' where
    "copy_exception m w = Some (m, w')" "moves_to (vs, w) (vs @ [Some m], w')" by blast
  then show ?thesis using Copy * by simp
next
  case (Move j)
  then obtain m where "j < length vs" "vs ! j = Some m" using ok by (auto elim: alive_elim)
  then show ?thesis
    using refs_frame [OF i, of "vs[j := Some (empty_literal env)] @ [Some m]"]
      refs_move [of j vs m "empty_literal env"] env Move
    by (simp add: move_exception_def env_ok_def)
next
  case (Assign_copy k j)
  then show ?thesis using exec_assign_copy [OF env i ok] by blast
next
  case (Assign_move k j)
  then show ?thesis using exec_assign_move [OF env i ok] by blast
next
  case (Destroy j)
  then show ?thesis using exec_destroy [OF env i ok] by blast
qed

inductive exc_reach :: "exc_env \<Rightarrow> addr \<Rightarrow> exc_state \<Rightarrow> bool" for env buffer where
  start: "exc_reach env buffer ([], start_world buffer)"
| step: "exc_reach env buffer s \<Longrightarrow> op_ok env op s \<Longrightarrow> exc_exec env op s = Some s' \<Longrightarrow> exc_reach env buffer s'"

lemma start_pool_ok: "buffer_ok buffer \<Longrightarrow> pool_ok (start_pool buffer) {}"
proof -
  assume b: "buffer_ok buffer"
  then have nz: "buffer \<noteq> 0" by (simp add: buffer_ok_def)
  have "distinct (map (slot_addr buffer) [0..<SLOT_COUNT])"
    using slot_addr_inj [OF b] by (simp add: distinct_map atLeast0LessThan)
  then show ?thesis
    using b nz by (simp add: start_pool_def pool_run_def pool_ok_def slots_of_def atLeast0LessThan)
qed

lemma exc_reach_inv:
  assumes "env_ok env" "buffer_ok buffer" "exc_reach env buffer s"
  shows "exc_inv s \<and> m_buffer (pool (snd s)) = buffer"
  using assms(3)
proof induction
  case start
  have "m_buffer (start_pool buffer) = buffer" using assms(2) by (simp add: start_pool_def pool_run_def)
  then show ?case
    using start_pool_ok [OF assms(2)] by (simp add: exc_inv_def counters_ok_def start_world_def)
next
  case (step s op s')
  obtain vs w where s: "s = (vs, w)" by (cases s)
  show ?case using exec_moves [OF assms(1), of vs w op] step by (auto simp: s moves_to_def)
qed

lemma slots_in_use:
  assumes "pool_ok p used"
  shows "unat (m_current_slot p) = card (slots_of (m_buffer p) \<inter> used)"
proof -
  let ?S = "slots_of (m_buffer p)"
  have d: "distinct (drop (unat (m_current_slot p)) (m_slots p))" and l: "length (m_slots p) = SLOT_COUNT"
    and s: "set (drop (unat (m_current_slot p)) (m_slots p)) = ?S - used"
    and c: "unat (m_current_slot p) \<le> SLOT_COUNT" and b: "buffer_ok (m_buffer p)"
    using assms by (simp_all add: pool_ok_def)
  have "card (?S - used) = SLOT_COUNT - unat (m_current_slot p)" using distinct_card [OF d] s l by simp
  moreover have "card (?S \<inter> used) + card (?S - used) = SLOT_COUNT"
    using card_Int_Diff [OF finite_slots_of, of "m_buffer p" used] card_slots_of [OF b] by simp
  ultimately show ?thesis using c by simp
qed

text \<open>
  C26: in every state a program of one thread reaches by constructing, copying, moving, assigning and destroying
  exceptions, the counter of a message block is the number of exceptions that refer to it, the
  block exists exactly as long as there are any, and the allocator's array of slots holds, from
  the current position on, exactly the slots without a message, each once. No further such operation on live
  exceptions is undefined: the pool never underflows and no block is used after it was freed. The programs construct
  exceptions from narrow messages, from wide messages that take at least two bytes per character when
  they are converted, and from persistent messages at even addresses, and the two literals of the module are at even
  addresses. Other wide messages overrun their block (\<open>wide_message_overruns\<close>), and the code takes the lowest bit of the address
  for the mark of a block.
\<close>
theorem exception_messages_counted:
  assumes "env_ok env" "buffer_ok buffer" "exc_reach env buffer (vs, w)"
  shows "(\<forall>a. blocks w a = None \<longleftrightarrow> refs vs a = 0) \<and>
    (\<forall>a b. blocks w a = Some b \<longrightarrow> unat (ref_counter b) = refs vs a) \<and>
    unat (m_current_slot (pool w)) = card (slots_of buffer \<inter> dom (blocks w)) \<and>
    distinct (drop (unat (m_current_slot (pool w))) (m_slots (pool w))) \<and>
    set (drop (unat (m_current_slot (pool w))) (m_slots (pool w))) = slots_of buffer - dom (blocks w) \<and>
    (\<forall>op. op_ok env op (vs, w) \<longrightarrow> exc_exec env op (vs, w) \<noteq> None)"
proof -
  from exc_reach_inv [OF assms] have inv: "exc_inv (vs, w)" and b: "m_buffer (pool w) = buffer" by simp_all
  then have c: "counters_ok (refs vs) w" and p: "pool_ok (pool w) (dom (blocks w))" by (simp_all add: exc_inv_def)
  have "blocks w a = None \<longleftrightarrow> refs vs a = 0" for a
    using c by (cases "blocks w a") (auto simp: counters_ok_def)
  moreover have "op_ok env op (vs, w) \<Longrightarrow> exc_exec env op (vs, w) \<noteq> None" for op
    using exec_moves [OF assms(1) inv] by fastforce
  ultimately show ?thesis
    using c p slots_in_use [OF p] b by (auto simp: counters_ok_def pool_ok_def)
qed

lemma new_message_kept:
  assumes c: "counters_ok R w" and p: "pool_ok (pool w) (dom (blocks w))"
    and h: "heap_ok (pool w) (dom (blocks w)) h" and r: "make_shared_data msg old irql h w = Some (Ret m, w')"
  shows "get_message literal m w' = Some (c_string msg)"
proof (cases rule: new_shared_data_ok [OF c p h order_refl, of msg old irql, case_names throw ret])
  case (throw w'')
  then show ?thesis using r by (simp add: make_shared_data_def)
next
  case (ret b w'')
  then show ?thesis using r by (auto simp: make_shared_data_def get_message_def unmask_mask)
qed

text \<open>
  an operation does not change the message of any exception that keeps its value, and a
  newly constructed exception has the message it was constructed with, up to its first zero
  character.
\<close>
theorem exception_messages_kept:
  assumes "env_ok env" "buffer_ok buffer" "exc_reach env buffer (vs, w)" "op_ok env op (vs, w)"
    "exc_exec env op (vs, w) = Some (vs', w')"
  shows "(Some m \<in> set vs \<and> Some m \<in> set vs' \<longrightarrow>
      get_message literal m w' = get_message literal m w \<and> get_message literal m w \<noteq> None) \<and>
    (op = Construct msg old irql h \<and> vs' = vs @ [Some n] \<longrightarrow> get_message literal n w' = Some (c_string msg))"
proof (intro conjI impI)
  from exc_reach_inv [OF assms(1-3)] have inv: "exc_inv (vs, w)" by simp
  then have c: "counters_ok (refs vs) w" and p: "pool_ok (pool w) (dom (blocks w))" by (simp_all add: exc_inv_def)
  have mv: "moves_to (vs, w) (vs', w')" using exec_moves [OF assms(1) inv assms(4)] assms(5) by simp
  have shared: "blocks w a \<noteq> None \<and> map_option description (blocks w' a) = map_option description (blocks w a)"
    if "is_shared m" "unmask_ptr m = a" "Some m \<in> set vs \<and> Some m \<in> set vs'" for a
  proof -
    have "0 < refs vs a" "0 < refs vs' a" using that refs_pos by auto
    then show ?thesis using counters_block [OF c, of a] mv by (auto simp: moves_to_def)
  qed
  show "get_message literal m w' = get_message literal m w" "get_message literal m w \<noteq> None"
    if "Some m \<in> set vs \<and> Some m \<in> set vs'"
    using shared [OF _ refl that] by (simp_all add: get_message_def)
  show "get_message literal n w' = Some (c_string msg)" if *: "op = Construct msg old irql h \<and> vs' = vs @ [Some n]"
  proof -
    have "make_shared_data msg old (DISPATCH_LEVEL < irql) h w = Some (Ret n, w')"
      using assms(5) * by (auto elim!: push_result.elims)
    then show ?thesis using new_message_kept [OF c p] assms(4) * by auto
  qed
qed

section \<open>Witnesses\<close>

text \<open>A driver whose page is at 0x2000 constructs an exception and copies it.\<close>

definition sample_env :: exc_env where
  "sample_env = \<lparr> convert = map (\<lambda>c. char_of (unat c)), empty_literal = 0x1000, failed_literal = 0x1002 \<rparr>"

lemma sample_env_ok: "env_ok sample_env"
  by (simp add: env_ok_def sample_env_def)

lemma sample_buffer_ok: "buffer_ok 0x2000"
  by (simp add: buffer_ok_def RESERVED_BYTES_COUNT_def)

definition sample_pool :: exception_allocator where
  "sample_pool = \<lparr> m_slots = [0x2000, 0x2200, 0x2400, 0x2600, 0x2800, 0x2A00, 0x2C00, 0x2E00],
     m_buffer = 0x2000, m_current_slot = 1 \<rparr>"

definition sample_world :: "64 word \<Rightarrow> exc_world" where
  "sample_world n = \<lparr> pool = sample_pool, blocks = [0x2000 \<mapsto> \<lparr> description = ''boom'', ref_counter = n \<rparr>], heap_freed = [] \<rparr>"

lemma sample_reach_1: "exc_reach sample_env 0x2000 ([Some 0x2001], sample_world 1)"
proof (rule exc_reach.step [OF exc_reach.start])
  show "op_ok sample_env (Construct ''boom'' (\<lambda>_. CHR ''x'') 0 0) ([], start_world 0x2000)"
    by (simp add: heap_ok_def)
  show "exc_exec sample_env (Construct ''boom'' (\<lambda>_. CHR ''x'') 0 0) ([], start_world 0x2000) =
      Some ([Some 0x2001], sample_world 1)"
    by (simp add: make_shared_data_def new_shared_data_def start_world_def start_pool_def pool_run_def allocate_def
        try_get_slot_def pool_consts header_size_def upt_rec slot_addr_def construct_header_def block_size_def
        fill_def c_string_def mask_ptr_def SHARED_DATA_MASK_def sample_world_def sample_pool_def)
qed

lemma sample_reach_2: "exc_reach sample_env 0x2000 ([Some 0x2001, Some 0x2001], sample_world 2)"
proof (rule exc_reach.step [OF sample_reach_1])
  show "op_ok sample_env (Copy 0) ([Some 0x2001], sample_world 1)" by (simp add: alive_def)
  show "exc_exec sample_env (Copy 0) ([Some 0x2001], sample_world 1) = Some ([Some 0x2001, Some 0x2001], sample_world 2)"
    by (simp add: copy_exception_def is_shared_def unmask_ptr_def SHARED_DATA_MASK_def sample_world_def)
qed

text \<open>Witness: after the copy the block counts two references and one slot is taken.\<close>
theorem exception_messages_counted_witness:
  "env_ok sample_env \<and> buffer_ok 0x2000 \<and> exc_reach sample_env 0x2000 ([Some 0x2001, Some 0x2001], sample_world 2) \<and>
   unat (2 :: 64 word) = refs [Some 0x2001, Some 0x2001] 0x2000 \<and>
   card (slots_of 0x2000 \<inter> dom (blocks (sample_world 2))) = 1"
proof -
  note t = exception_messages_counted [OF sample_env_ok sample_buffer_ok sample_reach_2]
  have "unat (2 :: 64 word) = refs [Some 0x2001, Some 0x2001] 0x2000"
    using t [THEN conjunct2, THEN conjunct1, rule_format, of "0x2000" "\<lparr> description = ''boom'', ref_counter = 2 \<rparr>"]
    by (simp add: sample_world_def)
  moreover have "card (slots_of 0x2000 \<inter> dom (blocks (sample_world 2))) = 1"
    unfolding t [THEN conjunct2, THEN conjunct2, THEN conjunct1, symmetric]
    by (simp add: sample_world_def sample_pool_def)
  ultimately show ?thesis using sample_env_ok sample_buffer_ok sample_reach_2 by blast
qed

text \<open>Witness: the copy has the message of the original.\<close>
theorem exception_messages_kept_witness:
  "env_ok sample_env \<and> buffer_ok 0x2000 \<and> exc_reach sample_env 0x2000 ([Some 0x2001], sample_world 1) \<and>
   get_message (\<lambda>_. []) 0x2001 (sample_world 2) = Some ''boom''"
proof -
  have ok: "op_ok sample_env (Copy 0) ([Some 0x2001], sample_world 1)" by (simp add: alive_def)
  have ex: "exc_exec sample_env (Copy 0) ([Some 0x2001], sample_world 1) = Some ([Some 0x2001, Some 0x2001], sample_world 2)"
    by (simp add: copy_exception_def is_shared_def unmask_ptr_def SHARED_DATA_MASK_def sample_world_def)
  have "get_message (\<lambda>_. []) 0x2001 (sample_world 1) = Some ''boom''"
    by (simp add: get_message_def is_shared_def unmask_ptr_def SHARED_DATA_MASK_def sample_world_def)
  then show ?thesis
    using exception_messages_kept [OF sample_env_ok sample_buffer_ok sample_reach_1 ok ex, of "0x2001" "\<lambda>_. []"]
      sample_env_ok sample_buffer_ok sample_reach_1 by simp
qed

section \<open>Wide messages\<close>

lemma allocate_slot:
  "pool_ok p used \<Longrightarrow> unat (m_current_slot p) < SLOT_COUNT \<Longrightarrow> n \<le> SLOT_SIZE \<Longrightarrow>
     allocate n irql h p = (Ret (m_slots p ! unat (m_current_slot p)), p\<lparr> m_current_slot := m_current_slot p + 1 \<rparr>)"
proof -
  assume a: "pool_ok p used" "unat (m_current_slot p) < SLOT_COUNT" "n \<le> SLOT_SIZE"
  then have "m_slots p ! unat (m_current_slot p) \<in> slots_of (m_buffer p)" by (auto simp: pool_ok_def)
  then have "m_slots p ! unat (m_current_slot p) \<noteq> 0" using slot_even_nonzero a(1) by (auto simp: pool_ok_def)
  then show ?thesis using a by (simp add: allocate_def try_get_slot_def)
qed

lemma map_fill:
  "length d \<le> n \<Longrightarrow> map (fill d old) [0..<n] = d @ map old [length d..<n]"
  by (rule nth_equalityI) (auto simp: fill_def nth_append)

text \<open>
  the constructor from a wide message whose characters convert to one byte each ends the
  message at its length in bytes as a wide string. In a slot of the pool, up to 247 characters, the
  message is followed by as many old bytes of the slot (up to their first zero); from 248 to
  495 characters the terminating zero is written outside of the slot.
\<close>
theorem wide_message_overruns:
  assumes "pool_ok (pool w) (dom (blocks w))" "unat (m_current_slot (pool w)) < SLOT_COUNT"
    "length (cv msg) = length msg"
  shows "(length msg < 248 \<longrightarrow> (\<exists>m w' b. make_shared_data_wide cv msg old irql h w = Some (Ret m, w') \<and>
       blocks w' (unmask_ptr m) = Some b \<and>
       description b = c_string (cv msg @ map old [length msg..<2 * length msg]))) \<and>
    (248 \<le> length msg \<and> length msg < 496 \<longrightarrow> make_shared_data_wide cv msg old irql h w = None)"
proof (intro conjI impI)
  let ?n = "header_size + length msg + 1" and ?b = "m_slots (pool w) ! unat (m_current_slot (pool w))"
  have b: "?b \<in> set (m_slots (pool w))" using assms(1,2) by (simp add: pool_ok_def)
  then have "even ?b" using assms(1) slot_even_nonzero by (auto simp: pool_ok_def)
  note s = b this
  have al: "allocate ?n irql h (pool w) = (Ret ?b, (pool w)\<lparr> m_current_slot := m_current_slot (pool w) + 1 \<rparr>)"
    if "length msg < 496" using that allocate_slot [OF assms(1,2)] by (simp add: header_size_def SLOT_SIZE_def)
  have len: "length msg * 2 mod 2 ^ 32 = length msg * 2" if "length msg < 496" using that by simp
  show "\<exists>m w' b. make_shared_data_wide cv msg old irql h w = Some (Ret m, w') \<and>
       blocks w' (unmask_ptr m) = Some b \<and>
       description b = c_string (cv msg @ map old [length msg..<2 * length msg])" if l: "length msg < 248"
    using al len s assms(3) l map_fill [of "cv msg" "2 * length msg" old]
    by (simp add: make_shared_data_wide_def new_shared_data_def construct_header_def block_size_def header_size_def
        SLOT_SIZE_def unmask_mask mult.commute)
  show "make_shared_data_wide cv msg old irql h w = None" if l: "248 \<le> length msg \<and> length msg < 496"
    using al len s assms(3) l
    by (simp add: make_shared_data_wide_def new_shared_data_def construct_header_def block_size_def header_size_def
        SLOT_SIZE_def)
qed

text \<open>Witness: \<^verbatim>\<open>L"ab"\<close> in a slot that holds old bytes reads as four characters.\<close>
theorem wide_message_overruns_witness:
  "pool_ok (start_pool 0x2000) {} \<and>
   (\<exists>m w' b. make_shared_data_wide (convert sample_env) [97, 98] (\<lambda>_. CHR ''x'') False 0 (start_world 0x2000) = Some (Ret m, w') \<and>
      blocks w' (unmask_ptr m) = Some b \<and> description b = ''abxx'')"
proof -
  have p: "pool_ok (pool (start_world 0x2000)) (dom (blocks (start_world 0x2000)))"
    using start_pool_ok [OF sample_buffer_ok] by (simp add: start_world_def)
  have c: "unat (m_current_slot (pool (start_world 0x2000))) < SLOT_COUNT"
    by (simp add: start_world_def start_pool_def pool_run_def pool_consts)
  show ?thesis
    using wide_message_overruns [OF p c, of "convert sample_env" "[97, 98]" "\<lambda>_. CHR ''x''" False 0]
      start_pool_ok [OF sample_buffer_ok]
    by (simp add: sample_env_def c_string_def upt_rec char_of_def bit_0)
qed

section \<open>Concurrent use of the pool\<close>

text \<open>
  the allocator's operations do not exclude each other. After two allocations, a thread that
  frees the first slot and is suspended between its decrement and its write lets another thread
  allocate the second slot, which is still in use.
\<close>
theorem pool_race:
  assumes "buffer_ok buffer"
  shows "\<exists>p1 p2 p3. try_get_slot (start_pool buffer) = (slot_addr buffer 0, p1) \<and> try_get_slot p1 = (slot_addr buffer 1, p2) \<and>
    pool_step\<^sup>*\<^sup>* (p2, Alloc_inc, Free_dec (slot_addr buffer 0)) (p3, Alloc_done (slot_addr buffer 1), Free_done)"
proof -
  let ?s = "map (slot_addr buffer) [0..<SLOT_COUNT]"
  define p where "p c = \<lparr> m_slots = ?s, m_buffer = buffer, m_current_slot = c \<rparr>" for c :: u32
  have s: "start_pool buffer = p 0"
    using assms by (simp add: start_pool_def pool_run_def buffer_ok_def p_def)
  have g: "try_get_slot (p 0) = (slot_addr buffer 0, p 1)" "try_get_slot (p 1) = (slot_addr buffer 1, p 2)"
    by (simp_all add: try_get_slot_def p_def SLOT_COUNT_def RESERVED_BYTES_COUNT_def SLOT_SIZE_def)
  have 1: "pool_step (p 2, Alloc_inc, Free_dec (slot_addr buffer 0)) (p 1, Alloc_inc, Free_write 1 (slot_addr buffer 0))"
    using pool_step.free_dec [of "p 2"] by (simp add: p_def)
  have 2: "pool_step (p 1, Alloc_inc, f) (p 2, Alloc_read 1, f)" for f
    using pool_step.alloc_inc [of "p 1"] by (simp add: p_def pool_consts)
  have 3: "pool_step (p 2, Alloc_read 1, f) (p 2, Alloc_done (slot_addr buffer 1), f)" for f
    using pool_step.alloc_read [of "p 2" 1] by (simp add: p_def pool_consts)
  have 4: "pool_step (p 2, a, Free_write 1 x) ((p 2)\<lparr> m_slots := (m_slots (p 2))[1 := x] \<rparr>, a, Free_done)" for a x
    by (rule pool_step.free_write)
  show ?thesis unfolding s
    by (intro exI conjI, rule g, rule g) (blast intro: 1 2 3 4 converse_rtranclp_into_rtranclp)
qed

text \<open>Witness: a page at 0x2000.\<close>
theorem pool_race_witness:
  "buffer_ok 0x2000 \<and> (\<exists>p1 p2 p3. try_get_slot p1 = (slot_addr 0x2000 1, p2) \<and>
    pool_step\<^sup>*\<^sup>* (p2, Alloc_inc, Free_dec (slot_addr 0x2000 0)) (p3, Alloc_done (slot_addr 0x2000 1), Free_done))"
  using pool_race [OF sample_buffer_ok] sample_buffer_ok by blast

end
