(* ===== verification/Runtime_Init.thy ===== *)
theory Runtime_Init
  imports Exc_Memory
begin

text \<open>
  Start and end of a driver: \<^verbatim>\<open>KtlDriverEntry\<close> and \<^verbatim>\<open>KtlDriverUnload\<close> (\<^verbatim>\<open>basic_runtime.cpp\<close>), the calls of
  global constructors and destructors, \<^verbatim>\<open>atexit\<close> and the construction of arrays
  (\<^verbatim>\<open>object_management.cpp\<close>), the preload initializers (\<^verbatim>\<open>preload_initializer.cpp\<close>).

  A function pointer is a number, 0 is the null pointer. What the functions of a driver do is a
  parameter (\<open>driver_code\<close>): constructors, destructors and the driver's unload routine change the
  state, initializers and \<^verbatim>\<open>DriverEntry\<close> also return a status. The field \<open>calls\<close> of the state records the
  calls; only the driver's code writes it. Assertions are compiled out of release builds.
\<close>

section \<open>State\<close>

type_synonym handler = nat

definition MAX_DESTRUCTOR_COUNT :: nat where "MAX_DESTRUCTOR_COUNT = 128"
definition MAX_INITIALIZER_COUNT :: nat where "MAX_INITIALIZER_COUNT = 32"

record crt =
  destructor_stack :: "handler list"
  destructor_count :: u32
  m_initializers :: "handler list"
  m_size :: nat
  m_fired :: bool
  custom_unload :: handler
  DriverUnload :: handler
  calls :: "handler list"

definition initial_crt :: crt where
  "initial_crt = \<lparr> destructor_stack = replicate MAX_DESTRUCTOR_COUNT 0, destructor_count = 0,
     m_initializers = replicate MAX_INITIALIZER_COUNT 0, m_size = 0, m_fired = False,
     custom_unload = 0, DriverUnload = 0, calls = [] \<rparr>"

record driver_code =
  run_handler :: "handler \<Rightarrow> crt \<Rightarrow> crt"
  run_initializer :: "handler \<Rightarrow> crt \<Rightarrow> int \<times> crt"
  DriverEntry :: "crt \<Rightarrow> int \<times> crt"

definition NT_SUCCESS :: "int \<Rightarrow> bool" where
  "NT_SUCCESS status \<longleftrightarrow> status \<ge> 0"

section \<open>Global objects\<close>

fun invoke_global_constructors :: "driver_code \<Rightarrow> handler list \<Rightarrow> crt \<Rightarrow> crt" where
  "invoke_global_constructors u [] s = s"
| "invoke_global_constructors u (ctor # ctors) s =
     invoke_global_constructors u ctors (if ctor \<noteq> 0 then run_handler u ctor s else s)"

text \<open>The interlocked increment happens before the bound is checked, and is not undone.\<close>

definition atexit :: "handler \<Rightarrow> crt \<Rightarrow> int \<times> crt" where
  "atexit destructor s =
     (if destructor \<noteq> 0 then
        let s = s\<lparr> destructor_count := destructor_count s + 1 \<rparr>; idx = unat (destructor_count s - 1)
        in if idx < MAX_DESTRUCTOR_COUNT then (0, s\<lparr> destructor_stack := (destructor_stack s)[idx := destructor] \<rparr>)
           else (1, s)
      else (1, s))"

text \<open>A read outside of the array and the call of a null pointer are undefined (\<open>None\<close>).\<close>

fun destructor_loop :: "driver_code \<Rightarrow> nat \<Rightarrow> crt \<Rightarrow> crt option" where
  "destructor_loop u 0 s = Some s"
| "destructor_loop u (Suc idx) s =
     (case rd (destructor_stack s) idx of
        None \<Rightarrow> None
      | Some destructor \<Rightarrow> if destructor = 0 then None else destructor_loop u idx (run_handler u destructor s))"

definition invoke_global_destructors :: "driver_code \<Rightarrow> crt \<Rightarrow> crt option" where
  "invoke_global_destructors u s =
     map_option (\<lambda>s. s\<lparr> destructor_count := 0 \<rparr>) (destructor_loop u (unat (destructor_count s)) s)"

section \<open>Arrays\<close>

text \<open>\<open>'s\<close> is the state the constructor and the destructor of the elements work on; a constructor may
  throw. The loop returns the index it reached.\<close>

fun construct_loop ::
  "(addr \<Rightarrow> 's \<Rightarrow> 'e option \<times> 's) \<Rightarrow> addr \<Rightarrow> addr \<Rightarrow> nat \<Rightarrow> nat \<Rightarrow> 's \<Rightarrow> 'e option \<times> nat \<times> 's" where
  "construct_loop constructor current_obj element_size idx 0 s = (None, idx, s)"
| "construct_loop constructor current_obj element_size idx (Suc n) s =
     (case constructor current_obj s of
        (Some e, s) \<Rightarrow> (Some e, idx, s)
      | (None, s) \<Rightarrow> construct_loop constructor (current_obj + element_size) element_size (Suc idx) n s)"

fun destroy_down :: "(addr \<Rightarrow> 's \<Rightarrow> 's) \<Rightarrow> addr \<Rightarrow> addr \<Rightarrow> nat \<Rightarrow> 's \<Rightarrow> 's" where
  "destroy_down destructor current_obj element_size 0 s = s"
| "destroy_down destructor current_obj element_size (Suc count) s =
     destroy_down destructor (current_obj - element_size) element_size count (destructor (current_obj - element_size) s)"

definition destroy_array_in_reversed_order :: "addr \<Rightarrow> addr \<Rightarrow> nat \<Rightarrow> (addr \<Rightarrow> 's \<Rightarrow> 's) \<Rightarrow> 's \<Rightarrow> 's" where
  "destroy_array_in_reversed_order arr_begin element_size count destructor =
     destroy_down destructor (arr_begin + element_size * of_nat count) element_size count"

definition construct_array ::
  "addr \<Rightarrow> addr \<Rightarrow> nat \<Rightarrow> (addr \<Rightarrow> 's \<Rightarrow> 'e option \<times> 's) \<Rightarrow> (addr \<Rightarrow> 's \<Rightarrow> 's) \<Rightarrow> 's \<Rightarrow> 'e option \<times> 's" where
  "construct_array arr_begin element_size count constructor destructor s =
     (case construct_loop constructor arr_begin element_size 0 count s of
        (None, idx, s) \<Rightarrow> (None, s)
      | (Some e, idx, s) \<Rightarrow> (Some e, destroy_array_in_reversed_order arr_begin element_size idx destructor s))"

section \<open>Preload initializers\<close>

definition registry_add :: "handler \<Rightarrow> crt \<Rightarrow> bool \<times> crt" where
  "registry_add obj s =
     (if m_fired s \<or> m_size s \<ge> MAX_INITIALIZER_COUNT then (False, s)
      else (True, s\<lparr> m_initializers := (m_initializers s)[m_size s := obj], m_size := m_size s + 1 \<rparr>))"

fun run_entries :: "driver_code \<Rightarrow> handler list \<Rightarrow> crt \<Rightarrow> int \<times> crt" where
  "run_entries u [] s = (0, s)"
| "run_entries u (entry # entries) s =
     (let (result, s) = run_initializer u entry s
      in if NT_SUCCESS result then run_entries u entries s else (result, s))"

text \<open>After \<^verbatim>\<open>m_fired\<close> is set nothing is added, so the entries are those there are at the start.\<close>

definition run_all :: "driver_code \<Rightarrow> crt \<Rightarrow> int \<times> crt" where
  "run_all u s = run_entries u (take (m_size s) (m_initializers s)) (s\<lparr> m_fired := True \<rparr>)"

section \<open>Entry and unload of the driver\<close>

definition KtlDriverUnload :: "driver_code \<Rightarrow> crt \<Rightarrow> crt option" where
  "KtlDriverUnload u s =
     invoke_global_destructors u (if custom_unload s \<noteq> 0 then run_handler u (custom_unload s) s else s)"

text \<open>\<open>unload_address\<close> is the address of \<^verbatim>\<open>KtlDriverUnload\<close>; \<open>ctors\<close> the table the linker collects between
  \<^verbatim>\<open>__cxx_ctors_begin__\<close> and \<^verbatim>\<open>__cxx_ctors_end__\<close>. The checks of the stack cookie and the initialisation
  of the kernel's pool do not change the state.\<close>

definition KtlDriverEntry :: "driver_code \<Rightarrow> handler \<Rightarrow> handler list \<Rightarrow> crt \<Rightarrow> (int \<times> crt) option" where
  "KtlDriverEntry u unload_address ctors s =
     (let s = invoke_global_constructors u ctors s; (init_status, s) = run_all u s
      in if \<not> NT_SUCCESS init_status then map_option (Pair init_status) (KtlDriverUnload u s)
         else let (init_status, s) = DriverEntry u s
              in if \<not> NT_SUCCESS init_status then map_option (Pair init_status) (KtlDriverUnload u s)
                 else Some (0, if custom_unload s = 0
                               then s\<lparr> custom_unload := DriverUnload s, DriverUnload := unload_address \<rparr> else s))"

end
