(* ===== verification/Runtime_Init_Spec.thy ===== *)
theory Runtime_Init_Spec
  imports Runtime_Init
begin

text \<open>
  Properties of the start and end of a driver: the order of construction and destruction of
  arrays and of global objects, the sequence of calls of a driver over its lifetime, and what
  happens when more destructors are registered than the runtime has room for.
\<close>

section \<open>Arrays\<close>

definition element :: "addr \<Rightarrow> addr \<Rightarrow> nat \<Rightarrow> addr" where
  "element arr_begin element_size i = arr_begin + element_size * of_nat i"

text \<open>\<open>constructs ctor as s s'\<close>: constructing the objects at the addresses \<open>as\<close> in order throws nothing and
  leads from \<open>s\<close> to \<open>s'\<close>.\<close>

fun constructs :: "(addr \<Rightarrow> 's \<Rightarrow> 'e option \<times> 's) \<Rightarrow> addr list \<Rightarrow> 's \<Rightarrow> 's \<Rightarrow> bool" where
  "constructs ctor [] s s' \<longleftrightarrow> s = s'"
| "constructs ctor (a # as) s s' \<longleftrightarrow> fst (ctor a s) = None \<and> constructs ctor as (snd (ctor a s)) s'"

lemma element_simps:
  "element a z 0 = a" "element a z (Suc i) = element (a + z) z i" "element a z (Suc i) - z = element a z i"
  by (simp_all add: element_def algebra_simps)

lemma construct_loop_result:
  "construct_loop ctor a z j n s = (r, k, s') \<Longrightarrow>
     (r = None \<and> k = j + n \<and> constructs ctor (map (element a z) [0..<n]) s s') \<or>
     (\<exists>e i t. r = Some e \<and> k = j + i \<and> i < n \<and> constructs ctor (map (element a z) [0..<i]) s t \<and>
        ctor (element a z i) t = (Some e, s'))"
proof (induction n arbitrary: a j s)
  case (Suc n)
  have shift: "map (element a z) [0..<Suc m] = a # map (element (a + z) z) [0..<m]" for m
    by (simp add: map_upt_Suc element_simps del: upt_Suc)
  show ?case
  proof (cases "ctor a s")
    case (Pair r1 s1)
    show ?thesis
    proof (cases r1)
      case None
      from Suc.IH [of "a + z" "Suc j" s1] Suc.prems Pair None show ?thesis
        by (auto simp: shift element_simps simp del: upt_Suc intro!: exI [of _ "Suc _"])
    next
      case (Some e)
      then show ?thesis using Suc.prems Pair by (auto simp: element_simps intro!: exI [of _ 0])
    qed
  qed
qed simp

lemma destroy_down_fold: "destroy_down dtor (element a z n) z n s = fold dtor (rev (map (element a z) [0..<n])) s"
  by (induction n arbitrary: s) (simp_all add: element_simps(3) del: of_nat_Suc)

text \<open>
  constructing an array either constructs its elements in increasing order, or, when the
  constructor of element \<open>i\<close> throws, has constructed the elements before it and destroys exactly
  these in decreasing order before the exception leaves.
\<close>
theorem construct_array_all_or_nothing:
  "(\<exists>s'. constructs ctor (map (element a z) [0..<n]) s s' \<and> construct_array a z n ctor dtor s = (None, s')) \<or>
   (\<exists>e i t s'. i < n \<and> constructs ctor (map (element a z) [0..<i]) s t \<and> ctor (element a z i) t = (Some e, s') \<and>
      construct_array a z n ctor dtor s = (Some e, fold dtor (rev (map (element a z) [0..<i])) s'))"
proof -
  obtain r k s' where l: "construct_loop ctor a z 0 n s = (r, k, s')" by (cases "construct_loop ctor a z 0 n s") auto
  have d: "destroy_array_in_reversed_order a z i dtor s = fold dtor (rev (map (element a z) [0..<i])) s" for i s
    using destroy_down_fold [of dtor a z i s] by (simp add: destroy_array_in_reversed_order_def element_def)
  from construct_loop_result [OF l] show ?thesis
    by (auto simp: construct_array_def l d) blast
qed

section \<open>Registered destructors\<close>

definition stacked :: "handler list \<Rightarrow> crt \<Rightarrow> bool" where
  "stacked ds s \<longleftrightarrow> length (destructor_stack s) = MAX_DESTRUCTOR_COUNT \<and> length ds \<le> MAX_DESTRUCTOR_COUNT \<and>
     take (length ds) (destructor_stack s) = ds \<and> destructor_count s = of_nat (length ds) \<and> 0 \<notin> set ds"

definition registered :: "handler list \<Rightarrow> crt \<Rightarrow> bool" where
  "registered is s \<longleftrightarrow> length (m_initializers s) = MAX_INITIALIZER_COUNT \<and> length is \<le> MAX_INITIALIZER_COUNT \<and>
     m_size s = length is \<and> take (length is) (m_initializers s) = is \<and> \<not> m_fired s"

lemma unat_count: "n \<le> MAX_DESTRUCTOR_COUNT \<Longrightarrow> unat (of_nat n :: u32) = n"
  by (simp add: MAX_DESTRUCTOR_COUNT_def unat_of_nat)

lemma atexit_stacked:
  assumes "stacked ds s" "d \<noteq> 0" "length ds < MAX_DESTRUCTOR_COUNT"
  shows "atexit d s = (0, s\<lparr> destructor_count := of_nat (Suc (length ds)), destructor_stack := (destructor_stack s)[length ds := d] \<rparr>)"
    and "stacked (ds @ [d]) (snd (atexit d s))"
proof -
  have u: "unat (of_nat (length ds) :: u32) = length ds" using assms(3) by (simp add: unat_count)
  show e: "atexit d s = (0, s\<lparr> destructor_count := of_nat (Suc (length ds)), destructor_stack := (destructor_stack s)[length ds := d] \<rparr>)"
    using assms u by (simp add: atexit_def stacked_def Let_def add.commute)
  show "stacked (ds @ [d]) (snd (atexit d s))"
    using assms unfolding e stacked_def by (simp add: take_Suc_conv_app_nth)
qed

lemma registry_add_registered:
  assumes "registered is s" "length is < MAX_INITIALIZER_COUNT"
  shows "registered (is @ [i]) (snd (registry_add i s))"
  using assms by (simp add: registry_add_def registered_def take_Suc_conv_app_nth)

lemma destructor_loop_calls:
  assumes "\<And>d s. d \<in> set ds \<Longrightarrow> run_handler u d s = s\<lparr> calls := calls s @ [d] \<rparr>"
    "take (length ds) (destructor_stack s) = ds" "0 \<notin> set ds" "length ds \<le> length (destructor_stack s)"
  shows "destructor_loop u (length ds) s = Some (s\<lparr> calls := calls s @ rev ds \<rparr>)"
  using assms
proof (induction ds arbitrary: s rule: rev_induct)
  case (snoc d ds)
  have d: "destructor_stack s ! length ds = d" and t: "take (length ds) (destructor_stack s) = ds"
    using snoc.prems(2,4) by (simp_all add: take_Suc_conv_app_nth)
  show ?case
    using snoc.IH [of "s\<lparr> calls := calls s @ [d] \<rparr>"] snoc.prems d t by simp
qed simp

lemma invoke_global_destructors_calls:
  assumes "stacked ds s" "\<And>d s. d \<in> set ds \<Longrightarrow> run_handler u d s = s\<lparr> calls := calls s @ [d] \<rparr>"
  shows "invoke_global_destructors u s = Some (s\<lparr> calls := calls s @ rev ds, destructor_count := 0 \<rparr>)"
  using assms destructor_loop_calls [of ds u s] by (simp add: invoke_global_destructors_def stacked_def unat_count)

section \<open>The life of a driver\<close>

text \<open>The constructor of a global object \<open>h\<close>: the driver's part of it, the registration of the object as a
  preload initializer when it is one (\<open>init h \<noteq> 0\<close>), and that of its destructor when it has one.\<close>

definition construct_global :: "(handler \<Rightarrow> handler) \<Rightarrow> (handler \<Rightarrow> handler) \<Rightarrow> handler \<Rightarrow> crt \<Rightarrow> crt" where
  "construct_global init dtor h s =
     (let s = s\<lparr> calls := calls s @ [h] \<rparr>;
          s = (if init h \<noteq> 0 then snd (registry_add (init h) s) else s)
      in snd (atexit (dtor h) s))"

definition non_null :: "handler list \<Rightarrow> handler list" where
  "non_null = filter (\<lambda>h. h \<noteq> 0)"

text \<open>\<open>ordinary u \<dots>\<close>: a driver whose functions record that they were called, whose global constructors are
  those of \<open>construct_global\<close>, and whose \<^verbatim>\<open>DriverEntry\<close> sets the unload routine \<open>unload\<close>.\<close>

definition ordinary ::
  "driver_code \<Rightarrow> (handler \<Rightarrow> handler) \<Rightarrow> (handler \<Rightarrow> handler) \<Rightarrow> (handler \<Rightarrow> int) \<Rightarrow> handler \<Rightarrow> int \<Rightarrow> handler \<Rightarrow> handler list \<Rightarrow> bool" where
  "ordinary u init dtor status entry entry_status unload ctors \<longleftrightarrow>
     (\<forall>h s. h \<in> set ctors \<and> h \<noteq> 0 \<longrightarrow> run_handler u h s = construct_global init dtor h s) \<and>
     (\<forall>d s. d = unload \<or> d \<in> set (non_null (map dtor ctors)) \<longrightarrow> run_handler u d s = s\<lparr> calls := calls s @ [d] \<rparr>) \<and>
     (\<forall>i s. run_initializer u i s = (status i, s\<lparr> calls := calls s @ [i] \<rparr>)) \<and>
     (\<forall>s. DriverEntry u s = (entry_status, s\<lparr> calls := calls s @ [entry], DriverUnload := unload \<rparr>))"

lemma construct_global_ok:
  assumes s: "stacked ds s" and i: "registered is s"
    and l: "length (ds @ non_null [dtor h]) \<le> MAX_DESTRUCTOR_COUNT" "length (is @ non_null [init h]) \<le> MAX_INITIALIZER_COUNT"
  shows "stacked (ds @ non_null [dtor h]) (construct_global init dtor h s)"
    and "registered (is @ non_null [init h]) (construct_global init dtor h s)"
    and "calls (construct_global init dtor h s) = calls s @ [h]"
    and "custom_unload (construct_global init dtor h s) = custom_unload s"
proof -
  let ?s = "s\<lparr> calls := calls s @ [h] \<rparr>"
  let ?t = "if init h \<noteq> 0 then snd (registry_add (init h) ?s) else ?s"
  have "stacked ds ?s" "registered is ?s" using s i by (simp_all add: stacked_def registered_def)
  then have t: "stacked ds ?t" "registered (is @ non_null [init h]) ?t" "calls ?t = calls s @ [h]" "custom_unload ?t = custom_unload s"
    using registry_add_registered [of "is" ?s "init h"] l
    by (auto simp: non_null_def registry_add_def stacked_def)
  have d: "dtor h \<noteq> 0 \<Longrightarrow> length ds < MAX_DESTRUCTOR_COUNT" using l(1) by (simp add: non_null_def)
  show "stacked (ds @ non_null [dtor h]) (construct_global init dtor h s)"
    using atexit_stacked(2) [OF t(1) _ d] t(1)
    by (auto simp: construct_global_def non_null_def atexit_def Let_def)
  show "registered (is @ non_null [init h]) (construct_global init dtor h s)"
    "calls (construct_global init dtor h s) = calls s @ [h]"
    "custom_unload (construct_global init dtor h s) = custom_unload s"
    using t(2-4) by (auto simp: construct_global_def atexit_def Let_def registered_def)
qed

lemma non_null_Cons: "non_null (h # hs) = non_null [h] @ non_null hs"
  by (simp add: non_null_def)

lemma invoke_global_constructors_ok:
  assumes "\<And>h s. h \<in> set ctors \<Longrightarrow> h \<noteq> 0 \<Longrightarrow> run_handler u h s = construct_global init dtor h s"
    "stacked ds s" "registered is s" "init 0 = 0" "dtor 0 = 0"
    "length (ds @ non_null (map dtor ctors)) \<le> MAX_DESTRUCTOR_COUNT"
    "length (is @ non_null (map init ctors)) \<le> MAX_INITIALIZER_COUNT"
  shows "stacked (ds @ non_null (map dtor ctors)) (invoke_global_constructors u ctors s) \<and>
    registered (is @ non_null (map init ctors)) (invoke_global_constructors u ctors s) \<and>
    calls (invoke_global_constructors u ctors s) = calls s @ non_null ctors \<and>
    custom_unload (invoke_global_constructors u ctors s) = custom_unload s"
  using assms
proof (induction ctors arbitrary: ds "is" s)
  case Nil
  then show ?case by (simp add: non_null_def)
next
  case (Cons h hs)
  show ?case
  proof (cases "h = 0")
    case True
    then show ?thesis using Cons.IH [of ds s "is"] Cons.prems by (simp add: non_null_def)
  next
    case False
    let ?s = "construct_global init dtor h s"
    have e: "run_handler u h s = ?s" using Cons.prems(1) False by simp
    have "length (ds @ non_null [dtor h]) \<le> MAX_DESTRUCTOR_COUNT" "length (is @ non_null [init h]) \<le> MAX_INITIALIZER_COUNT"
      using Cons.prems(6,7) non_null_Cons [of "dtor h" "map dtor hs"] non_null_Cons [of "init h" "map init hs"] by simp_all
    note g = construct_global_ok [where init = init and dtor = dtor and h = h, OF Cons.prems(2,3) this]
    show ?thesis
      using Cons.IH [OF _ g(1,2) Cons.prems(4,5)] Cons.prems(1,6,7) False e g(3,4)
        non_null_Cons [of "dtor h" "map dtor hs"] non_null_Cons [of "init h" "map init hs"] non_null_Cons [of h hs]
      by (simp add: non_null_def)
  qed
qed

text \<open>\<open>initializers_run\<close>: the initializers up to the first that fails, which runs too.\<close>

fun initializers_run :: "(handler \<Rightarrow> int) \<Rightarrow> handler list \<Rightarrow> handler list" where
  "initializers_run status [] = []"
| "initializers_run status (i # is) = i # (if status i \<ge> 0 then initializers_run status is else [])"

fun initializers_status :: "(handler \<Rightarrow> int) \<Rightarrow> handler list \<Rightarrow> int" where
  "initializers_status status [] = 0"
| "initializers_status status (i # is) = (if status i \<ge> 0 then initializers_status status is else status i)"

lemma run_entries_calls:
  assumes "\<And>i s. run_initializer u i s = (status i, s\<lparr> calls := calls s @ [i] \<rparr>)"
  shows "run_entries u is s = (initializers_status status is, s\<lparr> calls := calls s @ initializers_run status is \<rparr>)"
  by (induction "is" arbitrary: s) (simp_all add: assms NT_SUCCESS_def)

lemma initializers_run_all: "initializers_status status is \<ge> 0 \<Longrightarrow> initializers_run status is = is"
  by (induction "is") (auto split: if_splits)

text \<open>
  C27: the life of a driver with at most 128 global destructors and 32 preload initializers. The
  global constructors run in the order of the table, then the initializers in the order of
  their registration up to the first that fails, then \<^verbatim>\<open>DriverEntry\<close>. When an initializer or
  \<^verbatim>\<open>DriverEntry\<close> fails, its status is returned after all global objects were destroyed in reverse order.
  Otherwise the driver is loaded, and unloading it calls its own unload routine and then the
  destructors in reverse order, each once: nothing is left registered.
\<close>
theorem driver_lifecycle:
  assumes u: "ordinary u init dtor status entry entry_status unload ctors" and z: "init 0 = 0" "dtor 0 = 0"
    and l: "length (non_null (map dtor ctors)) \<le> 128" "length (non_null (map init ctors)) \<le> 32"
    and ds: "ds = non_null (map dtor ctors)" and ins: "is = non_null (map init ctors)"
  shows "\<exists>s. KtlDriverEntry u unload_address ctors initial_crt =
      Some (if initializers_status status is < 0 then initializers_status status is
            else if entry_status < 0 then entry_status else 0, s) \<and>
    (if initializers_status status is < 0 then
       calls s = non_null ctors @ initializers_run status is @ rev ds
     else if entry_status < 0 then calls s = non_null ctors @ is @ [entry] @ rev ds
     else DriverUnload s = unload_address \<and>
       (\<exists>s'. KtlDriverUnload u s = Some s' \<and> destructor_count s' = 0 \<and>
          calls s' = non_null ctors @ is @ [entry] @ non_null [unload] @ rev ds))"
proof -
  have c: "\<And>h s. h \<in> set ctors \<Longrightarrow> h \<noteq> 0 \<Longrightarrow> run_handler u h s = construct_global init dtor h s"
    and d: "\<And>x s. x \<in> set ds \<Longrightarrow> run_handler u x s = s\<lparr> calls := calls s @ [x] \<rparr>"
    and un: "\<And>s. run_handler u unload s = s\<lparr> calls := calls s @ [unload] \<rparr>"
    and i: "\<And>x s. run_initializer u x s = (status x, s\<lparr> calls := calls s @ [x] \<rparr>)"
    and en: "\<And>s. DriverEntry u s = (entry_status, s\<lparr> calls := calls s @ [entry], DriverUnload := unload \<rparr>)"
    using u by (simp_all add: ordinary_def ds)
  let ?s = "invoke_global_constructors u ctors initial_crt"
  have "stacked [] initial_crt" "registered [] initial_crt"
    by (simp_all add: stacked_def registered_def initial_crt_def)
  from invoke_global_constructors_ok [OF c this z] l have
    s: "stacked ds ?s" "registered is ?s" "calls ?s = non_null ctors" "custom_unload ?s = 0"
    by (simp_all add: ds ins initial_crt_def MAX_DESTRUCTOR_COUNT_def MAX_INITIALIZER_COUNT_def)
  have ra: "run_all u ?s = (initializers_status status is,
      ?s\<lparr> m_fired := True, calls := non_null ctors @ initializers_run status is \<rparr>)"
    using s(2,3) run_entries_calls [OF i] by (simp add: run_all_def registered_def)
  have gd: "invoke_global_destructors u t = Some (t\<lparr> calls := calls t @ rev ds, destructor_count := 0 \<rparr>)"
    if "destructor_stack t = destructor_stack ?s" "destructor_count t = destructor_count ?s" for t
    using invoke_global_destructors_calls [where s = t, OF _ d] s(1) that by (simp add: stacked_def)
  show ?thesis
    using initializers_run_all [of status "is"] s(4)
    by (simp add: KtlDriverEntry_def KtlDriverUnload_def ra en un gd NT_SUCCESS_def non_null_def Let_def)
qed

text \<open>Witness: two global objects, the second of them a preload initializer with a destructor.\<close>

definition sample_driver :: driver_code where
  "sample_driver = \<lparr>
     run_handler = (\<lambda>h s. if h < 10 then construct_global (\<lambda>h. if h = 2 then 12 else 0) (\<lambda>h. if h = 0 then 0 else 20 + h) h s
                          else s\<lparr> calls := calls s @ [h] \<rparr>),
     run_initializer = (\<lambda>i s. (0, s\<lparr> calls := calls s @ [i] \<rparr>)),
     DriverEntry = (\<lambda>s. (-1, s\<lparr> calls := calls s @ [30], DriverUnload := 40 \<rparr>)) \<rparr>"

theorem driver_lifecycle_witness:
  "ordinary sample_driver (\<lambda>h. if h = 2 then 12 else 0) (\<lambda>h. if h = 0 then 0 else 20 + h) (\<lambda>_. 0) 30 (-1) 40 [0, 1, 2, 0] \<and>
   (\<exists>s. KtlDriverEntry sample_driver 50 [0, 1, 2, 0] initial_crt = Some (-1, s) \<and> calls s = [1, 2, 12, 30, 22, 21])"
proof -
  have o: "ordinary sample_driver (\<lambda>h. if h = 2 then 12 else 0) (\<lambda>h. if h = 0 then 0 else 20 + h) (\<lambda>_. 0) 30 (-1) 40 [0, 1, 2, 0]"
    by (auto simp: ordinary_def sample_driver_def non_null_def)
  show ?thesis
    using o driver_lifecycle [OF o, of _ _ 50] by (simp add: non_null_def)
qed

text \<open>
  registering destructors with \<^verbatim>\<open>atexit\<close> counts also those that were refused. The calls of
  the registered destructors are undefined (the loop reads behind the array) exactly when more
  than 128 were registered, and otherwise are made in reverse order.
\<close>
theorem atexit_overflow:
  assumes "0 \<notin> set ds" "length ds < 2 ^ 32" "\<forall>d s. d \<in> set ds \<longrightarrow> run_handler u d s = s\<lparr> calls := calls s @ [d] \<rparr>"
  shows "map_option calls (invoke_global_destructors u (fold (\<lambda>d s. snd (atexit d s)) ds initial_crt)) =
    (if length ds \<le> 128 then Some (rev ds) else None)"
proof -
  let ?f = "\<lambda>d s. snd (atexit d s)"
  have len: "destructor_count (fold ?f xs s) = destructor_count s + of_nat (length xs) \<and>
      length (destructor_stack (fold ?f xs s)) = length (destructor_stack s) \<and> calls (fold ?f xs s) = calls s"
    if "0 \<notin> set xs" for xs s
    using that
  proof (induction xs arbitrary: s)
    case (Cons d xs)
    then show ?case using Cons.IH [of "?f d s"] by (auto simp: atexit_def Let_def)
  qed simp
  have st: "stacked xs (fold ?f xs initial_crt)" if "0 \<notin> set xs" "length xs \<le> 128" for xs
    using that
  proof (induction xs rule: rev_induct)
    case (snoc d xs)
    then show ?case
      using atexit_stacked(2) [of xs "fold ?f xs initial_crt" d] by (simp add: MAX_DESTRUCTOR_COUNT_def)
  qed (simp add: stacked_def initial_crt_def)
  show ?thesis
  proof (cases "length ds \<le> 128")
    case True
    then show ?thesis
      using invoke_global_destructors_calls [OF st] len [OF assms(1), of initial_crt] assms(1,3)
      by (simp add: initial_crt_def)
  next
    case False
    then obtain n where n: "length ds = Suc n" "128 \<le> n" by (cases "length ds") auto
    have "unat (destructor_count (fold ?f ds initial_crt)) = Suc n"
      using len [OF assms(1), of initial_crt] assms(2) n by (simp add: initial_crt_def unat_of_nat del: of_nat_Suc)
    then show ?thesis
      using False n len [OF assms(1), of initial_crt]
      by (simp add: invoke_global_destructors_def rd_def initial_crt_def MAX_DESTRUCTOR_COUNT_def)
  qed
qed

text \<open>Witness: 129 destructors.\<close>
theorem atexit_overflow_witness:
  "(0 :: nat) \<notin> set (replicate 129 22) \<and> length (replicate 129 (22 :: nat)) < 2 ^ 32 \<and>
   map_option calls (invoke_global_destructors sample_driver (fold (\<lambda>d s. snd (atexit d s)) (replicate 129 22) initial_crt)) = None"
  using atexit_overflow [of "replicate 129 22" sample_driver] by (simp add: sample_driver_def)

end
