(* ===== verification/Bulk_Pool.thy ===== *)
theory Bulk_Pool
  imports Ktl_Prelude
begin

text \<open>
  \<^verbatim>\<open>BulkPoolAllocator\<close> (\<^verbatim>\<open>hash_table_impl.hpp\<close>): storage for single objects, taken from larger blocks. The
  allocator has no memory of its own: the list of free objects runs through the objects
  themselves (\<^verbatim>\<open>mHead\<close>), the list of blocks through the first word of each block (\<^verbatim>\<open>mListForFree\<close>).

  The memory that holds the links is a function from addresses to addresses, shared with the users
  of the objects: who owns an object may write to it. Addresses are natural numbers, 0 is the null
  pointer. The bytes allocator is not part of this class: an operation that allocates takes the
  address of the new block, 0 when the allocation throws.
\<close>

section \<open>Layout\<close>

record layout =
  size_of :: nat
  align_of :: nat
  MinNumAllocs :: nat
  MaxNumAllocs :: nat

definition ALIGNMENT :: "layout \<Rightarrow> nat" where
  "ALIGNMENT t = max (align_of t) 8"

definition ALIGNED_SIZE :: "layout \<Rightarrow> nat" where
  "ALIGNED_SIZE t = ((size_of t - 1) div ALIGNMENT t + 1) * ALIGNMENT t"

type_synonym pointer = nat

record bulk_pool =
  mHead :: pointer
  mListForFree :: pointer

text \<open>\<open>returned\<close> records the blocks given back to the bytes allocator, with the sizes passed to it.\<close>

record pool_world =
  links :: "pointer \<Rightarrow> pointer"
  returned :: "(pointer \<times> nat) list"

section \<open>Operations\<close>

text \<open>The loop of \<open>calcNumElementsToAlloc\<close>; the conjunct \<open>0 < numAllocs\<close> is the static assertion
  \<^verbatim>\<open>MinNumAllocs >= 1\<close>.\<close>

function calc_num_allocs :: "nat \<Rightarrow> (pointer \<Rightarrow> pointer) \<Rightarrow> nat \<Rightarrow> pointer \<Rightarrow> nat" where
  "calc_num_allocs max_num m numAllocs tmp =
     (if numAllocs * 2 \<le> max_num \<and> tmp \<noteq> 0 \<and> 0 < numAllocs
      then calc_num_allocs max_num m (numAllocs * 2) (m tmp) else numAllocs)"
  by pat_completeness auto
termination
  by (relation "measure (\<lambda>(max_num, m, numAllocs, tmp). max_num - numAllocs)") auto

declare calc_num_allocs.simps [simp del]

definition calcNumElementsToAlloc :: "layout \<Rightarrow> pool_world \<Rightarrow> bulk_pool \<Rightarrow> nat" where
  "calcNumElementsToAlloc t w p = calc_num_allocs (MaxNumAllocs t) (links w) (MinNumAllocs t) (mListForFree p)"

fun link_elements :: "pointer \<Rightarrow> nat \<Rightarrow> nat \<Rightarrow> (pointer \<Rightarrow> pointer) \<Rightarrow> pointer \<Rightarrow> pointer" where
  "link_elements head step 0 m = m"
| "link_elements head step (Suc i) m = (link_elements head step i m)(head + i * step := head + (i + 1) * step)"

definition pool_add :: "layout \<Rightarrow> pointer \<Rightarrow> nat \<Rightarrow> pool_world \<times> bulk_pool \<Rightarrow> pool_world \<times> bulk_pool" where
  "pool_add t ptr numBytes = (\<lambda>(w, p).
     let numElements = (numBytes - ALIGNMENT t) div ALIGNED_SIZE t;
         m = (links w)(ptr := mListForFree p);
         head = ptr + ALIGNMENT t;
         m = link_elements head (ALIGNED_SIZE t) numElements m;
         m = m(head + (numElements - 1) * ALIGNED_SIZE t := mHead p)
     in (w\<lparr> links := m \<rparr>, \<lparr> mHead = head, mListForFree = ptr \<rparr>))"

definition addOrFree :: "layout \<Rightarrow> pointer \<Rightarrow> nat \<Rightarrow> pool_world \<times> bulk_pool \<Rightarrow> pool_world \<times> bulk_pool" where
  "addOrFree t ptr numBytes = (\<lambda>(w, p).
     if numBytes < ALIGNMENT t + ALIGNED_SIZE t then (w\<lparr> returned := (ptr, numBytes) # returned w \<rparr>, p)
     else pool_add t ptr numBytes (w, p))"

definition alloc_size :: "layout \<Rightarrow> pool_world \<Rightarrow> bulk_pool \<Rightarrow> nat" where
  "alloc_size t w p = ALIGNMENT t + ALIGNED_SIZE t * calcNumElementsToAlloc t w p"

definition performAllocation ::
  "layout \<Rightarrow> pointer \<Rightarrow> pool_world \<times> bulk_pool \<Rightarrow> pointer outcome \<times> pool_world \<times> bulk_pool" where
  "performAllocation t block = (\<lambda>(w, p).
     if block = 0 then (Throw BadAlloc, w, p)
     else let (w, p) = pool_add t block (alloc_size t w p) (w, p) in (Ret (mHead p), w, p))"

definition pool_allocate ::
  "layout \<Rightarrow> pointer \<Rightarrow> pool_world \<times> bulk_pool \<Rightarrow> pointer outcome \<times> pool_world \<times> bulk_pool" where
  "pool_allocate t block = (\<lambda>(w, p).
     case (if mHead p = 0 then performAllocation t block (w, p) else (Ret (mHead p), w, p)) of
       (Throw e, w, p) \<Rightarrow> (Throw e, w, p)
     | (Ret tmp, w, p) \<Rightarrow> (Ret tmp, w, p\<lparr> mHead := links w tmp \<rparr>))"

definition pool_deallocate :: "pointer \<Rightarrow> pool_world \<times> bulk_pool \<Rightarrow> pool_world \<times> bulk_pool" where
  "pool_deallocate obj = (\<lambda>(w, p). (w\<lparr> links := (links w)(obj := mHead p) \<rparr>, p\<lparr> mHead := obj \<rparr>))"

text \<open>The loop of \<open>reset\<close> follows the blocks; it does not return (\<open>None\<close>) when they form a cycle. Every block is
  returned with the size of one object.\<close>

partial_function (option) reset_loop :: "layout \<Rightarrow> pool_world \<times> bulk_pool \<Rightarrow> (pool_world \<times> bulk_pool) option" where
  "reset_loop t s =
     (if mListForFree (snd s) = 0 then Some s
      else reset_loop t
        ((fst s)\<lparr> returned := (mListForFree (snd s), ALIGNED_SIZE t) # returned (fst s) \<rparr>,
         (snd s)\<lparr> mListForFree := links (fst s) (mListForFree (snd s)) \<rparr>))"

definition pool_reset :: "layout \<Rightarrow> pool_world \<times> bulk_pool \<Rightarrow> (pool_world \<times> bulk_pool) option" where
  "pool_reset t s = map_option (\<lambda>(w, p). (w, p\<lparr> mHead := 0 \<rparr>)) (reset_loop t s)"

text \<open>Copies share nothing; a move leaves an empty allocator behind. The results are the new (or assigned)
  allocator and the source.\<close>

definition pool_copy :: "bulk_pool \<Rightarrow> bulk_pool" where
  "pool_copy other = \<lparr> mHead = 0, mListForFree = 0 \<rparr>"

definition pool_move :: "bulk_pool \<Rightarrow> bulk_pool \<times> bulk_pool" where
  "pool_move other = (\<lparr> mHead = mHead other, mListForFree = mListForFree other \<rparr>, \<lparr> mHead = 0, mListForFree = 0 \<rparr>)"

definition pool_move_assign ::
  "layout \<Rightarrow> bulk_pool \<Rightarrow> bulk_pool \<Rightarrow> pool_world \<Rightarrow> (pool_world \<times> bulk_pool \<times> bulk_pool) option" where
  "pool_move_assign t this other w = map_option (\<lambda>(w, _). (w, pool_move other)) (pool_reset t (w, this))"

definition pool_swap :: "bulk_pool \<Rightarrow> bulk_pool \<Rightarrow> bulk_pool \<times> bulk_pool" where
  "pool_swap this other = (other, this)"

end
