(* ===== verification/Bulk_Pool_Spec.thy ===== *)
theory Bulk_Pool_Spec
  imports Bulk_Pool
begin

text \<open>
  Properties of \<^verbatim>\<open>BulkPoolAllocator\<close>. \<open>bulk_reach\<close> are the states of an allocator whose users allocate, free, write
  to the objects they own and hand over blocks; \<open>bulk_inv\<close> says that the free list runs exactly through
  the objects of the allocator's blocks that nobody owns.
\<close>

section \<open>Linked lists in memory\<close>

text \<open>\<open>seg m a xs z\<close>: the links lead from \<open>a\<close> through \<open>xs\<close> to \<open>z\<close>.\<close>

fun seg :: "(pointer \<Rightarrow> pointer) \<Rightarrow> pointer \<Rightarrow> pointer list \<Rightarrow> pointer \<Rightarrow> bool" where
  "seg m a [] z \<longleftrightarrow> a = z"
| "seg m a (x # xs) z \<longleftrightarrow> a = x \<and> x \<noteq> 0 \<and> seg m (m x) xs z"

lemma seg_append: "seg m a (xs @ ys) z \<longleftrightarrow> (\<exists>y. seg m a xs y \<and> seg m y ys z)"
  by (induction xs arbitrary: a) auto

lemma seg_frame: "seg m a xs z \<Longrightarrow> (\<And>x. x \<in> set xs \<Longrightarrow> m' x = m x) \<Longrightarrow> seg m' a xs z"
  by (induction xs arbitrary: a) auto

lemma seg_nonempty: "seg m a xs 0 \<Longrightarrow> a \<noteq> 0 \<Longrightarrow> \<exists>ys. xs = a # ys"
  by (cases xs) auto

section \<open>Blocks and their objects\<close>

definition elements_count :: "layout \<Rightarrow> nat \<Rightarrow> nat" where
  "elements_count t n = (n - ALIGNMENT t) div ALIGNED_SIZE t"

definition element_addr :: "layout \<Rightarrow> pointer \<Rightarrow> nat \<Rightarrow> pointer" where
  "element_addr t b i = b + ALIGNMENT t + i * ALIGNED_SIZE t"

definition elems :: "layout \<Rightarrow> pointer \<times> nat \<Rightarrow> pointer list" where
  "elems t = (\<lambda>(b, n). map (element_addr t b) [0..<elements_count t n])"

definition apart :: "pointer \<times> nat \<Rightarrow> pointer \<times> nat \<Rightarrow> bool" where
  "apart = (\<lambda>(b, n) (c, k). b + n \<le> c \<or> c + k \<le> b)"

definition block_ok :: "layout \<Rightarrow> pointer \<times> nat \<Rightarrow> (pointer \<times> nat) list \<Rightarrow> bool" where
  "block_ok t b bs \<longleftrightarrow> fst b \<noteq> 0 \<and> ALIGNMENT t + ALIGNED_SIZE t \<le> snd b \<and> (\<forall>c \<in> set bs. apart b c)"

fun blocks_ok :: "layout \<Rightarrow> (pointer \<times> nat) list \<Rightarrow> bool" where
  "blocks_ok t [] \<longleftrightarrow> True"
| "blocks_ok t (b # bs) \<longleftrightarrow> block_ok t b bs \<and> blocks_ok t bs"

lemma layout_pos: "0 < ALIGNMENT t" "0 < ALIGNED_SIZE t"
  by (simp_all add: ALIGNMENT_def ALIGNED_SIZE_def max.strict_coboundedI2)

lemma elems_inside:
  assumes "a \<in> set (elems t (b, n))"
  shows "b < a" "a + ALIGNED_SIZE t \<le> b + n"
proof -
  obtain i where i: "i < elements_count t n" "a = b + ALIGNMENT t + i * ALIGNED_SIZE t"
    using assms by (auto simp: elems_def element_addr_def)
  show "b < a" using i layout_pos(1) [of t] by simp
  have "Suc i * ALIGNED_SIZE t \<le> elements_count t n * ALIGNED_SIZE t" using i(1) by (intro mult_le_mono1) simp
  also have "\<dots> \<le> n - ALIGNMENT t" by (simp add: elements_count_def)
  finally have "ALIGNED_SIZE t + i * ALIGNED_SIZE t \<le> n - ALIGNMENT t" by simp
  moreover have "ALIGNMENT t \<le> n"
    using i(1) by (simp add: elements_count_def) (metis div_less diff_is_0_eq div_0 layout_pos(2) less_zeroE linorder_le_cases)
  ultimately show "a + ALIGNED_SIZE t \<le> b + n" using i(2) by linarith
qed

lemma element_addr_inj: "element_addr t b i = element_addr t b j \<longleftrightarrow> i = j"
  using layout_pos(2) [of t] by (auto simp: element_addr_def)

lemma distinct_elems: "distinct (elems t b)"
  by (auto simp: elems_def distinct_map element_addr_inj inj_on_def split: prod.splits)

lemma new_cells_apart:
  assumes "block_ok t b bs" "c \<in> set bs" "a \<in> set (elems t c) \<union> {fst c}" "0 < snd c"
  shows "a \<notin> set (elems t b) \<union> {fst b}"
proof -
  obtain x n y k where bc: "b = (x, n)" "c = (y, k)" by (metis surj_pair)
  have "y \<le> a \<and> a < y + k" using assms(3,4) elems_inside [of a t y k] layout_pos(2) [of t] by (auto simp: bc)
  moreover have "\<not> (x \<le> a \<and> a < x + n)" using assms(1,2) calculation by (auto simp: block_ok_def apart_def bc)
  moreover have "x < x + n" using assms(1) layout_pos [of t] by (simp add: block_ok_def bc)
  ultimately show ?thesis using elems_inside [of a t x n] layout_pos(2) [of t] by (auto simp: bc)
qed

lemma blocks_ok_pos: "blocks_ok t bs \<Longrightarrow> c \<in> set bs \<Longrightarrow> 0 < snd c"
  using layout_pos(1) [of t] by (induction bs) (auto simp: block_ok_def)

lemma header_not_element:
  "blocks_ok t bs \<Longrightarrow> b \<in> set bs \<Longrightarrow> c \<in> set bs \<Longrightarrow> fst b \<notin> set (elems t c)"
proof (induction bs)
  case (Cons d bs)
  have same: "fst d \<notin> set (elems t d)" using elems_inside(1) [of "fst d" t "fst d" "snd d"] by auto
  show ?case
    using Cons new_cells_apart [of t d bs] blocks_ok_pos [of t bs] same by fastforce
qed simp

lemma blocks_distinct: "blocks_ok t bs \<Longrightarrow> distinct (map fst bs)"
proof (induction bs)
  case (Cons b bs)
  have "fst c \<noteq> fst b" if "c \<in> set bs" for c
    using new_cells_apart [of t b bs c "fst c"] that Cons.prems blocks_ok_pos [of t bs c] by simp
  then show ?case using Cons by fastforce
qed simp

section \<open>Linking a new block\<close>

lemma link_elements_other: "(\<And>i. i < n \<Longrightarrow> x \<noteq> head + i * step) \<Longrightarrow> link_elements head step n m x = m x"
  by (induction n) auto

lemma link_elements_at: "0 < step \<Longrightarrow> i < n \<Longrightarrow> link_elements head step n m (head + i * step) = head + (i + 1) * step"
  by (induction n) (auto simp: less_Suc_eq)

lemma seg_step:
  "(\<And>i. i < n \<Longrightarrow> m (f i) = f (Suc i) \<and> f i \<noteq> 0) \<Longrightarrow> seg m (f 0) (map f [0..<n]) (f n)"
  by (induction n) (auto simp: seg_append)

lemma pool_add_seg:
  assumes b: "block_ok t (ptr, n) bs" and r0: "r = pool_add t ptr n (w, p)"
  shows "seg (links (fst r)) (mHead (snd r)) (elems t (ptr, n)) (mHead p)"
    and "links (fst r) ptr = mListForFree p" and "mListForFree (snd r) = ptr"
    and "x \<noteq> ptr \<Longrightarrow> x \<notin> set (elems t (ptr, n)) \<Longrightarrow> links (fst r) x = links w x"
    and "returned (fst r) = returned w"
proof -
  let ?S = "ALIGNED_SIZE t" and ?h = "ptr + ALIGNMENT t" and ?k = "elements_count t n"
  have k: "0 < ?k" using b layout_pos [of t] by (auto simp: elements_count_def block_ok_def div_greater_zero_iff)
  then obtain j where j: "?k = Suc j" by (cases ?k) auto
  let ?base = "(links w)(ptr := mListForFree p)"
  let ?m = "(link_elements ?h ?S ?k ?base)(?h + j * ?S := mHead p)"
  have r: "r = (w\<lparr> links := ?m \<rparr>, \<lparr> mHead = ?h, mListForFree = ptr \<rparr>)"
    using j by (simp add: r0 pool_add_def Let_def elements_count_def)
  have pos: "ptr \<noteq> 0" "0 < ?S" "0 < ALIGNMENT t" using b layout_pos by (auto simp: block_ok_def)
  have e: "element_addr t ptr i = ?h + i * ?S" for i by (simp add: element_addr_def)
  have "?m (element_addr t ptr i) = element_addr t ptr (Suc i) \<and> element_addr t ptr i \<noteq> 0" if "i < j" for i
    using that link_elements_at [of ?S i ?k ?h ?base] j pos by (simp add: e)
  then have "seg ?m (element_addr t ptr 0) (map (element_addr t ptr) [0..<j]) (element_addr t ptr j)"
    by (rule seg_step)
  then show "seg (links (fst r)) (mHead (snd r)) (elems t (ptr, n)) (mHead p)"
    using pos by (simp add: r elems_def j seg_append e)
  show "links (fst r) ptr = mListForFree p"
    using link_elements_other [of ?k ptr ?h ?S ?base] pos by (simp add: r)
  show "mListForFree (snd r) = ptr" "returned (fst r) = returned w" by (simp_all add: r)
  show "links (fst r) x = links w x" if "x \<noteq> ptr" "x \<notin> set (elems t (ptr, n))"
  proof -
    have o: "x \<noteq> ?h + i * ?S" if "i < ?k" for i
      using that \<open>x \<notin> set (elems t (ptr, n))\<close> by (auto simp: elems_def e)
    show ?thesis using link_elements_other [OF o, where m = ?base] o [of j] j \<open>x \<noteq> ptr\<close> by (simp add: r)
  qed
qed

section \<open>Reachable states\<close>

text \<open>The state, the objects its users own, and the blocks with their sizes, the newest first. A block that
  the allocator gets overlaps none of those it has.\<close>

inductive bulk_reach :: "layout \<Rightarrow> pool_world \<times> bulk_pool \<Rightarrow> pointer set \<Rightarrow> (pointer \<times> nat) list \<Rightarrow> bool" for t where
  start: "bulk_reach t (w, \<lparr> mHead = 0, mListForFree = 0 \<rparr>) {} []"
| alloc: "bulk_reach t (w, p) live bs \<Longrightarrow> mHead p \<noteq> 0 \<Longrightarrow> pool_allocate t block (w, p) = (Ret a, s') \<Longrightarrow>
    bulk_reach t s' (insert a live) bs"
| alloc_block: "bulk_reach t (w, p) live bs \<Longrightarrow> mHead p = 0 \<Longrightarrow> block_ok t (block, alloc_size t w p) bs \<Longrightarrow>
    pool_allocate t block (w, p) = (Ret a, s') \<Longrightarrow>
    bulk_reach t s' (insert a live) ((block, alloc_size t w p) # bs)"
| dealloc: "bulk_reach t s live bs \<Longrightarrow> a \<in> live \<Longrightarrow> bulk_reach t (pool_deallocate a s) (live - {a}) bs"
| user_write: "bulk_reach t (w, p) live bs \<Longrightarrow> a \<in> live \<Longrightarrow> bulk_reach t (w\<lparr> links := (links w)(a := v) \<rparr>, p) live bs"
| donate: "bulk_reach t s live bs \<Longrightarrow> block_ok t (block, n) bs \<Longrightarrow> bulk_reach t (addOrFree t block n s) live ((block, n) # bs)"

definition pool_inv :: "layout \<Rightarrow> pool_world \<times> bulk_pool \<Rightarrow> pointer set \<Rightarrow> (pointer \<times> nat) list \<Rightarrow> pointer list \<Rightarrow> bool" where
  "pool_inv t s live bs fs \<longleftrightarrow> blocks_ok t bs \<and> seg (links (fst s)) (mHead (snd s)) fs 0 \<and>
     seg (links (fst s)) (mListForFree (snd s)) (map fst bs) 0 \<and>
     distinct fs \<and> set fs \<inter> live = {} \<and> set fs \<union> live = (\<Union>b \<in> set bs. set (elems t b))"

lemma pool_inv_write:
  assumes "pool_inv t (w, p) live bs fs" "a \<in> live"
  shows "pool_inv t (w\<lparr> links := (links w)(a := v) \<rparr>, p) live bs fs"
proof -
  have "a \<notin> set fs" using assms by (auto simp: pool_inv_def)
  moreover have "a \<notin> set (map fst bs)"
  proof
    assume "a \<in> set (map fst bs)"
    then obtain b where b: "b \<in> set bs" "a = fst b" by auto
    moreover obtain c where "c \<in> set bs" "a \<in> set (elems t c)" using assms by (auto simp: pool_inv_def)
    ultimately show False using header_not_element [of t bs b c] assms(1) by (auto simp: pool_inv_def)
  qed
  ultimately have "seg ((links w)(a := v)) x xs z" if "seg (links w) x xs z" "xs = fs \<or> xs = map fst bs" for x xs z
    using that by (intro seg_frame [OF that(1)]) auto
  then show ?thesis using assms(1) by (simp add: pool_inv_def)
qed

lemma pool_inv_take:
  assumes "pool_inv t (w, p) live bs (a # fs)"
  shows "mHead p = a" "a \<notin> live" "pool_inv t (w, p\<lparr> mHead := links w a \<rparr>) (insert a live) bs fs"
  using assms by (auto simp: pool_inv_def)

lemma pool_inv_add:
  assumes i: "pool_inv t (w, p) live bs fs" and b: "block_ok t (block, n) bs"
  shows "pool_inv t (pool_add t block n (w, p)) live ((block, n) # bs) (elems t (block, n) @ fs)"
proof -
  let ?r = "pool_add t block n (w, p)" and ?E = "elems t (block, n)"
  note a = pool_add_seg [where w = w and p = p, OF b refl]
  have old: "x \<notin> set ?E \<union> {block}" if "c \<in> set bs" "x \<in> set (elems t c) \<union> {fst c}" for x c
    using new_cells_apart [OF b that] blocks_ok_pos [of t bs c] that i by (auto simp: pool_inv_def)
  have cover: "x \<in> set fs \<union> live \<longleftrightarrow> (\<exists>c \<in> set bs. x \<in> set (elems t c))" for x
    using i unfolding pool_inv_def by blast
  have "links (fst ?r) x = links w x" if "x \<in> set fs" for x
    using that cover [of x] old [of _ x] by (intro a(4)) auto
  then have "seg (links (fst ?r)) (mHead p) fs 0"
    using i by (intro seg_frame [where m = "links w" and m' = "links (fst ?r)"]) (auto simp: pool_inv_def)
  moreover have "seg (links (fst ?r)) (mListForFree p) (map fst bs) 0"
    by (rule seg_frame [where m = "links w"]) (use i old a(4) in \<open>auto simp: pool_inv_def\<close>)
  moreover have "set ?E \<inter> set fs = {}" "set ?E \<inter> live = {}" using cover old by blast+
  moreover have "set (?E @ fs) \<union> live = (\<Union>b \<in> set ((block, n) # bs). set (elems t b))"
    using i by (simp add: pool_inv_def Un_assoc)
  ultimately show ?thesis
    using i b a(1-3) distinct_elems [of t "(block, n)"]
    by (simp add: pool_inv_def seg_append block_ok_def Int_Un_distrib2) blast
qed

lemma pool_inv_owned: "pool_inv t s live bs fs \<Longrightarrow> a \<in> live \<Longrightarrow> \<exists>b \<in> set bs. a \<in> set (elems t b)"
proof -
  assume i: "pool_inv t s live bs fs" and "a \<in> live"
  then have "a \<in> set fs \<union> live" by simp
  also have "\<dots> = (\<Union>b \<in> set bs. set (elems t b))" using i by (simp add: pool_inv_def)
  finally show ?thesis by simp
qed

lemma pool_inv_nonzero: "pool_inv t s live bs fs \<Longrightarrow> a \<in> live \<Longrightarrow> a \<noteq> 0"
proof -
  assume "pool_inv t s live bs fs" "a \<in> live"
  then obtain b where "a \<in> set (elems t b)" using pool_inv_owned by blast
  then show ?thesis using elems_inside(1) [of a t "fst b" "snd b"] by simp
qed

lemma bulk_reach_inv: "bulk_reach t s live bs \<Longrightarrow> \<exists>fs. pool_inv t s live bs fs"
proof (induction rule: bulk_reach.induct)
  case (start w)
  then show ?case by (intro exI [of _ "[]"]) (simp add: pool_inv_def)
next
  case (alloc w p live bs block a s')
  then obtain fs where i: "pool_inv t (w, p) live bs fs" by blast
  then obtain gs where fs: "fs = mHead p # gs"
    using alloc.hyps(2) seg_nonempty [of "links w" "mHead p" fs] by (auto simp: pool_inv_def)
  have s': "a = mHead p" "s' = (w, p\<lparr> mHead := links w (mHead p) \<rparr>)"
    using alloc.hyps(2,3) by (auto simp: pool_allocate_def)
  show ?case using pool_inv_take [OF i [unfolded fs]] s' by auto
next
  case (alloc_block w p live bs block a s')
  then obtain fs where i: "pool_inv t (w, p) live bs fs" by blast
  let ?n = "alloc_size t w p"
  obtain w1 p1 where r: "pool_add t block ?n (w, p) = (w1, p1)" by (cases "pool_add t block ?n (w, p)")
  have j: "pool_inv t (w1, p1) live ((block, ?n) # bs) (elems t (block, ?n) @ fs)"
    using pool_inv_add [OF i alloc_block.hyps(3)] r by simp
  have "block \<noteq> 0" using alloc_block.hyps(3) by (simp add: block_ok_def)
  then have s': "a = mHead p1" "s' = (w1, p1\<lparr> mHead := links w1 (mHead p1) \<rparr>)"
    using alloc_block.hyps(2,4) r by (auto simp: pool_allocate_def performAllocation_def)
  have "mHead p1 = block + ALIGNMENT t" using r by (auto simp: pool_add_def Let_def)
  then have "mHead p1 \<noteq> 0" using \<open>block \<noteq> 0\<close> by simp
  then obtain gs where gs: "elems t (block, ?n) @ fs = mHead p1 # gs"
    using j seg_nonempty [of "links w1" "mHead p1" "elems t (block, ?n) @ fs"] by (auto simp: pool_inv_def)
  show ?case using pool_inv_take(3) [OF j [unfolded gs]] s' by blast
next
  case (dealloc s live bs a)
  then obtain fs where i: "pool_inv t s live bs fs" by blast
  obtain w p where s: "s = (w, p)" by (cases s)
  have j: "pool_inv t (w\<lparr> links := (links w)(a := mHead p) \<rparr>, p) live bs fs"
    using pool_inv_write i dealloc.hyps(2) s by simp
  have "a \<noteq> 0" using pool_inv_nonzero [OF i dealloc.hyps(2)] .
  then show ?case
    using j dealloc.hyps(2) by (intro exI [of _ "a # fs"]) (auto simp: pool_inv_def pool_deallocate_def s)
next
  case (user_write w p live bs a v)
  then show ?case using pool_inv_write by blast
next
  case (donate s live bs block n)
  then obtain fs where i: "pool_inv t (fst s, snd s) live bs fs" by auto
  have "addOrFree t block n s = pool_add t block n (fst s, snd s)"
    using donate.hyps(2) by (simp add: addOrFree_def block_ok_def split: prod.splits)
  then show ?case using pool_inv_add [OF i donate.hyps(2)] by auto
qed

lemma reset_loop_returns:
  "seg (links w) (mListForFree p) xs 0 \<Longrightarrow>
     reset_loop t (w, p) = Some (w\<lparr> returned := rev (map (\<lambda>x. (x, ALIGNED_SIZE t)) xs) @ returned w \<rparr>, p\<lparr> mListForFree := 0 \<rparr>)"
proof (induction xs arbitrary: w p)
  case Nil
  then have "p\<lparr> mListForFree := 0 \<rparr> = p" by simp
  then show ?case using Nil by (simp add: reset_loop.simps)
next
  case (Cons x xs)
  let ?w = "w\<lparr> returned := (x, ALIGNED_SIZE t) # returned w \<rparr>" and ?p = "p\<lparr> mListForFree := links w x \<rparr>"
  have "reset_loop t (w, p) = reset_loop t (?w, ?p)" using Cons.prems by (subst reset_loop.simps) simp
  then show ?case using Cons.IH [of ?w ?p] Cons.prems by simp
qed

text \<open>
  C28: whatever sequence of allocations, deallocations, donated blocks and writes to owned objects
  led to the state, each owned object lies inside of one of the allocator's blocks, the next
  allocation from the free list returns an object nobody owns, and \<^verbatim>\<open>reset\<close> terminates and returns
  every block to the bytes allocator, each once and no other.
\<close>
theorem bulk_pool_safe:
  assumes "bulk_reach t (w, p) live bs"
  shows "(\<forall>a. a \<in> live \<longrightarrow> (\<exists>b n i. (b, n) \<in> set bs \<and> a = b + ALIGNMENT t + i * ALIGNED_SIZE t \<and> a + ALIGNED_SIZE t \<le> b + n)) \<and>
    (\<forall>block. mHead p \<noteq> 0 \<longrightarrow> (\<exists>a s'. pool_allocate t block (w, p) = (Ret a, s') \<and> a \<notin> live)) \<and>
    (\<exists>w'. pool_reset t (w, p) = Some (w', \<lparr> mHead = 0, mListForFree = 0 \<rparr>) \<and>
       map fst (returned w') = rev (map fst bs) @ map fst (returned w)) \<and> distinct (map fst bs)"
proof (intro conjI allI impI)
  obtain fs where i: "pool_inv t (w, p) live bs fs" using bulk_reach_inv [OF assms] by blast
  show "\<exists>b n i. (b, n) \<in> set bs \<and> a = b + ALIGNMENT t + i * ALIGNED_SIZE t \<and> a + ALIGNED_SIZE t \<le> b + n" if l: "a \<in> live" for a
  proof -
    obtain c where c: "c \<in> set bs" "a \<in> set (elems t c)" using pool_inv_owned [OF i l] by blast
    obtain b n where bn: "c = (b, n)" by (cases c)
    then obtain j where "a = b + ALIGNMENT t + j * ALIGNED_SIZE t" using c(2) by (auto simp: elems_def element_addr_def)
    then show ?thesis using elems_inside(2) [OF c(2) [unfolded bn]] c(1) bn by blast
  qed
  show "\<exists>a s'. pool_allocate t block (w, p) = (Ret a, s') \<and> a \<notin> live" if "mHead p \<noteq> 0" for block
    using that i seg_nonempty [of "links w" "mHead p" fs] by (auto simp: pool_inv_def pool_allocate_def)
  have "seg (links w) (mListForFree p) (map fst bs) 0" using i by (simp add: pool_inv_def)
  from reset_loop_returns [OF this] show "\<exists>w'. pool_reset t (w, p) = Some (w', \<lparr> mHead = 0, mListForFree = 0 \<rparr>) \<and>
       map fst (returned w') = rev (map fst bs) @ map fst (returned w)"
    by (simp add: pool_reset_def rev_map comp_def)
  show "distinct (map fst bs)" using i by (auto simp: pool_inv_def intro: blocks_distinct)
qed

text \<open>Witness: the first allocation of 16-byte objects takes a block for four of them.\<close>

definition sample_layout :: layout where
  "sample_layout = \<lparr> size_of = 16, align_of = 8, MinNumAllocs = 4, MaxNumAllocs = 256 \<rparr>"

definition sample_links :: "pointer \<Rightarrow> pointer" where
  "sample_links = (\<lambda>_. 0)(0x1000 := 0, 0x1008 := 0x1018, 0x1018 := 0x1028, 0x1028 := 0x1038, 0x1038 := 0)"

theorem bulk_pool_safe_witness:
  "bulk_reach sample_layout (\<lparr> links = sample_links, returned = [] \<rparr>, \<lparr> mHead = 0x1018, mListForFree = 0x1000 \<rparr>) {0x1008} [(0x1000, 72)] \<and>
   (\<exists>w'. pool_reset sample_layout (\<lparr> links = sample_links, returned = [] \<rparr>, \<lparr> mHead = 0x1018, mListForFree = 0x1000 \<rparr>) =
      Some (w', \<lparr> mHead = 0, mListForFree = 0 \<rparr>) \<and> map fst (returned w') = [0x1000])"
proof -
  let ?w = "\<lparr> links = (\<lambda>_. 0), returned = [] \<rparr>" and ?p = "\<lparr> mHead = 0, mListForFree = 0 \<rparr>"
  let ?s = "(\<lparr> links = sample_links, returned = [] \<rparr>, \<lparr> mHead = 0x1018, mListForFree = 0x1000 \<rparr>)"
  have n: "alloc_size sample_layout ?w ?p = 72"
    by (simp add: alloc_size_def calcNumElementsToAlloc_def calc_num_allocs.simps sample_layout_def ALIGNMENT_def ALIGNED_SIZE_def)
  have four: "link_elements h k 4 m = m(h := h + k, h + k := h + 2 * k, h + 2 * k := h + 3 * k, h + 3 * k := h + 4 * k)" for h k m
    by (simp add: numeral_eq_Suc algebra_simps)
  have "pool_allocate sample_layout 0x1000 (?w, ?p) = (Ret 0x1008, ?s)"
    unfolding pool_allocate_def performAllocation_def pool_add_def
    by (simp add: n) (simp add: Let_def four sample_layout_def ALIGNMENT_def ALIGNED_SIZE_def sample_links_def fun_eq_iff)
  moreover have "block_ok sample_layout (0x1000, alloc_size sample_layout ?w ?p) []"
    unfolding n by (simp add: block_ok_def sample_layout_def ALIGNMENT_def ALIGNED_SIZE_def)
  ultimately have r: "bulk_reach sample_layout ?s {0x1008} [(0x1000, 72)]"
    using bulk_reach.alloc_block [OF bulk_reach.start, of sample_layout "0x1000" ?w "0x1008" ?s] n by simp
  show ?thesis using bulk_pool_safe [OF r] r by simp
qed

end
