(* ===== verification/Owner_Ptr.thy ===== *)
theory Owner_Ptr
  imports Ktl_Prelude
begin

text \<open>
  \<^verbatim>\<open>unique_ptr\<close> and \<^verbatim>\<open>intrusive_ptr\<close> (\<^verbatim>\<open>smart_pointer.hpp\<close>) and the comparisons of the smart pointers.

  Pointers are numbers, 0 is null. Deleters and the functions \<^verbatim>\<open>intrusive_ptr_add_ref\<close> and
  \<^verbatim>\<open>intrusive_ptr_release\<close> are code of the client: the model records the calls they get. The lists
  \<open>given\<close> and \<open>taken\<close> (\<open>adopted\<close> and \<open>detached\<close>) record the pointers that enter and leave by way of a raw pointer.
\<close>

text \<open>A program is a sequence of operations; it ends (\<open>None\<close>) at an operation on a destroyed object.\<close>

fun run_ops :: "('op \<Rightarrow> 's \<Rightarrow> 's option) \<Rightarrow> 'op list \<Rightarrow> 's \<Rightarrow> 's option" where
  "run_ops step [] s = Some s"
| "run_ops step (op # ops) s = Option.bind (step op s) (run_ops step ops)"

section \<open>unique_ptr\<close>

record 'd unique_ptr =
  u_ptr :: nat
  u_deleter :: 'd

record 'd u_world =
  deleter_calls :: "(nat \<times> 'd) list"
  given :: "(nat \<times> 'd) list"
  taken :: "(nat \<times> 'd) list"

definition call_deleter :: "'d \<Rightarrow> nat \<Rightarrow> 'd u_world \<Rightarrow> 'd u_world" where
  "call_deleter d target w = w\<lparr> deleter_calls := (target, d) # deleter_calls w \<rparr>"

definition give :: "nat \<Rightarrow> 'd \<Rightarrow> 'd u_world \<Rightarrow> 'd u_world" where
  "give ptr d w = w\<lparr> given := (ptr, d) # given w \<rparr>"

definition unique_construct :: "nat \<Rightarrow> 'd \<Rightarrow> 'd u_world \<Rightarrow> 'd unique_ptr \<times> 'd u_world" where
  "unique_construct ptr d w = (\<lparr> u_ptr = ptr, u_deleter = d \<rparr>, give ptr d w)"

text \<open>\<open>release\<close>: the pointer and the emptied object.\<close>

definition unique_release :: "'d unique_ptr \<Rightarrow> nat \<times> 'd unique_ptr" where
  "unique_release p = (u_ptr p, p\<lparr> u_ptr := 0 \<rparr>)"

text \<open>\<open>enable_delete_null\<close> is the deleter's trait: whether it may be called with null.\<close>

definition unique_reset :: "bool \<Rightarrow> nat \<Rightarrow> 'd unique_ptr \<Rightarrow> 'd u_world \<Rightarrow> 'd unique_ptr \<times> 'd u_world" where
  "unique_reset enable_delete_null ptr p w =
     (let target = u_ptr p; p = p\<lparr> u_ptr := ptr \<rparr>
      in if enable_delete_null then (p, call_deleter (u_deleter p) target w)
         else if target \<noteq> 0 then (p, call_deleter (u_deleter p) target w) else (p, w))"

definition unique_move :: "'d unique_ptr \<Rightarrow> 'd unique_ptr \<times> 'd unique_ptr" where
  "unique_move other = (let (ptr, o') = unique_release other in (\<lparr> u_ptr = ptr, u_deleter = u_deleter other \<rparr>, o'))"

text \<open>Move assignment to a different object; the old object is deleted by the old deleter.\<close>

definition unique_move_assign ::
  "bool \<Rightarrow> 'd unique_ptr \<Rightarrow> 'd unique_ptr \<Rightarrow> 'd u_world \<Rightarrow> 'd unique_ptr \<times> 'd unique_ptr \<times> 'd u_world" where
  "unique_move_assign edn this other w =
     (let (ptr, other) = unique_release other; (this, w) = unique_reset edn ptr this w
      in (this\<lparr> u_deleter := u_deleter other \<rparr>, other, w))"

definition unique_destroy :: "bool \<Rightarrow> 'd unique_ptr \<Rightarrow> 'd u_world \<Rightarrow> 'd u_world" where
  "unique_destroy edn p w = snd (unique_reset edn 0 p w)"

text \<open>Programs over numbered \<^verbatim>\<open>unique_ptr\<close> objects; a destroyed one has no value.\<close>

datatype 'd u_op =
    U_new nat 'd
  | U_move nat
  | U_assign nat nat
  | U_reset nat nat
  | U_release nat
  | U_destroy nat

type_synonym 'd u_state = "'d unique_ptr option list \<times> 'd u_world"

fun u_exec :: "bool \<Rightarrow> 'd u_op \<Rightarrow> 'd u_state \<Rightarrow> 'd u_state option" where
  "u_exec edn (U_new ptr d) (vs, w) = (let (p, w) = unique_construct ptr d w in Some (vs @ [Some p], w))"
| "u_exec edn (U_move i) (vs, w) =
     (case rd vs i of Some (Some p) \<Rightarrow> (let (q, p) = unique_move p in Some (vs[i := Some p] @ [Some q], w)) | _ \<Rightarrow> None)"
| "u_exec edn (U_assign i j) (vs, w) =
     (case (rd vs i, rd vs j) of
        (Some (Some p), Some (Some q)) \<Rightarrow>
          if i = j then Some (vs, w)
          else (let (p, q, w) = unique_move_assign edn p q w in Some (vs[i := Some p, j := Some q], w))
      | _ \<Rightarrow> None)"
| "u_exec edn (U_reset i ptr) (vs, w) =
     (case rd vs i of
        Some (Some p) \<Rightarrow> (let (q, w) = unique_reset edn ptr p w in Some (vs[i := Some q], give ptr (u_deleter p) w))
      | _ \<Rightarrow> None)"
| "u_exec edn (U_release i) (vs, w) =
     (case rd vs i of
        Some (Some p) \<Rightarrow> (let (ptr, q) = unique_release p
                         in Some (vs[i := Some q], w\<lparr> taken := (ptr, u_deleter p) # taken w \<rparr>))
      | _ \<Rightarrow> None)"
| "u_exec edn (U_destroy i) (vs, w) =
     (case rd vs i of Some (Some p) \<Rightarrow> Some (vs[i := None], unique_destroy edn p w) | _ \<Rightarrow> None)"

section \<open>intrusive_ptr\<close>

record i_world =
  add_ref_calls :: "nat list"
  release_calls :: "nat list"
  adopted :: "nat list"
  detached :: "nat list"

definition intrusive_add_ref :: "nat \<Rightarrow> i_world \<Rightarrow> i_world" where
  "intrusive_add_ref ptr w = w\<lparr> add_ref_calls := ptr # add_ref_calls w \<rparr>"

definition intrusive_release :: "nat \<Rightarrow> i_world \<Rightarrow> i_world" where
  "intrusive_release ptr w = w\<lparr> release_calls := ptr # release_calls w \<rparr>"

text \<open>An \<^verbatim>\<open>intrusive_ptr\<close> is its field \<^verbatim>\<open>m_ptr\<close>. Without \<open>add_ref\<close> it adopts a reference of the caller.\<close>

definition intrusive_construct :: "nat \<Rightarrow> bool \<Rightarrow> i_world \<Rightarrow> nat \<times> i_world" where
  "intrusive_construct ptr add_ref w = (ptr, if ptr \<noteq> 0 \<and> add_ref then intrusive_add_ref ptr w else w)"

definition intrusive_copy :: "nat \<Rightarrow> i_world \<Rightarrow> nat \<times> i_world" where
  "intrusive_copy other w = (other, if other \<noteq> 0 then intrusive_add_ref other w else w)"

definition intrusive_detach :: "nat \<Rightarrow> nat \<times> nat" where
  "intrusive_detach p = (p, 0)"

definition intrusive_move :: "nat \<Rightarrow> nat \<times> nat" where
  "intrusive_move other = intrusive_detach other"

definition intrusive_destroy :: "nat \<Rightarrow> i_world \<Rightarrow> i_world" where
  "intrusive_destroy p w = (if p \<noteq> 0 then intrusive_release p w else w)"

definition intrusive_swap :: "nat \<Rightarrow> nat \<Rightarrow> nat \<times> nat" where
  "intrusive_swap this other = (other, this)"

text \<open>\<open>reset\<close> and the assignments build a temporary, swap it in and destroy it with the old value.\<close>

definition intrusive_reset :: "nat \<Rightarrow> bool \<Rightarrow> nat \<Rightarrow> i_world \<Rightarrow> nat \<times> i_world" where
  "intrusive_reset ptr add_ref this w =
     (let (tmp, w) = intrusive_construct ptr add_ref w; (tmp, this) = intrusive_swap tmp this
      in (this, intrusive_destroy tmp w))"

definition intrusive_assign :: "nat \<Rightarrow> nat \<Rightarrow> i_world \<Rightarrow> nat \<times> i_world" where
  "intrusive_assign this other w =
     (let (tmp, w) = intrusive_copy other w; (tmp, this) = intrusive_swap tmp this in (this, intrusive_destroy tmp w))"

definition intrusive_move_assign :: "nat \<Rightarrow> nat \<Rightarrow> i_world \<Rightarrow> nat \<times> nat \<times> i_world" where
  "intrusive_move_assign this other w =
     (let (ptr, other) = intrusive_detach other; (this, w) = intrusive_reset ptr False this w in (this, other, w))"

datatype i_op =
    I_new nat bool
  | I_copy nat
  | I_move nat
  | I_assign nat nat
  | I_move_assign nat nat
  | I_reset nat nat bool
  | I_swap nat nat
  | I_detach nat
  | I_destroy nat

type_synonym i_state = "nat option list \<times> i_world"

definition adopt :: "nat \<Rightarrow> bool \<Rightarrow> i_world \<Rightarrow> i_world" where
  "adopt ptr add_ref w = (if add_ref then w else w\<lparr> adopted := ptr # adopted w \<rparr>)"

fun i_exec :: "i_op \<Rightarrow> i_state \<Rightarrow> i_state option" where
  "i_exec (I_new ptr add_ref) (vs, w) =
     (let (p, w) = intrusive_construct ptr add_ref w in Some (vs @ [Some p], adopt ptr add_ref w))"
| "i_exec (I_copy i) (vs, w) =
     (case rd vs i of Some (Some p) \<Rightarrow> (let (q, w) = intrusive_copy p w in Some (vs @ [Some q], w)) | _ \<Rightarrow> None)"
| "i_exec (I_move i) (vs, w) =
     (case rd vs i of Some (Some p) \<Rightarrow> (let (q, p) = intrusive_move p in Some (vs[i := Some p] @ [Some q], w)) | _ \<Rightarrow> None)"
| "i_exec (I_assign i j) (vs, w) =
     (case (rd vs i, rd vs j) of
        (Some (Some p), Some (Some q)) \<Rightarrow>
          if i = j then Some (vs, w) else (let (p, w) = intrusive_assign p q w in Some (vs[i := Some p], w))
      | _ \<Rightarrow> None)"
| "i_exec (I_move_assign i j) (vs, w) =
     (case (rd vs i, rd vs j) of
        (Some (Some p), Some (Some q)) \<Rightarrow>
          if i = j then Some (vs, w)
          else (let (p, q, w) = intrusive_move_assign p q w in Some (vs[i := Some p, j := Some q], w))
      | _ \<Rightarrow> None)"
| "i_exec (I_reset i ptr add_ref) (vs, w) =
     (case rd vs i of
        Some (Some p) \<Rightarrow> (let (p, w) = intrusive_reset ptr add_ref p w in Some (vs[i := Some p], adopt ptr add_ref w))
      | _ \<Rightarrow> None)"
| "i_exec (I_swap i j) (vs, w) =
     (case (rd vs i, rd vs j) of
        (Some (Some p), Some (Some q)) \<Rightarrow> (let (p, q) = intrusive_swap p q in Some (vs[i := Some p, j := Some q], w))
      | _ \<Rightarrow> None)"
| "i_exec (I_detach i) (vs, w) =
     (case rd vs i of
        Some (Some p) \<Rightarrow> (let (ptr, p) = intrusive_detach p in Some (vs[i := Some p], w\<lparr> detached := ptr # detached w \<rparr>))
      | _ \<Rightarrow> None)"
| "i_exec (I_destroy i) (vs, w) =
     (case rd vs i of Some (Some p) \<Rightarrow> Some (vs[i := None], intrusive_destroy p w) | _ \<Rightarrow> None)"

section \<open>Comparisons\<close>

text \<open>Smart pointers of all kinds compare by the addresses they hold. The operators with \<^verbatim>\<open>nullptr\<close> on the left
  are those of \<^verbatim>\<open>unique_ptr\<close>.\<close>

definition ptr_eq :: "nat \<Rightarrow> nat \<Rightarrow> bool" where "ptr_eq lhs rhs \<longleftrightarrow> lhs = rhs"
definition ptr_ne :: "nat \<Rightarrow> nat \<Rightarrow> bool" where "ptr_ne lhs rhs \<longleftrightarrow> \<not> ptr_eq lhs rhs"
definition ptr_lt :: "nat \<Rightarrow> nat \<Rightarrow> bool" where "ptr_lt lhs rhs \<longleftrightarrow> lhs < rhs"
definition ptr_gt :: "nat \<Rightarrow> nat \<Rightarrow> bool" where "ptr_gt lhs rhs \<longleftrightarrow> ptr_lt rhs lhs"
definition ptr_le :: "nat \<Rightarrow> nat \<Rightarrow> bool" where "ptr_le lhs rhs \<longleftrightarrow> \<not> ptr_gt lhs rhs"
definition ptr_ge :: "nat \<Rightarrow> nat \<Rightarrow> bool" where "ptr_ge lhs rhs \<longleftrightarrow> \<not> ptr_lt lhs rhs"

definition ptr_lt_null :: "nat \<Rightarrow> bool" where "ptr_lt_null ptr \<longleftrightarrow> ptr < 0"
definition ptr_gt_null :: "nat \<Rightarrow> bool" where "ptr_gt_null ptr \<longleftrightarrow> ptr > 0"
definition null_lt_ptr :: "nat \<Rightarrow> bool" where "null_lt_ptr ptr \<longleftrightarrow> ptr_lt_null ptr"
definition null_gt_ptr :: "nat \<Rightarrow> bool" where "null_gt_ptr ptr \<longleftrightarrow> ptr_gt_null ptr"
definition null_le_ptr :: "nat \<Rightarrow> bool" where "null_le_ptr ptr \<longleftrightarrow> \<not> null_gt_ptr ptr"
definition null_ge_ptr :: "nat \<Rightarrow> bool" where "null_ge_ptr ptr \<longleftrightarrow> \<not> null_lt_ptr ptr"

end
