(* ===== verification/Owner_Ptr_Spec.thy ===== *)
theory Owner_Ptr_Spec
  imports Owner_Ptr "HOL-Library.Multiset"
begin

text \<open>
  Ownership through \<^verbatim>\<open>unique_ptr\<close> and \<^verbatim>\<open>intrusive_ptr\<close> as a conservation law: what entered a program is
  what its pointers hold together with what has left it. The locale \<open>conserving\<close> has the law for
  a single step as its assumption and the consequences for programs as its lemmas; it is interpreted
  for both kinds of pointers.
\<close>

section \<open>Conservation\<close>

locale conserving =
  fixes step :: "'op \<Rightarrow> 's \<Rightarrow> 's option" and held inflow outflow :: "'s \<Rightarrow> 'p multiset"
  assumes step_conserves: "step op s = Some s' \<Longrightarrow> inflow s = held s + outflow s \<Longrightarrow> inflow s' = held s' + outflow s'"
begin

lemma run_conserves: "run_ops step ops s = Some s' \<Longrightarrow> inflow s = held s + outflow s \<Longrightarrow> inflow s' = held s' + outflow s'"
  by (induction ops arbitrary: s) (auto simp: bind_eq_Some_conv dest: step_conserves)

lemma nothing_leaves_twice:
  assumes "run_ops step ops s = Some s'" "inflow s = held s + outflow s"
  shows "count (held s') p + count (outflow s') p = count (inflow s') p"
  using run_conserves [OF assms] by simp

end

section \<open>Sums over the variables of a program\<close>

definition total :: "('a \<Rightarrow> 'b multiset) \<Rightarrow> 'a option list \<Rightarrow> 'b multiset" where
  "total f vs = sum_list (map (\<lambda>v. case v of None \<Rightarrow> {#} | Some p \<Rightarrow> f p) vs)"

lemma total_simps [simp]:
  "total f [] = {#}"
  "total f (vs @ [Some p]) = total f vs + f p"
  by (simp_all add: total_def)

lemma total_update:
  "i < length vs \<Longrightarrow> vs ! i = Some p \<Longrightarrow>
     total f (vs[i := v]) + f p = total f vs + (case v of None \<Rightarrow> {#} | Some q \<Rightarrow> f q)"
proof (induction vs arbitrary: i)
  case (Cons x xs)
  then show ?case by (cases i) (auto simp: total_def add_ac)
qed simp

lemma total_update_same: "i < length vs \<Longrightarrow> vs ! i = Some p \<Longrightarrow> f q = f p \<Longrightarrow> total f (vs[i := Some q]) = total f vs"
  using total_update [of i vs p f "Some q"] by simp

lemma total_update2:
  assumes "i < length vs" "vs ! i = Some p" "j < length vs" "vs ! j = Some q" "i \<noteq> j"
  shows "total f (vs[i := Some p', j := Some q']) + f p + f q = total f vs + f p' + f q'"
proof -
  have "total f (vs[i := Some p', j := Some q']) + f q = total f (vs[i := Some p']) + f q'"
    using total_update [of j "vs[i := Some p']" q f "Some q'"] assms by simp
  then have "total f (vs[i := Some p', j := Some q']) + f p + f q = (total f (vs[i := Some p']) + f p) + f q'"
    by (simp add: add_ac)
  then show ?thesis using total_update [OF assms(1,2), of f "Some p'"] by simp
qed

lemma rebalance:
  fixes q :: "'a multiset"
  assumes "I = T + Out" "T' + p = T + q"
  shows "q + I = T' + (p + Out)"
proof -
  have "q + I = (T + q) + Out" by (simp add: assms(1) add_ac)
  then show ?thesis by (simp add: assms(2) [symmetric] add_ac)
qed

section \<open>unique_ptr\<close>

text \<open>The pairs of pointer and deleter, without null pointers.\<close>

definition u_holds :: "'d unique_ptr \<Rightarrow> (nat \<times> 'd) multiset" where
  "u_holds p = (if u_ptr p = 0 then {#} else {#(u_ptr p, u_deleter p)#})"

definition nonnull :: "(nat \<times> 'd) list \<Rightarrow> (nat \<times> 'd) multiset" where
  "nonnull ps = mset (filter (\<lambda>p. fst p \<noteq> 0) ps)"

definition u_held :: "'d u_state \<Rightarrow> (nat \<times> 'd) multiset" where
  "u_held s = total u_holds (fst s)"

definition u_inflow :: "'d u_state \<Rightarrow> (nat \<times> 'd) multiset" where
  "u_inflow s = nonnull (given (snd s))"

definition u_outflow :: "'d u_state \<Rightarrow> (nat \<times> 'd) multiset" where
  "u_outflow s = nonnull (deleter_calls (snd s)) + nonnull (taken (snd s))"

lemmas u_flows = u_held_def u_inflow_def u_outflow_def

lemma nonnull_Cons [simp]: "nonnull ((a, d) # ps) = (if a = 0 then {#} else {#(a, d)#}) + nonnull ps"
  by (simp add: nonnull_def)

lemma unique_reset_world:
  "nonnull (deleter_calls (snd (unique_reset edn ptr p w))) = u_holds p + nonnull (deleter_calls w)"
  "given (snd (unique_reset edn ptr p w)) = given w" "taken (snd (unique_reset edn ptr p w)) = taken w"
  "fst (unique_reset edn ptr p w) = p\<lparr> u_ptr := ptr \<rparr>"
  by (auto simp: unique_reset_def call_deleter_def u_holds_def Let_def)

lemma unique_assign_world:
  assumes "unique_move_assign edn p q w = (p', q', w')"
  shows "u_holds p' = u_holds q" "u_holds q' = {#}" "nonnull (deleter_calls w') = u_holds p + nonnull (deleter_calls w)"
    "given w' = given w" "taken w' = taken w"
  using assms unique_reset_world [of edn "u_ptr q" p w]
  by (auto simp: unique_move_assign_def unique_release_def u_holds_def split: prod.splits)

lemma u_exec_conserves:
  assumes "u_exec edn op s = Some s'" "u_inflow s = u_held s + u_outflow s"
  shows "u_inflow s' = u_held s' + u_outflow s'"
proof -
  obtain vs w where s: "s = (vs, w)" by (cases s)
  note inv = assms(2) [unfolded s u_flows fst_conv snd_conv]
  show ?thesis
  proof (cases op)
    case (U_new ptr d)
    then show ?thesis using assms(1) inv by (auto simp: s u_flows unique_construct_def give_def u_holds_def)
  next
    case (U_move i)
    then obtain p where p: "i < length vs" "vs ! i = Some p" "s' = (vs[i := Some (p\<lparr> u_ptr := 0 \<rparr>)] @ [Some p], w)"
      using assms(1) by (auto simp: s mem_simps unique_move_def unique_release_def split: option.splits)
    then show ?thesis
      using inv total_update [OF p(1,2), of u_holds "Some (p\<lparr> u_ptr := 0 \<rparr>)"] by (simp add: u_flows u_holds_def)
  next
    case (U_assign i j)
    then obtain p q where pq: "i < length vs" "vs ! i = Some p" "j < length vs" "vs ! j = Some q"
      using assms(1) by (auto simp: s mem_simps split: option.splits)
    obtain p' q' w' where r: "unique_move_assign edn p q w = (p', q', w')" by (cases "unique_move_assign edn p q w")
    note a = unique_assign_world [OF r]
    show ?thesis
    proof (cases "i = j")
      case True
      then show ?thesis using assms U_assign pq s by simp
    next
      case False
      then have s': "s' = (vs[i := Some p', j := Some q'], w')" using assms(1) U_assign pq r by (simp add: s)
      have "total u_holds (vs[i := Some p', j := Some q']) + u_holds p = total u_holds vs"
        using total_update2 [OF pq False, of u_holds p' q'] a(1,2) by simp
      then show ?thesis using inv a(3-5) by (simp add: s' u_flows add_ac)
    qed
  next
    case (U_reset i ptr)
    then obtain p where p: "i < length vs" "vs ! i = Some p"
      "s' = (vs[i := Some (p\<lparr> u_ptr := ptr \<rparr>)], give ptr (u_deleter p) (snd (unique_reset edn ptr p w)))"
      using assms(1) unique_reset_world(4) [of edn ptr _ w]
      by (auto simp: s mem_simps split: option.splits prod.splits) (metis fst_conv snd_conv)
    show ?thesis
      using inv total_update [OF p(1,2), of u_holds "Some (p\<lparr> u_ptr := ptr \<rparr>)"] unique_reset_world [of edn ptr p w]
      by (simp add: p(3) u_flows give_def u_holds_def add_ac)
  next
    case (U_release i)
    then obtain p where p: "i < length vs" "vs ! i = Some p"
      "s' = (vs[i := Some (p\<lparr> u_ptr := 0 \<rparr>)], w\<lparr> taken := (u_ptr p, u_deleter p) # taken w \<rparr>)"
      using assms(1) by (auto simp: s mem_simps unique_release_def split: option.splits)
    show ?thesis
      using inv total_update [OF p(1,2), of u_holds "Some (p\<lparr> u_ptr := 0 \<rparr>)"]
      by (simp add: p(3) u_flows u_holds_def add_ac split: if_splits)
  next
    case (U_destroy i)
    then obtain p where p: "i < length vs" "vs ! i = Some p" "s' = (vs[i := None], unique_destroy edn p w)"
      using assms(1) by (auto simp: s mem_simps split: option.splits)
    show ?thesis
      using inv total_update [OF p(1,2), of u_holds None] unique_reset_world [of edn 0 p w]
      by (simp add: p(3) u_flows unique_destroy_def add_ac)
  qed
qed

interpretation unique: conserving "u_exec edn" u_held u_inflow u_outflow for edn
  by unfold_locales (rule u_exec_conserves)

text \<open>
  C13: ownership by \<^verbatim>\<open>unique_ptr\<close>. After any program of constructions, moves, move assignments, resets,
  releases and destructions, every object that was given to a pointer is held by exactly one pointer,
  or was released, or was deleted exactly once, by the deleter it was given with: the numbers of
  holders, deletions and releases of a pointer with its deleter add up to the number of times it was given.
\<close>
theorem unique_ptr_conserves:
  assumes "run_ops (u_exec edn) ops ([], \<lparr> deleter_calls = [], given = [], taken = [] \<rparr>) = Some (vs, w)" "ptr \<noteq> 0"
  shows "length (filter (\<lambda>v. \<exists>p. v = Some p \<and> u_ptr p = ptr \<and> u_deleter p = d) vs) +
     count_list (deleter_calls w) (ptr, d) + count_list (taken w) (ptr, d) = count_list (given w) (ptr, d)"
proof -
  have r: "count (nonnull ps) (ptr, d) = count_list ps (ptr, d)" for ps
    using assms(2) by (induction ps) (auto simp: nonnull_def)
  have h: "count (total u_holds us) (ptr, d) = length (filter (\<lambda>v. \<exists>p. v = Some p \<and> u_ptr p = ptr \<and> u_deleter p = d) us)" for us
    using assms(2) by (induction us) (auto simp: total_def u_holds_def split: option.splits)
  have "u_inflow (vs, w) = u_held (vs, w) + u_outflow (vs, w)"
    by (rule unique.run_conserves [OF assms(1)]) (simp add: u_flows nonnull_def)
  then have "count (u_inflow (vs, w)) (ptr, d) = count (u_held (vs, w) + u_outflow (vs, w)) (ptr, d)" by simp
  then show ?thesis by (simp add: u_flows r h)
qed

text \<open>Witness: an object is moved to a second pointer, which is then reset to another object.\<close>
theorem unique_ptr_conserves_witness:
  "\<exists>vs w. run_ops (u_exec False) [U_new 8 ''del'', U_move 0, U_reset 1 9] ([], \<lparr> deleter_calls = [], given = [], taken = [] \<rparr>) = Some (vs, w) \<and>
     length (filter (\<lambda>v. \<exists>p. v = Some p \<and> u_ptr p = 8 \<and> u_deleter p = ''del'') vs) +
     count_list (deleter_calls w) (8, ''del'') + count_list (taken w) (8, ''del'') = 1"
proof -
  let ?vs = "[Some \<lparr> u_ptr = 0, u_deleter = ''del'' \<rparr>, Some \<lparr> u_ptr = 9, u_deleter = ''del'' \<rparr>]"
  let ?w = "\<lparr> deleter_calls = [(8, ''del'')], given = [(9, ''del''), (8, ''del'')], taken = [] \<rparr>"
  have r: "run_ops (u_exec False) [U_new 8 ''del'', U_move 0, U_reset 1 9] ([], \<lparr> deleter_calls = [], given = [], taken = [] \<rparr>) = Some (?vs, ?w)"
    by (simp add: unique_construct_def give_def unique_move_def unique_release_def unique_reset_def call_deleter_def)
  show ?thesis using r unique_ptr_conserves [OF r, of 8 "''del''"] by auto
qed

section \<open>intrusive_ptr\<close>

definition i_holds :: "nat \<Rightarrow> nat multiset" where
  "i_holds p = (if p = 0 then {#} else {#p#})"

definition nonnull_ptrs :: "nat list \<Rightarrow> nat multiset" where
  "nonnull_ptrs ps = mset (filter (\<lambda>p. p \<noteq> 0) ps)"

definition i_held :: "i_state \<Rightarrow> nat multiset" where
  "i_held s = total i_holds (fst s)"

definition i_inflow :: "i_state \<Rightarrow> nat multiset" where
  "i_inflow s = nonnull_ptrs (add_ref_calls (snd s)) + nonnull_ptrs (adopted (snd s))"

definition i_outflow :: "i_state \<Rightarrow> nat multiset" where
  "i_outflow s = nonnull_ptrs (release_calls (snd s)) + nonnull_ptrs (detached (snd s))"

lemmas i_flows = i_held_def i_inflow_def i_outflow_def

lemma nonnull_ptrs_Cons [simp]: "nonnull_ptrs (a # ps) = i_holds a + nonnull_ptrs ps"
  by (simp add: nonnull_ptrs_def i_holds_def)

lemma i_holds_0 [simp]: "i_holds 0 = {#}"
  by (simp add: i_holds_def)

lemma intrusive_worlds [simp]:
  "nonnull_ptrs (add_ref_calls (if 0 < p then intrusive_add_ref p w else w)) = i_holds p + nonnull_ptrs (add_ref_calls w)"
  "release_calls (if b then intrusive_add_ref p w else w) = release_calls w"
  "adopted (if b then intrusive_add_ref p w else w) = adopted w"
  "detached (if b then intrusive_add_ref p w else w) = detached w"
  "nonnull_ptrs (release_calls (intrusive_destroy p w)) = i_holds p + nonnull_ptrs (release_calls w)"
  "add_ref_calls (intrusive_destroy p w) = add_ref_calls w"
  "adopted (intrusive_destroy p w) = adopted w"
  "detached (intrusive_destroy p w) = detached w"
  by (simp_all add: intrusive_add_ref_def intrusive_destroy_def intrusive_release_def)

lemma construct_world:
  "nonnull_ptrs (add_ref_calls (adopt p b (if p \<noteq> 0 \<and> b then intrusive_add_ref p w else w))) +
   nonnull_ptrs (adopted (adopt p b (if p \<noteq> 0 \<and> b then intrusive_add_ref p w else w))) =
     i_holds p + (nonnull_ptrs (add_ref_calls w) + nonnull_ptrs (adopted w))"
  by (cases b) (simp_all add: adopt_def intrusive_add_ref_def add_ac)

lemma adopt_commutes [simp]:
  "adopt p b (intrusive_destroy q w) = intrusive_destroy q (adopt p b w)"
  "release_calls (adopt p b w) = release_calls w" "detached (adopt p b w) = detached w"
  by (simp_all add: adopt_def intrusive_destroy_def intrusive_release_def)

lemmas intrusive_ops = intrusive_construct_def intrusive_copy_def intrusive_detach_def intrusive_move_def
  intrusive_swap_def intrusive_reset_def intrusive_assign_def intrusive_move_assign_def

lemma i_exec_conserves:
  assumes "i_exec op s = Some s'" "i_inflow s = i_held s + i_outflow s"
  shows "i_inflow s' = i_held s' + i_outflow s'"
proof -
  obtain vs w where s: "s = (vs, w)" by (cases s)
  note inv = assms(2) [unfolded s i_flows fst_conv snd_conv]
  have one: "total i_holds (vs[i := Some q]) + i_holds p = total i_holds vs + i_holds q"
    "total i_holds (vs[i := None]) + i_holds p = total i_holds vs" if "i < length vs" "vs ! i = Some p" for i p q
    using total_update [OF that, of i_holds "Some q"] total_update [OF that, of i_holds None] by simp_all
  show ?thesis
  proof (cases op)
    case (I_new ptr b)
    then show ?thesis
      using assms(1) inv construct_world [of ptr b w] by (auto simp: s i_flows intrusive_construct_def add_ac)
  next
    case (I_copy i)
    then show ?thesis using assms(1) inv by (auto simp: s i_flows intrusive_copy_def intrusive_add_ref_def add_ac split: option.splits)
  next
    case (I_move i)
    then obtain p where p: "i < length vs" "vs ! i = Some p" "s' = (vs[i := Some 0] @ [Some p], w)"
      using assms(1) by (auto simp: s mem_simps intrusive_ops split: option.splits)
    then show ?thesis using inv one(1) [OF p(1,2), of 0] by (simp add: i_flows)
  next
    case (I_assign i j)
    then obtain p q where pq: "i < length vs" "vs ! i = Some p" "j < length vs" "vs ! j = Some q"
      using assms(1) by (auto simp: s mem_simps split: option.splits)
    then have s': "s' = (if i = j then (vs, w) else (vs[i := Some q], intrusive_destroy p (if q \<noteq> 0 then intrusive_add_ref q w else w)))"
      using assms(1) I_assign by (cases "i = j") (auto simp: s intrusive_ops)
    then show ?thesis
      using inv rebalance [OF inv one(1) [OF pq(1,2), of q]] by (cases "i = j") (simp_all add: i_flows add_ac del: if_split)
  next
    case (I_move_assign i j)
    then obtain p q where pq: "i < length vs" "vs ! i = Some p" "j < length vs" "vs ! j = Some q"
      using assms(1) by (auto simp: s mem_simps split: option.splits)
    then have s': "s' = (if i = j then (vs, w) else (vs[i := Some q, j := Some 0], intrusive_destroy p w))"
      using assms(1) I_move_assign by (cases "i = j") (auto simp: s intrusive_ops)
    show ?thesis
      using s' inv rebalance [OF inv, of "total i_holds (vs[i := Some q, j := Some 0])" "i_holds p" "{#}"]
        total_update2 [OF pq, of i_holds q 0] by (cases "i = j") (simp_all add: i_flows add_ac)
  next
    case (I_reset i ptr b)
    then obtain p where p: "i < length vs" "vs ! i = Some p"
      "s' = (vs[i := Some ptr], intrusive_destroy p (adopt ptr b (if ptr \<noteq> 0 \<and> b then intrusive_add_ref ptr w else w)))"
      using assms(1) by (auto simp: s mem_simps intrusive_ops split: option.splits)
    show ?thesis
      using p(3) rebalance [OF inv one(1) [OF p(1,2), of ptr]] construct_world [of ptr b w] by (simp add: i_flows add_ac)
  next
    case (I_swap i j)
    then obtain p q where pq: "i < length vs" "vs ! i = Some p" "j < length vs" "vs ! j = Some q"
      using assms(1) by (auto simp: s mem_simps split: option.splits)
    then have s': "s' = (vs[i := Some q, j := Some p], w)" using assms(1) I_swap by (simp add: s intrusive_ops)
    have "total i_holds (vs[i := Some q, j := Some p]) = total i_holds vs"
      using total_update2 [OF pq, of i_holds q p] total_update_same [OF pq(3,4), of i_holds q] pq
      by (cases "i = j") (simp_all add: add_ac)
    then show ?thesis using inv s' by (simp add: i_flows)
  next
    case (I_detach i)
    then obtain p where p: "i < length vs" "vs ! i = Some p" "s' = (vs[i := Some 0], w\<lparr> detached := p # detached w \<rparr>)"
      using assms(1) by (auto simp: s mem_simps intrusive_ops split: option.splits)
    then show ?thesis using inv one(1) [OF p(1,2), of 0] by (simp add: i_flows add_ac)
  next
    case (I_destroy i)
    then obtain p where p: "i < length vs" "vs ! i = Some p" "s' = (vs[i := None], intrusive_destroy p w)"
      using assms(1) by (auto simp: s mem_simps split: option.splits)
    then show ?thesis using inv one(2) [OF p(1,2)] by (simp add: i_flows add_ac)
  qed
qed

interpretation intrusive: conserving i_exec i_held i_inflow i_outflow
  by unfold_locales (rule i_exec_conserves)

text \<open>
  references held by \<^verbatim>\<open>intrusive_ptr\<close>. After any program the number of \<^verbatim>\<open>intrusive_ptr_add_ref\<close> calls
  for an object, together with the references adopted from raw pointers, is the number of pointers
  that hold it together with the \<^verbatim>\<open>intrusive_ptr_release\<close> calls and the detached references: no reference is
  released twice and none is lost.
\<close>
theorem intrusive_ptr_conserves:
  assumes "run_ops i_exec ops ([], \<lparr> add_ref_calls = [], release_calls = [], adopted = [], detached = [] \<rparr>) = Some (vs, w)"
    "ptr \<noteq> 0"
  shows "count_list (add_ref_calls w) ptr + count_list (adopted w) ptr =
     count_list vs (Some ptr) + count_list (release_calls w) ptr + count_list (detached w) ptr"
proof -
  have r: "count (nonnull_ptrs ps) ptr = count_list ps ptr" for ps
    using assms(2) by (induction ps) (auto simp: nonnull_ptrs_def)
  have h: "count (total i_holds us) ptr = count_list us (Some ptr)" for us
    using assms(2) by (induction us) (auto simp: total_def i_holds_def split: option.splits)
  have "i_inflow (vs, w) = i_held (vs, w) + i_outflow (vs, w)"
    by (rule intrusive.run_conserves [OF assms(1)]) (simp add: i_flows nonnull_ptrs_def)
  then have "count (i_inflow (vs, w)) ptr = count (i_held (vs, w) + i_outflow (vs, w)) ptr" by simp
  then show ?thesis by (simp add: i_flows r h)
qed

text \<open>Witness: an adopted reference is copied, and the copy replaced.\<close>
theorem intrusive_ptr_conserves_witness:
  "\<exists>vs w. run_ops i_exec [I_new 8 False, I_copy 0, I_reset 1 9 True]
      ([], \<lparr> add_ref_calls = [], release_calls = [], adopted = [], detached = [] \<rparr>) = Some (vs, w) \<and>
    count_list vs (Some 8) + count_list (release_calls w) 8 + count_list (detached w) 8 = 2"
proof -
  have r: "run_ops i_exec [I_new 8 False, I_copy 0, I_reset 1 9 True]
      ([], \<lparr> add_ref_calls = [], release_calls = [], adopted = [], detached = [] \<rparr>) =
      Some ([Some 8, Some 9], \<lparr> add_ref_calls = [9, 8], release_calls = [8], adopted = [8], detached = [] \<rparr>)"
    by (simp add: intrusive_ops intrusive_destroy_def intrusive_add_ref_def intrusive_release_def adopt_def)
  show ?thesis using r intrusive_ptr_conserves [OF r, of 8] by auto
qed

section \<open>Comparisons\<close>

text \<open>The comparisons of two pointers are a total order; those with the null pointer on the left are not the
  mirror images of those with the null pointer on the right.\<close>
theorem pointer_comparisons:
  "ptr_lt a b \<or> ptr_eq a b \<or> ptr_gt a b" "ptr_le a b \<longleftrightarrow> ptr_lt a b \<or> ptr_eq a b" "ptr_ge a b \<longleftrightarrow> ptr_le b a"
  by (auto simp: ptr_lt_def ptr_eq_def ptr_gt_def ptr_le_def ptr_ge_def)

theorem null_comparisons_reversed:
  "p \<noteq> 0 \<Longrightarrow> ptr_gt_null p \<and> \<not> null_lt_ptr p \<and> null_ge_ptr p \<and> \<not> null_le_ptr p"
  by (simp add: ptr_gt_null_def null_lt_ptr_def ptr_lt_null_def null_ge_ptr_def null_le_ptr_def null_gt_ptr_def)

end
