(* ===== verification/Raw_Memory.thy ===== *)
theory Raw_Memory
  imports Ktl_Prelude
begin

text \<open>
  Algorithms on uninitialised memory (\<^verbatim>\<open>memory.hpp\<close>) and the copying and shifting algorithms
  (\<^verbatim>\<open>algorithm.hpp\<close>), on buffers of storage cells. For trivially copyable types the library calls \<^verbatim>\<open>memcpy\<close>, \<^verbatim>\<open>memmove\<close> or
  \<^verbatim>\<open>memset\<close> instead of the loops; the cells after the call are those of the loops, with the old value in place of
  a moved-from object. The exception is \<open>fill_n\<close> with a scalar of several bytes whose bits are zero, which passes the
  number of elements to \<^verbatim>\<open>memset\<close> and clears too little: \<open>fill_n\<close> below is the loop of the other types and values.

  The loops are structural recursions over the number of steps left; positions are indices of
  the buffer. The element type's operations do not throw, except in the section on the backout guard.
\<close>

section \<open>Construction and destruction of ranges\<close>

fun uninitialized_fill_n :: "'a cell list \<Rightarrow> nat \<Rightarrow> nat \<Rightarrow> 'a \<Rightarrow> 'a cell list option" where
  "uninitialized_fill_n cs pos 0 v = Some cs"
| "uninitialized_fill_n cs pos (Suc n) v =
     Option.bind (construct_at cs pos v) (\<lambda>cs. uninitialized_fill_n cs (Suc pos) n v)"

text \<open>\<open>uninitialized_copy_n\<close> from a range of values, such as that of a forward iterator.\<close>

fun uninitialized_copy_n :: "'a list \<Rightarrow> 'a cell list \<Rightarrow> nat \<Rightarrow> 'a cell list option" where
  "uninitialized_copy_n [] cs pos = Some cs"
| "uninitialized_copy_n (x # xs) cs pos =
     Option.bind (construct_at cs pos x) (\<lambda>cs. uninitialized_copy_n xs cs (Suc pos))"

text \<open>The transfer of \<open>n\<close> objects to raw memory of the same buffer and to that of another one: by moves
  when the flag is set, by copies otherwise (\<^verbatim>\<open>make_transfer_without_shift\<close>).\<close>

definition take_at :: "bool \<Rightarrow> 'a cell list \<Rightarrow> nat \<Rightarrow> ('a \<times> 'a cell list) option" where
  "take_at by_move cs i = (if by_move then move_at cs i else map_option (\<lambda>v. (v, cs)) (read_at cs i))"

fun uninitialized_transfer_within :: "bool \<Rightarrow> 'a cell list \<Rightarrow> nat \<Rightarrow> nat \<Rightarrow> nat \<Rightarrow> 'a cell list option" where
  "uninitialized_transfer_within mv cs src dst 0 = Some cs"
| "uninitialized_transfer_within mv cs src dst (Suc n) =
     Option.bind (take_at mv cs src) (\<lambda>(v, cs).
     Option.bind (construct_at cs dst v) (\<lambda>cs. uninitialized_transfer_within mv cs (Suc src) (Suc dst) n))"

fun uninitialized_transfer :: "bool \<Rightarrow> 'a cell list \<Rightarrow> nat \<Rightarrow> 'a cell list \<Rightarrow> nat \<Rightarrow> nat \<Rightarrow> ('a cell list \<times> 'a cell list) option" where
  "uninitialized_transfer mv ss src ds dst 0 = Some (ss, ds)"
| "uninitialized_transfer mv ss src ds dst (Suc n) =
     Option.bind (take_at mv ss src) (\<lambda>(v, ss).
     Option.bind (construct_at ds dst v) (\<lambda>ds. uninitialized_transfer mv ss (Suc src) ds (Suc dst) n))"

fun destroy_n :: "'a cell list \<Rightarrow> nat \<Rightarrow> nat \<Rightarrow> 'a cell list option" where
  "destroy_n cs pos 0 = Some cs"
| "destroy_n cs pos (Suc n) = Option.bind (destroy_at cs pos) (\<lambda>cs. destroy_n cs (Suc pos) n)"

section \<open>The backout guard\<close>

text \<open>\<open>make\<close> is the constructor of the element type, which may throw. \<open>emplace_n\<close> is the loop of
  \<^verbatim>\<open>uninitialized_emplace_helper\<close>: it returns how it ended, the cursor \<^verbatim>\<open>m_dst_cur\<close> and the buffer. \<open>release\<close> makes the
  destructor of the guard a no-op; otherwise it destroys what lies between \<^verbatim>\<open>m_dst_first\<close> and the cursor.\<close>

fun emplace_n :: "('a \<Rightarrow> 'b outcome) \<Rightarrow> 'a list \<Rightarrow> 'b cell list \<Rightarrow> nat \<Rightarrow> (unit outcome \<times> nat \<times> 'b cell list) option" where
  "emplace_n make [] cs cur = Some (Ret (), cur, cs)"
| "emplace_n make (x # xs) cs cur =
     (case make x of Throw e \<Rightarrow> Some (Throw e, cur, cs)
      | Ret v \<Rightarrow> Option.bind (construct_at cs cur v) (\<lambda>cs. emplace_n make xs cs (Suc cur)))"

definition uninitialized_copy_n_guarded ::
  "('a \<Rightarrow> 'b outcome) \<Rightarrow> 'a list \<Rightarrow> 'b cell list \<Rightarrow> nat \<Rightarrow> (unit outcome \<times> 'b cell list) option" where
  "uninitialized_copy_n_guarded make xs cs dest =
     Option.bind (emplace_n make xs cs dest) (\<lambda>(r, cur, cs).
       case r of Ret _ \<Rightarrow> Some (Ret (), cs)
       | Throw e \<Rightarrow> map_option (Pair (Throw e)) (destroy_n cs dest (cur - dest)))"

section \<open>Assignment to ranges\<close>

fun fill_n :: "'a cell list \<Rightarrow> nat \<Rightarrow> nat \<Rightarrow> 'a \<Rightarrow> 'a cell list option" where
  "fill_n cs pos 0 v = Some cs"
| "fill_n cs pos (Suc n) v = Option.bind (assign_at cs pos v) (\<lambda>cs. fill_n cs (Suc pos) n v)"

fun copy_n :: "'a list \<Rightarrow> 'a cell list \<Rightarrow> nat \<Rightarrow> 'a cell list option" where
  "copy_n [] cs pos = Some cs"
| "copy_n (x # xs) cs pos = Option.bind (assign_at cs pos x) (\<lambda>cs. copy_n xs cs (Suc pos))"

text \<open>\<open>move (first, last, d_first)\<close>: a forward loop.\<close>

fun move_range :: "'a cell list \<Rightarrow> nat \<Rightarrow> nat \<Rightarrow> nat \<Rightarrow> 'a cell list option" where
  "move_range cs first d_first 0 = Some cs"
| "move_range cs first d_first (Suc n) =
     Option.bind (move_at cs first) (\<lambda>(v, cs).
     Option.bind (assign_at cs d_first v) (\<lambda>cs. move_range cs (Suc first) (Suc d_first) n))"

text \<open>The loop of \<open>shift_right_impl\<close> runs from the last element of the range to the first.\<close>

fun shift_right_loop :: "'a cell list \<Rightarrow> nat \<Rightarrow> nat \<Rightarrow> nat \<Rightarrow> 'a cell list option" where
  "shift_right_loop cs first offset 0 = Some cs"
| "shift_right_loop cs first offset (Suc n) =
     Option.bind (move_at cs (first + n)) (\<lambda>(v, cs).
     Option.bind (assign_at cs (first + offset + n) v) (\<lambda>cs. shift_right_loop cs first offset n))"

definition shift_right :: "'a cell list \<Rightarrow> nat \<Rightarrow> nat \<Rightarrow> nat \<Rightarrow> 'a cell list option" where
  "shift_right cs first range_last offset =
     (let range_length = range_last - first
      in if offset = 0 \<or> range_length < offset then Some cs
         else shift_right_loop cs first offset (range_length - offset))"

definition shift_left :: "'a cell list \<Rightarrow> nat \<Rightarrow> nat \<Rightarrow> nat \<Rightarrow> 'a cell list option" where
  "shift_left cs first range_last offset =
     (let range_length = range_last - first
      in if offset = 0 \<or> range_length < offset then Some cs
         else move_range cs (first + offset) first (range_length - offset))"

section \<open>What the loops do to a buffer\<close>

text \<open>The lemmas describe a buffer as the concatenation of the part before the range, the range and the part
  behind it.\<close>

lemma construct_at_append: "construct_at (xs @ Raw # zs) (length xs) v = Some (xs @ Live v # zs)"
  by (simp add: construct_at_def)

lemma uninitialized_fill_n_spec:
  "uninitialized_fill_n (xs @ replicate n Raw @ zs) (length xs) n v = Some (xs @ replicate n (Live v) @ zs)"
proof (induction n arbitrary: xs)
  case (Suc n)
  from Suc.IH [of "xs @ [Live v]"] show ?case by (simp add: construct_at_append)
qed simp

lemma uninitialized_copy_n_spec:
  "uninitialized_copy_n vs (xs @ replicate (length vs) Raw @ zs) (length xs) = Some (xs @ map Live vs @ zs)"
proof (induction vs arbitrary: xs)
  case (Cons v vs)
  from Cons.IH [of "xs @ [Live v]"] show ?case by (simp add: construct_at_append)
qed simp

text \<open>\<open>left mv v\<close> is what a transfer leaves of an object.\<close>

definition left :: "bool \<Rightarrow> 'a \<Rightarrow> 'a cell" where
  "left mv v = (if mv then Moved else Live v)"

lemma left_not_Raw [simp]: "left mv v \<noteq> Raw" "Raw \<noteq> left mv v" "Raw \<notin> left mv ` A" "Raw \<notin> Live ` B"
  by (auto simp: left_def)

lemma take_at_append: "take_at mv (xs @ Live v # zs) (length xs) = Some (v, xs @ left mv v # zs)"
  by (simp add: take_at_def left_def)

lemma uninitialized_transfer_spec:
  "uninitialized_transfer mv (as @ map Live vs @ bs) (length as) (xs @ replicate (length vs) Raw @ zs) (length xs) (length vs) =
     Some (as @ map (left mv) vs @ bs, xs @ map Live vs @ zs)"
proof (induction vs arbitrary: as xs)
  case (Cons v vs)
  from Cons.IH [of "as @ [left mv v]" "xs @ [Live v]"] show ?case by (simp add: take_at_append construct_at_append)
qed simp

lemma destroy_n_spec:
  "Raw \<notin> set cs \<Longrightarrow>
     destroy_n (xs @ cs @ zs) (length xs) (length cs) = Some (xs @ replicate (length cs) Raw @ zs)"
proof (induction cs arbitrary: xs)
  case (Cons c cs)
  from Cons.IH [of "xs @ [Raw]"] Cons.prems show ?case by auto
qed simp

lemma fill_n_spec:
  "Raw \<notin> set cs \<Longrightarrow>
     fill_n (xs @ cs @ zs) (length xs) (length cs) v = Some (xs @ replicate (length cs) (Live v) @ zs)"
proof (induction cs arbitrary: xs)
  case (Cons c cs)
  from Cons.IH [of "xs @ [Live v]"] Cons.prems show ?case by auto
qed simp

lemma copy_n_spec:
  "length vs = length cs \<Longrightarrow> Raw \<notin> set cs \<Longrightarrow>
     copy_n vs (xs @ cs @ zs) (length xs) = Some (xs @ map Live vs @ zs)"
proof (induction vs cs arbitrary: xs rule: list_induct2')
  case (4 v vs c cs)
  from 4(1) [of "xs @ [Live v]"] 4(2,3) show ?case by auto
qed simp_all

lemma uninitialized_transfer_within_spec:
  "uninitialized_transfer_within mv (as @ map Live vs @ ms @ replicate (length vs) Raw @ zs) (length as)
       (length as + length vs + length ms) (length vs) =
     Some (as @ map (left mv) vs @ ms @ map Live vs @ zs)"
proof (induction vs arbitrary: as ms)
  case (Cons v vs)
  let ?as = "as @ [left mv v]" and ?ms = "ms @ [Live v]"
  have "construct_at (?as @ map Live vs @ ms @ Raw # replicate (length vs) Raw @ zs) (length (?as @ map Live vs @ ms)) v =
      Some (?as @ map Live vs @ ?ms @ replicate (length vs) Raw @ zs)"
    using construct_at_append [of "?as @ map Live vs @ ms"] by simp
  then show ?case using Cons.IH [of ?as ?ms] take_at_append [of mv as v] by (simp add: add.assoc)
qed simp

lemma assign_at_append: "c \<noteq> Raw \<Longrightarrow> assign_at (xs @ c # zs) (length xs) v = Some (xs @ Live v # zs)"
  by simp

lemma move_at_append: "move_at (xs @ Live v # zs) (length xs) = Some (v, xs @ Moved # zs)"
  by simp

lemma shift_right_loop_spec:
  "ws \<noteq> [] \<Longrightarrow> Raw \<notin> set ws \<Longrightarrow>
     \<exists>ps. length ps = length ws \<and> Raw \<notin> set ps \<and>
       shift_right_loop (xs @ map Live us @ ws @ zs) (length xs) (length ws) (length us) = Some (xs @ ps @ map Live us @ zs)"
proof (induction us arbitrary: ws zs rule: rev_induct)
  case (snoc u us)
  let ?ws = "Moved # butlast ws"
  have ws: "ws = butlast ws @ [last ws]" and l: "last ws \<noteq> Raw" using snoc.prems by (simp, metis last_in_set)
  have "assign_at (xs @ map Live us @ Moved # ws @ zs) (length xs + length ws + length us) u =
      Some (xs @ map Live us @ ?ws @ Live u # zs)"
  proof -
    have "xs @ map Live us @ Moved # ws @ zs = (xs @ map Live us @ ?ws) @ last ws # zs" by (subst ws) simp
    moreover have "length xs + length ws + length us = length (xs @ map Live us @ ?ws)"
      using snoc.prems(1) by (simp add: Suc_diff_Suc)
    ultimately show ?thesis using assign_at_append [OF l, of "xs @ map Live us @ ?ws" zs u] by (metis append.assoc append_Cons)
  qed
  moreover have "move_at (xs @ map Live us @ Live u # ws @ zs) (length xs + length us) = Some (u, xs @ map Live us @ Moved # ws @ zs)"
    using move_at_append [of "xs @ map Live us"] by simp
  moreover have "?ws \<noteq> []" "Raw \<notin> set ?ws" "length ?ws = length ws"
    using snoc.prems by (auto dest: in_set_butlastD)
  ultimately show ?case using snoc.IH [of ?ws "Live u # zs"] by auto
qed auto

lemma shift_right_spec:
  assumes "ws \<noteq> []" "Raw \<notin> set ws" "f = length xs" "e = f + length us + length ws" "d = length ws"
  obtains ps where "length ps = length ws" "Raw \<notin> set ps"
    "shift_right (xs @ map Live us @ ws @ zs) f e d = Some (xs @ ps @ map Live us @ zs)"
  using shift_right_loop_spec [OF assms(1,2), of xs us zs] assms by (auto simp: shift_right_def)

lemma move_range_spec:
  "Raw \<notin> set ds \<Longrightarrow> ds \<noteq> [] \<Longrightarrow>
     \<exists>ps. length ps = length ds \<and> Raw \<notin> set ps \<and>
       move_range (xs @ ds @ map Live us @ zs) (length xs + length ds) (length xs) (length us) = Some (xs @ map Live us @ ps @ zs)"
proof (induction us arbitrary: xs ds)
  case (Cons u us)
  obtain d es where ds: "ds = d # es" using Cons.prems by (cases ds) auto
  have "move_at (xs @ ds @ Live u # map Live us @ zs) (length xs + length ds) = Some (u, xs @ ds @ Moved # map Live us @ zs)"
    using move_at_append [of "xs @ ds"] by simp
  moreover have "assign_at (xs @ ds @ Moved # map Live us @ zs) (length xs) u = Some (xs @ Live u # es @ Moved # map Live us @ zs)"
    using Cons.prems assign_at_append [of d xs] by (auto simp: ds)
  moreover have "\<exists>ps. length ps = length (es @ [Moved]) \<and> Raw \<notin> set ps \<and>
      move_range ((xs @ [Live u]) @ (es @ [Moved]) @ map Live us @ zs) (length (xs @ [Live u]) + length (es @ [Moved]))
        (length (xs @ [Live u])) (length us) = Some ((xs @ [Live u]) @ map Live us @ ps @ zs)"
    using Cons.prems by (intro Cons.IH) (auto simp: ds)
  ultimately show ?case by (auto simp: ds)
qed auto

lemma shift_left_spec:
  assumes "ds \<noteq> []" "Raw \<notin> set ds"
  obtains ps where "length ps = length ds" "Raw \<notin> set ps"
    "shift_left (xs @ ds @ map Live us @ zs) (length xs) (length xs + length ds + length us) (length ds) =
       Some (xs @ map Live us @ ps @ zs)"
  using move_range_spec [OF assms(2,1), of xs us zs] assms(1) by (auto simp: shift_left_def)

section \<open>All or nothing\<close>

text \<open>The reference: the values of a range, or what the first constructor that throws throws.\<close>

fun make_all :: "('a \<Rightarrow> 'b outcome) \<Rightarrow> 'a list \<Rightarrow> 'b list outcome" where
  "make_all make [] = Ret []"
| "make_all make (x # xs) =
     (case make x of Throw e \<Rightarrow> Throw e
      | Ret v \<Rightarrow> (case make_all make xs of Throw e \<Rightarrow> Throw e | Ret vs \<Rightarrow> Ret (v # vs)))"

lemma make_all_length: "make_all make xs = Ret vs \<Longrightarrow> length vs = length xs"
  by (induction xs arbitrary: vs) (auto split: outcome.splits)

lemma emplace_n_spec:
  "case make_all make xs of
     Ret vs \<Rightarrow> emplace_n make xs (as @ replicate (length xs) Raw @ zs) (length as) = Some (Ret (), length as + length xs, as @ map Live vs @ zs)
   | Throw e \<Rightarrow> \<exists>vs n. length xs = length vs + n \<and>
       emplace_n make xs (as @ replicate (length xs) Raw @ zs) (length as) =
         Some (Throw e, length as + length vs, as @ map Live vs @ replicate n Raw @ zs)"
proof (induction xs arbitrary: as)
  case (Cons x xs)
  show ?case
  proof (cases "make x")
    case (Throw e)
    then show ?thesis by (auto intro!: exI [of _ "[]"])
  next
    case (Ret v)
    note step = Cons.IH [of "as @ [Live v]"]
    show ?thesis
    proof (cases "make_all make xs")
      case (Throw e)
      then obtain vs n where "length xs = length vs + n"
        "emplace_n make xs (as @ Live v # replicate (length xs) Raw @ zs) (Suc (length as)) =
           Some (Throw e, length as + length (v # vs), as @ map Live (v # vs) @ replicate n Raw @ zs)"
        using step by auto
      then have "length (x # xs) = length (v # vs) + n \<and>
          emplace_n make (x # xs) (as @ replicate (length (x # xs)) Raw @ zs) (length as) =
            Some (Throw e, length as + length (v # vs), as @ map Live (v # vs) @ replicate n Raw @ zs)"
        using Ret by (simp add: construct_at_append)
      moreover have m: "make_all make (x # xs) = Throw e" using Ret Throw by simp
      ultimately show ?thesis unfolding m outcome.case by blast
    qed (use Ret step in \<open>simp add: construct_at_append\<close>)
  qed
qed simp


end
