(* ===== verification/Vector.thy ===== *)
theory Vector
  imports Raw_Memory
begin

text \<open>
  \<^verbatim>\<open>vector\<close> (\<^verbatim>\<open>include/vector.hpp\<close>). A vector is its buffer of storage cells, whose length is the capacity, and its
  size. An operation that may allocate takes the flag \<open>granted\<close>: whether the allocator has the memory; it
  throws \<^verbatim>\<open>bad_alloc\<close> otherwise. The flag \<open>mv\<close> is \<^verbatim>\<open>is_nothrow_move_constructible\<close> (or not copyable): objects are
  transferred by moves, otherwise by copies. Iterators are indices. \<open>None\<close> is undefined behaviour. The
  allocators of two vectors compare equal, as those of a stateless allocator do.
\<close>

section \<open>State and growth\<close>

record 'a vector =
  v_buffer :: "'a cell list"
  v_size :: nat

type_synonym 'a v_result = "(unit outcome \<times> 'a vector) option"

definition empty_vector :: "'a vector" where
  "empty_vector = \<lparr> v_buffer = [], v_size = 0 \<rparr>"

definition v_capacity :: "'a vector \<Rightarrow> nat" where
  "v_capacity v = length (v_buffer v)"

definition v_max_size :: nat where
  "v_max_size = size_max - 1"

definition calc_growth_unchecked :: "nat \<Rightarrow> nat" where
  "calc_growth_unchecked old_capacity = (if old_capacity = 0 then 1 else size_wrap (old_capacity * 2))"

definition calc_growth :: "'a vector \<Rightarrow> nat" where
  "calc_growth v = (if v_capacity v = v_max_size then v_max_size + 1 else min v_max_size (calc_growth_unchecked (v_capacity v)))"

definition calc_optimal_growth :: "'a vector \<Rightarrow> nat \<Rightarrow> nat" where
  "calc_optimal_growth v required = max (calc_growth v) required"

text \<open>The construction policies: the buffer they work on, and the number they report.\<close>

type_synonym 'a construct_policy = "'a cell list \<Rightarrow> ('a cell list \<times> nat) option"
type_synonym 'a transfer_policy = "'a cell list \<Rightarrow> 'a cell list \<Rightarrow> nat \<Rightarrow> ('a cell list \<times> 'a cell list) option"

definition dummy_construct_helper :: "nat \<Rightarrow> 'a construct_policy" where
  "dummy_construct_helper old_size b = Some (b, old_size)"

definition construct_at_helper :: "nat \<Rightarrow> 'a \<Rightarrow> 'a construct_policy" where
  "construct_at_helper pos x b = map_option (\<lambda>b. (b, 1)) (construct_at b pos x)"

definition range_construct_helper :: "nat \<Rightarrow> 'a list \<Rightarrow> 'a construct_policy" where
  "range_construct_helper pos xs b = map_option (\<lambda>b. (b, length xs)) (uninitialized_copy_n xs b pos)"

definition construct_fill_helper :: "nat \<Rightarrow> 'a \<Rightarrow> nat \<Rightarrow> 'a construct_policy" where
  "construct_fill_helper pos x count b = map_option (\<lambda>b. (b, count)) (uninitialized_fill_n b pos count x)"

definition transfer_without_shift :: "bool \<Rightarrow> 'a transfer_policy" where
  "transfer_without_shift mv old new count = uninitialized_transfer mv old 0 new 0 count"

definition transfer_with_shift_right :: "bool \<Rightarrow> nat \<Rightarrow> nat \<Rightarrow> 'a transfer_policy" where
  "transfer_with_shift_right mv left_bound right_bound old new count =
     Option.bind (uninitialized_transfer mv old 0 new 0 left_bound) (\<lambda>(old, new).
       uninitialized_transfer mv old left_bound new right_bound (count - left_bound))"

definition dummy_transfer :: "'a transfer_policy" where
  "dummy_transfer old new count = Some (old, new)"

text \<open>The old objects are destroyed with the size the vector had; \<open>adjust\<close> is the template argument
  \<^verbatim>\<open>AdjustSize\<close>.\<close>

definition grow_unchecked :: "bool \<Rightarrow> bool \<Rightarrow> nat \<Rightarrow> 'a construct_policy \<Rightarrow> 'a transfer_policy \<Rightarrow> 'a vector \<Rightarrow> 'a v_result" where
  "grow_unchecked adjust granted new_capacity construct transfer v =
     (if \<not> granted then Some (Throw BadAlloc, v)
      else Option.bind (construct (replicate new_capacity Raw)) (\<lambda>(new, size_adjustment).
           Option.bind (transfer (v_buffer v) new (v_size v)) (\<lambda>(old, new).
           Option.bind (destroy_n old 0 (v_size v)) (\<lambda>_.
             Some (Ret (), \<lparr> v_buffer = new, v_size = (if adjust then size_wrap (v_size v + size_adjustment) else v_size v) \<rparr>)))))"

definition grow :: "bool \<Rightarrow> bool \<Rightarrow> nat \<Rightarrow> 'a construct_policy \<Rightarrow> 'a transfer_policy \<Rightarrow> 'a vector \<Rightarrow> 'a v_result" where
  "grow adjust granted new_capacity construct transfer v =
     (if new_capacity \<le> v_max_size then grow_unchecked adjust granted new_capacity construct transfer v
      else Some (Throw LengthError, v))"

section \<open>Capacity\<close>

definition v_reserve :: "bool \<Rightarrow> bool \<Rightarrow> nat \<Rightarrow> 'a vector \<Rightarrow> 'a v_result" where
  "v_reserve mv granted new_capacity v =
     (if new_capacity > v_capacity v
      then grow False granted new_capacity (dummy_construct_helper (v_size v)) (transfer_without_shift mv) v
      else Some (Ret (), v))"

definition v_shrink_to_fit :: "bool \<Rightarrow> bool \<Rightarrow> 'a vector \<Rightarrow> 'a v_result" where
  "v_shrink_to_fit mv granted v =
     (if v_capacity v > v_size v
      then grow False granted (v_size v) (dummy_construct_helper (v_size v)) (transfer_without_shift mv) v
      else Some (Ret (), v))"

definition v_clear :: "'a vector \<Rightarrow> 'a v_result" where
  "v_clear v = map_option (\<lambda>b. (Ret (), \<lparr> v_buffer = b, v_size = 0 \<rparr>)) (destroy_n (v_buffer v) 0 (v_size v))"

text \<open>Both overloads of \<open>resize\<close> construct \<open>count - size\<close> objects from one value, which for the first overload is
  that of the default constructor.\<close>

definition v_resize :: "bool \<Rightarrow> bool \<Rightarrow> nat \<Rightarrow> 'a \<Rightarrow> 'a vector \<Rightarrow> 'a v_result" where
  "v_resize mv granted count x v =
     (let current_size = v_size v; construct = construct_fill_helper current_size x (count - current_size)
      in if count < current_size then
           map_option (\<lambda>b. (Ret (), \<lparr> v_buffer = b, v_size = count \<rparr>)) (destroy_n (v_buffer v) count (current_size - count))
         else if count > current_size then
           if count \<le> v_capacity v then
             map_option (\<lambda>(b, _). (Ret (), \<lparr> v_buffer = b, v_size = count \<rparr>)) (construct (v_buffer v))
           else map_option (\<lambda>(r, v). case r of Throw e \<Rightarrow> (r, v) | Ret _ \<Rightarrow> (r, v\<lparr> v_size := count \<rparr>))
                  (grow False granted count construct (transfer_without_shift mv) v)
         else Some (Ret (), v\<lparr> v_size := count \<rparr>))"

section \<open>Insertion\<close>

definition v_emplace_back :: "bool \<Rightarrow> bool \<Rightarrow> 'a \<Rightarrow> 'a vector \<Rightarrow> 'a v_result" where
  "v_emplace_back mv granted x v =
     (if v_size v = v_capacity v
      then grow True granted (calc_growth v) (construct_at_helper (v_size v) x) (transfer_without_shift mv) v
      else map_option (\<lambda>b. (Ret (), \<lparr> v_buffer = b, v_size = v_size v + 1 \<rparr>)) (construct_at (v_buffer v) (v_size v) x))"

definition v_emplace :: "bool \<Rightarrow> bool \<Rightarrow> nat \<Rightarrow> 'a \<Rightarrow> 'a vector \<Rightarrow> 'a v_result" where
  "v_emplace mv granted offset x v =
     (if offset = v_size v then v_emplace_back mv granted x v
      else if v_size v = v_capacity v then
        grow True granted (calc_growth v) (construct_at_helper offset x) (transfer_with_shift_right mv offset (offset + 1)) v
      else Option.bind (take_at mv (v_buffer v) (v_size v - 1)) (\<lambda>(back, b).
           Option.bind (construct_at b (v_size v) back) (\<lambda>b.
           Option.bind (shift_right b offset (v_size v) 1) (\<lambda>b.
           Option.bind (assign_at b offset x) (\<lambda>b. Some (Ret (), \<lparr> v_buffer = b, v_size = v_size v + 1 \<rparr>))))))"

text \<open>\<open>insert_n_without_grow\<close> and \<open>insert_range_without_grow\<close>: the values \<open>xs\<close>, which for the first are \<open>count\<close> copies
  of one value, are assigned to the objects behind \<open>offset\<close> and constructed in the raw memory.\<close>

definition v_insert_n_without_grow :: "bool \<Rightarrow> nat \<Rightarrow> 'a \<Rightarrow> nat \<Rightarrow> 'a vector \<Rightarrow> 'a vector option" where
  "v_insert_n_without_grow mv count x offset v =
     (let current_size = v_size v; residue = current_size - offset
      in if count \<le> residue then
           Option.bind (uninitialized_transfer_within mv (v_buffer v) (offset + (residue - count)) current_size count) (\<lambda>b.
           Option.bind (shift_right b offset current_size count) (\<lambda>b.
           Option.bind (fill_n b offset count x) (\<lambda>b. Some \<lparr> v_buffer = b, v_size = current_size + count \<rparr>)))
         else
           Option.bind (uninitialized_fill_n (v_buffer v) current_size (count - residue) x) (\<lambda>b.
           Option.bind (uninitialized_transfer_within mv b offset (current_size + (count - residue)) residue) (\<lambda>b.
           Option.bind (fill_n b offset residue x) (\<lambda>b.
             Some \<lparr> v_buffer = b, v_size = current_size + (count - residue) + residue \<rparr>))))"

definition v_insert_range_without_grow :: "bool \<Rightarrow> 'a list \<Rightarrow> nat \<Rightarrow> 'a vector \<Rightarrow> 'a vector option" where
  "v_insert_range_without_grow mv xs offset v =
     (let current_size = v_size v; residue = current_size - offset; range_length = length xs
      in if range_length \<le> residue then
           Option.bind (uninitialized_transfer_within mv (v_buffer v) (offset + (residue - range_length)) current_size range_length) (\<lambda>b.
           Option.bind (shift_right b offset current_size range_length) (\<lambda>b.
           Option.bind (copy_n xs b offset) (\<lambda>b. Some \<lparr> v_buffer = b, v_size = current_size + range_length \<rparr>)))
         else
           Option.bind (uninitialized_copy_n (drop residue xs) (v_buffer v) current_size) (\<lambda>b.
           Option.bind (uninitialized_transfer_within mv b offset (current_size + (range_length - residue)) residue) (\<lambda>b.
           Option.bind (copy_n (take residue xs) b offset) (\<lambda>b.
             Some \<lparr> v_buffer = b, v_size = current_size + (range_length - residue) + residue \<rparr>))))"

definition v_append_n_without_grow :: "nat \<Rightarrow> 'a \<Rightarrow> 'a vector \<Rightarrow> 'a vector option" where
  "v_append_n_without_grow count x v =
     map_option (\<lambda>(b, n). \<lparr> v_buffer = b, v_size = v_size v + n \<rparr>) (construct_fill_helper (v_size v) x count (v_buffer v))"

definition v_append_range_without_grow :: "'a list \<Rightarrow> 'a vector \<Rightarrow> 'a vector option" where
  "v_append_range_without_grow xs v =
     map_option (\<lambda>(b, n). \<lparr> v_buffer = b, v_size = v_size v + n \<rparr>) (range_construct_helper (v_size v) xs (v_buffer v))"

text \<open>\<open>insert (pos, count, value)\<close> passes the value and the count to \<open>append_n_without_grow\<close> in the wrong order, so
  that it compiles only when they convert into each other (\<open>to_size\<close>, \<open>of_size\<close>). The results of both
  functions are an iterator too, the index \<open>size\<close> in every case.\<close>

definition v_insert_n :: "('a \<Rightarrow> nat) \<Rightarrow> (nat \<Rightarrow> 'a) \<Rightarrow> bool \<Rightarrow> bool \<Rightarrow> nat \<Rightarrow> nat \<Rightarrow> 'a \<Rightarrow> 'a vector \<Rightarrow> (nat outcome \<times> 'a vector) option" where
  "v_insert_n to_size of_size mv granted offset count x v =
     (let current_size = v_size v; required = size_wrap (current_size + count)
      in map_option (\<lambda>(r, v). (case r of Ret _ \<Rightarrow> Ret current_size | Throw e \<Rightarrow> Throw e, v))
         (if required > v_capacity v then
            grow True granted (calc_optimal_growth v required) (construct_fill_helper offset x count)
              (transfer_with_shift_right mv offset (offset + count)) v
          else if offset = v_size v then map_option (Pair (Ret ())) (v_append_n_without_grow (to_size x) (of_size count) v)
          else map_option (Pair (Ret ())) (v_insert_n_without_grow mv count x offset v)))"

definition v_insert_range :: "bool \<Rightarrow> bool \<Rightarrow> nat \<Rightarrow> 'a list \<Rightarrow> 'a vector \<Rightarrow> (nat outcome \<times> 'a vector) option" where
  "v_insert_range mv granted offset xs v =
     (let current_size = v_size v; range_length = length xs; required = size_wrap (current_size + range_length)
      in map_option (\<lambda>(r, v). (case r of Ret _ \<Rightarrow> Ret current_size | Throw e \<Rightarrow> Throw e, v))
         (if required > v_capacity v then
            grow True granted (calc_optimal_growth v required) (range_construct_helper offset xs)
              (transfer_with_shift_right mv offset (offset + range_length)) v
          else if offset = v_size v then map_option (Pair (Ret ())) (v_append_range_without_grow xs v)
          else map_option (Pair (Ret ())) (v_insert_range_without_grow mv xs offset v)))"

section \<open>Removal\<close>

definition v_pop_back :: "'a vector \<Rightarrow> 'a v_result" where
  "v_pop_back v =
     (if v_size v = 0 then None
      else map_option (\<lambda>b. (Ret (), \<lparr> v_buffer = b, v_size = v_size v - 1 \<rparr>)) (destroy_at (v_buffer v) (v_size v - 1)))"

definition v_erase_impl :: "nat \<Rightarrow> nat \<Rightarrow> 'a vector \<Rightarrow> 'a v_result" where
  "v_erase_impl offset count v =
     map_option (\<lambda>b. (Ret (), \<lparr> v_buffer = b, v_size = v_size v - count \<rparr>)) (shift_left (v_buffer v) offset (v_size v) count)"

section \<open>Whole vectors\<close>

text \<open>The elements of a vector as a range of values; reading anything but a live object is undefined.\<close>

fun live_values :: "'a cell list \<Rightarrow> 'a list option" where
  "live_values [] = Some []"
| "live_values (c # cs) = (case c of Live x \<Rightarrow> map_option (Cons x) (live_values cs) | _ \<Rightarrow> None)"

definition v_elements :: "'a vector \<Rightarrow> 'a list option" where
  "v_elements v = live_values (take (v_size v) (v_buffer v))"

definition v_copy :: "bool \<Rightarrow> 'a vector \<Rightarrow> 'a v_result" where
  "v_copy granted other =
     Option.bind (v_elements other) (\<lambda>xs.
       grow_unchecked True granted (v_size other) (range_construct_helper 0 xs) dummy_transfer empty_vector)"

definition v_construct_n :: "bool \<Rightarrow> nat \<Rightarrow> 'a \<Rightarrow> 'a v_result" where
  "v_construct_n granted object_count x =
     grow True granted object_count (construct_fill_helper 0 x object_count) dummy_transfer empty_vector"

text \<open>The range operations that take one element after the other. \<^verbatim>\<open>forward_or_greater_t\<close> tests the inheritance of the
  iterator categories the wrong way round and selects them for bidirectional and random-access
  iterators, pointers included. \<open>grants\<close> tells for each buffer size whether the memory is there.\<close>

fun v_construct_from_range :: "bool \<Rightarrow> (nat \<Rightarrow> bool) \<Rightarrow> 'a list \<Rightarrow> 'a vector \<Rightarrow> 'a v_result" where
  "v_construct_from_range mv grants [] v = Some (Ret (), v)"
| "v_construct_from_range mv grants (x # xs) v =
     Option.bind (v_emplace_back mv (grants (calc_growth v)) x v) (\<lambda>(r, v).
       case r of Throw e \<Rightarrow> Some (Throw e, v) | Ret _ \<Rightarrow> v_construct_from_range mv grants xs v)"

definition v_assign_input :: "bool \<Rightarrow> (nat \<Rightarrow> bool) \<Rightarrow> 'a list \<Rightarrow> 'a vector \<Rightarrow> 'a v_result" where
  "v_assign_input mv grants xs v =
     (let current_size = v_size v; idx = min current_size (length xs)
      in Option.bind (copy_n (take idx xs) (v_buffer v) 0) (\<lambda>b.
         if idx = current_size then v_construct_from_range mv grants (drop idx xs) (v\<lparr> v_buffer := b \<rparr>)
         else map_option (\<lambda>b. (Ret (), \<lparr> v_buffer = b, v_size = current_size - (current_size - idx) \<rparr>))
                (destroy_n b idx (current_size - idx))))"

text \<open>\<open>assign_range\<close> for forward iterators. In the last case \<open>first\<close> is advanced instead of the end of the
  subrange, and the elements between \<open>first\<close> and the start of the range are copied: the loop runs past the end of
  the range unless the vector is empty, in which case it copies nothing.\<close>

definition v_assign_range :: "bool \<Rightarrow> bool \<Rightarrow> 'a list \<Rightarrow> 'a vector \<Rightarrow> 'a v_result" where
  "v_assign_range verify granted xs v =
     (let current_size = v_size v; range_length = length xs
      in if range_length > v_capacity v then
           Option.bind (v_clear v) (\<lambda>(_, v).
             (if verify then grow else grow_unchecked) True granted range_length (range_construct_helper 0 xs) dummy_transfer v)
         else if range_length \<le> current_size then
           Option.bind (copy_n xs (v_buffer v) 0) (\<lambda>b.
             map_option (\<lambda>b. (Ret (), \<lparr> v_buffer = b, v_size = range_length \<rparr>)) (destroy_n b range_length (current_size - range_length)))
         else if current_size = 0 then
           map_option (\<lambda>b. (Ret (), \<lparr> v_buffer = b, v_size = range_length \<rparr>)) (uninitialized_copy_n xs (v_buffer v) 0)
         else None)"

definition v_copy_assign :: "bool \<Rightarrow> 'a vector \<Rightarrow> 'a vector \<Rightarrow> 'a v_result" where
  "v_copy_assign granted other v = Option.bind (v_elements other) (\<lambda>xs. v_assign_range False granted xs v)"

definition v_move :: "'a vector \<Rightarrow> 'a vector \<times> 'a vector" where
  "v_move other = (other, empty_vector)"

definition v_destroy :: "'a vector \<Rightarrow> unit option" where
  "v_destroy v = map_option (\<lambda>_. ()) (destroy_n (v_buffer v) 0 (v_size v))"

definition v_move_assign :: "'a vector \<Rightarrow> 'a vector \<Rightarrow> ('a vector \<times> 'a vector) option" where
  "v_move_assign this other = map_option (\<lambda>_. v_move other) (v_destroy this)"

definition v_swap :: "'a vector \<Rightarrow> 'a vector \<Rightarrow> 'a vector \<times> 'a vector" where
  "v_swap this other = (other, this)"

definition v_at :: "nat \<Rightarrow> 'a vector \<Rightarrow> 'a outcome option" where
  "v_at idx v = (if idx < v_size v then map_option Ret (read_at (v_buffer v) idx) else Some (Throw OutOfRange))"

end
