(* ===== verification/Vector_Spec.thy ===== *)
theory Vector_Spec
  imports Vector
begin

text \<open>
  The vector as a list. \<open>vec xs k\<close> is the vector with the elements \<open>xs\<close> and room for \<open>k\<close> more: live objects followed
  by raw memory. Each operation takes such a vector to such a vector, with the list
  operation of the same name on the elements, or throws and leaves it as it was; the operations that
  break this form are shown separately.
\<close>

definition vec :: "'a list \<Rightarrow> nat \<Rightarrow> 'a vector" where
  "vec xs k = \<lparr> v_buffer = map Live xs @ replicate k Raw, v_size = length xs \<rparr>"

lemma vec_simps [simp]:
  "v_size (vec xs k) = length xs" "v_buffer (vec xs k) = map Live xs @ replicate k Raw"
  "v_capacity (vec xs k) = length xs + k"
  by (simp_all add: vec_def v_capacity_def)

lemma empty_vec: "empty_vector = vec [] 0"
  by (simp add: empty_vector_def vec_def)

lemma live_values_Live [simp]: "live_values (map Live xs) = Some xs"
  by (induction xs) simp_all

lemma v_elements_vec [simp]: "v_elements (vec xs k) = Some xs"
  by (simp add: v_elements_def)

section \<open>Growing\<close>

lemma destroy_left: "destroy_n (map (left mv) xs @ zs) 0 (length xs) = Some (replicate (length xs) Raw @ zs)"
  using destroy_n_spec [of "map (left mv) xs" "[]" zs] by simp

lemma destroy_live: "destroy_n (map Live xs @ zs) 0 (length xs) = Some (replicate (length xs) Raw @ zs)"
  using destroy_n_spec [of "map Live xs" "[]" zs] by simp

lemma grow_plain:
  assumes "construct (replicate cap Raw) = Some (replicate (length xs) Raw @ rest, n)"
  shows "grow_unchecked adj True cap construct (transfer_without_shift mv) (vec xs k) =
    Some (Ret (), \<lparr> v_buffer = map Live xs @ rest, v_size = (if adj then size_wrap (length xs + n) else length xs) \<rparr>)"
  using assms uninitialized_transfer_spec [of mv "[]" xs "replicate k Raw" "[]" rest]
  by (simp add: grow_unchecked_def transfer_without_shift_def destroy_left)

lemma grow_shift:
  assumes "construct (replicate cap Raw) = Some (replicate (length as) Raw @ mid @ replicate (length bs) Raw @ rest, n)"
    "r = length as + length mid"
  shows "grow_unchecked adj True cap construct (transfer_with_shift_right mv (length as) r) (vec (as @ bs) k) =
    Some (Ret (), \<lparr> v_buffer = map Live as @ mid @ map Live bs @ rest,
                     v_size = (if adj then size_wrap (length as + length bs + n) else length as + length bs) \<rparr>)"
proof -
  have "uninitialized_transfer mv (map Live (as @ bs) @ replicate k Raw) 0 (replicate (length as) Raw @ mid @ replicate (length bs) Raw @ rest) 0 (length as) =
      Some (map (left mv) as @ map Live bs @ replicate k Raw, map Live as @ mid @ replicate (length bs) Raw @ rest)"
    using uninitialized_transfer_spec [of mv "[]" as _ "[]"] by simp
  moreover have "uninitialized_transfer mv (map (left mv) as @ map Live bs @ replicate k Raw) (length as)
        (map Live as @ mid @ replicate (length bs) Raw @ rest) r (length bs) =
      Some (map (left mv) as @ map (left mv) bs @ replicate k Raw, map Live as @ mid @ map Live bs @ rest)"
    using uninitialized_transfer_spec [of mv "map (left mv) as" bs "replicate k Raw" "map Live as @ mid" rest] assms(2) by simp
  moreover have "destroy_n (map (left mv) as @ map (left mv) bs @ replicate k Raw) 0 (length as + length bs) =
      Some (replicate (length as + length bs) Raw @ replicate k Raw)"
    using destroy_left [of mv "as @ bs" "replicate k Raw"] by simp
  ultimately show ?thesis
    using assms(1) by (simp add: grow_unchecked_def transfer_with_shift_right_def)
qed

lemma grow_fresh:
  assumes "construct (replicate cap Raw) = Some (map Live ys @ replicate j Raw, length ys)" "length ys < 2 ^ 64"
  shows "grow_unchecked True True cap construct dummy_transfer (vec [] k) = Some (Ret (), vec ys j)"
  using assms by (simp add: grow_unchecked_def dummy_transfer_def vec_def)

text \<open>A growth that throws leaves the vector alone.\<close>

lemma grow_throws:
  "\<not> granted \<Longrightarrow> grow_unchecked adj granted cap construct transfer v = Some (Throw BadAlloc, v)"
  by (simp add: grow_unchecked_def)

lemma replicate_split: "a + b \<le> n \<Longrightarrow> replicate n x = replicate a x @ replicate b x @ replicate (n - a - b) x"
  by (simp add: replicate_add [symmetric])

section \<open>The specification\<close>

datatype 'a v_op =
    V_push_back 'a
  | V_emplace nat 'a
  | V_insert_n nat nat 'a
  | V_insert_range nat "'a list"
  | V_pop_back
  | V_resize nat 'a
  | V_reserve nat
  | V_shrink_to_fit
  | V_clear

definition drop_index :: "(nat outcome \<times> 'a vector) option \<Rightarrow> 'a v_result" where
  "drop_index = map_option (\<lambda>(r, v). (case r of Ret _ \<Rightarrow> Ret () | Throw e \<Rightarrow> Throw e, v))"

fun v_exec :: "('a \<Rightarrow> nat) \<Rightarrow> (nat \<Rightarrow> 'a) \<Rightarrow> bool \<Rightarrow> bool \<Rightarrow> 'a v_op \<Rightarrow> 'a vector \<Rightarrow> 'a v_result" where
  "v_exec ts os mv granted (V_push_back x) v = v_emplace_back mv granted x v"
| "v_exec ts os mv granted (V_emplace i x) v = v_emplace mv granted i x v"
| "v_exec ts os mv granted (V_insert_n i n x) v = drop_index (v_insert_n ts os mv granted i n x v)"
| "v_exec ts os mv granted (V_insert_range i xs) v = drop_index (v_insert_range mv granted i xs v)"
| "v_exec ts os mv granted V_pop_back v = v_pop_back v"
| "v_exec ts os mv granted (V_resize n x) v = v_resize mv granted n x v"
| "v_exec ts os mv granted (V_reserve n) v = v_reserve mv granted n v"
| "v_exec ts os mv granted V_shrink_to_fit v = v_shrink_to_fit mv granted v"
| "v_exec ts os mv granted V_clear v = v_clear v"

fun list_op :: "'a v_op \<Rightarrow> 'a list \<Rightarrow> 'a list" where
  "list_op (V_push_back x) xs = xs @ [x]"
| "list_op (V_emplace i x) xs = take i xs @ x # drop i xs"
| "list_op (V_insert_n i n x) xs = take i xs @ replicate n x @ drop i xs"
| "list_op (V_insert_range i ys) xs = take i xs @ ys @ drop i xs"
| "list_op V_pop_back xs = butlast xs"
| "list_op (V_resize n x) xs = take n xs @ replicate (n - length xs) x"
| "list_op (V_reserve n) xs = xs"
| "list_op V_shrink_to_fit xs = xs"
| "list_op V_clear xs = []"

text \<open>When an operation is used as meant: at a position of the vector, below half of the address space, and
  without the case of \<^verbatim>\<open>insert\<close> that swaps its arguments.\<close>

fun v_op_ok :: "'a v_op \<Rightarrow> 'a vector \<Rightarrow> bool" where
  "v_op_ok (V_push_back x) v \<longleftrightarrow> v_capacity v < 2 ^ 63"
| "v_op_ok (V_emplace i x) v \<longleftrightarrow> i \<le> v_size v \<and> v_capacity v < 2 ^ 63"
| "v_op_ok (V_insert_n i n x) v \<longleftrightarrow>
     i \<le> v_size v \<and> v_capacity v < 2 ^ 63 \<and> n < 2 ^ 63 \<and> (i = v_size v \<longrightarrow> v_capacity v < v_size v + n)"
| "v_op_ok (V_insert_range i xs) v \<longleftrightarrow> i \<le> v_size v \<and> v_capacity v < 2 ^ 63 \<and> length xs < 2 ^ 63"
| "v_op_ok V_pop_back v \<longleftrightarrow> v_size v \<noteq> 0"
| "v_op_ok (V_resize n x) v \<longleftrightarrow> True"
| "v_op_ok (V_reserve n) v \<longleftrightarrow> True"
| "v_op_ok V_shrink_to_fit v \<longleftrightarrow> v_capacity v < 2 ^ 63"
| "v_op_ok V_clear v \<longleftrightarrow> True"

text \<open>The operation took effect, or it threw and left the vector as it was: \<^verbatim>\<open>bad_alloc\<close> only when the memory was not
  granted, \<^verbatim>\<open>length_error\<close> only when the result would not fit.\<close>

definition refines_to :: "bool \<Rightarrow> bool \<Rightarrow> 'a v_result \<Rightarrow> 'a list \<Rightarrow> 'a list \<Rightarrow> nat \<Rightarrow> bool" where
  "refines_to granted fits r xs ys k \<longleftrightarrow>
     (\<exists>j. r = Some (Ret (), vec ys j)) \<or>
     r = Some (Throw BadAlloc, vec xs k) \<and> \<not> granted \<or> r = Some (Throw LengthError, vec xs k) \<and> \<not> fits"

fun v_fits :: "'a v_op \<Rightarrow> bool" where
  "v_fits (V_resize n x) \<longleftrightarrow> n \<le> v_max_size"
| "v_fits (V_reserve n) \<longleftrightarrow> n \<le> v_max_size"
| "v_fits _ \<longleftrightarrow> True"

lemma refines_ret: "r = Some (Ret (), vec ys j) \<Longrightarrow> refines_to granted fits r xs ys k"
  by (auto simp: refines_to_def)

section \<open>Operations\<close>

lemma refines_grow:
  assumes "granted \<Longrightarrow> cap \<le> v_max_size \<Longrightarrow> grow_unchecked adj True cap construct transfer (vec xs k) = Some (Ret (), vec ys j)"
    "fits \<Longrightarrow> cap \<le> v_max_size"
  shows "refines_to granted fits (grow adj granted cap construct transfer (vec xs k)) xs ys k"
  using assms by (cases granted) (auto simp: refines_to_def grow_def grow_throws)

lemma calc_growth_le: "v_capacity v < 2 ^ 63 \<Longrightarrow> calc_growth v \<le> v_max_size"
  by (auto simp: calc_growth_def v_max_size_def size_max_def)

lemma calc_growth_gt:
  "v_capacity v < 2 ^ 63 \<Longrightarrow> v_capacity v < calc_growth v"
  by (auto simp: calc_growth_def calc_growth_unchecked_def v_max_size_def size_max_def)

lemma size_wrap_max: "n \<le> v_max_size \<Longrightarrow> size_wrap n = n"
  by (simp add: v_max_size_def size_max_def)

text \<open>The three helpers construct values in a fresh buffer.\<close>

definition constructs_in :: "'a construct_policy \<Rightarrow> nat \<Rightarrow> 'a list \<Rightarrow> bool" where
  "constructs_in construct pos ys \<longleftrightarrow> (\<forall>rest.
     construct (replicate pos Raw @ replicate (length ys) Raw @ rest) = Some (replicate pos Raw @ map Live ys @ rest, length ys))"

lemma helpers_construct:
  fixes x :: 'a and ys :: "'a list"
  shows "constructs_in (construct_at_helper pos x) pos [x]"
    and "constructs_in (construct_fill_helper pos x n) pos (replicate n x)"
    and "constructs_in (range_construct_helper pos ys) pos ys"
proof -
  have "construct_at (replicate pos Raw @ Raw # rest) pos x = Some (replicate pos Raw @ Live x # rest)"
    "uninitialized_fill_n (replicate pos Raw @ replicate n Raw @ rest) pos n x = Some (replicate pos Raw @ replicate n (Live x) @ rest)"
    "uninitialized_copy_n ys (replicate pos Raw @ replicate (length ys) Raw @ rest) pos = Some (replicate pos Raw @ map Live ys @ rest)" for rest
    using construct_at_append [of "replicate pos Raw" rest x] uninitialized_fill_n_spec [of "replicate pos Raw" n rest x]
      uninitialized_copy_n_spec [of ys "replicate pos Raw" rest] by simp_all
  then show "constructs_in (construct_at_helper pos x) pos [x]" "constructs_in (construct_fill_helper pos x n) pos (replicate n x)"
    "constructs_in (range_construct_helper pos ys) pos ys"
    by (simp_all add: constructs_in_def construct_at_helper_def construct_fill_helper_def range_construct_helper_def)
qed

lemma constructs_in_fresh:
  assumes "constructs_in construct pos ys" "pos + length ys + n \<le> cap"
  shows "construct (replicate cap Raw) =
    Some (replicate pos Raw @ map Live ys @ replicate n Raw @ replicate (cap - pos - length ys - n) Raw, length ys)"
proof -
  have "replicate cap Raw = replicate pos Raw @ replicate (length ys) Raw @ replicate n Raw @ replicate (cap - pos - length ys - n) Raw"
    using assms(2) by (simp add: replicate_add [symmetric])
  then show ?thesis using assms(1) unfolding constructs_in_def by metis
qed

lemma grow_insert:
  assumes c: "constructs_in construct (length as) ys" and l: "length as + length ys + length bs \<le> cap" "cap \<le> v_max_size"
  shows "grow_unchecked True True cap construct (transfer_with_shift_right mv (length as) (length as + length ys)) (vec (as @ bs) k) =
    Some (Ret (), vec (as @ ys @ bs) (cap - length as - length ys - length bs))"
proof -
  have "size_wrap (length as + length bs + length ys) = length as + length bs + length ys"
    using l by (intro size_wrap_max) simp
  then show ?thesis
    using grow_shift [where as = as and bs = bs and mid = "map Live ys" and adj = True and mv = mv and k = k and n = "length ys"
        and rest = "replicate (cap - length as - length ys - length bs) Raw" and construct = construct and cap = cap]
      constructs_in_fresh [OF c l(1)]
    by (simp add: vec_def)
qed

lemma grow_back:
  assumes c: "constructs_in construct (length xs) ys" and l: "length xs + length ys \<le> cap" "cap \<le> v_max_size"
  shows "grow_unchecked True True cap construct (transfer_without_shift mv) (vec xs k) =
    Some (Ret (), vec (xs @ ys) (cap - length xs - length ys))"
proof -
  have "size_wrap (length xs + length ys) = length xs + length ys" using l by (intro size_wrap_max) simp
  then show ?thesis
    using constructs_in_fresh [OF c, of 0 cap] l(1)
      grow_plain [where xs = xs and rest = "map Live ys @ replicate (cap - length xs - length ys) Raw" and n = "length ys"
        and adj = True and construct = construct and cap = cap and mv = mv and k = k]
    by (simp add: vec_def)
qed

lemma vec_emplace_back_refines:
  assumes "length xs + k < 2 ^ 63"
  shows "refines_to granted True (v_emplace_back mv granted x (vec xs k)) xs (xs @ [x]) k"
proof (cases k)
  case 0
  have "length xs < calc_growth (vec xs 0)" "calc_growth (vec xs 0) \<le> v_max_size"
    using calc_growth_gt [of "vec xs 0"] calc_growth_le [of "vec xs 0"] assms 0 by simp_all
  then have "refines_to granted True (grow True granted (calc_growth (vec xs 0)) (construct_at_helper (length xs) x) (transfer_without_shift mv) (vec xs 0))
      xs (xs @ [x]) 0"
    using grow_back [OF helpers_construct(1) [of "length xs" x], of "calc_growth (vec xs 0)" mv 0]
    by - (rule refines_grow [where j = "calc_growth (vec xs 0) - length xs - 1"], simp_all)
  then show ?thesis using 0 by (simp add: v_emplace_back_def)
next
  case (Suc j)
  then show ?thesis
    using construct_at_append [of "map Live xs" "replicate j Raw" x]
    by (intro refines_ret [where j = j]) (simp add: v_emplace_back_def vec_def v_capacity_def)
qed

lemma emplace_in_place:
  "v_emplace mv granted (length as) x (vec (as @ us @ [u]) (Suc j)) = Some (Ret (), vec (as @ x # us @ [u]) j)"
proof -
  let ?l = "length as + Suc (length us)"
  have t: "take_at mv (map Live (as @ us @ [u]) @ Raw # replicate j Raw) (length as + length us) =
      Some (u, map Live (as @ us) @ left mv u # Raw # replicate j Raw)"
    using take_at_append [of mv "map Live (as @ us)" u] by simp
  have c: "construct_at (map Live (as @ us) @ left mv u # Raw # replicate j Raw) ?l u =
      Some (map Live as @ map Live us @ [left mv u] @ Live u # replicate j Raw)"
    using construct_at_append [of "map Live (as @ us) @ [left mv u]"] by simp
  obtain ps where p: "length ps = 1" "Raw \<notin> set ps"
    "shift_right (map Live as @ map Live us @ [left mv u] @ Live u # replicate j Raw) (length as) ?l 1 =
       Some (map Live as @ ps @ map Live us @ Live u # replicate j Raw)"
    by (rule shift_right_spec [of "[left mv u]" "length as" "map Live as" ?l us 1 "Live u # replicate j Raw"]) auto
  obtain q where q: "ps = [q]" "q \<noteq> Raw" using p by (cases ps) auto
  have "assign_at (map Live as @ q # map Live us @ Live u # replicate j Raw) (length as) x =
      Some (map Live as @ Live x # map Live us @ Live u # replicate j Raw)"
    using assign_at_append [OF q(2), of "map Live as"] by simp
  then have "v_emplace mv granted (length as) x (vec (as @ us @ [u]) (Suc j)) =
      Some (Ret (), \<lparr> v_buffer = map Live as @ Live x # map Live us @ Live u # replicate j Raw, v_size = Suc ?l \<rparr>)"
    using t c p(3) q by (simp add: v_emplace_def)
  then show ?thesis by (simp add: vec_def)
qed

lemma vec_emplace_refines:
  assumes "i \<le> length xs" "length xs + k < 2 ^ 63"
  shows "refines_to granted True (v_emplace mv granted i x (vec xs k)) xs (take i xs @ x # drop i xs) k"
proof -
  define as bs where "as = take i xs" and "bs = drop i xs"
  have ab: "xs = as @ bs" "i = length as" using assms(1) by (simp_all add: as_def bs_def)
  have "refines_to granted True (v_emplace mv granted (length as) x (vec (as @ bs) k)) (as @ bs) (as @ x # bs) k"
  proof (cases bs rule: rev_cases)
    case Nil
    then show ?thesis using vec_emplace_back_refines assms(2) by (simp add: v_emplace_def ab)
  next
    case (snoc us u)
    show ?thesis
    proof (cases k)
      case 0
      let ?cap = "calc_growth (vec (as @ bs) 0)"
      have "length as + length bs < ?cap" "?cap \<le> v_max_size"
        using calc_growth_gt [of "vec (as @ bs) 0"] calc_growth_le [of "vec (as @ bs) 0"] assms 0 ab by simp_all
      then have "refines_to granted True (grow True granted ?cap (construct_at_helper (length as) x)
          (transfer_with_shift_right mv (length as) (length as + 1)) (vec (as @ bs) 0)) (as @ bs) (as @ x # bs) 0"
        using grow_insert [OF helpers_construct(1) [of "length as" x], of bs ?cap mv 0]
        by - (rule refines_grow [where j = "?cap - length as - 1 - length bs"], simp_all)
      then show ?thesis using 0 snoc by (simp add: v_emplace_def)
    next
      case (Suc j)
      then show ?thesis unfolding snoc by (auto intro: refines_ret emplace_in_place)
    qed
  qed
  then show ?thesis by (simp add: ab)
qed

text \<open>Filling is copying a range of equal values.\<close>

lemma fill_n_replicate: "fill_n cs pos n x = copy_n (replicate n x) cs pos"
  by (induction n arbitrary: cs pos) simp_all

lemma uninitialized_fill_n_replicate: "uninitialized_fill_n cs pos n x = uninitialized_copy_n (replicate n x) cs pos"
  by (induction n arbitrary: cs pos) simp_all

lemma insert_n_is_insert_range:
  "v_insert_n_without_grow mv n x i v = v_insert_range_without_grow mv (replicate n x) i v"
  by (simp add: v_insert_n_without_grow_def v_insert_range_without_grow_def fill_n_replicate uninitialized_fill_n_replicate
      Let_def min_def)

lemma insert_range_short:
  assumes "ys \<noteq> []" "length ys = length ts"
  shows "v_insert_range_without_grow mv ys (length as) (vec (as @ us @ ts) (length ts + j)) = Some (vec (as @ ys @ us @ ts) j)"
proof -
  let ?n = "length ts" and ?l = "length as + (length us + length ts)"
  have t: "uninitialized_transfer_within mv (map Live (as @ us @ ts) @ replicate (?n + j) Raw) (length as + length us) ?l ?n =
      Some (map Live as @ map Live us @ map (left mv) ts @ map Live ts @ replicate j Raw)"
    using uninitialized_transfer_within_spec [of mv "map Live (as @ us)" ts "[]" "replicate j Raw"] by (simp add: replicate_add add.assoc)
  obtain ps where p: "length ps = ?n" "Raw \<notin> set ps"
    "shift_right (map Live as @ map Live us @ map (left mv) ts @ map Live ts @ replicate j Raw) (length as) ?l ?n =
       Some (map Live as @ ps @ map Live us @ map Live ts @ replicate j Raw)"
    by (rule shift_right_spec [of "map (left mv) ts" "length as" "map Live as" ?l us ?n "map Live ts @ replicate j Raw"])
      (use assms in auto)
  have "copy_n ys (map Live as @ ps @ map Live us @ map Live ts @ replicate j Raw) (length as) =
      Some (map Live as @ map Live ys @ map Live us @ map Live ts @ replicate j Raw)"
    using copy_n_spec [of ys ps "map Live as"] p assms by simp
  then have "v_insert_range_without_grow mv ys (length as) (vec (as @ us @ ts) (?n + j)) =
      Some \<lparr> v_buffer = map Live as @ map Live ys @ map Live us @ map Live ts @ replicate j Raw, v_size = ?l + ?n \<rparr>"
    using t p(3) assms by (simp add: v_insert_range_without_grow_def Let_def)
  then show ?thesis using assms by (simp add: vec_def)
qed

lemma insert_range_long:
  assumes "length bs = length ys" "ws \<noteq> []"
  shows "v_insert_range_without_grow mv (ys @ ws) (length as) (vec (as @ bs) (length (ys @ ws) + j)) = Some (vec (as @ ys @ ws @ bs) j)"
proof -
  let ?k = "length as + length bs"
  have c: "uninitialized_copy_n ws (map Live (as @ bs) @ replicate (length (ys @ ws) + j) Raw) ?k =
      Some (map Live as @ map Live bs @ map Live ws @ replicate (length bs) Raw @ replicate j Raw)"
    using uninitialized_copy_n_spec [of ws "map Live (as @ bs)" "replicate (length bs) Raw @ replicate j Raw"] assms
    by (simp add: replicate_add [symmetric] add.assoc add.left_commute)
  have t: "uninitialized_transfer_within mv (map Live as @ map Live bs @ map Live ws @ replicate (length bs) Raw @ replicate j Raw)
        (length as) (?k + length ws) (length bs) =
      Some (map Live as @ map (left mv) bs @ map Live ws @ map Live bs @ replicate j Raw)"
    using uninitialized_transfer_within_spec [of mv "map Live as" bs "map Live ws" "replicate j Raw"] by simp
  have "copy_n ys (map Live as @ map (left mv) bs @ map Live ws @ map Live bs @ replicate j Raw) (length as) =
      Some (map Live as @ map Live ys @ map Live ws @ map Live bs @ replicate j Raw)"
    using copy_n_spec [of ys "map (left mv) bs" "map Live as"] assms by simp
  then show ?thesis using c t assms by (simp add: v_insert_range_without_grow_def Let_def)
qed

lemma insert_range_in_place:
  assumes "length ys \<le> k"
  shows "v_insert_range_without_grow mv ys (length as) (vec (as @ bs) k) = Some (vec (as @ ys @ bs) (k - length ys))"
proof -
  consider "ys = []" | "ys \<noteq> []" "length ys \<le> length bs" | "length bs < length ys" by linarith
  then show ?thesis
  proof cases
    case 1
    then show ?thesis by (simp add: v_insert_range_without_grow_def shift_right_def)
  next
    case 2
    let ?n = "length bs - length ys"
    show ?thesis
      using insert_range_short [OF 2(1), of "drop ?n bs" mv as "take ?n bs" "k - length ys"] 2(2) assms by simp
  next
    case 3
    then obtain us ws where "ys = us @ ws" "length us = length bs" "ws \<noteq> []"
      by (intro that [of "take (length bs) ys" "drop (length bs) ys"]) simp_all
    then show ?thesis using insert_range_long [of bs us ws mv as "k - length ys"] assms by simp
  qed
qed

lemma append_range_in_place:
  "length ys \<le> k \<Longrightarrow> v_append_range_without_grow ys (vec xs k) = Some (vec (xs @ ys) (k - length ys))"
  using uninitialized_copy_n_spec [of ys "map Live xs" "replicate (k - length ys) Raw"]
  by (simp add: v_append_range_without_grow_def range_construct_helper_def replicate_add [symmetric])

text \<open>Both insertions, on the parts before and behind the position.\<close>

lemma insert_grow:
  assumes "constructs_in construct (length as) ys" "length as + length bs + k < length as + length bs + length ys"
    "length as + length bs + k < 2 ^ 63" "length ys < 2 ^ 63"
  shows "refines_to granted True (grow True granted (calc_optimal_growth (vec (as @ bs) k) (length as + length bs + length ys)) construct
      (transfer_with_shift_right mv (length as) (length as + length ys)) (vec (as @ bs) k)) (as @ bs) (as @ ys @ bs) k"
  using grow_insert [OF assms(1), of bs "calc_optimal_growth (vec (as @ bs) k) (length as + length bs + length ys)" mv k]
    calc_growth_le [of "vec (as @ bs) k"] assms(2-)
  by (intro refines_grow) (auto simp: calc_optimal_growth_def v_max_size_def size_max_def)

lemma drop_index_grow: "drop_index (map_option (\<lambda>(r, v). (case r of Ret _ \<Rightarrow> Ret i | Throw e \<Rightarrow> Throw e, v)) r) = r"
  by (auto simp: drop_index_def option.map_comp comp_def split: outcome.splits intro!: option.map_ident_strong)

lemma vec_insert_range_refines:
  assumes "length as + length bs + k < 2 ^ 63" "length ys < 2 ^ 63"
  shows "refines_to granted True (drop_index (v_insert_range mv granted (length as) ys (vec (as @ bs) k))) (as @ bs) (as @ ys @ bs) k"
proof -
  have w: "size_wrap (length as + length bs + length ys) = length as + length bs + length ys" using assms by simp
  show ?thesis
    using insert_grow [OF helpers_construct(3), of as bs k ys granted mv] assms w
      insert_range_in_place [of ys k mv as bs] append_range_in_place [of ys k as]
    by (auto simp: v_insert_range_def drop_index_grow Let_def intro!: refines_ret)
qed

lemma vec_insert_n_refines:
  assumes "length as + length bs + k < 2 ^ 63" "n < 2 ^ 63" "bs = [] \<Longrightarrow> k < n"
  shows "refines_to granted True (drop_index (v_insert_n ts os mv granted (length as) n x (vec (as @ bs) k))) (as @ bs) (as @ replicate n x @ bs) k"
proof -
  have w: "size_wrap (length as + length bs + n) = length as + length bs + n" using assms by simp
  show ?thesis
    using insert_grow [OF helpers_construct(2), of as bs k n x granted mv] assms w
      insert_range_in_place [of "replicate n x" k mv as bs]
    by (auto simp: v_insert_n_def drop_index_grow Let_def insert_n_is_insert_range intro!: refines_ret)
qed

section \<open>The remaining operations\<close>

lemma grow_same:
  assumes "length xs \<le> cap"
  shows "grow_unchecked False True cap (dummy_construct_helper (length xs)) (transfer_without_shift mv) (vec xs k) =
    Some (Ret (), vec xs (cap - length xs))"
  using grow_plain [of "dummy_construct_helper (length xs)" cap xs "replicate (cap - length xs) Raw" "length xs" False mv k] assms
  by (simp add: dummy_construct_helper_def replicate_add [symmetric])

lemma vec_reserve_refines: "refines_to granted (n \<le> v_max_size) (v_reserve mv granted n (vec xs k)) xs xs k"
  by (auto simp: v_reserve_def intro: refines_ret intro!: refines_grow grow_same)

lemma vec_shrink_refines:
  "length xs + k < 2 ^ 63 \<Longrightarrow> refines_to granted True (v_shrink_to_fit mv granted (vec xs k)) xs xs k"
  by (auto simp: v_shrink_to_fit_def v_max_size_def size_max_def intro: refines_ret intro!: refines_grow grow_same)

lemma vec_clear_refines: "v_clear (vec xs k) = Some (Ret (), vec [] (length xs + k))"
  by (simp add: v_clear_def destroy_live vec_def replicate_add)

lemma vec_pop_back_refines: "v_pop_back (vec (xs @ [x]) k) = Some (Ret (), vec xs (Suc k))"
proof -
  have "destroy_at (map Live xs @ Live x # replicate k Raw) (length xs) = Some (map Live xs @ Raw # replicate k Raw)"
    using destroy_n_spec [of "[Live x]" "map Live xs" "replicate k Raw"] by simp
  then show ?thesis by (simp add: v_pop_back_def)
qed

lemma resize_down: "v_resize mv granted (length as) x (vec (as @ bs) k) = Some (Ret (), vec as (length bs + k))"
proof (cases bs)
  case (Cons b bs')
  then show ?thesis
    using destroy_n_spec [of "map Live bs" "map Live as" "replicate k Raw"]
    by (simp add: v_resize_def) (simp add: vec_def replicate_add)
qed (simp add: v_resize_def)

lemma resize_up: 
  assumes "0 < n"
  shows "refines_to granted (length xs + n \<le> v_max_size) (v_resize mv granted (length xs + n) x (vec xs k)) xs (xs @ replicate n x) k"
proof (cases "n \<le> k")
  case True
  then have "construct_fill_helper (length xs) x n (map Live xs @ replicate k Raw) =
      Some (map Live xs @ replicate n (Live x) @ replicate (k - n) Raw, n)"
    using uninitialized_fill_n_spec [of "map Live xs" n "replicate (k - n) Raw" x]
    by (simp add: construct_fill_helper_def replicate_add [symmetric])
  then show ?thesis using True assms
    by (intro refines_ret [where j = "k - n"]) (simp add: v_resize_def vec_def v_capacity_def)
next
  case False
  have "construct_fill_helper (length xs) x n (replicate (length xs + n) Raw) = Some (replicate (length xs) Raw @ map Live (replicate n x), n)"
    using constructs_in_fresh [OF helpers_construct(2) [of "length xs" x n], of 0 "length xs + n"] by simp
  then have "grow_unchecked False True (length xs + n) (construct_fill_helper (length xs) x n) (transfer_without_shift mv) (vec xs k) =
      Some (Ret (), \<lparr> v_buffer = map Live (xs @ replicate n x), v_size = length xs \<rparr>)"
    using grow_plain [where construct = "construct_fill_helper (length xs) x n" and cap = "length xs + n" and xs = xs
        and rest = "map Live (replicate n x)" and n = n and adj = False and mv = mv and k = k] by simp
  moreover have "v_resize mv granted (length xs + n) x (vec xs k) =
      map_option (\<lambda>(r, v). case r of Throw e \<Rightarrow> (r, v) | Ret _ \<Rightarrow> (r, v\<lparr> v_size := length xs + n \<rparr>))
        (grow False granted (length xs + n) (construct_fill_helper (length xs) x n) (transfer_without_shift mv) (vec xs k))"
    using False assms by (simp add: v_resize_def Let_def)
  moreover have "vec (xs @ replicate n x) 0 = \<lparr> v_buffer = map Live (xs @ replicate n x), v_size = length xs + n \<rparr>"
    by (simp add: vec_def)
  ultimately show ?thesis by (cases granted) (auto simp: grow_def grow_throws refines_to_def intro!: exI [of _ 0])
qed


section \<open>Refinement\<close>



section \<open>Copying, assigning and destroying\<close>

lemma copy_fresh: "length ys \<le> n \<Longrightarrow>
    range_construct_helper 0 ys (replicate n Raw) = Some (map Live ys @ replicate (n - length ys) Raw, length ys)"
  using constructs_in_fresh [OF helpers_construct(3) [of 0 ys], of 0 n] by simp

lemma vec_copy_refines:
  "length xs < 2 ^ 64 \<Longrightarrow>
     v_copy granted (vec xs k) = (if granted then Some (Ret (), vec xs 0) else Some (Throw BadAlloc, vec [] 0))"
  using grow_fresh [where construct = "range_construct_helper 0 xs" and ys = xs and j = 0 and cap = "length xs" and k = 0]
  by (simp add: v_copy_def empty_vec copy_fresh grow_throws)

lemma destroy_all: "v_destroy (vec xs k) = Some ()"
  by (simp add: v_destroy_def destroy_live)

text \<open>Assigning a range that is not longer than the vector, one that does not fit the buffer, and one that fits
  into the buffer of an empty vector.\<close>

lemma assign_prefix:
  assumes "length ys \<le> length xs"
  shows "copy_n ys (map Live xs @ replicate k Raw) 0 = Some (map Live ys @ map Live (drop (length ys) xs) @ replicate k Raw)"
    and "destroy_n (map Live ys @ map Live (drop (length ys) xs) @ replicate k Raw) (length ys) (length xs - length ys) =
      Some (map Live ys @ replicate (length xs - length ys + k) Raw)"
proof -
  have "copy_n ys (map Live (take (length ys) xs @ drop (length ys) xs) @ replicate k Raw) 0 =
      Some (map Live ys @ map Live (drop (length ys) xs) @ replicate k Raw)"
    using copy_n_spec [of ys "map Live (take (length ys) xs)" "[]"] assms by (simp del: append_take_drop_id)
  then show "copy_n ys (map Live xs @ replicate k Raw) 0 = Some (map Live ys @ map Live (drop (length ys) xs) @ replicate k Raw)"
    by simp
qed (use destroy_n_spec [of "map Live (drop (length ys) xs)" "map Live ys" "replicate k Raw"] in \<open>simp add: replicate_add\<close>)

lemma assign_shorter:
  "length ys \<le> length xs \<Longrightarrow>
     v_assign_range verify granted ys (vec xs k) = Some (Ret (), vec ys (length xs - length ys + k))"
  by (simp add: v_assign_range_def assign_prefix Let_def)

lemma assign_longer:
  assumes "length xs + k < length ys" "length ys \<le> v_max_size"
  shows "v_assign_range verify granted ys (vec xs k) =
    (if granted then Some (Ret (), vec ys 0) else Some (Throw BadAlloc, vec [] (length xs + k)))"
proof -
  have "length ys < 2 ^ 64" using assms(2) by (simp add: v_max_size_def size_max_def)
  then show ?thesis using assms
    grow_fresh [where construct = "range_construct_helper 0 ys" and ys = ys and j = 0 and cap = "length ys" and k = "length xs + k"]
    by (simp add: v_assign_range_def vec_clear_refines grow_def grow_throws copy_fresh)
qed

lemma assign_empty:
  "length ys \<le> k \<Longrightarrow> v_assign_range verify granted ys (vec [] k) = Some (Ret (), vec ys (k - length ys))"
  using copy_fresh [of ys k] by (cases ys) (auto simp: v_assign_range_def range_construct_helper_def Let_def)

text \<open>Copy assignment gives a vector with the elements of the other one when that is not longer than
  this one, when it does not fit the buffer (or throws \<^verbatim>\<open>bad_alloc\<close> and leaves an empty vector), and when this vector
  is empty. In the remaining case, a non-empty vector whose buffer has room for the longer range, the
  behaviour is undefined: the copy starts behind the part of the range it should copy and never meets its
  end.\<close>

theorem vector_copy_assign:
  assumes "length ys \<le> v_max_size"
  shows "v_copy_assign granted (vec ys j) (vec xs k) =
    (if length ys \<le> length xs then Some (Ret (), vec ys (length xs - length ys + k))
     else if length xs + k < length ys then
       Some (if granted then (Ret (), vec ys 0) else (Throw BadAlloc, vec [] (length xs + k)))
     else if xs = [] then Some (Ret (), vec ys (k - length ys)) else None)"
  using assms assign_shorter [of ys xs False granted k] assign_longer [of xs k ys False granted] assign_empty [of ys k False granted]
  by (auto simp: v_copy_assign_def) (auto simp: v_assign_range_def)

theorem vector_copy_assign_witness:
  "length [4, 5, 6] \<le> v_max_size \<and>
   v_copy_assign True (vec [4, 5, 6::nat] 0) (vec [7] 2) = None \<and>
   v_copy_assign True (vec [4, 5, 6::nat] 0) (vec [7] 1) = Some (Ret (), vec [4, 5, 6] 0)"
  using vector_copy_assign [of "[4, 5, 6::nat]" True 0 "[7]" 2] vector_copy_assign [of "[4, 5, 6::nat]" True 0 "[7]" 1]
  by (simp add: v_max_size_def size_max_def)

section \<open>Element by element\<close>

lemma vec_construct_n_refines:
  assumes "n \<le> v_max_size"
  shows "v_construct_n granted n x = (if granted then Some (Ret (), vec (replicate n x) 0) else Some (Throw BadAlloc, vec [] 0))"
proof -
  have "n < 2 ^ 64" using assms by (simp add: v_max_size_def size_max_def)
  then show ?thesis
    using assms constructs_in_fresh [OF helpers_construct(2) [of 0 x n], of 0 n]
      grow_fresh [where construct = "construct_fill_helper 0 x n" and ys = "replicate n x" and j = 0 and cap = n and k = 0]
    by (simp add: v_construct_n_def grow_def grow_throws empty_vec)
qed

definition room_after_push :: "nat \<Rightarrow> nat \<Rightarrow> nat" where
  "room_after_push n k = (if k = 0 then max 1 (2 * n) - n - 1 else k - 1)"

lemma emplace_back_room:
  assumes "length xs + k < 2 ^ 63"
  shows "v_emplace_back mv granted x (vec xs k) =
    (if k = 0 \<and> \<not> granted then Some (Throw BadAlloc, vec xs k) else Some (Ret (), vec (xs @ [x]) (room_after_push (length xs) k)))"
proof (cases k)
  case 0
  have "calc_growth (vec xs 0) = max 1 (2 * length xs)" "calc_growth (vec xs 0) \<le> v_max_size"
    using assms 0 calc_growth_le [of "vec xs 0"]
    by (cases xs; auto simp: calc_growth_def calc_growth_unchecked_def v_max_size_def size_max_def max_def)+
  then show ?thesis
    using 0 grow_back [OF helpers_construct(1) [of "length xs" x], of "calc_growth (vec xs 0)" mv 0]
    by (auto simp: v_emplace_back_def grow_def grow_throws room_after_push_def)
next
  case (Suc j)
  then show ?thesis
    using construct_at_append [of "map Live xs" "replicate j Raw" x]
    by (simp add: v_emplace_back_def vec_def v_capacity_def room_after_push_def)
qed

lemma vec_construct_from_range_refines:
  assumes "length xs + length ys < 2 ^ 62" "length xs + k < 2 ^ 63"
  shows "\<exists>r n j. v_construct_from_range mv grants ys (vec xs k) = Some (r, vec (xs @ take n ys) j) \<and>
    (r = Ret () \<and> length ys \<le> n \<or> r = Throw BadAlloc \<and> (\<exists>c. \<not> grants c))"
  using assms
proof (induction ys arbitrary: xs k)
  case (Cons y ys)
  show ?case
  proof (cases "k = 0 \<and> \<not> grants (calc_growth (vec xs k))")
    case True
    then show ?thesis using Cons.prems(2) by (intro exI [of _ "Throw BadAlloc"] exI [of _ 0]) (auto simp: emplace_back_room)
  next
    case False
    have "length (xs @ [y]) + room_after_push (length xs) k < 2 ^ 63"
      using Cons.prems by (auto simp: room_after_push_def)
    moreover have "length (xs @ [y]) + length ys < 2 ^ 62" using Cons.prems by simp
    ultimately obtain r n j where "v_construct_from_range mv grants ys (vec (xs @ [y]) (room_after_push (length xs) k)) =
        Some (r, vec ((xs @ [y]) @ take n ys) j)" "r = Ret () \<and> length ys \<le> n \<or> r = Throw BadAlloc \<and> (\<exists>c. \<not> grants c)"
      using Cons.IH by blast
    then show ?thesis
      using False Cons.prems(2)
      by - (rule exI [of _ r], rule exI [of _ "Suc n"], rule exI [of _ j], auto simp: emplace_back_room)
  qed
qed auto

text \<open>The assignment used for pointers and other random-access iterators assigns to the objects there are,
  and appends or destroys the rest. It ends with the elements of the range, or throws \<^verbatim>\<open>bad_alloc\<close> with the elements of a
  prefix.\<close>

theorem vector_assign_elementwise:
  assumes "length xs < 2 ^ 62" "length ys < 2 ^ 62" "length xs + k < 2 ^ 63"
  shows "\<exists>r n j. v_assign_input mv grants ys (vec xs k) = Some (r, vec (take n ys) j) \<and>
    (r = Ret () \<and> length ys \<le> n \<or> r = Throw BadAlloc \<and> (\<exists>c. \<not> grants c))"
proof (cases "length xs \<le> length ys")
  case True
  let ?us = "take (length xs) ys" and ?ws = "drop (length xs) ys"
  have c: "copy_n ?us (map Live xs @ replicate k Raw) 0 = Some (map Live ?us @ replicate k Raw)"
    using copy_n_spec [of ?us "map Live xs" "[]" "replicate k Raw"] True by simp
  have "v_assign_input mv grants ys (vec xs k) = v_construct_from_range mv grants ?ws (vec ?us k)"
    using True c by (simp add: v_assign_input_def Let_def min_def) (simp add: vec_def)
  moreover obtain r n j where "v_construct_from_range mv grants ?ws (vec ?us k) = Some (r, vec (?us @ take n ?ws) j)"
    "r = Ret () \<and> length ?ws \<le> n \<or> r = Throw BadAlloc \<and> (\<exists>c. \<not> grants c)"
    using vec_construct_from_range_refines [of ?us ?ws k mv grants] assms True by auto
  ultimately show ?thesis
    using True by - (rule exI [of _ r], rule exI [of _ "length xs + n"], rule exI [of _ j], auto simp: take_add)
next
  case False
  then have "v_assign_input mv grants ys (vec xs k) = Some (Ret (), vec ys (length xs - length ys + k))"
    by (simp add: v_assign_input_def assign_prefix Let_def)
  then show ?thesis
    by - (rule exI [of _ "Ret ()"], rule exI [of _ "length ys"], rule exI [of _ "length xs - length ys + k"], simp)
qed

section \<open>Erasing\<close>

text \<open>Erasing \<open>ds\<close> from the middle of a vector leaves the elements before and behind it, but as many
  objects as were erased, moved-from ones, stay alive behind the end: the destructor of the vector does
  not reach them, and the next object appended without growth is constructed over one of them, which is
  undefined in the model.\<close>

theorem vector_erase_keeps_tail_alive:
  assumes "ds \<noteq> []"
  shows "\<exists>ps v. v_erase_impl (length as) (length ds) (vec (as @ ds @ us) k) = Some (Ret (), v) \<and>
    v_elements v = Some (as @ us) \<and> v_buffer v = map Live (as @ us) @ ps @ replicate k Raw \<and>
    length ps = length ds \<and> Raw \<notin> set ps \<and> v_destroy v = Some () \<and>
    (\<forall>mv granted x. v_emplace_back mv granted x v = None)"
proof -
  obtain ps where p: "length ps = length ds" "Raw \<notin> set ps"
    "shift_left (map Live as @ map Live ds @ map Live us @ replicate k Raw) (length as) (length as + length ds + length us) (length ds) =
       Some (map Live as @ map Live us @ ps @ replicate k Raw)"
    using shift_left_spec [of "map Live ds" "map Live as" us "replicate k Raw"] assms by auto
  define v where "v = \<lparr> v_buffer = map Live (as @ us) @ ps @ replicate k Raw, v_size = length (as @ us) \<rparr>"
  have "v_erase_impl (length as) (length ds) (vec (as @ ds @ us) k) = Some (Ret (), v)"
    using p(3) by (simp add: v_erase_impl_def v_def add.assoc)
  moreover have "v_elements v = Some (as @ us)" by (simp add: v_elements_def v_def flip: map_append)
  moreover have "v_destroy v = Some ()"
    using destroy_live [of "as @ us" "ps @ replicate k Raw"] by (simp add: v_destroy_def v_def)
  moreover have "v_emplace_back mv granted x v = None" for mv granted x
  proof -
    obtain q qs where "ps = q # qs" "q \<noteq> Raw" using p(1,2) assms by (cases ps) auto
    then show ?thesis
      by (cases q) (auto simp: v_emplace_back_def v_def v_capacity_def construct_at_def nth_append)
  qed
  ultimately show ?thesis using p(1,2) by (auto simp: v_def)
qed

theorem vector_erase_keeps_tail_alive_witness:
  "[5::nat] \<noteq> [] \<and>
   (\<exists>ps v. v_erase_impl (length [4::nat]) (length [5::nat]) (vec ([4::nat] @ [5] @ [6, 7]) 1) = Some (Ret (), v) \<and>
     v_elements v = Some ([4] @ [6, 7]) \<and> v_buffer v = map Live ([4] @ [6, 7]) @ ps @ replicate 1 Raw \<and> length ps = length [5::nat] \<and>
     Raw \<notin> set ps)"
  using vector_erase_keeps_tail_alive [of "[5::nat]" "[4]" "[6, 7]" 1] by fastforce

end
