(* ===== verification/Nt_String.thy ===== *)
theory Nt_String
  imports Ktl_Prelude
begin

text \<open>
  \<^verbatim>\<open>basic_winnt_string\<close> (\<^verbatim>\<open>include/string.hpp\<close>, \<^verbatim>\<open>include/string_fwd.hpp\<close>): strings in the format of the kernel's
  \<^verbatim>\<open>UNICODE_STRING\<close> and \<^verbatim>\<open>ANSI_STRING\<close>, whose lengths are numbers of bytes in 16 bits, with a small buffer inside of the
  object. A buffer is a list of characters, \<open>None\<close> for one that was never written. \<open>None\<close> as the result of an
  operation is undefined behaviour: an access outside of a buffer, or one to a buffer that was freed. An operation
  that may allocate takes the flag \<open>granted\<close>: whether the allocator has the memory.
\<close>

section \<open>Representation\<close>

text \<open>The template arguments: the size of a character in bytes and the length of the small buffer.\<close>

record str_cfg =
  ch_width :: nat
  sso_count :: nat

definition ansi :: str_cfg where
  "ansi = \<lparr> ch_width = 1, sso_count = 16 \<rparr>"

definition unicode :: str_cfg where
  "unicode = \<lparr> ch_width = 2, sso_count = 16 \<rparr>"

abbreviation ushort :: "nat \<Rightarrow> nat" where
  "ushort n \<equiv> n mod 2 ^ 16"

text \<open>\<open>Buffer\<close> points to \<^verbatim>\<open>m_buffer\<close> (\<open>s_heap = None\<close>) or to an allocated buffer.\<close>

record 'c nt_string =
  s_length :: nat
  s_maximum :: nat
  s_heap :: "'c option list option"
  s_sso :: "'c option list"

type_synonym 'c s_result = "(unit outcome \<times> 'c nt_string) option"

definition ch_count_to_bytes :: "str_cfg \<Rightarrow> nat \<Rightarrow> nat" where
  "ch_count_to_bytes c n = ushort (n * ch_width c)"

definition bytes_count_to_ch :: "str_cfg \<Rightarrow> nat \<Rightarrow> nat" where
  "bytes_count_to_ch c b = b div ch_width c"

definition str_size :: "str_cfg \<Rightarrow> 'c nt_string \<Rightarrow> nat" where
  "str_size c s = bytes_count_to_ch c (s_length s)"

definition str_capacity :: "str_cfg \<Rightarrow> 'c nt_string \<Rightarrow> nat" where
  "str_capacity c s = bytes_count_to_ch c (s_maximum s)"

definition str_max_size :: "str_cfg \<Rightarrow> nat" where
  "str_max_size c = bytes_count_to_ch c (2 ^ 16 - 1 - 1)"

definition str_npos :: nat where
  "str_npos = 2 ^ 16 - 1"

definition set_size :: "str_cfg \<Rightarrow> nat \<Rightarrow> 'c nt_string \<Rightarrow> 'c nt_string" where
  "set_size c n s = s\<lparr> s_length := ch_count_to_bytes c n \<rparr>"

definition str_increase_size :: "str_cfg \<Rightarrow> nat \<Rightarrow> 'c nt_string \<Rightarrow> 'c nt_string" where
  "str_increase_size c n s = s\<lparr> s_length := ushort (s_length s + ch_count_to_bytes c n) \<rparr>"

definition decrease_size :: "str_cfg \<Rightarrow> nat \<Rightarrow> 'c nt_string \<Rightarrow> 'c nt_string" where
  "decrease_size c n s = s\<lparr> s_length := ushort (s_length s + (2 ^ 16 - ch_count_to_bytes c n)) \<rparr>"

definition str_data :: "'c nt_string \<Rightarrow> 'c option list" where
  "str_data s = (case s_heap s of None \<Rightarrow> s_sso s | Some b \<Rightarrow> b)"

definition set_data :: "'c option list \<Rightarrow> 'c nt_string \<Rightarrow> 'c nt_string" where
  "set_data b s = (case s_heap s of None \<Rightarrow> s\<lparr> s_sso := b \<rparr> | Some _ \<Rightarrow> s\<lparr> s_heap := Some b \<rparr>)"

definition is_small :: "str_cfg \<Rightarrow> 'c nt_string \<Rightarrow> bool" where
  "is_small c s \<longleftrightarrow> str_capacity c s \<le> sso_count c"

definition become_small :: "str_cfg \<Rightarrow> nat \<Rightarrow> 'c nt_string \<Rightarrow> 'c nt_string" where
  "become_small c n s = s\<lparr> s_heap := None, s_length := ch_count_to_bytes c n, s_maximum := ch_count_to_bytes c (sso_count c) \<rparr>"

definition empty_string :: "str_cfg \<Rightarrow> 'c nt_string" where
  "empty_string c = become_small c 0 \<lparr> s_length = 0, s_maximum = 0, s_heap = None, s_sso = replicate (sso_count c) None \<rparr>"

text \<open>\<^verbatim>\<open>memcpy\<close> and \<^verbatim>\<open>memmove\<close>: reading and writing a range of a buffer.\<close>

definition get_range :: "'c option list \<Rightarrow> nat \<Rightarrow> nat \<Rightarrow> 'c option list option" where
  "get_range b i n = (if i + n \<le> length b then Some (take n (drop i b)) else None)"

definition put_range :: "'c option list \<Rightarrow> nat \<Rightarrow> 'c option list \<Rightarrow> 'c option list option" where
  "put_range b i xs = (if i + length xs \<le> length b then Some (take i b @ xs @ drop (i + length xs) b) else None)"

text \<open>Freeing the buffer: the small buffer must not get there.\<close>

definition str_destroy :: "str_cfg \<Rightarrow> 'c nt_string \<Rightarrow> unit option" where
  "str_destroy c s = (if is_small c s then Some () else case s_heap s of None \<Rightarrow> None | Some _ \<Rightarrow> Some ())"

section \<open>Growth\<close>

type_synonym 'c str_transfer = "'c option list \<Rightarrow> nat \<Rightarrow> 'c option list \<Rightarrow> ('c option list \<times> nat) option"

definition str_transfer_without_shift :: "'c str_transfer" where
  "str_transfer_without_shift dst count src =
     Option.bind (get_range src 0 count) (\<lambda>xs. map_option (\<lambda>d. (d, count)) (put_range dst 0 xs))"

definition str_dummy_transfer :: "'c str_transfer" where
  "str_dummy_transfer dst count src = Some (dst, count)"

definition make_shifter :: "nat \<Rightarrow> nat \<Rightarrow> 'c str_transfer" where
  "make_shifter bound_first bound_second dst count src =
     Option.bind (get_range src 0 bound_first) (\<lambda>xs.
     Option.bind (put_range dst 0 xs) (\<lambda>dst.
     Option.bind (get_range src bound_first (count - bound_first)) (\<lambda>ys.
     Option.bind (put_range dst bound_second ys) (\<lambda>dst.
       Some (dst, nat ((int count + (int bound_second - int bound_first)) mod 2 ^ 16))))))"

definition str_grow_unchecked :: "str_cfg \<Rightarrow> bool \<Rightarrow> nat \<Rightarrow> 'c str_transfer \<Rightarrow> 'c nt_string \<Rightarrow> 'c s_result" where
  "str_grow_unchecked c granted new_capacity transfer s =
     (let small = new_capacity \<le> sso_count c
      in if \<not> small \<and> \<not> granted then Some (Throw BadAlloc, s)
         else Option.bind (transfer (if small then s_sso s else replicate new_capacity None) (str_size c s) (str_data s)) (\<lambda>(dst, new_size).
              Option.bind (str_destroy c s) (\<lambda>_.
                Some (Ret (), (if small then s\<lparr> s_heap := None, s_sso := dst \<rparr> else s\<lparr> s_heap := Some dst \<rparr>)
                  \<lparr> s_length := ch_count_to_bytes c new_size, s_maximum := ch_count_to_bytes c new_capacity \<rparr>))))"

definition str_grow :: "str_cfg \<Rightarrow> bool \<Rightarrow> nat \<Rightarrow> 'c str_transfer \<Rightarrow> 'c nt_string \<Rightarrow> 'c s_result" where
  "str_grow c granted new_capacity transfer s =
     (if new_capacity \<le> str_max_size c then str_grow_unchecked c granted new_capacity transfer s
      else Some (Throw LengthError, s))"

definition grow_if_needed :: "str_cfg \<Rightarrow> bool \<Rightarrow> nat \<Rightarrow> 'c str_transfer \<Rightarrow> 'c nt_string \<Rightarrow> 'c s_result" where
  "grow_if_needed c granted new_capacity transfer s =
     (if new_capacity > str_capacity c s then str_grow c granted new_capacity transfer s else Some (Ret (), s))"

definition str_calc_growth :: "str_cfg \<Rightarrow> 'c nt_string \<Rightarrow> nat" where
  "str_calc_growth c s =
     (if str_capacity c s = str_max_size c then str_npos else min (str_max_size c) (ushort (str_capacity c s * 2)))"

definition str_calc_optimal_growth :: "str_cfg \<Rightarrow> 'c nt_string \<Rightarrow> nat \<Rightarrow> nat" where
  "str_calc_optimal_growth c s required = max (str_calc_growth c s) required"

section \<open>Appending\<close>

text \<open>Where the characters of an operation come from: characters outside of the string, equal characters, or a
  pointer into the string's own buffer, which dangles once the buffer was replaced and freed.\<close>

datatype 'c str_source = Chars "'c list" | Fill nat 'c | Own nat nat

fun source_count :: "'c str_source \<Rightarrow> nat" where
  "source_count (Chars xs) = length xs"
| "source_count (Fill n x) = n"
| "source_count (Own i n) = n"

fun read_source :: "bool \<Rightarrow> 'c nt_string \<Rightarrow> 'c nt_string \<Rightarrow> 'c str_source \<Rightarrow> 'c option list option" where
  "read_source replaced old new (Chars xs) = Some (map Some xs)"
| "read_source replaced old new (Fill n x) = Some (replicate n (Some x))"
| "read_source replaced old new (Own i n) =
     (case s_heap old of None \<Rightarrow> get_range (s_sso new) i n
      | Some _ \<Rightarrow> if replaced then None else get_range (str_data new) i n)"

definition and_then :: "'c s_result \<Rightarrow> ('c nt_string \<Rightarrow> 'c s_result) \<Rightarrow> 'c s_result" where
  "and_then r f = Option.bind r (\<lambda>(o', s). case o' of Throw e \<Rightarrow> Some (Throw e, s) | Ret _ \<Rightarrow> f s)"

text \<open>\<open>concat_impl\<close>. The sum of the two sizes is passed on as a \<^verbatim>\<open>USHORT\<close>. The reallocators differ in the new capacity
  and in the transfer of the old characters.\<close>

definition concat_impl :: "str_cfg \<Rightarrow> bool \<Rightarrow> (nat \<Rightarrow> nat) \<Rightarrow> 'c str_transfer \<Rightarrow> 'c str_source \<Rightarrow> 'c nt_string \<Rightarrow> 'c s_result" where
  "concat_impl c granted new_capacity transfer src s =
     (let old_size = str_size c s; required = ushort (old_size + source_count src); replaced = required > str_capacity c s
      in and_then (if replaced then str_grow c granted (new_capacity required) transfer s else Some (Ret (), s)) (\<lambda>s'.
         Option.bind (read_source replaced s s' src) (\<lambda>xs.
         Option.bind (put_range (str_data s') old_size xs) (\<lambda>b.
           Some (Ret (), str_increase_size c (source_count src) (set_data b s'))))))"

definition concat_with_optimal_growth :: "str_cfg \<Rightarrow> bool \<Rightarrow> 'c str_source \<Rightarrow> 'c nt_string \<Rightarrow> 'c s_result" where
  "concat_with_optimal_growth c granted src s =
     concat_impl c granted (str_calc_optimal_growth c s) str_transfer_without_shift src s"

definition concat_without_transfer_old_data :: "str_cfg \<Rightarrow> bool \<Rightarrow> 'c str_source \<Rightarrow> 'c nt_string \<Rightarrow> 'c s_result" where
  "concat_without_transfer_old_data c granted src s = concat_impl c granted (\<lambda>n. n) str_dummy_transfer src s"

definition str_push_back :: "str_cfg \<Rightarrow> bool \<Rightarrow> 'c \<Rightarrow> 'c nt_string \<Rightarrow> 'c s_result" where
  "str_push_back c granted ch s =
     (let old_size = str_size c s; old_capacity = str_capacity c s
      in and_then (if old_capacity = old_size then str_grow c granted (str_calc_growth c s) str_transfer_without_shift s
                   else Some (Ret (), s)) (\<lambda>s.
         Option.bind (put_range (str_data s) old_size [Some ch]) (\<lambda>b. Some (Ret (), str_increase_size c 1 (set_data b s)))))"

definition str_append :: "str_cfg \<Rightarrow> bool \<Rightarrow> 'c str_source \<Rightarrow> 'c nt_string \<Rightarrow> 'c s_result" where
  "str_append c granted src s = concat_with_optimal_growth c granted src s"

definition str_reserve :: "str_cfg \<Rightarrow> bool \<Rightarrow> nat \<Rightarrow> 'c nt_string \<Rightarrow> 'c s_result" where
  "str_reserve c granted new_capacity s = grow_if_needed c granted new_capacity str_transfer_without_shift s"

definition str_resize :: "str_cfg \<Rightarrow> bool \<Rightarrow> nat \<Rightarrow> 'c \<Rightarrow> 'c nt_string \<Rightarrow> 'c s_result" where
  "str_resize c granted new_size ch s =
     and_then (str_reserve c granted new_size s) (\<lambda>s.
       let current_size = str_size c s
       in map_option (\<lambda>b. (Ret (), set_size c new_size (set_data b s)))
            (if current_size < new_size then put_range (str_data s) current_size (replicate (new_size - current_size) (Some ch))
             else Some (str_data s)))"

definition str_append_n :: "str_cfg \<Rightarrow> bool \<Rightarrow> nat \<Rightarrow> 'c \<Rightarrow> 'c nt_string \<Rightarrow> 'c s_result" where
  "str_append_n c granted count ch s = str_resize c granted (ushort (str_size c s + count)) ch s"

definition throw_if_index_greater_than_size :: "nat \<Rightarrow> nat \<Rightarrow> unit outcome" where
  "throw_if_index_greater_than_size idx n = (if idx \<le> n then Ret () else Throw OutOfRange)"

definition append_by_pos_and_count :: "str_cfg \<Rightarrow> bool \<Rightarrow> bool \<Rightarrow> 'c list \<Rightarrow> nat \<Rightarrow> nat \<Rightarrow> 'c nt_string \<Rightarrow> 'c s_result" where
  "append_by_pos_and_count c granted optimal other pos count s =
     (case throw_if_index_greater_than_size pos (length other) of Throw e \<Rightarrow> Some (Throw e, s)
      | Ret _ \<Rightarrow>
          let src = Chars (take (min (length other - pos) count) (drop pos other))
          in if optimal then concat_with_optimal_growth c granted src s else concat_without_transfer_old_data c granted src s)"

section \<open>Inserting and removing\<close>

text \<open>\<open>insert_impl\<close>, for characters outside of the string. The bounds of the shifter are the index and the number of
  characters.\<close>

definition insert_impl :: "str_cfg \<Rightarrow> bool \<Rightarrow> nat \<Rightarrow> 'c list \<Rightarrow> 'c nt_string \<Rightarrow> 'c s_result" where
  "insert_impl c granted index xs s =
     (let old_size = str_size c s; count = length xs; required = ushort (old_size + count); need_to_shift = old_size - index
      in and_then
           (if required > str_capacity c s
            then str_grow c granted (str_calc_optimal_growth c s required) (make_shifter index count) s
            else Option.bind (get_range (str_data s) index need_to_shift) (\<lambda>ys.
                 Option.bind (put_range (str_data s) (index + count) ys) (\<lambda>b. Some (Ret (), str_increase_size c count (set_data b s))))) (\<lambda>s.
         Option.bind (put_range (str_data s) index (map Some xs)) (\<lambda>b. Some (Ret (), set_data b s))))"

definition str_insert :: "str_cfg \<Rightarrow> bool \<Rightarrow> nat \<Rightarrow> 'c list \<Rightarrow> 'c nt_string \<Rightarrow> 'c s_result" where
  "str_insert c granted index xs s =
     (case throw_if_index_greater_than_size index (str_size c s) of Throw e \<Rightarrow> Some (Throw e, s)
      | Ret _ \<Rightarrow> if index = str_size c s then str_append c granted (Chars xs) s else insert_impl c granted index xs s)"

definition erase_unchecked :: "str_cfg \<Rightarrow> nat \<Rightarrow> nat \<Rightarrow> 'c nt_string \<Rightarrow> 'c nt_string option" where
  "erase_unchecked c index count s =
     Option.bind (get_range (str_data s) (index + count) (str_size c s - (index + count))) (\<lambda>xs.
     Option.bind (put_range (str_data s) index xs) (\<lambda>b. Some (decrease_size c count (set_data b s))))"

definition str_erase :: "str_cfg \<Rightarrow> nat \<Rightarrow> nat \<Rightarrow> 'c nt_string \<Rightarrow> 'c s_result" where
  "str_erase c index count s =
     (case throw_if_index_greater_than_size index (str_size c s) of Throw e \<Rightarrow> Some (Throw e, s)
      | Ret _ \<Rightarrow> map_option (Pair (Ret ())) (erase_unchecked c index (min count (str_size c s - index)) s))"

definition str_pop_back :: "str_cfg \<Rightarrow> 'c nt_string \<Rightarrow> 'c nt_string" where
  "str_pop_back c s = decrease_size c 1 s"

definition str_clear :: "str_cfg \<Rightarrow> 'c nt_string \<Rightarrow> 'c nt_string" where
  "str_clear c s = set_size c 0 s"

section \<open>Whole strings\<close>

definition str_construct :: "str_cfg \<Rightarrow> bool \<Rightarrow> 'c str_source \<Rightarrow> 'c s_result" where
  "str_construct c granted src = concat_without_transfer_old_data c granted src (empty_string c)"

text \<open>The characters of a string as a range of values.\<close>

fun values_of :: "'c option list \<Rightarrow> 'c list option" where
  "values_of [] = Some []"
| "values_of (x # xs) = (case x of None \<Rightarrow> None | Some v \<Rightarrow> map_option (Cons v) (values_of xs))"

definition str_chars :: "str_cfg \<Rightarrow> 'c nt_string \<Rightarrow> 'c list option" where
  "str_chars c s = Option.bind (get_range (str_data s) 0 (str_size c s)) values_of"

definition str_assign :: "str_cfg \<Rightarrow> bool \<Rightarrow> 'c list \<Rightarrow> 'c nt_string \<Rightarrow> 'c s_result" where
  "str_assign c granted xs s = concat_without_transfer_old_data c granted (Chars xs) (str_clear c s)"

definition str_assign_char :: "str_cfg \<Rightarrow> 'c \<Rightarrow> 'c nt_string \<Rightarrow> 'c nt_string option" where
  "str_assign_char c ch s = map_option (\<lambda>b. set_size c 1 (set_data b s)) (put_range (str_data s) 0 [Some ch])"

definition str_copy :: "str_cfg \<Rightarrow> bool \<Rightarrow> 'c nt_string \<Rightarrow> 'c s_result" where
  "str_copy c granted other = Option.bind (str_chars c other) (\<lambda>xs. str_construct c granted (Chars xs))"

definition str_copy_assign :: "str_cfg \<Rightarrow> bool \<Rightarrow> 'c nt_string \<Rightarrow> 'c nt_string \<Rightarrow> 'c s_result" where
  "str_copy_assign c granted other s = Option.bind (str_chars c other) (\<lambda>xs. str_assign c granted xs s)"

definition str_move :: "str_cfg \<Rightarrow> 'c nt_string \<Rightarrow> ('c nt_string \<times> 'c nt_string) option" where
  "str_move c other =
     map_option (\<lambda>this. (this, become_small c 0 other))
       (if is_small c other
        then Option.bind (get_range (str_data other) 0 (str_size c other)) (\<lambda>xs.
             map_option (\<lambda>b. other\<lparr> s_heap := None, s_sso := b \<rparr>) (put_range (replicate (sso_count c) None) 0 xs))
        else Some (other\<lparr> s_sso := replicate (sso_count c) None \<rparr>))"

definition str_move_assign :: "str_cfg \<Rightarrow> 'c nt_string \<Rightarrow> 'c nt_string \<Rightarrow> ('c nt_string \<times> 'c nt_string) option" where
  "str_move_assign c other s =
     Option.bind (str_destroy c s) (\<lambda>_.
       map_option (\<lambda>this. (this, become_small c 0 other))
         (if \<not> is_small c other
          then Some (s\<lparr> s_length := s_length other, s_maximum := s_maximum other, s_heap := s_heap other \<rparr>)
          else let this = become_small c (str_size c other) s
               in Option.bind (get_range (str_data other) 0 (str_size c other)) (\<lambda>xs.
                  map_option (\<lambda>b. set_data b this) (put_range (str_data this) 0 xs))))"

definition str_at :: "str_cfg \<Rightarrow> nat \<Rightarrow> 'c nt_string \<Rightarrow> 'c outcome option" where
  "str_at c idx s =
     (if idx < str_size c s then Option.bind (get_range (str_data s) idx 1) (\<lambda>xs. map_option Ret (hd xs)) else Some (Throw OutOfRange))"

definition str_substr :: "str_cfg \<Rightarrow> bool \<Rightarrow> nat \<Rightarrow> nat \<Rightarrow> 'c nt_string \<Rightarrow> 'c s_result" where
  "str_substr c granted pos count s =
     (case throw_if_index_greater_than_size pos (str_size c s) of Throw e \<Rightarrow> Some (Throw e, s)
      | Ret _ \<Rightarrow> Option.bind (str_chars c s) (\<lambda>xs.
          str_construct c granted (Chars (take (min (str_size c s - pos) count) (drop pos xs)))))"

section \<open>Concatenation operators\<close>

text \<open>\<^verbatim>\<open>operator+\<close> for two strings, one of which is an lvalue: the operand with the larger small buffer is copied first
  and the other one appended to it. For two rvalues, the operand with enough capacity is appended to.\<close>

definition str_plus_lvalues :: "str_cfg \<Rightarrow> str_cfg \<Rightarrow> bool \<Rightarrow> 'c nt_string \<Rightarrow> 'c nt_string \<Rightarrow> 'c s_result" where
  "str_plus_lvalues cl cr granted lhs rhs =
     Option.bind (str_chars cl lhs) (\<lambda>xs. Option.bind (str_chars cr rhs) (\<lambda>ys.
       if sso_count cl \<ge> sso_count cr then and_then (str_copy cl granted lhs) (str_append cl granted (Chars ys))
       else and_then (str_copy cr granted rhs) (str_append cr granted (Chars xs))))"

definition str_plus_rvalues :: "str_cfg \<Rightarrow> bool \<Rightarrow> 'c nt_string \<Rightarrow> 'c nt_string \<Rightarrow> 'c s_result" where
  "str_plus_rvalues c granted lhs rhs =
     Option.bind (str_chars c lhs) (\<lambda>xs. Option.bind (str_chars c rhs) (\<lambda>ys.
       if str_capacity c lhs \<ge> str_size c lhs + str_size c rhs then str_append c granted (Chars ys) lhs
       else if str_capacity c rhs \<ge> str_size c lhs + str_size c rhs then str_append c granted (Chars xs) rhs
       else and_then (str_reserve c granted (ushort (str_size c lhs + str_size c rhs)) (empty_string c)) (\<lambda>s.
            and_then (str_append c granted (Chars xs) s) (str_append c granted (Chars ys)))))"

definition str_plus_literal :: "str_cfg \<Rightarrow> bool \<Rightarrow> 'c list \<Rightarrow> 'c nt_string \<Rightarrow> 'c s_result" where
  "str_plus_literal c granted literal rhs = and_then (str_copy c granted rhs) (str_append c granted (Chars literal))"

end
