(* ===== verification/Nt_String_Spec.thy ===== *)
theory Nt_String_Spec
  imports Nt_String
begin

text \<open>
  Strings as lists of characters. \<open>rep c s xs\<close> says that the string \<open>s\<close> is well formed and holds the
  characters \<open>xs\<close>; the operations are shown to keep this with the list operation on \<open>xs\<close>, as long as
  the lengths do not leave 16 bits, and what happens otherwise is shown separately.
\<close>

section \<open>Well-formed strings\<close>

definition cfg_ok :: "str_cfg \<Rightarrow> bool" where
  "cfg_ok c \<longleftrightarrow> (ch_width c = 1 \<or> ch_width c = 2) \<and> 0 < sso_count c \<and> sso_count c \<le> str_max_size c"

definition rep :: "str_cfg \<Rightarrow> 'c nt_string \<Rightarrow> 'c list \<Rightarrow> bool" where
  "rep c s xs \<longleftrightarrow>
     s_length s = length xs * ch_width c \<and> s_maximum s = length (str_data s) * ch_width c \<and>
     length (str_data s) \<le> str_max_size c \<and> length (s_sso s) = sso_count c \<and>
     (s_heap s \<noteq> None \<longrightarrow> sso_count c < length (str_data s)) \<and>
     length xs \<le> length (str_data s) \<and> take (length xs) (str_data s) = map Some xs"

lemma cfg_width [simp]: "cfg_ok c \<Longrightarrow> n * ch_width c div ch_width c = n"
  by (auto simp: cfg_ok_def)

lemma max_size_bytes: "cfg_ok c \<Longrightarrow> n \<le> str_max_size c \<Longrightarrow> n * ch_width c < 2 ^ 16"
  by (auto simp: cfg_ok_def str_max_size_def bytes_count_to_ch_def)

lemma max_size_ushort: "cfg_ok c \<Longrightarrow> n \<le> str_max_size c \<Longrightarrow> n < 2 ^ 16"
  using max_size_bytes [of c n] by (auto simp: cfg_ok_def)

lemma bytes_max [simp]: "cfg_ok c \<Longrightarrow> n \<le> str_max_size c \<Longrightarrow> ch_count_to_bytes c n = n * ch_width c"
  using max_size_bytes [of c n] by (simp add: ch_count_to_bytes_def)

lemma rep_size: "cfg_ok c \<Longrightarrow> rep c s xs \<Longrightarrow> str_size c s = length xs"
  and rep_capacity: "cfg_ok c \<Longrightarrow> rep c s xs \<Longrightarrow> str_capacity c s = length (str_data s)"
  by (simp_all add: rep_def str_size_def str_capacity_def bytes_count_to_ch_def)

lemma rep_heap: "rep c s xs \<Longrightarrow> s_heap s = None \<longleftrightarrow> length (str_data s) \<le> sso_count c"
  by (auto simp: rep_def str_data_def split: option.splits)

lemma rep_small: "cfg_ok c \<Longrightarrow> rep c s xs \<Longrightarrow> is_small c s \<longleftrightarrow> s_heap s = None"
  by (simp add: is_small_def rep_capacity rep_heap)

lemma rep_destroy: "cfg_ok c \<Longrightarrow> rep c s xs \<Longrightarrow> str_destroy c s = Some ()"
  by (auto simp: str_destroy_def rep_small split: option.splits)

lemma rep_split:
  assumes "rep c s xs"
  obtains rest where "str_data s = map Some xs @ rest"
  using assms append_take_drop_id [of "length xs" "str_data s"] unfolding rep_def by metis

lemma values_of_map [simp]: "values_of (map Some xs) = Some xs"
  by (induction xs) simp_all

lemma get_range_mid [simp]: "get_range (as @ bs @ cs) (length as) (length bs) = Some bs"
  by (simp add: get_range_def)

lemma get_range_front [simp]: "get_range (bs @ cs) 0 (length bs) = Some bs"
  by (simp add: get_range_def)

lemma put_range_mid: "length ys = length bs \<Longrightarrow> put_range (as @ bs @ cs) (length as) ys = Some (as @ ys @ cs)"
  by (simp add: put_range_def)

lemma put_range_length: "put_range b i ys = Some b' \<Longrightarrow> length b' = length b"
  by (auto simp: put_range_def split: if_splits)

lemma rep_chars: "cfg_ok c \<Longrightarrow> rep c s xs \<Longrightarrow> str_chars c s = Some xs"
  by (simp add: str_chars_def rep_size get_range_def) (simp add: rep_def)

lemma rep_update:
  assumes "rep c s xs" "length b = length (str_data s)" "take (length ys) b = map Some ys" "length ys \<le> length b"
    "n = length ys * ch_width c"
  shows "rep c (set_data b s\<lparr> s_length := n \<rparr>) ys"
  using assms by (auto simp: rep_def set_data_def str_data_def split: option.splits)

lemma set_data_simps [simp]:
  "s_length (set_data b s) = s_length s" "s_maximum (set_data b s) = s_maximum s" "str_data (set_data b s) = b"
  "set_data (str_data s) s = s" "s_heap (set_data b s) = None \<longleftrightarrow> s_heap s = None"
  by (auto simp: set_data_def str_data_def split: option.splits)

lemma str_data_size [simp]: "str_data (s\<lparr> s_length := n \<rparr>) = str_data s" "str_data (set_size c n s) = str_data s"
  by (simp_all add: str_data_def set_size_def split: option.splits)

lemma rep_set_size:
  assumes "cfg_ok c" "rep c s xs" "length b = length (str_data s)" "take (length ys) b = map Some ys" "length ys \<le> length b"
  shows "rep c (set_size c (length ys) (set_data b s)) ys"
proof -
  have "length ys \<le> str_max_size c" using assms by (simp add: rep_def)
  with assms show ?thesis using rep_update [OF assms(2-5)] by (simp add: set_size_def)
qed

lemma increase_is_set:
  assumes "cfg_ok c" "rep c s xs" "length xs + n \<le> str_max_size c"
  shows "str_increase_size c n (set_data b s) = set_size c (length xs + n) (set_data b s)"
proof -
  have "n \<le> str_max_size c" "length xs \<le> str_max_size c" using assms by simp_all
  moreover have "(length xs + n) * ch_width c < 2 ^ 16" using assms(1,3) by (rule max_size_bytes)
  ultimately show ?thesis using assms by (simp add: str_increase_size_def set_size_def rep_def distrib_right)
qed

lemma ushort_diff:
  fixes a b :: nat
  assumes "b \<le> a" "a < 2 ^ 16"
  shows "ushort (a + (2 ^ 16 - b)) = a - b"
proof -
  have "a + (2 ^ 16 - b) = (a - b) + 2 ^ 16" using assms by simp
  then show ?thesis using assms by (metis less_imp_diff_less mod_add_self2 mod_less)
qed

lemma decrease_is_set:
  assumes "cfg_ok c" "rep c s xs" "n \<le> length xs"
  shows "decrease_size c n (set_data b s) = set_size c (length xs - n) (set_data b s)"
proof -
  have m: "length xs \<le> str_max_size c" using assms by (simp add: rep_def)
  have "ushort (length xs * ch_width c + (2 ^ 16 - n * ch_width c)) = length xs * ch_width c - n * ch_width c"
    using assms(3) by (intro ushort_diff max_size_bytes [OF assms(1) m]) simp
  moreover have "length xs - n \<le> str_max_size c" "n \<le> str_max_size c" using m assms(3) by simp_all
  ultimately show ?thesis
    using assms by (simp add: decrease_size_def set_size_def rep_def diff_mult_distrib)
qed

section \<open>Growth\<close>

lemma dummy_transfer_empty: "str_dummy_transfer dst 0 src = str_transfer_without_shift dst 0 src"
  by (simp add: str_dummy_transfer_def str_transfer_without_shift_def get_range_def put_range_def)

definition grows :: "str_cfg \<Rightarrow> bool \<Rightarrow> nat \<Rightarrow> 'c s_result \<Rightarrow> 'c nt_string \<Rightarrow> 'c list \<Rightarrow> bool" where
  "grows c granted n r s xs \<longleftrightarrow>
     (if str_max_size c < n then r = Some (Throw LengthError, s)
      else if \<not> granted then r = Some (Throw BadAlloc, s)
      else \<exists>s'. r = Some (Ret (), s') \<and> rep c s' xs \<and> length (str_data s') = n \<and> s_sso s' = s_sso s)"

lemma grow_transfer:
  assumes c: "cfg_ok c" and r: "rep c s xs" and n: "str_capacity c s < n"
  shows "grows c granted n (str_grow c granted n str_transfer_without_shift s) s xs"
proof -
  have big: "\<not> n \<le> sso_count c" "length xs \<le> n" "sso_count c \<le> length (str_data s)"
    using n r by (auto simp: rep_capacity [OF c r] rep_def str_data_def split: option.splits)
  obtain rest where d: "str_data s = map Some xs @ rest" using r by (rule rep_split)
  have "str_transfer_without_shift (replicate n None) (length xs) (str_data s) =
      Some (map Some xs @ replicate (n - length xs) None, length xs)"
    using get_range_front [of "map Some xs" rest] big by (simp add: d str_transfer_without_shift_def put_range_def)
  then have u: "str_grow_unchecked c True n str_transfer_without_shift s =
      Some (Ret (), s\<lparr> s_heap := Some (map Some xs @ replicate (n - length xs) None),
        s_length := ch_count_to_bytes c (length xs), s_maximum := ch_count_to_bytes c n \<rparr>)"
    using c r big by (simp add: str_grow_unchecked_def rep_size rep_destroy)
  show ?thesis
  proof (cases "str_max_size c < n \<or> \<not> granted")
    case True
    then show ?thesis using big by (auto simp: grows_def str_grow_def str_grow_unchecked_def)
  next
    case False
    then have "length xs \<le> str_max_size c" using big by simp
    with False show ?thesis using c r big u by (simp add: grows_def str_grow_def rep_def) (simp add: str_data_def)
  qed
qed

section \<open>The specification\<close>

datatype 'c s_op =
    S_push_back 'c
  | S_pop_back
  | S_clear
  | S_append "'c list"
  | S_append_n nat 'c
  | S_assign "'c list"
  | S_resize nat 'c
  | S_reserve nat
  | S_insert nat "'c list"
  | S_erase nat nat

fun s_exec :: "str_cfg \<Rightarrow> bool \<Rightarrow> 'c s_op \<Rightarrow> 'c nt_string \<Rightarrow> 'c s_result" where
  "s_exec c granted (S_push_back x) s = str_push_back c granted x s"
| "s_exec c granted S_pop_back s = Some (Ret (), str_pop_back c s)"
| "s_exec c granted S_clear s = Some (Ret (), str_clear c s)"
| "s_exec c granted (S_append ys) s = str_append c granted (Chars ys) s"
| "s_exec c granted (S_append_n n x) s = str_append_n c granted n x s"
| "s_exec c granted (S_assign ys) s = str_assign c granted ys s"
| "s_exec c granted (S_resize n x) s = str_resize c granted n x s"
| "s_exec c granted (S_reserve n) s = str_reserve c granted n s"
| "s_exec c granted (S_insert i ys) s = str_insert c granted i ys s"
| "s_exec c granted (S_erase i n) s = str_erase c i n s"

fun chars_op :: "'c s_op \<Rightarrow> 'c list \<Rightarrow> 'c list" where
  "chars_op (S_push_back x) xs = xs @ [x]"
| "chars_op S_pop_back xs = butlast xs"
| "chars_op S_clear xs = []"
| "chars_op (S_append ys) xs = xs @ ys"
| "chars_op (S_append_n n x) xs = xs @ replicate n x"
| "chars_op (S_assign ys) xs = ys"
| "chars_op (S_resize n x) xs = take n xs @ replicate (n - length xs) x"
| "chars_op (S_reserve n) xs = xs"
| "chars_op (S_insert i ys) xs = take i xs @ ys @ drop i xs"
| "chars_op (S_erase i n) xs = take i xs @ drop (i + n) xs"

text \<open>The capacity an operation needs, and the characters after it has thrown: \<^verbatim>\<open>assign\<close> has cleared the string.\<close>

fun s_needs :: "'c s_op \<Rightarrow> 'c list \<Rightarrow> nat" where
  "s_needs (S_reserve n) xs = n"
| "s_needs op xs = length (chars_op op xs)"

fun s_kept :: "'c s_op \<Rightarrow> 'c list \<Rightarrow> 'c list" where
  "s_kept (S_assign ys) xs = []"
| "s_kept op xs = xs"

fun s_index :: "'c s_op \<Rightarrow> nat" where
  "s_index (S_insert i ys) = i"
| "s_index (S_erase i n) = i"
| "s_index op = 0"

text \<open>The conditions of use: sizes stay below \<open>2 ^ 16\<close>, a full string can double its capacity in 16 bits, and an
  insertion that needs a larger buffer is at the start or at the end.\<close>

fun s_op_ok :: "'c s_op \<Rightarrow> 'c list \<Rightarrow> nat \<Rightarrow> bool" where
  "s_op_ok (S_push_back x) xs cap \<longleftrightarrow> length xs < cap \<or> cap * 2 < 2 ^ 16"
| "s_op_ok S_pop_back xs cap \<longleftrightarrow> xs \<noteq> []"
| "s_op_ok (S_insert i ys) xs cap \<longleftrightarrow>
     length xs + length ys < 2 ^ 16 \<and> (i = 0 \<or> length xs \<le> i \<or> length xs + length ys \<le> cap)"
| "s_op_ok op xs cap \<longleftrightarrow> s_needs op xs < 2 ^ 16"

definition s_refines :: "str_cfg \<Rightarrow> bool \<Rightarrow> 'c s_op \<Rightarrow> 'c list \<Rightarrow> 'c s_result \<Rightarrow> bool" where
  "s_refines c granted op xs r \<longleftrightarrow>
     (\<exists>s. r = Some (Ret (), s) \<and> rep c s (chars_op op xs)) \<or>
     (\<exists>e s. r = Some (Throw e, s) \<and> rep c s (s_kept op xs) \<and>
        (e = BadAlloc \<and> \<not> granted \<or> e = LengthError \<and> str_max_size c < s_needs op xs \<or> e = OutOfRange \<and> length xs < s_index op))"

lemma s_refines_ret: "r = Some (Ret (), s) \<Longrightarrow> rep c s (chars_op op xs) \<Longrightarrow> s_refines c granted op xs r"
  by (auto simp: s_refines_def)

section \<open>Operations that may grow\<close>

lemma refines_with_room:
  assumes c: "cfg_ok c" and r: "rep c s (s_kept op xs)"
    and n: "str_capacity c s < req \<Longrightarrow>
      str_capacity c s < n \<and> req \<le> n \<and> (str_max_size c < n \<longrightarrow> str_max_size c < s_needs op xs)"
    and f: "\<And>s'. rep c s' (s_kept op xs) \<Longrightarrow> req \<le> length (str_data s') \<Longrightarrow> s_refines c granted op xs (f s')"
  shows "s_refines c granted op xs
    (and_then (if str_capacity c s < req then str_grow c granted n str_transfer_without_shift s else Some (Ret (), s)) f)"
proof (cases "str_capacity c s < req")
  case True
  from grow_transfer [OF c r, of n granted] n [OF True]
  consider "str_max_size c < n" "str_grow c granted n str_transfer_without_shift s = Some (Throw LengthError, s)"
    | "\<not> granted" "str_grow c granted n str_transfer_without_shift s = Some (Throw BadAlloc, s)"
    | s' where "str_grow c granted n str_transfer_without_shift s = Some (Ret (), s')" "rep c s' (s_kept op xs)" "length (str_data s') = n"
    by (auto simp: grows_def split: if_splits)
  then show ?thesis using True n [OF True] r f by cases (auto simp: s_refines_def and_then_def)
next
  case False
  then show ?thesis using f [of s] r c by (simp add: and_then_def rep_capacity)
qed

text \<open>Writing characters behind those of a string with enough room.\<close>

lemma put_behind:
  assumes "cfg_ok c" "rep c s xs" "length xs + length ys \<le> length (str_data s)"
  shows "\<exists>b. put_range (str_data s) (length xs) (map Some ys) = Some b \<and>
    rep c (set_size c (length xs + length ys) (set_data b s)) (xs @ ys) \<and>
    str_increase_size c (length ys) (set_data b s) = set_size c (length xs + length ys) (set_data b s)"
proof -
  let ?b = "take (length xs) (str_data s) @ map Some ys @ drop (length xs + length ys) (str_data s)"
  have t: "take (length xs) (str_data s) = map Some xs" "length (str_data s) \<le> str_max_size c" using assms(2) by (simp_all add: rep_def)
  have "put_range (str_data s) (length xs) (map Some ys) = Some ?b" using assms(3) by (simp add: put_range_def)
  moreover have "rep c (set_size c (length (xs @ ys)) (set_data ?b s)) (xs @ ys)"
    by (rule rep_set_size [OF assms(1,2)]) (use assms t in auto)
  ultimately show ?thesis using increase_is_set [OF assms(1,2), of "length ys" ?b] assms t by auto
qed

lemma max_size_npos: "str_max_size c < str_npos"
proof -
  have "(65534 :: nat) div ch_width c \<le> 65534" by (rule div_le_dividend)
  then have "(65534 :: nat) div ch_width c < 65535" by linarith
  then show ?thesis by (simp add: str_max_size_def bytes_count_to_ch_def str_npos_def)
qed

lemma rep_bounds:
  assumes "cfg_ok c" "rep c s xs"
  shows "0 < str_capacity c s" "str_capacity c s \<le> str_max_size c" "length xs \<le> str_capacity c s" "sso_count c \<le> str_capacity c s"
  using assms unfolding rep_capacity [OF assms] by (auto simp: rep_def cfg_ok_def str_data_def split: option.splits)

lemma calc_growth_room:
  assumes "cfg_ok c" "rep c s xs" "str_capacity c s * 2 < 2 ^ 16"
  shows "str_capacity c s < str_calc_growth c s" "str_max_size c < str_calc_growth c s \<Longrightarrow> str_capacity c s = str_max_size c"
  using rep_bounds [OF assms(1,2)] assms(3) max_size_npos [of c] by (auto simp: str_calc_growth_def min_def split: if_splits)

lemma push_back_refines:
  assumes "cfg_ok c" "rep c s xs" "s_op_ok (S_push_back x) xs (length (str_data s))"
  shows "s_refines c granted (S_push_back x) xs (str_push_back c granted x s)"
proof -
  have eq: "str_capacity c s = length xs \<longleftrightarrow> str_capacity c s < Suc (length xs)"
    using rep_bounds [OF assms(1,2)] by auto
  have "s_refines c granted (S_push_back x) xs
      (and_then (if str_capacity c s < Suc (length xs) then str_grow c granted (str_calc_growth c s) str_transfer_without_shift s
                 else Some (Ret (), s)) (\<lambda>s.
         Option.bind (put_range (str_data s) (length xs) [Some x]) (\<lambda>b. Some (Ret (), str_increase_size c 1 (set_data b s)))))"
  proof (rule refines_with_room [OF assms(1)])
    fix s' :: "'a nt_string" assume "rep c s' (s_kept (S_push_back x) xs)" "Suc (length xs) \<le> length (str_data s')"
    then show "s_refines c granted (S_push_back x) xs
        (Option.bind (put_range (str_data s') (length xs) [Some x]) (\<lambda>b. Some (Ret (), str_increase_size c 1 (set_data b s'))))"
      using put_behind [OF assms(1), of s' xs "[x]"] by (auto intro!: s_refines_ret)
  qed (use assms calc_growth_room [OF assms(1,2)] rep_bounds [OF assms(1,2)] in \<open>simp_all add: rep_capacity, linarith\<close>)
  then show ?thesis unfolding str_push_back_def Let_def rep_size [OF assms(1,2)] eq .
qed

text \<open>Concatenation with characters from outside.\<close>

lemma concat_refines:
  assumes c: "cfg_ok c" and r: "rep c s (s_kept op xs)" and op: "chars_op op xs = s_kept op xs @ ys" "s_needs op xs = length (chars_op op xs)"
    and l: "length (s_kept op xs) + length ys < 2 ^ 16"
    and n: "str_capacity c s < length (s_kept op xs) + length ys \<Longrightarrow> length (s_kept op xs) + length ys \<le> g (length (s_kept op xs) + length ys) \<and>
        (str_max_size c < g (length (s_kept op xs) + length ys) \<longrightarrow> str_max_size c < length (s_kept op xs) + length ys)"
  shows "s_refines c granted op xs (concat_impl c granted g str_transfer_without_shift (Chars ys) s)"
proof -
  let ?k = "length (s_kept op xs)" let ?req = "?k + length ys"
  have "s_refines c granted op xs
      (and_then (if str_capacity c s < ?req then str_grow c granted (g ?req) str_transfer_without_shift s else Some (Ret (), s)) (\<lambda>s'.
         Option.bind (put_range (str_data s') ?k (map Some ys)) (\<lambda>b. Some (Ret (), str_increase_size c (length ys) (set_data b s')))))"
  proof (rule refines_with_room [OF c r])
    fix s' assume "rep c s' (s_kept op xs)" "?req \<le> length (str_data s')"
    then show "s_refines c granted op xs
        (Option.bind (put_range (str_data s') ?k (map Some ys)) (\<lambda>b. Some (Ret (), str_increase_size c (length ys) (set_data b s'))))"
      using put_behind [OF c, of s' "s_kept op xs" ys] op by (auto intro!: s_refines_ret)
  qed (use n op in auto)
  then show ?thesis
    using l by (simp add: concat_impl_def Let_def rep_size [OF c r] split del: if_split cong: if_cong)
qed

lemma append_refines:
  assumes "cfg_ok c" "rep c s xs" "length xs + length ys < 2 ^ 16"
  shows "s_refines c granted (S_append ys) xs (str_append c granted (Chars ys) s)"
  unfolding str_append_def concat_with_optimal_growth_def
proof (rule concat_refines [OF assms(1)])
  assume "str_capacity c s < length (s_kept (S_append ys) xs) + length ys"
  moreover from this have "str_max_size c < str_calc_growth c s \<Longrightarrow> str_max_size c < length xs + length ys"
    using rep_bounds [OF assms(1,2)] by (auto simp: str_calc_growth_def split: if_splits)
  ultimately show "length (s_kept (S_append ys) xs) + length ys \<le> str_calc_optimal_growth c s (length (s_kept (S_append ys) xs) + length ys) \<and>
      (str_max_size c < str_calc_optimal_growth c s (length (s_kept (S_append ys) xs) + length ys) \<longrightarrow>
       str_max_size c < length (s_kept (S_append ys) xs) + length ys)"
    by (auto simp: str_calc_optimal_growth_def max_def)
qed (use assms in simp_all)

lemma clear_rep: "cfg_ok c \<Longrightarrow> rep c s xs \<Longrightarrow> rep c (str_clear c s) []"
  using rep_set_size [of c s xs "str_data s" "[]"] by (simp add: str_clear_def)

text \<open>On an empty string, not transferring the characters is the same as transferring them.\<close>

lemma concat_dummy:
  assumes "cfg_ok c" "rep c s []"
  shows "concat_without_transfer_old_data c granted src s = concat_impl c granted (\<lambda>n. n) str_transfer_without_shift src s"
  unfolding concat_without_transfer_old_data_def concat_impl_def str_grow_def str_grow_unchecked_def Let_def
    rep_size [OF assms] list.size dummy_transfer_empty ..

lemma assign_refines:
  assumes "cfg_ok c" "rep c s xs" "length ys < 2 ^ 16"
  shows "s_refines c granted (S_assign ys) xs (str_assign c granted ys s)"
  unfolding str_assign_def concat_dummy [OF assms(1) clear_rep [OF assms(1,2)]]
  by (rule concat_refines [OF assms(1)]) (use assms clear_rep [OF assms(1,2)] in simp_all)

lemma reserve_str_refines:
  assumes "cfg_ok c" "rep c s xs"
  shows "s_refines c granted (S_reserve n) xs (str_reserve c granted n s)"
proof -
  have "s_refines c granted (S_reserve n) xs
      (and_then (if str_capacity c s < n then str_grow c granted n str_transfer_without_shift s else Some (Ret (), s)) (\<lambda>s. Some (Ret (), s)))"
    by (rule refines_with_room [OF assms(1)]) (use assms in \<open>auto intro: s_refines_ret\<close>)
  moreover have "and_then r (\<lambda>s. Some (Ret (), s)) = r" for r :: "'a s_result"
    by (cases r) (auto simp: and_then_def split: outcome.splits)
  ultimately show ?thesis by (simp add: str_reserve_def grow_if_needed_def)
qed

lemma resize_refines:
  assumes c: "cfg_ok c" and r: "rep c s xs" and k: "s_kept op xs = xs"
    and op: "chars_op op xs = take n xs @ replicate (n - length xs) x" "s_needs op xs = n"
  shows "s_refines c granted op xs (str_resize c granted n x s)"
proof -
  define f :: "'a nt_string \<Rightarrow> 'a s_result" where "f s = (let current_size = str_size c s
       in map_option (\<lambda>b. (Ret (), set_size c n (set_data b s)))
            (if current_size < n then put_range (str_data s) current_size (replicate (n - current_size) (Some x))
             else Some (str_data s)))" for s
  have "s_refines c granted op xs
      (and_then (if str_capacity c s < n then str_grow c granted n str_transfer_without_shift s else Some (Ret (), s)) f)"
  proof (rule refines_with_room [OF c])
    fix s' assume a: "rep c s' (s_kept op xs)" "n \<le> length (str_data s')"
    then have r': "rep c s' xs" using k by simp
    show "s_refines c granted op xs (f s')"
    proof (cases "length xs < n")
      case True
      then show ?thesis
        using put_behind [OF c r', of "replicate (n - length xs) x"] a(2) op
        by (auto simp: f_def rep_size [OF c r'] map_replicate intro!: s_refines_ret)
    next
      case False
      then have "take n (str_data s') = take n (take (length xs) (str_data s'))" by (simp add: min_def)
      also have "\<dots> = map Some (take n xs)" using r' by (simp add: rep_def take_map)
      finally have "rep c (set_size c (length (take n xs)) (set_data (str_data s') s')) (take n xs)"
        using False a(2) by (intro rep_set_size [OF c r']) auto
      then show ?thesis using False op by (auto simp: f_def rep_size [OF c r'] min_def intro!: s_refines_ret split: if_splits)
    qed
  qed (use r k op in auto)
  then show ?thesis unfolding str_resize_def str_reserve_def grow_if_needed_def f_def .
qed

lemma resize_op_refines:
  assumes "cfg_ok c" "rep c s xs"
  shows "s_refines c granted (S_resize n x) xs (str_resize c granted n x s)"
    and "length xs + m < 2 ^ 16 \<Longrightarrow> s_refines c granted (S_append_n m x) xs (str_append_n c granted m x s)"
  using assms by (auto simp: str_append_n_def rep_size intro!: resize_refines)

section \<open>Operations in place\<close>

lemma pop_back_rep:
  assumes c: "cfg_ok c" and r: "rep c s (xs @ [x])"
  shows "rep c (str_pop_back c s) xs"
proof -
  obtain rest where d: "str_data s = map Some xs @ Some x # rest" using rep_split [OF r] by auto
  have "rep c (set_size c (length xs) (set_data (str_data s) s)) xs"
    by (rule rep_set_size [OF c r]) (simp_all add: d)
  then show ?thesis using decrease_is_set [OF c r, of 1 "str_data s"] by (simp add: str_pop_back_def)
qed

lemma erase_rep:
  assumes c: "cfg_ok c" and r: "rep c s (as @ ds @ us)"
  shows "\<exists>s'. erase_unchecked c (length as) (length ds) s = Some s' \<and> rep c s' (as @ us)"
proof -
  obtain rest where d: "str_data s = map Some as @ map Some ds @ map Some us @ rest" using rep_split [OF r] by auto
  let ?b = "map Some as @ map Some us @ drop (length us) (map Some ds @ map Some us @ rest)"
  have g: "get_range (str_data s) (length as + length ds) (length us) = Some (map Some us)"
    using get_range_mid [of "map Some as @ map Some ds" "map Some us" rest] by (simp add: d)
  have p: "put_range (str_data s) (length as) (map Some us) = Some ?b" by (simp add: d put_range_def)
  have "rep c (set_size c (length (as @ us)) (set_data ?b s)) (as @ us)"
    by (rule rep_set_size [OF c r]) (simp_all add: d)
  then show ?thesis
    using g p decrease_is_set [OF c r, of "length ds" ?b] by (simp add: erase_unchecked_def rep_size [OF c r])
qed

lemma erase_refines:
  assumes "cfg_ok c" "rep c s xs"
  shows "s_refines c granted (S_erase i n) xs (str_erase c i n s)"
proof (cases "i \<le> length xs")
  case True
  let ?as = "take i xs" and ?ds = "take n (drop i xs)" and ?us = "drop (i + n) xs"
  have "xs = ?as @ ?ds @ ?us" by (metis append_take_drop_id drop_drop add.commute)
  then have "rep c s (?as @ ?ds @ ?us)" using assms(2) by simp
  from erase_rep [OF assms(1) this] True show ?thesis
    by (auto simp: str_erase_def throw_if_index_greater_than_size_def rep_size [OF assms] min.commute intro!: s_refines_ret)
next
  case False
  then show ?thesis
    using assms by (auto simp: str_erase_def throw_if_index_greater_than_size_def rep_size s_refines_def)
qed

lemma put_over: "rep c s xs \<Longrightarrow> str_data s = map Some as @ bs @ cs \<Longrightarrow> length ys = length bs \<Longrightarrow>
    put_range (str_data s) (length as) (map Some ys) = Some (map Some as @ map Some ys @ cs)"
  using put_range_mid [of "map Some ys" bs "map Some as" cs] by simp

lemma insert_in_place:
  assumes c: "cfg_ok c" and r: "rep c s (as @ us)" and l: "length as + length us + length ys \<le> str_capacity c s"
    "length as + length us + length ys < 2 ^ 16"
  shows "\<exists>s'. insert_impl c granted (length as) ys s = Some (Ret (), s') \<and> rep c s' (as @ ys @ us)"
proof -
  obtain rest where d: "str_data s = map Some as @ map Some us @ rest" using rep_split [OF r] by auto
  have m: "length (as @ us) + length ys \<le> str_max_size c" using l(1) rep_bounds(2) [OF c r] by simp
  have len: "length ys \<le> length rest" using l(1) by (simp add: rep_capacity [OF c r] d)
  have g: "get_range (str_data s) (length as) (length us) = Some (map Some us)"
    using get_range_mid [of "map Some as" "map Some us" rest] by (simp add: d)
  let ?gap = "take (length ys) (map Some us @ rest)"
  let ?b = "map Some as @ ?gap @ map Some us @ drop (length ys) rest"
  have p: "put_range (str_data s) (length as + length ys) (map Some us) = Some ?b"
    using len by (simp add: d put_range_def)
  have q: "put_range ?b (length as) (map Some ys) = Some (map Some as @ map Some ys @ map Some us @ drop (length ys) rest)"
    using put_range_mid [of "map Some ys" ?gap "map Some as"] len by simp
  have "rep c (set_size c (length (as @ ys @ us)) (set_data (map Some as @ map Some ys @ map Some us @ drop (length ys) rest) s)) (as @ ys @ us)"
    by (rule rep_set_size [OF c r]) (use len in \<open>simp_all add: d\<close>)
  moreover have "set_data b (set_size c n (set_data b' s)) = set_size c n (set_data b s)" for b b' n
    by (auto simp: set_data_def set_size_def split: option.splits)
  ultimately show ?thesis
    using g p q l increase_is_set [OF c r m, of ?b]
    by (simp add: insert_impl_def rep_size [OF c r] and_then_def Let_def add.commute add.left_commute)
qed

section \<open>Insertion that grows\<close>

text \<open>The shifter with the bounds \<open>index\<close> and \<open>count\<close> moves the characters behind the index to the position \<open>count\<close> of the
  new buffer and reports \<open>count - index\<close> more characters than there were.\<close>

lemma shifter_result:
  assumes "length as + length us \<le> n" "length as + length us + length ys < 2 ^ 16"
  shows "make_shifter (length as) (length ys) (replicate n None) (length as + length us) (map Some as @ map Some us @ rest) =
    map_option (\<lambda>b. (b, length us + length ys)) (put_range (map Some as @ replicate (n - length as) None) (length ys) (map Some us))"
proof -
  have "get_range (map Some as @ map Some us @ rest) 0 (length as) = Some (map Some as)"
    using get_range_front [of "map Some as"] by simp
  moreover have "put_range (replicate n None) 0 (map Some as) = Some (map Some as @ replicate (n - length as) None)"
    using assms(1) by (simp add: put_range_def)
  moreover have "get_range (map Some as @ map Some us @ rest) (length as) (length us) = Some (map Some us)"
    using get_range_mid [of "map Some as" "map Some us" rest] by simp
  moreover have "nat ((int (length us) + int (length ys)) mod 65536) = length us + length ys"
    using assms(2) by (simp add: nat_mod_distrib nat_add_distrib)
  ultimately show ?thesis
    by (auto simp: make_shifter_def map_conv_bind_option intro!: bind_option_cong)
qed

lemma insert_grow_state:
  assumes c: "cfg_ok c" and r: "rep c s (as @ us)"
    and g: "str_capacity c s < length as + length us + length ys" "length as + length us + length ys \<le> str_max_size c"
  obtains n b where "insert_impl c True (length as) ys s =
      Some (Ret (), s\<lparr> s_heap := Some b, s_length := (length us + length ys) * ch_width c, s_maximum := n * ch_width c \<rparr>)"
    "length b = n" "length as + length us + length ys \<le> n" "n \<le> str_max_size c"
    "as = [] \<Longrightarrow> take (length ys + length us) b = map Some (ys @ us)"
proof -
  define n where "n = str_calc_optimal_growth c s (length as + length us + length ys)"
  have n: "length as + length us + length ys \<le> n" "n \<le> str_max_size c" "\<not> n \<le> sso_count c"
    using g rep_bounds [OF c r] by (auto simp: n_def str_calc_optimal_growth_def str_calc_growth_def)
  have u: "length as + length us + length ys < 2 ^ 16" using max_size_ushort [OF c g(2)] .
  obtain rest where d: "str_data s = map Some as @ map Some us @ rest" using rep_split [OF r] by auto
  let ?o = "map Some as @ replicate (n - length as) None"
  let ?b = "take (length ys) ?o @ map Some us @ drop (length ys + length us) ?o"
  let ?b' = "take (length as) ?b @ map Some ys @ drop (length as + length ys) ?b"
  have lb: "length ?b = n" using n by simp
  have "put_range ?o (length ys) (map Some us) = Some ?b" using n by (simp add: put_range_def)
  then have "str_grow c True n (make_shifter (length as) (length ys)) s =
      Some (Ret (), s\<lparr> s_heap := Some ?b, s_length := (length us + length ys) * ch_width c, s_maximum := n * ch_width c \<rparr>)"
    using shifter_result [of as us n ys rest] n u g(2) c
    by (simp add: str_grow_def str_grow_unchecked_def rep_size [OF c r] rep_destroy [OF c r] d)
  moreover have p: "put_range ?b (length as) (map Some ys) = Some ?b'" using n lb by (simp only: put_range_def) simp
  ultimately have "insert_impl c True (length as) ys s =
      Some (Ret (), s\<lparr> s_heap := Some ?b', s_length := (length us + length ys) * ch_width c, s_maximum := n * ch_width c \<rparr>)"
    using u g(1) by (simp add: insert_impl_def rep_size [OF c r] Let_def and_then_def set_data_def str_data_def flip: n_def)
  moreover have "length ?b' = n" using put_range_length [OF p] lb by (rule trans)
  moreover have "as = [] \<Longrightarrow> take (length ys + length us) ?b' = map Some (ys @ us)" using n by simp
  ultimately show thesis using n by (intro that)
qed

lemma insert_grow_throws:
  assumes c: "cfg_ok c" and r: "rep c s (as @ us)" and g: "str_capacity c s < length as + length us + length ys"
    "length as + length us + length ys < 2 ^ 16" and t: "str_max_size c < length as + length us + length ys \<or> \<not> granted"
  shows "insert_impl c granted (length as) ys s =
    Some (Throw (if str_max_size c < length as + length us + length ys then LengthError else BadAlloc), s)"
proof -
  let ?n = "str_calc_optimal_growth c s (length as + length us + length ys)"
  have "\<not> ?n \<le> sso_count c" "str_max_size c < length as + length us + length ys \<longleftrightarrow> str_max_size c < ?n"
    using g rep_bounds [OF c r] by (auto simp: str_calc_optimal_growth_def str_calc_growth_def)
  then show ?thesis
    using g t by (auto simp: insert_impl_def rep_size [OF c r] Let_def str_grow_def str_grow_unchecked_def and_then_def)
qed

lemma insert_grow_refines:
  assumes c: "cfg_ok c" and r: "rep c s us" and g: "str_capacity c s < length us + length ys" "length us + length ys < 2 ^ 16"
  shows "s_refines c granted (S_insert 0 ys) us (insert_impl c granted 0 ys s)"
proof (cases "str_max_size c < length us + length ys \<or> \<not> granted")
  case True
  then show ?thesis
    using insert_grow_throws [OF c, of s "[]" us ys granted] g r by (auto simp: s_refines_def split: if_splits)
next
  case False
  then obtain n b where "insert_impl c True 0 ys s =
      Some (Ret (), s\<lparr> s_heap := Some b, s_length := (length us + length ys) * ch_width c, s_maximum := n * ch_width c \<rparr>)"
    "length b = n" "length us + length ys \<le> n" "n \<le> str_max_size c" "take (length ys + length us) b = map Some (ys @ us)"
    using insert_grow_state [OF c, of s "[]" us ys] g r by auto
  moreover from this have "sso_count c < n" using g rep_bounds(4) [OF c r] by simp
  ultimately show ?thesis
    using False r by (auto simp: rep_def str_data_def intro!: s_refines_ret)
qed

lemma insert_refines:
  assumes c: "cfg_ok c" and r: "rep c s xs" and ok: "s_op_ok (S_insert i ys) xs (str_capacity c s)"
  shows "s_refines c granted (S_insert i ys) xs (str_insert c granted i ys s)"
proof -
  have l: "length xs + length ys < 2 ^ 16" using ok by simp
  note defs = str_insert_def throw_if_index_greater_than_size_def rep_size [OF c r]
  consider "length xs < i" | "i = length xs" | "i < length xs" "length xs + length ys \<le> str_capacity c s"
    | "i < length xs" "str_capacity c s < length xs + length ys" "i = 0" using ok by fastforce
  then show ?thesis
  proof cases
    case 1
    then show ?thesis using r by (auto simp: defs s_refines_def)
  next
    case 2
    then show ?thesis using append_refines [OF c r l, of granted] by (auto simp: defs s_refines_def)
  next
    case 3
    then show ?thesis
      using insert_in_place [OF c, of s "take i xs" "drop i xs" ys granted] r l by (auto simp: defs intro!: s_refines_ret)
  next
    case 4
    then show ?thesis using insert_grow_refines [OF c r _ l, of granted] by (simp add: defs)
  qed
qed

section \<open>Refinement\<close>


lemma cfgs_ok: "cfg_ok ansi" "cfg_ok unicode"
  by (simp_all add: cfg_ok_def ansi_def unicode_def str_max_size_def bytes_count_to_ch_def)

lemma rep_empty: "cfg_ok c \<Longrightarrow> rep c (empty_string c) []"
  by (auto simp: rep_def empty_string_def become_small_def str_data_def cfg_ok_def)


section \<open>Whole strings\<close>

lemma rep_become_small: "cfg_ok c \<Longrightarrow> length (s_sso s) = sso_count c \<Longrightarrow> rep c (become_small c 0 s) []"
  by (auto simp: rep_def become_small_def str_data_def cfg_ok_def)

lemma clear_empty: "str_clear c (empty_string c) = empty_string c"
  by (simp add: str_clear_def set_size_def empty_string_def become_small_def)

lemma construct_refines:
  assumes "cfg_ok c" "length ys < 2 ^ 16"
  shows "s_refines c granted (S_assign ys) [] (str_construct c granted (Chars ys))"
  using assign_refines [OF assms(1) rep_empty [OF assms(1)] assms(2), of granted]
  by (simp add: str_assign_def str_construct_def clear_empty)

lemma copy_string_refines:
  assumes "cfg_ok c" "rep c s xs"
  shows "s_refines c granted (S_assign xs) [] (str_copy c granted s)"
  using construct_refines [OF assms(1), of xs granted] rep_bounds [OF assms] max_size_ushort [OF assms(1), of "length xs"]
  by (simp add: str_copy_def rep_chars [OF assms])

text \<open>Moving hands the characters over and leaves an empty string.\<close>

lemma string_move_refines:
  assumes c: "cfg_ok c" and r: "rep c other xs" "rep c s ys"
  shows "\<exists>this. str_move c other = Some (this, become_small c 0 other) \<and> rep c this xs"
    and "\<exists>this. str_move_assign c other s = Some (this, become_small c 0 other) \<and> rep c this xs"
    and "rep c (become_small c 0 other) []"
proof -
  obtain rest where d: "str_data other = map Some xs @ rest" using r(1) by (rule rep_split)
  have g: "get_range (str_data other) 0 (length xs) = Some (map Some xs)"
    using get_range_front [of "map Some xs" rest] by (simp add: d)
  have l: "s_heap other = None \<Longrightarrow> length xs \<le> sso_count c" "length xs \<le> str_max_size c" "sso_count c \<le> str_max_size c"
    using r(1) rep_bounds [OF c r(1)] c by (auto simp: rep_def str_data_def cfg_ok_def)
  show "\<exists>this. str_move c other = Some (this, become_small c 0 other) \<and> rep c this xs"
    using l g r(1) by (auto simp: str_move_def rep_small [OF c r(1)] rep_size [OF c r(1)] put_range_def) (auto simp: rep_def str_data_def)
  show "\<exists>this. str_move_assign c other s = Some (this, become_small c 0 other) \<and> rep c this xs"
    using l g r c
    by (auto simp: str_move_assign_def rep_small [OF c r(1)] rep_size [OF c r(1)] rep_destroy [OF c r(2)] put_range_def)
      (auto simp: rep_def str_data_def become_small_def set_data_def)
  show "rep c (become_small c 0 other) []" using r(1) by (intro rep_become_small [OF c]) (simp add: rep_def)
qed

section \<open>Where it goes wrong\<close>

text \<open>C39: In an \<^verbatim>\<open>ansi_string\<close> whose buffer is full and holds at least \<open>2 ^ 15\<close> characters, \<^verbatim>\<open>push_back\<close> computes the new capacity
  modulo \<open>2 ^ 16\<close>, gets one smaller than the string and copies the string into the smaller buffer (for \<open>2 ^ 15\<close>
  characters, the small buffer inside of the object), which is undefined.\<close>

theorem ansi_push_back_overruns:
  assumes "rep ansi s xs" "str_capacity ansi s = length xs" "2 ^ 15 \<le> length xs" "length xs < str_max_size ansi"
  shows "str_push_back ansi True x s = None"
proof -
  note r = assms(1) and c = cfgs_ok(1)
  let ?n = "length xs * 2 - 2 ^ 16"
  have n: "str_calc_growth ansi s = ?n" "?n < length xs" "?n \<le> str_max_size ansi"
    using assms(2-4) by (auto simp: str_calc_growth_def str_max_size_def bytes_count_to_ch_def ansi_def mod_if)
  obtain rest where d: "str_data s = map Some xs @ rest" using r by (rule rep_split)
  have "get_range (str_data s) 0 (length xs) = Some (map Some xs)" using get_range_front [of "map Some xs" rest] by (simp add: d)
  moreover have "length (s_sso s) < length xs" using r assms(3) by (simp add: rep_def ansi_def)
  ultimately have "str_transfer_without_shift (s_sso s) (length xs) (str_data s) = None"
    "str_transfer_without_shift (replicate ?n None) (length xs) (str_data s) = None"
    using n(2) by (simp_all add: str_transfer_without_shift_def put_range_def)
  then show ?thesis
    using assms(2) n by (simp add: str_push_back_def Let_def rep_size [OF c r] str_grow_def str_grow_unchecked_def and_then_def)
qed

text \<open>A string that holds \<open>n\<close> times the character \<open>x\<close> in a heap buffer of that size.\<close>

definition full_string :: "str_cfg \<Rightarrow> nat \<Rightarrow> 'c \<Rightarrow> 'c nt_string" where
  "full_string c n x = \<lparr> s_length = n * ch_width c, s_maximum = n * ch_width c, s_heap = Some (replicate n (Some x)),
     s_sso = replicate (sso_count c) None \<rparr>"

lemma rep_full: "sso_count c < n \<Longrightarrow> n \<le> str_max_size c \<Longrightarrow> rep c (full_string c n x) (replicate n x)"
  by (simp add: rep_def full_string_def str_data_def)

theorem ansi_push_back_overruns_witness:
  "rep ansi (full_string ansi (2 ^ 15) CHR ''a'') (replicate (2 ^ 15) CHR ''a'') \<and>
   str_push_back ansi True CHR ''b'' (full_string ansi (2 ^ 15) CHR ''a'') = None"
proof -
  have r: "rep ansi (full_string ansi (2 ^ 15) CHR ''a'') (replicate (2 ^ 15) CHR ''a'')"
    by (rule rep_full) (simp_all add: ansi_def str_max_size_def bytes_count_to_ch_def)
  have "str_capacity ansi (full_string ansi (2 ^ 15) CHR ''a'') = length (replicate (2 ^ 15) CHR ''a'')"
    by (simp add: str_capacity_def bytes_count_to_ch_def full_string_def ansi_def)
  then show ?thesis
    using ansi_push_back_overruns [OF r, of "CHR ''b''"] r by (simp add: ansi_def str_max_size_def bytes_count_to_ch_def)
qed

text \<open>An insertion before the end that needs a larger buffer gives a string that is too short by the length of the
  part before the position: the characters behind the position are moved to the wrong place.\<close>

theorem string_insert_growth_loses:
  assumes "cfg_ok c" "rep c s (as @ us)" "us \<noteq> []" "str_capacity c s < length as + length us + length ys"
    "length as + length us + length ys \<le> str_max_size c"
  shows "\<exists>s'. str_insert c True (length as) ys s = Some (Ret (), s') \<and> str_size c s' = length us + length ys"
proof -
  obtain n b where "insert_impl c True (length as) ys s =
      Some (Ret (), s\<lparr> s_heap := Some b, s_length := (length us + length ys) * ch_width c, s_maximum := n * ch_width c \<rparr>)"
    using insert_grow_state [OF assms(1,2,4,5)] by metis
  then show ?thesis
    using assms(1,3)
    by (simp add: str_insert_def throw_if_index_greater_than_size_def rep_size [OF assms(1,2)])
      (simp add: str_size_def bytes_count_to_ch_def)
qed

theorem string_insert_growth_loses_witness:
  "rep ansi (full_string ansi 20 CHR ''a'') (replicate 5 CHR ''a'' @ replicate 15 CHR ''a'') \<and>
   (\<exists>s'. str_insert ansi True 5 ''xyz'' (full_string ansi 20 CHR ''a'') = Some (Ret (), s') \<and> str_size ansi s' = 18)"
proof -
  have "rep ansi (full_string ansi 20 CHR ''a'') (replicate 20 CHR ''a'')"
    by (rule rep_full) (simp_all add: ansi_def str_max_size_def bytes_count_to_ch_def)
  then have r: "rep ansi (full_string ansi 20 CHR ''a'') (replicate 5 CHR ''a'' @ replicate 15 CHR ''a'')"
    by (simp add: replicate_add [symmetric])
  show ?thesis
    using string_insert_growth_loses [OF cfgs_ok(1) r, of "''xyz''"] r
    by (simp add: str_capacity_def str_max_size_def bytes_count_to_ch_def full_string_def ansi_def)
qed

text \<open>Appending a string to itself reads from its old buffer after freeing it, when the string is on the heap and has to
  grow. A small string is read from the object and doubles as expected.\<close>

theorem append_itself:
  assumes c: "cfg_ok c" and r: "rep c s xs" and g: "str_capacity c s < 2 * length xs" "2 * length xs \<le> str_max_size c"
  shows "if s_heap s = None then \<exists>s'. str_append c True (Own 0 (length xs)) s = Some (Ret (), s') \<and> rep c s' (xs @ xs)
    else str_append c True (Own 0 (length xs)) s = None"
proof -
  define n where "n = str_calc_optimal_growth c s (2 * length xs)"
  have n: "str_capacity c s < n" "2 * length xs \<le> n" "n \<le> str_max_size c"
    using g rep_bounds [OF c r] by (auto simp: n_def str_calc_optimal_growth_def str_calc_growth_def)
  then obtain s' where s': "str_grow c True n str_transfer_without_shift s = Some (Ret (), s')" "rep c s' xs"
    "length (str_data s') = n" "s_sso s' = s_sso s"
    using grow_transfer [OF c r, of n True] by (auto simp: grows_def)
  have "length xs * 2 < 2 ^ 16" using max_size_ushort [OF c g(2)] by simp
  then have a: "str_append c True (Own 0 (length xs)) s =
      Option.bind (read_source True s s' (Own 0 (length xs))) (\<lambda>ys.
      Option.bind (put_range (str_data s') (length xs) ys) (\<lambda>b. Some (Ret (), str_increase_size c (length xs) (set_data b s'))))"
    using g(1) s'(1) by (simp add: str_append_def concat_with_optimal_growth_def concat_impl_def rep_size [OF c r] Let_def
        and_then_def n_def mult_2 mult_2_right)
  show ?thesis
  proof (cases "s_heap s")
    case None
    then have "get_range (s_sso s) 0 (length xs) = Some (map Some xs)"
      using r by (auto simp: rep_def str_data_def get_range_def)
    then show ?thesis using None a s' n(2) put_behind [OF c s'(2), of xs] by auto
  qed (use a in simp)
qed


text \<open>The sum of the sizes is computed modulo \<open>2 ^ 16\<close>: when it wraps around to something that fits the buffer, the
  characters are written behind its end.\<close>

theorem append_wraps_around:
  assumes c: "cfg_ok c" and r: "rep c s xs" and w: "2 ^ 16 \<le> length xs + length ys" "length xs + length ys - 2 ^ 16 \<le> str_capacity c s"
    and y: "length ys < 2 ^ 16"
  shows "str_append c granted (Chars ys) s = None"
proof -
  have l: "length xs < 2 ^ 16" using rep_bounds [OF c r] max_size_ushort [OF c, of "length xs"] by simp
  have "ushort (length xs + length ys) = length xs + length ys - 2 ^ 16"
    using w(1) l y by (simp add: mod_if)
  moreover have "str_capacity c s < length xs + length ys"
    using rep_bounds(2) [OF c r] max_size_ushort [OF c, of "str_capacity c s"] w(1) by simp
  ultimately show ?thesis
    using w(2) rep_capacity [OF c r]
    by (simp add: str_append_def concat_with_optimal_growth_def concat_impl_def rep_size [OF c r] Let_def and_then_def put_range_def)
qed

text \<open>\<^verbatim>\<open>operator+\<close> concatenates in the wrong order when the right operand has the larger small buffer, when both are rvalues and
  only the right one has the capacity, and always when the left operand is a literal.\<close>

lemma copy_append:
  assumes "cfg_ok c" "rep c s xs" "length xs + length ys \<le> str_max_size c"
  shows "\<exists>s'. and_then (str_copy c True s) (str_append c True (Chars ys)) = Some (Ret (), s') \<and> rep c s' (xs @ ys)"
proof -
  obtain s1 where s1: "str_copy c True s = Some (Ret (), s1)" "rep c s1 xs"
    using copy_string_refines [OF assms(1,2), of True] rep_bounds [OF assms(1,2)] by (auto simp: s_refines_def)
  have "length xs + length ys < 2 ^ 16" using max_size_ushort [OF assms(1,3)] .
  then show ?thesis
    using append_refines [OF assms(1) s1(2), of ys True] s1 assms(3) by (auto simp: s_refines_def and_then_def)
qed

theorem string_plus_swaps:
  assumes "cfg_ok cl" "cfg_ok cr" "rep cl lhs xs" "rep cr rhs ys" "sso_count cl < sso_count cr"
    "length xs + length ys \<le> str_max_size cr"
  shows "\<exists>s. str_plus_lvalues cl cr True lhs rhs = Some (Ret (), s) \<and> rep cr s (ys @ xs)"
    and "\<exists>s. str_plus_literal cr True xs rhs = Some (Ret (), s) \<and> rep cr s (ys @ xs)"
  using copy_append [OF assms(2,4), of xs] assms(5,6) rep_chars [OF assms(1,3)] rep_chars [OF assms(2,4)]
  by (simp_all add: str_plus_lvalues_def str_plus_literal_def add.commute)

end
