(* ===== verification/Str_Search.thy ===== *)
theory Str_Search
  imports Nt_String
begin

text \<open>
  Comparison and search of character ranges: \<^verbatim>\<open>char_traits\<close>, \<^verbatim>\<open>string_algorithm_impl.hpp\<close>, \<^verbatim>\<open>find_subrange\<close> of
  \<^verbatim>\<open>algorithm.hpp\<close> and the operations of \<^verbatim>\<open>basic_winnt_string_view\<close> built on them. A view is the list of its
  characters, a pointer into it an index; reading behind the end is \<open>None\<close>.
\<close>

section \<open>Comparison\<close>

text \<open>\<open>traits_compare\<close> is the loop of \<^verbatim>\<open>char_traits_base\<close>, over any linear order of characters. The specialisations for \<^verbatim>\<open>char\<close> and \<^verbatim>\<open>wchar_t\<close> call \<^verbatim>\<open>memcmp\<close> and
  \<^verbatim>\<open>wmemcmp\<close> instead, which do the same with the order of unsigned bytes and of 16-bit units.\<close>

fun traits_compare :: "('c :: linorder) list \<Rightarrow> 'c list \<Rightarrow> nat \<Rightarrow> int option" where
  "traits_compare str1 str2 0 = Some 0"
| "traits_compare (x # str1) (y # str2) (Suc count) =
     (if x \<noteq> y then Some (if x < y then -1 else 1) else traits_compare str1 str2 count)"
| "traits_compare _ _ (Suc count) = None"

definition compare_unchecked :: "('c :: linorder) list \<Rightarrow> 'c list \<Rightarrow> int option" where
  "compare_unchecked lhs rhs =
     map_option (\<lambda>cmp_result. if cmp_result = 0 \<and> length lhs \<noteq> length rhs then (if length lhs < length rhs then -1 else 1) else cmp_result)
       (traits_compare lhs rhs (min (length lhs) (length rhs)))"

section \<open>Search for characters\<close>

text \<open>\<open>traits_find\<close> returns a pointer, \<open>None\<close> for null; the outer option is undefined behaviour.\<close>

fun traits_find :: "'c list \<Rightarrow> nat \<Rightarrow> nat \<Rightarrow> 'c \<Rightarrow> nat option option" where
  "traits_find str pos 0 ch = Some None"
| "traits_find str pos (Suc count) ch =
     (case rd str pos of None \<Rightarrow> None | Some x \<Rightarrow> if x = ch then Some (Some pos) else traits_find str (Suc pos) count ch)"

definition find_ch :: "'c list \<Rightarrow> 'c \<Rightarrow> nat \<Rightarrow> nat option" where
  "find_ch str ch start_pos =
     (if start_pos \<ge> length str then Some str_npos
      else map_option (\<lambda>p. case p of None \<Rightarrow> str_npos | Some i \<Rightarrow> i) (traits_find str start_pos (length str - start_pos) ch))"

fun rfind_loop :: "'c list \<Rightarrow> 'c \<Rightarrow> nat \<Rightarrow> nat option" where
  "rfind_loop str ch 0 = Some str_npos"
| "rfind_loop str ch (Suc pos) = (case rd str pos of None \<Rightarrow> None | Some x \<Rightarrow> if x = ch then Some pos else rfind_loop str ch pos)"

definition rfind_ch :: "'c list \<Rightarrow> 'c \<Rightarrow> nat \<Rightarrow> nat option" where
  "rfind_ch str ch start_pos = (if start_pos \<ge> length str then Some str_npos else rfind_loop str ch (length str))"

section \<open>Search for substrings\<close>

fun count_matches_at_begin :: "'c list \<Rightarrow> nat \<Rightarrow> 'c list \<Rightarrow> nat option" where
  "count_matches_at_begin str range_first [] = Some 0"
| "count_matches_at_begin str range_first (x # xs) =
     (case rd str range_first of None \<Rightarrow> None
      | Some y \<Rightarrow> if y = x then map_option Suc (count_matches_at_begin str (Suc range_first) xs) else Some 0)"

lemma search_advances:
  "count_matches_at_begin str i sub = Some n \<Longrightarrow> n \<noteq> length sub \<Longrightarrow> length sub \<le> len \<Longrightarrow> len - Suc n < len"
  by (cases sub) auto

text \<open>After a mismatch the search goes on behind the character that did not match.\<close>

function find_subrange :: "'c list \<Rightarrow> 'c list \<Rightarrow> nat \<Rightarrow> nat \<Rightarrow> nat option" where
  "find_subrange str sub range_first range_length =
     (if range_length \<ge> length sub
      then (case count_matches_at_begin str range_first sub of None \<Rightarrow> None
            | Some n \<Rightarrow> if n = length sub then Some range_first
                        else find_subrange str sub (range_first + n + 1) (range_length - (n + 1)))
      else Some (length str))"
  by auto
termination
  by (relation "measure (\<lambda>(str, sub, first, len). len)") (auto dest: search_advances)

declare find_subrange.simps [simp del]

text \<open>The length of the range is the difference of two pointers as \<^verbatim>\<open>size_t\<close>.\<close>

definition find_substr :: "'c list \<Rightarrow> nat \<Rightarrow> 'c list \<Rightarrow> nat option" where
  "find_substr str str_start_pos sub =
     (if length sub > length str then Some str_npos
      else map_option (\<lambda>found. if found \<noteq> length str then found else str_npos)
        (find_subrange str sub str_start_pos (size_wrap (length str + (2 ^ 64 - str_start_pos)))))"

section \<open>Views\<close>

definition view_remove_prefix :: "nat \<Rightarrow> 'c list \<Rightarrow> 'c list option" where
  "view_remove_prefix count v = (if count \<le> length v then Some (drop count v) else None)"

definition view_remove_suffix :: "nat \<Rightarrow> 'c list \<Rightarrow> 'c list option" where
  "view_remove_suffix count v = (if count \<le> length v then Some (take (length v - count) v) else None)"

definition substr_unchecked :: "nat \<Rightarrow> nat \<Rightarrow> 'c list \<Rightarrow> 'c list" where
  "substr_unchecked pos count v = take (min (length v - pos) count) (drop pos v)"

definition view_substr :: "nat \<Rightarrow> nat \<Rightarrow> 'c list \<Rightarrow> 'c list outcome" where
  "view_substr pos count v =
     (case throw_if_index_greater_than_size pos (length v) of Throw e \<Rightarrow> Throw e | Ret _ \<Rightarrow> Ret (substr_unchecked pos count v))"

definition view_starts_with :: "('c :: linorder) list \<Rightarrow> 'c list \<Rightarrow> bool option" where
  "view_starts_with v other =
     (if length other > length v then Some False
      else map_option (\<lambda>r. r = 0) (compare_unchecked (take (length other) v) other))"

text \<open>\<open>ends_with\<close> returns the result of the comparison itself, converted to \<^verbatim>\<open>bool\<close>.\<close>

definition view_ends_with :: "('c :: linorder) list \<Rightarrow> 'c list \<Rightarrow> bool option" where
  "view_ends_with v other =
     (if length other > length v then Some False
      else map_option (\<lambda>r. r \<noteq> 0) (compare_unchecked (substr_unchecked (length v - length other) (length other) v) other))"

definition view_contains :: "'c list \<Rightarrow> 'c list \<Rightarrow> bool option" where
  "view_contains v other = map_option (\<lambda>r. r \<noteq> str_npos) (find_substr v 0 other)"

definition view_copy :: "'c list \<Rightarrow> nat \<Rightarrow> nat \<Rightarrow> 'c list outcome" where
  "view_copy v count pos =
     (case throw_if_index_greater_than_size pos (length v) of Throw e \<Rightarrow> Throw e
      | Ret _ \<Rightarrow> Ret (take (min (length v - pos) count) (drop pos v)))"

section \<open>Comparison is lexicographic\<close>

lemma traits_compare_eq:
  "traits_compare xs ys (min (length xs) (length ys)) = Some 0 \<longleftrightarrow> take (length ys) xs = take (length xs) ys"
  by (induction xs ys rule: list_induct2') auto

lemma compare_cases:
  "compare_unchecked xs ys = Some (if xs = ys then 0 else if ord_class.lexordp xs ys then -1 else 1)"
proof (induction xs ys rule: list_induct2')
  case (4 x xs y ys)
  show ?case
  proof (cases "x = y")
    case True
    then have "compare_unchecked (x # xs) (y # ys) = compare_unchecked xs ys" by (simp add: compare_unchecked_def)
    then show ?thesis using 4 True by simp
  next
    case False
    then show ?thesis by (auto simp: compare_unchecked_def)
  qed
qed (simp_all add: compare_unchecked_def)

text \<open>C21: Comparing two strings reads only their characters and decides their lexicographic order: the result is
  0 exactly for equal strings, negative exactly when the left one comes first, positive otherwise.\<close>

theorem string_compare_lexicographic:
  "\<exists>r. compare_unchecked xs ys = Some r \<and> (r = 0 \<longleftrightarrow> xs = ys) \<and> (r < 0 \<longleftrightarrow> ord_class.lexordp xs ys) \<and> (0 < r \<longleftrightarrow> ord_class.lexordp ys xs)"
  using lexordp_irreflexive' [of xs] lexordp_antisym [of xs ys] lexordp_linear [of xs ys] by (auto simp: compare_cases)

section \<open>Search\<close>

definition occurs_at :: "'c list \<Rightarrow> 'c list \<Rightarrow> nat \<Rightarrow> bool" where
  "occurs_at str sub i \<longleftrightarrow> i + length sub \<le> length str \<and> take (length sub) (drop i str) = sub"

lemma occurs_at_Cons: "occurs_at str (x # sub) i \<longleftrightarrow> i < length str \<and> str ! i = x \<and> occurs_at str sub (Suc i)"
  by (auto simp: occurs_at_def simp flip: Cons_nth_drop_Suc)

lemma count_matches_spec:
  "i + length sub \<le> length str \<Longrightarrow>
     \<exists>n. count_matches_at_begin str i sub = Some n \<and> n \<le> length sub \<and> (n = length sub \<longleftrightarrow> occurs_at str sub i)"
proof (induction sub arbitrary: i)
  case Nil
  then show ?case by (simp add: occurs_at_def)
next
  case (Cons x sub)
  then have "Suc i + length sub \<le> length str" by simp
  from Cons.IH [OF this]
  obtain n where "count_matches_at_begin str (Suc i) sub = Some n" "n \<le> length sub" "n = length sub \<longleftrightarrow> occurs_at str sub (Suc i)"
    by auto
  then show ?case using Cons.prems by (auto simp: occurs_at_Cons)
qed

lemma find_subrange_spec:
  "range_first + range_length = length str \<Longrightarrow>
     \<exists>r. find_subrange str sub range_first range_length = Some r \<and> range_first \<le> r \<and> r \<le> length str \<and>
       (r < length str \<longrightarrow> occurs_at str sub r) \<and> (sub \<noteq> [] \<and> occurs_at str sub range_first \<longrightarrow> r = range_first) \<and>
       (length sub = 1 \<longrightarrow> (\<forall>i. range_first \<le> i \<and> i < r \<longrightarrow> \<not> occurs_at str sub i))"
proof (induction str sub range_first range_length rule: find_subrange.induct)
  case (1 str sub range_first range_length)
  show ?case
  proof (cases "length sub \<le> range_length")
    case False
    then show ?thesis using 1(2) by (subst find_subrange.simps) (auto simp: occurs_at_def)
  next
    case True
    then obtain n where n: "count_matches_at_begin str range_first sub = Some n" "n \<le> length sub"
      "n = length sub \<longleftrightarrow> occurs_at str sub range_first"
      using count_matches_spec [of range_first sub str] 1(2) by auto
    show ?thesis
    proof (cases "n = length sub")
      case m: True
      then show ?thesis using n True 1(2) by (subst find_subrange.simps) auto
    next
      case False
      then have "range_first + n + 1 + (range_length - (n + 1)) = length str" using n(2) True 1(2) by simp
      then obtain r where r: "find_subrange str sub (range_first + n + 1) (range_length - (n + 1)) = Some r"
        "range_first + n + 1 \<le> r" "r \<le> length str" "r < length str \<longrightarrow> occurs_at str sub r"
        "length sub = 1 \<longrightarrow> (\<forall>i. range_first + n + 1 \<le> i \<and> i < r \<longrightarrow> \<not> occurs_at str sub i)"
        using 1(1) [OF True n(1) False] by blast
      have "length sub = 1 \<longrightarrow> (\<forall>i. range_first \<le> i \<and> i < r \<longrightarrow> \<not> occurs_at str sub i)"
      proof (intro impI allI)
        fix i assume a: "length sub = 1" "range_first \<le> i \<and> i < r"
        then have "n = 0" using False n(2) by simp
        then show "\<not> occurs_at str sub i" using a r(5) n(3) False by (cases "i = range_first") auto
      qed
      then show ?thesis using r n True False by (subst find_subrange.simps) auto
    qed
  qed
qed

text \<open>Searching a substring from a position inside of the string stays inside of it and returns the position of an
  occurrence at or behind the start, or \<^verbatim>\<open>npos\<close>. It finds an occurrence at the start position, and for a single character it
  finds the first one.\<close>

theorem find_substr_sound:
  assumes "start \<le> length str" "length str < str_npos"
  shows "\<exists>r. find_substr str start sub = Some r \<and> (r \<noteq> str_npos \<longrightarrow> start \<le> r \<and> occurs_at str sub r) \<and>
    (sub \<noteq> [] \<and> occurs_at str sub start \<longrightarrow> r = start) \<and>
    (length sub = 1 \<longrightarrow> (\<forall>i. start \<le> i \<and> occurs_at str sub i \<longrightarrow> r \<le> i))"
proof (cases "length str < length sub")
  case True
  then show ?thesis by (auto simp: find_substr_def occurs_at_def)
next
  case False
  have b: "length str < 2 ^ 64" using assms(2) by (simp add: str_npos_def)
  have w: "size_wrap (length str + (2 ^ 64 - start)) = length str - start"
  proof -
    have "length str + (2 ^ 64 - start) = (length str - start) + 2 ^ 64" using assms(1) b by simp
    then show ?thesis using b by (metis less_imp_diff_less mod_add_self2 mod_less)
  qed
  obtain r where r: "find_subrange str sub start (length str - start) = Some r" "start \<le> r" "r \<le> length str"
    "r < length str \<longrightarrow> occurs_at str sub r" "sub \<noteq> [] \<and> occurs_at str sub start \<longrightarrow> r = start"
    "length sub = 1 \<longrightarrow> (\<forall>i. start \<le> i \<and> i < r \<longrightarrow> \<not> occurs_at str sub i)"
    using find_subrange_spec [of start "length str - start" str sub] assms(1) by auto
  have f: "find_substr str start sub = Some (if r \<noteq> length str then r else str_npos)"
    using r(1) w False by (simp add: find_substr_def)
  show ?thesis
  proof (cases "r = length str")
    case True
    then have "\<not> occurs_at str sub i" if "length sub = 1" "start \<le> i" for i
      using r(6) that by (cases "i < length str") (auto simp: occurs_at_def)
    moreover have "\<not> occurs_at str sub start" if "sub \<noteq> []" using r(5) that True by (auto simp: occurs_at_def)
    ultimately show ?thesis using f True by auto
  next
    case False
    then have "r < str_npos" using r(3) assms(2) by simp
    then show ?thesis using f False r by (auto simp: not_less)
  qed
qed

theorem find_substr_sound_witness:
  "(1::nat) \<le> length ''abcabc'' \<and> length ''abcabc'' < str_npos \<and> find_substr ''abcabc'' 1 ''ca'' = Some 2"
  using find_substr_sound [of 1 "''abcabc''" "''ca''"]
  by (auto simp: str_npos_def find_substr_def find_subrange.simps)

text \<open>The search skips the character behind a partial match, and with it occurrences that start there: \<open>ab\<close> is not found
  in \<open>aab\<close>.\<close>

theorem find_substr_misses:
  "a \<noteq> b \<Longrightarrow> occurs_at [a, a, b] [a, b] 1 \<and> find_substr [a, a, b] 0 [a, b] = Some str_npos \<and> view_contains [a, a, b] [a, b] = Some False"
  by (simp add: occurs_at_def view_contains_def find_substr_def find_subrange.simps rd_def)

theorem find_substr_misses_witness:
  "CHR ''a'' \<noteq> CHR ''b'' \<and> find_substr ''aab'' 0 ''ab'' = Some str_npos"
  using find_substr_misses [of "CHR ''a''" "CHR ''b''"] by simp

lemma traits_find_spec:
  "pos + count \<le> length str \<Longrightarrow>
     (case traits_find str pos count ch of None \<Rightarrow> False
      | Some None \<Rightarrow> \<forall>i. pos \<le> i \<and> i < pos + count \<longrightarrow> str ! i \<noteq> ch
      | Some (Some i) \<Rightarrow> pos \<le> i \<and> i < pos + count \<and> str ! i = ch \<and> (\<forall>j. pos \<le> j \<and> j < i \<longrightarrow> str ! j \<noteq> ch))"
proof (induction count arbitrary: pos)
  case (Suc count)
  from Suc.IH [of "Suc pos"] Suc.prems show ?case
    by (auto split: option.splits simp: Suc_le_eq) (metis Suc_leI le_neq_implies_less)+
qed auto

text \<open>Searching a character from a position finds the first one at or behind it.\<close>

theorem find_ch_first:
  "\<exists>r. find_ch str ch start = Some r \<and>
    (r = str_npos \<and> (\<forall>i. start \<le> i \<and> i < length str \<longrightarrow> str ! i \<noteq> ch) \<or>
     start \<le> r \<and> r < length str \<and> str ! r = ch \<and> (\<forall>j. start \<le> j \<and> j < r \<longrightarrow> str ! j \<noteq> ch))"
proof (cases "start < length str")
  case True
  then obtain p where p: "traits_find str start (length str - start) ch = Some p"
    and s: "case p of None \<Rightarrow> \<forall>i. start \<le> i \<and> i < length str \<longrightarrow> str ! i \<noteq> ch
      | Some i \<Rightarrow> start \<le> i \<and> i < length str \<and> str ! i = ch \<and> (\<forall>j. start \<le> j \<and> j < i \<longrightarrow> str ! j \<noteq> ch)"
    using traits_find_spec [of start "length str - start" str ch] by (auto split: option.splits)
  have "find_ch str ch start = Some (case p of None \<Rightarrow> str_npos | Some i \<Rightarrow> i)" using True p by (simp add: find_ch_def)
  then show ?thesis using s by (cases p) auto
qed (auto simp: find_ch_def)

text \<open>The backward search ignores the start position: it returns the last occurrence in the whole string.\<close>

lemma rfind_loop_prefix: "n \<le> length ys \<Longrightarrow> rfind_loop (ys @ zs) ch n = rfind_loop ys ch n"
  by (induction n) (simp_all add: rd_def nth_append)

lemma rfind_loop_append: "ch \<notin> set zs \<Longrightarrow> rfind_loop (xs @ ch # zs) ch (Suc (length xs + length zs)) = Some (length xs)"
proof (induction zs rule: rev_induct)
  case (snoc z zs)
  then show ?case
    using rfind_loop_prefix [of "Suc (length xs + length zs)" "xs @ ch # zs" "[z]" ch]
      rfind_loop.simps(2) [of "xs @ ch # zs @ [z]" ch "Suc (length xs + length zs)"]
    by (auto simp: rd_def nth_append simp del: rfind_loop.simps(2))
qed (simp add: rd_def)

theorem rfind_ignores_start:
  "ch \<notin> set zs \<Longrightarrow> start < length (xs @ ch # zs) \<Longrightarrow> rfind_ch (xs @ ch # zs) ch start = Some (length xs)"
  using rfind_loop_append [of ch zs xs] by (simp add: rfind_ch_def)

text \<open>\<^verbatim>\<open>starts_with\<close> decides prefixes; \<^verbatim>\<open>ends_with\<close> decides the opposite of what it says.\<close>

theorem view_prefix_suffix:
  "view_starts_with v other = Some (\<exists>w. v = other @ w)"
  "length other \<le> length v \<Longrightarrow> view_ends_with v other = Some (\<not> (\<exists>w. v = w @ other))"
proof -
  show "view_starts_with v other = Some (\<exists>w. v = other @ w)"
    by (auto simp: view_starts_with_def compare_cases) (metis append_take_drop_id)
  show "length other \<le> length v \<Longrightarrow> view_ends_with v other = Some (\<not> (\<exists>w. v = w @ other))"
    by (auto simp: view_ends_with_def compare_cases substr_unchecked_def) (metis append_take_drop_id)
qed

end
