(* ===== verification/Multi_Lock.thy ===== *)
theory Multi_Lock
  imports Ktl_Prelude
begin

text \<open>
  Locking several mutexes at once (\<^verbatim>\<open>ktl::lock\<close> and \<^verbatim>\<open>scoped_lock\<close>, \<^verbatim>\<open>include/mutex.hpp\<close>). A mutex is a parameter of the code: it is
  represented by its owner, \<^verbatim>\<open>lock\<close> waits until there is none, \<^verbatim>\<open>try_lock\<close> fails if there is one. Any number of threads run; each
  step is one call of a mutex by one thread, and the threads interleave in any order.
\<close>

section \<open>One thread\<close>

text \<open>Where a thread is. Indices are positions in its own list of arguments.
  \<^item> \<open>Block prev\<close>: \<^verbatim>\<open>lock_attempt (prev)\<close> is about to wait for the mutex \<open>prev\<close>;
  \<^item> \<open>Try_low prev i\<close>: in \<^verbatim>\<open>try_lock_range (0, prev)\<close> at \<open>i\<close>; \<open>Undo_low prev failed k\<close>: that failed at \<open>failed\<close>, \<^verbatim>\<open>unlock_locks\<close> is at \<open>k\<close>;
  \<^item> \<open>Try_high\<close>, \<open>Undo_high\<close>: the same in \<^verbatim>\<open>try_lock_range (prev + 1, n)\<close>;
  \<^item> \<open>Roll_back start failed k stop\<close>: the last \<^verbatim>\<open>unlock_locks (rollback_start, prev + 1)\<close> of \<^verbatim>\<open>lock_attempt\<close>;
  \<^item> \<open>Small\<close>, \<open>Small_try\<close>, \<open>Small_undo\<close>: \<^verbatim>\<open>lock_attempt_small\<close> for two mutexes, whose flag says whether the arguments are swapped;
  \<^item> \<open>Inside\<close>: all mutexes are locked; \<open>Unlocking k\<close>: in the destructor of \<^verbatim>\<open>scoped_lock\<close>; \<open>Outside\<close>: done.\<close>

datatype multi_pc =
    Block nat
  | Try_low nat nat
  | Undo_low nat nat nat
  | Try_high nat nat
  | Undo_high nat nat nat
  | Roll_back nat nat nat
  | Small bool
  | Small_try bool
  | Small_undo bool
  | Inside
  | Unlocking nat
  | Outside

type_synonym ('m, 't) owners = "'m \<Rightarrow> 't option"

text \<open>The first call of \<^verbatim>\<open>lock_impl\<close>: there are overloads for two mutexes and for more of them, and \<^verbatim>\<open>scoped_lock\<close> of one mutex
  calls \<^verbatim>\<open>lock\<close> directly.\<close>

fun lock_start :: "'m list \<Rightarrow> multi_pc" where
  "lock_start [] = Inside"
| "lock_start [m1, m2] = Small False"
| "lock_start ms = Block 0"

text \<open>One call of a mutex, or a return from one of the functions; \<open>None\<close> while the thread waits in \<^verbatim>\<open>lock\<close> or is done.\<close>

fun lock_step :: "'t \<Rightarrow> 'm list \<Rightarrow> ('m, 't) owners \<Rightarrow> multi_pc \<Rightarrow> (('m, 't) owners \<times> multi_pc) option" where
  "lock_step t ms own (Block prev) =
     (if own (ms ! prev) = None then Some (own(ms ! prev := Some t), Try_low prev 0) else None)"
| "lock_step t ms own (Try_low prev i) =
     (if i < prev then
        if own (ms ! i) = None then Some (own(ms ! i := Some t), Try_low prev (i + 1))
        else Some (own, Undo_low prev i 0)
      else Some (own, Try_high prev (prev + 1)))"
| "lock_step t ms own (Undo_low prev failed k) =
     (if k < failed then Some (own(ms ! k := None), Undo_low prev failed (k + 1))
      else Some (own(ms ! prev := None), Block failed))"
| "lock_step t ms own (Try_high prev i) =
     (if i < length ms then
        if own (ms ! i) = None then Some (own(ms ! i := Some t), Try_high prev (i + 1))
        else Some (own, Undo_high prev i (prev + 1))
      else Some (own, Inside))"
| "lock_step t ms own (Undo_high prev failed k) =
     (if k < failed then Some (own(ms ! k := None), Undo_high prev failed (k + 1))
      else Some (own, Roll_back prev failed 0))"
| "lock_step t ms own (Roll_back prev failed k) =
     (if k < prev + 1 then Some (own(ms ! k := None), Roll_back prev failed (k + 1))
      else Some (own, Block failed))"
| "lock_step t ms own (Small swapped) =
     (let m = ms ! (if swapped then 1 else 0)
      in if own m = None then Some (own(m := Some t), Small_try swapped) else None)"
| "lock_step t ms own (Small_try swapped) =
     (let m = ms ! (if swapped then 0 else 1)
      in if own m = None then Some (own(m := Some t), Inside) else Some (own, Small_undo swapped))"
| "lock_step t ms own (Small_undo swapped) = Some (own(ms ! (if swapped then 1 else 0) := None), Small (\<not> swapped))"
| "lock_step t ms own Inside = Some (own, Unlocking 0)"
| "lock_step t ms own (Unlocking k) =
     (if k < length ms then Some (own(ms ! k := None), Unlocking (k + 1)) else Some (own, Outside))"
| "lock_step t ms own Outside = None"

section \<open>Many threads\<close>

record ('m, 't) lock_system =
  owner :: "('m, 't) owners"
  pcs :: "'t \<Rightarrow> multi_pc"

definition system_start :: "('t \<Rightarrow> 'm list) \<Rightarrow> ('m, 't) lock_system" where
  "system_start args = \<lparr> owner = \<lambda>m. None, pcs = \<lambda>t. lock_start (args t) \<rparr>"

inductive system_step :: "('t \<Rightarrow> 'm list) \<Rightarrow> ('m, 't) lock_system \<Rightarrow> ('m, 't) lock_system \<Rightarrow> bool" for args where
  thread_step: "lock_step t (args t) (owner s) (pcs s t) = Some (own, pc) \<Longrightarrow>
     system_step args s \<lparr> owner = own, pcs = (pcs s)(t := pc) \<rparr>"

inductive system_reach :: "('t \<Rightarrow> 'm list) \<Rightarrow> ('m, 't) lock_system \<Rightarrow> bool" for args where
  reach_start: "system_reach args (system_start args)"
| reach_step: "system_reach args s \<Longrightarrow> system_step args s s' \<Longrightarrow> system_reach args s'"

inductive_cases system_stepE: "system_step args s s'"

section \<open>What a thread holds\<close>

fun holds_at :: "nat \<Rightarrow> multi_pc \<Rightarrow> nat set" where
  "holds_at n (Block prev) = {}"
| "holds_at n (Try_low prev i) = insert prev {0..<i}"
| "holds_at n (Undo_low prev failed k) = insert prev {k..<failed}"
| "holds_at n (Try_high prev i) = {0..<i}"
| "holds_at n (Undo_high prev failed k) = {0..prev} \<union> {k..<failed}"
| "holds_at n (Roll_back prev failed k) = {k..prev}"
| "holds_at n (Small swapped) = {}"
| "holds_at n (Small_try swapped) = {if swapped then 1 else 0}"
| "holds_at n (Small_undo swapped) = {if swapped then 1 else 0}"
| "holds_at n Inside = {0..<n}"
| "holds_at n (Unlocking k) = {k..<n}"
| "holds_at n Outside = {}"

fun pc_ok :: "nat \<Rightarrow> multi_pc \<Rightarrow> bool" where
  "pc_ok n (Block prev) \<longleftrightarrow> prev < n"
| "pc_ok n (Try_low prev i) \<longleftrightarrow> prev < n \<and> i \<le> prev"
| "pc_ok n (Undo_low prev failed k) \<longleftrightarrow> prev < n \<and> k \<le> failed \<and> failed < prev"
| "pc_ok n (Try_high prev i) \<longleftrightarrow> prev < i \<and> i \<le> n"
| "pc_ok n (Undo_high prev failed k) \<longleftrightarrow> prev < k \<and> k \<le> failed \<and> failed < n"
| "pc_ok n (Roll_back prev failed k) \<longleftrightarrow> prev < failed \<and> failed < n \<and> k \<le> prev + 1"
| "pc_ok n (Small swapped) \<longleftrightarrow> n = 2"
| "pc_ok n (Small_try swapped) \<longleftrightarrow> n = 2"
| "pc_ok n (Small_undo swapped) \<longleftrightarrow> n = 2"
| "pc_ok n Inside \<longleftrightarrow> True"
| "pc_ok n (Unlocking k) \<longleftrightarrow> k \<le> n"
| "pc_ok n Outside \<longleftrightarrow> True"

definition owned_by :: "('m, 't) owners \<Rightarrow> 't \<Rightarrow> 'm set" where
  "owned_by own t = {m. own m = Some t}"

lemma holds_bounds: "pc_ok n pc \<Longrightarrow> holds_at n pc \<subseteq> {0..<n}"
  by (cases pc) (auto split: if_splits)

text \<open>The two kinds of effects, on a set of indices.\<close>

definition holding :: "'t \<Rightarrow> 'm list \<Rightarrow> ('m, 't) owners \<Rightarrow> ('m, 't) owners \<Rightarrow> nat set \<Rightarrow> bool" where
  "holding t ms own own' S \<longleftrightarrow> owned_by own' t = (!) ms ` S \<and> (\<forall>t'. t' \<noteq> t \<longrightarrow> owned_by own' t' = owned_by own t')"

lemma holding_same: "owned_by own t = (!) ms ` S \<Longrightarrow> S' = S \<Longrightarrow> holding t ms own own S'"
  by (simp add: holding_def)

lemma holding_acquire:
  "owned_by own t = (!) ms ` S \<Longrightarrow> own (ms ! i) = None \<Longrightarrow> S' = insert i S \<Longrightarrow> holding t ms own (own(ms ! i := Some t)) S'"
  by (auto simp: holding_def owned_by_def)

lemma holding_release:
  assumes "distinct ms" "S \<subseteq> {0..<length ms}" "owned_by own t = (!) ms ` S" "i \<in> S" "S' = S - {i}"
  shows "holding t ms own (own(ms ! i := None)) S'"
proof -
  have "own (ms ! i) = Some t" using assms(3,4) by (auto simp: owned_by_def)
  then have "owned_by (own(ms ! i := None)) t' = owned_by own t'" if "t' \<noteq> t" for t' using that by (auto simp: owned_by_def)
  moreover have "owned_by (own(ms ! i := None)) t = (!) ms ` S - {ms ! i}" using assms(3) by (auto simp: owned_by_def)
  moreover have "(!) ms ` S - {ms ! i} = (!) ms ` S'"
    using assms(1,2,4,5) by (auto simp: nth_eq_iff_index_eq subset_iff)
  ultimately show ?thesis by (simp add: holding_def)
qed

text \<open>A step of a thread keeps the correspondence between its position and what it owns, and what other threads own.\<close>

lemma lock_step_holding:
  assumes d: "distinct ms" and ok: "pc_ok (length ms) pc" and own: "owned_by own t = (!) ms ` holds_at (length ms) pc"
    and step: "lock_step t ms own pc = Some r"
  shows "pc_ok (length ms) (snd r) \<and> holding t ms own (fst r) (holds_at (length ms) (snd r))"
proof -
  note release = holding_release [OF d holds_bounds [OF ok] own]
  note acquire = holding_acquire [OF own]
  note same = holding_same [OF own]
  show ?thesis
  proof (cases pc)
    case (Try_low prev i)
    then show ?thesis using ok step
      by (cases "i < prev") (auto split: if_splits intro!: acquire same)
  next
    case (Try_high prev i)
    then show ?thesis using ok step
      by (cases "i < length ms") (auto split: if_splits intro!: acquire same)
  qed (use ok step in \<open>auto simp: Let_def split: if_splits intro!: acquire same release\<close>)
qed

section \<open>All states of the system\<close>

definition system_ok :: "('t \<Rightarrow> 'm list) \<Rightarrow> ('m, 't) lock_system \<Rightarrow> bool" where
  "system_ok args s \<longleftrightarrow> (\<forall>t. pc_ok (length (args t)) (pcs s t) \<and>
     owned_by (owner s) t = (!) (args t) ` holds_at (length (args t)) (pcs s t))"

lemma lock_start_ok: "pc_ok (length ms) (lock_start ms)" "holds_at (length ms) (lock_start ms) = {}"
  by (cases ms rule: lock_start.cases; simp)+

lemma system_step_ok:
  assumes "\<And>t. distinct (args t)" "system_ok args s" "system_step args s s'"
  shows "system_ok args s'"
  using assms(3)
proof (cases rule: system_step.cases)
  case (thread_step t own pc)
  have "pc_ok (length (args t)) pc \<and> holding t (args t) (owner s) own (holds_at (length (args t)) pc)"
    using lock_step_holding [OF assms(1) _ _ thread_step(2)] assms(2) by (simp add: system_ok_def)
  then show ?thesis using assms(2) thread_step(1) by (auto simp: system_ok_def holding_def)
qed

lemma system_reach_ok:
  assumes "\<And>t. distinct (args t)" "system_reach args s"
  shows "system_ok args s"
  using assms(2)
proof induction
  case reach_start
  then show ?case by (simp add: system_ok_def system_start_def lock_start_ok owned_by_def)
next
  case (reach_step s s')
  then show ?case using system_step_ok assms(1) by blast
qed

fun waits :: "multi_pc \<Rightarrow> bool" where
  "waits (Block prev) \<longleftrightarrow> True"
| "waits (Small swapped) \<longleftrightarrow> True"
| "waits _ \<longleftrightarrow> False"

lemma waits_holds_nothing: "waits pc \<Longrightarrow> holds_at n pc = {}"
  by (cases pc) auto

lemma stuckD: "lock_step t ms own pc = None \<Longrightarrow> pc = Outside \<or> waits pc \<and> (\<exists>m u. own m = Some u)"
  by (cases pc) (auto simp: Let_def split: if_splits)

text \<open>C24: In every state of any number of threads that lock their mutexes with \<^verbatim>\<open>scoped_lock\<close>, a thread inside of its critical
  section owns all its mutexes, so that two threads with a common mutex are never inside at once; and a thread that waits
  for a mutex, or is done, owns none.\<close>

theorem multi_lock_exclusive:
  assumes "\<And>t. distinct (args t)" "system_reach args s"
  shows "(\<forall>t m. pcs s t = Inside \<and> m \<in> set (args t) \<longrightarrow> owner s m = Some t) \<and>
    (\<forall>t t'. pcs s t = Inside \<and> pcs s t' = Inside \<and> t \<noteq> t' \<longrightarrow> set (args t) \<inter> set (args t') = {}) \<and>
    (\<forall>t m. waits (pcs s t) \<or> pcs s t = Outside \<longrightarrow> owner s m \<noteq> Some t)"
proof -
  note ok = system_reach_ok [OF assms, unfolded system_ok_def, rule_format]
  have inside: "owner s m = Some t" if "pcs s t = Inside" "m \<in> set (args t)" for t m
    using ok [of t] that by (auto simp: owned_by_def in_set_conv_nth)
  moreover have "set (args t) \<inter> set (args t') = {}" if "pcs s t = Inside" "pcs s t' = Inside" "t \<noteq> t'" for t t'
    using inside that by (metis disjoint_iff option.inject)
  moreover have "owner s m \<noteq> Some t" if "waits (pcs s t) \<or> pcs s t = Outside" for t m
    using ok [of t] waits_holds_nothing [of "pcs s t"] that by (auto simp: owned_by_def)
  ultimately show ?thesis by blast
qed

text \<open>Two threads that name the same two mutexes in opposite order, each with its first one locked: the classical
  deadlock.\<close>

definition crossed :: "bool \<Rightarrow> nat list" where
  "crossed b = (if b then [0, 1] else [1, 0])"

definition crossed_state :: "(nat, bool) lock_system" where
  "crossed_state = \<lparr> owner = (\<lambda>m. None)(0 := Some True, 1 := Some False), pcs = (\<lambda>t. Small False)(True := Small_try False, False := Small_try False) \<rparr>"

lemma crossed_distinct: "distinct (crossed b)"
  by (simp add: crossed_def)

lemma crossed_reach: "system_reach crossed crossed_state"
proof -
  let ?s0 = "system_start crossed"
  let ?s1 = "\<lparr> owner = (owner ?s0)(0 := Some True), pcs = (pcs ?s0)(True := Small_try False) \<rparr>"
  have "system_step crossed ?s0 ?s1"
    by (rule thread_step) (simp add: system_start_def crossed_def)
  then have "system_reach crossed ?s1" by (rule reach_step [OF reach_start])
  moreover have "system_step crossed ?s1 \<lparr> owner = (owner ?s1)(1 := Some False), pcs = (pcs ?s1)(False := Small_try False) \<rparr>"
    by (rule thread_step) (simp add: system_start_def crossed_def)
  ultimately have "system_reach crossed \<lparr> owner = (owner ?s1)(1 := Some False), pcs = (pcs ?s1)(False := Small_try False) \<rparr>"
    by (rule reach_step)
  moreover have "pcs ?s0 = (\<lambda>t. Small False)" by (auto simp: system_start_def crossed_def)
  ultimately show ?thesis by (simp add: crossed_state_def system_start_def)
qed

text \<open>The same threads after one of them got both mutexes.\<close>

definition inside_state :: "(nat, bool) lock_system" where
  "inside_state = \<lparr> owner = (\<lambda>m. None)(0 := Some True, 1 := Some True), pcs = (\<lambda>t. Small False)(True := Inside) \<rparr>"

lemma inside_reach: "system_reach crossed inside_state"
proof -
  let ?s0 = "system_start crossed"
  let ?s1 = "\<lparr> owner = (owner ?s0)(0 := Some True), pcs = (pcs ?s0)(True := Small_try False) \<rparr>"
  have "system_step crossed ?s0 ?s1"
    by (rule thread_step) (simp add: system_start_def crossed_def)
  then have "system_reach crossed ?s1" by (rule reach_step [OF reach_start])
  moreover have "system_step crossed ?s1 \<lparr> owner = (owner ?s1)(1 := Some True), pcs = (pcs ?s1)(True := Inside) \<rparr>"
    by (rule thread_step) (simp add: system_start_def crossed_def)
  ultimately have "system_reach crossed \<lparr> owner = (owner ?s1)(1 := Some True), pcs = (pcs ?s1)(True := Inside) \<rparr>"
    by (rule reach_step)
  moreover have "pcs ?s0 = (\<lambda>t. Small False)" by (auto simp: system_start_def crossed_def)
  ultimately show ?thesis by (simp add: inside_state_def system_start_def)
qed

theorem multi_lock_exclusive_witness:
  "system_reach crossed inside_state \<and> pcs inside_state True = Inside \<and> owner inside_state 1 = Some True \<and>
   waits (pcs inside_state False) \<and> owner inside_state 1 \<noteq> Some False"
proof -
  note ex = multi_lock_exclusive [OF crossed_distinct inside_reach]
  have "pcs inside_state True = Inside" "1 \<in> set (crossed True)" "waits (pcs inside_state False)"
    by (simp_all add: inside_state_def crossed_def)
  then show ?thesis using ex inside_reach by blast
qed

text \<open>C23: Locking several mutexes does not deadlock: in every reachable state in which a thread is not done, some thread can take a
  step, whatever the mutexes and the order in which the threads name them.\<close>

theorem multi_lock_deadlock_free:
  assumes "\<And>t. distinct (args t)" "system_reach args s" "pcs s t \<noteq> Outside"
  shows "\<exists>s'. system_step args s s'"
proof -
  note ok = system_reach_ok [OF assms(1,2), unfolded system_ok_def, rule_format]
  have go: "\<exists>s'. system_step args s s'" if "lock_step u (args u) (owner s) (pcs s u) = Some r" for u r
    using system_step.thread_step [of u args s "fst r" "snd r"] that by auto
  show ?thesis
  proof (cases "lock_step t (args t) (owner s) (pcs s t)")
    case None
    then obtain m u where u: "owner s m = Some u" using stuckD [OF None] assms(3) by blast
    then have "holds_at (length (args u)) (pcs s u) \<noteq> {}" using ok [of u] by (auto simp: owned_by_def)
    then have "\<not> waits (pcs s u)" "pcs s u \<noteq> Outside" by (auto dest: waits_holds_nothing)
    then have "lock_step u (args u) (owner s) (pcs s u) \<noteq> None"
      using stuckD [of u "args u" "owner s" "pcs s u"] by blast
    then show ?thesis using go by auto
  qed (use go in auto)
qed

theorem multi_lock_deadlock_free_witness:
  "system_reach crossed crossed_state \<and> owner crossed_state 0 = Some True \<and> owner crossed_state 1 = Some False \<and>
   (\<exists>s'. system_step crossed crossed_state s')"
  using multi_lock_deadlock_free [OF crossed_distinct crossed_reach, of True] crossed_reach by (simp add: crossed_state_def)

section \<open>Without contention\<close>

fun lock_run :: "nat \<Rightarrow> 't \<Rightarrow> 'm list \<Rightarrow> ('m, 't) owners \<times> multi_pc \<Rightarrow> (('m, 't) owners \<times> multi_pc) option" where
  "lock_run 0 t ms s = Some s"
| "lock_run (Suc n) t ms s = Option.bind (lock_step t ms (fst s) (snd s)) (lock_run n t ms)"

lemma try_high_alone:
  assumes "distinct ms" "\<And>j. i \<le> j \<Longrightarrow> j < length ms \<Longrightarrow> own (ms ! j) = None" "i \<le> length ms"
  shows "\<exists>own'. lock_run (Suc (length ms - i)) t ms (own, Try_high prev i) = Some (own', Inside)"
  using assms(2,3)
proof (induction "length ms - i" arbitrary: i own)
  case (Suc k)
  have "\<exists>own'. lock_run (Suc (length ms - Suc i)) t ms (own(ms ! i := Some t), Try_high prev (Suc i)) = Some (own', Inside)"
    by (rule Suc.hyps(1)) (use Suc.hyps(2) Suc.prems assms(1) in \<open>auto simp: nth_eq_iff_index_eq\<close>)
  moreover have "length ms - i = Suc (length ms - Suc i)" using Suc.hyps(2) by simp
  ultimately show ?case using Suc.hyps(2) Suc.prems by simp
qed auto

text \<open>Without contention a thread gets all its mutexes, after at most as many steps as there are mutexes and two more.\<close>

theorem multi_lock_uncontended:
  assumes "distinct ms" "\<And>m. m \<in> set ms \<Longrightarrow> own m = None"
  shows "\<exists>n own'. n \<le> length ms + 2 \<and> lock_run n t ms (own, lock_start ms) = Some (own', Inside)"
proof -
  have start: "lock_start ms = Block 0" if "ms \<noteq> []" "length ms \<noteq> 2"
    using that by (cases ms rule: lock_start.cases) auto
  consider "ms = []" | "length ms = 2" | "ms \<noteq> []" "length ms \<noteq> 2" by blast
  then show ?thesis
  proof cases
    case 1
    then show ?thesis by (intro exI [of _ 0]) simp
  next
    case 2
    then obtain m1 m2 where "ms = [m1, m2]" by (auto simp: numeral_2_eq_2 length_Suc_conv)
    then show ?thesis using assms by (intro exI [of _ 2]) (simp add: numeral_2_eq_2)
  next
    case 3
    have "\<exists>own'. lock_run (Suc (length ms - 1)) t ms (own(ms ! 0 := Some t), Try_high 0 1) = Some (own', Inside)"
      by (rule try_high_alone) (use assms 3 in \<open>auto simp: nth_eq_iff_index_eq Suc_le_eq\<close>)
    then show ?thesis
      using assms(2) 3 by (intro exI [of _ "Suc (Suc (Suc (length ms - 1)))"]) (auto simp: start)
  qed
qed

end
