(* ===== verification/Lock_Guard.thy ===== *)
theory Lock_Guard
  imports Owner_Ptr_Spec
begin

text \<open>
  \<^verbatim>\<open>unique_lock\<close> and \<^verbatim>\<open>shared_lock\<close> (\<^verbatim>\<open>include/mutex.hpp\<close>), as programs of one thread over numbered guards. The two classes differ only in
  the member functions of the mutex they call (\<^verbatim>\<open>lock\<close> or \<^verbatim>\<open>lock_shared\<close>), so that one model serves both. The mutex is a parameter of
  the code; the model records the calls it gets. Calls through a null pointer, and unlocking or locking a mutex in the wrong
  state of the guard (an error of the client that the guards do not check), are undefined: \<open>None\<close>.
\<close>

section \<open>Guards\<close>

record 'm guard =
  g_mtx :: "'m option"
  g_owned :: bool

record 'm g_world =
  acquired :: "'m list"
  unlocked :: "'m list"
  handed_out :: "'m list"

definition guard_default :: "'m guard" where
  "guard_default = \<lparr> g_mtx = None, g_owned = False \<rparr>"

definition guard_base_lock :: "'m guard \<Rightarrow> 'm g_world \<Rightarrow> ('m guard \<times> 'm g_world) option" where
  "guard_base_lock g w =
     (case g_mtx g of None \<Rightarrow> None
      | Some m \<Rightarrow> if g_owned g then None else Some (g\<lparr> g_owned := True \<rparr>, w\<lparr> acquired := m # acquired w \<rparr>))"

definition guard_base_unlock :: "'m guard \<Rightarrow> 'm g_world \<Rightarrow> ('m guard \<times> 'm g_world) option" where
  "guard_base_unlock g w =
     (case g_mtx g of None \<Rightarrow> None
      | Some m \<Rightarrow> if g_owned g then Some (g\<lparr> g_owned := False \<rparr>, w\<lparr> unlocked := m # unlocked w \<rparr>) else None)"

definition guard_construct :: "'m \<Rightarrow> 'm g_world \<Rightarrow> ('m guard \<times> 'm g_world) option" where
  "guard_construct m w = guard_base_lock \<lparr> g_mtx = Some m, g_owned = False \<rparr> w"

text \<open>\<^verbatim>\<open>adopt_lock_tag\<close>: the thread has locked the mutex before.\<close>

definition guard_adopt :: "'m \<Rightarrow> 'm g_world \<Rightarrow> 'm guard \<times> 'm g_world" where
  "guard_adopt m w = (\<lparr> g_mtx = Some m, g_owned = True \<rparr>, w\<lparr> acquired := m # acquired w \<rparr>)"

definition guard_defer :: "'m \<Rightarrow> 'm guard" where
  "guard_defer m = \<lparr> g_mtx = Some m, g_owned = False \<rparr>"

text \<open>\<open>move_construct_from\<close>: the new guard and the emptied one.\<close>

definition guard_move :: "'m guard \<Rightarrow> 'm guard \<times> 'm guard" where
  "guard_move other = (other, guard_default)"

definition guard_reset_if_needed :: "'m guard \<Rightarrow> 'm g_world \<Rightarrow> ('m guard \<times> 'm g_world) option" where
  "guard_reset_if_needed g w = (if g_owned g then guard_base_unlock g w else Some (g, w))"

definition guard_move_assign :: "'m guard \<Rightarrow> 'm guard \<Rightarrow> 'm g_world \<Rightarrow> ('m guard \<times> 'm guard \<times> 'm g_world) option" where
  "guard_move_assign this other w =
     Option.bind (guard_reset_if_needed this w) (\<lambda>(_, w). let (this, other) = guard_move other in Some (this, other, w))"

definition guard_destroy :: "'m guard \<Rightarrow> 'm g_world \<Rightarrow> 'm g_world option" where
  "guard_destroy g w = map_option snd (guard_reset_if_needed g w)"

definition guard_release :: "'m guard \<Rightarrow> 'm g_world \<Rightarrow> 'm option \<times> 'm guard \<times> 'm g_world" where
  "guard_release g w =
     (g_mtx g, guard_default,
      case g_mtx g of Some m \<Rightarrow> if g_owned g then w\<lparr> handed_out := m # handed_out w \<rparr> else w | None \<Rightarrow> w)"

section \<open>Programs\<close>

datatype 'm g_op =
    G_lock 'm
  | G_adopt 'm
  | G_defer 'm
  | G_move nat
  | G_assign nat nat
  | G_relock nat
  | G_unlock nat
  | G_release nat
  | G_destroy nat

type_synonym 'm g_state = "'m guard option list \<times> 'm g_world"

definition on_guard :: "'m guard option list \<Rightarrow> nat \<Rightarrow> ('m guard \<Rightarrow> 'a option) \<Rightarrow> 'a option" where
  "on_guard vs i f = (case rd vs i of Some (Some g) \<Rightarrow> f g | _ \<Rightarrow> None)"

fun g_exec :: "'m g_op \<Rightarrow> 'm g_state \<Rightarrow> 'm g_state option" where
  "g_exec (G_lock m) (vs, w) = map_option (\<lambda>(g, w). (vs @ [Some g], w)) (guard_construct m w)"
| "g_exec (G_adopt m) (vs, w) = (let (g, w) = guard_adopt m w in Some (vs @ [Some g], w))"
| "g_exec (G_defer m) (vs, w) = Some (vs @ [Some (guard_defer m)], w)"
| "g_exec (G_move i) (vs, w) = on_guard vs i (\<lambda>g. let (new, old) = guard_move g in Some (vs[i := Some old] @ [Some new], w))"
| "g_exec (G_assign i j) (vs, w) =
     on_guard vs i (\<lambda>p. on_guard vs j (\<lambda>q.
       if i = j then map_option (\<lambda>(g, w). (vs[i := Some g], w)) (guard_reset_if_needed p w)
       else map_option (\<lambda>(p, q, w). (vs[i := Some p, j := Some q], w)) (guard_move_assign p q w)))"
| "g_exec (G_relock i) (vs, w) = on_guard vs i (\<lambda>g. map_option (\<lambda>(g, w). (vs[i := Some g], w)) (guard_base_lock g w))"
| "g_exec (G_unlock i) (vs, w) = on_guard vs i (\<lambda>g. map_option (\<lambda>(g, w). (vs[i := Some g], w)) (guard_base_unlock g w))"
| "g_exec (G_release i) (vs, w) = on_guard vs i (\<lambda>g. let (m, g, w) = guard_release g w in Some (vs[i := Some g], w))"
| "g_exec (G_destroy i) (vs, w) = on_guard vs i (\<lambda>g. map_option (\<lambda>w. (vs[i := None], w)) (guard_destroy g w))"

section \<open>Every lock is released once\<close>

definition g_holds :: "'m guard \<Rightarrow> 'm multiset" where
  "g_holds g = (case g_mtx g of Some m \<Rightarrow> if g_owned g then {#m#} else {#} | None \<Rightarrow> {#})"

definition g_held :: "'m g_state \<Rightarrow> 'm multiset" where
  "g_held s = total g_holds (fst s)"

definition g_inflow :: "'m g_state \<Rightarrow> 'm multiset" where
  "g_inflow s = mset (acquired (snd s))"

definition g_outflow :: "'m g_state \<Rightarrow> 'm multiset" where
  "g_outflow s = mset (unlocked (snd s)) + mset (handed_out (snd s))"

lemmas g_flows = g_held_def g_inflow_def g_outflow_def

lemma on_guard_Some: "on_guard vs i f = Some r \<Longrightarrow> \<exists>g. i < length vs \<and> vs ! i = Some g \<and> f g = Some r"
  by (auto simp: on_guard_def mem_simps split: option.splits)

text \<open>What the operations on one guard do to the balance of its mutex.\<close>

lemma reset_balance:
  "guard_reset_if_needed g w = Some (g', w') \<Longrightarrow>
     g_holds g' = {#} \<and> mset (unlocked w') = g_holds g + mset (unlocked w) \<and> acquired w' = acquired w \<and> handed_out w' = handed_out w"
  by (auto simp: guard_reset_if_needed_def guard_base_unlock_def g_holds_def split: option.splits if_splits)

lemma unlock_balance:
  "guard_base_unlock g w = Some (g', w') \<Longrightarrow>
     g_holds g' = {#} \<and> mset (unlocked w') = g_holds g + mset (unlocked w) \<and> acquired w' = acquired w \<and> handed_out w' = handed_out w"
  by (auto simp: guard_base_unlock_def g_holds_def split: option.splits if_splits)

lemma lock_balance:
  "guard_base_lock g w = Some (g', w') \<Longrightarrow>
     g_holds g = {#} \<and> mset (acquired w') = g_holds g' + mset (acquired w) \<and> unlocked w' = unlocked w \<and> handed_out w' = handed_out w"
  by (auto simp: guard_base_lock_def g_holds_def split: option.splits if_splits)

lemma release_balance:
  "guard_release g w = (m, g', w') \<Longrightarrow>
     g_holds g' = {#} \<and> mset (handed_out w') = g_holds g + mset (handed_out w) \<and> acquired w' = acquired w \<and> unlocked w' = unlocked w"
  by (auto simp: guard_release_def g_holds_def guard_default_def split: option.splits if_splits)

lemma default_holds [simp]: "g_holds guard_default = {#}"
  by (simp add: g_holds_def guard_default_def)

lemma g_exec_conserves:
  assumes "g_exec op s = Some s'" "g_inflow s = g_held s + g_outflow s"
  shows "g_inflow s' = g_held s' + g_outflow s'"
proof -
  obtain vs w where s: "s = (vs, w)" by (cases s)
  note inv = assms(2) [unfolded s g_flows fst_conv snd_conv]
  note step = assms(1) [unfolded s]
  show ?thesis
  proof (cases op)
    case (G_lock m)
    then show ?thesis
      using step inv by (auto simp: g_flows guard_construct_def add_ac dest!: lock_balance)
  next
    case (G_adopt m)
    then show ?thesis using step inv by (auto simp: g_flows guard_adopt_def g_holds_def)
  next
    case (G_defer m)
    then show ?thesis using step inv by (auto simp: g_flows guard_defer_def g_holds_def)
  next
    case (G_move i)
    then obtain g where g: "i < length vs" "vs ! i = Some g" "s' = (vs[i := Some guard_default] @ [Some g], w)"
      using step by (auto simp: guard_move_def dest!: on_guard_Some)
    then show ?thesis using inv total_update [OF g(1,2), of g_holds "Some guard_default"] by (simp add: g_flows)
  next
    case (G_assign i j)
    then obtain p q where pq: "i < length vs" "vs ! i = Some p" "j < length vs" "vs ! j = Some q"
      "(if i = j then map_option (\<lambda>(g, w). (vs[i := Some g], w)) (guard_reset_if_needed p w)
        else map_option (\<lambda>(p, q, w). (vs[i := Some p, j := Some q], w)) (guard_move_assign p q w)) = Some s'"
      using step by (auto dest!: on_guard_Some)
    show ?thesis
    proof (cases "i = j")
      case True
      then obtain g' w' where r: "guard_reset_if_needed p w = Some (g', w')" "s' = (vs[i := Some g'], w')" using pq(5) by auto
      show ?thesis using inv reset_balance [OF r(1)] total_update [OF pq(1,2), of g_holds "Some g'"] by (simp add: r(2) g_flows add_ac)
    next
      case False
      then obtain g' w' where r: "guard_reset_if_needed p w = Some (g', w')" "s' = (vs[i := Some q, j := Some guard_default], w')"
        using pq(5) by (auto simp: guard_move_assign_def guard_move_def bind_eq_Some_conv)
      have "total g_holds (vs[i := Some q, j := Some guard_default]) + g_holds p = total g_holds vs"
        using total_update2 [OF pq(1-4) False, of g_holds q guard_default] by simp
      then show ?thesis using inv reset_balance [OF r(1)] by (simp add: r(2) g_flows add_ac)
    qed
  next
    case (G_relock i)
    then obtain g g' w' where g: "i < length vs" "vs ! i = Some g" "guard_base_lock g w = Some (g', w')" "s' = (vs[i := Some g'], w')"
      using step by (auto dest!: on_guard_Some)
    then show ?thesis using inv lock_balance [OF g(3)] total_update [OF g(1,2), of g_holds "Some g'"] by (simp add: g_flows add_ac)
  next
    case (G_unlock i)
    then obtain g g' w' where g: "i < length vs" "vs ! i = Some g" "guard_base_unlock g w = Some (g', w')" "s' = (vs[i := Some g'], w')"
      using step by (auto dest!: on_guard_Some)
    then show ?thesis using inv unlock_balance [OF g(3)] total_update [OF g(1,2), of g_holds "Some g'"] by (simp add: g_flows add_ac)
  next
    case (G_release i)
    then obtain g m g' w' where g: "i < length vs" "vs ! i = Some g" "guard_release g w = (m, g', w')" "s' = (vs[i := Some g'], w')"
      using step by (auto split: prod.splits dest!: on_guard_Some)
    then show ?thesis using inv release_balance [OF g(3)] total_update [OF g(1,2), of g_holds "Some g'"] by (simp add: g_flows add_ac)
  next
    case (G_destroy i)
    then obtain g g' w' where g: "i < length vs" "vs ! i = Some g" "guard_reset_if_needed g w = Some (g', w')" "s' = (vs[i := None], w')"
      using step by (auto simp: guard_destroy_def dest!: on_guard_Some)
    then show ?thesis using inv reset_balance [OF g(3)] total_update [OF g(1,2), of g_holds None] by (simp add: g_flows add_ac)
  qed
qed

interpretation lock_guards: conserving g_exec g_held g_inflow g_outflow
  by unfold_locales (rule g_exec_conserves)

definition g_init :: "'m g_state" where
  "g_init = ([], \<lparr> acquired = [], unlocked = [], handed_out = [] \<rparr>)"

text \<open>In every program over guards, each mutex was locked (or adopted) exactly as often as it is owned by a guard, was
  unlocked by one, and was handed out by \<^verbatim>\<open>release\<close>. In particular every lock of a guard that was not released is undone once.\<close>

theorem lock_guards_conserve:
  assumes "run_ops g_exec ops g_init = Some s"
  shows "mset (acquired (snd s)) = g_held s + mset (unlocked (snd s)) + mset (handed_out (snd s))"
  using lock_guards.run_conserves [OF assms] by (simp add: g_flows g_init_def add.assoc)

theorem lock_guards_conserve_witness:
  "\<exists>s. run_ops g_exec [G_lock (7::nat), G_lock 8, G_assign 0 1, G_destroy 0] g_init = Some s \<and>
     mset (acquired (snd s)) = g_held s + mset (unlocked (snd s)) + mset (handed_out (snd s))"
proof -
  have "run_ops g_exec [G_lock (7::nat), G_lock 8, G_assign 0 1, G_destroy 0] g_init =
      Some ([None, Some guard_default], \<lparr> acquired = [8, 7], unlocked = [8, 7], handed_out = [] \<rparr>)"
    by code_simp
  from lock_guards_conserve [OF this] this show ?thesis by blast
qed

end
