(* ===== verification/Tagged_Ptr.thy ===== *)
theory Tagged_Ptr
  imports Ktl_Prelude
begin

text \<open>
  Pointers with a tag (\<^verbatim>\<open>modules/lockfree/tagged_pointer.hpp\<close>): the lower 48 bits of an address of the kernel and a
  counter of 16 bits in one number of 64 bits, which the queue and its allocator exchange atomically. Pointers of the
  interface are numbers of 64 bits here. The shift in \<^verbatim>\<open>to_number\<close> is one of 64 bits, the declared type of the bit field.
\<close>

unbundle bit_operations_syntax

section \<open>The class\<close>

record tagged_pointer =
  address :: "48 word"
  tag :: "16 word"

definition KERNEL_MODE_ADDRESS_MASK :: "64 word" where
  "KERNEL_MODE_ADDRESS_MASK = 0xFFFF000000000000"

definition pack_ptr :: "64 word \<Rightarrow> 16 word \<Rightarrow> tagged_pointer" where
  "pack_ptr addr t = \<lparr> address = ucast addr, tag = t \<rparr>"

definition from_number :: "64 word \<Rightarrow> tagged_pointer" where
  "from_number number = \<lparr> address = ucast (number AND (push_bit 48 1 - 1)), tag = ucast (drop_bit 48 number) \<rparr>"

definition to_number :: "tagged_pointer \<Rightarrow> 64 word" where
  "to_number p = (ucast (address p) OR push_bit 48 (ucast (tag p)))"

definition get_pointer :: "tagged_pointer \<Rightarrow> 64 word" where
  "get_pointer p = (ucast (address p) OR KERNEL_MODE_ADDRESS_MASK)"

definition get_next_tag :: "tagged_pointer \<Rightarrow> 16 word" where
  "get_next_tag p = ucast (ucast (tag p) + (1 :: 64 word))"

definition set_pointer :: "64 word \<Rightarrow> tagged_pointer \<Rightarrow> tagged_pointer" where
  "set_pointer ptr p = pack_ptr ptr (tag p)"

text \<open>\<^verbatim>\<open>explicit operator bool\<close> and the comparison, which does not look at the tags.\<close>

definition not_null :: "tagged_pointer \<Rightarrow> bool" where
  "not_null p \<longleftrightarrow> address p \<noteq> 0"

definition same_pointer :: "tagged_pointer \<Rightarrow> tagged_pointer \<Rightarrow> bool" where
  "same_pointer p q \<longleftrightarrow> get_pointer p = get_pointer q"

section \<open>Round trips\<close>

lemma pointer_mask: "push_bit 48 1 - 1 = (mask 48 :: 64 word)"
  by (simp add: mask_eq_exp_minus_1)

lemma kernel_mask: "KERNEL_MODE_ADDRESS_MASK = NOT (mask 48)"
  by (simp add: KERNEL_MODE_ADDRESS_MASK_def mask_eq_exp_minus_1)

lemma get_next_tag_Suc [simp]: "get_next_tag p = tag p + 1"
proof -
  have "ucast (ucast t + (1 :: 64 word)) = t + 1" for t :: "16 word"
    by transfer (simp add: take_bit_eq_mod mod_simps mod_mod_cancel)
  then show ?thesis by (simp add: get_next_tag_def)
qed

lemma number_of_pointer: "from_number (to_number p) = p"
proof -
  have "ucast (to_number p AND mask 48) = address p"
    unfolding to_number_def by (rule bit_word_eqI) (auto simp: bit_simps)
  moreover have "ucast (drop_bit 48 (to_number p)) = tag p"
    unfolding to_number_def by (rule bit_word_eqI) (auto simp: bit_simps dest: bit_imp_le_length)
  ultimately show ?thesis by (simp add: from_number_def pointer_mask del: push_bit_of_1)
qed

lemma pointer_of_number: "to_number (from_number n) = n"
  unfolding to_number_def from_number_def pointer_mask
  by (rule bit_word_eqI) (auto simp: bit_simps)

lemma bit_get_pointer: "bit (get_pointer p) n \<longleftrightarrow> n < 64 \<and> (n < 48 \<longrightarrow> bit (address p) n)"
  unfolding get_pointer_def kernel_mask by (auto simp: bit_simps dest: bit_imp_le_length)

lemma same_pointer_iff [simp]: "same_pointer p q \<longleftrightarrow> address p = address q"
proof
  assume eq: "same_pointer p q"
  show "address p = address q"
  proof (rule bit_word_eqI)
    fix n assume "n < LENGTH(48)"
    moreover have "bit (get_pointer p) n = bit (get_pointer q) n" using eq by (simp add: same_pointer_def)
    ultimately show "bit (address p) n = bit (address q) n" by (simp add: bit_get_pointer)
  qed
qed (simp add: same_pointer_def get_pointer_def)

text \<open>An address of the kernel, all of whose upper 16 bits are set.\<close>

definition kernel_address :: "64 word \<Rightarrow> bool" where
  "kernel_address a \<longleftrightarrow> a AND KERNEL_MODE_ADDRESS_MASK = KERNEL_MODE_ADDRESS_MASK"

lemma bit_kernel_address:
  assumes "kernel_address a" "48 \<le> n" "n < 64"
  shows "bit a n"
proof -
  have "bit (a AND KERNEL_MODE_ADDRESS_MASK) n = bit KERNEL_MODE_ADDRESS_MASK n"
    using assms(1) by (simp add: kernel_address_def)
  then show ?thesis using assms(2,3) by (simp add: kernel_mask bit_simps)
qed

lemma get_pointer_pack:
  assumes "kernel_address a"
  shows "get_pointer (pack_ptr a t) = a"
  by (rule bit_word_eqI) (auto simp: bit_get_pointer pack_ptr_def bit_simps intro: bit_kernel_address [OF assms])

text \<open>A kernel address and a tag survive the trip through the 64-bit number that the atomics hold; exactly the addresses
  with the upper 16 bits set do; two numbers are the same when pointer and tag are; and the tag comes back to its value
  after exactly \<open>2 ^ 16\<close> increments.\<close>

theorem tagged_pointer_roundtrip:
  "(kernel_address a \<longleftrightarrow> get_pointer (from_number (to_number (pack_ptr a t))) = a) \<and>
   tag (from_number (to_number (pack_ptr a t))) = t \<and>
   from_number (to_number p) = p \<and> to_number (from_number n) = n \<and>
   (((\<lambda>p. p\<lparr> tag := get_next_tag p \<rparr>) ^^ k) p = p \<longleftrightarrow> 2 ^ 16 dvd k)"
proof -
  have "kernel_address a" if "get_pointer (pack_ptr a t) = a"
    unfolding kernel_address_def
    by (rule bit_word_eqI) (use bit_get_pointer [of "pack_ptr a t"] that in \<open>auto simp: kernel_mask bit_simps\<close>)
  moreover have "((\<lambda>p. p\<lparr> tag := get_next_tag p \<rparr>) ^^ k) p = p\<lparr> tag := tag p + of_nat k \<rparr>" for k
    by (induction k) (simp_all add: add.assoc add.commute [of 1])
  moreover have "p\<lparr> tag := tag p + of_nat k \<rparr> = p \<longleftrightarrow> of_nat k = (0 :: 16 word)"
    by (cases p) simp
  moreover have "of_nat k = (0 :: 16 word) \<longleftrightarrow> 2 ^ 16 dvd k"
    by (simp add: word_of_nat_eq_0_iff)
  ultimately show ?thesis
    using get_pointer_pack [of a t] by (simp add: number_of_pointer pointer_of_number pack_ptr_def) blast
qed

end
