(* ===== verification/Node_Allocator.thy ===== *)
theory Node_Allocator
  imports Tagged_Ptr
begin

text \<open>
  The allocator of the nodes of the lock-free queue (\<^verbatim>\<open>modules/lockfree/node_allocator.hpp\<close>): a stack of free blocks whose top is
  a tagged pointer, changed by compare-and-exchange. A state has the top, the \<^verbatim>\<open>next\<close> field of every block, the blocks obtained from
  the allocator below, the blocks that callers hold, and the position of each thread in \<^verbatim>\<open>allocate\<close> or
  \<^verbatim>\<open>deallocate\<close>; a step is one atomic access. A caller may write anything into a block it holds, and a thread that is
  late may still read it: blocks are not returned before the destructor. \<^verbatim>\<open>compare_exchange_weak\<close> is the strong one in this
  library, so that it fails only on a different value.

  An execution is the list of its events, the latest first; \<open>timely\<close> says that a thread never takes a block when others have taken
  \<open>2 ^ 16\<close> blocks since it loaded the top, the range of the tag.
\<close>

section \<open>States and steps\<close>

type_synonym addr48 = "48 word"

text \<open>Positions: before the first load, at the test of the loaded top, at the exchange with the successor that was read; in \<^verbatim>\<open>deallocate\<close> of
  a block before the first load, before the store of the loaded top into the block, and at the exchange.\<close>

datatype fl_pc =
    Fl_idle
  | Alloc_load
  | Alloc_test tagged_pointer
  | Alloc_cas tagged_pointer addr48
  | Free_load addr48
  | Free_store addr48 tagged_pointer
  | Free_cas addr48 tagged_pointer

record 't free_list =
  fl_head :: tagged_pointer
  link :: "addr48 \<Rightarrow> tagged_pointer"
  blocks :: "addr48 set"
  held :: "addr48 set"
  fl_pcs :: "'t \<Rightarrow> fl_pc"

datatype 't fl_event = Silent | Loaded 't | Popped 't addr48 | Created 't addr48

text \<open>The accesses of a thread to the shared state: the new top and links, the next position, and what happened.\<close>

fun allocate_step :: "'t \<Rightarrow> tagged_pointer \<Rightarrow> (addr48 \<Rightarrow> tagged_pointer) \<Rightarrow> fl_pc \<Rightarrow> (tagged_pointer \<times> fl_pc \<times> 't fl_event) option" where
  "allocate_step t h lk Alloc_load = Some (h, Alloc_test h, Loaded t)"
| "allocate_step t h lk (Alloc_test old_top) =
     (if not_null old_top then Some (h, Alloc_cas old_top (address (lk (address old_top))), Silent) else None)"
| "allocate_step t h lk (Alloc_cas old_top new_top_ptr) =
     (if h = old_top then Some (\<lparr> address = new_top_ptr, tag = get_next_tag old_top \<rparr>, Fl_idle, Popped t (address old_top))
      else Some (h, Alloc_test h, Loaded t))"
| "allocate_step t h lk _ = None"

fun deallocate_step :: "tagged_pointer \<Rightarrow> (addr48 \<Rightarrow> tagged_pointer) \<Rightarrow> fl_pc \<Rightarrow> (tagged_pointer \<times> (addr48 \<Rightarrow> tagged_pointer) \<times> fl_pc) option" where
  "deallocate_step h lk (Free_load ptr) = Some (h, lk, Free_store ptr h)"
| "deallocate_step h lk (Free_store ptr old_top) = Some (h, lk(ptr := old_top), Free_cas ptr old_top)"
| "deallocate_step h lk (Free_cas ptr old_top) =
     (if h = old_top then Some (\<lparr> address = ptr, tag = tag old_top \<rparr>, lk, Fl_idle) else Some (h, lk, Free_store ptr h))"
| "deallocate_step h lk _ = None"

fun taken :: "'t fl_event \<Rightarrow> addr48 set" where
  "taken (Popped t a) = {a}"
| "taken (Created t a) = {a}"
| "taken _ = {}"

inductive fl_step :: "'t free_list \<Rightarrow> 't fl_event \<Rightarrow> 't free_list \<Rightarrow> bool" where
  call_allocate: "fl_pcs s t = Fl_idle \<Longrightarrow> fl_step s Silent (s\<lparr> fl_pcs := (fl_pcs s)(t := Alloc_load) \<rparr>)"
| in_allocate: "allocate_step t (fl_head s) (link s) (fl_pcs s t) = Some (h, pc, e) \<Longrightarrow>
    fl_step s e (s\<lparr> fl_head := h, held := held s \<union> taken e, fl_pcs := (fl_pcs s)(t := pc) \<rparr>)"
| create_memory_block: "fl_pcs s t = Alloc_test old_top \<Longrightarrow> \<not> not_null old_top \<Longrightarrow> a \<notin> blocks s \<Longrightarrow> a \<noteq> 0 \<Longrightarrow>
    fl_step s (Created t a) (s\<lparr> blocks := insert a (blocks s), held := insert a (held s), fl_pcs := (fl_pcs s)(t := Fl_idle) \<rparr>)"
| out_of_memory: "fl_pcs s t = Alloc_test old_top \<Longrightarrow> \<not> not_null old_top \<Longrightarrow>
    fl_step s Silent (s\<lparr> fl_pcs := (fl_pcs s)(t := Fl_idle) \<rparr>)"
| call_deallocate: "fl_pcs s t = Fl_idle \<Longrightarrow> a \<in> held s \<Longrightarrow>
    fl_step s Silent (s\<lparr> held := held s - {a}, fl_pcs := (fl_pcs s)(t := Free_load a) \<rparr>)"
| in_deallocate: "deallocate_step (fl_head s) (link s) (fl_pcs s t) = Some (h, lk, pc) \<Longrightarrow>
    fl_step s Silent (s\<lparr> fl_head := h, link := lk, fl_pcs := (fl_pcs s)(t := pc) \<rparr>)"
| caller_writes: "a \<in> held s \<Longrightarrow> fl_step s Silent (s\<lparr> link := (link s)(a := x) \<rparr>)"

definition fl_start :: "(addr48 \<Rightarrow> tagged_pointer) \<Rightarrow> 't free_list" where
  "fl_start lk = \<lparr> fl_head = \<lparr> address = 0, tag = 0 \<rparr>, link = lk, blocks = {}, held = {}, fl_pcs = \<lambda>t. Fl_idle \<rparr>"

inductive fl_reach :: "'t fl_event list \<Rightarrow> 't free_list \<Rightarrow> bool" where
  fl_reach_start: "fl_reach [] (fl_start lk)"
| fl_reach_step: "fl_reach es s \<Longrightarrow> fl_step s e s' \<Longrightarrow> fl_reach (e # es) s'"

text \<open>How many blocks were taken since \<open>t\<close> loaded the top.\<close>

fun is_pop :: "'t fl_event \<Rightarrow> bool" where
  "is_pop (Popped t a) = True"
| "is_pop _ = False"

definition since :: "'t \<Rightarrow> 't fl_event list \<Rightarrow> nat" where
  "since t es = length (filter is_pop (takeWhile (\<lambda>e. e \<noteq> Loaded t) es))"

fun timely :: "'t fl_event list \<Rightarrow> bool" where
  "timely [] = True"
| "timely (e # es) = (timely es \<and> (case e of Popped t a \<Rightarrow> since t es < 2 ^ 16 | _ \<Rightarrow> True))"

section \<open>The invariant\<close>

fun free_chain :: "(addr48 \<Rightarrow> tagged_pointer) \<Rightarrow> addr48 \<Rightarrow> addr48 list \<Rightarrow> bool" where
  "free_chain lk a [] = (a = 0)"
| "free_chain lk a (x # xs) = (a = x \<and> a \<noteq> 0 \<and> free_chain lk (address (lk a)) xs)"

fun freeing :: "fl_pc \<Rightarrow> addr48 option" where
  "freeing (Free_load a) = Some a"
| "freeing (Free_store a v) = Some a"
| "freeing (Free_cas a v) = Some a"
| "freeing _ = None"

definition in_flight :: "'t free_list \<Rightarrow> addr48 set" where
  "in_flight s = {a. \<exists>t. freeing (fl_pcs s t) = Some a}"

definition stale :: "tagged_pointer \<Rightarrow> tagged_pointer \<Rightarrow> nat \<Rightarrow> bool" where
  "stale h v n \<longleftrightarrow> tag h = tag v + of_nat n"

fun fl_pc_ok :: "tagged_pointer \<Rightarrow> (addr48 \<Rightarrow> tagged_pointer) \<Rightarrow> addr48 set \<Rightarrow> nat \<Rightarrow> fl_pc \<Rightarrow> bool" where
  "fl_pc_ok h lk xs n (Alloc_test v) = (stale h v n \<and> (n = 0 \<longrightarrow> not_null v \<longrightarrow> address v \<in> xs))"
| "fl_pc_ok h lk xs n (Alloc_cas v a) = (stale h v n \<and> not_null v \<and> (n = 0 \<longrightarrow> address v \<in> xs \<and> address (lk (address v)) = a))"
| "fl_pc_ok h lk xs n (Free_cas a v) = (lk a = v)"
| "fl_pc_ok h lk xs n _ = True"

definition fl_ok :: "'t fl_event list \<Rightarrow> 't free_list \<Rightarrow> addr48 list \<Rightarrow> bool" where
  "fl_ok es s xs \<longleftrightarrow> free_chain (link s) (address (fl_head s)) xs \<and> distinct xs \<and> 0 \<notin> blocks s \<and>
     blocks s = set xs \<union> held s \<union> in_flight s \<and> set xs \<inter> held s = {} \<and> set xs \<inter> in_flight s = {} \<and> held s \<inter> in_flight s = {} \<and>
     (\<forall>t t' a. freeing (fl_pcs s t) = Some a \<and> freeing (fl_pcs s t') = Some a \<longrightarrow> t = t') \<and>
     (\<forall>t. fl_pc_ok (fl_head s) (link s) (set xs) (since t es) (fl_pcs s t))"


lemma free_chain_unique: "free_chain lk a xs \<Longrightarrow> free_chain lk a ys \<Longrightarrow> xs = ys"
proof (induction xs arbitrary: a ys)
  case (Cons x xs)
  then show ?case by (cases ys) auto
qed (auto elim: free_chain.elims)

lemma free_chain_update: "b \<notin> set xs \<Longrightarrow> free_chain (lk(b := v)) a xs = free_chain lk a xs"
  by (induction xs arbitrary: a) auto

lemma since_Cons [simp]:
  "since t (Loaded t' # es) = (if t' = t then 0 else since t es)"
  "since t (Popped t' a # es) = Suc (since t es)"
  "since t (Created t' a # es) = since t es"
  "since t (Silent # es) = since t es"
  by (simp_all add: since_def)

text \<open>The blocks that threads other than \<open>t\<close> are returning.\<close>

definition others :: "'t free_list \<Rightarrow> 't \<Rightarrow> addr48 set" where
  "others s t = {a. \<exists>t'. t' \<noteq> t \<and> freeing (fl_pcs s t') = Some a}"

lemma in_flight_others: "in_flight s = others s t \<union> set_option (freeing (fl_pcs s t))"
  by (auto simp: in_flight_def others_def)

text \<open>What a step of another thread keeps of a thread's position.\<close>

lemma fl_pc_ok_others:
  assumes "fl_pc_ok h lk X n pc" "X \<subseteq> X'" "tag h' = tag h" "\<And>a. a \<in> X \<Longrightarrow> lk' a = lk a"
    "\<And>a. freeing pc = Some a \<Longrightarrow> lk' a = lk a"
  shows "fl_pc_ok h' lk' X' n pc"
  using assms by (cases pc) (auto simp: stale_def)

lemma fl_pc_ok_popped:
  assumes "fl_pc_ok h lk X n pc" "tag h' = tag h + 1"
  shows "fl_pc_ok h' lk X' (Suc n) pc"
  using assms by (cases pc) (auto simp: stale_def)

lemma tag_exact:
  assumes "stale v v n" "n < 2 ^ 16"
  shows "n = 0"
proof -
  have "of_nat n = (0 :: 16 word)" using assms(1) by (simp add: stale_def)
  then have "2 ^ 16 dvd n" by (simp add: word_of_nat_eq_0_iff)
  then show ?thesis using assms(2) by (auto dest: dvd_imp_le)
qed

section \<open>Every step keeps it\<close>

lemma fl_ok_start: "fl_ok [] (fl_start lk) []"
  by (simp add: fl_ok_def fl_start_def in_flight_def)

lemma fl_okD:
  assumes "fl_ok es s xs"
  shows "free_chain (link s) (address (fl_head s)) xs" "distinct xs" "0 \<notin> blocks s"
    "blocks s = set xs \<union> held s \<union> in_flight s" "set xs \<inter> held s = {}" "set xs \<inter> in_flight s = {}" "held s \<inter> in_flight s = {}"
    "\<And>t t' a. freeing (fl_pcs s t) = Some a \<Longrightarrow> freeing (fl_pcs s t') = Some a \<Longrightarrow> t = t'"
    "\<And>t. fl_pc_ok (fl_head s) (link s) (set xs) (since t es) (fl_pcs s t)"
  using assms unfolding fl_ok_def by blast+

lemma fl_ok_others:
  assumes "fl_ok es s xs"
  shows "blocks s = set xs \<union> held s \<union> others s t \<union> set_option (freeing (fl_pcs s t))"
    "set xs \<inter> others s t = {}" "held s \<inter> others s t = {}" "set xs \<inter> set_option (freeing (fl_pcs s t)) = {}"
    "held s \<inter> set_option (freeing (fl_pcs s t)) = {}" "others s t \<inter> set_option (freeing (fl_pcs s t)) = {}"
  using fl_okD(4-8) [OF assms] unfolding in_flight_others [of s t] by (auto simp: others_def)

text \<open>The shape of all steps: one thread moves, the others keep their positions.\<close>

lemma fl_okI:
  assumes "fl_ok es s xs" "free_chain lk (address h) ys" "distinct ys" "0 \<notin> set ys \<union> H \<union> others s t \<union> F"
    "F = set_option (freeing pc)" "B = set ys \<union> H \<union> others s t \<union> F"
    "set ys \<inter> H = {}" "set ys \<inter> others s t = {}" "H \<inter> others s t = {}" "set ys \<inter> F = {}" "H \<inter> F = {}" "others s t \<inter> F = {}"
    "\<And>t'. t' \<noteq> t \<Longrightarrow> fl_pc_ok h lk (set ys) (since t' es') (fl_pcs s t')" "fl_pc_ok h lk (set ys) (since t es') pc"
  shows "fl_ok es' (s\<lparr> fl_head := h, link := lk, blocks := B, held := H, fl_pcs := (fl_pcs s)(t := pc) \<rparr>) ys"
proof -
  let ?s = "s\<lparr> fl_head := h, link := lk, blocks := B, held := H, fl_pcs := (fl_pcs s)(t := pc) \<rparr>"
  have "others ?s t = others s t" by (auto simp: others_def)
  then have F: "in_flight ?s = others s t \<union> F" using in_flight_others [of ?s t] assms(5) by simp
  have uniq: "t1 = t2" if "freeing (fl_pcs ?s t1) = Some a" "freeing (fl_pcs ?s t2) = Some a" for t1 t2 a
  proof (rule ccontr)
    assume ne: "t1 \<noteq> t2"
    have out: "a \<in> others s t" if "freeing (fl_pcs ?s t') = Some a" "t' \<noteq> t" for t'
      using that by (auto simp: others_def)
    have mine: "a \<in> F" if "freeing (fl_pcs ?s t) = Some a" using that assms(5) by simp
    consider "t1 = t" | "t2 = t" | "t1 \<noteq> t" "t2 \<noteq> t" by blast
    then show False
    proof cases
      case 3
      then show False using that ne fl_okD(8) [OF assms(1), of t1 a t2] by simp
    qed (use that ne out mine assms(12) in blast)+
  qed
  have pcs: "fl_pc_ok (fl_head ?s) (link ?s) (set ys) (since t' es') (fl_pcs ?s t')" for t'
    using assms(13,14) by simp
  have sets: "set ys \<inter> (others s t \<union> F) = {}" "H \<inter> (others s t \<union> F) = {}" "0 \<notin> B" "B = set ys \<union> H \<union> (others s t \<union> F)"
    using assms(4,6,8-11) by blast+
  show ?thesis
    unfolding fl_ok_def F
    by (intro conjI allI impI; (rule pcs | (elim conjE, rule uniq, assumption, assumption) | use assms(2,3,7) sets in simp))
qed

lemma fl_ok_moves:
  assumes "fl_ok es s xs" "freeing pc = freeing (fl_pcs s t)" "\<And>t'. t' \<noteq> t \<Longrightarrow> since t' es' = since t' es"
    "fl_pc_ok (fl_head s) (link s) (set xs) (since t es') pc"
  shows "fl_ok es' (s\<lparr> fl_pcs := (fl_pcs s)(t := pc) \<rparr>) xs"
proof -
  note ok = fl_ok_others [OF assms(1), of t] fl_okD(1-3,5,9) [OF assms(1)]
  have "fl_ok es' (s\<lparr> fl_head := fl_head s, link := link s, blocks := blocks s, held := held s, fl_pcs := (fl_pcs s)(t := pc) \<rparr>) xs"
    by (rule fl_okI [OF assms(1) _ _ _ refl]) (use ok assms(2-4) in simp_all)
  then show ?thesis by simp
qed

lemma free_chain_head: "free_chain lk a xs \<Longrightarrow> a \<noteq> 0 \<Longrightarrow> a \<in> set xs"
  by (cases xs) auto

lemma fl_ok_loads:
  assumes "fl_ok es s xs" "freeing (fl_pcs s t) = None"
  shows "fl_ok (Loaded t # es) (s\<lparr> fl_pcs := (fl_pcs s)(t := Alloc_test (fl_head s)) \<rparr>) xs"
  by (rule fl_ok_moves [OF assms(1)])
    (use free_chain_head [OF fl_okD(1) [OF assms(1)]] assms(2) in \<open>auto simp: stale_def not_null_def\<close>)

lemma fl_ok_pops:
  assumes "fl_ok es s xs" "fl_pcs s t = Alloc_cas (fl_head s) a" "since t es < 2 ^ 16"
  shows "fl_ok (Popped t (address (fl_head s)) # es)
      (s\<lparr> fl_head := \<lparr> address = a, tag = tag (fl_head s) + 1 \<rparr>, held := held s \<union> {address (fl_head s)}, fl_pcs := (fl_pcs s)(t := Fl_idle) \<rparr>) (tl xs)"
    and "address (fl_head s) \<in> set xs"
proof -
  let ?h = "address (fl_head s)"
  note ok = fl_okD [OF assms(1)] and oth = fl_ok_others [OF assms(1), of t]
  have "since t es = 0" by (rule tag_exact [of "fl_head s"]) (use ok(9) [of t] assms(2,3) in simp_all)
  then have h: "?h \<in> set xs" "address (link s ?h) = a" using ok(9) [of t] assms(2) by simp_all
  then obtain ys where xs: "xs = ?h # ys" using ok(1) by (cases xs) auto
  have "fl_ok (Popped t ?h # es) (s\<lparr> fl_head := \<lparr> address = a, tag = tag (fl_head s) + 1 \<rparr>, link := link s, blocks := blocks s,
      held := held s \<union> {?h}, fl_pcs := (fl_pcs s)(t := Fl_idle) \<rparr>) ys"
  proof (rule fl_okI [OF assms(1) _ _ _ refl])
    show "fl_pc_ok \<lparr> address = a, tag = tag (fl_head s) + 1 \<rparr> (link s) (set ys) (since t' (Popped t ?h # es)) (fl_pcs s t')" for t'
      using fl_pc_ok_popped [OF ok(9) [of t']] by simp
  qed (use ok(1-3,5) oth h(2) assms(2) xs in auto)
  then show "fl_ok (Popped t ?h # es) (s\<lparr> fl_head := \<lparr> address = a, tag = tag (fl_head s) + 1 \<rparr>,
      held := held s \<union> {?h}, fl_pcs := (fl_pcs s)(t := Fl_idle) \<rparr>) (tl xs)" using xs by simp
  show "?h \<in> set xs" by (rule h(1))
qed

lemma fl_ok_allocates:
  assumes "fl_ok es s xs" "allocate_step t (fl_head s) (link s) (fl_pcs s t) = Some (h, pc, e)" "timely (e # es)"
  shows "\<exists>ys. fl_ok (e # es) (s\<lparr> fl_head := h, held := held s \<union> taken e, fl_pcs := (fl_pcs s)(t := pc) \<rparr>) ys"
proof (cases "fl_pcs s t")
  case Alloc_load
  then show ?thesis using fl_ok_loads [OF assms(1), of t] assms(2) by auto
next
  case (Alloc_test v)
  then have "fl_ok (Silent # es) (s\<lparr> fl_pcs := (fl_pcs s)(t := pc) \<rparr>) xs"
    using fl_okD(9) [OF assms(1), of t] assms(2) by (intro fl_ok_moves [OF assms(1)]) (auto split: if_splits)
  then show ?thesis using assms(2) Alloc_test by (auto split: if_splits)
next
  case (Alloc_cas v a)
  show ?thesis
  proof (cases "fl_head s = v")
    case True
    then show ?thesis using fl_ok_pops(1) [OF assms(1), of t a] Alloc_cas assms(2,3) by auto
  next
    case False
    then show ?thesis using fl_ok_loads [OF assms(1), of t] assms(2) Alloc_cas by auto
  qed
qed (use assms(2) in simp_all)

lemma fl_ok_creates:
  assumes "fl_ok es s xs" "freeing (fl_pcs s t) = None" "a \<notin> blocks s" "a \<noteq> 0"
  shows "fl_ok (Created t a # es) (s\<lparr> blocks := insert a (blocks s), held := insert a (held s), fl_pcs := (fl_pcs s)(t := Fl_idle) \<rparr>) xs"
proof -
  note ok = fl_okD [OF assms(1)] and oth = fl_ok_others [OF assms(1), of t]
  have "fl_ok (Created t a # es) (s\<lparr> fl_head := fl_head s, link := link s, blocks := insert a (blocks s), held := insert a (held s), fl_pcs := (fl_pcs s)(t := Fl_idle) \<rparr>) xs"
    by (rule fl_okI [OF assms(1) _ _ _ refl]) (use ok(1-3,5,9) oth assms(2-4) in auto)
  then show ?thesis by simp
qed

lemma fl_ok_returns:
  assumes "fl_ok es s xs" "fl_pcs s t = Fl_idle" "a \<in> held s"
  shows "fl_ok (Silent # es) (s\<lparr> held := held s - {a}, fl_pcs := (fl_pcs s)(t := Free_load a) \<rparr>) xs"
proof -
  note ok = fl_okD [OF assms(1)] and oth = fl_ok_others [OF assms(1), of t]
  have "fl_ok (Silent # es) (s\<lparr> fl_head := fl_head s, link := link s, blocks := blocks s, held := held s - {a}, fl_pcs := (fl_pcs s)(t := Free_load a) \<rparr>) xs"
    by (rule fl_okI [OF assms(1) _ _ _ refl]) (use ok(1-3,5,9) oth assms(2,3) in auto)
  then show ?thesis by simp
qed

text \<open>A write to a block that is not in the list.\<close>

lemma fl_ok_writes:
  assumes "fl_ok es s xs" "a \<notin> set xs" "a \<notin> others s t" "freeing pc = freeing (fl_pcs s t)"
    "fl_pc_ok (fl_head s) ((link s)(a := x)) (set xs) (since t es) pc"
  shows "fl_ok (Silent # es) (s\<lparr> link := (link s)(a := x), fl_pcs := (fl_pcs s)(t := pc) \<rparr>) xs"
proof -
  note ok = fl_okD [OF assms(1)] and oth = fl_ok_others [OF assms(1), of t]
  have "fl_ok (Silent # es) (s\<lparr> fl_head := fl_head s, link := (link s)(a := x), blocks := blocks s, held := held s, fl_pcs := (fl_pcs s)(t := pc) \<rparr>) xs"
  proof (rule fl_okI [OF assms(1) _ _ _ refl])
    fix t' assume "t' \<noteq> t"
    then have "fl_pc_ok (fl_head s) ((link s)(a := x)) (set xs) (since t' es) (fl_pcs s t')"
      using assms(2,3) by (intro fl_pc_ok_others [OF ok(9) [of t']]) (auto simp: others_def)
    then show "fl_pc_ok (fl_head s) ((link s)(a := x)) (set xs) (since t' (Silent # es)) (fl_pcs s t')" by simp
  qed (use ok(1-3,5) oth assms(2,4,5) free_chain_update in auto)
  then show ?thesis by simp
qed

lemma fl_ok_pushes:
  assumes "fl_ok es s xs" "fl_pcs s t = Free_cas a (fl_head s)"
  shows "fl_ok (Silent # es) (s\<lparr> fl_head := \<lparr> address = a, tag = tag (fl_head s) \<rparr>, fl_pcs := (fl_pcs s)(t := Fl_idle) \<rparr>) (a # xs)"
proof -
  note ok = fl_okD [OF assms(1)] and oth = fl_ok_others [OF assms(1), of t]
  have lk: "link s a = fl_head s" using ok(9) [of t] assms(2) by simp
  have "fl_ok (Silent # es) (s\<lparr> fl_head := \<lparr> address = a, tag = tag (fl_head s) \<rparr>, link := link s, blocks := blocks s, held := held s, fl_pcs := (fl_pcs s)(t := Fl_idle) \<rparr>) (a # xs)"
  proof (rule fl_okI [OF assms(1) _ _ _ refl])
    fix t'
    have "fl_pc_ok \<lparr> address = a, tag = tag (fl_head s) \<rparr> (link s) (set (a # xs)) (since t' es) (fl_pcs s t')"
      by (rule fl_pc_ok_others [OF ok(9) [of t']]) auto
    then show "fl_pc_ok \<lparr> address = a, tag = tag (fl_head s) \<rparr> (link s) (set (a # xs)) (since t' (Silent # es)) (fl_pcs s t')" by simp
  qed (use ok(1-3,5) oth lk assms(2) in auto)
  then show ?thesis by simp
qed

lemma fl_ok_deallocates:
  assumes "fl_ok es s xs" "deallocate_step (fl_head s) (link s) (fl_pcs s t) = Some (h, lk, pc)"
  shows "\<exists>ys. fl_ok (Silent # es) (s\<lparr> fl_head := h, link := lk, fl_pcs := (fl_pcs s)(t := pc) \<rparr>) ys"
proof -
  note oth = fl_ok_others [OF assms(1), of t]
  have moves: "fl_ok (Silent # es) (s\<lparr> fl_pcs := (fl_pcs s)(t := Free_store a v) \<rparr>) xs" if "freeing (fl_pcs s t) = Some a" for a v
    by (rule fl_ok_moves [OF assms(1)]) (use that in simp_all)
  show ?thesis
  proof (cases "fl_pcs s t")
    case (Free_load a)
    then show ?thesis using moves [of a "fl_head s"] assms(2) by auto
  next
    case (Free_store a v)
    then have "fl_ok (Silent # es) (s\<lparr> link := (link s)(a := v), fl_pcs := (fl_pcs s)(t := Free_cas a v) \<rparr>) xs"
      using oth by (intro fl_ok_writes [OF assms(1)]) auto
    then show ?thesis using Free_store assms(2) by auto
  next
    case (Free_cas a v)
    then show ?thesis
      using moves [of a "fl_head s"] fl_ok_pushes [OF assms(1), of t a] assms(2) by (auto split: if_splits)
  qed (use assms(2) in simp_all)
qed

lemma fl_ok_step:
  assumes "fl_step s e s'" "fl_ok es s xs" "timely (e # es)"
  shows "\<exists>ys. fl_ok (e # es) s' ys"
  using assms(1)
proof (cases rule: fl_step.cases)
  case (call_allocate t)
  then show ?thesis using fl_ok_moves [OF assms(2), of Alloc_load t "Silent # es"] by auto
next
  case (in_allocate t h pc)
  then show ?thesis using fl_ok_allocates [OF assms(2) _ assms(3)] by auto
next
  case (create_memory_block t v a)
  then show ?thesis using fl_ok_creates [OF assms(2), of t a] by auto
next
  case (out_of_memory t v)
  then show ?thesis using fl_ok_moves [OF assms(2), of Fl_idle t "Silent # es"] by auto
next
  case (call_deallocate t a)
  then show ?thesis using fl_ok_returns [OF assms(2)] by auto
next
  case (in_deallocate t h lk pc)
  then show ?thesis using fl_ok_deallocates [OF assms(2)] by auto
next
  case (caller_writes a x)
  have "fl_ok (Silent # es) (s\<lparr> link := (link s)(a := x), fl_pcs := (fl_pcs s)(t := fl_pcs s t) \<rparr>) xs" for t
  proof (rule fl_ok_writes [OF assms(2)])
    have "freeing (fl_pcs s t) \<noteq> Some a"
      using caller_writes fl_ok_others(5) [OF assms(2), of t] by auto
    then show "fl_pc_ok (fl_head s) ((link s)(a := x)) (set xs) (since t es) (fl_pcs s t)"
      using caller_writes fl_okD(5) [OF assms(2)] by (intro fl_pc_ok_others [OF fl_okD(9) [OF assms(2)]]) auto
  qed (use caller_writes fl_okD(5) [OF assms(2)] fl_ok_others(3) [OF assms(2), of t] in auto)
  then show ?thesis using caller_writes by auto
qed

lemma fl_reach_ok: "fl_reach es s \<Longrightarrow> timely es \<Longrightarrow> \<exists>xs. fl_ok es s xs"
proof (induction rule: fl_reach.induct)
  case (fl_reach_start lk)
  then show ?case using fl_ok_start by blast
next
  case (fl_reach_step es s e s')
  then show ?case using fl_ok_step by (metis timely.simps(2))
qed

text \<open>C6: Whatever the threads do, as long as no thread sleeps through \<open>2 ^ 16\<close> allocations between its load of the top and its exchange: the
  free list is a finite chain of distinct blocks; every block obtained from the allocator below is in the list, held
  by a caller or being returned by exactly one thread, and only one of these, so that none is lost; and a block handed out by the
  next step was held by nobody and is not in the list afterwards.\<close>

theorem node_allocator_exclusive:
  assumes "fl_reach es s" "timely es"
  shows "\<exists>xs. free_chain (link s) (address (fl_head s)) xs \<and> distinct xs \<and> blocks s = set xs \<union> held s \<union> in_flight s \<and>
      set xs \<inter> held s = {} \<and> set xs \<inter> in_flight s = {} \<and> held s \<inter> in_flight s = {} \<and>
      (\<forall>t t' a. freeing (fl_pcs s t) = Some a \<and> freeing (fl_pcs s t') = Some a \<longrightarrow> t = t') \<and>
      (\<forall>e s' a. fl_step s e s' \<and> timely (e # es) \<and> a \<in> taken e \<longrightarrow>
         a \<notin> held s \<and> a \<notin> in_flight s \<and> (a \<in> blocks s \<longrightarrow> a \<in> set xs \<and> free_chain (link s') (address (fl_head s')) (remove1 a xs)))"
proof -
  obtain xs where ok: "fl_ok es s xs" using fl_reach_ok [OF assms] by blast
  have "a \<notin> held s \<and> a \<notin> in_flight s \<and> (a \<in> blocks s \<longrightarrow> a \<in> set xs \<and> free_chain (link s') (address (fl_head s')) (remove1 a xs))"
    if st: "fl_step s e s'" and ti: "timely (e # es)" and tk: "a \<in> taken e" for e s' a
    using st
  proof (cases rule: fl_step.cases)
    case (in_allocate t h pc)
    then obtain b where pc: "fl_pcs s t = Alloc_cas (fl_head s) b" "e = Popped t (address (fl_head s))" "a = address (fl_head s)"
      and s': "h = \<lparr> address = b, tag = tag (fl_head s) + 1 \<rparr>"
      using tk by (cases "fl_pcs s t") (auto split: if_splits)
    then have "since t es < 2 ^ 16" using ti by simp
    note p = fl_ok_pops [OF ok pc(1) this]
    have "xs = a # tl xs" using fl_okD(1) [OF ok] p(2) pc(3) by (cases xs) auto
    then have "remove1 a xs = tl xs" by (metis remove1.simps(2))
    then show ?thesis using fl_okD(1) [OF p(1)] p(2) fl_okD(5,6) [OF ok] in_allocate(1) s' pc(3) by auto
  next
    case (create_memory_block t v b)
    then show ?thesis using tk fl_okD(4) [OF ok] by auto
  qed (use tk in auto)
  then show ?thesis
    using fl_okD [OF ok] by (intro exI [of _ xs]) blast
qed

section \<open>Executions\<close>

text \<open>What a scheduler can choose next, and the step it leads to.\<close>

datatype 't fl_choice = Call_allocate 't | Call_deallocate 't addr48 | Go 't | Create 't addr48

fun fl_do :: "'t fl_choice \<Rightarrow> 't free_list \<Rightarrow> ('t fl_event \<times> 't free_list) option" where
  "fl_do (Call_allocate t) s =
     (if fl_pcs s t = Fl_idle then Some (Silent, s\<lparr> fl_pcs := (fl_pcs s)(t := Alloc_load) \<rparr>) else None)"
| "fl_do (Call_deallocate t a) s =
     (if fl_pcs s t = Fl_idle \<and> a \<in> held s then Some (Silent, s\<lparr> held := held s - {a}, fl_pcs := (fl_pcs s)(t := Free_load a) \<rparr>)
      else None)"
| "fl_do (Go t) s =
     (case allocate_step t (fl_head s) (link s) (fl_pcs s t) of
        Some (h, pc, e) \<Rightarrow> Some (e, s\<lparr> fl_head := h, held := held s \<union> taken e, fl_pcs := (fl_pcs s)(t := pc) \<rparr>)
      | None \<Rightarrow>
        (case deallocate_step (fl_head s) (link s) (fl_pcs s t) of
           Some (h, lk, pc) \<Rightarrow> Some (Silent, s\<lparr> fl_head := h, link := lk, fl_pcs := (fl_pcs s)(t := pc) \<rparr>)
         | None \<Rightarrow> None))"
| "fl_do (Create t a) s =
     (case fl_pcs s t of
        Alloc_test old_top \<Rightarrow>
          if \<not> not_null old_top \<and> a \<notin> blocks s \<and> a \<noteq> 0
          then Some (Created t a, s\<lparr> blocks := insert a (blocks s), held := insert a (held s), fl_pcs := (fl_pcs s)(t := Fl_idle) \<rparr>)
          else None
      | _ \<Rightarrow> None)"

fun fl_run :: "'t fl_choice list \<Rightarrow> 't fl_event list \<times> 't free_list \<Rightarrow> ('t fl_event list \<times> 't free_list) option" where
  "fl_run [] r = Some r"
| "fl_run (c # cs) (es, s) = (case fl_do c s of Some (e, s') \<Rightarrow> fl_run cs (e # es, s') | None \<Rightarrow> None)"

lemma fl_do_step: "fl_do c s = Some (e, s') \<Longrightarrow> fl_step s e s'"
  by (cases c) (auto intro: fl_step.intros split: if_splits option.splits fl_pc.splits prod.splits)

lemma fl_run_reach: "fl_run cs (es, s) = Some (es', s') \<Longrightarrow> fl_reach es s \<Longrightarrow> fl_reach es' s'"
proof (induction cs arbitrary: es s)
  case (Cons c cs)
  then show ?case by (auto split: option.splits intro: fl_reach_step fl_do_step)
qed simp

definition two_free :: "bool fl_choice list" where
  "two_free = [Call_allocate False, Go False, Create False 2, Call_allocate False, Go False, Create False 1,
     Call_deallocate False 2, Go False, Go False, Go False, Call_deallocate False 1, Go False, Go False, Go False]"

theorem node_allocator_exclusive_witness:
  "\<exists>es s. fl_run two_free ([], fl_start (\<lambda>a. \<lparr> address = 0, tag = 0 \<rparr>)) = Some (es, s) \<and> blocks s = {1, 2} \<and>
     (\<exists>xs. free_chain (link s) (address (fl_head s)) xs \<and> distinct xs \<and> blocks s = set xs \<union> held s \<union> in_flight s) \<and> length es = 14"
proof -
  let ?lk = "\<lambda>a. \<lparr> address = 0, tag = 0 \<rparr> :: tagged_pointer"
  obtain es s where run: "fl_run two_free ([], fl_start ?lk) = Some (es, s)" "blocks s = {1, 2}" "timely es" "length es = 14"
    by (simp add: two_free_def fl_start_def not_null_def insert_commute)
  then show ?thesis
    using node_allocator_exclusive [OF fl_run_reach [OF run(1) fl_reach_start] run(3)] by blast
qed

section \<open>The range of the tag\<close>

lemma fl_run_append:
  "fl_run cs r = Some r' \<Longrightarrow> fl_run (cs @ ds) r = fl_run ds r'"
proof (induction cs arbitrary: r)
  case (Cons c cs)
  then show ?case by (cases r) (auto split: option.splits)
qed simp

text \<open>The thread \<open>True\<close> loads the top and the successor and falls asleep; \<open>False\<close> takes both blocks, returns the first one, and goes on taking and
  returning it.\<close>

definition asleep :: "bool fl_choice list" where
  "asleep = two_free @ [Call_allocate True, Go True, Go True,
     Call_allocate False, Go False, Go False, Go False, Call_allocate False, Go False, Go False, Go False,
     Call_deallocate False 1, Go False, Go False, Go False]"

definition cycle :: "bool fl_choice list" where
  "cycle = [Call_allocate False, Go False, Go False, Go False, Call_deallocate False 1, Go False, Go False, Go False]"

definition cycled :: "nat \<Rightarrow> bool free_list" where
  "cycled n = \<lparr> fl_head = \<lparr> address = 1, tag = of_nat n + 2 \<rparr>,
     link = (\<lambda>a. \<lparr> address = 0, tag = 0 \<rparr>)(1 := \<lparr> address = 0, tag = of_nat n + 2 \<rparr>), blocks = {1, 2}, held = {2},
     fl_pcs = (\<lambda>t. Fl_idle)(True := Alloc_cas \<lparr> address = 1, tag = 0 \<rparr> 2) \<rparr>"

lemma asleep_run: "\<exists>es. fl_run asleep ([], fl_start (\<lambda>a. \<lparr> address = 0, tag = 0 \<rparr>)) = Some (es, cycled 0)"
  by (simp add: asleep_def two_free_def fl_start_def not_null_def cycled_def fun_eq_iff) auto

lemma cycle_run: "\<exists>es'. fl_run cycle (es, cycled n) = Some (es', cycled (Suc n))"
proof -
  have "insert 1 {2 :: 48 word} - {1} = {2}" "insert 2 {1 :: 48 word} - {1} = {2}" by auto
  then show ?thesis
    by (simp add: cycle_def not_null_def cycled_def fun_eq_iff add.commute add.left_commute)
qed

lemma cycles_run:
  "\<exists>es cs. fl_run cs ([], fl_start (\<lambda>a. \<lparr> address = 0, tag = 0 \<rparr>)) = Some (es, cycled n)"
proof (induction n)
  case 0
  then show ?case using asleep_run by blast
next
  case (Suc n)
  then obtain es cs where "fl_run cs ([], fl_start (\<lambda>a. \<lparr> address = 0, tag = 0 \<rparr>)) = Some (es, cycled n)" by blast
  moreover obtain es' where "fl_run cycle (es, cycled n) = Some (es', cycled (Suc n))" using cycle_run by blast
  ultimately show ?case using fl_run_append by metis
qed

text \<open>The tag of 16 bits does not exclude the other case: after \<open>2 ^ 16\<close> allocations behind the back of a sleeping thread its exchange
  succeeds and makes a block the top of the free list that a caller holds, which the next allocation hands out once more.\<close>

theorem node_allocator_tag_wraps:
  "\<exists>es s e s'. fl_reach es s \<and> 2 \<in> held s \<and> address (fl_head s) = 2 \<and>
     fl_run [Call_allocate False, Go False, Go False, Go False] (es, s) = Some (Popped False 2 # e, s')"
proof -
  let ?n = "2 ^ 16 - 2 :: nat"
  obtain es cs where run: "fl_run cs ([], fl_start (\<lambda>a. \<lparr> address = 0, tag = 0 \<rparr>)) = Some (es, cycled ?n)"
    using cycles_run [of ?n] by blast
  have reach: "fl_reach es (cycled ?n)" by (rule fl_run_reach [OF run fl_reach_start])
  let ?s = "(cycled ?n)\<lparr> fl_head := \<lparr> address = 2, tag = 1 \<rparr>, held := {1, 2}, fl_pcs := \<lambda>t. Fl_idle \<rparr>"
  have "fl_do (Go True) (cycled ?n) = Some (Popped True 1, ?s)"
    by (simp add: cycled_def fun_eq_iff insert_commute)
  then have "fl_reach (Popped True 1 # es) ?s" by (intro fl_reach_step [OF reach] fl_do_step)
  moreover obtain e s' where
    "fl_run [Call_allocate False, Go False, Go False, Go False] (Popped True 1 # es, ?s) = Some (Popped False 2 # e, s')"
    by (simp add: not_null_def)
  moreover have "2 \<in> held ?s" "address (fl_head ?s) = 2" by simp_all
  ultimately show ?thesis by blast
qed

section \<open>Construction and destruction\<close>

text \<open>\<^verbatim>\<open>push_unsafe\<close> of the constructor for an initial number of blocks, and the destructor, which takes the blocks from the list with
  \<^verbatim>\<open>pop_unsafe_without_allocation\<close> and returns them to the allocator below; both run alone.\<close>

definition push_unsafe :: "addr48 \<Rightarrow> 't free_list \<Rightarrow> 't free_list" where
  "push_unsafe ptr s =
     s\<lparr> link := (link s)(ptr := \<lparr> address = address (fl_head s), tag = 0 \<rparr>), fl_head := \<lparr> address = ptr, tag = tag (fl_head s) \<rparr> \<rparr>"

definition pop_unsafe_without_allocation :: "'t free_list \<Rightarrow> addr48 option \<times> 't free_list" where
  "pop_unsafe_without_allocation s =
     (let old_top = fl_head s
      in if not_null old_top
         then (Some (address old_top), s\<lparr> fl_head := \<lparr> address = address (link s (address old_top)), tag = get_next_tag old_top \<rparr> \<rparr>)
         else (None, s))"

definition node_allocator_init :: "addr48 list \<Rightarrow> 't free_list \<Rightarrow> 't free_list" where
  "node_allocator_init created s = fold (\<lambda>a s. push_unsafe a (s\<lparr> blocks := insert a (blocks s) \<rparr>)) created s"

partial_function (option) node_allocator_destroy :: "'t free_list \<Rightarrow> (addr48 list \<times> 't free_list) option" where
  [code]: "node_allocator_destroy s =
     (case pop_unsafe_without_allocation s of
        (Some target, s') \<Rightarrow>
          Option.bind (node_allocator_destroy (s'\<lparr> blocks := blocks s' - {target} \<rparr>)) (\<lambda>(destroyed, s''). Some (target # destroyed, s''))
      | (None, s') \<Rightarrow> Some ([], s'))"

lemma push_unsafe_chain:
  assumes "free_chain (link s) (address (fl_head s)) xs" "a \<notin> set xs" "a \<noteq> 0"
  shows "free_chain (link (push_unsafe a s)) (address (fl_head (push_unsafe a s))) (a # xs)"
  using assms by (simp add: push_unsafe_def free_chain_update)

lemma node_allocator_destroy_chain:
  assumes "free_chain (link s) (address (fl_head s)) xs"
  shows "\<exists>s'. node_allocator_destroy s = Some (xs, s') \<and> blocks s' = blocks s - set xs \<and> \<not> not_null (fl_head s')"
  using assms
proof (induction xs arbitrary: s)
  case Nil
  then show ?case
    by (subst node_allocator_destroy.simps) (simp add: pop_unsafe_without_allocation_def not_null_def)
next
  case (Cons x xs)
  let ?s = "s\<lparr> fl_head := \<lparr> address = address (link s x), tag = tag (fl_head s) + 1 \<rparr>, blocks := blocks s - {x} \<rparr>"
  have "\<exists>s'. node_allocator_destroy ?s = Some (xs, s') \<and> blocks s' = blocks ?s - set xs \<and> \<not> not_null (fl_head s')"
    using Cons.prems by (intro Cons.IH) auto
  then show ?case using Cons.prems
    by (subst node_allocator_destroy.simps) (auto simp: pop_unsafe_without_allocation_def not_null_def Let_def)
qed

lemma node_allocator_init_chain:
  assumes "free_chain (link s) (address (fl_head s)) xs" "distinct created" "set created \<inter> set xs = {}" "0 \<notin> set created"
  shows "free_chain (link (node_allocator_init created s)) (address (fl_head (node_allocator_init created s))) (rev created @ xs) \<and>
    blocks (node_allocator_init created s) = blocks s \<union> set created"
  using assms
proof (induction created arbitrary: s xs)
  case (Cons a created)
  let ?s = "push_unsafe a (s\<lparr> blocks := insert a (blocks s) \<rparr>)"
  have ch: "free_chain (link ?s) (address (fl_head ?s)) (a # xs)"
    by (rule push_unsafe_chain) (use Cons.prems in simp_all)
  have "free_chain (link (node_allocator_init created ?s)) (address (fl_head (node_allocator_init created ?s))) (rev created @ a # xs) \<and>
      blocks (node_allocator_init created ?s) = blocks ?s \<union> set created"
    using Cons.prems by (intro Cons.IH [OF ch]) simp_all
  moreover have "node_allocator_init (a # created) s = node_allocator_init created ?s" by (simp add: node_allocator_init_def)
  ultimately show ?case by (auto simp: push_unsafe_def)
qed (simp add: node_allocator_init_def)

text \<open>The destructor of an allocator that no thread is using returns, and gives each block of the free list back exactly once; when
  the callers have returned all blocks, these are all blocks there are.\<close>

theorem node_allocator_destroy_returns_all:
  assumes "fl_reach es s" "timely es" "\<And>t. fl_pcs s t = Fl_idle"
  shows "\<exists>xs s'. node_allocator_destroy s = Some (xs, s') \<and> distinct xs \<and> blocks s' = held s \<and> set xs \<inter> held s = {}"
proof -
  obtain xs where ok: "fl_ok es s xs" using fl_reach_ok [OF assms(1,2)] by blast
  have "in_flight s = {}" using assms(3) by (simp add: in_flight_def)
  then have "blocks s - set xs = held s" using fl_okD(4,5) [OF ok] by auto
  then show ?thesis
    using node_allocator_destroy_chain [OF fl_okD(1) [OF ok]] fl_okD(2,5) [OF ok] by auto
qed

theorem node_allocator_destroy_returns_all_witness:
  "\<exists>es s xs s'. fl_run two_free ([], fl_start (\<lambda>a. \<lparr> address = 0, tag = 0 \<rparr>)) = Some (es, s) \<and> blocks s = {1, 2} \<and>
     node_allocator_destroy s = Some (xs, s') \<and> distinct xs \<and> blocks s' = {}"
proof -
  let ?lk = "\<lambda>a. \<lparr> address = 0, tag = 0 \<rparr> :: tagged_pointer"
  obtain es s where run: "fl_run two_free ([], fl_start ?lk) = Some (es, s)" "blocks s = {1, 2}" "timely es" "held s = {}"
      "\<And>t. fl_pcs s t = Fl_idle"
    by (simp add: two_free_def fl_start_def not_null_def insert_commute) auto
  then show ?thesis
    using node_allocator_destroy_returns_all [OF fl_run_reach [OF run(1) fl_reach_start] run(3,5)] by auto
qed

end
