(* ===== verification/Mpmc_Queue.thy ===== *)
theory Mpmc_Queue
  imports Tagged_Ptr
begin

text \<open>
  The lock-free queue (\<^verbatim>\<open>modules/lockfree/queue.hpp\<close>): \<^verbatim>\<open>push\<close> and \<^verbatim>\<open>pop\<close> by any number of threads. The state has the two
  tagged pointers, the nodes at their addresses, the nodes that are allocated, those that ever were, and each thread's
  position; every step is one atomic access, so that all interleavings are executions. Which address an allocation may return is a
  parameter: \<open>recycling\<close> allows each address that is not in use, which is what the allocator of \<open>Node_Allocator\<close> promises;
  \<open>fresh\<close> never returns an address twice. A node that was given back may still be read by late threads.
\<close>

section \<open>Nodes, positions, events\<close>

type_synonym node_addr = "48 word"

record 'v node =
  n_value :: 'v
  n_next :: tagged_pointer

text \<open>The positions follow the statements: \<open>Push_load_tail\<close> is the top of the loop of \<^verbatim>\<open>push\<close>, \<open>Push_check\<close> the second load of the tail and the tests
  behind it, \<open>Push_cas\<close> the exchange of the last node's \<^verbatim>\<open>next\<close>, \<open>Push_swing\<close> and \<open>Push_help\<close> those of the tail. The locals that are
  still used are the arguments: the new node, its value, and the loaded pointers.\<close>

datatype 'v q_pc =
    Q_idle
  | Push_alloc 'v
  | Push_construct node_addr 'v
  | Push_read_tag node_addr 'v
  | Push_store_next node_addr 'v tagged_pointer
  | Push_load_tail node_addr 'v
  | Push_load_next node_addr 'v tagged_pointer
  | Push_check node_addr 'v tagged_pointer tagged_pointer
  | Push_cas node_addr 'v tagged_pointer tagged_pointer
  | Push_swing node_addr 'v tagged_pointer
  | Push_help node_addr 'v tagged_pointer tagged_pointer
  | Pop_load_head
  | Pop_load_tail tagged_pointer
  | Pop_load_next tagged_pointer tagged_pointer
  | Pop_check tagged_pointer tagged_pointer tagged_pointer
  | Pop_help tagged_pointer tagged_pointer
  | Pop_value tagged_pointer tagged_pointer
  | Pop_cas tagged_pointer tagged_pointer 'v
  | Pop_free tagged_pointer 'v

text \<open>Events: the successful exchanges that link a node and that remove one, the calls and the returns of \<^verbatim>\<open>pop\<close>.\<close>

datatype ('v, 't) q_event = Quiet | Linked 't 'v | Took 't 'v | Called_pop 't | Returned 't "'v option"

record ('v, 't) queue =
  q_head :: tagged_pointer
  q_tail :: tagged_pointer
  cells :: "node_addr \<Rightarrow> 'v node"
  live :: "node_addr set"
  used :: "node_addr set"
  q_pcs :: "'t \<Rightarrow> 'v q_pc"

section \<open>The operations\<close>

definition tagged :: "node_addr \<Rightarrow> 16 word \<Rightarrow> tagged_pointer" where
  "tagged a t = \<lparr> address = a, tag = t \<rparr>"

text \<open>\<^verbatim>\<open>cas_strong_helper\<close> and \<^verbatim>\<open>cas_weak_helper\<close>: the value of the place afterwards and whether it was exchanged; they compare pointer and tag.\<close>

definition cas_helper :: "tagged_pointer \<Rightarrow> tagged_pointer \<Rightarrow> tagged_pointer \<Rightarrow> tagged_pointer \<times> bool" where
  "cas_helper place expected new_ptr = (if to_number place = to_number expected then (new_ptr, True) else (place, False))"

text \<open>\<^verbatim>\<open>push\<close>: the steps that construct the node \<open>a\<close>, which resets its \<^verbatim>\<open>next\<close> before it counts up the tag, and the loop.\<close>

fun push_step :: "'t \<Rightarrow> ('v, 't) queue \<Rightarrow> 'v q_pc \<Rightarrow> (('v, 't) queue \<times> 'v q_pc \<times> ('v, 't) q_event) option" where
  "push_step t s (Push_construct a v) =
     Some (s\<lparr> cells := (cells s)(a := \<lparr> n_value = v, n_next = tagged 0 0 \<rparr>) \<rparr>, Push_read_tag a v, Quiet)"
| "push_step t s (Push_read_tag a v) = Some (s, Push_store_next a v (n_next (cells s a)), Quiet)"
| "push_step t s (Push_store_next a v nx) =
     Some (s\<lparr> cells := (cells s)(a := (cells s a)\<lparr> n_next := tagged 0 (get_next_tag nx) \<rparr>) \<rparr>, Push_load_tail a v, Quiet)"
| "push_step t s (Push_load_tail a v) = Some (s, Push_load_next a v (q_tail s), Quiet)"
| "push_step t s (Push_load_next a v tail) = Some (s, Push_check a v tail (n_next (cells s (address tail))), Quiet)"
| "push_step t s (Push_check a v tail nx) =
     (if same_pointer tail (q_tail s)
      then if \<not> not_null nx then Some (s, Push_cas a v tail nx, Quiet) else Some (s, Push_help a v tail nx, Quiet)
      else Some (s, Push_load_tail a v, Quiet))"
| "push_step t s (Push_cas a v tail nx) =
     (let (p, done) = cas_helper (n_next (cells s (address tail))) nx (tagged a (get_next_tag nx));
          s' = s\<lparr> cells := (cells s)(address tail := (cells s (address tail))\<lparr> n_next := p \<rparr>) \<rparr>
      in if done then Some (s', Push_swing a v tail, Linked t v) else Some (s', Push_load_tail a v, Quiet))"
| "push_step t s (Push_swing a v tail) =
     Some (s\<lparr> q_tail := fst (cas_helper (q_tail s) tail (tagged a (get_next_tag tail))) \<rparr>, Q_idle, Quiet)"
| "push_step t s (Push_help a v tail nx) =
     Some (s\<lparr> q_tail := fst (cas_helper (q_tail s) tail (tagged (address nx) (get_next_tag tail))) \<rparr>, Push_load_tail a v, Quiet)"
| "push_step t s _ = None"

fun pop_step :: "'t \<Rightarrow> ('v, 't) queue \<Rightarrow> 'v q_pc \<Rightarrow> (('v, 't) queue \<times> 'v q_pc \<times> ('v, 't) q_event) option" where
  "pop_step t s Pop_load_head = Some (s, Pop_load_tail (q_head s), Quiet)"
| "pop_step t s (Pop_load_tail head) = Some (s, Pop_load_next head (q_tail s), Quiet)"
| "pop_step t s (Pop_load_next head tail) = Some (s, Pop_check head tail (n_next (cells s (address head))), Quiet)"
| "pop_step t s (Pop_check head tail nx) =
     (if same_pointer head (q_head s)
      then if same_pointer head tail
        then if \<not> not_null nx then Some (s, Q_idle, Returned t None) else Some (s, Pop_help tail nx, Quiet)
        else if \<not> not_null nx then Some (s, Pop_load_head, Quiet) else Some (s, Pop_value head nx, Quiet)
      else Some (s, Pop_load_head, Quiet))"
| "pop_step t s (Pop_help tail nx) =
     Some (s\<lparr> q_tail := fst (cas_helper (q_tail s) tail (tagged (address nx) (get_next_tag tail))) \<rparr>, Pop_load_head, Quiet)"
| "pop_step t s (Pop_value head nx) = Some (s, Pop_cas head nx (n_value (cells s (address nx))), Quiet)"
| "pop_step t s (Pop_cas head nx v) =
     (let (p, done) = cas_helper (q_head s) head (tagged (address nx) (get_next_tag head))
      in if done then Some (s\<lparr> q_head := p \<rparr>, Pop_free head v, Took t v) else Some (s, Pop_load_head, Quiet))"
| "pop_step t s (Pop_free head v) = Some (s\<lparr> live := live s - {address head} \<rparr>, Q_idle, Returned t (Some v))"
| "pop_step t s _ = None"

text \<open>\<^verbatim>\<open>initialize\<close>: a dummy node, whose value is whatever its memory holds.\<close>

definition queue_init :: "node_addr \<Rightarrow> (node_addr \<Rightarrow> 'v node) \<Rightarrow> ('v, 't) queue" where
  "queue_init dummy mem = \<lparr> q_head = tagged dummy 0, q_tail = tagged dummy 0, cells = mem(dummy := (mem dummy)\<lparr> n_next := tagged 0 0 \<rparr>),
     live = {dummy}, used = {dummy}, q_pcs = \<lambda>t. Q_idle \<rparr>"

section \<open>The operations without synchronisation\<close>

text \<open>\<^verbatim>\<open>unsynchronized_push_impl\<close> with the node \<open>a\<close>, \<^verbatim>\<open>unsynchronized_pop_impl\<close> and the destructor, which run alone; \<open>None\<close> is a loop that does
  not end.\<close>

partial_function (option) unsynchronized_push_loop :: "node_addr \<Rightarrow> ('v, 't) queue \<Rightarrow> ('v, 't) queue option" where
  [code]: "unsynchronized_push_loop a s =
     (let tail = q_tail s; nx = n_next (cells s (address tail))
      in if \<not> not_null nx
         then Some (s\<lparr> cells := (cells s)(address tail := (cells s (address tail))\<lparr> n_next := tagged a (get_next_tag nx) \<rparr>),
                      q_tail := tagged a (get_next_tag tail) \<rparr>)
         else unsynchronized_push_loop a (s\<lparr> q_tail := tagged (address nx) (get_next_tag tail) \<rparr>))"

definition create_data_node :: "node_addr \<Rightarrow> 'v \<Rightarrow> ('v, 't) queue \<Rightarrow> ('v, 't) queue" where
  "create_data_node a v s = s\<lparr> cells := (cells s)(a := \<lparr> n_value = v, n_next = tagged 0 1 \<rparr>), live := insert a (live s), used := insert a (used s) \<rparr>"

definition unsynchronized_push :: "node_addr \<Rightarrow> 'v \<Rightarrow> ('v, 't) queue \<Rightarrow> ('v, 't) queue option" where
  "unsynchronized_push a v s = unsynchronized_push_loop a (create_data_node a v s)"

partial_function (option) unsynchronized_pop :: "('v, 't) queue \<Rightarrow> ('v option \<times> ('v, 't) queue) option" where
  [code]: "unsynchronized_pop s =
     (let head = q_head s; nx = n_next (cells s (address head)); tail = q_tail s
      in if same_pointer head tail
         then if \<not> not_null nx then Some (None, s)
              else unsynchronized_pop (s\<lparr> q_tail := tagged (address nx) (get_next_tag tail) \<rparr>)
         else if \<not> not_null nx then unsynchronized_pop s
         else Some (Some (n_value (cells s (address nx))),
           s\<lparr> q_head := tagged (address nx) (get_next_tag head), live := live s - {address head} \<rparr>))"

partial_function (option) queue_destroy :: "('v, 't) queue \<Rightarrow> ('v, 't) queue option" where
  [code]: "queue_destroy s =
     (case unsynchronized_pop s of
        None \<Rightarrow> None
      | Some (Some v, s') \<Rightarrow> queue_destroy s'
      | Some (None, s') \<Rightarrow> Some (s'\<lparr> live := live s' - {address (q_head s')} \<rparr>))"

section \<open>All executions\<close>

type_synonym ('v, 't) policy = "('v, 't) queue \<Rightarrow> node_addr \<Rightarrow> bool"

definition recycling :: "('v, 't) policy" where
  "recycling s a \<longleftrightarrow> a \<notin> live s \<and> a \<noteq> 0"

definition fresh :: "('v, 't) policy" where
  "fresh s a \<longleftrightarrow> a \<notin> used s \<and> a \<noteq> 0"

definition at_pc :: "('v, 't) queue \<Rightarrow> 't \<Rightarrow> 'v q_pc \<Rightarrow> ('v, 't) queue" where
  "at_pc s t pc = s\<lparr> q_pcs := (q_pcs s)(t := pc) \<rparr>"

inductive q_step :: "('v, 't) policy \<Rightarrow> ('v, 't) queue \<Rightarrow> ('v, 't) q_event \<Rightarrow> ('v, 't) queue \<Rightarrow> bool" for P where
  call_push: "q_pcs s t = Q_idle \<Longrightarrow> q_step P s Quiet (at_pc s t (Push_alloc v))"
| call_pop: "q_pcs s t = Q_idle \<Longrightarrow> q_step P s (Called_pop t) (at_pc s t Pop_load_head)"
| node_allocated: "q_pcs s t = Push_alloc v \<Longrightarrow> P s a \<Longrightarrow>
    q_step P s Quiet (at_pc (s\<lparr> live := insert a (live s), used := insert a (used s) \<rparr>) t (Push_construct a v))"
| node_not_allocated: "q_pcs s t = Push_alloc v \<Longrightarrow> q_step P s Quiet (at_pc s t Q_idle)"
| in_push: "push_step t s (q_pcs s t) = Some (s', pc, e) \<Longrightarrow> q_step P s e (at_pc s' t pc)"
| in_pop: "pop_step t s (q_pcs s t) = Some (s', pc, e) \<Longrightarrow> q_step P s e (at_pc s' t pc)"

inductive q_reach :: "('v, 't) policy \<Rightarrow> ('v, 't) q_event list \<Rightarrow> ('v, 't) queue \<Rightarrow> bool" for P where
  q_reach_init: "dummy \<noteq> 0 \<Longrightarrow> q_reach P [] (queue_init dummy mem)"
| q_reach_step: "q_reach P es s \<Longrightarrow> q_step P s e s' \<Longrightarrow> q_reach P (e # es) s'"

section \<open>What the queue holds and what happened\<close>

fun linked :: "(node_addr \<Rightarrow> 'v node) \<Rightarrow> node_addr \<Rightarrow> node_addr list \<Rightarrow> bool" where
  "linked c a [] = (\<not> not_null (n_next (c a)))"
| "linked c a (b # bs) = (not_null (n_next (c a)) \<and> address (n_next (c a)) = b \<and> linked c b bs)"

text \<open>The values of the nodes behind the dummy at the head.\<close>

definition contents :: "('v, 't) queue \<Rightarrow> 'v list \<Rightarrow> bool" where
  "contents s vs \<longleftrightarrow> (\<exists>as. linked (cells s) (address (q_head s)) as \<and> vs = map (\<lambda>a. n_value (cells s a)) as)"

fun pushed :: "('v, 't) q_event list \<Rightarrow> 'v list" where
  "pushed [] = []"
| "pushed (e # es) = pushed es @ (case e of Linked t v \<Rightarrow> [v] | _ \<Rightarrow> [])"

fun took :: "('v, 't) q_event list \<Rightarrow> 'v list" where
  "took [] = []"
| "took (e # es) = took es @ (case e of Took t v \<Rightarrow> [v] | _ \<Rightarrow> [])"

text \<open>At some moment since the latest call of \<^verbatim>\<open>pop\<close> by \<open>t\<close> everything that was pushed had been taken.\<close>

fun was_empty :: "'t \<Rightarrow> ('v, 't) q_event list \<Rightarrow> bool" where
  "was_empty t [] = True"
| "was_empty t (e # es) = (length (pushed (e # es)) = length (took (e # es)) \<or> (e \<noteq> Called_pop t \<and> was_empty t es))"

lemma linked_unique: "linked c a xs \<Longrightarrow> linked c a ys \<Longrightarrow> xs = ys"
proof (induction xs arbitrary: a ys)
  case (Cons x xs)
  then show ?case by (cases ys) auto
next
  case Nil
  then show ?case by (cases ys) auto
qed

lemma contents_unique: "contents s vs \<Longrightarrow> contents s ws \<Longrightarrow> vs = ws"
  by (auto simp: contents_def dest: linked_unique)

lemma cas_helper_eq: "cas_helper p q r = (if p = q then (r, True) else (p, False))"
  unfolding cas_helper_def by (metis number_of_pointer)

section \<open>Scheduled executions\<close>

text \<open>What a scheduler can choose next, and the step it leads to.\<close>

datatype ('v, 't) q_choice = Push_of 't 'v | Pop_by 't | Allocated 't node_addr | Run 't

fun q_do :: "('v, 't) policy \<Rightarrow> ('v, 't) q_choice \<Rightarrow> ('v, 't) queue \<Rightarrow> (('v, 't) q_event \<times> ('v, 't) queue) option" where
  "q_do P (Push_of t v) s = (case q_pcs s t of Q_idle \<Rightarrow> Some (Quiet, at_pc s t (Push_alloc v)) | _ \<Rightarrow> None)"
| "q_do P (Pop_by t) s = (case q_pcs s t of Q_idle \<Rightarrow> Some (Called_pop t, at_pc s t Pop_load_head) | _ \<Rightarrow> None)"
| "q_do P (Allocated t a) s =
     (case q_pcs s t of
        Push_alloc v \<Rightarrow>
          if P s a then Some (Quiet, at_pc (s\<lparr> live := insert a (live s), used := insert a (used s) \<rparr>) t (Push_construct a v)) else None
      | _ \<Rightarrow> None)"
| "q_do P (Run t) s =
     (case push_step t s (q_pcs s t) of
        Some (s', pc, e) \<Rightarrow> Some (e, at_pc s' t pc)
      | None \<Rightarrow> (case pop_step t s (q_pcs s t) of Some (s', pc, e) \<Rightarrow> Some (e, at_pc s' t pc) | None \<Rightarrow> None))"

fun q_run :: "('v, 't) policy \<Rightarrow> ('v, 't) q_choice list \<Rightarrow> ('v, 't) q_event list \<times> ('v, 't) queue \<Rightarrow> (('v, 't) q_event list \<times> ('v, 't) queue) option" where
  "q_run P [] r = Some r"
| "q_run P (c # cs) (es, s) = (case q_do P c s of Some (e, s') \<Rightarrow> q_run P cs (e # es, s') | None \<Rightarrow> None)"

lemma q_do_step: "q_do P c s = Some (e, s') \<Longrightarrow> q_step P s e s'"
  by (cases c) (auto intro: q_step.intros split: option.splits q_pc.splits if_splits)

lemma q_run_reach: "q_run P cs (es, s) = Some (es', s') \<Longrightarrow> q_reach P es s \<Longrightarrow> q_reach P es' s'"
proof (induction cs arbitrary: es s)
  case (Cons c cs)
  then show ?case by (auto split: option.splits intro: q_reach_step q_do_step)
qed simp

text \<open>The choices that let one thread push or pop without interruption.\<close>

definition push_alone :: "'t \<Rightarrow> 'v \<Rightarrow> node_addr \<Rightarrow> ('v, 't) q_choice list" where
  "push_alone t v a = [Push_of t v, Allocated t a, Run t, Run t, Run t, Run t, Run t, Run t, Run t, Run t]"

definition pop_alone :: "'t \<Rightarrow> ('v, 't) q_choice list" where
  "pop_alone t = [Pop_by t, Run t, Run t, Run t, Run t, Run t, Run t, Run t]"

definition blank :: "node_addr \<Rightarrow> nat node" where
  "blank a = \<lparr> n_value = 0, n_next = tagged 0 0 \<rparr>"

lemmas q_run_simps = push_alone_def pop_alone_def queue_init_def blank_def at_pc_def cas_helper_eq not_null_def tagged_def recycling_def fresh_def Let_def

section \<open>A pop that fails on a queue that is never empty\<close>

text \<open>The thread \<open>True\<close> calls \<^verbatim>\<open>pop\<close> and loads the head, node 1. The other one pushes, pops, which gives node 1 back, and pushes a value into
  the same node again: it is the last one when \<open>True\<close> loads the tail and its successor. After one more push and two pops
  node 1 is the head again, and the comparison of the heads, which ignores the tags, does not notice.\<close>

definition late :: "(nat, bool) q_choice list" where
  "late = push_alone False 10 2 @ [Pop_by True, Run True] @ push_alone False 20 3 @ pop_alone False @ push_alone False 30 1 @
     [Run True, Run True] @ push_alone False 40 4 @ pop_alone False @ pop_alone False"

lemma late_run:
  "\<exists>es s s'. q_run recycling late ([], queue_init 1 blank) = Some (es, s) \<and> q_do recycling (Run True) s = Some (Returned True None, s') \<and> \<not> was_empty True es"
  by (simp add: late_def q_run_simps)

text \<open>C38: \<^verbatim>\<open>pop\<close> can report an empty queue although the queue held a value at every moment since it was called, with nodes that are
  allocated again only after they were given back and no tag that wraps around.\<close>

theorem pop_misses_value:
  "\<exists>es (s :: (nat, bool) queue) s'. q_reach recycling es s \<and> q_step recycling s (Returned True None) s' \<and> \<not> was_empty True es"
proof -
  obtain es s s' where run: "q_run recycling late ([], queue_init 1 blank) = Some (es, s)"
    and "q_do recycling (Run True) s = Some (Returned True None, s')" "\<not> was_empty True es"
    using late_run by blast
  moreover have "q_reach recycling es s" by (rule q_run_reach [OF run q_reach_init]) simp
  ultimately show ?thesis using q_do_step by blast
qed

section \<open>A push that returns before its value is in the queue\<close>

text \<open>The constructor of a node sets \<^verbatim>\<open>next\<close> to 0 before it counts up the tag, so that the tag of a new node's \<^verbatim>\<open>next\<close> is always 1. The thread \<open>True\<close>
  pushes 50 and stops before it links its node to node 2; node 2 is popped, allocated again by \<open>False\<close> and constructed, and the exchange
  of \<open>True\<close> succeeds on a node that is not in the queue.\<close>

definition early :: "(nat, bool) q_choice list" where
  "early = push_alone False 10 2 @ [Push_of True 50, Allocated True 5, Run True, Run True, Run True, Run True, Run True, Run True] @
     push_alone False 20 3 @ pop_alone False @ pop_alone False @ [Push_of False 30, Allocated False 2, Run False, Run False, Run False] @
     [Run True, Run True]"

lemma early_run:
  "\<exists>es s. q_run recycling early ([], queue_init 1 blank) = Some (es, s) \<and> pushed es = [10, 20, 50] \<and> took es = [10, 20] \<and>
     q_pcs s True = Q_idle \<and> contents s []"
proof -
  have "contents s []" if "\<not> not_null (n_next (cells s (address (q_head s))))" for s :: "(nat, bool) queue"
    unfolding contents_def using that by (intro exI [of _ "[]"]) simp
  then show ?thesis by (simp add: early_def q_run_simps)
qed

text \<open>\<^verbatim>\<open>push\<close> can return although its value cannot be popped: the queue holds nothing while one of three pushed values
  was not taken.\<close>

theorem push_returns_early:
  "\<exists>es (s :: (nat, bool) queue). q_reach recycling es s \<and> q_pcs s True = Q_idle \<and> contents s [] \<and> pushed es = [10, 20, 50] \<and> took es = [10, 20]"
proof -
  obtain es s where run: "q_run recycling early ([], queue_init 1 blank) = Some (es, s)"
    and "pushed es = [10, 20, 50]" "took es = [10, 20]" "q_pcs s True = Q_idle" "contents s []"
    using early_run by blast
  moreover have "q_reach recycling es s" by (rule q_run_reach [OF run q_reach_init]) simp
  ultimately show ?thesis by blast
qed

end
