(* ===== verification/Mpmc_Queue_Spec.thy ===== *)
theory Mpmc_Queue_Spec
  imports Mpmc_Queue
begin

text \<open>
  The queue is first in, first out for every interleaving in which no node is used twice. The nodes that were ever linked form a list
  \<open>ns\<close> that only grows at its end; head and tail are positions in it that only move forward. The invariant says where the locals of
  each thread point to.
\<close>

section \<open>The invariant\<close>

definition at :: "node_addr list \<Rightarrow> nat \<Rightarrow> node_addr \<Rightarrow> bool" where
  "at ns i a \<longleftrightarrow> i < length ns \<and> ns ! i = a"

definition ready :: "(node_addr \<Rightarrow> 'v node) \<Rightarrow> node_addr \<Rightarrow> 'v \<Rightarrow> bool" where
  "ready c a v \<longleftrightarrow> n_value (c a) = v \<and> \<not> not_null (n_next (c a))"

text \<open>The node of a thread that is not linked yet.\<close>

fun new_node :: "'v q_pc \<Rightarrow> node_addr option" where
  "new_node (Push_construct a v) = Some a"
| "new_node (Push_read_tag a v) = Some a"
| "new_node (Push_store_next a v nx) = Some a"
| "new_node (Push_load_tail a v) = Some a"
| "new_node (Push_load_next a v tail) = Some a"
| "new_node (Push_check a v tail nx) = Some a"
| "new_node (Push_cas a v tail nx) = Some a"
| "new_node (Push_help a v tail nx) = Some a"
| "new_node _ = None"

text \<open>\<open>hi\<close> and \<open>ti\<close> are the positions of head and tail, \<open>E\<close> says that the queue was empty since the thread called \<^verbatim>\<open>pop\<close>.\<close>

fun q_pc_ok :: "node_addr list \<Rightarrow> nat \<Rightarrow> nat \<Rightarrow> (node_addr \<Rightarrow> 'v node) \<Rightarrow> bool \<Rightarrow> 'v q_pc \<Rightarrow> bool" where
  "q_pc_ok ns hi ti c E (Push_read_tag a v) = (n_value (c a) = v)"
| "q_pc_ok ns hi ti c E (Push_store_next a v nx) = (n_value (c a) = v)"
| "q_pc_ok ns hi ti c E (Push_load_tail a v) = ready c a v"
| "q_pc_ok ns hi ti c E (Push_load_next a v tail) = (ready c a v \<and> (\<exists>i\<le>ti. at ns i (address tail)))"
| "q_pc_ok ns hi ti c E (Push_check a v tail nx) =
     (ready c a v \<and> (\<exists>i\<le>ti. at ns i (address tail) \<and> (not_null nx \<longrightarrow> at ns (Suc i) (address nx))))"
| "q_pc_ok ns hi ti c E (Push_cas a v tail nx) = (ready c a v \<and> \<not> not_null nx \<and> (\<exists>i\<le>ti. at ns i (address tail)))"
| "q_pc_ok ns hi ti c E (Push_swing a v tail) = (\<exists>i\<le>ti. at ns i (address tail) \<and> at ns (Suc i) a)"
| "q_pc_ok ns hi ti c E (Push_help a v tail nx) = (ready c a v \<and> (\<exists>i\<le>ti. at ns i (address tail) \<and> at ns (Suc i) (address nx)))"
| "q_pc_ok ns hi ti c E (Pop_load_tail head) = (\<exists>i\<le>hi. at ns i (address head))"
| "q_pc_ok ns hi ti c E (Pop_load_next head tail) = (\<exists>i\<le>hi. \<exists>j\<le>ti. i \<le> j \<and> at ns i (address head) \<and> at ns j (address tail))"
| "q_pc_ok ns hi ti c E (Pop_check head tail nx) =
     (\<exists>i\<le>hi. \<exists>j\<le>ti. i \<le> j \<and> at ns i (address head) \<and> at ns j (address tail) \<and> (if not_null nx then at ns (Suc i) (address nx) else E))"
| "q_pc_ok ns hi ti c E (Pop_help tail nx) = (\<exists>j\<le>ti. at ns j (address tail) \<and> at ns (Suc j) (address nx))"
| "q_pc_ok ns hi ti c E (Pop_value head nx) = (\<exists>i\<le>hi. i < ti \<and> at ns i (address head) \<and> at ns (Suc i) (address nx))"
| "q_pc_ok ns hi ti c E (Pop_cas head nx v) =
     (n_value (c (address nx)) = v \<and> (\<exists>i\<le>hi. i < ti \<and> at ns i (address head) \<and> at ns (Suc i) (address nx)))"
| "q_pc_ok ns hi ti c E _ = True"

definition nexts :: "(node_addr \<Rightarrow> 'v node) \<Rightarrow> node_addr list \<Rightarrow> bool" where
  "nexts c ns \<longleftrightarrow> (\<forall>i<length ns. address (n_next (c (ns ! i))) = (if Suc i < length ns then ns ! Suc i else 0))"

definition q_ok :: "node_addr list \<Rightarrow> nat \<Rightarrow> nat \<Rightarrow> ('v, 't) q_event list \<Rightarrow> ('v, 't) queue \<Rightarrow> bool" where
  "q_ok ns hi ti es s \<longleftrightarrow> distinct ns \<and> set ns \<subseteq> used s \<and> 0 \<notin> used s \<and> nexts (cells s) ns \<and>
     at ns hi (address (q_head s)) \<and> at ns ti (address (q_tail s)) \<and> hi \<le> ti \<and>
     (\<forall>t a. new_node (q_pcs s t) = Some a \<longrightarrow> a \<in> used s \<and> a \<notin> set ns) \<and>
     (\<forall>t t' a. new_node (q_pcs s t) = Some a \<and> new_node (q_pcs s t') = Some a \<longrightarrow> t = t') \<and>
     (\<forall>t. q_pc_ok ns hi ti (cells s) (was_empty t es) (q_pcs s t)) \<and>
     pushed es = took es @ map (\<lambda>a. n_value (cells s a)) (drop (Suc hi) ns)"

lemma q_okD:
  assumes "q_ok ns hi ti es s"
  shows "distinct ns" "set ns \<subseteq> used s" "0 \<notin> used s" "nexts (cells s) ns" "at ns hi (address (q_head s))" "at ns ti (address (q_tail s))"
    "hi \<le> ti" "\<And>t a. new_node (q_pcs s t) = Some a \<Longrightarrow> a \<in> used s \<and> a \<notin> set ns"
    "\<And>t t' a. new_node (q_pcs s t) = Some a \<Longrightarrow> new_node (q_pcs s t') = Some a \<Longrightarrow> t = t'"
    "\<And>t. q_pc_ok ns hi ti (cells s) (was_empty t es) (q_pcs s t)"
    "pushed es = took es @ map (\<lambda>a. n_value (cells s a)) (drop (Suc hi) ns)"
  using assms unfolding q_ok_def by blast+

lemma at_append: "at ns i a \<Longrightarrow> at (ns @ xs) i a"
  by (simp add: at_def nth_append)

lemma at_inj: "distinct ns \<Longrightarrow> at ns i a \<Longrightarrow> at ns j a \<Longrightarrow> i = j"
  by (auto simp: at_def nth_eq_iff_index_eq)

lemma at_in: "at ns i a \<Longrightarrow> a \<in> set ns"
  by (auto simp: at_def)

lemma at_last:
  assumes "at ns i a" "Suc i = length ns"
  shows "last ns = a" "ns \<noteq> []"
proof -
  show "ns \<noteq> []" using assms(2) by auto
  then have "last ns = ns ! i" using assms(2) by (metis last_conv_nth diff_Suc_1)
  then show "last ns = a" using assms(1) by (simp add: at_def)
qed

lemma nexts_at:
  assumes "nexts c ns" "at ns i a" "0 \<notin> set ns"
  shows "not_null (n_next (c a)) \<Longrightarrow> at ns (Suc i) (address (n_next (c a)))" "\<not> not_null (n_next (c a)) \<Longrightarrow> Suc i = length ns"
proof -
  have *: "address (n_next (c a)) = (if Suc i < length ns then ns ! Suc i else 0)" "i < length ns"
    using assms(1,2) by (auto simp: nexts_def at_def)
  then show "at ns (Suc i) (address (n_next (c a)))" if "not_null (n_next (c a))"
    using that by (auto simp: at_def not_null_def split: if_splits)
  show "Suc i = length ns" if "\<not> not_null (n_next (c a))"
  proof (rule ccontr)
    assume "Suc i \<noteq> length ns"
    then have "Suc i < length ns" using *(2) by simp
    then have "ns ! Suc i \<in> set ns" "address (n_next (c a)) = ns ! Suc i" using *(1) by auto
    then show False using that assms(3) by (simp add: not_null_def)
  qed
qed

lemma nexts_linked:
  assumes "nexts c ns" "0 \<notin> set ns" "i < length ns"
  shows "linked c (ns ! i) (drop (Suc i) ns)"
  using assms(3)
proof (induction "length ns - Suc i" arbitrary: i)
  case 0
  then show ?case using assms(1) by (simp add: nexts_def not_null_def)
next
  case (Suc n)
  then have lt: "Suc i < length ns" by simp
  then have "address (n_next (c (ns ! i))) = ns ! Suc i" using assms(1) by (simp add: nexts_def)
  moreover have "ns ! Suc i \<noteq> 0" using assms(2) lt nth_mem by metis
  moreover have "linked c (ns ! Suc i) (drop (Suc (Suc i)) ns)" using Suc lt by simp
  ultimately show ?case using Cons_nth_drop_Suc [OF lt] by (metis linked.simps(2) not_null_def)
qed

lemma q_ok_contents:
  assumes "q_ok ns hi ti es s"
  shows "contents s (map (\<lambda>a. n_value (cells s a)) (drop (Suc hi) ns))"
  using nexts_linked [OF q_okD(4) [OF assms], of hi] q_okD(2,3,5) [OF assms] unfolding contents_def at_def by auto

section \<open>Steps\<close>

lemma q_pc_ok_mono:
  assumes "q_pc_ok ns hi ti c E pc" "hi \<le> hi'" "ti \<le> ti'" "\<And>a. new_node pc = Some a \<Longrightarrow> c' a = c a"
    "\<And>a. a \<in> set ns \<Longrightarrow> n_value (c' a) = n_value (c a)" "E \<Longrightarrow> E'"
  shows "q_pc_ok (ns @ xs) hi' ti' c' E' pc"
proof -
  note up = at_append [of ns _ _ xs] order_trans [OF _ assms(2)] order_trans [OF _ assms(3)] order_less_le_trans [OF _ assms(3)]
  have rdy: "ready c' a v" if "ready c a v" "new_node pc = Some a" for a v
    using that assms(4) [of a] by (simp add: ready_def)
  have E: "if b then at (ns @ xs) i a else E'" if "if b then at ns i a else E" for b i a
    using that up assms(6) by (auto split: if_splits)
  show ?thesis
  proof (cases pc)
    case (Pop_cas head nx v)
    then have "n_value (c' (address nx)) = v" using assms(1,5) at_in by auto
    then show ?thesis using assms(1) up unfolding Pop_cas q_pc_ok.simps by blast
  qed (use assms(1,4) rdy E up in \<open>simp only: q_pc_ok.simps new_node.simps option.inject; blast\<close>)+
qed

text \<open>The shape of all steps: the thread \<open>t\<close> moves to \<open>pc\<close>, nodes \<open>xs\<close> are linked, and the others keep their positions.\<close>

lemma q_okI:
  assumes ok: "q_ok ns hi ti es s" and "q_pcs s1 = q_pcs s" "distinct (ns @ xs)" "set xs \<subseteq> used s1" "0 \<notin> used s1" "used s \<subseteq> used s1"
    "nexts (cells s1) (ns @ xs)" "at (ns @ xs) hi' (address (q_head s1))" "at (ns @ xs) ti' (address (q_tail s1))" "hi' \<le> ti'" "hi \<le> hi'" "ti \<le> ti'"
    "\<And>a. a \<in> set ns \<Longrightarrow> n_value (cells s1 a) = n_value (cells s a)"
    "\<And>t' a. t' \<noteq> t \<Longrightarrow> new_node (q_pcs s t') = Some a \<Longrightarrow> cells s1 a = cells s a \<and> a \<notin> set xs \<and> new_node pc \<noteq> Some a"
    "\<And>a. new_node pc = Some a \<Longrightarrow> a \<in> used s1 \<and> a \<notin> set (ns @ xs)"
    "q_pc_ok (ns @ xs) hi' ti' (cells s1) (was_empty t (e # es)) pc" "\<And>t'. t' \<noteq> t \<Longrightarrow> e \<noteq> Called_pop t'"
    "pushed (e # es) = took (e # es) @ map (\<lambda>a. n_value (cells s1 a)) (drop (Suc hi') (ns @ xs))"
  shows "q_ok (ns @ xs) hi' ti' (e # es) (at_pc s1 t pc)"
proof -
  note o = q_okD [OF ok]
  have "a \<in> used s1 \<and> a \<notin> set (ns @ xs)" if "new_node (q_pcs (at_pc s1 t pc) t') = Some a" for t' a
    using that assms(2,6,14,15) o(8) [of t' a] by (cases "t' = t") (auto simp: at_pc_def)
  moreover have "t1 = t2" if "new_node (q_pcs (at_pc s1 t pc) t1) = Some a" "new_node (q_pcs (at_pc s1 t pc) t2) = Some a" for t1 t2 a
    using that assms(2,14) o(9) [of t1 a t2] by (cases "t1 = t"; cases "t2 = t") (auto simp: at_pc_def)
  moreover have "q_pc_ok (ns @ xs) hi' ti' (cells s1) (was_empty t' (e # es)) (q_pcs (at_pc s1 t pc) t')" for t'
  proof (cases "t' = t")
    case False
    have "q_pc_ok (ns @ xs) hi' ti' (cells s1) (was_empty t' (e # es)) (q_pcs s t')"
      by (rule q_pc_ok_mono [OF o(10) assms(11,12)]) (use False assms(13,14,17) in auto)
    then show ?thesis using False assms(2) by (simp add: at_pc_def)
  qed (use assms(16) in \<open>simp add: at_pc_def\<close>)
  moreover have "set (ns @ xs) \<subseteq> used s1" using o(2) assms(4,6) by auto
  moreover have "used (at_pc s1 t pc) = used s1" "cells (at_pc s1 t pc) = cells s1" "q_head (at_pc s1 t pc) = q_head s1"
      "q_tail (at_pc s1 t pc) = q_tail s1" by (simp_all add: at_pc_def)
  ultimately show ?thesis unfolding q_ok_def using assms(3,5,7-10,18) by metis
qed

text \<open>Steps that only move a thread, and steps that move the tail.\<close>

lemma q_ok_moves:
  assumes "q_ok ns hi ti es s" "new_node pc = new_node (q_pcs s t)" "q_pc_ok ns hi ti (cells s) (was_empty t (e # es)) pc"
    "\<And>t'. t' \<noteq> t \<Longrightarrow> e \<noteq> Called_pop t'" "pushed (e # es) = pushed es" "took (e # es) = took es"
  shows "q_ok ns hi ti (e # es) (at_pc s t pc)"
proof -
  note o = q_okD [OF assms(1)]
  have "new_node pc \<noteq> Some a" if "t' \<noteq> t" "new_node (q_pcs s t') = Some a" for t' a
    using that o(9) [of t' a t] assms(2) by auto
  then have "q_ok (ns @ []) hi ti (e # es) (at_pc s t pc)"
    using o(1-8,11) assms(2-6) by (intro q_okI [OF assms(1)]) auto
  then show ?thesis by simp
qed

lemma q_ok_tail:
  assumes ok: "q_ok ns hi ti es s" and "j \<le> ti" "at ns j (address tail)" "at ns (Suc j) a" "new_node pc = new_node (q_pcs s t)"
    "\<And>ti'. ti \<le> ti' \<Longrightarrow> q_pc_ok ns hi ti' (cells s) (was_empty t (Quiet # es)) pc"
  shows "\<exists>ti'. q_ok ns hi ti' (Quiet # es) (at_pc (s\<lparr> q_tail := fst (cas_helper (q_tail s) tail (tagged a x)) \<rparr>) t pc)"
proof (cases "q_tail s = tail")
  case False
  then have "q_ok ns hi ti (Quiet # es) (at_pc s t pc)" using assms(5) assms(6) [OF order_refl] by (intro q_ok_moves [OF ok]) auto
  then show ?thesis using False by (auto simp: cas_helper_eq)
next
  case True
  note o = q_okD [OF ok]
  have j: "j = ti" using at_inj [OF o(1) assms(3)] o(6) True by simp
  have "new_node pc \<noteq> Some a" if "t' \<noteq> t" "new_node (q_pcs s t') = Some a" for t' a
    using that o(9) [of t' a t] assms(5) by auto
  then have "q_ok (ns @ []) hi (Suc ti) (Quiet # es) (at_pc (s\<lparr> q_tail := tagged a x \<rparr>) t pc)"
    using o(1-8,11) assms(4,5) assms(6) [of "Suc ti"] j by (intro q_okI [OF ok]) (auto simp: tagged_def)
  then show ?thesis using True by (auto simp: cas_helper_eq)
qed

definition q_inv :: "('v, 't) q_event list \<Rightarrow> ('v, 't) queue \<Rightarrow> bool" where
  "q_inv es s \<longleftrightarrow> (\<exists>ns hi ti. q_ok ns hi ti es s)"

lemma q_invI [intro]: "q_ok ns hi ti es s \<Longrightarrow> q_inv es s"
  by (auto simp: q_inv_def)

lemma q_ok_null: "q_ok ns hi ti es s \<Longrightarrow> 0 \<notin> set ns"
  using q_okD(2,3) by blast

text \<open>A write to the node of the thread itself.\<close>

lemma q_ok_writes:
  assumes ok: "q_ok ns hi ti es s" and "new_node (q_pcs s t) = Some a" "new_node pc = Some a"
    "q_pc_ok ns hi ti ((cells s)(a := n)) (was_empty t (Quiet # es)) pc"
  shows "q_ok ns hi ti (Quiet # es) (at_pc (s\<lparr> cells := (cells s)(a := n) \<rparr>) t pc)"
proof -
  note o = q_okD [OF ok]
  have a: "a \<in> used s" "a \<notin> set ns" using o(8) [OF assms(2)] by auto
  have same: "((cells s)(a := n)) b = cells s b" if "b \<in> set ns" for b using that a by auto
  have "nexts ((cells s)(a := n)) ns" using o(4) a(2) nth_mem [of _ ns] unfolding nexts_def by (metis fun_upd_other)
  moreover have "cells s b = ((cells s)(a := n)) b \<and> new_node pc \<noteq> Some b" if "t' \<noteq> t" "new_node (q_pcs s t') = Some b" for t' b
    using that o(9) [of t' b t] assms(2,3) by auto
  moreover have "map (\<lambda>b. n_value (((cells s)(a := n)) b)) (drop (Suc hi) ns) = map (\<lambda>b. n_value (cells s b)) (drop (Suc hi) ns)"
    using same by (intro map_cong refl) (metis in_set_dropD)
  ultimately have "q_ok (ns @ []) hi ti (Quiet # es) (at_pc (s\<lparr> cells := (cells s)(a := n) \<rparr>) t pc)"
    using o(1-3,5-7,11) a assms(3,4) same by (intro q_okI [OF ok]) auto
  then show ?thesis by simp
qed

text \<open>Linking a node behind the last one.\<close>

lemma nexts_append:
  assumes "nexts c ns" "distinct (ns @ [a])" "ns \<noteq> []" "address (n_next (c a)) = 0"
  shows "nexts (c(last ns := (c (last ns))\<lparr> n_next := tagged a x \<rparr>)) (ns @ [a])"
  unfolding nexts_def
proof (intro allI impI)
  let ?c = "c(last ns := (c (last ns))\<lparr> n_next := tagged a x \<rparr>)"
  fix k assume "k < length (ns @ [a])"
  then consider "k = length ns" | "Suc k = length ns" | "Suc k < length ns" by force
  then show "address (n_next (?c ((ns @ [a]) ! k))) = (if Suc k < length (ns @ [a]) then (ns @ [a]) ! Suc k else 0)"
  proof cases
    case 1
    then show ?thesis using assms(2-4) by auto
  next
    case 2
    then have "ns ! k = last ns" using assms(3) by (simp add: last_conv_nth flip: 2)
    then show ?thesis using 2 by (simp add: nth_append tagged_def)
  next
    case 3
    then have "ns ! k \<noteq> last ns" using assms(2,3) by (auto simp: last_conv_nth nth_eq_iff_index_eq)
    then show ?thesis using 3 assms(1) by (simp add: nexts_def nth_append)
  qed
qed

text \<open>The exchange that links a node: the node it is appended to is the last one.\<close>

lemma q_ok_links:
  assumes ok: "q_ok ns hi ti es s" and pc: "q_pcs s t = Push_cas a v tail nx" and cas: "n_next (cells s (address tail)) = nx"
  shows "q_ok (ns @ [a]) hi ti (Linked t v # es)
     (at_pc (s\<lparr> cells := (cells s)(address tail := (cells s (address tail))\<lparr> n_next := tagged a x \<rparr>) \<rparr>) t (Push_swing a v tail))"
proof -
  note o = q_okD [OF ok]
  let ?l = "address tail" and ?c = "(cells s)(address tail := (cells s (address tail))\<lparr> n_next := tagged a x \<rparr>)"
  obtain i where rdy: "ready (cells s) a v" "\<not> not_null nx" and i: "i \<le> ti" "at ns i ?l" using o(10) [of t] pc by auto
  have a: "a \<in> used s" "a \<notin> set ns" using o(8) [of t a] pc by auto
  have last: "Suc i = length ns" using nexts_at(2) [OF o(4) i(2) q_ok_null [OF ok]] cas rdy(2) by simp
  have ns: "ns ! i = ?l" using i(2) by (simp add: at_def)
  have la: "?l \<noteq> a" using at_in [OF i(2)] a(2) by auto
  have "nexts ?c (ns @ [a])"
    using at_last [OF i(2) last] nexts_append [OF o(4), of a x] rdy(1) a(2) o(1) by (simp add: ready_def not_null_def)
  moreover have "?c b = cells s b \<and> b \<notin> set [a] \<and> new_node (Push_swing a v tail) \<noteq> Some b" if "t' \<noteq> t" "new_node (q_pcs s t') = Some b" for t' b
    using that o(8) [of t' b] o(9) [of t' b t] pc at_in [OF i(2)] by auto
  moreover have "q_pc_ok (ns @ [a]) hi ti ?c E (Push_swing a v tail)" for E
    using i last at_append [OF i(2), of "[a]"] by (auto simp: at_def intro!: exI [of _ i])
  moreover have "pushed (Linked t v # es) = took (Linked t v # es) @ map (\<lambda>b. n_value (?c b)) (drop (Suc hi) (ns @ [a]))"
    using o(5,11) rdy(1) la by (auto simp: at_def ready_def)
  ultimately show ?thesis
    using o(1-3,6,7) a at_append [OF o(5)] at_append [OF o(6)] by (intro q_okI [OF ok]) auto
qed

lemma q_ok_push:
  assumes ok: "q_ok ns hi ti es s" and step: "push_step t s (q_pcs s t) = Some (s', pc, e)"
  shows "q_inv (e # es) (at_pc s' t pc)"
proof -
  note o = q_okD [OF ok] and here = q_okD(10) [OF ok, of t]
  have moves: "q_inv (e # es) (at_pc s' t pc)"
    if "s' = s" "e = Quiet" "new_node pc = new_node (q_pcs s t)" "q_pc_ok ns hi ti (cells s) (was_empty t (Quiet # es)) pc"
    using q_ok_moves [OF ok that(3,4)] that by auto
  show ?thesis
  proof (cases "q_pcs s t")
    case (Push_construct a v)
    then show ?thesis using step q_ok_writes [OF ok, of t a "Push_read_tag a v" "\<lparr> n_value = v, n_next = tagged 0 0 \<rparr>"] by auto
  next
    case (Push_read_tag a v)
    show ?thesis by (rule moves) (use Push_read_tag step here in auto)
  next
    case (Push_store_next a v nx)
    then show ?thesis
      using step here q_ok_writes [OF ok, of t a "Push_load_tail a v" "(cells s a)\<lparr> n_next := tagged 0 (tag nx + 1) \<rparr>"]
      by (auto simp: ready_def tagged_def not_null_def)
  next
    case (Push_load_tail a v)
    show ?thesis by (rule moves) (use Push_load_tail step here o(6) in auto)
  next
    case (Push_load_next a v tail)
    show ?thesis by (rule moves; use Push_load_next step here nexts_at(1) [OF o(4) _ q_ok_null [OF ok]] in \<open>auto; blast\<close>)
  next
    case (Push_check a v tail nx)
    show ?thesis by (rule moves) (use Push_check step here in \<open>auto split: if_splits\<close>)
  next
    case (Push_cas a v tail nx)
    show ?thesis
    proof (cases "n_next (cells s (address tail)) = nx")
      case True
      then show ?thesis using step Push_cas q_ok_links [OF ok Push_cas True] by (auto simp: cas_helper_eq)
    next
      case False
      show ?thesis by (rule moves) (use False Push_cas step here in \<open>auto simp: cas_helper_eq\<close>)
    qed
  next
    case (Push_swing a v tail)
    then obtain i where "i \<le> ti" "at ns i (address tail)" "at ns (Suc i) a" using here by auto
    then show ?thesis using step Push_swing q_ok_tail [OF ok, of i tail a Q_idle t "tag tail + 1"] by auto
  next
    case (Push_help a v tail nx)
    then obtain i where "i \<le> ti" "at ns i (address tail)" "at ns (Suc i) (address nx)" using here by auto
    then show ?thesis using step here Push_help q_ok_tail [OF ok, of i tail "address nx" "Push_load_tail a v" t "tag tail + 1"] by auto
  qed (use step in simp_all)
qed

text \<open>The exchange that removes a value: the head moves to the next node, whose value is the first one of the queue.\<close>

lemma q_ok_takes:
  assumes ok: "q_ok ns hi ti es s" and pc: "q_pcs s t = Pop_cas (q_head s) nx v"
  shows "q_ok ns (Suc hi) ti (Took t v # es) (at_pc (s\<lparr> q_head := tagged (address nx) x \<rparr>) t (Pop_free (q_head s) v))"
proof -
  note o = q_okD [OF ok]
  obtain i where v: "n_value (cells s (address nx)) = v" and i: "i < ti" "at ns i (address (q_head s))" "at ns (Suc i) (address nx)"
    using o(10) [of t] pc by auto
  then have [simp]: "i = hi" using at_inj [OF o(1) i(2) o(5)] by simp
  have "drop (Suc hi) ns = address nx # drop (Suc (Suc hi)) ns"
    using i(3) Cons_nth_drop_Suc [of "Suc hi" ns] by (simp add: at_def)
  then have "pushed (Took t v # es) = took (Took t v # es) @ map (\<lambda>a. n_value (cells s a)) (drop (Suc (Suc hi)) ns)"
    using o(11) v by simp
  then have "q_ok (ns @ []) (Suc hi) ti (Took t v # es) (at_pc (s\<lparr> q_head := tagged (address nx) x \<rparr>) t (Pop_free (q_head s) v))"
    using o(1-4,6-8) i by (intro q_okI [OF ok]) (auto simp: tagged_def)
  then show ?thesis by simp
qed

text \<open>The queue is empty when the successor of a former head is null.\<close>

lemma q_ok_empty:
  assumes ok: "q_ok ns hi ti es s" and "i \<le> hi" "at ns i a" "\<not> not_null (n_next (cells s a))"
  shows "length (pushed es) = length (took es)"
proof -
  note o = q_okD [OF ok]
  have "Suc i = length ns" by (rule nexts_at(2) [OF o(4) assms(3) q_ok_null [OF ok] assms(4)])
  then show ?thesis using o(5,11) assms(2) by (simp add: at_def)
qed

lemma q_ok_pop:
  assumes ok: "q_ok ns hi ti es s" and step: "pop_step t s (q_pcs s t) = Some (s', pc, e)"
  shows "q_inv (e # es) (at_pc s' t pc)"
proof -
  note o = q_okD [OF ok] and here = q_okD(10) [OF ok, of t]
  have moves: "q_inv (e # es) (at_pc s' t pc)"
    if "s' = s" "e = Quiet \<or> pc = Q_idle \<and> e = Returned t None" "new_node pc = new_node (q_pcs s t)"
      "q_pc_ok ns hi ti (cells s) (was_empty t (Quiet # es)) pc"
    using q_ok_moves [OF ok that(3), of e] that by auto
  show ?thesis
  proof (cases "q_pcs s t")
    case Pop_load_head
    show ?thesis by (rule moves) (use Pop_load_head step o(5) in auto)
  next
    case (Pop_load_tail head)
    show ?thesis by (rule moves; use Pop_load_tail step here o(6,7) in \<open>auto; meson order_trans order_refl\<close>)
  next
    case (Pop_load_next head tail)
    then obtain i j where ij: "i \<le> hi" "j \<le> ti" "i \<le> j" "at ns i (address head)" "at ns j (address tail)" using here by auto
    let ?nx = "n_next (cells s (address head))"
    have "if not_null ?nx then at ns (Suc i) (address ?nx) else was_empty t (Quiet # es)"
      using nexts_at(1) [OF o(4) ij(4) q_ok_null [OF ok]] q_ok_empty [OF ok ij(1,4)] by auto
    then have ok': "q_pc_ok ns hi ti (cells s) (was_empty t (Quiet # es)) (Pop_check head tail ?nx)"
      unfolding q_pc_ok.simps using ij by blast
    have "s' = s" "pc = Pop_check head tail ?nx" "e = Quiet" using Pop_load_next step by auto
    then show ?thesis using Pop_load_next ok' moves by simp
  next
    case (Pop_check head tail nx)
    then obtain i j where ij: "i \<le> hi" "j \<le> ti" "i \<le> j" "at ns i (address head)" "at ns j (address tail)"
      "not_null nx \<longrightarrow> at ns (Suc i) (address nx)" using here by (auto split: if_splits)
    have "i = j" if "address head = address tail" using that at_inj [OF o(1) ij(4)] ij(5) by simp
    moreover have "i < ti" if "address head \<noteq> address tail" using that ij by (auto simp: at_def intro: le_neq_implies_less)
    ultimately show ?thesis using Pop_check step ij by (intro moves) (auto split: if_splits)
  next
    case (Pop_help tail nx)
    then obtain j where "j \<le> ti" "at ns j (address tail)" "at ns (Suc j) (address nx)" using here by auto
    then show ?thesis using step Pop_help q_ok_tail [OF ok, of j tail "address nx" Pop_load_head t "tag tail + 1"] by auto
  next
    case (Pop_value head nx)
    show ?thesis by (rule moves) (use Pop_value step here in auto)
  next
    case (Pop_cas head nx v)
    show ?thesis
    proof (cases "q_head s = head")
      case True
      then show ?thesis using Pop_cas step q_ok_takes [OF ok, of t nx v "tag head + 1"] by (auto simp: cas_helper_eq)
    next
      case False
      show ?thesis by (rule moves) (use False Pop_cas step in \<open>auto simp: cas_helper_eq\<close>)
    qed
  next
    case (Pop_free head v)
    then have "q_ok ns hi ti (Returned t (Some v) # es) (at_pc (s\<lparr> live := live s - {address head} \<rparr>) t Q_idle)"
      using q_okI [OF ok, of "s\<lparr> live := live s - {address head} \<rparr>" "[]" hi ti t Q_idle "Returned t (Some v)"] o by auto
    then show ?thesis using step Pop_free by auto
  qed (use step in simp_all)
qed

section \<open>First in, first out\<close>

lemma q_ok_init: "dummy \<noteq> 0 \<Longrightarrow> q_ok [dummy] 0 0 [] (queue_init dummy mem)"
  by (auto simp: q_ok_def queue_init_def nexts_def at_def tagged_def)

lemma q_ok_allocated:
  assumes ok: "q_ok ns hi ti es s" and "new_node (q_pcs s t) = None" "fresh s a"
  shows "q_ok ns hi ti (Quiet # es) (at_pc (s\<lparr> live := insert a (live s), used := insert a (used s) \<rparr>) t (Push_construct a v))"
proof -
  note o = q_okD [OF ok]
  have a: "a \<notin> used s" "a \<noteq> 0" "a \<notin> set ns" using assms(3) o(2) by (auto simp: fresh_def)
  have "new_node (q_pcs s t') \<noteq> Some a" for t' using o(8) [of t' a] a by blast
  then have "q_ok (ns @ []) hi ti (Quiet # es) (at_pc (s\<lparr> live := insert a (live s), used := insert a (used s) \<rparr>) t (Push_construct a v))"
    using o(1-7,11) a by (intro q_okI [OF ok]) auto
  then show ?thesis by simp
qed

lemma q_inv_step:
  assumes "q_step fresh s e s'" "q_inv es s"
  shows "q_inv (e # es) s'"
proof -
  obtain ns hi ti where ok: "q_ok ns hi ti es s" using assms(2) by (auto simp: q_inv_def)
  have moves: "q_inv (e # es) (at_pc s t pc)"
    if "new_node (q_pcs s t) = None" "new_node pc = None" "\<And>E. q_pc_ok ns hi ti (cells s) E pc" "e = Quiet \<or> e = Called_pop t" for t pc
    using q_ok_moves [OF ok, of pc t e] that by auto
  show ?thesis
    using assms(1)
  proof (cases rule: q_step.cases)
    case (node_allocated t v a)
    then show ?thesis using q_ok_allocated [OF ok, of t a v] by auto
  next
    case (in_push t s1 pc)
    then show ?thesis using q_ok_push [OF ok] by simp
  next
    case (in_pop t s1 pc)
    then show ?thesis using q_ok_pop [OF ok] by simp
  qed (use moves in auto)
qed

lemma q_reach_inv: "q_reach fresh es s \<Longrightarrow> q_inv es s"
proof (induction rule: q_reach.induct)
  case (q_reach_init dummy mem)
  then show ?case using q_ok_init by blast
next
  case (q_reach_step es s e s')
  then show ?case using q_inv_step by blast
qed

lemma pop_returns_empty:
  assumes "q_step fresh s (Returned t None) s'"
  shows "\<exists>head tail nx. q_pcs s t = Pop_check head tail nx \<and> \<not> not_null nx"
  using assms
proof (cases rule: q_step.cases)
  case (in_push t' s1 pc)
  then show ?thesis by (cases "q_pcs s t'") (auto simp: Let_def split: if_splits prod.splits)
next
  case (in_pop t' s1 pc)
  then show ?thesis by (cases "q_pcs s t'") (auto simp: Let_def split: if_splits prod.splits)
qed

text \<open>C5: For every number of threads and every interleaving of their pushes and pops, when no node is used twice: the values taken so far, in the
  order in which they were taken, followed by the contents of the queue, are the values pushed so far in the order of the
  exchanges that linked them, so that none is lost, duplicated or overtaken; and a \<^verbatim>\<open>pop\<close> that is about to
  report an empty queue was running while the queue was empty.\<close>

theorem queue_first_in_first_out:
  assumes "q_reach fresh es s"
  shows "\<exists>vs. contents s vs \<and> (\<forall>ws. contents s ws \<longrightarrow> ws = vs) \<and> pushed es = took es @ vs \<and>
    (\<forall>t s'. q_step fresh s (Returned t None) s' \<longrightarrow> was_empty t es)"
proof -
  obtain ns hi ti where ok: "q_ok ns hi ti es s" using q_reach_inv [OF assms] by (auto simp: q_inv_def)
  note c = q_ok_contents [OF ok]
  have "was_empty t es" if "q_step fresh s (Returned t None) s'" for t s'
    using pop_returns_empty [OF that] q_okD(10) [OF ok, of t] by auto
  then show ?thesis using c contents_unique [OF _ c] q_okD(11) [OF ok] by blast
qed

text \<open>Two threads that push one value each, one of them asleep between its loads and its exchange, and a pop.\<close>

definition interleaved :: "(nat, bool) q_choice list" where
  "interleaved = [Push_of True 7, Allocated True 2, Run True, Run True, Run True, Run True, Run True, Run True] @ push_alone False 9 3 @
     [Run True, Run True, Run True, Run True, Run True, Run True] @ pop_alone False"

lemma interleaved_run:
  "\<exists>es s. q_run fresh interleaved ([], queue_init 1 blank) = Some (es, s) \<and> pushed es = [9, 7] \<and> took es = [9]"
  by (simp add: interleaved_def q_run_simps)

theorem queue_first_in_first_out_witness:
  "\<exists>es s. q_run fresh interleaved ([], queue_init 1 blank) = Some (es, s) \<and> pushed es = [9, 7] \<and> took es = [9] \<and> contents s [7]"
proof -
  obtain es s where run: "q_run fresh interleaved ([], queue_init 1 blank) = Some (es, s)" and ev: "pushed es = [9, 7]" "took es = [9]"
    using interleaved_run by blast
  have "q_reach fresh es s" by (rule q_run_reach [OF run q_reach_init]) simp
  from queue_first_in_first_out [OF this] have "contents s [7]" using ev by auto
  then show ?thesis using run ev by blast
qed

section \<open>Without synchronisation\<close>

text \<open>The nodes in use are those of the queue, from the head on; addresses of popped nodes may come back.\<close>

definition alone_ok :: "node_addr list \<Rightarrow> nat \<Rightarrow> ('v, 't) queue \<Rightarrow> bool" where
  "alone_ok ns ti s \<longleftrightarrow> distinct ns \<and> 0 \<notin> set ns \<and> nexts (cells s) ns \<and> at ns 0 (address (q_head s)) \<and> at ns ti (address (q_tail s)) \<and> live s = set ns"

definition alone :: "('v, 't) queue \<Rightarrow> 'v list \<Rightarrow> bool" where
  "alone s vs \<longleftrightarrow> (\<exists>ns ti. alone_ok ns ti s \<and> vs = map (\<lambda>a. n_value (cells s a)) (tl ns))"

lemma alone_contents:
  assumes "alone s vs"
  shows "contents s vs"
proof -
  obtain ns ti where ok: "alone_ok ns ti s" "vs = map (\<lambda>a. n_value (cells s a)) (tl ns)" using assms by (auto simp: alone_def)
  then have "linked (cells s) (ns ! 0) (drop (Suc 0) ns)" by (intro nexts_linked) (auto simp: alone_ok_def at_def)
  then show ?thesis using ok by (auto simp: contents_def alone_ok_def at_def drop_Suc)
qed

lemma alone_init: "dummy \<noteq> 0 \<Longrightarrow> alone (queue_init dummy mem) []"
  unfolding alone_def alone_ok_def by (rule exI [of _ "[dummy]"], rule exI [of _ 0]) (simp add: queue_init_def nexts_def at_def tagged_def)

text \<open>The loop of a push moves the tail to the last node and links the new one to it.\<close>

lemma push_loop_links:
  assumes "distinct (ns @ [a])" "0 \<notin> set ns" "nexts (cells s) ns" "at ns ti (address (q_tail s))" "address (n_next (cells s a)) = 0"
  shows "\<exists>s'. unsynchronized_push_loop a s = Some s' \<and> q_head s' = q_head s \<and> live s' = live s \<and> nexts (cells s') (ns @ [a]) \<and>
    address (q_tail s') = a \<and> (\<forall>b. n_value (cells s' b) = n_value (cells s b))"
  using assms
proof (induction "length ns - ti" arbitrary: ti s rule: less_induct)
  case less
  let ?tail = "q_tail s" and ?nx = "n_next (cells s (address (q_tail s)))"
  note nx = nexts_at [OF less.prems(3,4,2)]
  show ?case
  proof (cases "not_null ?nx")
    case True
    let ?s = "s\<lparr> q_tail := tagged (address ?nx) (get_next_tag ?tail) \<rparr>"
    have at: "at ns (Suc ti) (address (q_tail ?s))" using nx(1) [OF True] by (simp add: tagged_def)
    then have "length ns - Suc ti < length ns - ti" by (auto simp: at_def)
    from less.hyps [OF this, of ?s] at less.prems show ?thesis
      using True by (subst unsynchronized_push_loop.simps) (simp add: Let_def)
  next
    case False
    show ?thesis
      using False at_last [OF less.prems(4) nx(2) [OF False]] nexts_append [OF less.prems(3,1) _ less.prems(5), of "get_next_tag ?nx"]
      by (subst unsynchronized_push_loop.simps) (auto simp: Let_def tagged_def)
  qed
qed

lemma nexts_tl:
  assumes "nexts c (a # ns)"
  shows "nexts c ns"
  unfolding nexts_def
proof (intro allI impI)
  fix i assume "i < length ns"
  then show "address (n_next (c (ns ! i))) = (if Suc i < length ns then ns ! Suc i else 0)"
    using assms spec [of _ "Suc i"] by (auto simp: nexts_def)
qed

lemma unsynchronized_push_alone:
  assumes "alone s vs" "recycling s a"
  shows "\<exists>s'. unsynchronized_push a v s = Some s' \<and> alone s' (vs @ [v])"
proof -
  obtain ns ti where ok: "alone_ok ns ti s" and vs: "vs = map (\<lambda>a. n_value (cells s a)) (tl ns)" using assms(1) by (auto simp: alone_def)
  let ?s = "create_data_node a v s"
  have a: "a \<notin> set ns" "a \<noteq> 0" "ns \<noteq> []" using assms(2) ok by (auto simp: recycling_def alone_ok_def at_def)
  have "nexts (cells ?s) ns" using ok a(1) nth_mem [of _ ns] unfolding nexts_def alone_ok_def create_data_node_def by auto
  moreover have "at ns ti (address (q_tail ?s))" "address (n_next (cells ?s a)) = 0" "distinct (ns @ [a])" "0 \<notin> set ns"
    using ok a by (auto simp: alone_ok_def create_data_node_def tagged_def)
  ultimately obtain s' where s': "unsynchronized_push a v s = Some s'" "q_head s' = q_head ?s" "live s' = live ?s" "nexts (cells s') (ns @ [a])"
      "address (q_tail s') = a" and val: "\<And>b. n_value (cells s' b) = n_value (cells ?s b)"
    using push_loop_links [of ns a ?s ti] by (auto simp: unsynchronized_push_def)
  have "alone_ok (ns @ [a]) (length ns) s'"
    using ok s' a by (auto simp: alone_ok_def create_data_node_def at_def nth_append)
  moreover have "map (\<lambda>b. n_value (cells s' b)) (tl (ns @ [a])) = vs @ [v]"
    using a vs by (auto simp: val create_data_node_def dest: list.set_sel(2))
  ultimately show ?thesis using s'(1) unfolding alone_def by metis
qed

lemma unsynchronized_pop_alone:
  assumes "alone s vs"
  shows "\<exists>s'. (case vs of [] \<Rightarrow> unsynchronized_pop s = Some (None, s') \<and> alone s' [] | v # ws \<Rightarrow> unsynchronized_pop s = Some (Some v, s') \<and> alone s' ws)"
proof -
  obtain ns ti where ok: "alone_ok ns ti s" and vs: "vs = map (\<lambda>a. n_value (cells s a)) (tl ns)" using assms by (auto simp: alone_def)
  then obtain h where ns: "ns = h # tl ns" "address (q_head s) = h" by (cases ns) (auto simp: alone_ok_def at_def)
  note nx = nexts_at [of "cells s" ns 0 h]
  have n: "nexts (cells s) ns" "at ns 0 h" "0 \<notin> set ns" using ok ns(2) by (auto simp: alone_ok_def)
  show ?thesis
  proof (cases "tl ns")
    case Nil
    then have "ti = 0" "\<not> not_null (n_next (cells s h))" using ok ns nx(1) [OF n] by (auto simp: alone_ok_def at_def)
    then have "unsynchronized_pop s = Some (None, s)"
      using ok ns Nil by (subst unsynchronized_pop.simps) (auto simp: Let_def alone_ok_def at_def)
    then show ?thesis using assms Nil vs by auto
  next
    case (Cons b bs)
    then have nb: "not_null (n_next (cells s h))" "address (n_next (cells s h)) = b"
      using nx(1,2) [OF n] ns by (auto simp: at_def)
    have step: "\<exists>s'. unsynchronized_pop s1 = Some (Some (n_value (cells s b)), s') \<and> alone s' (map (\<lambda>a. n_value (cells s a)) bs)"
      if "q_head s1 = q_head s" "cells s1 = cells s" "live s1 = live s" "at ns (Suc j) (address (q_tail s1))" for s1 j
    proof -
      let ?s = "s1\<lparr> q_head := tagged b (get_next_tag (q_head s1)), live := live s1 - {h} \<rparr>"
      have "address (q_head s1) \<noteq> address (q_tail s1)"
        using that(1,4) ok ns at_inj [OF _ that(4), of 0] by (auto simp: alone_ok_def at_def)
      then have "unsynchronized_pop s1 = Some (Some (n_value (cells s b)), ?s)"
        using that nb ns(2) by (subst unsynchronized_pop.simps) (simp add: Let_def)
      moreover have "alone_ok (b # bs) j ?s"
        using ok that ns Cons nexts_tl [of "cells s" h "b # bs"] by (auto simp: alone_ok_def at_def tagged_def)
      ultimately show ?thesis using that(2) unfolding alone_def by force
    qed
    have "\<exists>s'. unsynchronized_pop s = Some (Some (n_value (cells s b)), s') \<and> alone s' (map (\<lambda>a. n_value (cells s a)) bs)"
    proof (cases ti)
      case (Suc j)
      then show ?thesis using step [of s j] ok by (simp add: alone_ok_def)
    next
      case 0
      let ?s = "s\<lparr> q_tail := tagged b (get_next_tag (q_tail s)) \<rparr>"
      have "unsynchronized_pop s = unsynchronized_pop ?s"
        using 0 ok nb ns by (subst unsynchronized_pop.simps) (auto simp: Let_def alone_ok_def at_def)
      moreover have "at ns (Suc 0) (address (q_tail ?s))" using ns(1) unfolding Cons by (auto simp: at_def tagged_def)
      ultimately show ?thesis using step [of ?s 0] by simp
    qed
    then show ?thesis using vs Cons by auto
  qed
qed

lemma queue_destroy_alone:
  assumes "alone s vs"
  shows "\<exists>s'. queue_destroy s = Some s' \<and> live s' = {}"
  using assms
proof (induction vs arbitrary: s)
  case Nil
  then obtain s' where s': "unsynchronized_pop s = Some (None, s')" "alone s' []" using unsynchronized_pop_alone [OF Nil] by auto
  moreover from this(2) obtain ns ti where "alone_ok ns ti s'" "tl ns = []" by (auto simp: alone_def)
  then have "live s' = {address (q_head s')}" by (cases ns) (auto simp: alone_ok_def at_def)
  ultimately show ?case by (subst queue_destroy.simps) simp
next
  case (Cons v vs)
  then obtain s' where "unsynchronized_pop s = Some (Some v, s')" "alone s' vs" using unsynchronized_pop_alone [OF Cons.prems] by auto
  then show ?case using Cons.IH by (subst queue_destroy.simps) simp
qed

text \<open>Without other threads, also when addresses of popped nodes are used again: a new queue is empty, \<^verbatim>\<open>unsynchronized_push\<close> and
  \<^verbatim>\<open>unsynchronized_pop\<close> return and append or remove a value as on a list, and the destructor returns and gives every node back.\<close>

theorem unsynchronized_queue_refines:
  assumes "alone s vs" "recycling s a"
  shows "contents s vs \<and> (\<exists>s'. unsynchronized_push a v s = Some s' \<and> alone s' (vs @ [v])) \<and>
    (\<exists>s'. case vs of [] \<Rightarrow> unsynchronized_pop s = Some (None, s') \<and> alone s' [] | v # ws \<Rightarrow> unsynchronized_pop s = Some (Some v, s') \<and> alone s' ws) \<and>
    (\<exists>s'. queue_destroy s = Some s' \<and> live s' = {})"
  using alone_contents [OF assms(1)] unsynchronized_push_alone [OF assms] unsynchronized_pop_alone [OF assms(1)] queue_destroy_alone [OF assms(1)]
  by blast

theorem unsynchronized_queue_refines_witness:
  "alone (queue_init 1 blank :: (nat, bool) queue) [] \<and> recycling (queue_init 1 blank :: (nat, bool) queue) 2 \<and>
   (\<exists>s'. unsynchronized_push 2 5 (queue_init 1 blank :: (nat, bool) queue) = Some s' \<and> alone s' [5])"
proof -
  have *: "alone (queue_init 1 blank :: (nat, bool) queue) []" "recycling (queue_init 1 blank :: (nat, bool) queue) 2"
    by (rule alone_init, simp) (simp add: recycling_def queue_init_def)
  then show ?thesis using unsynchronized_queue_refines [OF *, of 5] by simp
qed

end
