(* ===== verification/Algorithms.thy ===== *)
theory Algorithms
  imports Ktl_Prelude "HOL-Library.List_Lexorder"
begin

text \<open>
  Algorithms of \<^verbatim>\<open>include/algorithm.hpp\<close> and \<^verbatim>\<open>runtime/include/algorithm_impl.hpp\<close> that do not touch uninitialised memory: comparison, search,
  reversal, rotation, exchange. A sequence is a list and an iterator into it a position; \<open>None\<close> is the use of an iterator outside of the
  sequence. Ranges have \<open>first \<le> last\<close>, so that \<^verbatim>\<open>first != last\<close> is \<open>first < last\<close> in the loops that count up.
\<close>

section \<open>Definitions\<close>

definition iter_swap :: "'a list \<Rightarrow> nat \<Rightarrow> nat \<Rightarrow> 'a list option" where
  "iter_swap xs lhs rhs = Option.bind (rd xs lhs) (\<lambda>a. Option.bind (rd xs rhs) (\<lambda>b. Some (xs[lhs := b, rhs := a])))"

text \<open>\<^verbatim>\<open>equal\<close> with one end and with two; the overload for iterators that are not random access ignores the lengths.\<close>

fun equal_prefix :: "('a \<Rightarrow> 'b \<Rightarrow> bool) \<Rightarrow> 'a list \<Rightarrow> 'b list \<Rightarrow> bool option" where
  "equal_prefix pred [] ys = Some True"
| "equal_prefix pred (x # xs) [] = None"
| "equal_prefix pred (x # xs) (y # ys) = (if \<not> pred x y then Some False else equal_prefix pred xs ys)"

fun equal_both :: "('a \<Rightarrow> 'b \<Rightarrow> bool) \<Rightarrow> 'a list \<Rightarrow> 'b list \<Rightarrow> bool" where
  "equal_both pred (x # xs) (y # ys) = (if \<not> pred x y then False else equal_both pred xs ys)"
| "equal_both pred xs ys = True"

definition equal_range :: "bool \<Rightarrow> ('a \<Rightarrow> 'b \<Rightarrow> bool) \<Rightarrow> 'a list \<Rightarrow> 'b list \<Rightarrow> bool option" where
  "equal_range random_access pred xs ys =
     (if random_access then if length xs \<noteq> length ys then Some False else equal_prefix pred xs ys
      else Some (equal_both pred xs ys))"

fun find_if :: "('a \<Rightarrow> bool) \<Rightarrow> 'a list \<Rightarrow> nat \<Rightarrow> nat \<Rightarrow> nat option" where
  "find_if pred xs first 0 = Some first"
| "find_if pred xs first (Suc n) =
     Option.bind (rd xs first) (\<lambda>x. if pred x then Some first else find_if pred xs (Suc first) n)"

definition find_if_not :: "('a \<Rightarrow> bool) \<Rightarrow> 'a list \<Rightarrow> nat \<Rightarrow> nat \<Rightarrow> nat option" where
  "find_if_not pred xs first n = find_if (\<lambda>x. \<not> pred x) xs first n"

text \<open>Copies inside of one sequence: \<^verbatim>\<open>copy_impl\<close> and \<^verbatim>\<open>copy_backward\<close> element by element, and \<^verbatim>\<open>memmove\<close>.\<close>

fun copy_loop :: "'a list \<Rightarrow> nat \<Rightarrow> nat \<Rightarrow> nat \<Rightarrow> ('a list \<times> nat) option" where
  "copy_loop xs first d_first 0 = Some (xs, d_first)"
| "copy_loop xs first d_first (Suc n) =
     Option.bind (rd xs first) (\<lambda>v. Option.bind (wr xs d_first v) (\<lambda>xs. copy_loop xs (Suc first) (Suc d_first) n))"

fun copy_backward :: "'a list \<Rightarrow> nat \<Rightarrow> nat \<Rightarrow> nat \<Rightarrow> ('a list \<times> nat) option" where
  "copy_backward xs first d_first 0 = Some (xs, d_first)"
| "copy_backward xs first d_first (Suc n) =
     Option.bind (rd xs (first + n)) (\<lambda>v. Option.bind (wr xs (d_first + n) v) (\<lambda>xs. copy_backward xs first d_first n))"

definition memmove_range :: "'a list \<Rightarrow> nat \<Rightarrow> nat \<Rightarrow> nat \<Rightarrow> ('a list \<times> nat) option" where
  "memmove_range xs first d_first n =
     (if n = 0 then Some (xs, d_first)
      else if first + n \<le> length xs \<and> d_first + n \<le> length xs
      then Some (take d_first xs @ take n (drop first xs) @ drop (d_first + n) xs, d_first + n) else None)"

text \<open>\<^verbatim>\<open>reverse_impl\<close>: the loop for random access, after \<^verbatim>\<open>last = prev (last)\<close>, and the one for bidirectional iterators.\<close>

function reverse_loop :: "'a list \<Rightarrow> nat \<Rightarrow> nat \<Rightarrow> 'a list option" where
  "reverse_loop xs first stop =
     (if first < stop then Option.bind (iter_swap xs first stop) (\<lambda>xs. reverse_loop xs (Suc first) (stop - 1)) else Some xs)"
  by pat_completeness auto

termination reverse_loop
  by (relation "measure (\<lambda>(xs, first, stop). stop)") auto

definition reverse_random :: "'a list \<Rightarrow> nat \<Rightarrow> nat \<Rightarrow> 'a list option" where
  "reverse_random xs first stop = (if first \<noteq> stop then reverse_loop xs first (stop - 1) else Some xs)"

function reverse_bidirectional :: "'a list \<Rightarrow> nat \<Rightarrow> nat \<Rightarrow> 'a list option" where
  "reverse_bidirectional xs first stop =
     (if first < stop
      then let prev_last = stop - 1
           in if first = prev_last then Some xs
              else Option.bind (iter_swap xs first stop) (\<lambda>xs. reverse_bidirectional xs (Suc first) stop)
      else Some xs)"
  by pat_completeness auto

termination reverse_bidirectional
  by (relation "measure (\<lambda>(xs, first, stop). stop - first)") auto

text \<open>\<^verbatim>\<open>rotate_left_impl\<close> for random access and for forward iterators: the sequence and the returned iterator. \<open>rotate_pass\<close> is one
  \<^verbatim>\<open>do ... while (current != last)\<close>.\<close>

definition rotate_random :: "'a list \<Rightarrow> nat \<Rightarrow> nat \<Rightarrow> nat \<Rightarrow> ('a list \<times> nat) option" where
  "rotate_random xs first new_first stop =
     Option.bind (reverse_random xs first new_first) (\<lambda>xs.
     Option.bind (reverse_random xs new_first stop) (\<lambda>xs.
     Option.bind (reverse_random xs first stop) (\<lambda>xs. Some (xs, first + (stop - new_first)))))"

function rotate_pass :: "'a list \<Rightarrow> nat \<Rightarrow> nat \<Rightarrow> nat \<Rightarrow> nat \<Rightarrow> ('a list \<times> nat \<times> nat) option" where
  "rotate_pass xs first new_first current stop =
     Option.bind (iter_swap xs first current) (\<lambda>xs.
       let first = Suc first; current = Suc current; new_first = (if first = new_first then current else new_first)
       in if current < stop then rotate_pass xs first new_first current stop else Some (xs, first, new_first))"
  by pat_completeness auto

termination rotate_pass
  by (relation "measure (\<lambda>(xs, first, new_first, current, stop). stop - current)") auto

partial_function (option) rotate_rest :: "'a list \<Rightarrow> nat \<Rightarrow> nat \<Rightarrow> nat \<Rightarrow> ('a list \<times> nat) option" where
  [code]: "rotate_rest xs first new_first stop =
     (if new_first \<noteq> stop
      then Option.bind (rotate_pass xs first new_first new_first stop) (\<lambda>(xs, first, new_first). rotate_rest xs first new_first stop)
      else Some (xs, first))"

definition rotate_forward :: "'a list \<Rightarrow> nat \<Rightarrow> nat \<Rightarrow> nat \<Rightarrow> ('a list \<times> nat) option" where
  "rotate_forward xs first new_first stop =
     Option.bind (rotate_pass xs first new_first new_first stop) (\<lambda>(xs, first, new_first). rotate_rest xs first new_first stop)"

definition rotate_range :: "bool \<Rightarrow> 'a list \<Rightarrow> nat \<Rightarrow> nat \<Rightarrow> nat \<Rightarrow> ('a list \<times> nat) option" where
  "rotate_range random_access xs first new_first stop =
     (if first = new_first then Some (xs, new_first)
      else if new_first = stop then Some (xs, first)
      else if random_access then rotate_random xs first new_first stop else rotate_forward xs first new_first stop)"

fun swap_ranges :: "'a list \<Rightarrow> nat \<Rightarrow> nat \<Rightarrow> nat \<Rightarrow> ('a list \<times> nat) option" where
  "swap_ranges xs lhs rhs 0 = Some (xs, rhs)"
| "swap_ranges xs lhs rhs (Suc n) = Option.bind (iter_swap xs lhs rhs) (\<lambda>xs. swap_ranges xs (Suc lhs) (Suc rhs) n)"

text \<open>Both \<^verbatim>\<open>transform\<close>s, from input ranges to a position of another sequence.\<close>

fun transform_unary :: "('a \<Rightarrow> 'c) \<Rightarrow> 'a list \<Rightarrow> 'c list \<Rightarrow> nat \<Rightarrow> ('c list \<times> nat) option" where
  "transform_unary f [] out pos = Some (out, pos)"
| "transform_unary f (x # xs) out pos = Option.bind (wr out pos (f x)) (\<lambda>out. transform_unary f xs out (Suc pos))"

fun transform_binary :: "('a \<Rightarrow> 'b \<Rightarrow> 'c) \<Rightarrow> 'a list \<Rightarrow> 'b list \<Rightarrow> 'c list \<Rightarrow> nat \<Rightarrow> ('c list \<times> nat) option" where
  "transform_binary f [] ys out pos = Some (out, pos)"
| "transform_binary f (x # xs) [] out pos = None"
| "transform_binary f (x # xs) (y # ys) out pos = Option.bind (wr out pos (f x y)) (\<lambda>out. transform_binary f xs ys out (Suc pos))"

definition find_value :: "'a \<Rightarrow> 'a list \<Rightarrow> nat \<Rightarrow> nat \<Rightarrow> nat option" where
  "find_value v xs first n = find_if (\<lambda>x. x = v) xs first n"

function lower_loop :: "('a \<Rightarrow> 'b \<Rightarrow> bool) \<Rightarrow> 'a list \<Rightarrow> 'b \<Rightarrow> nat \<Rightarrow> nat \<Rightarrow> nat option" where
  "lower_loop pred xs v first count =
     (if 0 < count
      then let count_half = count div 2; middle = first + count_half
           in Option.bind (rd xs middle) (\<lambda>x.
                if pred x v then lower_loop pred xs v (Suc middle) (count - (count_half + 1)) else lower_loop pred xs v first count_half)
      else Some first)"
  by pat_completeness auto

termination lower_loop
  by (relation "measure (\<lambda>(pred, xs, v, first, count). count)") auto

definition binary_search :: "('a \<Rightarrow> 'a \<Rightarrow> bool) \<Rightarrow> 'a list \<Rightarrow> nat \<Rightarrow> nat \<Rightarrow> 'a \<Rightarrow> bool option" where
  "binary_search pred xs first stop v =
     Option.bind (lower_loop pred xs v first (stop - first)) (\<lambda>i.
       if i = stop then Some False else Option.bind (rd xs i) (\<lambda>x. Some (x = v)))"

text \<open>\<^verbatim>\<open>LexicographicalComparator\<close>: the loop, and the specialisation for pointers, which compares the memory. \<open>bytes_of\<close> are the bytes of an element.\<close>

fun lexicographical_compare :: "('a \<Rightarrow> 'a \<Rightarrow> bool) \<Rightarrow> 'a list \<Rightarrow> 'a list \<Rightarrow> bool" where
  "lexicographical_compare lt (x # xs) (y # ys) =
     (if lt x y then True else if lt y x then False else lexicographical_compare lt xs ys)"
| "lexicographical_compare lt xs ys = (xs = [] \<and> ys \<noteq> [])"

fun memcmp :: "nat list \<Rightarrow> nat list \<Rightarrow> nat \<Rightarrow> int" where
  "memcmp xs ys 0 = 0"
| "memcmp (x # xs) (y # ys) (Suc n) = (if x < y then - 1 else if y < x then 1 else memcmp xs ys n)"
| "memcmp xs ys (Suc n) = 0"

definition compare_integral_less :: "('a \<Rightarrow> nat list) \<Rightarrow> nat \<Rightarrow> 'a list \<Rightarrow> 'a list \<Rightarrow> bool" where
  "compare_integral_less bytes_of width xs ys =
     (let cmp_length = min (length xs) (length ys) * width;
          result = memcmp (concat (map bytes_of xs)) (concat (map bytes_of ys)) cmp_length
      in if result \<noteq> 0 then result < 0 else length xs < length ys)"

text \<open>\<^verbatim>\<open>fill_n\<close> of a scalar of several bytes, all of them zero, through a pointer: \<^verbatim>\<open>memset\<close> gets the number of elements.\<close>

definition fill_n_zero :: "nat list \<Rightarrow> nat \<Rightarrow> nat list option" where
  "fill_n_zero mem count = (if count \<le> length mem then Some (replicate count 0 @ drop count mem) else None)"

section \<open>Exchange, reversal, rotation\<close>

text \<open>The lemmas describe a sequence as the concatenation of the part before the range, the range and the part behind it.\<close>

lemma iter_swap_append:
  "length us = i \<Longrightarrow> length us + length vs + 1 = j \<Longrightarrow> iter_swap (us @ x # vs @ y # ws) i j = Some (us @ y # vs @ x # ws)"
  by (auto simp: iter_swap_def nth_append list_update_append)

lemma iter_swap_same: "length us = i \<Longrightarrow> iter_swap (us @ x # ws) i i = Some (us @ x # ws)"
  by (auto simp: iter_swap_def nth_append)

declare reverse_loop.simps [simp del] reverse_bidirectional.simps [simp del] rotate_pass.simps [simp del] lower_loop.simps [simp del]

lemma reverse_loop_spec:
  "length us = i \<Longrightarrow> Suc j = i + length vs \<Longrightarrow> reverse_loop (us @ vs @ ws) i j = Some (us @ rev vs @ ws)"
proof (induction vs arbitrary: us ws i j rule: measure_induct_rule [of length])
  case (less vs)
  show ?case
  proof (cases "i < j")
    case False
    then have "length vs \<le> 1" using less.prems by simp
    then have "rev vs = vs" by (cases vs) auto
    then show ?thesis using False by (subst reverse_loop.simps) simp
  next
    case True
    then have len: "2 \<le> length vs" using less.prems by simp
    then obtain x vs1 where vs: "vs = x # vs1" "vs1 \<noteq> []" by (cases vs) fastforce+
    then obtain m y where vs1: "vs1 = m @ [y]" by (metis rev_exhaust)
    have "iter_swap (us @ vs @ ws) i j = Some ((us @ [y]) @ m @ x # ws)"
      using iter_swap_append [of us i m j x y ws] less.prems vs vs1 by simp
    moreover have "reverse_loop ((us @ [y]) @ m @ x # ws) (Suc i) (j - 1) = Some ((us @ [y]) @ rev m @ x # ws)"
      using less.IH [of m "us @ [y]" "Suc i" "j - 1" "x # ws"] less.prems vs vs1 True
      by (cases m) (auto simp: reverse_loop.simps)
    ultimately show ?thesis using True vs vs1 by (subst reverse_loop.simps) simp
  qed
qed

lemma reverse_random_spec:
  "length us = i \<Longrightarrow> j = i + length vs \<Longrightarrow> reverse_random (us @ vs @ ws) i j = Some (us @ rev vs @ ws)"
  using reverse_loop_spec [of us i "j - 1" vs ws] by (cases vs) (auto simp: reverse_random_def)

lemma rotate_random_spec:
  assumes "length us = i" "m = i + length as" "j = m + length bs"
  shows "rotate_random (us @ as @ bs @ ws) i m j = Some (us @ bs @ as @ ws, i + length bs)"
proof -
  have "reverse_random (us @ as @ bs @ ws) i m = Some (us @ rev as @ bs @ ws)"
    using reverse_random_spec [of us i m as "bs @ ws"] assms by simp
  moreover have "reverse_random (us @ rev as @ bs @ ws) m j = Some (us @ rev as @ rev bs @ ws)"
    using reverse_random_spec [of "us @ rev as" m j bs ws] assms by simp
  moreover have "reverse_random (us @ rev as @ rev bs @ ws) i j = Some (us @ bs @ as @ ws)"
    using reverse_random_spec [of us i j "rev as @ rev bs" ws] assms by simp
  ultimately show ?thesis using assms by (simp add: rotate_random_def)
qed

text \<open>One pass of the forward version on the blocks \<open>as\<close>, \<open>bs\<close>, \<open>cs\<close> between \<open>first\<close>, \<open>new_first\<close>, \<open>current\<close> and the end: what remains to be done
  afterwards gives the same final sequence, \<open>cs @ bs @ as\<close>.\<close>

lemma rotate_pass_spec:
  assumes "as \<noteq> []" "cs \<noteq> []" "length us = i" "m = i + length as" "k = m + length bs" "j = k + length cs"
  shows "\<exists>ds es. rotate_pass (us @ as @ bs @ cs @ ws) i m k j =
      Some (us @ cs @ ds @ es @ ws, i + length cs, i + length cs + length ds) \<and> es @ ds = bs @ as \<and> (es \<noteq> [] \<longrightarrow> ds \<noteq> [])"
  using assms
proof (induction cs arbitrary: us as bs i m k)
  case (Cons c cs)
  obtain a as' where as: "as = a # as'" using Cons.prems(1) by (cases as) auto
  let ?xs = "(us @ [c]) @ as' @ (bs @ [a]) @ cs @ ws"
  have swap: "iter_swap (us @ as @ bs @ (c # cs) @ ws) i k = Some ?xs"
    using iter_swap_append [of us i "as' @ bs" k a c "cs @ ws"] Cons.prems as by simp
  show ?case
  proof (cases "cs = []")
    case True
    then show ?thesis
    proof (cases "as' = []")
      case True': True
      show ?thesis
        by (rule exI [where x = "bs @ [a]"], rule exI [where x = "[]"], subst rotate_pass.simps)
          (use True' swap Cons.prems as True in \<open>simp add: Let_def\<close>)
    next
      case False
      show ?thesis
        by (rule exI [where x = as'], rule exI [where x = "bs @ [a]"], subst rotate_pass.simps)
          (use False swap Cons.prems as True in \<open>simp add: Let_def\<close>)
    qed
  next
    case False
    show ?thesis
    proof (cases "as' = []")
      case True
      from Cons.IH [where as = "bs @ [a]" and us = "us @ [c]" and i = "Suc i" and m = "Suc k" and bs = "[]" and k = "Suc k"] False Cons.prems as True swap show ?thesis
        by (subst rotate_pass.simps) (auto simp: Let_def)
    next
      case as': False
      from Cons.IH [where as = as' and us = "us @ [c]" and i = "Suc i" and m = m and bs = "bs @ [a]" and k = "Suc k"] False Cons.prems as as' swap show ?thesis
        by (subst rotate_pass.simps) (auto simp: Let_def)
    qed
  qed
qed simp

lemma rotate_rest_spec:
  assumes "length us = i" "m = i + length as" "j = m + length bs" "bs \<noteq> [] \<longrightarrow> as \<noteq> []"
  shows "\<exists>k. rotate_rest (us @ as @ bs @ ws) i m j = Some (us @ bs @ as @ ws, k)"
  using assms
proof (induction "length as + length bs" arbitrary: us as bs i m rule: less_induct)
  case less
  show ?case
  proof (cases "bs = []")
    case True
    then show ?thesis using less.prems by (subst rotate_rest.simps) simp
  next
    case False
    then obtain ds es where pass: "rotate_pass (us @ as @ [] @ bs @ ws) i m m j =
        Some (us @ bs @ ds @ es @ ws, i + length bs, i + length bs + length ds)" "es @ ds = as" "es \<noteq> [] \<longrightarrow> ds \<noteq> []"
      using rotate_pass_spec [where as = as and cs = bs and us = us and i = i and m = m and bs = "[]" and k = m and j = j and ws = ws] less.prems by auto
    have "length ds + length es < length as + length bs" using pass(2) False by auto
    moreover have "j = i + length bs + length ds + length es" using less.prems pass(2) by auto
    ultimately obtain k where "rotate_rest ((us @ bs) @ ds @ es @ ws) (i + length bs) (i + length bs + length ds) j = Some ((us @ bs) @ es @ ds @ ws, k)"
      using less.hyps [of ds es "us @ bs" "i + length bs" "i + length bs + length ds"] less.prems(1) pass(3) by auto
    then show ?thesis using pass less.prems False by (subst rotate_rest.simps) auto
  qed
qed

lemma rotate_forward_spec:
  assumes "length us = i" "m = i + length as" "j = m + length bs" "as \<noteq> []" "bs \<noteq> []"
  shows "\<exists>k. rotate_forward (us @ as @ bs @ ws) i m j = Some (us @ bs @ as @ ws, k)"
proof -
  have "m \<noteq> j" using assms(3,5) by simp
  then have "rotate_rest xs i m j = rotate_forward xs i m j" for xs :: "'a list"
    by (subst rotate_rest.simps) (simp add: rotate_forward_def)
  then show ?thesis using rotate_rest_spec [of us i m as j bs ws] assms by simp
qed

text \<open>C29: \<^verbatim>\<open>rotate\<close> terminates and exchanges the two parts of its range, for random access and for forward iterators, without an access outside of the
  range; for random access it returns the position of the element that was the first one, except when the first part
  is empty.\<close>

theorem rotate_exchanges:
  assumes "length us = first" "new_first = first + length as" "stop = new_first + length bs"
  shows "\<exists>k. rotate_range random_access (us @ as @ bs @ ws) first new_first stop = Some (us @ bs @ as @ ws, k) \<and>
    (random_access \<and> as \<noteq> [] \<longrightarrow> k = first + length bs)"
proof (cases "as = [] \<or> bs = []")
  case True
  then show ?thesis using assms by (auto simp: rotate_range_def)
next
  case False
  then show ?thesis
    using assms rotate_random_spec [OF assms] rotate_forward_spec [OF assms] by (cases random_access) (auto simp: rotate_range_def)
qed

theorem rotate_exchanges_witness:
  "\<exists>k. rotate_range False [9, 1, 2, 3, 4, 5, 8 :: nat] 1 3 6 = Some ([9] @ [3, 4, 5] @ [1, 2] @ [8], k)"
  using rotate_exchanges [of "[9 :: nat]" 1 3 "[1, 2]" 6 "[3, 4, 5]" False "[8]"] by auto

text \<open>The returned position is wrong for forward iterators when more than one pass is needed.\<close>

lemma rotate_forward_position: "rotate_range False [1, 2, 3 :: nat] 0 2 3 = Some ([3, 1, 2], 2)"
  "rotate_range True [1, 2, 3 :: nat] 0 2 3 = Some ([3, 1, 2], 1)"
  by (simp_all add: rotate_range_def rotate_forward_def rotate_random_def reverse_random_def
      rotate_pass.simps rotate_rest.simps reverse_loop.simps iter_swap_def numeral_eq_Suc)

text \<open>The reversal for bidirectional iterators uses the end of the range: on the whole of a sequence that is outside of it, and inside of
  a longer sequence it rotates the element behind the range into it.\<close>

lemma reverse_bidirectional_overruns:
  assumes "length xs = stop" "Suc first < stop"
  shows "reverse_bidirectional xs first stop = None"
  using assms by (subst reverse_bidirectional.simps) (auto simp: Let_def iter_swap_def rd_def)

lemma reverse_bidirectional_rotates:
  "length us = i \<Longrightarrow> j = i + length as + 2 \<Longrightarrow>
     reverse_bidirectional (us @ (as @ [x, y]) @ w # ws) i j = Some (us @ (w # as @ [y]) @ x # ws)"
proof (induction as arbitrary: us i w)
  case Nil
  have "iter_swap (us @ x # [y] @ w # ws) i j = Some (us @ w # [y] @ x # ws)" using Nil by (intro iter_swap_append) auto
  moreover have "reverse_bidirectional xs (Suc i) j = Some xs" for xs :: "'a list"
    using Nil by (subst reverse_bidirectional.simps) simp
  ultimately show ?case using Nil by (subst reverse_bidirectional.simps) simp
next
  case (Cons a as)
  have "iter_swap (us @ a # (as @ [x, y]) @ w # ws) i j = Some ((us @ [w]) @ (as @ [x, y]) @ a # ws)"
    using iter_swap_append [of us i "as @ [x, y]" j a w ws] Cons.prems by simp
  moreover have "reverse_bidirectional ((us @ [w]) @ (as @ [x, y]) @ a # ws) (Suc i) j = Some ((us @ [w]) @ (a # as @ [y]) @ x # ws)"
    using Cons.prems by (intro Cons.IH) auto
  ultimately show ?case using Cons.prems by (subst reverse_bidirectional.simps) simp
qed

section \<open>Search\<close>

text \<open>The loop keeps \<open>pred\<close> true before the remaining range and false behind it.\<close>

lemma lower_loop_spec:
  assumes "first + count \<le> length xs" "\<And>i j. first \<le> i \<Longrightarrow> i \<le> j \<Longrightarrow> j < first + count \<Longrightarrow> pred (xs ! j) v \<Longrightarrow> pred (xs ! i) v"
  shows "\<exists>k. lower_loop pred xs v first count = Some k \<and> first \<le> k \<and> k \<le> first + count \<and>
    (\<forall>i. first \<le> i \<and> i < k \<longrightarrow> pred (xs ! i) v) \<and> (\<forall>i. k \<le> i \<and> i < first + count \<longrightarrow> \<not> pred (xs ! i) v)"
  using assms
proof (induction count arbitrary: first rule: less_induct)
  case (less count)
  show ?case
  proof (cases "count = 0")
    case True
    then show ?thesis by (subst lower_loop.simps) auto
  next
    case False
    let ?h = "count div 2" and ?m = "first + count div 2"
    have m: "?m < first + count" "?m < length xs" using False less.prems(1) by auto
    show ?thesis
    proof (cases "pred (xs ! ?m) v")
      case True
      have c: "count - (?h + 1) < count" "Suc ?m + (count - (?h + 1)) = first + count" using False by auto
      from less.IH [OF c(1), of "Suc ?m"] less.prems
      obtain k where k: "lower_loop pred xs v (Suc ?m) (count - (?h + 1)) = Some k" "Suc ?m \<le> k" "k \<le> first + count"
          "\<forall>i. Suc ?m \<le> i \<and> i < k \<longrightarrow> pred (xs ! i) v" "\<forall>i. k \<le> i \<and> i < first + count \<longrightarrow> \<not> pred (xs ! i) v"
        unfolding c(2) by auto
      have "pred (xs ! i) v" if "first \<le> i" "i < k" for i
        using less.prems(2) [of i ?m] that m True k(4) by (cases "i \<le> ?m") (simp_all add: not_le Suc_le_eq)
      moreover have "lower_loop pred xs v first count = Some k" using True False m k(1) by (subst lower_loop.simps) (simp add: Let_def)
      moreover have "first \<le> k" using k(2) by simp
      ultimately show ?thesis using k(3,5) by blast
    next
      case f: False
      have "?h < count" using False by simp
      from less.IH [OF this, of first] less.prems obtain k where k: "lower_loop pred xs v first ?h = Some k" "first \<le> k" "k \<le> ?m"
          "\<forall>i. first \<le> i \<and> i < k \<longrightarrow> pred (xs ! i) v" "\<forall>i. k \<le> i \<and> i < ?m \<longrightarrow> \<not> pred (xs ! i) v"
        using m by auto
      have "\<not> pred (xs ! i) v" if "k \<le> i" "i < first + count" for i
        using less.prems(2) [of ?m i] that f k(5) by (cases "i < ?m") auto
      moreover have "lower_loop pred xs v first count = Some k" using f False m k(1) by (subst lower_loop.simps) (simp add: Let_def)
      moreover have "k \<le> first + count" using k(3) by simp
      ultimately show ?thesis using k(2,4) by blast
    qed
  qed
qed

text \<open>\<^verbatim>\<open>binary_search\<close> on a sorted range terminates, stays inside of the range, and finds a value exactly when it occurs there.\<close>

theorem binary_search_finds:
  fixes xs :: "'a :: linorder list"
  assumes "first \<le> stop" "stop \<le> length xs" "sorted (take (stop - first) (drop first xs))"
  shows "binary_search (<) xs first stop v = Some (v \<in> set (take (stop - first) (drop first xs)))"
proof -
  have le: "xs ! i \<le> xs ! j" if "first \<le> i" "i \<le> j" "j < stop" for i j
  proof -
    have "take (stop - first) (drop first xs) ! (i - first) \<le> take (stop - first) (drop first xs) ! (j - first)"
      using assms that by (intro sorted_nth_mono) auto
    then show ?thesis using that assms by simp
  qed
  have set: "v \<in> set (take (stop - first) (drop first xs)) \<longleftrightarrow> (\<exists>i. first \<le> i \<and> i < stop \<and> xs ! i = v)"
  proof
    assume "v \<in> set (take (stop - first) (drop first xs))"
    then obtain i where "i < stop - first" "xs ! (first + i) = v" using assms(2) by (auto simp: in_set_conv_nth)
    then show "\<exists>i. first \<le> i \<and> i < stop \<and> xs ! i = v" by (intro exI [of _ "first + i"]) auto
  next
    assume "\<exists>i. first \<le> i \<and> i < stop \<and> xs ! i = v"
    then obtain i where "first \<le> i" "i < stop" "xs ! i = v" by blast
    then show "v \<in> set (take (stop - first) (drop first xs))"
      using assms(2) by (auto simp: in_set_conv_nth intro!: exI [of _ "i - first"])
  qed
  obtain k where k: "lower_loop (<) xs v first (stop - first) = Some k" "first \<le> k" "k \<le> stop"
      "\<forall>i. first \<le> i \<and> i < k \<longrightarrow> xs ! i < v" "\<forall>i. k \<le> i \<and> i < stop \<longrightarrow> \<not> xs ! i < v"
  proof -
    have "xs ! i < v" if "first \<le> i" "i \<le> j" "j < first + (stop - first)" "xs ! j < v" for i j
      using le [of i j] that assms(1) by simp
    then show ?thesis using lower_loop_spec [of first "stop - first" xs "(<)" v] assms(1,2) that by auto
  qed
  have "(\<exists>i. first \<le> i \<and> i < stop \<and> xs ! i = v) \<longleftrightarrow> k < stop \<and> xs ! k = v"
  proof
    assume "\<exists>i. first \<le> i \<and> i < stop \<and> xs ! i = v"
    then obtain i where i: "first \<le> i" "i < stop" "xs ! i = v" by blast
    then have "k \<le> i" using k(4) by (meson less_irrefl not_le)
    then show "k < stop \<and> xs ! k = v" using i k(2,5) le [of k i] by (auto simp: not_less antisym)
  qed (use k(2) in blast)
  then show ?thesis using k(1,3) assms(2) set by (auto simp: binary_search_def)
qed

theorem binary_search_finds_witness:
  "binary_search (<) [1, 3, 5, 7 :: nat] 0 4 5 = Some True \<and> binary_search (<) [1, 3, 5, 7 :: nat] 0 4 4 = Some False"
  using binary_search_finds [of 0 4 "[1, 3, 5, 7 :: nat]" 5] binary_search_finds [of 0 4 "[1, 3, 5, 7 :: nat]" 4] by simp

lemma find_if_first:
  assumes "first + n \<le> length xs"
  shows "\<exists>k. find_if pred xs first n = Some k \<and> first \<le> k \<and> k \<le> first + n \<and> (\<forall>i. first \<le> i \<and> i < k \<longrightarrow> \<not> pred (xs ! i)) \<and>
    (k < first + n \<longrightarrow> pred (xs ! k))"
  using assms
proof (induction n arbitrary: first)
  case (Suc n)
  show ?case
  proof (cases "pred (xs ! first)")
    case True
    then show ?thesis using Suc.prems by (intro exI [of _ first]) auto
  next
    case False
    from Suc.IH [of "Suc first"] Suc.prems obtain k where k: "find_if pred xs (Suc first) n = Some k" "Suc first \<le> k" "k \<le> Suc (first + n)"
      "\<forall>i. Suc first \<le> i \<and> i < k \<longrightarrow> \<not> pred (xs ! i)" "k < Suc (first + n) \<longrightarrow> pred (xs ! k)" by auto
    have "\<not> pred (xs ! i)" if "first \<le> i" "i < k" for i using that k(4) False by (cases "i = first") auto
    then show ?thesis using Suc.prems False k(1-3,5) by (intro exI [of _ k]) auto
  qed
qed auto

section \<open>Comparison\<close>

lemma equal_prefix_spec: "length xs \<le> length ys \<Longrightarrow> equal_prefix pred xs ys = Some (list_all2 pred xs (take (length xs) ys))"
  by (induction pred xs ys rule: equal_prefix.induct) auto

lemma equal_range_random: "equal_range True pred xs ys = Some (list_all2 pred xs ys)"
  using equal_prefix_spec [of xs ys pred] by (auto simp: equal_range_def list_all2_lengthD)

text \<open>For other iterators a range is equal to each of its prefixes.\<close>

lemma equal_range_ignores_length: "equal_range False (=) xs (xs @ ys) = Some True"
  unfolding equal_range_def by (induction xs) auto

lemma Nil_less_iff: "[] < ys \<longleftrightarrow> ys \<noteq> []" for ys :: "'a :: linorder list"
  by (cases ys) auto

lemma lexicographical_compare_less:
  fixes xs :: "'a :: linorder list"
  shows "lexicographical_compare (<) xs ys \<longleftrightarrow> xs < ys"
  by (induction "(<) :: 'a \<Rightarrow> _" xs ys rule: lexicographical_compare.induct) (auto simp: Nil_less_iff)

lemma memcmp_bytes:
  "(memcmp xs ys (min (length xs) (length ys)) < 0 \<or>
    memcmp xs ys (min (length xs) (length ys)) = 0 \<and> length xs < length ys) \<longleftrightarrow> xs < ys"
  by (induction xs ys rule: list_induct2') (auto simp: Nil_less_iff)

text \<open>The comparison of ranges given by pointers compares their memory. For elements of one byte that is the lexicographic order, as it is
  for the loop that other iterators use; for integers of two bytes in the memory of the machine it is not.\<close>

theorem lexicographical_compare_memory:
  "(compare_integral_less (\<lambda>x. [x]) 1 xs ys \<longleftrightarrow> xs < ys) \<and> (lexicographical_compare (<) xs ys \<longleftrightarrow> xs < ys) \<and>
   \<not> compare_integral_less (\<lambda>x. [x mod 256, x div 256]) 2 [1 :: nat] [256] \<and> [1 :: nat] < [256]"
proof -
  have "compare_integral_less (\<lambda>x. [x]) 1 xs ys \<longleftrightarrow> xs < ys"
    using memcmp_bytes [of xs ys] by (auto simp: compare_integral_less_def Let_def)
  moreover have "\<not> compare_integral_less (\<lambda>x. [x mod 256, x div 256]) 2 [1 :: nat] [256]"
    by (simp add: compare_integral_less_def numeral_2_eq_2)
  ultimately show ?thesis by (simp add: lexicographical_compare_less)
qed

section \<open>Copies, exchanges, filling\<close>

text \<open>Copying forwards is right when the destination does not lie behind the start inside of the source, copying backwards when it does not lie before
  it; \<^verbatim>\<open>memmove\<close> always is.\<close>

lemma copy_loop_spec:
  assumes "first + n \<le> length xs" "d_first + n \<le> length xs" "d_first \<le> first \<or> first + n \<le> d_first"
  shows "\<exists>ys. copy_loop xs first d_first n = Some (ys, d_first + n) \<and> length ys = length xs \<and>
    (\<forall>i<length xs. ys ! i = (if d_first \<le> i \<and> i < d_first + n then xs ! (first + (i - d_first)) else xs ! i))"
  using assms
proof (induction n arbitrary: xs first d_first)
  case (Suc n)
  let ?xs = "xs[d_first := xs ! first]"
  from Suc.IH [of "Suc first" ?xs "Suc d_first"] Suc.prems
  obtain ys where ys: "copy_loop ?xs (Suc first) (Suc d_first) n = Some (ys, Suc d_first + n)" "length ys = length xs"
    "\<forall>i<length xs. ys ! i = (if Suc d_first \<le> i \<and> i < Suc d_first + n then ?xs ! (Suc first + (i - Suc d_first)) else ?xs ! i)"
    by auto
  have "ys ! i = (if d_first \<le> i \<and> i < d_first + Suc n then xs ! (first + (i - d_first)) else xs ! i)" if "i < length xs" for i
  proof (cases "Suc d_first \<le> i")
    case True
    then have "Suc first + (i - Suc d_first) = first + (i - d_first)" by simp
    then show ?thesis using ys(3) that Suc.prems True by (auto simp: nth_list_update)
  qed (use ys(3) that Suc.prems in \<open>auto simp: nth_list_update\<close>)
  then show ?case using ys(1,2) Suc.prems by (intro exI [of _ ys]) simp
qed auto

lemma copy_backward_spec:
  assumes "first + n \<le> length xs" "d_first + n \<le> length xs" "first \<le> d_first \<or> d_first + n \<le> first"
  shows "\<exists>ys. copy_backward xs first d_first n = Some (ys, d_first) \<and> length ys = length xs \<and>
    (\<forall>i<length xs. ys ! i = (if d_first \<le> i \<and> i < d_first + n then xs ! (first + (i - d_first)) else xs ! i))"
  using assms
proof (induction n arbitrary: xs)
  case (Suc n)
  let ?xs = "xs[d_first + n := xs ! (first + n)]"
  from Suc.IH [of ?xs] Suc.prems
  obtain ys where ys: "copy_backward ?xs first d_first n = Some (ys, d_first)" "length ys = length xs"
    "\<forall>i<length xs. ys ! i = (if d_first \<le> i \<and> i < d_first + n then ?xs ! (first + (i - d_first)) else ?xs ! i)"
    by auto
  have "ys ! i = (if d_first \<le> i \<and> i < d_first + Suc n then xs ! (first + (i - d_first)) else xs ! i)" if "i < length xs" for i
    using ys(3) that Suc.prems by (cases "i = d_first + n") (auto simp: nth_list_update)
  then show ?case using ys(1,2) Suc.prems by (intro exI [of _ ys]) simp
qed auto

lemma memmove_range_spec:
  assumes "first + n \<le> length xs" "d_first + n \<le> length xs"
  shows "\<exists>ys. memmove_range xs first d_first n = Some (ys, d_first + n) \<and> length ys = length xs \<and>
    (\<forall>i<length xs. ys ! i = (if d_first \<le> i \<and> i < d_first + n then xs ! (first + (i - d_first)) else xs ! i))"
proof -
  have "min (length xs - first) n = n" "min (length xs) d_first = d_first" using assms by auto
  then show ?thesis using assms by (auto simp: memmove_range_def nth_append)
qed

text \<open>\<^verbatim>\<open>copy\<close>, \<^verbatim>\<open>copy_backward\<close> and the \<^verbatim>\<open>memmove\<close> that replaces \<^verbatim>\<open>copy\<close> for trivial types leave the same sequence when both loops may be used, and the two
  versions of \<^verbatim>\<open>copy\<close> return the same iterator.\<close>

theorem copies_agree:
  assumes "first + n \<le> length xs" "d_first + n \<le> length xs"
  shows "(d_first \<le> first \<or> first + n \<le> d_first \<longrightarrow> copy_loop xs first d_first n = memmove_range xs first d_first n) \<and>
    (first \<le> d_first \<or> d_first + n \<le> first \<longrightarrow> map_option fst (copy_backward xs first d_first n) = map_option fst (memmove_range xs first d_first n))"
proof -
  obtain zs where z: "memmove_range xs first d_first n = Some (zs, d_first + n)" "length zs = length xs"
    "\<forall>i<length xs. zs ! i = (if d_first \<le> i \<and> i < d_first + n then xs ! (first + (i - d_first)) else xs ! i)"
    using memmove_range_spec [OF assms] by blast
  have eq: "ys = zs" if "length ys = length xs"
    "\<forall>i<length xs. ys ! i = (if d_first \<le> i \<and> i < d_first + n then xs ! (first + (i - d_first)) else xs ! i)" for ys
    using that z by (intro nth_equalityI) auto
  have "copy_loop xs first d_first n = Some (zs, d_first + n)" if "d_first \<le> first \<or> first + n \<le> d_first"
    using copy_loop_spec [OF assms that] eq by blast
  moreover have "copy_backward xs first d_first n = Some (zs, d_first)" if "first \<le> d_first \<or> d_first + n \<le> first"
    using copy_backward_spec [OF assms that] eq by blast
  ultimately show ?thesis using z(1) by simp
qed

theorem copies_agree_witness:
  "copy_loop [1, 2, 3, 4, 5 :: nat] 1 0 3 = memmove_range [1, 2, 3, 4, 5] 1 0 3 \<and>
   map_option fst (copy_backward [1, 2, 3, 4, 5 :: nat] 1 2 3) = map_option fst (memmove_range [1, 2, 3, 4, 5] 1 2 3)"
  using copies_agree [of 1 3 "[1, 2, 3, 4, 5 :: nat]" 0] copies_agree [of 1 3 "[1, 2, 3, 4, 5 :: nat]" 2] by simp

lemma swap_ranges_spec:
  assumes "length as = length bs" "length us = i" "j = i + length as + length vs"
  shows "swap_ranges (us @ as @ vs @ bs @ ws) i j (length as) = Some (us @ bs @ vs @ as @ ws, j + length bs)"
  using assms
proof (induction as bs arbitrary: us vs i j rule: list_induct2)
  case (Cons a as b bs)
  have "iter_swap (us @ (a # as) @ vs @ (b # bs) @ ws) i j = Some ((us @ [b]) @ as @ (vs @ [a]) @ bs @ ws)"
    using iter_swap_append [of us i "as @ vs" j a b "bs @ ws"] Cons.prems by simp
  then show ?case using Cons.IH [of "us @ [b]" "Suc i" "Suc j" "vs @ [a]"] Cons.prems by simp
qed simp

lemma transform_unary_spec:
  "length os = length xs \<Longrightarrow> transform_unary f xs (us @ os @ ws) (length us) = Some (us @ map f xs @ ws, length us + length xs)"
proof (induction xs arbitrary: us os)
  case (Cons x xs)
  then obtain o1 os' where "os = o1 # os'" by (cases os) auto
  then show ?case using Cons.IH [of os' "us @ [f x]"] Cons.prems by (simp add: list_update_append)
qed simp

lemma transform_binary_spec:
  "length ys = length xs \<Longrightarrow> length os = length xs \<Longrightarrow>
     transform_binary f xs ys (us @ os @ ws) (length us) = Some (us @ map2 f xs ys @ ws, length us + length xs)"
proof (induction xs arbitrary: ys us os)
  case (Cons x xs)
  then obtain o1 os' y ys' where "os = o1 # os'" "ys = y # ys'" by (cases os; cases ys) auto
  then show ?case using Cons.IH [of ys' os' "us @ [f x y]"] Cons.prems by (simp add: list_update_append)
qed simp

text \<open>\<^verbatim>\<open>fill_n\<close> with zeros through a pointer to integers of several bytes clears only as many bytes as there are elements: an element is set to
  zero when its bytes lie among these, and keeps its value when they lie behind them.\<close>

theorem fill_n_clears_too_little:
  assumes "length mem = n * width" "0 < width"
  shows "\<exists>mem'. fill_n_zero mem n = Some mem' \<and> length mem' = length mem \<and>
    (\<forall>i<n. (Suc i * width \<le> n \<longrightarrow> take width (drop (i * width) mem') = replicate width 0) \<and>
      (n \<le> i * width \<longrightarrow> take width (drop (i * width) mem') = take width (drop (i * width) mem)))"
proof -
  have le: "n \<le> length mem" using assms by simp
  have "take width (drop (i * width) (replicate n 0 @ drop n mem)) = replicate width 0" if "Suc i * width \<le> n" for i
    using that by (simp add: min_def)
  moreover have "drop (i * width) (replicate n 0 @ drop n mem) = drop (i * width) mem" if "n \<le> i * width" for i
    using that by simp
  ultimately show ?thesis using le by (auto simp: fill_n_zero_def)
qed

theorem fill_n_clears_too_little_witness:
  "\<exists>mem'. fill_n_zero [1, 1, 2, 2, 3, 3, 4, 4] 4 = Some mem' \<and> take 2 (drop (3 * 2) mem') = [4, 4]"
  using fill_n_clears_too_little [of "[1, 1, 2, 2, 3, 3, 4, 4]" 4 2] by (auto dest: spec [of _ 3])

end
