(* ===== verification/Heap.thy ===== *)
theory Heap
  imports Ktl_Prelude
begin

text \<open>
  The heap (\<^verbatim>\<open>runtime/src/heap.cpp\<close>) and the global \<^verbatim>\<open>operator new\<close> and \<^verbatim>\<open>operator delete\<close> (\<^verbatim>\<open>src/new_delete.cpp\<close>). The pool of the kernel is a
  parameter: a function of its state and of the request that gives an address, 0 for a refusal; so is the effect of running a new handler, which may
  free memory, exchange the handler or throw. Assertions are those of a release build, where they are empty. The many overloads of both
  operators pass a pool type and an alignment on to \<open>operator_new_impl\<close> and \<open>operator_delete_impl\<close>.
\<close>

section \<open>Requests\<close>

datatype pool_type = NonPagedPool | PagedPool | NonPagedPoolCacheAligned | PagedPoolCacheAligned | NonPagedPoolCacheAlignedMustS
  | NonPagedPoolCacheAlignedSession | PagedPoolCacheAlignedSession | NonPagedPoolCacheAlignedMustSSession | NonPagedPoolNxCacheAligned
  | OtherPool nat

record alloc_request =
  ar_bytes_count :: nat
  ar_pool_type :: pool_type
  ar_alignment :: nat
  ar_pool_tag :: nat

record free_request =
  fr_memory_block :: nat
  fr_bytes_count :: nat
  fr_alignment :: nat
  fr_pool_tag :: nat

definition DEFAULT_ALLOCATION_ALIGNMENT :: nat where "DEFAULT_ALLOCATION_ALIGNMENT = 2 * 8"
definition CACHE_LINE_ALLOCATION_ALIGNMENT :: nat where "CACHE_LINE_ALLOCATION_ALIGNMENT = 64"
definition MAX_ALLOCATION_ALIGNMENT :: nat where "MAX_ALLOCATION_ALIGNMENT = 4096"
definition DEFAULT_HEAP_TAG :: nat where "DEFAULT_HEAP_TAG = 0x644C544B"

definition get_max_alignment_for_pool :: "pool_type \<Rightarrow> nat" where
  "get_max_alignment_for_pool pool_type =
     (if pool_type \<in> {NonPagedPoolCacheAligned, PagedPoolCacheAligned, NonPagedPoolCacheAlignedMustS, NonPagedPoolCacheAlignedSession,
          PagedPoolCacheAlignedSession, NonPagedPoolCacheAlignedMustSSession, NonPagedPoolNxCacheAligned}
      then CACHE_LINE_ALLOCATION_ALIGNMENT else DEFAULT_ALLOCATION_ALIGNMENT)"

definition cache_aligned :: "pool_type \<Rightarrow> bool" where
  "cache_aligned p \<longleftrightarrow> p \<notin> {NonPagedPool, PagedPool} \<and> (\<forall>n. p \<noteq> OtherPool n)"

text \<open>The pool: its state, the type of the pool, the number of bytes and the tag.\<close>

type_synonym 'k pool = "'k \<Rightarrow> pool_type \<Rightarrow> nat \<Rightarrow> nat \<Rightarrow> nat \<times> 'k"

definition pool_size :: "alloc_request \<Rightarrow> nat" where
  "pool_size r =
     (if ar_alignment r \<le> get_max_alignment_for_pool (ar_pool_type r) then ar_bytes_count r
      else max (ar_bytes_count r) MAX_ALLOCATION_ALIGNMENT)"

definition allocate_impl :: "'k pool \<Rightarrow> alloc_request \<Rightarrow> 'k \<Rightarrow> nat \<times> 'k" where
  "allocate_impl pool r k = pool k (ar_pool_type r) (pool_size r) (ar_pool_tag r)"

definition allocate_memory :: "'k pool \<Rightarrow> bool \<Rightarrow> alloc_request \<Rightarrow> 'k \<Rightarrow> nat outcome \<times> 'k" where
  "allocate_memory pool throw_exception r k =
     (let (memory, k') = allocate_impl pool r k
      in if throw_exception \<and> memory = 0 then (Throw BadAlloc, k') else (Ret memory, k'))"

text \<open>The pool's function that frees a block with its tag.\<close>

definition deallocate_memory :: "('k \<Rightarrow> nat \<Rightarrow> nat \<Rightarrow> 'k) \<Rightarrow> free_request \<Rightarrow> 'k \<Rightarrow> 'k" where
  "deallocate_memory free r k = (if fr_memory_block r \<noteq> 0 then free k (fr_memory_block r) (fr_pool_tag r) else k)"

section \<open>The operators\<close>

text \<open>The state of a program as far as \<^verbatim>\<open>operator new\<close> sees it: the pool and the installed handler.\<close>

record ('k, 'h) new_state =
  pool_state :: 'k
  new_handler :: "'h option"

definition set_new_handler :: "'h option \<Rightarrow> ('k, 'h) new_state \<Rightarrow> 'h option \<times> ('k, 'h) new_state" where
  "set_new_handler h s = (new_handler s, s\<lparr> new_handler := h \<rparr>)"

definition new_request :: "nat \<Rightarrow> nat \<Rightarrow> pool_type \<Rightarrow> alloc_request" where
  "new_request bytes_count alignment pool_type =
     \<lparr> ar_bytes_count = bytes_count, ar_pool_type = pool_type, ar_alignment = alignment, ar_pool_tag = DEFAULT_HEAP_TAG \<rparr>"

text \<open>\<open>run\<close> is the call of a handler. Without a handler only the throwing version leaves the loop; a handler that throws ends the version that
  is \<^verbatim>\<open>noexcept\<close> with a bug check, which is not distinguished here.\<close>

partial_function (option) operator_new_impl ::
    "'k pool \<Rightarrow> ('h \<Rightarrow> ('k, 'h) new_state \<Rightarrow> unit outcome \<times> ('k, 'h) new_state) \<Rightarrow> bool \<Rightarrow> alloc_request \<Rightarrow> ('k, 'h) new_state \<Rightarrow>
     (nat outcome \<times> ('k, 'h) new_state) option" where
  [code]: "operator_new_impl pool run throw_exception r s =
     (case allocate_memory pool False r (pool_state s) of
        (Throw e, k) \<Rightarrow> Some (Throw e, s\<lparr> pool_state := k \<rparr>)
      | (Ret memory, k) \<Rightarrow>
          let s = s\<lparr> pool_state := k \<rparr>
          in if memory \<noteq> 0 then Some (Ret memory, s)
             else (case new_handler s of
                 Some handler \<Rightarrow>
                   (case run handler s of
                      (Throw e, s) \<Rightarrow> Some (Throw e, s)
                    | (Ret _, s) \<Rightarrow> operator_new_impl pool run throw_exception r s)
               | None \<Rightarrow> if throw_exception then Some (Throw BadAlloc, s) else operator_new_impl pool run throw_exception r s))"

definition operator_delete_impl :: "('k \<Rightarrow> nat \<Rightarrow> nat \<Rightarrow> 'k) \<Rightarrow> nat \<Rightarrow> nat \<Rightarrow> nat \<Rightarrow> 'k \<Rightarrow> 'k" where
  "operator_delete_impl free memory bytes_count alignment k =
     deallocate_memory free
       \<lparr> fr_memory_block = memory, fr_bytes_count = bytes_count, fr_alignment = alignment, fr_pool_tag = DEFAULT_HEAP_TAG \<rparr> k"

section \<open>Alignment\<close>

text \<open>What the kernel documents of its pools: a block of a page or more begins on a page, every other one is aligned to 16 bytes, in the
  cache-aligned pools to a cache line.\<close>

definition pool_aligns :: "'k pool \<Rightarrow> bool" where
  "pool_aligns pool \<longleftrightarrow> (\<forall>k p n t.
     (n \<ge> 4096 \<longrightarrow> 4096 dvd fst (pool k p n t)) \<and> 16 dvd fst (pool k p n t) \<and> (cache_aligned p \<longrightarrow> 64 dvd fst (pool k p n t)))"

text \<open>C35: Whenever the alignment is a power of two up to a page, the heap gives blocks with the alignment and at least the size that was
  asked for, whatever the pool, although the pool takes no alignment.\<close>

theorem allocation_aligned:
  assumes "pool_aligns pool" "ar_alignment r = 2 ^ n" "2 ^ n \<le> MAX_ALLOCATION_ALIGNMENT"
  shows "ar_alignment r dvd fst (allocate_impl pool r k) \<and> ar_bytes_count r \<le> pool_size r"
proof -
  let ?a = "fst (allocate_impl pool r k)"
  have al: "pool_size r \<ge> 4096 \<longrightarrow> 2 ^ 12 dvd ?a" "2 ^ 4 dvd ?a" "cache_aligned (ar_pool_type r) \<longrightarrow> 2 ^ 6 dvd ?a"
    using assms(1) by (auto simp: pool_aligns_def allocate_impl_def)
  have up: "2 ^ n dvd ?a" if "n \<le> m" "2 ^ m dvd ?a" for m using that le_imp_power_dvd dvd_trans by blast
  have exp: "n \<le> m" if "(2 :: nat) ^ n \<le> 2 ^ m" for m using that by (rule power_le_imp_le_exp [rotated]) simp
  have "ar_alignment r \<le> get_max_alignment_for_pool (ar_pool_type r) \<or> pool_size r \<ge> 4096"
    by (auto simp: pool_size_def MAX_ALLOCATION_ALIGNMENT_def)
  then consider "ar_alignment r \<le> 2 ^ 4" | "cache_aligned (ar_pool_type r)" "ar_alignment r \<le> 2 ^ 6" | "pool_size r \<ge> 4096"
    by (cases "ar_pool_type r")
      (auto simp: cache_aligned_def get_max_alignment_for_pool_def DEFAULT_ALLOCATION_ALIGNMENT_def CACHE_LINE_ALLOCATION_ALIGNMENT_def)
  then have "2 ^ n dvd ?a"
  proof cases
    case 1
    then show ?thesis using up [OF exp] al(2) assms(2) by metis
  next
    case 2
    then show ?thesis using up [OF exp] al(3) assms(2) by metis
  next
    case 3
    then show ?thesis using up [of 12] exp [of 12] al(1) assms(3) by (simp add: MAX_ALLOCATION_ALIGNMENT_def)
  qed
  then show ?thesis using assms(2) by (simp add: pool_size_def)
qed

text \<open>A pool that hands out consecutive pages and counts them.\<close>

definition page_pool :: "nat \<Rightarrow> pool_type \<Rightarrow> nat \<Rightarrow> nat \<Rightarrow> nat \<times> nat" where
  "page_pool k p n t = (4096 * Suc k, Suc k)"

theorem allocation_aligned_witness:
  "pool_aligns page_pool \<and> 2 ^ 8 dvd fst (allocate_impl page_pool (new_request 24 (2 ^ 8) PagedPool) 0)"
proof -
  have *: "pool_aligns page_pool" by (auto simp: pool_aligns_def page_pool_def)
  then show ?thesis
    using allocation_aligned [OF *, of "new_request 24 (2 ^ 8) PagedPool" 8 0] by (simp add: new_request_def MAX_ALLOCATION_ALIGNMENT_def)
qed

section \<open>When operator new returns\<close>

lemma operator_new_impl_step:
  "operator_new_impl pool run b r s =
     (let (memory, k) = allocate_impl pool r (pool_state s); s = s\<lparr> pool_state := k \<rparr>
      in if memory \<noteq> 0 then Some (Ret memory, s)
         else (case new_handler s of
             Some handler \<Rightarrow> (case run handler s of (Throw e, s) \<Rightarrow> Some (Throw e, s) | (Ret _, s) \<Rightarrow> operator_new_impl pool run b r s)
           | None \<Rightarrow> if b then Some (Throw BadAlloc, s) else operator_new_impl pool run b r s))"
  by (subst operator_new_impl.simps) (simp add: allocate_memory_def Let_def split: prod.split)

text \<open>One failed attempt: the pool refuses, the installed handler runs and returns.\<close>

definition retries :: "'k pool \<Rightarrow> ('h \<Rightarrow> ('k, 'h) new_state \<Rightarrow> unit outcome \<times> ('k, 'h) new_state) \<Rightarrow> alloc_request \<Rightarrow>
    ('k, 'h) new_state \<Rightarrow> ('k, 'h) new_state \<Rightarrow> bool" where
  "retries pool run r s s' \<longleftrightarrow> (let (memory, k) = allocate_impl pool r (pool_state s)
     in memory = 0 \<and> (\<exists>h. new_handler s = Some h \<and> run h (s\<lparr> pool_state := k \<rparr>) = (Ret (), s')))"

inductive retried :: "'k pool \<Rightarrow> ('h \<Rightarrow> ('k, 'h) new_state \<Rightarrow> unit outcome \<times> ('k, 'h) new_state) \<Rightarrow> alloc_request \<Rightarrow>
    ('k, 'h) new_state \<Rightarrow> ('k, 'h) new_state \<Rightarrow> bool" for pool run r where
  retried_none: "retried pool run r s s"
| retried_once: "retries pool run r s s1 \<Longrightarrow> retried pool run r s1 s2 \<Longrightarrow> retried pool run r s s2"

lemma operator_new_retries: "retries pool run r s s' \<Longrightarrow> operator_new_impl pool run b r s = operator_new_impl pool run b r s'"
  by (subst operator_new_impl_step) (auto simp: retries_def split: prod.splits)

lemma operator_new_retried: "retried pool run r s s' \<Longrightarrow> operator_new_impl pool run b r s = operator_new_impl pool run b r s'"
proof (induction rule: retried.induct)
  case (retried_once s s1 s2)
  then show ?case using operator_new_retries [of pool run r s s1 b] by simp
qed simp

lemma operator_new_not_null:
  assumes "operator_new_impl pool run b r s = Some p"
  shows "fst p \<noteq> Ret 0"
  by (rule operator_new_impl.raw_induct [where P = "\<lambda>pl rn b r s p. fst p \<noteq> Ret 0", OF _ assms])
    (auto simp: Let_def split: prod.splits outcome.splits if_splits option.splits)

lemma operator_new_refused:
  assumes "\<And>k. k \<in> full \<Longrightarrow> fst (allocate_impl pool r k) = 0 \<and> snd (allocate_impl pool r k) \<in> full"
    "operator_new_impl pool run b r s = Some p"
  shows "\<not> (\<not> b \<and> pool_state s \<in> full \<and> new_handler s = None)"
proof -
  have "\<not> (pool = pool \<and> r = r \<and> \<not> b \<and> pool_state s \<in> full \<and> new_handler s = None)"
    by (rule operator_new_impl.raw_induct [where P = "\<lambda>pl rn b r' s p. \<not> (pl = pool \<and> r' = r \<and> \<not> b \<and> pool_state s \<in> full \<and> new_handler s = None)",
          OF _ assms(2)])
      (use assms(1) in \<open>fastforce simp: allocate_memory_def Let_def split: prod.splits outcome.splits if_splits option.splits\<close>)
  then show ?thesis by simp
qed

text \<open>The throwing \<^verbatim>\<open>operator new\<close> after any number of failed attempts: when the pool grants the request it returns that block, and when it refuses and no
  handler is installed it throws \<^verbatim>\<open>bad_alloc\<close>; it never returns a null pointer.\<close>

lemma operator_new_outcome:
  assumes "retried pool run r s s'" "allocate_impl pool r (pool_state s') = (memory, k)"
  shows "(memory \<noteq> 0 \<longrightarrow> operator_new_impl pool run True r s = Some (Ret memory, s'\<lparr> pool_state := k \<rparr>)) \<and>
    (memory = 0 \<and> new_handler s' = None \<longrightarrow> operator_new_impl pool run True r s = Some (Throw BadAlloc, s'\<lparr> pool_state := k \<rparr>)) \<and>
    (\<forall>s''. operator_new_impl pool run True r s \<noteq> Some (Ret 0, s''))"
proof -
  have nn: "operator_new_impl pool run True r s \<noteq> Some (Ret 0, s'')" for s'' using operator_new_not_null [of pool run True r s] by auto
  have eq: "operator_new_impl pool run True r s =
      (if memory \<noteq> 0 then Some (Ret memory, s'\<lparr> pool_state := k \<rparr>)
       else (case new_handler s' of
           Some h \<Rightarrow> (case run h (s'\<lparr> pool_state := k \<rparr>) of (Throw e, s) \<Rightarrow> Some (Throw e, s) | (Ret _, s) \<Rightarrow> operator_new_impl pool run True r s)
         | None \<Rightarrow> Some (Throw BadAlloc, s'\<lparr> pool_state := k \<rparr>)))"
    unfolding operator_new_retried [OF assms(1)] using assms(2) by (subst operator_new_impl_step) (simp add: Let_def)
  show ?thesis by (intro conjI allI nn) (simp_all add: eq)
qed

text \<open>A pool that refuses its first request, and a handler that does nothing.\<close>

definition second_pool :: "nat \<Rightarrow> pool_type \<Rightarrow> nat \<Rightarrow> nat \<Rightarrow> nat \<times> nat" where
  "second_pool k p n t = (if k = 0 then 0 else 4096 * k, Suc k)"

lemma operator_new_outcome_witness:
  "operator_new_impl second_pool (\<lambda>(h :: nat) s. (Ret (), s)) True (new_request 8 16 PagedPool) \<lparr> pool_state = 0, new_handler = Some 7 \<rparr> =
     Some (Ret 4096, \<lparr> pool_state = 2, new_handler = Some 7 \<rparr>)"
proof -
  let ?run = "\<lambda>(h :: nat) s :: (nat, nat) new_state. (Ret (), s)" and ?r = "new_request 8 16 PagedPool"
  have "retries second_pool ?run ?r \<lparr> pool_state = 0, new_handler = Some 7 \<rparr> \<lparr> pool_state = 1, new_handler = Some 7 \<rparr>"
    by (simp add: retries_def allocate_impl_def second_pool_def)
  then have "retried second_pool ?run ?r \<lparr> pool_state = 0, new_handler = Some 7 \<rparr> \<lparr> pool_state = 1, new_handler = Some 7 \<rparr>"
    by (rule retried_once [OF _ retried_none])
  from operator_new_outcome [OF this, of 4096 2] show ?thesis by (simp add: allocate_impl_def second_pool_def)
qed

text \<open>The version that must not throw never returns a null pointer either: when the pool keeps refusing and no handler is installed, it
  does not return at all.\<close>

theorem nothrow_new_hangs:
  assumes "\<And>k. k \<in> full \<Longrightarrow> fst (allocate_impl pool r k) = 0 \<and> snd (allocate_impl pool r k) \<in> full" "pool_state s \<in> full" "new_handler s = None"
  shows "operator_new_impl pool run False r s = None"
  using operator_new_refused [OF assms(1), where b = False and run = run and s = s] assms(2,3)
  by (cases "operator_new_impl pool run False r s") auto

theorem nothrow_new_hangs_witness:
  "operator_new_impl (\<lambda>(k :: nat) p n t. (0, Suc k)) (\<lambda>(h :: nat) s. (Ret (), s)) False (new_request 8 16 PagedPool)
     \<lparr> pool_state = 0, new_handler = None \<rparr> = None"
  by (rule nothrow_new_hangs [where full = UNIV]) (simp_all add: allocate_impl_def)

text \<open>Deleting a null pointer does nothing, and every other block goes back with the tag it was allocated with.\<close>

lemma operator_delete_tag:
  "operator_delete_impl free 0 n a k = k"
  "memory \<noteq> 0 \<Longrightarrow> operator_delete_impl free memory n a k = free k memory (ar_pool_tag (new_request n' a' p))"
  by (simp_all add: operator_delete_impl_def deallocate_memory_def new_request_def)

end
