(* ===== verification/Cond_Var.thy ===== *)
theory Cond_Var
  imports Ktl_Prelude
begin

text \<open>
  Condition variables (\<^verbatim>\<open>include/condition_variable.hpp\<close>, \<^verbatim>\<open>src/condition_variable.cpp\<close>) over the synchronization event of
  \<^verbatim>\<open>include/mutex.hpp\<close>. The steps are the accesses to the counter, the event and the caller's mutex; any finite number of threads
  interleave them. The event is the kernel's: setting it releases one sleeping thread or, when nobody sleeps, leaves the event signalled, and a
  wait consumes that signal or falls asleep.
\<close>

section \<open>Threads and their shared state\<close>

text \<open>Where a thread is: in the code around; in \<^verbatim>\<open>wait\<close> before \<^verbatim>\<open>lock.unlock\<close>, before \<^verbatim>\<open>++m_wait_count\<close>, before or asleep in \<^verbatim>\<open>m_event.wait\<close>,
  and before \<^verbatim>\<open>lock.lock\<close>; in \<^verbatim>\<open>notify_one\<close> before its load or its exchange; in \<^verbatim>\<open>notify_all\<close> before its exchange; with a number of calls of
  \<^verbatim>\<open>m_event.set\<close> left.\<close>

datatype cv_pc = Elsewhere | Unlock | Count | Enter | Asleep | Relock | Load | Cas nat | Take_all | Sets nat

record 't cv_state =
  mutex_owner :: "'t option"
  m_wait_count :: nat
  m_event :: bool
  pcs :: "'t \<Rightarrow> cv_pc"

definition goto :: "'t \<Rightarrow> cv_pc \<Rightarrow> 't cv_state \<Rightarrow> 't cv_state" where
  "goto t l s = s\<lparr> pcs := (pcs s)(t := l) \<rparr>"

text \<open>\<^verbatim>\<open>wait\<close>, a step of the thread \<open>t\<close>; \<open>None\<close> while it sleeps or waits for the mutex.\<close>

fun wait_step :: "'t \<Rightarrow> cv_pc \<Rightarrow> 't cv_state \<Rightarrow> 't cv_state option" where
  "wait_step t Unlock s = Some (goto t Count (s\<lparr> mutex_owner := None \<rparr>))"
| "wait_step t Count s = Some (goto t Enter (s\<lparr> m_wait_count := size_wrap (m_wait_count s + 1) \<rparr>))"
| "wait_step t Enter s = Some (if m_event s then goto t Relock (s\<lparr> m_event := False \<rparr>) else goto t Asleep s)"
| "wait_step t Relock s = (if mutex_owner s = None then Some (goto t Elsewhere (s\<lparr> mutex_owner := Some t \<rparr>)) else None)"
| "wait_step t _ s = None"

text \<open>\<^verbatim>\<open>m_event.set\<close>; \<open>u\<close> is the sleeping thread that the kernel releases, if there is one.\<close>

definition releases :: "'t cv_state \<Rightarrow> 't option \<Rightarrow> bool" where
  "releases s u \<longleftrightarrow> (case u of Some t \<Rightarrow> pcs s t = Asleep | None \<Rightarrow> \<forall>t. pcs s t \<noteq> Asleep)"

definition event_set :: "'t option \<Rightarrow> 't cv_state \<Rightarrow> 't cv_state" where
  "event_set u s = (case u of Some t \<Rightarrow> goto t Relock s | None \<Rightarrow> s\<lparr> m_event := True \<rparr>)"

text \<open>\<^verbatim>\<open>notify_one\<close> and \<^verbatim>\<open>notify_all\<close>, the steps on the counter. The calls of \<^verbatim>\<open>set\<close> that follow are counted by \<open>Sets\<close>.\<close>

fun notify_step :: "'t \<Rightarrow> cv_pc \<Rightarrow> 't cv_state \<Rightarrow> 't cv_state option" where
  "notify_step t Load s = Some (if m_wait_count s = 0 then goto t Elsewhere s else goto t (Cas (m_wait_count s)) s)"
| "notify_step t (Cas n) s = Some (if m_wait_count s = n then goto t (Sets 1) (s\<lparr> m_wait_count := n - 1 \<rparr>) else goto t Load s)"
| "notify_step t Take_all s = Some (goto t (Sets (m_wait_count s)) (s\<lparr> m_wait_count := 0 \<rparr>))"
| "notify_step t (Sets 0) s = Some (goto t Elsewhere s)"
| "notify_step t _ s = None"

text \<open>A step of the thread \<open>t\<close>. A thread that is elsewhere locks and unlocks the mutex, calls \<^verbatim>\<open>wait\<close> while it owns the mutex, and calls the
  notifications at any time.\<close>

inductive cv_step :: "'t \<Rightarrow> 't cv_state \<Rightarrow> 't cv_state \<Rightarrow> bool" where
  locks: "pcs s t = Elsewhere \<Longrightarrow> mutex_owner s = None \<Longrightarrow> cv_step t s (s\<lparr> mutex_owner := Some t \<rparr>)"
| unlocks: "pcs s t = Elsewhere \<Longrightarrow> mutex_owner s = Some t \<Longrightarrow> cv_step t s (s\<lparr> mutex_owner := None \<rparr>)"
| calls_wait: "pcs s t = Elsewhere \<Longrightarrow> mutex_owner s = Some t \<Longrightarrow> cv_step t s (goto t Unlock s)"
| calls_notify: "pcs s t = Elsewhere \<Longrightarrow> l \<in> {Load, Take_all} \<Longrightarrow> cv_step t s (goto t l s)"
| waits: "wait_step t (pcs s t) s = Some s' \<Longrightarrow> cv_step t s s'"
| notifies: "notify_step t (pcs s t) s = Some s' \<Longrightarrow> cv_step t s s'"
| sets: "pcs s t = Sets (Suc k) \<Longrightarrow> releases s u \<Longrightarrow> cv_step t s (event_set u (goto t (Sets k) s))"

definition cv_init :: "'t cv_state" where
  "cv_init = \<lparr> mutex_owner = None, m_wait_count = 0, m_event = False, pcs = \<lambda>_. Elsewhere \<rparr>"

definition cv_any :: "'t cv_state \<Rightarrow> 't cv_state \<Rightarrow> bool" where
  "cv_any s s' \<longleftrightarrow> (\<exists>t. cv_step t s s')"

lemma goto_simps [simp]:
  "mutex_owner (goto t l s) = mutex_owner s" "m_wait_count (goto t l s) = m_wait_count s" "m_event (goto t l s) = m_event s"
  "pcs (goto t l s) = (pcs s)(t := l)"
  by (simp_all add: goto_def)

section \<open>Every wake-up is paid for\<close>

text \<open>How many threads wait, and how many calls of \<^verbatim>\<open>set\<close> are due.\<close>

fun waiting :: "cv_pc \<Rightarrow> nat" where
  "waiting Enter = 1" | "waiting Asleep = 1" | "waiting _ = 0"

fun due :: "cv_pc \<Rightarrow> nat" where
  "due (Sets k) = k" | "due _ = 0"

definition cv_total :: "(cv_pc \<Rightarrow> nat) \<Rightarrow> ('t :: finite) cv_state \<Rightarrow> nat" where
  "cv_total w s = (\<Sum>t \<in> UNIV. w (pcs s t))"

lemma cv_total_goto: "cv_total w (goto t l s) + w (pcs s t) = cv_total w s + w l"
proof -
  have "cv_total w s = w (pcs s t) + (\<Sum>u \<in> UNIV - {t}. w (pcs s u))"
    unfolding cv_total_def by (subst sum.remove [of _ t]) simp_all
  moreover have "cv_total w (goto t l s) = w l + (\<Sum>u \<in> UNIV - {t}. w (pcs s u))"
    unfolding cv_total_def by (subst sum.remove [of _ t]) (auto intro!: sum.cong)
  ultimately show ?thesis by simp
qed

lemma cv_total_pcs: "pcs s' = pcs s \<Longrightarrow> cv_total w s' = cv_total w s"
  by (simp add: cv_total_def)

lemma cv_total_update [simp]:
  "cv_total w (s\<lparr> mutex_owner := a \<rparr>) = cv_total w s" "cv_total w (s\<lparr> m_wait_count := n \<rparr>) = cv_total w s" "cv_total w (s\<lparr> m_event := b \<rparr>) = cv_total w s"
  by (simp_all add: cv_total_def)

text \<open>The signals that are counted, due or stored never exceed the number of waiting threads; a stored signal means that nobody sleeps; a
  thread that is about to unlock in \<^verbatim>\<open>wait\<close> owns the mutex, and an exchange never expects 0.\<close>

definition cv_inv :: "('t :: finite) cv_state \<Rightarrow> bool" where
  "cv_inv s \<longleftrightarrow> m_wait_count s + cv_total due s + of_bool (m_event s) \<le> cv_total waiting s \<and>
     (m_event s \<longrightarrow> (\<forall>t. pcs s t \<noteq> Asleep)) \<and> (\<forall>t. pcs s t = Unlock \<longrightarrow> mutex_owner s = Some t) \<and> (\<forall>t. pcs s t \<noteq> Cas 0)"

lemma cv_inv_goto:
  assumes "cv_inv s" "pcs s' = pcs s"
    "m_wait_count s' + due l + of_bool (m_event s') + waiting (pcs s t) \<le> m_wait_count s + due (pcs s t) + of_bool (m_event s) + waiting l"
    "m_event s' \<Longrightarrow> l \<noteq> Asleep \<and> (\<forall>u. u \<noteq> t \<longrightarrow> pcs s u \<noteq> Asleep)"
    "l = Unlock \<Longrightarrow> mutex_owner s' = Some t" "\<And>u. u \<noteq> t \<Longrightarrow> pcs s u = Unlock \<Longrightarrow> mutex_owner s = Some u \<Longrightarrow> mutex_owner s' = Some u"
    "l \<noteq> Cas 0"
  shows "cv_inv (goto t l s')"
proof -
  have "cv_total w s' = cv_total w s" for w using assms(2) by (rule cv_total_pcs)
  then have "cv_total waiting (goto t l s') + waiting (pcs s t) = cv_total waiting s + waiting l"
    "cv_total due (goto t l s') + due (pcs s t) = cv_total due s + due l"
    using cv_total_goto [of waiting t l s'] cv_total_goto [of due t l s'] assms(2) by simp_all
  moreover have "m_wait_count s + cv_total due s + of_bool (m_event s) \<le> cv_total waiting s" using assms(1) by (simp add: cv_inv_def)
  ultimately have "m_wait_count s' + cv_total due (goto t l s') + of_bool (m_event s') \<le> cv_total waiting (goto t l s')"
    using assms(3) by linarith
  moreover have "mutex_owner s' = Some u" if "u \<noteq> t" "pcs s u = Unlock" for u
    using assms(1,6) that by (simp add: cv_inv_def)
  moreover have "\<forall>u. pcs s u \<noteq> Cas 0" using assms(1) by (simp add: cv_inv_def)
  ultimately show ?thesis using assms(2,4,5,7) by (simp add: cv_inv_def)
qed

lemma cv_inv_asleep: "cv_inv s \<Longrightarrow> m_event s \<Longrightarrow> pcs s t \<noteq> Asleep"
  by (simp add: cv_inv_def)

lemma wait_step_inv:
  assumes "cv_inv s" "wait_step t (pcs s t) s = Some s'"
  shows "cv_inv s'"
proof (cases "pcs s t")
  case Count
  have "size_wrap (m_wait_count s + 1) \<le> m_wait_count s + 1" by (rule mod_less_eq_dividend)
  then have "cv_inv (goto t Enter (s\<lparr> m_wait_count := size_wrap (m_wait_count s + 1) \<rparr>))"
    using Count by (intro cv_inv_goto [OF assms(1)]) (simp_all add: cv_inv_asleep [OF assms(1)])
  then show ?thesis using assms(2) Count by simp
next
  case Enter
  have "cv_inv (goto t Relock (s\<lparr> m_event := False \<rparr>))" if "m_event s"
    using Enter that by (intro cv_inv_goto [OF assms(1)]) simp_all
  moreover have "cv_inv (goto t Asleep s)" if "\<not> m_event s" using Enter that by (intro cv_inv_goto [OF assms(1)]) simp_all
  ultimately show ?thesis using assms(2) Enter by (simp split: if_splits)
next
  case Unlock
  then have "mutex_owner s = Some t" using assms(1) by (simp add: cv_inv_def)
  then have "cv_inv (goto t Count (s\<lparr> mutex_owner := None \<rparr>))"
    using Unlock by (intro cv_inv_goto [OF assms(1)]) (simp_all add: cv_inv_asleep [OF assms(1)])
  then show ?thesis using assms(2) Unlock by simp
next
  case Relock
  have "cv_inv (goto t Elsewhere (s\<lparr> mutex_owner := Some t \<rparr>))" if "mutex_owner s = None"
    using Relock that by (intro cv_inv_goto [OF assms(1)]) (simp_all add: cv_inv_asleep [OF assms(1)])
  then show ?thesis using assms(2) Relock by (simp split: if_splits)
qed (use assms(2) in simp_all)

lemma notify_step_inv:
  assumes "cv_inv s" "notify_step t (pcs s t) s = Some s'"
  shows "cv_inv s'"
proof (cases "pcs s t")
  case Load
  then have "cv_inv (goto t Elsewhere s)" "m_wait_count s \<noteq> 0 \<Longrightarrow> cv_inv (goto t (Cas (m_wait_count s)) s)"
    by (auto intro!: cv_inv_goto [OF assms(1)] simp: cv_inv_asleep [OF assms(1)])
  then show ?thesis using assms(2) Load by (simp split: if_splits)
next
  case (Cas n)
  have "cv_inv (goto t Load s)" using Cas by (auto intro!: cv_inv_goto [OF assms(1)] simp: cv_inv_asleep [OF assms(1)])
  moreover have "cv_inv (goto t (Sets 1) (s\<lparr> m_wait_count := n - 1 \<rparr>))" if "m_wait_count s = n" "n \<noteq> 0"
    using Cas that by (intro cv_inv_goto [OF assms(1)]) (simp_all add: cv_inv_asleep [OF assms(1)])
  moreover have "n \<noteq> 0" using assms(1) Cas by (metis cv_inv_def)
  ultimately show ?thesis using assms(2) Cas by (simp split: if_splits)
next
  case Take_all
  then have "cv_inv (goto t (Sets (m_wait_count s)) (s\<lparr> m_wait_count := 0 \<rparr>))"
    by (intro cv_inv_goto [OF assms(1)]) (simp_all add: cv_inv_asleep [OF assms(1)])
  then show ?thesis using assms(2) Take_all by simp
next
  case (Sets k)
  have "cv_inv (goto t Elsewhere s)" if "k = 0"
    using Sets that by (intro cv_inv_goto [OF assms(1)]) (simp_all add: cv_inv_asleep [OF assms(1)])
  then show ?thesis using assms(2) Sets by (cases k) simp_all
qed (use assms(2) in simp_all)

lemma sets_inv:
  assumes "cv_inv s" "pcs s t = Sets (Suc k)" "releases s u"
  shows "cv_inv (event_set u (goto t (Sets k) s))"
proof (cases u)
  case None
  then have "event_set u (goto t (Sets k) s) = goto t (Sets k) (s\<lparr> m_event := True \<rparr>)" "\<forall>v. pcs s v \<noteq> Asleep"
    using assms(3) by (simp_all add: event_set_def goto_def releases_def)
  then show ?thesis using assms(2) by (auto intro!: cv_inv_goto [OF assms(1)] simp: of_bool_def)
next
  case (Some v)
  then have v: "pcs s v = Asleep" "v \<noteq> t" using assms(2,3) by (auto simp: releases_def)
  then have "\<not> m_event s" using cv_inv_asleep [OF assms(1)] by blast
  have ev: "event_set u (goto t (Sets k) s) = goto t (Sets k) (goto v Relock s)"
    using Some v by (simp add: event_set_def goto_def fun_upd_twist)
  let ?s = "goto t (Sets k) (goto v Relock s)"
  note g = cv_total_goto [of _ t "Sets k" "goto v Relock s"] cv_total_goto [of _ v Relock s]
  have "cv_total due ?s + 1 = cv_total due s" "cv_total waiting ?s + 1 = cv_total waiting s"
    using g [of due] g [of waiting] v assms(2) by simp_all
  then show ?thesis unfolding ev using assms(1) v \<open>\<not> m_event s\<close> by (simp add: cv_inv_def)
qed

lemma cv_step_inv: "cv_step t s s' \<Longrightarrow> cv_inv s \<Longrightarrow> cv_inv s'"
proof (induction rule: cv_step.induct)
  case (calls_notify s t l)
  then show ?case by (auto intro!: cv_inv_goto simp: cv_inv_asleep)
next
  case (calls_wait s t)
  then show ?case by (auto intro!: cv_inv_goto simp: cv_inv_asleep)
next
  case (locks s t)
  then show ?case by (auto simp: cv_inv_def)
next
  case (unlocks s t)
  then show ?case by (auto simp: cv_inv_def)
qed (blast intro: wait_step_inv notify_step_inv sets_inv)+

lemma cv_reach_inv: "cv_any\<^sup>*\<^sup>* cv_init s \<Longrightarrow> cv_inv s"
proof (induction rule: rtranclp_induct)
  case base
  show ?case by (simp add: cv_inv_def cv_init_def cv_total_def)
qed (auto simp: cv_any_def intro: cv_step_inv)

text \<open>C7: In every reachable state the signals that are still counted, about to be given or stored in the event never exceed the
  number of threads that wait, so every thread that returns from \<^verbatim>\<open>wait\<close> was notified and the counter never runs below 0; and no thread sleeps
  while a signal is stored.\<close>

theorem wakeups_paid_for:
  assumes "cv_any\<^sup>*\<^sup>* cv_init s"
  shows "m_wait_count s + cv_total due s + of_bool (m_event s) \<le> cv_total waiting s \<and> (m_event s \<longrightarrow> (\<forall>t. pcs s t \<noteq> Asleep))"
  using cv_reach_inv [OF assms] by (simp add: cv_inv_def)

section \<open>Notifying threads that sleep\<close>

text \<open>The steps of one call of \<^verbatim>\<open>notify_all\<close> while no other thread runs.\<close>

definition notifying :: "'t \<Rightarrow> 't cv_state \<Rightarrow> 't cv_state \<Rightarrow> bool" where
  "notifying t s s' \<longleftrightarrow> pcs s t \<noteq> Elsewhere \<and> cv_step t s s'"

definition sleepers :: "'t cv_state \<Rightarrow> 't set" where
  "sleepers s = {u. pcs s u = Asleep}"

inductive_cases cv_stepE: "cv_step t s s'"

lemma notifying_sets_Suc:
  assumes "notifying t s s'" "pcs s t = Sets (Suc k)" "sleepers s \<noteq> {}"
  obtains u where "u \<in> sleepers s" "u \<noteq> t" "s' = goto u Relock (goto t (Sets k) s)"
proof -
  from assms(1,2) obtain u where u: "releases s u" "s' = event_set u (goto t (Sets k) s)"
    unfolding notifying_def by (auto elim!: cv_stepE)
  then obtain v where "u = Some v" "pcs s v = Asleep" using assms(3) by (cases u) (auto simp: releases_def sleepers_def)
  moreover from this have "v \<noteq> t" using assms(2) by auto
  ultimately show ?thesis using that [of v] u(2) by (simp add: event_set_def sleepers_def)
qed

lemma notifying_sets_0: "notifying t s s' \<Longrightarrow> pcs s t = Sets 0 \<Longrightarrow> s' = goto t Elsewhere s"
  unfolding notifying_def by (auto elim!: cv_stepE)

lemma notifying_stop: "(notifying t)\<^sup>*\<^sup>* s s' \<Longrightarrow> pcs s t = Elsewhere \<Longrightarrow> s' = s"
  by (erule converse_rtranclpE) (auto simp: notifying_def)

lemma sleepers_goto: "u \<in> sleepers s \<Longrightarrow> u \<noteq> t \<Longrightarrow> pcs s t \<noteq> Asleep \<Longrightarrow> sleepers (goto u Relock (goto t (Sets k) s)) = sleepers s - {u}"
  by (auto simp: sleepers_def)

lemma sets_all:
  fixes s :: "('t :: finite) cv_state"
  assumes "pcs s t = Sets k" "card (sleepers s) = k" "(notifying t)\<^sup>*\<^sup>* s s'" "pcs s' t = Elsewhere"
  shows "pcs s' = (\<lambda>u. if u = t then Elsewhere else if u \<in> sleepers s then Relock else pcs s u)"
  using assms
proof (induction k arbitrary: s)
  case 0
  then obtain s1 where "notifying t s s1" "(notifying t)\<^sup>*\<^sup>* s1 s'" by (auto elim: converse_rtranclpE)
  then have "s' = goto t Elsewhere s" using notifying_sets_0 [of t s s1] notifying_stop [of t s1 s'] 0(1) by auto
  then show ?case using 0(2) by (auto simp: sleepers_def)
next
  case (Suc k)
  then obtain s1 where s1: "notifying t s s1" "(notifying t)\<^sup>*\<^sup>* s1 s'" by (auto elim: converse_rtranclpE)
  have "sleepers s \<noteq> {}" using Suc.prems(2) by auto
  then obtain u where u: "u \<in> sleepers s" "u \<noteq> t" "s1 = goto u Relock (goto t (Sets k) s)"
    using notifying_sets_Suc [OF s1(1) Suc.prems(1)] by blast
  have sl: "sleepers s1 = sleepers s - {u}" using u Suc.prems(1) sleepers_goto [of u s t k] by simp
  have "pcs s' = (\<lambda>v. if v = t then Elsewhere else if v \<in> sleepers s1 then Relock else pcs s1 v)"
    using Suc.IH [OF _ _ s1(2) Suc.prems(4)] sl u Suc.prems(2) by simp
  then show ?case using sl u by (auto simp: fun_eq_iff)
qed

lemma sets_return:
  fixes s :: "('t :: finite) cv_state"
  assumes "pcs s t = Sets k"
  shows "\<exists>s'. (notifying t)\<^sup>*\<^sup>* s s' \<and> pcs s' t = Elsewhere"
  using assms
proof (induction k arbitrary: s)
  case 0
  then have "notifying t s (goto t Elsewhere s)" by (auto simp: notifying_def intro: notifies)
  then show ?case by (auto intro!: exI [of _ "goto t Elsewhere s"])
next
  case (Suc k)
  have "\<exists>u. releases s u" by (cases "\<exists>v. pcs s v = Asleep") (auto simp: releases_def split: option.splits)
  then obtain u where u: "releases s u" ..
  then have "u \<noteq> Some t" using Suc.prems by (auto simp: releases_def)
  let ?s = "event_set u (goto t (Sets k) s)"
  have "notifying t s ?s" using u Suc.prems by (auto simp: notifying_def intro: sets)
  moreover have "pcs ?s t = Sets k" using \<open>u \<noteq> Some t\<close> by (auto simp: event_set_def split: option.splits)
  ultimately show ?case using Suc.IH [of ?s] by (meson converse_rtranclp_into_rtranclp)
qed

text \<open>Steps of any thread, as long as no thread begins another \<^verbatim>\<open>wait\<close>.\<close>

definition quiet :: "'t cv_state \<Rightarrow> 't cv_state \<Rightarrow> bool" where
  "quiet s s' \<longleftrightarrow> cv_any s s' \<and> (\<forall>t. pcs s' t = Unlock \<longrightarrow> pcs s t = Unlock)"

text \<open>Nobody is on the way to the event, no signal is stored, and every sleeping thread is counted or has a call of \<^verbatim>\<open>set\<close> due.\<close>

definition settled :: "('t :: finite) cv_state \<Rightarrow> bool" where
  "settled s \<longleftrightarrow> (\<forall>t. pcs s t \<notin> {Unlock, Count, Enter, Cas 0}) \<and> \<not> m_event s \<and>
     m_wait_count s + cv_total due s = card (sleepers s)"

lemma settled_goto:
  assumes "settled s" "pcs s' = pcs s" "\<not> m_event s'" "pcs s t \<noteq> Asleep" "l \<notin> {Unlock, Count, Enter, Cas 0, Asleep}"
    "m_wait_count s' + due l = m_wait_count s + due (pcs s t)"
  shows "settled (goto t l s') \<and> sleepers (goto t l s') \<subseteq> sleepers s"
proof -
  have "sleepers (goto t l s') = sleepers s" using assms(2,4,5) by (auto simp: sleepers_def)
  moreover have "cv_total due (goto t l s') + due (pcs s t) = cv_total due s + due l"
    using cv_total_goto [of due t l s'] cv_total_pcs [OF assms(2)] assms(2) by simp
  ultimately show ?thesis using assms by (simp add: settled_def)
qed

lemma cv_total_due: "pcs s t = Sets (Suc k) \<Longrightarrow> 0 < cv_total due s"
  using member_le_sum [of t UNIV "\<lambda>u. due (pcs s u)"] by (simp add: cv_total_def)

lemma settled_sets:
  assumes "settled s" "pcs s t = Sets (Suc k)" "releases s u"
  shows "settled (event_set u (goto t (Sets k) s)) \<and> sleepers (event_set u (goto t (Sets k) s)) \<subseteq> sleepers s"
proof -
  have "sleepers s \<noteq> {}" using assms(1) cv_total_due [OF assms(2)] by (auto simp: settled_def)
  then obtain v where v: "u = Some v" "pcs s v = Asleep"
    using assms(3) by (cases u) (auto simp: releases_def sleepers_def)
  then have "v \<noteq> t" using assms(2) by auto
  have ev: "event_set u (goto t (Sets k) s) = goto v Relock (goto t (Sets k) s)" (is "_ = ?s")
    using v(1) by (simp add: event_set_def)
  have sl: "sleepers ?s = sleepers s - {v}" "v \<in> sleepers s" using v assms(2) by (auto simp: sleepers_def)
  have "cv_total due ?s + 1 = cv_total due s"
    using cv_total_goto [of due v Relock "goto t (Sets k) s"] cv_total_goto [of due t "Sets k" s] v \<open>v \<noteq> t\<close> assms(2) by simp
  moreover have "card (sleepers ?s) + 1 = card (sleepers s)" using sl card_Suc_Diff1 [OF _ sl(2)] by simp
  ultimately show ?thesis unfolding ev using assms(1) sl(1) by (auto simp: settled_def)
qed

lemma settled_step:
  assumes "quiet s s'" "settled s"
  shows "settled s' \<and> sleepers s' \<subseteq> sleepers s"
proof -
  from assms(1) obtain t where st: "cv_step t s s'" and q: "\<And>t. pcs s' t = Unlock \<Longrightarrow> pcs s t = Unlock" by (auto simp: quiet_def cv_any_def)
  have nu: "\<forall>t. pcs s' t \<noteq> Unlock" using q assms(2) by (auto simp: settled_def)
  have ne: "\<not> m_event s" using assms(2) by (simp add: settled_def)
  note moves = settled_goto [OF assms(2)]
  from st show ?thesis
  proof (cases rule: cv_step.cases)
    case waits
    then have "pcs s t = Relock" using assms(2) by (cases "pcs s t") (auto simp: settled_def)
    then show ?thesis using waits ne moves [of "s\<lparr> mutex_owner := Some t \<rparr>" t Elsewhere] by (simp split: if_splits)
  next
    case notifies
    have "pcs s t \<noteq> Cas 0" using assms(2) by (auto simp: settled_def)
    then consider "pcs s t = Load" | n where "pcs s t = Cas n" "n \<noteq> 0" | "pcs s t = Take_all" | "pcs s t = Sets 0"
      using notifies by (cases "pcs s t") (auto elim: notify_step.elims)
    then show ?thesis using notifies ne
      moves [of s t Elsewhere] moves [of s t Load] moves [of s t "Cas (m_wait_count s)"]
      moves [of "s\<lparr> m_wait_count := m_wait_count s - 1 \<rparr>" t "Sets 1"] moves [of "s\<lparr> m_wait_count := 0 \<rparr>" t "Sets (m_wait_count s)"]
      by cases (simp_all split: if_splits)
  next
    case (sets k u)
    then show ?thesis using settled_sets [OF assms(2)] by simp
  next
    case (calls_notify l)
    then have "settled (goto t l s) \<and> sleepers (goto t l s) \<subseteq> sleepers s" using ne by (intro moves) auto
    then show ?thesis using calls_notify by simp
  next
    case calls_wait
    then have "pcs s' t = Unlock" by simp
    then show ?thesis using nu by blast
  qed (use assms(2) in \<open>auto simp: settled_def sleepers_def\<close>)
qed

lemma settled_run: "quiet\<^sup>*\<^sup>* s s' \<Longrightarrow> settled s \<Longrightarrow> settled s' \<and> sleepers s' \<subseteq> sleepers s"
  by (induction rule: rtranclp_induct) (auto dest: settled_step)

text \<open>From the exchange of \<^verbatim>\<open>notify_all\<close> on, nobody is counted.\<close>

lemma taken_step:
  assumes "quiet s s'" "settled s" "pcs s t = Take_all \<or> m_wait_count s = 0"
  shows "pcs s' t = Take_all \<or> m_wait_count s' = 0"
proof -
  from assms(1) obtain v where st: "cv_step v s s'" by (auto simp: quiet_def cv_any_def)
  from st show ?thesis
  proof (cases rule: cv_step.cases)
    case waits
    then have "pcs s v = Relock" using assms(2) by (cases "pcs s v") (auto simp: settled_def)
    then show ?thesis using waits assms(3) by (auto split: if_splits)
  next
    case notifies
    have "pcs s v \<noteq> Cas 0" using assms(2) by (auto simp: settled_def)
    then consider "pcs s v = Load" | n where "pcs s v = Cas n" "n \<noteq> 0" | "pcs s v = Take_all" | "pcs s v = Sets 0"
      using notifies by (cases "pcs s v") (auto elim: notify_step.elims)
    then show ?thesis using notifies assms(3) by cases (auto split: if_splits)
  next
    case (sets k u)
    then show ?thesis using assms(3) by (auto simp: event_set_def releases_def split: option.splits)
  qed (use assms(3) in auto)
qed

lemma taken_run: "quiet\<^sup>*\<^sup>* s s' \<Longrightarrow> settled s \<Longrightarrow> pcs s t = Take_all \<Longrightarrow> pcs s' t = Take_all \<or> m_wait_count s' = 0"
proof (induction rule: rtranclp_induct)
  case (step s1 s2)
  then have "settled s1" using settled_run by blast
  with step show ?case by (intro taken_step [of s1 s2 t]) simp_all
qed simp

lemma reached_settled:
  assumes "cv_any\<^sup>*\<^sup>* cv_init s" "m_wait_count s = card (sleepers s)" "\<forall>u. pcs s u \<notin> {Unlock, Count, Enter}"
  shows "settled s"
proof -
  have "waiting (pcs s u) = of_bool (u \<in> sleepers s)" for u
    using assms(3) by (cases "pcs s u") (auto simp: sleepers_def)
  then have "cv_total waiting s = card (sleepers s)" by (simp add: cv_total_def)
  then show ?thesis using cv_reach_inv [OF assms(1)] assms(2,3) by (auto simp: settled_def cv_inv_def)
qed

text \<open>The call returns by its own steps, whatever the other threads did.\<close>

lemma notify_all_returns:
  fixes s :: "('t :: finite) cv_state"
  assumes "pcs s t = Take_all \<or> (\<exists>k. pcs s t = Sets k)"
  shows "\<exists>s'. (notifying t)\<^sup>*\<^sup>* s s' \<and> pcs s' t = Elsewhere"
  using assms
proof
  assume t: "pcs s t = Take_all"
  let ?s = "goto t (Sets (m_wait_count s)) (s\<lparr> m_wait_count := 0 \<rparr>)"
  have "notifying t s ?s" using t by (auto simp: notifying_def intro: notifies)
  then show ?thesis using sets_return [of ?s t "m_wait_count s"] by (auto intro: converse_rtranclp_into_rtranclp)
qed (auto intro: sets_return)

text \<open>C8: \<^verbatim>\<open>notify_all\<close> of a thread \<open>t\<close>, from a reachable state in which all counted threads sleep and no thread is on its way into a \<^verbatim>\<open>wait\<close>, while the
  other threads take any steps except to begin another \<^verbatim>\<open>wait\<close> (\<open>quiet\<close>). At every moment the call can be finished by the steps of \<open>t\<close> alone. Once
  it has returned nobody is counted and no signal is stored, no thread fell asleep, and a thread still sleeps only for a call of \<^verbatim>\<open>set\<close> that another
  notification has yet to make: without one, all are awake. When no other thread takes a step in between, the call wakes exactly the sleepers, whichever the event releases
  first, and moves no other thread.\<close>

theorem notify_all_wakes_sleepers:
  fixes s :: "('t :: finite) cv_state"
  assumes "cv_any\<^sup>*\<^sup>* cv_init s" "pcs s t = Take_all" "m_wait_count s = card (sleepers s)" "\<forall>u. pcs s u \<notin> {Unlock, Count, Enter}"
  shows "(\<forall>s1. quiet\<^sup>*\<^sup>* s s1 \<and> (pcs s1 t = Take_all \<or> (\<exists>k. pcs s1 t = Sets k)) \<longrightarrow> (\<exists>s'. (notifying t)\<^sup>*\<^sup>* s1 s' \<and> pcs s' t = Elsewhere)) \<and>
    (\<forall>s'. quiet\<^sup>*\<^sup>* s s' \<and> pcs s' t = Elsewhere \<longrightarrow>
       m_wait_count s' = 0 \<and> \<not> m_event s' \<and> sleepers s' \<subseteq> sleepers s \<and> card (sleepers s') = cv_total due s') \<and>
    (\<forall>s'. (notifying t)\<^sup>*\<^sup>* s s' \<and> pcs s' t = Elsewhere \<longrightarrow>
       pcs s' = (\<lambda>u. if u = t then Elsewhere else if pcs s u = Asleep then Relock else pcs s u))"
proof (intro conjI allI impI; (elim conjE)?)
  have settled: "settled s" by (rule reached_settled [OF assms(1,3,4)])
  fix s' assume run: "quiet\<^sup>*\<^sup>* s s'" and ret: "pcs s' t = Elsewhere"
  note s' = settled_run [OF run settled]
  show "m_wait_count s' = 0" using taken_run [OF run settled assms(2)] ret by simp
  then show "card (sleepers s') = cv_total due s'" "\<not> m_event s'" "sleepers s' \<subseteq> sleepers s"
    using s' by (simp_all add: settled_def)
next
  let ?s = "goto t (Sets (m_wait_count s)) (s\<lparr> m_wait_count := 0 \<rparr>)"
  fix s' assume run: "(notifying t)\<^sup>*\<^sup>* s s'" "pcs s' t = Elsewhere"
  have only: "notifying t s s1 \<Longrightarrow> s1 = ?s" for s1
    using assms(2) by (auto simp: notifying_def elim!: cv_stepE)
  have sl: "sleepers ?s = sleepers s" using assms(2) by (auto simp: sleepers_def)
  have "(notifying t)\<^sup>*\<^sup>* ?s s'" using run assms(2) only by (auto elim: converse_rtranclpE)
  from sets_all [OF _ _ this run(2), of "m_wait_count s"]
  show "pcs s' = (\<lambda>u. if u = t then Elsewhere else if pcs s u = Asleep then Relock else pcs s u)"
    using sl assms(3) by (auto simp: fun_eq_iff sleepers_def)
qed (rule notify_all_returns)

section \<open>Lost wake-ups\<close>

text \<open>Of the threads \<open>W\<close>, all on their way to the event or past it, at most one is past it: the event stores one signal and no call of \<^verbatim>\<open>set\<close> is due.\<close>

definition one_passes :: "'t set \<Rightarrow> ('t :: finite) cv_state \<Rightarrow> bool" where
  "one_passes W s \<longleftrightarrow> m_wait_count s = 0 \<and> (\<forall>t. pcs s t \<notin> {Unlock, Count, Cas 0} \<and> (\<forall>k. pcs s t \<noteq> Sets (Suc k))) \<and>
     (m_event s \<longrightarrow> (\<forall>t. pcs s t \<noteq> Asleep)) \<and> {u. pcs s u \<in> {Enter, Asleep}} \<subseteq> W \<and>
     card (W - {u. pcs s u \<in> {Enter, Asleep}}) + of_bool (m_event s) = 1"

lemma one_passes_goto:
  assumes "one_passes W s" "pcs s' = pcs s" "m_wait_count s' = 0" "m_event s' = m_event s" "pcs s t \<notin> {Enter, Asleep}"
    "l \<notin> {Enter, Asleep, Unlock, Count, Cas 0}" "\<And>k. l \<noteq> Sets (Suc k)"
  shows "one_passes W (goto t l s')"
proof -
  have "{u. pcs (goto t l s') u \<in> {Enter, Asleep}} = {u. pcs s u \<in> {Enter, Asleep}}" using assms(2,5,6) by auto
  then show ?thesis using assms unfolding one_passes_def by auto
qed

lemma one_passes_enter:
  assumes "one_passes W s" "pcs s t = Enter"
  shows "m_event s \<Longrightarrow> one_passes W (goto t Relock (s\<lparr> m_event := False \<rparr>))" "\<not> m_event s \<Longrightarrow> one_passes W (goto t Asleep s)"
proof -
  let ?in = "{u. pcs s u \<in> {Enter, Asleep}}"
  have t: "t \<in> W" "t \<in> ?in" using assms by (auto simp: one_passes_def)
  have same: "{u. pcs (goto t Asleep s) u \<in> {Enter, Asleep}} = ?in" using assms(2) by auto
  show "\<not> m_event s \<Longrightarrow> one_passes W (goto t Asleep s)"
    using assms(1) same unfolding one_passes_def by auto
  have less: "{u. pcs (goto t Relock (s\<lparr> m_event := False \<rparr>)) u \<in> {Enter, Asleep}} = ?in - {t}" by auto
  have "W - (?in - {t}) = insert t (W - ?in)" using t by auto
  then have "card (W - (?in - {t})) = Suc (card (W - ?in))" using t by simp
  then show "m_event s \<Longrightarrow> one_passes W (goto t Relock (s\<lparr> m_event := False \<rparr>))"
    using assms(1) less unfolding one_passes_def by auto
qed

lemma one_passes_step:
  assumes "quiet s s'" "one_passes W s"
  shows "one_passes W s'"
proof -
  from assms(1) obtain t where st: "cv_step t s s'" and q: "\<And>t. pcs s' t = Unlock \<Longrightarrow> pcs s t = Unlock" by (auto simp: quiet_def cv_any_def)
  have nu: "\<forall>t. pcs s' t \<noteq> Unlock" using q assms(2) by (auto simp: one_passes_def)
  have c0: "m_wait_count s = 0" using assms(2) by (simp add: one_passes_def)
  note moves = one_passes_goto [OF assms(2)]
  from st show ?thesis
  proof (cases rule: cv_step.cases)
    case waits
    then consider "pcs s t = Enter" | "pcs s t = Relock" using assms(2) by (cases "pcs s t") (auto simp: one_passes_def)
    then show ?thesis
      using waits one_passes_enter [OF assms(2), of t] c0 by cases (auto intro!: moves split: if_splits)
  next
    case notifies
    have "pcs s t \<noteq> Cas 0" using assms(2) by (auto simp: one_passes_def)
    then consider "pcs s t = Load" | n where "pcs s t = Cas n" "n \<noteq> 0" | "pcs s t = Take_all" | "pcs s t = Sets 0"
      using notifies by (cases "pcs s t") (auto elim: notify_step.elims)
    then show ?thesis using notifies c0 by cases (auto intro!: moves split: if_splits)
  next
    case calls_notify
    then show ?thesis using c0 by (auto intro!: moves)
  next
    case calls_wait
    then have "pcs s' t = Unlock" by simp
    then show ?thesis using nu by blast
  qed (use assms(2) in \<open>auto simp: one_passes_def\<close>)
qed

lemma one_passes_run: "quiet\<^sup>*\<^sup>* s s' \<Longrightarrow> one_passes W s \<Longrightarrow> one_passes W s'"
  by (induction rule: rtranclp_induct) (auto dest: one_passes_step)

text \<open>The calls of \<^verbatim>\<open>set\<close> while nobody sleeps leave one signal, however many they are.\<close>

lemma sets_merge:
  assumes "pcs s t = Sets k" "sleepers s = {}" "(notifying t)\<^sup>*\<^sup>* s s'" "pcs s' t = Elsewhere"
  shows "s' = goto t Elsewhere (s\<lparr> m_event := m_event s \<or> 0 < k \<rparr>)"
  using assms
proof (induction k arbitrary: s)
  case 0
  then obtain s1 where "notifying t s s1" "(notifying t)\<^sup>*\<^sup>* s1 s'" by (auto elim: converse_rtranclpE)
  then show ?case using notifying_sets_0 [of t s s1] notifying_stop [of t s1 s'] 0(1) by (auto simp: goto_def)
next
  case (Suc k)
  then obtain s1 where s1: "notifying t s s1" "(notifying t)\<^sup>*\<^sup>* s1 s'" by (auto elim: converse_rtranclpE)
  from s1(1) Suc.prems(1) obtain u where "releases s u" "s1 = event_set u (goto t (Sets k) s)"
    unfolding notifying_def by (auto elim!: cv_stepE)
  then have s1': "s1 = goto t (Sets k) (s\<lparr> m_event := True \<rparr>)"
    using Suc.prems(2) by (cases u) (auto simp: releases_def sleepers_def event_set_def goto_def)
  then have "pcs s1 t = Sets k" "sleepers s1 = {}" using Suc.prems(2) by (auto simp: sleepers_def)
  from Suc.IH [OF this s1(2) Suc.prems(4)] show ?case unfolding s1' by (simp add: goto_def)
qed

text \<open>Schedules: which thread runs, what it calls when it is elsewhere, and whom the event releases.\<close>

datatype 't cv_choice = Lock | Release | Wait | Notify_one | Notify_all | Go | Set_event "'t option"

fun cv_exec :: "'t \<times> 't cv_choice \<Rightarrow> 't cv_state \<Rightarrow> 't cv_state option" where
  "cv_exec (t, Lock) s = (if pcs s t = Elsewhere \<and> mutex_owner s = None then Some (s\<lparr> mutex_owner := Some t \<rparr>) else None)"
| "cv_exec (t, Release) s = (if pcs s t = Elsewhere \<and> mutex_owner s = Some t then Some (s\<lparr> mutex_owner := None \<rparr>) else None)"
| "cv_exec (t, Wait) s = (if pcs s t = Elsewhere \<and> mutex_owner s = Some t then Some (goto t Unlock s) else None)"
| "cv_exec (t, Notify_one) s = (if pcs s t = Elsewhere then Some (goto t Load s) else None)"
| "cv_exec (t, Notify_all) s = (if pcs s t = Elsewhere then Some (goto t Take_all s) else None)"
| "cv_exec (t, Go) s = (case wait_step t (pcs s t) s of Some s' \<Rightarrow> Some s' | None \<Rightarrow> notify_step t (pcs s t) s)"
| "cv_exec (t, Set_event u) s =
     (case pcs s t of Sets (Suc k) \<Rightarrow> if releases s u then Some (event_set u (goto t (Sets k) s)) else None | _ \<Rightarrow> None)"

fun cv_schedule :: "('t \<times> 't cv_choice) list \<Rightarrow> 't cv_state \<Rightarrow> 't cv_state option" where
  "cv_schedule [] s = Some s"
| "cv_schedule (c # cs) s = (case cv_exec c s of Some s' \<Rightarrow> cv_schedule cs s' | None \<Rightarrow> None)"

lemma cv_exec_step: "cv_exec (t, c) s = Some s' \<Longrightarrow> cv_step t s s'"
  by (cases c) (auto split: if_splits option.splits cv_pc.splits nat.splits intro: cv_step.intros)

lemma cv_schedule_reach: "cv_schedule cs s = Some s' \<Longrightarrow> cv_any\<^sup>*\<^sup>* s s'"
proof (induction cs arbitrary: s)
  case (Cons c cs)
  then obtain s1 where s1: "cv_exec c s = Some s1" "cv_any\<^sup>*\<^sup>* s1 s'" by (auto split: option.splits)
  then have "cv_any s s1" using cv_exec_step [of "fst c" "snd c"] by (auto simp: cv_any_def)
  then show ?case using s1(2) by (rule converse_rtranclp_into_rtranclp)
qed simp

datatype party = First | Second | Notifier

lemma UNIV_party: "UNIV = {First, Second, Notifier}"
  using party.exhaust by auto

instance party :: finite
  by standard (simp add: UNIV_party)

lemma all_party [simp]: "(\<forall>t. P t) \<longleftrightarrow> P First \<and> P Second \<and> P Notifier"
  by (metis party.exhaust)

definition both_enter :: "(party \<times> party cv_choice) list" where
  "both_enter = [(First, Lock), (First, Wait), (First, Go), (First, Go), (Second, Lock), (Second, Wait), (Second, Go), (Second, Go)]"

lemma notify_all_merges:
  assumes "pcs s t = Take_all" "sleepers s = {}" "0 < m_wait_count s" "(notifying t)\<^sup>*\<^sup>* s s'" "pcs s' t = Elsewhere"
  shows "s' = goto t Elsewhere (s\<lparr> m_wait_count := 0, m_event := True \<rparr>)"
proof -
  let ?s = "goto t (Sets (m_wait_count s)) (s\<lparr> m_wait_count := 0 \<rparr>)"
  have "notifying t s s0 \<Longrightarrow> s0 = ?s" for s0 using assms(1) by (auto simp: notifying_def elim!: cv_stepE)
  then have "(notifying t)\<^sup>*\<^sup>* ?s s'" using assms(1,4,5) by (auto elim: converse_rtranclpE)
  moreover have "sleepers ?s = {}" using assms(2) by (auto simp: sleepers_def)
  ultimately have "s' = goto t Elsewhere (?s\<lparr> m_event := True \<rparr>)"
    using sets_merge [of ?s t "m_wait_count s" s'] assms(3,5) by simp
  then show ?thesis by (simp add: goto_def)
qed

lemma all_enter:
  fixes s :: "('t :: finite) cv_state"
  assumes "cv_any\<^sup>*\<^sup>* cv_init s" "pcs s t = Take_all" "m_wait_count s = card {u. pcs s u = Enter}" "0 < m_wait_count s"
    and "\<forall>u. pcs s u \<notin> {Unlock, Count, Asleep}" and run: "(notifying t)\<^sup>*\<^sup>* s s1" "pcs s1 t = Elsewhere"
  shows "one_passes {u. pcs s u = Enter} s1"
proof -
  have "sleepers s = {}" using assms(5) by (auto simp: sleepers_def)
  note s1 = notify_all_merges [OF assms(2) this assms(4) run]
  have "waiting (pcs s u) = of_bool (pcs s u = Enter)" for u using assms(5) by (cases "pcs s u") auto
  then have "cv_total waiting s = card {u. pcs s u = Enter}" by (simp add: cv_total_def)
  then have "cv_total due s = 0" and c: "\<forall>u. pcs s u \<noteq> Cas 0" using cv_reach_inv [OF assms(1)] assms(3) by (auto simp: cv_inv_def)
  then have "\<forall>u k. pcs s u \<noteq> Sets (Suc k)" using cv_total_due [of s] by fastforce
  moreover have "{u. pcs s1 u \<in> {Enter, Asleep}} = {u. pcs s u = Enter}" using assms(2,5) s1 by auto
  ultimately show ?thesis using assms(5) c s1 by (auto simp: one_passes_def)
qed


definition caught_between :: "(party \<times> party cv_choice) list" where
  "caught_between = [(First, Lock), (First, Wait), (First, Go), (Notifier, Lock), (Notifier, Release), (Notifier, Notify_one), (Notifier, Go),
     (First, Go), (First, Go)]"

text \<open>\<^verbatim>\<open>wait\<close> unlocks the mutex before it counts itself: a notification in between, by a thread that took the mutex after the waiting one, is
  not noticed.\<close>

lemma notify_one_between:
  "\<exists>s. cv_schedule caught_between cv_init = Some s \<and> pcs s = (\<lambda>t. if t = First then Asleep else Elsewhere) \<and> m_wait_count s = 1"
  by (simp add: caught_between_def cv_init_def goto_def fun_eq_iff)

text \<open>Instances of the properties above: after the first schedule, and with one sleeper.\<close>

theorem wakeups_paid_for_witness:
  "\<exists>s. cv_schedule both_enter cv_init = Some s \<and> m_wait_count s = 2 \<and> m_wait_count s + cv_total due s + of_bool (m_event s) \<le> cv_total waiting s"
proof -
  obtain s where s: "cv_schedule both_enter cv_init = Some s" "m_wait_count s = 2" by (simp add: both_enter_def cv_init_def goto_def)
  from wakeups_paid_for [OF cv_schedule_reach [OF s(1)]] show ?thesis using s by blast
qed

definition first_sleeps :: "(party \<times> party cv_choice) list" where
  "first_sleeps = [(First, Lock), (First, Wait), (First, Go), (First, Go), (First, Go), (Notifier, Notify_all)]"

definition one_sleeper :: "party cv_state" where
  "one_sleeper = \<lparr> mutex_owner = None, m_wait_count = 1, m_event = False,
     pcs = (\<lambda>t. case t of First \<Rightarrow> Asleep | Second \<Rightarrow> Elsewhere | Notifier \<Rightarrow> Take_all) \<rparr>"

theorem notify_all_wakes_sleepers_witness:
  "\<exists>s. (notifying Notifier)\<^sup>*\<^sup>* one_sleeper s \<and> pcs s = (\<lambda>t. if t = First then Relock else Elsewhere)"
proof -
  have "cv_schedule first_sleeps cv_init = Some one_sleeper"
    by (simp add: first_sleeps_def cv_init_def goto_def fun_eq_iff one_sleeper_def)
  then have reach: "cv_any\<^sup>*\<^sup>* cv_init one_sleeper" by (rule cv_schedule_reach)
  have "sleepers one_sleeper = {First}" unfolding set_eq_iff by (simp add: sleepers_def one_sleeper_def)
  then have "m_wait_count one_sleeper = card (sleepers one_sleeper)" "pcs one_sleeper Notifier = Take_all"
    "\<forall>u. pcs one_sleeper u \<notin> {Unlock, Count, Enter}" by (simp_all add: one_sleeper_def)
  note wakes = notify_all_wakes_sleepers [OF reach this(2,1,3)]
  then obtain s where s: "(notifying Notifier)\<^sup>*\<^sup>* one_sleeper s" "pcs s Notifier = Elsewhere"
    using \<open>pcs one_sleeper Notifier = Take_all\<close> by blast
  with wakes have "pcs s = (\<lambda>u. if u = Notifier then Elsewhere else if pcs one_sleeper u = Asleep then Relock else pcs one_sleeper u)"
    by blast
  then have "pcs s = (\<lambda>t. if t = First then Relock else Elsewhere)" by (auto simp: one_sleeper_def fun_eq_iff)
  with s(1) show ?thesis by blast
qed

definition both_counted :: "party cv_state" where
  "both_counted = \<lparr> mutex_owner = None, m_wait_count = 2, m_event = False, pcs = (\<lambda>t. if t = Notifier then Take_all else Enter) \<rparr>"


end
