(* ===== verification/Ratio_Arith.thy ===== *)
theory Ratio_Arith
  imports Ktl_Prelude Complex_Main "HOL-Library.Signed_Division"
begin

unbundle bit_operations_syntax

text \<open>
  Compile-time rational arithmetic (\<^verbatim>\<open>include/ratio.hpp\<close>), on which the durations are built. The templates compute with \<^verbatim>\<open>intmax_t\<close>; a
  failed \<^verbatim>\<open>static_assert\<close> or a missing type, which stops the compilation, is \<open>None\<close>. The comparison of ratios computes at 128 bits with 64-bit
  words.
\<close>

section \<open>Checked arithmetic\<close>

definition intmax_max :: int where "intmax_max = 2 ^ 63 - 1"

definition fits :: "int \<Rightarrow> bool" where "fits v \<longleftrightarrow> - intmax_max - 1 \<le> v \<and> v \<le> intmax_max"

definition rat_abs :: "int \<Rightarrow> int option" where
  "rat_abs v = (if v = - intmax_max - 1 then None else Some (if v < 0 then - v else v))"

definition safe_multiply :: "int \<Rightarrow> int \<Rightarrow> int option" where
  "safe_multiply l r = do {
     a \<leftarrow> rat_abs l;
     b \<leftarrow> rat_abs r;
     if a \<le> intmax_max sdiv (if r = 0 then 1 else b) then Some (l * r) else None
   }"

definition sign_of :: "int \<Rightarrow> int" where "sign_of v = (if v < 0 then - 1 else 1)"

definition safe_add :: "int \<Rightarrow> int \<Rightarrow> int option" where
  "safe_add l r = do {
     a \<leftarrow> rat_abs l;
     b \<leftarrow> rat_abs r;
     if sign_of l \<noteq> sign_of r \<or> a \<le> intmax_max - b then Some (l + r) else None
   }"

function gcd_impl :: "int \<Rightarrow> int \<Rightarrow> int" where
  "gcd_impl l r = (if r = 0 then l else gcd_impl r (l smod r))"
  by auto
termination
proof (relation "measure (\<lambda>(l, r). nat \<bar>r\<bar>)")
  fix l r :: int
  assume "r \<noteq> 0"
  then have "\<bar>l smod r\<bar> < \<bar>r\<bar>" by (simp add: signed_modulo_int_def abs_mult)
  then show "((r, l smod r), l, r) \<in> measure (\<lambda>(l, r). nat \<bar>r\<bar>)" by simp
qed simp

declare gcd_impl.simps [simp del]

definition rat_gcd :: "int \<Rightarrow> int \<Rightarrow> int option" where
  "rat_gcd l r = (if l = 0 \<and> r = 0 then Some 1 else do { a \<leftarrow> rat_abs l; b \<leftarrow> rat_abs r; Some (gcd_impl a b) })"

lemma gcd_impl_gcd: "0 \<le> l \<Longrightarrow> 0 \<le> r \<Longrightarrow> gcd_impl l r = gcd l r"
proof (induction l r rule: gcd_impl.induct)
  case (1 l r)
  then have "l smod r = l mod r" by (simp add: signed_modulo_int_def abs_if sgn_if)
  with 1 show ?case by (subst gcd_impl.simps) (simp add: gcd_red_int [symmetric])
qed

lemma rat_abs_Some_iff: "rat_abs v = Some a \<longleftrightarrow> v \<noteq> - intmax_max - 1 \<and> a = \<bar>v\<bar>"
  by (auto simp: rat_abs_def)

lemma rat_gcd_Some: "rat_gcd l r = Some g \<Longrightarrow> g = (if l = 0 \<and> r = 0 then 1 else gcd l r)"
  by (auto simp: rat_gcd_def rat_abs_def gcd_impl_gcd bind_eq_Some_conv split: if_splits)

lemma le_div_iff:
  fixes a b m :: int
  assumes "0 < b"
  shows "a \<le> m div b \<longleftrightarrow> a * b \<le> m"
proof
  assume "a \<le> m div b"
  then have "a * b \<le> (m div b) * b" using assms by (simp add: mult_right_mono)
  also have "\<dots> \<le> m" using assms using pos_mod_sign [of b m] by (simp flip: minus_mod_eq_div_mult)
  finally show "a * b \<le> m" .
next
  assume "a * b \<le> m"
  then have "(a * b) div b \<le> m div b" using assms by (rule zdiv_mono1)
  then show "a \<le> m div b" using assms by simp
qed

text \<open>The check of the product admits exactly the products whose magnitude fits.\<close>

lemma safe_multiply_iff:
  assumes "fits l" "fits r"
  shows "safe_multiply l r = (if l \<noteq> - intmax_max - 1 \<and> r \<noteq> - intmax_max - 1 \<and> \<bar>l * r\<bar> \<le> intmax_max then Some (l * r) else None)"
proof -
  have *: "\<bar>l\<bar> \<le> intmax_max div \<bar>r\<bar> \<longleftrightarrow> \<bar>l * r\<bar> \<le> intmax_max" if "r \<noteq> 0"
    using that by (simp add: le_div_iff abs_mult)
  show ?thesis using * assms
    by (auto simp: safe_multiply_def rat_abs_def signed_divide_int_def fits_def intmax_max_def abs_if)
qed

section \<open>Ratios\<close>

record ratio =
  r_num :: int
  r_den :: int

definition ratio_of :: "int \<Rightarrow> int \<Rightarrow> ratio option" where
  "ratio_of Nx Dx =
     (if Dx = 0 \<or> Nx < - intmax_max \<or> Dx < - intmax_max then None
      else do {
        g \<leftarrow> rat_gcd Nx Dx;
        n \<leftarrow> rat_abs Nx;
        d \<leftarrow> rat_abs Dx;
        Some \<lparr> r_num = (sign_of Nx * sign_of Dx * n) sdiv g, r_den = d sdiv g \<rparr>
      })"

definition ratio_multiply :: "ratio \<Rightarrow> ratio \<Rightarrow> ratio option" where
  "ratio_multiply l r = do {
     gx \<leftarrow> rat_gcd (r_num l) (r_den r);
     gy \<leftarrow> rat_gcd (r_num r) (r_den l);
     numerator \<leftarrow> safe_multiply (r_num l sdiv gx) (r_num r sdiv gy);
     denominator \<leftarrow> safe_multiply (r_den l sdiv gy) (r_den r sdiv gx);
     ratio_of numerator denominator
   }"

definition ratio_divide :: "ratio \<Rightarrow> ratio \<Rightarrow> ratio option" where
  "ratio_divide l r = do {
     inverse \<leftarrow> ratio_of (r_den r) (r_num r);
     ratio_multiply l inverse
   }"

definition ratio_equal :: "ratio \<Rightarrow> ratio \<Rightarrow> bool" where
  "ratio_equal l r \<longleftrightarrow> r_num l = r_num r \<and> r_den l = r_den r"

text \<open>The form every ratio has: a positive denominator that shares no factor with the numerator; its value.\<close>

definition reduced :: "ratio \<Rightarrow> bool" where
  "reduced r \<longleftrightarrow> 0 < r_den r \<and> r_den r \<le> intmax_max \<and> \<bar>r_num r\<bar> \<le> intmax_max \<and> coprime (r_num r) (r_den r)"

definition ratio_value :: "ratio \<Rightarrow> rat" where
  "ratio_value r = of_int (r_num r) / of_int (r_den r)"

lemma sdiv_dvd:
  fixes a g :: int
  assumes "g dvd a"
  shows "a sdiv g = a div g"
proof (cases "g = 0")
  case False
  obtain k where k: "a = g * k" using assms ..
  then have "\<bar>a\<bar> div \<bar>g\<bar> = \<bar>k\<bar>" using False by (simp add: abs_mult)
  moreover have "sgn a * sgn g = sgn k" using False k by (simp add: sgn_mult mult.commute [of _ "sgn k"] mult.assoc)
  ultimately show ?thesis using False k by (simp add: signed_divide_int_def abs_mult_sgn ac_simps)
qed (use assms in \<open>simp add: signed_divide_int_def\<close>)

lemma ratio_of_Some:
  assumes "\<bar>Nx\<bar> \<le> intmax_max" "\<bar>Dx\<bar> \<le> intmax_max" "Dx \<noteq> 0"
  shows "\<exists>r. ratio_of Nx Dx = Some r \<and> reduced r \<and> r_num r * Dx = Nx * r_den r"
proof -
  let ?g = "gcd Nx Dx"
  have g: "0 < ?g" "?g dvd Nx" "?g dvd Dx" using assms(3) by simp_all
  have "rat_gcd Nx Dx = Some ?g" using assms by (auto simp: rat_gcd_def rat_abs_def gcd_impl_gcd gcd.commute)
  then have r: "ratio_of Nx Dx = Some \<lparr> r_num = (sign_of Nx * sign_of Dx * \<bar>Nx\<bar>) div ?g, r_den = \<bar>Dx\<bar> div ?g \<rparr>"
    using assms g by (auto simp: ratio_of_def rat_abs_def sdiv_dvd)
  obtain n d where nd: "Nx = ?g * n" "Dx = ?g * d" using g by (meson dvdE)
  have co: "coprime n d" using assms(3) nd by (metis gcd_coprime_exists div_gcd_coprime g(1) less_irrefl nonzero_mult_div_cancel_left)
  have s: "sign_of Nx * sign_of Dx * \<bar>Nx\<bar> = ?g * (sign_of d * n)"
  proof -
    have "(Nx < 0) = (n < 0)" "(Dx < 0) = (d < 0)"
      using g(1) nd mult_less_0_iff [of ?g n] mult_less_0_iff [of ?g d] by (metis less_asym)+
    then show ?thesis using nd(1) by (auto simp: sign_of_def abs_if)
  qed
  have "\<bar>n\<bar> \<le> \<bar>Nx\<bar>" "\<bar>d\<bar> \<le> \<bar>Dx\<bar>" using g(1) nd by (metis abs_mult abs_of_pos mult_le_cancel_right1 abs_ge_zero int_one_le_iff_zero_less linorder_not_le order_less_le_trans mult.commute)+
  moreover note assms(1,2)
  moreover have "d \<noteq> 0" using assms(3) nd by auto
  moreover have "\<bar>Dx\<bar> div ?g = \<bar>d\<bar>" using g(1) nd by (metis abs_mult abs_of_pos nonzero_mult_div_cancel_left less_irrefl)
  moreover have "n * Dx = Nx * d" using nd by (metis mult.assoc mult.commute)
  ultimately show ?thesis
    using r s co g(1) by (auto simp: reduced_def sign_of_def)
qed

lemma coprime_fraction_unique:
  fixes a b c d :: int
  assumes "coprime a b" "coprime c d" "0 < b" "0 < d" "a * d = c * b"
  shows "a = c \<and> b = d"
proof -
  have "\<bar>a\<bar> * \<bar>d\<bar> = \<bar>c\<bar> * \<bar>b\<bar>" using assms(5) by (simp flip: abs_mult)
  then have "\<bar>d\<bar> = \<bar>b\<bar>" using coprime_crossproduct_int [of a b c d] assms(1,2) by (simp add: ac_simps coprime_commute)
  then show ?thesis using assms(3,4,5) by simp
qed

lemma reduced_value_eq:
  assumes "reduced t" "coprime n d" "0 < d" "ratio_value t = of_int n / of_int d"
  shows "r_num t = n \<and> r_den t = d"
proof -
  have "(of_int (r_num t * d) :: rat) = of_int (n * r_den t)"
    using assms by (simp add: ratio_value_def reduced_def frac_eq_eq)
  then have "r_num t * d = n * r_den t" by (simp only: of_int_eq_iff)
  then show ?thesis using assms by (intro coprime_fraction_unique) (simp_all add: reduced_def)
qed

lemma reduced_gcd: "reduced l \<Longrightarrow> reduced r \<Longrightarrow> rat_gcd (r_num l) (r_den r) = Some (gcd (r_num l) (r_den r))"
  by (auto simp: reduced_def rat_gcd_def rat_abs_def gcd_impl_gcd intmax_max_def)

text \<open>The cross-wise reduced factors of a product.\<close>

lemma cross_reduced:
  fixes a b c d :: int
  assumes "coprime a b" "coprime c d" "0 < b" "0 < d"
  defines "gx \<equiv> gcd a d" and "gy \<equiv> gcd c b"
  shows "coprime ((a div gx) * (c div gy)) ((b div gy) * (d div gx))" "0 < (b div gy) * (d div gx)"
    "(of_int ((a div gx) * (c div gy)) :: rat) / of_int ((b div gy) * (d div gx)) = of_int a / of_int b * (of_int c / of_int d)"
    "\<bar>a div gx\<bar> \<le> \<bar>a\<bar>" "\<bar>c div gy\<bar> \<le> \<bar>c\<bar>" "0 < b div gy \<and> b div gy \<le> b" "0 < d div gx \<and> d div gx \<le> d"
proof -
  have g: "0 < gx" "0 < gy" using assms by (simp_all add: gcd_pos_int)
  obtain a' d' where ad: "a = gx * a'" "d = gx * d'" unfolding gx_def by (meson dvdE gcd_dvd1 gcd_dvd2)
  obtain c' b' where cb: "c = gy * c'" "b = gy * b'" unfolding gy_def by (meson dvdE gcd_dvd1 gcd_dvd2)
  have q: "a div gx = a'" "d div gx = d'" "c div gy = c'" "b div gy = b'"
    using ad cb g by (metis nonzero_mult_div_cancel_left less_irrefl)+
  have co: "coprime a' d'" "coprime c' b'"
    using q assms(3,4) unfolding gx_def gy_def by (metis div_gcd_coprime less_irrefl)+
  have "coprime a' b'" "coprime c' d'" using assms(1,2) ad cb by auto
  with co show "coprime ((a div gx) * (c div gy)) ((b div gy) * (d div gx))" by (simp add: q)
  have p: "0 < b'" "0 < d'" using assms(3,4) g ad(2) cb(2) by (metis zero_less_mult_pos)+
  have up: "\<bar>x\<bar> \<le> \<bar>g * x\<bar>" if "0 < g" for g x :: int
    using that mult_right_mono [of 1 g "\<bar>x\<bar>"] by (simp add: abs_mult)
  show "0 < (b div gy) * (d div gx)" "0 < b div gy \<and> b div gy \<le> b" "0 < d div gx \<and> d div gx \<le> d"
    using q p up [OF g(2), of b'] up [OF g(1), of d'] assms(3,4) ad(2) cb(2) by simp_all
  show "\<bar>a div gx\<bar> \<le> \<bar>a\<bar>" "\<bar>c div gy\<bar> \<le> \<bar>c\<bar>" using q up [OF g(1), of a'] up [OF g(2), of c'] ad(1) cb(1) by simp_all
  have e: "(of_int a :: rat) = of_int gx * of_int a'" "(of_int d :: rat) = of_int gx * of_int d'"
    "(of_int c :: rat) = of_int gy * of_int c'" "(of_int b :: rat) = of_int gy * of_int b'"
    by (simp_all only: of_int_mult [symmetric] of_int_eq_iff ad(1) [symmetric] ad(2) [symmetric] cb(1) [symmetric] cb(2) [symmetric])
  have "(of_int gx :: rat) \<noteq> 0" "(of_int gy :: rat) \<noteq> 0" using g by simp_all
  then show "(of_int ((a div gx) * (c div gy)) :: rat) / of_int ((b div gy) * (d div gx)) = of_int a / of_int b * (of_int c / of_int d)"
    unfolding q e by simp
qed

lemma safe_multiply_small:
  assumes "\<bar>l\<bar> \<le> intmax_max" "\<bar>r\<bar> \<le> intmax_max"
  shows "safe_multiply l r = (if \<bar>l * r\<bar> \<le> intmax_max then Some (l * r) else None)"
  using assms by (subst safe_multiply_iff) (auto simp: fits_def)

text \<open>The product of two ratios is computed exactly and in lowest terms whenever its lowest terms fit, and the compilation stops otherwise: the
  intermediate products never overflow on their own.\<close>

lemma ratio_multiply_cases:
  assumes "reduced l" "reduced r"
  shows "case ratio_multiply l r of
      Some t \<Rightarrow> reduced t \<and> ratio_value t = ratio_value l * ratio_value r
    | None \<Rightarrow> {t. reduced t \<and> ratio_value t = ratio_value l * ratio_value r} = {}"
proof -
  define gx where "gx = gcd (r_num l) (r_den r)"
  define gy where "gy = gcd (r_num r) (r_den l)"
  let ?n = "(r_num l div gx) * (r_num r div gy)" and ?d = "(r_den l div gy) * (r_den r div gx)"
  note red = assms [unfolded reduced_def]
  note cr = cross_reduced [of "r_num l" "r_den l" "r_num r" "r_den r", folded gx_def gy_def]
  have val: "of_int ?n / of_int ?d = ratio_value l * ratio_value r" using cr(3) red by (simp add: ratio_value_def)
  have dv: "gx dvd r_num l" "gx dvd r_den r" "gy dvd r_num r" "gy dvd r_den l" by (simp_all add: gx_def gy_def)
  have "ratio_multiply l r = do {
      n \<leftarrow> safe_multiply (r_num l div gx) (r_num r div gy); d \<leftarrow> safe_multiply (r_den l div gy) (r_den r div gx); ratio_of n d }"
    using reduced_gcd [OF assms] reduced_gcd [OF assms(2,1)] dv by (simp add: ratio_multiply_def sdiv_dvd flip: gx_def gy_def)
  moreover have "safe_multiply (r_num l div gx) (r_num r div gy) = (if \<bar>?n\<bar> \<le> intmax_max then Some ?n else None)"
    using cr(4,5) red by (intro safe_multiply_small) auto
  moreover have "safe_multiply (r_den l div gy) (r_den r div gx) = (if \<bar>?d\<bar> \<le> intmax_max then Some ?d else None)"
    using cr(6,7) red by (intro safe_multiply_small) auto
  ultimately have mul: "ratio_multiply l r = (if \<bar>?n\<bar> \<le> intmax_max \<and> ?d \<le> intmax_max then ratio_of ?n ?d else None)"
    using cr(2) red by auto
  show ?thesis
  proof (cases "\<bar>?n\<bar> \<le> intmax_max \<and> ?d \<le> intmax_max")
    case True
    then obtain t where t: "ratio_of ?n ?d = Some t" "reduced t" "r_num t * ?d = ?n * r_den t"
      using ratio_of_Some [of ?n ?d] cr(2) red by fastforce
    have "r_num t = ?n \<and> r_den t = ?d"
      using coprime_fraction_unique [of "r_num t" "r_den t" ?n ?d] t(2,3) cr(1,2) red by (auto simp: reduced_def)
    then show ?thesis using mul True t(1,2) val by (simp add: ratio_value_def)
  next
    case False
    have "\<not> (reduced t \<and> ratio_value t = ratio_value l * ratio_value r)" for t
      using reduced_value_eq [of t ?n ?d] False cr(1,2) val red by (auto simp: reduced_def)
    then show ?thesis using mul False by auto
  qed
qed

lemma ratio_divide_exact:
  assumes "reduced l" "reduced r" "0 < r_num r" "ratio_divide l r = Some t"
  shows "reduced t \<and> ratio_value t = ratio_value l / ratio_value r"
proof -
  obtain i where i: "ratio_of (r_den r) (r_num r) = Some i" "reduced i" "r_num i * r_num r = r_den r * r_den i"
    using ratio_of_Some [of "r_den r" "r_num r"] assms(2,3) by (auto simp: reduced_def)
  have "r_num i = r_den r \<and> r_den i = r_num r"
    using coprime_fraction_unique [of "r_num i" "r_den i" "r_den r" "r_num r"] i(2,3) assms(2,3) by (auto simp: reduced_def coprime_commute)
  then have "ratio_value i = 1 / ratio_value r" by (simp add: ratio_value_def)
  then show ?thesis
    using ratio_multiply_cases [OF assms(1) i(2)] assms(4) i(1) by (simp add: ratio_divide_def)
qed

section \<open>Comparison\<close>

record uint128 =
  upper :: "64 word"
  lower :: "64 word"

definition uint128_less :: "uint128 \<Rightarrow> uint128 \<Rightarrow> bool" where
  "uint128_less l r = (if upper l \<noteq> upper r then upper l < upper r else lower l < lower r)"

definition multiply_uint128 :: "64 word \<Rightarrow> 64 word \<Rightarrow> uint128" where
  "multiply_uint128 lhs_factor rhs_factor =
     (let lhs_low = lhs_factor AND 0xFFFFFFFF; lhs_high = drop_bit 32 lhs_factor;
          rhs_low = rhs_factor AND 0xFFFFFFFF; rhs_high = drop_bit 32 rhs_factor;
          tmp = lhs_low * rhs_low; lower32 = tmp AND 0xFFFFFFFF; carry = drop_bit 32 tmp;
          tmp = lhs_low * rhs_high + carry; mid_lower = tmp AND 0xFFFFFFFF; mid_upper = drop_bit 32 tmp;
          tmp = lhs_high * rhs_low + mid_lower; carry = drop_bit 32 tmp
      in \<lparr> upper = lhs_high * rhs_high + mid_upper + carry, lower = push_bit 32 tmp + lower32 \<rparr>)"

definition is_ratio_less :: "int \<Rightarrow> int \<Rightarrow> int \<Rightarrow> int \<Rightarrow> bool" where
  "is_ratio_less NxLhs DxLhs NxRhs DxRhs =
     (if NxLhs \<ge> 0 \<and> NxRhs \<ge> 0 then
        uint128_less (multiply_uint128 (word_of_int NxLhs) (word_of_int DxRhs)) (multiply_uint128 (word_of_int NxRhs) (word_of_int DxLhs))
      else if NxLhs < 0 \<and> NxRhs < 0 then
        uint128_less (multiply_uint128 (word_of_int (- NxRhs)) (word_of_int DxLhs)) (multiply_uint128 (word_of_int (- NxLhs)) (word_of_int DxRhs))
      else NxLhs < NxRhs)"

definition uint128_value :: "uint128 \<Rightarrow> nat" where
  "uint128_value x = unat (upper x) * 2 ^ 64 + unat (lower x)"

lemma uint128_less_iff: "uint128_less l r \<longleftrightarrow> uint128_value l < uint128_value r"
proof -
  have b: "unat (lower x) < 2 ^ 64" for x using unsigned_less [of "lower x"] by simp
  have "u * 2 ^ 64 + a < v * 2 ^ 64 + c" if "u < v" "a < 2 ^ 64" for u v a c :: nat
  proof -
    have "Suc u * 2 ^ 64 \<le> v * 2 ^ 64" using that(1) by (intro mult_right_mono) auto
    then show ?thesis using that(2) by simp
  qed
  from this [of "unat (upper l)" "unat (upper r)"] this [of "unat (upper r)" "unat (upper l)"] show ?thesis
    using b [of l] b [of r] by (auto simp: uint128_less_def uint128_value_def word_less_nat_alt word_unat_eq_iff not_less order.order_iff_strict)
qed

lemma low_32: "unat (w AND 0xFFFFFFFF :: 64 word) = unat w mod 2 ^ 32"
proof -
  have "(w AND 0xFFFFFFFF) = take_bit 32 w" by (simp add: take_bit_eq_mask mask_eq_exp_minus_1)
  then show ?thesis by (simp add: take_bit_eq_mod unat_mod_distrib)
qed

lemma high_32: "unat (drop_bit 32 w :: 64 word) = unat w div 2 ^ 32"
  by (simp add: drop_bit_eq_div unat_div_distrib)

lemma partial_product_bound:
  fixes a b c :: nat
  assumes "a < 2 ^ 32" "b < 2 ^ 32" "c < 2 ^ 32"
  shows "a * b + c < 2 ^ 64"
proof -
  have "a * b \<le> (2 ^ 32 - 1) * (2 ^ 32 - 1)" using assms(1,2) by (intro mult_mono) auto
  then show ?thesis using assms(3) by simp
qed

lemma unat_product:
  fixes x y z :: "64 word"
  assumes "unat x < 2 ^ 32" "unat y < 2 ^ 32" "unat z < 2 ^ 32"
  shows "unat (x * y + z) = unat x * unat y + unat z"
  using partial_product_bound [OF assms] by (simp add: unat_word_ariths)

text \<open>The school method on two digits to the base \<open>2 ^ 32\<close>.\<close>

lemma two_digit_product:
  fixes al ah bl bh :: nat
  assumes "t1 = al * bl" "t2 = al * bh + t1 div n" "t3 = ah * bl + t2 mod n"
  shows "(ah * bh + t2 div n + t3 div n) * (n * n) + ((t3 mod n) * n + t1 mod n) = (ah * n + al) * (bh * n + bl)"
proof -
  have e: "t * n = t div n * n * n + t mod n * n" for t by (metis add_mult_distrib div_mult_mod_eq)
  have "(ah * n + al) * (bh * n + bl) = ah * bh * (n * n) + (ah * bl) * n + (al * bh) * n + al * bl" by (simp add: algebra_simps)
  also have "al * bl = t1 div n * n + t1 mod n" using assms(1) by simp
  also have "ah * bh * (n * n) + (ah * bl) * n + (al * bh) * n + (t1 div n * n + t1 mod n) = ah * bh * (n * n) + (ah * bl) * n + t2 * n + t1 mod n"
    using assms(2) by (simp add: algebra_simps)
  also have "\<dots> = ah * bh * (n * n) + t2 div n * n * n + t3 * n + t1 mod n"
    using e [of t2] by (simp add: assms(3) add_mult_distrib)
  also have "\<dots> = (ah * bh + t2 div n + t3 div n) * (n * n) + ((t3 mod n) * n + t1 mod n)"
    using e [of t3] by (simp add: algebra_simps)
  finally show ?thesis by simp
qed

text \<open>The product of two 64-bit words at 128 bits is exact.\<close>

lemma multiply_uint128_value: "uint128_value (multiply_uint128 x y) = unat x * unat y"
proof -
  let ?n = "2 ^ 32 :: nat"
  let ?al = "unat x mod ?n" and ?ah = "unat x div ?n" and ?bl = "unat y mod ?n" and ?bh = "unat y div ?n"
  define t1 where "t1 = (x AND 0xFFFFFFFF) * (y AND 0xFFFFFFFF)"
  define t2 where "t2 = (x AND 0xFFFFFFFF) * drop_bit 32 y + drop_bit 32 t1"
  define t3 where "t3 = drop_bit 32 x * (y AND 0xFFFFFFFF) + (t2 AND 0xFFFFFFFF)"
  have lt: "unat w < 2 ^ 64" for w :: "64 word" using unsigned_less [of w] by simp
  have sm: "unat (w AND 0xFFFFFFFF) < 2 ^ 32" "unat (drop_bit 32 w) < 2 ^ 32" for w :: "64 word"
    using lt [of w] by (simp_all add: low_32 high_32 less_mult_imp_div_less)
  have u1: "unat t1 = ?al * ?bl" using unat_product [OF sm(1) sm(1), of 0 x y] by (simp add: t1_def low_32)
  have u2: "unat t2 = ?al * ?bh + unat t1 div ?n"
    using unat_product [OF sm(1) sm(2) sm(2), of x y t1] by (simp add: t2_def low_32 high_32)
  have u3: "unat t3 = ?ah * ?bl + unat t2 mod ?n"
    using unat_product [OF sm(2) sm(1) sm(1), of x y t2] by (simp add: t3_def low_32 high_32)
  have lo: "unat (push_bit 32 t3 + (t1 AND 0xFFFFFFFF)) = (unat t3 mod ?n) * ?n + unat t1 mod ?n"
  proof -
    have "unat (push_bit 32 t3) = (unat t3 mod ?n) * ?n"
      using mod_mult_mult2 [of "unat t3" ?n ?n] by (simp add: push_bit_eq_mult unat_word_ariths)
    moreover have "(unat t3 mod ?n) * ?n + unat t1 mod ?n < 2 ^ 64"
    proof -
      have "(unat t3 mod ?n) * ?n \<le> (?n - 1) * ?n" "unat t1 mod ?n < ?n" by (intro mult_right_mono) (simp_all add: Suc_leI less_Suc_eq_le)
      then show ?thesis by simp
    qed
    ultimately show ?thesis by (simp add: unat_word_ariths low_32)
  qed
  have prod: "(?ah * ?bh + unat t2 div ?n + unat t3 div ?n) * 2 ^ 64 + ((unat t3 mod ?n) * ?n + unat t1 mod ?n) = unat x * unat y"
    using two_digit_product [OF u1 u2 u3] by simp
  have "unat x * unat y < 2 ^ 64 * 2 ^ 64" using lt [of x] lt [of y] by (intro mult_strict_mono) simp_all
  then have "(?ah * ?bh + unat t2 div ?n + unat t3 div ?n) * 2 ^ 64 < 2 ^ 64 * 2 ^ 64" using prod by linarith
  then have "?ah * ?bh + unat t2 div ?n + unat t3 div ?n < 2 ^ 64" by (simp only: mult_less_cancel2)
  then have "unat (drop_bit 32 x * drop_bit 32 y + drop_bit 32 t2 + drop_bit 32 t3) = ?ah * ?bh + unat t2 div ?n + unat t3 div ?n"
    by (simp add: unat_word_ariths high_32 mod_simps)
  then show ?thesis using prod lo
    by (simp add: uint128_value_def multiply_uint128_def Let_def flip: t1_def t2_def t3_def)
qed

lemma unat_word_of_int: "0 \<le> v \<Longrightarrow> v \<le> intmax_max \<Longrightarrow> int (unat (word_of_int v :: 64 word)) = v"
  by (simp add: intmax_max_def unsigned_of_int take_bit_int_eq_self)

lemma less_products:
  assumes "0 \<le> a" "a \<le> intmax_max" "0 \<le> b" "b \<le> intmax_max" "0 \<le> c" "c \<le> intmax_max" "0 \<le> d" "d \<le> intmax_max"
  shows "uint128_less (multiply_uint128 (word_of_int a) (word_of_int b)) (multiply_uint128 (word_of_int c) (word_of_int d)) \<longleftrightarrow> a * b < c * d"
proof -
  have "int (uint128_value (multiply_uint128 (word_of_int a) (word_of_int b))) = a * b"
    "int (uint128_value (multiply_uint128 (word_of_int c) (word_of_int d))) = c * d"
    using assms by (simp_all only: multiply_uint128_value of_nat_mult unat_word_of_int)
  then show ?thesis by (simp only: uint128_less_iff flip: of_nat_less_iff [where 'a = int])
qed

lemma ratio_value_less: "reduced l \<Longrightarrow> reduced r \<Longrightarrow> ratio_value l < ratio_value r \<longleftrightarrow> r_num l * r_den r < r_num r * r_den l"
  by (simp add: reduced_def ratio_value_def divide_less_eq less_divide_eq field_simps flip: of_int_mult)

text \<open>C30: The comparison of ratios, which multiplies at 128 bits with 64-bit words, is exact for all ratios.\<close>

theorem is_ratio_less_exact:
  assumes "reduced l" "reduced r"
  shows "is_ratio_less (r_num l) (r_den l) (r_num r) (r_den r) \<longleftrightarrow> ratio_value l < ratio_value r"
proof -
  note red = assms [unfolded reduced_def]
  consider "0 \<le> r_num l" "0 \<le> r_num r" | "r_num l < 0" "r_num r < 0" | "r_num l < 0" "0 \<le> r_num r" | "0 \<le> r_num l" "r_num r < 0" by linarith
  then show ?thesis
  proof cases
    case 1
    then show ?thesis unfolding ratio_value_less [OF assms] using red by (simp add: is_ratio_less_def less_products)
  next
    case 2
    then show ?thesis unfolding ratio_value_less [OF assms]
      using red less_products [of "- r_num r" "r_den l" "- r_num l" "r_den r"] by (simp add: is_ratio_less_def)
  next
    case 3
    then have "r_num l * r_den r < 0" "0 \<le> r_num r * r_den l" using red by (simp_all add: mult_less_0_iff)
    with 3 show ?thesis unfolding ratio_value_less [OF assms] by (simp add: is_ratio_less_def)
  next
    case 4
    then have "r_num r * r_den l < 0" "0 \<le> r_num l * r_den r" using red by (simp_all add: mult_less_0_iff)
    with 4 show ?thesis unfolding ratio_value_less [OF assms] by (simp add: is_ratio_less_def)
  qed
qed

lemma ratio_multiply_example:
  "ratio_multiply \<lparr> r_num = 3600, r_den = 1 \<rparr> \<lparr> r_num = 1, r_den = 1000 \<rparr> = Some \<lparr> r_num = 18, r_den = 5 \<rparr> \<and>
    ratio_value \<lparr> r_num = 18, r_den = 5 \<rparr> = ratio_value \<lparr> r_num = 3600, r_den = 1 \<rparr> * ratio_value \<lparr> r_num = 1, r_den = 1000 \<rparr>"
proof -
  have m: "ratio_multiply \<lparr> r_num = 3600, r_den = 1 \<rparr> \<lparr> r_num = 1, r_den = 1000 \<rparr> = Some \<lparr> r_num = 18, r_den = 5 \<rparr>" by code_simp
  have "reduced \<lparr> r_num = 3600, r_den = 1 \<rparr>" "reduced \<lparr> r_num = 1, r_den = 1000 \<rparr>" by (simp_all add: reduced_def intmax_max_def)
  from ratio_multiply_cases [OF this] m show ?thesis by simp
qed

theorem is_ratio_less_exact_witness:
  "is_ratio_less (- 1) 3 (- 1) 4 \<longleftrightarrow> ratio_value \<lparr> r_num = - 1, r_den = 3 \<rparr> < ratio_value \<lparr> r_num = - 1, r_den = 4 \<rparr>"
proof -
  have "reduced \<lparr> r_num = - 1, r_den = 3 \<rparr>" "reduced \<lparr> r_num = - 1, r_den = 4 \<rparr>" by (simp_all add: reduced_def intmax_max_def)
  from is_ratio_less_exact [OF this] show ?thesis by simp
qed

end
