(* ===== verification/Chrono.thy ===== *)
theory Chrono
  imports Ratio_Arith
begin

text \<open>
  Durations and clocks (\<^verbatim>\<open>include/chrono.hpp\<close>). A duration is its count; its type has the width of the representation and the period. The
  conversions compute with \<^verbatim>\<open>intmax_t\<close>, and the overflow of a signed integer, which is undefined, is \<open>None\<close>, as is a ratio that cannot be
  formed. The readings of the kernel's clocks are parameters.
\<close>

section \<open>Types of durations and conversions\<close>

record duration_type =
  rep_bits :: nat
  period :: ratio

definition rep_wrap :: "nat \<Rightarrow> int \<Rightarrow> int" where
  "rep_wrap bits v = (v + 2 ^ (bits - 1)) mod 2 ^ bits - 2 ^ (bits - 1)"

definition arith :: "nat \<Rightarrow> int \<Rightarrow> int option" where
  "arith bits v = (if - (2 ^ (bits - 1)) \<le> v \<and> v < 2 ^ (bits - 1) then Some v else None)"

definition duration_cast :: "duration_type \<Rightarrow> duration_type \<Rightarrow> int \<Rightarrow> int option" where
  "duration_cast to from dur = do {
     carry_flag \<leftarrow> ratio_divide (period from) (period to);
     (let num_is_one = r_num carry_flag = 1; den_is_one = r_den carry_flag = 1
      in if den_is_one then
           if num_is_one then Some (rep_wrap (rep_bits to) dur)
           else do { p \<leftarrow> arith 64 (dur * r_num carry_flag); Some (rep_wrap (rep_bits to) p) }
         else
           if num_is_one then Some (rep_wrap (rep_bits to) (dur sdiv r_den carry_flag))
           else do { p \<leftarrow> arith 64 (dur * r_num carry_flag); Some (rep_wrap (rep_bits to) (p sdiv r_den carry_flag)) })
   }"

definition rat_lcm :: "int \<Rightarrow> int \<Rightarrow> int option" where
  "rat_lcm l r = do { g \<leftarrow> rat_gcd l r; arith 64 ((l sdiv g) * r) }"

text \<open>\<^verbatim>\<open>common_type\<close> of two types of durations.\<close>

definition common_duration :: "duration_type \<Rightarrow> duration_type \<Rightarrow> duration_type option" where
  "common_duration l r = do {
     n \<leftarrow> rat_gcd (r_num (period l)) (r_num (period r));
     d \<leftarrow> rat_lcm (r_den (period l)) (r_den (period r));
     p \<leftarrow> ratio_of n d;
     Some \<lparr> rep_bits = max (rep_bits l) (rep_bits r), period = p \<rparr>
   }"

text \<open>The operators convert both operands to the common type.\<close>

definition in_common :: "(duration_type \<Rightarrow> int \<Rightarrow> int \<Rightarrow> 'a option) \<Rightarrow> duration_type \<Rightarrow> int \<Rightarrow> duration_type \<Rightarrow> int \<Rightarrow> 'a option" where
  "in_common f l a r b = do {
     t \<leftarrow> common_duration l r;
     x \<leftarrow> duration_cast t l a;
     y \<leftarrow> duration_cast t r b;
     f t x y
   }"

definition duration_plus :: "duration_type \<Rightarrow> int \<Rightarrow> duration_type \<Rightarrow> int \<Rightarrow> int option" where
  "duration_plus = in_common (\<lambda>t x y. arith (rep_bits t) (x + y))"

definition duration_minus :: "duration_type \<Rightarrow> int \<Rightarrow> duration_type \<Rightarrow> int \<Rightarrow> int option" where
  "duration_minus = in_common (\<lambda>t x y. arith (rep_bits t) (x - y))"

definition duration_divide :: "duration_type \<Rightarrow> int \<Rightarrow> duration_type \<Rightarrow> int \<Rightarrow> int option" where
  "duration_divide = in_common (\<lambda>t x y. if y = 0 then None else arith (rep_bits t) (x sdiv y))"

definition duration_modulo :: "duration_type \<Rightarrow> int \<Rightarrow> duration_type \<Rightarrow> int \<Rightarrow> int option" where
  "duration_modulo = in_common (\<lambda>t x y. if y = 0 then None else arith (rep_bits t) (x smod y))"

definition duration_equal :: "duration_type \<Rightarrow> int \<Rightarrow> duration_type \<Rightarrow> int \<Rightarrow> bool option" where
  "duration_equal = in_common (\<lambda>t x y. Some (x = y))"

definition duration_less :: "duration_type \<Rightarrow> int \<Rightarrow> duration_type \<Rightarrow> int \<Rightarrow> bool option" where
  "duration_less = in_common (\<lambda>t x y. Some (x < y))"

definition duration_less_equal :: "duration_type \<Rightarrow> int \<Rightarrow> duration_type \<Rightarrow> int \<Rightarrow> bool option" where
  "duration_less_equal l a r b = map_option Not (duration_less r b l a)"

definition duration_greater :: "duration_type \<Rightarrow> int \<Rightarrow> duration_type \<Rightarrow> int \<Rightarrow> bool option" where
  "duration_greater l a r b = duration_less r b l a"

definition duration_greater_equal :: "duration_type \<Rightarrow> int \<Rightarrow> duration_type \<Rightarrow> int \<Rightarrow> bool option" where
  "duration_greater_equal l a r b = map_option Not (duration_less l a r b)"

definition duration_floor :: "duration_type \<Rightarrow> duration_type \<Rightarrow> int \<Rightarrow> int option" where
  "duration_floor to from dur = do {
     casted \<leftarrow> duration_cast to from dur;
     greater \<leftarrow> duration_greater to casted from dur;
     if greater then arith (rep_bits to) (casted - 1) else Some casted
   }"

definition duration_ceil :: "duration_type \<Rightarrow> duration_type \<Rightarrow> int \<Rightarrow> int option" where
  "duration_ceil to from dur = do {
     casted \<leftarrow> duration_cast to from dur;
     lesser \<leftarrow> duration_less to casted from dur;
     if lesser then arith (rep_bits to) (casted + 1) else Some casted
   }"

definition duration_round :: "duration_type \<Rightarrow> duration_type \<Rightarrow> int \<Rightarrow> int option" where
  "duration_round to from dur = do {
     floored \<leftarrow> duration_floor to from dur;
     ceiled \<leftarrow> duration_plus to floored to 1;
     floor_adjustment \<leftarrow> duration_minus from dur to floored;
     ceil_adjustment \<leftarrow> duration_minus to ceiled from dur;
     ft \<leftarrow> common_duration from to;
     ct \<leftarrow> common_duration to from;
     closer \<leftarrow> duration_less ft floor_adjustment ct ceil_adjustment;
     tie \<leftarrow> duration_equal ft floor_adjustment ct ceil_adjustment;
     Some (if closer \<or> tie \<and> floored smod 2 = 0 then floored else ceiled)
   }"

definition duration_abs :: "duration_type \<Rightarrow> int \<Rightarrow> int option" where
  "duration_abs t dur = do {
     negative \<leftarrow> duration_less t dur t 0;
     if negative then duration_minus t 0 t dur else Some dur
   }"

text \<open>The members of \<^verbatim>\<open>duration\<close> and its operators with a number of the same representation change the count.\<close>

definition duration_increment :: "duration_type \<Rightarrow> int \<Rightarrow> int option" where
  "duration_increment t c = arith (rep_bits t) (c + 1)"

definition duration_decrement :: "duration_type \<Rightarrow> int \<Rightarrow> int option" where
  "duration_decrement t c = arith (rep_bits t) (c - 1)"

definition duration_negate :: "duration_type \<Rightarrow> int \<Rightarrow> int option" where
  "duration_negate t c = arith (rep_bits t) (- c)"

definition duration_add_assign :: "duration_type \<Rightarrow> int \<Rightarrow> int \<Rightarrow> int option" where
  "duration_add_assign t c b = arith (rep_bits t) (c + b)"

definition duration_sub_assign :: "duration_type \<Rightarrow> int \<Rightarrow> int \<Rightarrow> int option" where
  "duration_sub_assign t c b = arith (rep_bits t) (c - b)"

definition duration_times :: "duration_type \<Rightarrow> int \<Rightarrow> int \<Rightarrow> int option" where
  "duration_times t c n = arith (rep_bits t) (c * n)"

definition duration_quotient :: "duration_type \<Rightarrow> int \<Rightarrow> int \<Rightarrow> int option" where
  "duration_quotient t c n = (if n = 0 then None else arith (rep_bits t) (c sdiv n))"

definition duration_remainder :: "duration_type \<Rightarrow> int \<Rightarrow> int \<Rightarrow> int option" where
  "duration_remainder t c n = (if n = 0 then None else arith (rep_bits t) (c smod n))"

section \<open>Points of time\<close>

text \<open>A point of time is the duration since the epoch of its clock.\<close>

definition time_plus :: "duration_type \<Rightarrow> int \<Rightarrow> duration_type \<Rightarrow> int \<Rightarrow> int option" where
  "time_plus l lhs r rhs = duration_plus l lhs r rhs"

definition time_minus :: "duration_type \<Rightarrow> int \<Rightarrow> duration_type \<Rightarrow> int \<Rightarrow> int option" where
  "time_minus l lhs r rhs = duration_minus l lhs r rhs"

definition time_difference :: "duration_type \<Rightarrow> int \<Rightarrow> duration_type \<Rightarrow> int \<Rightarrow> int option" where
  "time_difference l lhs r rhs = duration_minus l lhs r rhs"

definition time_equal :: "duration_type \<Rightarrow> int \<Rightarrow> duration_type \<Rightarrow> int \<Rightarrow> bool option" where
  "time_equal l lhs r rhs = duration_equal l lhs r rhs"

definition time_less :: "duration_type \<Rightarrow> int \<Rightarrow> duration_type \<Rightarrow> int \<Rightarrow> bool option" where
  "time_less l lhs r rhs = duration_less l lhs r rhs"

definition time_less_equal :: "duration_type \<Rightarrow> int \<Rightarrow> duration_type \<Rightarrow> int \<Rightarrow> bool option" where
  "time_less_equal l lhs r rhs = map_option Not (time_less r rhs l lhs)"

definition time_point_cast :: "duration_type \<Rightarrow> duration_type \<Rightarrow> int \<Rightarrow> int option" where
  "time_point_cast to from time = duration_cast to from time"

definition time_point_floor :: "duration_type \<Rightarrow> duration_type \<Rightarrow> int \<Rightarrow> int option" where
  "time_point_floor to from time = duration_floor to from time"

definition time_point_ceil :: "duration_type \<Rightarrow> duration_type \<Rightarrow> int \<Rightarrow> int option" where
  "time_point_ceil to from time = duration_ceil to from time"

definition time_point_round :: "duration_type \<Rightarrow> duration_type \<Rightarrow> int \<Rightarrow> int option" where
  "time_point_round to from time = duration_round to from time"

section \<open>Named types and clocks\<close>

fun pow10 :: "nat \<Rightarrow> int" where
  "pow10 0 = 1"
| "pow10 (Suc n) = pow10 n * 10"

definition duration64 :: "int \<Rightarrow> int \<Rightarrow> duration_type" where
  "duration64 n d = \<lparr> rep_bits = 64, period = \<lparr> r_num = n, r_den = d \<rparr> \<rparr>"

definition nanoseconds :: duration_type where "nanoseconds = duration64 1 (pow10 9)"
definition microseconds :: duration_type where "microseconds = duration64 1 (pow10 6)"
definition milliseconds :: duration_type where "milliseconds = duration64 1 (pow10 3)"
definition seconds :: duration_type where "seconds = duration64 1 1"
definition tics :: duration_type where "tics = duration64 1 10000000"
definition system_clock_duration :: duration_type where "system_clock_duration = duration64 1 (pow10 8)"

definition steady_clock_now :: "int \<Rightarrow> int \<Rightarrow> int option" where
  "steady_clock_now counter freq = do {
     whole \<leftarrow> arith 64 (counter sdiv freq * pow10 9);
     p \<leftarrow> arith 64 (counter smod freq * pow10 9);
     arith 64 (whole + p sdiv freq)
   }"

definition system_clock_now :: "int \<Rightarrow> int" where
  "system_clock_now query_system_time = query_system_time"

definition to_time_t :: "int \<Rightarrow> int option" where
  "to_time_t time = duration_cast seconds system_clock_duration time"

definition from_time_t :: "int \<Rightarrow> int option" where
  "from_time_t tm = duration_cast system_clock_duration seconds tm"

text \<open>\<^verbatim>\<open>wait_for_impl\<close> of \<^verbatim>\<open>include/thread.hpp\<close>: the relative interval that is passed to the kernel, which is negative, or the status
  \<^verbatim>\<open>STATUS_CANCELLED\<close>. The first argument says whether a wait of no length is cancelled or yields.\<close>

datatype wait_request = Cancelled | Await int

definition wait_for_impl :: "bool \<Rightarrow> duration_type \<Rightarrow> int \<Rightarrow> wait_request option" where
  "wait_for_impl cancel_zero t wait_duration = do {
     negative \<leftarrow> duration_less t wait_duration t 0;
     zero \<leftarrow> duration_equal t wait_duration t 0;
     if negative \<or> cancel_zero \<and> zero then Some Cancelled
     else do {
       tics_to_wait \<leftarrow> duration_cast tics t wait_duration;
       interval \<leftarrow> arith 64 (- 1 * tics_to_wait);
       Some (Await interval)
     }
   }"

definition wait_until_impl :: "bool \<Rightarrow> duration_type \<Rightarrow> int \<Rightarrow> int \<Rightarrow> wait_request option" where
  "wait_until_impl cancel_zero t awake_time now = do {
     d \<leftarrow> time_difference t awake_time t now;
     wait_for_impl cancel_zero t d
   }"

definition sleep_for :: "duration_type \<Rightarrow> int \<Rightarrow> wait_request option" where
  "sleep_for t sleep_duration = wait_for_impl False t sleep_duration"

definition sleep_until :: "duration_type \<Rightarrow> int \<Rightarrow> int \<Rightarrow> wait_request option" where
  "sleep_until t sleep_time now = do {
     d \<leftarrow> time_difference t sleep_time t now;
     sleep_for t d
   }"

text \<open>\<^verbatim>\<open>stall_for\<close>: the number of microseconds the processor is stalled, a 32-bit number, if the kernel is called at all. The assertion that the
  argument is at most 50 is empty in a release build.\<close>

definition stall_for :: "duration_type \<Rightarrow> int \<Rightarrow> nat option option" where
  "stall_for t stall_duration = do {
     us_to_wait \<leftarrow> duration_cast microseconds t stall_duration;
     if us_to_wait \<ge> 0 then Some None else Some (Some (nat (us_to_wait mod 2 ^ 32)))
   }"

end
