(* ===== verification/Chrono_Spec.thy ===== *)
theory Chrono_Spec
  imports Chrono
begin

text \<open>
  Correctness of conversions, rounding and clocks. The length of a duration in seconds is a rational number, and the operations are compared with
  those on rational numbers, for durations with 64-bit counts.
\<close>

section \<open>Lengths\<close>

definition length_in_seconds :: "duration_type \<Rightarrow> int \<Rightarrow> rat" where
  "length_in_seconds t c = of_int c * ratio_value (period t)"

definition duration_ok :: "duration_type \<Rightarrow> bool" where
  "duration_ok t \<longleftrightarrow> rep_bits t = 64 \<and> reduced (period t) \<and> 0 < r_num (period t)"

lemma period_pos: "duration_ok t \<Longrightarrow> 0 < ratio_value (period t)"
  by (simp add: duration_ok_def ratio_value_def reduced_def)

lemma arith_64: "arith 64 v = (if fits v then Some v else None)"
  by (auto simp: arith_def fits_def intmax_max_def)

lemma rep_wrap_64: "fits v \<Longrightarrow> rep_wrap 64 v = v"
  by (simp add: rep_wrap_def fits_def intmax_max_def)

text \<open>A quotient of periods that is an integer.\<close>

lemma reduced_integral:
  assumes "reduced t" "ratio_value t = of_int k"
  shows "r_num t = k \<and> r_den t = 1"
  using reduced_value_eq [of t k 1] assms by simp

lemma duration_cast_integral:
  assumes "duration_ok to" "duration_ok from" "ratio_divide (period from) (period to) \<noteq> None"
    "ratio_value (period from) = of_int k * ratio_value (period to)" "fits a"
  shows "duration_cast to from a = (if fits (a * k) then Some (a * k) else None)"
proof -
  obtain t where t: "ratio_divide (period from) (period to) = Some t" using assms(3) by auto
  then have "reduced t \<and> ratio_value t = ratio_value (period from) / ratio_value (period to)"
    using ratio_divide_exact [of "period from" "period to" t] assms(1,2) by (simp add: duration_ok_def)
  then have "r_num t = k \<and> r_den t = 1" using reduced_integral [of t k] assms(4) period_pos [OF assms(1)] by simp
  then show ?thesis using t assms(1,5) by (auto simp: duration_cast_def arith_64 rep_wrap_64 duration_ok_def)
qed

section \<open>The common type\<close>

lemma rat_lcm_pos: "0 < l \<Longrightarrow> 0 < r \<Longrightarrow> l \<le> intmax_max \<Longrightarrow> r \<le> intmax_max \<Longrightarrow> rat_lcm l r = Some m \<Longrightarrow> m = lcm l r \<and> m \<le> intmax_max"
proof -
  assume a: "0 < l" "0 < r" "l \<le> intmax_max" "r \<le> intmax_max" "rat_lcm l r = Some m"
  then have "rat_gcd l r = Some (gcd l r)" by (auto simp: rat_gcd_def rat_abs_def gcd_impl_gcd intmax_max_def)
  then have "m = l div gcd l r * r" "fits m" using a(5) by (auto simp: rat_lcm_def sdiv_dvd arith_64 split: if_splits)
  then show ?thesis using a(1,2) by (simp add: lcm_gcd fits_def dvd_div_mult pos_imp_zdiv_nonneg_iff)
qed

text \<open>Both periods are multiples of the common one.\<close>

lemma common_period:
  assumes "duration_ok l" "duration_ok r" "common_duration l r = Some t"
  obtains k1 k2 where "duration_ok t" "0 < k1" "0 < k2" "ratio_value (period l) = of_int k1 * ratio_value (period t)"
    "ratio_value (period r) = of_int k2 * ratio_value (period t)"
proof -
  let ?n1 = "r_num (period l)" and ?d1 = "r_den (period l)" and ?n2 = "r_num (period r)" and ?d2 = "r_den (period r)"
  have pos: "0 < ?n1" "0 < ?d1" "0 < ?n2" "0 < ?d2" "?n1 \<le> intmax_max" "?n2 \<le> intmax_max" "?d1 \<le> intmax_max" "?d2 \<le> intmax_max"
    using assms(1,2) by (auto simp: duration_ok_def reduced_def)
  have g: "rat_gcd ?n1 ?n2 = Some (gcd ?n1 ?n2)" using pos by (auto simp: rat_gcd_def rat_abs_def gcd_impl_gcd intmax_max_def)
  from assms(3) obtain d p where d: "rat_lcm ?d1 ?d2 = Some d" "ratio_of (gcd ?n1 ?n2) d = Some p" "t = \<lparr> rep_bits = 64, period = p \<rparr>"
    using assms(1,2) g by (auto simp: common_duration_def bind_eq_Some_conv duration_ok_def)
  have m: "d = lcm ?d1 ?d2" "d \<le> intmax_max" using rat_lcm_pos [OF pos(2,4,7,8) d(1)] by simp_all
  then have dp: "0 < d" using pos by (simp add: lcm_pos_int)
  have gp: "0 < gcd ?n1 ?n2" "gcd ?n1 ?n2 \<le> intmax_max"
    using pos gcd_le1_int [of ?n1 ?n2] by (auto simp del: gcd_le1_int)
  obtain p' where "ratio_of (gcd ?n1 ?n2) d = Some p'" "reduced p'" "r_num p' * d = gcd ?n1 ?n2 * r_den p'"
    using ratio_of_Some [of "gcd ?n1 ?n2" d] gp dp m(2) by auto
  then have p: "reduced p" "r_num p * d = gcd ?n1 ?n2 * r_den p" using d(2) by simp_all
  have "(of_int (r_num p) :: rat) * of_int d = of_int (gcd ?n1 ?n2) * of_int (r_den p)" using p(2) by (metis of_int_mult)
  then have v: "ratio_value p = of_int (gcd ?n1 ?n2) / of_int d" using p(1) dp by (simp add: ratio_value_def reduced_def frac_eq_eq)
  have np: "0 < r_num p" using p gp(1) dp by (metis mult_pos_pos reduced_def zero_less_mult_pos2)
  have k: "\<exists>k > 0. (of_int n / of_int e :: rat) = of_int k * ratio_value p" if "0 < n" "0 < e" "gcd ?n1 ?n2 dvd n" "e dvd d" for n e :: int
  proof -
    obtain a b where ab: "n = gcd ?n1 ?n2 * a" "d = e * b" using \<open>gcd ?n1 ?n2 dvd n\<close> \<open>e dvd d\<close> by (metis dvdE)
    have ab0: "0 < a" "0 < b" using ab that gp(1) dp by (metis zero_less_mult_pos)+
    have "(of_int n :: rat) = of_int (gcd ?n1 ?n2) * of_int a" "(of_int d :: rat) = of_int e * of_int b" using ab by (metis of_int_mult)+
    then have "(of_int n / of_int e :: rat) = of_int (a * b) * ratio_value p" using v that(2) ab0 dp by simp
    then show ?thesis using ab0 by (intro exI [of _ "a * b"]) simp
  qed
  obtain k1 k2 where "0 < k1" "0 < k2" "ratio_value (period l) = of_int k1 * ratio_value p" "ratio_value (period r) = of_int k2 * ratio_value p"
    using k [OF pos(1,2)] k [OF pos(3,4)] m(1) unfolding ratio_value_def by (metis gcd_dvd1 gcd_dvd2 dvd_lcm1 dvd_lcm2)
  then show thesis using that [of k1 k2] p(1) np d(3) by (simp add: duration_ok_def)
qed

section \<open>Comparison and rounding\<close>

text \<open>The conversions between two types that the code instantiates exist; this is checked when the code is compiled.\<close>

definition comparable :: "duration_type \<Rightarrow> duration_type \<Rightarrow> bool" where
  "comparable l r = (case common_duration l r of
     None \<Rightarrow> False | Some t \<Rightarrow> ratio_divide (period l) (period t) \<noteq> None \<and> ratio_divide (period r) (period t) \<noteq> None)"

text \<open>How many units of the common type a unit of \<open>l\<close> has.\<close>

definition units :: "duration_type \<Rightarrow> duration_type \<Rightarrow> int" where
  "units l r = (case common_duration l r of Some t \<Rightarrow> \<lfloor>ratio_value (period l) / ratio_value (period t)\<rfloor> | None \<Rightarrow> 0)"

lemma common_units:
  assumes "duration_ok l" "duration_ok r" "comparable l r"
  obtains t k2 where "common_duration l r = Some t" "duration_ok t" "0 < units l r" "0 < k2"
    "ratio_value (period l) = of_int (units l r) * ratio_value (period t)" "ratio_value (period r) = of_int k2 * ratio_value (period t)"
proof -
  obtain t where t: "common_duration l r = Some t" using assms(3) by (auto simp: comparable_def split: option.splits)
  obtain k1 k2 where k: "duration_ok t" "0 < k1" "0 < k2" "ratio_value (period l) = of_int k1 * ratio_value (period t)"
    "ratio_value (period r) = of_int k2 * ratio_value (period t)" using common_period [OF assms(1,2) t] .
  have "units l r = k1" using t k(4) period_pos [OF k(1)] by (simp add: units_def)
  then show thesis using that [OF t k(1)] k by simp
qed

lemma in_common_cast:
  assumes "duration_ok l" "duration_ok r" "comparable l r" "fits a" "fits b" "common_duration l r = Some t" "duration_ok t"
    "ratio_value (period l) = of_int k1 * ratio_value (period t)" "ratio_value (period r) = of_int k2 * ratio_value (period t)"
  shows "in_common f l a r b = (if fits (a * k1) \<and> fits (b * k2) then f t (a * k1) (b * k2) else None)"
  using duration_cast_integral [OF assms(7,1) _ assms(8,4)] duration_cast_integral [OF assms(7,2) _ assms(9,5)] assms(3,6)
  by (simp add: comparable_def in_common_def)

lemma lengths_in_units:
  assumes "duration_ok t" "ratio_value (period l) = of_int k1 * ratio_value (period t)" "ratio_value (period r) = of_int k2 * ratio_value (period t)"
  shows "a * k1 < b * k2 \<longleftrightarrow> length_in_seconds l a < length_in_seconds r b" "a * k1 = b * k2 \<longleftrightarrow> length_in_seconds l a = length_in_seconds r b"
proof -
  have p: "0 < ratio_value (period t)" by (rule period_pos [OF assms(1)])
  have l: "length_in_seconds l a = of_int (a * k1) * ratio_value (period t)" "length_in_seconds r b = of_int (b * k2) * ratio_value (period t)"
    by (simp_all add: length_in_seconds_def assms(2,3))
  show "a * k1 < b * k2 \<longleftrightarrow> length_in_seconds l a < length_in_seconds r b" "a * k1 = b * k2 \<longleftrightarrow> length_in_seconds l a = length_in_seconds r b"
    unfolding l using p by (simp_all only: mult_less_cancel_right_pos of_int_less_iff mult_cancel_right of_int_eq_iff) simp
qed

lemma comparisons_exact:
  assumes "duration_ok l" "duration_ok r" "comparable l r" "fits a" "fits b"
  shows "duration_less l a r b = Some x \<Longrightarrow> x \<longleftrightarrow> length_in_seconds l a < length_in_seconds r b"
    "duration_equal l a r b = Some x \<Longrightarrow> x \<longleftrightarrow> length_in_seconds l a = length_in_seconds r b"
proof -
  obtain t k2 where k: "common_duration l r = Some t" "duration_ok t" "ratio_value (period l) = of_int (units l r) * ratio_value (period t)"
    "ratio_value (period r) = of_int k2 * ratio_value (period t)" using common_units [OF assms(1,2,3)] by metis
  show "duration_less l a r b = Some x \<Longrightarrow> x \<longleftrightarrow> length_in_seconds l a < length_in_seconds r b"
    "duration_equal l a r b = Some x \<Longrightarrow> x \<longleftrightarrow> length_in_seconds l a = length_in_seconds r b"
    using lengths_in_units [OF k(2,3,4), of a b] by (auto simp: duration_less_def duration_equal_def in_common_cast [OF assms k] split: if_splits)
qed

lemma rat_gcd_pos: "0 < l \<Longrightarrow> 0 < r \<Longrightarrow> rat_gcd l r = Some (gcd l r)"
  by (auto simp: rat_gcd_def rat_abs_def gcd_impl_gcd intmax_max_def)

lemma common_duration_commute:
  assumes "duration_ok l" "duration_ok r"
  shows "common_duration l r = common_duration r l"
proof -
  have pos: "0 < r_num (period l)" "0 < r_num (period r)" "0 < r_den (period l)" "0 < r_den (period r)"
    using assms by (auto simp: duration_ok_def reduced_def)
  have "a div gcd a b * b = b div gcd b a * a" for a b :: int
    by (metis dvd_div_mult gcd_dvd1 gcd_dvd2 gcd.commute mult.commute)
  then have "rat_lcm a b = rat_lcm b a" if "0 < a" "0 < b" for a b
    using that by (simp add: rat_lcm_def rat_gcd_pos sdiv_dvd)
  then show ?thesis using pos by (simp add: common_duration_def rat_gcd_pos gcd.commute max.commute)
qed

lemma comparable_commute: "duration_ok l \<Longrightarrow> duration_ok r \<Longrightarrow> comparable l r = comparable r l"
  using common_duration_commute by (auto simp: comparable_def split: option.splits)

text \<open>Truncation, the effect of an integer division.\<close>

lemma sdiv_trunc:
  assumes "0 < d"
  shows "a sdiv d = (if 0 \<le> (of_int a / of_int d :: rat) then \<lfloor>of_int a / of_int d :: rat\<rfloor> else \<lceil>of_int a / of_int d :: rat\<rceil>)"
proof -
  have "(0 \<le> (of_int a / of_int d :: rat)) = (0 \<le> a)" using assms by (simp add: zero_le_divide_iff)
  moreover have "\<lfloor>of_int a / of_int d :: rat\<rfloor> = a div d" by (rule floor_divide_of_int_eq)
  moreover have "\<lceil>of_int a / of_int d :: rat\<rceil> = - ((- a) div d)" by (rule ceiling_divide_eq_div)
  ultimately show ?thesis using assms by (cases "a = 0") (auto simp: signed_divide_int_def sgn_if)
qed

lemma trunc_facts:
  fixes q :: rat
  defines "k \<equiv> if 0 \<le> q then \<lfloor>q\<rfloor> else \<lceil>q\<rceil>"
  shows "\<bar>of_int k\<bar> \<le> \<bar>q\<bar>" "\<lfloor>q\<rfloor> = (if q < of_int k then k - 1 else k)" "\<lceil>q\<rceil> = (if of_int k < q then k + 1 else k)"
proof -
  note f = floor_correct [of q] ceiling_correct [of q]
  have "\<lceil>q\<rceil> \<le> 0" if "\<not> 0 \<le> q" using that by (simp add: ceiling_le_iff)
  then have "(of_int \<lceil>q\<rceil> :: rat) \<le> 0" if "\<not> 0 \<le> q" using that by (metis of_int_le_0_iff)
  moreover have "0 \<le> (of_int \<lfloor>q\<rfloor> :: rat)" if "0 \<le> q" using that by simp
  ultimately show "\<bar>of_int k\<bar> \<le> \<bar>q\<bar>" unfolding k_def using f by (cases "0 \<le> q") (simp_all add: abs_of_nonneg abs_of_nonpos)
  show "\<lfloor>q\<rfloor> = (if q < of_int k then k - 1 else k)" "\<lceil>q\<rceil> = (if of_int k < q then k + 1 else k)"
    unfolding k_def using f by (simp_all add: ceiling_altdef) linarith+
qed

lemma abs_sdiv_le:
  fixes a d :: int
  assumes "0 < d"
  shows "\<bar>a sdiv d\<bar> \<le> \<bar>a\<bar>"
proof -
  have "\<bar>a\<bar> div d \<le> \<bar>a\<bar>" "0 \<le> \<bar>a\<bar> div d" using assms zdiv_mono2 [of "\<bar>a\<bar>" 1 d] by (simp_all add: pos_imp_zdiv_nonneg_iff)
  then show ?thesis using assms by (cases a "0 :: int" rule: linorder_cases) (simp_all add: signed_divide_int_def)
qed

text \<open>A conversion truncates the exact quotient.\<close>

definition in_units :: "duration_type \<Rightarrow> duration_type \<Rightarrow> int \<Rightarrow> rat" where
  "in_units to from c = length_in_seconds from c / ratio_value (period to)"

lemma duration_cast_trunc:
  assumes "duration_ok to" "duration_ok from" "comparable from to" "ratio_divide (period from) (period to) \<noteq> None"
    "\<bar>c * units from to\<bar> \<le> intmax_max"
  defines "k \<equiv> (if 0 \<le> in_units to from c then \<lfloor>in_units to from c\<rfloor> else \<lceil>in_units to from c\<rceil>)"
  shows "duration_cast to from c = Some k"
proof -
  obtain t where t: "ratio_divide (period from) (period to) = Some t" using assms(4) by auto
  then have v: "reduced t" "ratio_value t = ratio_value (period from) / ratio_value (period to)"
    using ratio_divide_exact [of "period from" "period to" t] assms(1,2) by (simp_all add: duration_ok_def)
  define k1 where "k1 = units from to"
  obtain u k2 where u: "duration_ok u" "0 < k1" "0 < k2" "ratio_value (period from) = of_int k1 * ratio_value (period u)"
    "ratio_value (period to) = of_int k2 * ratio_value (period u)"
    using common_units [OF assms(2,1,3)] unfolding k1_def by metis
  have "ratio_value t = of_int k1 / of_int k2" using v(2) u(4,5) period_pos [OF u(1)] by simp
  then have "(of_int (r_num t * k2) :: rat) = of_int (k1 * r_den t)"
    using v(1) u(3) by (simp add: ratio_value_def reduced_def frac_eq_eq)
  then have x: "r_num t * k2 = k1 * r_den t" by (simp only: of_int_eq_iff)
  have d: "0 < r_den t" "coprime (r_num t) (r_den t)" using v(1) by (simp_all add: reduced_def)
  have "r_num t dvd k1" using x d(2) by (metis coprime_dvd_mult_left_iff dvd_triv_left)
  then have n: "r_num t \<le> k1" using u(2) by (simp add: zdvd_imp_le)
  have np: "0 < r_num t" using x u(2,3) d(1) by (metis mult_pos_pos zero_less_mult_pos2)
  have "\<bar>c\<bar> * r_num t \<le> \<bar>c\<bar> * k1" using n by (simp add: mult_left_mono)
  then have cn: "\<bar>c * r_num t\<bar> \<le> intmax_max" using assms(5) u(2) np by (simp add: abs_mult flip: k1_def)
  have q: "in_units to from c = of_int (c * r_num t) / of_int (r_den t)"
  proof -
    have "in_units to from c = of_int c * ratio_value t" by (simp add: in_units_def length_in_seconds_def v(2))
    then show ?thesis by (simp add: ratio_value_def)
  qed
  have k: "k = (c * r_num t) sdiv r_den t" unfolding k_def q by (rule sdiv_trunc [OF d(1), symmetric])
  have "\<bar>k\<bar> \<le> \<bar>c * r_num t\<bar>"
    unfolding k by (rule abs_sdiv_le [OF d(1)])
  then have "fits k" "fits (c * r_num t)" using cn by (auto simp: fits_def)
  then show ?thesis using t k assms(1) by (auto simp: duration_cast_def arith_64 rep_wrap_64 duration_ok_def sdiv_dvd Let_def)
qed

lemma fits_abs: "\<bar>v\<bar> \<le> intmax_max \<Longrightarrow> fits v"
  by (auto simp: fits_def)

lemma abs_le_scaled:
  fixes a k :: int
  assumes "0 < k"
  shows "\<bar>a\<bar> \<le> \<bar>a * k\<bar>"
  using mult_left_mono [of 1 k "\<bar>a\<bar>"] assms by (simp add: abs_mult)

text \<open>Comparing a truncated duration with the original one.\<close>

lemma compare_casted:
  assumes "duration_ok to" "duration_ok from" "comparable from to" "\<bar>c * units from to\<bar> \<le> intmax_max" "\<bar>of_int k\<bar> \<le> \<bar>in_units to from c\<bar>"
  shows "duration_less from c to k = Some (in_units to from c < of_int k)" "duration_less to k from c = Some (of_int k < in_units to from c)"
    "\<bar>k\<bar> \<le> intmax_max" "of_int k < in_units to from c \<Longrightarrow> k + 1 \<le> intmax_max"
proof -
  obtain t k2 where k2: "common_duration from to = Some t" "duration_ok t" "0 < units from to" "0 < k2"
    "ratio_value (period from) = of_int (units from to) * ratio_value (period t)" "ratio_value (period to) = of_int k2 * ratio_value (period t)"
    using common_units [OF assms(2,1,3)] .
  have p: "0 < ratio_value (period to)" by (rule period_pos [OF assms(1)])
  have q: "in_units to from c = of_int (c * units from to) / of_int k2"
    using k2(4,5,6) period_pos [OF k2(2)] by (simp add: in_units_def length_in_seconds_def)
  have "\<bar>of_int (k * k2) :: rat\<bar> \<le> \<bar>of_int (c * units from to)\<bar>"
    using assms(5) k2(4) unfolding q by (simp add: abs_mult pos_le_divide_eq)
  then have kk: "\<bar>k * k2\<bar> \<le> intmax_max" using assms(4) by (simp only: of_int_le_iff flip: of_int_abs)
  show k: "\<bar>k\<bar> \<le> intmax_max" using abs_le_scaled [OF k2(4), of k] kk by simp
  have f: "fits c" "fits k" "fits (c * units from to)" "fits (k * k2)"
    using abs_le_scaled [OF k2(3), of c] assms(4) k kk by (auto intro: fits_abs)
  show "k + 1 \<le> intmax_max" if "of_int k < in_units to from c"
  proof -
    have "(of_int (k * k2) :: rat) < of_int (c * units from to)" using that k2(4) unfolding q by (simp add: pos_less_divide_eq)
    then have "k * k2 < intmax_max" using assms(4) unfolding of_int_less_iff by linarith
    moreover have "k \<le> k * k2" if "0 \<le> k" using that mult_left_mono [of 1 k2 k] k2(4) by simp
    ultimately show ?thesis by (cases "0 \<le> k") (simp_all add: intmax_max_def)
  qed
  have cmp: "(in_units to from c < of_int k) = (length_in_seconds from c < length_in_seconds to k)"
    "(of_int k < in_units to from c) = (length_in_seconds to k < length_in_seconds from c)"
    unfolding in_units_def length_in_seconds_def [of to] using p by (simp_all add: pos_divide_less_eq pos_less_divide_eq)
  show "duration_less from c to k = Some (in_units to from c < of_int k)"
    unfolding duration_less_def cmp
    by (simp add: in_common_cast [OF assms(2,1,3) f(1,2) k2(1,2,5,6)] f lengths_in_units(1) [OF k2(2,5,6)])
  have c: "comparable to from" "common_duration to from = Some t"
    using assms(1,2,3) comparable_commute common_duration_commute k2(1) by auto
  show "duration_less to k from c = Some (of_int k < in_units to from c)"
    unfolding duration_less_def cmp
    by (simp add: in_common_cast [OF assms(1,2) c(1) f(2,1) c(2) k2(2,6,5)] f lengths_in_units(1) [OF k2(2,6,5)])
qed

lemma conversions_exact_cases:
  assumes "duration_ok to" "duration_ok from" "comparable from to" "ratio_divide (period from) (period to) \<noteq> None"
    "\<bar>c * units from to\<bar> \<le> intmax_max"
  shows "duration_floor to from c = Some \<lfloor>in_units to from c\<rfloor>" "duration_ceil to from c = Some \<lceil>in_units to from c\<rceil>"
    "duration_cast to from c = Some (if 0 \<le> in_units to from c then \<lfloor>in_units to from c\<rfloor> else \<lceil>in_units to from c\<rceil>)"
proof -
  define k where "k = (if 0 \<le> in_units to from c then \<lfloor>in_units to from c\<rfloor> else \<lceil>in_units to from c\<rceil>)"
  note tr = trunc_facts [of "in_units to from c", folded k_def]
  have cast: "duration_cast to from c = Some k" unfolding k_def by (rule duration_cast_trunc [OF assms])
  note cmp = compare_casted [OF assms(1,2,3,5) tr(1)]
  have b: "rep_bits to = 64" using assms(1) by (simp add: duration_ok_def)
  show "duration_floor to from c = Some \<lfloor>in_units to from c\<rfloor>"
    using cmp(3) by (auto simp: duration_floor_def cast duration_greater_def cmp(1) tr(2) b arith_64 fits_def)
  show "duration_ceil to from c = Some \<lceil>in_units to from c\<rceil>"
    using cmp(3,4) by (auto simp: duration_ceil_def cast cmp(2) tr(3) b arith_64 fits_def)
  show "duration_cast to from c = Some (if 0 \<le> in_units to from c then \<lfloor>in_units to from c\<rfloor> else \<lceil>in_units to from c\<rceil>)"
    using cast by (simp add: k_def)
qed

text \<open>C31: For durations with 64-bit counts (nanoseconds to seconds; minutes and coarser units are declared with \<^verbatim>\<open>int\<close>): whenever the count of the duration in the common unit fits into 64 bits, \<^verbatim>\<open>floor\<close>, \<^verbatim>\<open>ceil\<close> and \<^verbatim>\<open>duration_cast\<close> give the exact quotient of the
  lengths rounded down, rounded up and truncated, also for negative durations.\<close>

theorem conversions_exact:
  assumes "duration_ok to" "duration_ok from" "comparable from to" "ratio_divide (period from) (period to) \<noteq> None"
    "\<bar>c * units from to\<bar> \<le> intmax_max"
  shows "duration_floor to from c = Some \<lfloor>in_units to from c\<rfloor> \<and> duration_ceil to from c = Some \<lceil>in_units to from c\<rceil> \<and>
    duration_cast to from c = Some (if 0 \<le> in_units to from c then \<lfloor>in_units to from c\<rfloor> else \<lceil>in_units to from c\<rceil>)"
  using conversions_exact_cases [OF assms] by blast

section \<open>Rounding to the nearest\<close>

lemma common_self:
  assumes "duration_ok t"
  shows "common_duration t t = Some t"
proof -
  let ?n = "r_num (period t)" and ?d = "r_den (period t)"
  have b: "0 < ?n" "0 < ?d" "?n \<le> intmax_max" "?d \<le> intmax_max" "coprime ?n ?d" using assms by (auto simp: duration_ok_def reduced_def)
  obtain p where p: "ratio_of ?n ?d = Some p" "reduced p" "r_num p * ?d = ?n * r_den p"
    using ratio_of_Some [of ?n ?d] b by auto
  have "r_num p = ?n \<and> r_den p = ?d" using coprime_fraction_unique [of "r_num p" "r_den p" ?n ?d] p b by (auto simp: reduced_def)
  then have "p = period t" by simp
  moreover have "rat_lcm ?d ?d = Some ?d" using b by (simp add: rat_lcm_def rat_gcd_pos sdiv_dvd arith_64 fits_def)
  ultimately show ?thesis using b p(1) by (simp add: common_duration_def rat_gcd_pos)
qed

lemma ratio_divide_self:
  assumes "reduced p" "0 < r_num p"
  shows "ratio_divide p p \<noteq> None"
proof -
  obtain i where i: "ratio_of (r_den p) (r_num p) = Some i" "reduced i" "r_num i * r_num p = r_den p * r_den i"
    using ratio_of_Some [of "r_den p" "r_num p"] assms by (auto simp: reduced_def)
  have "r_num i = r_den p \<and> r_den i = r_num p"
    using coprime_fraction_unique [of "r_num i" "r_den i" "r_den p" "r_num p"] i(2,3) assms by (auto simp: reduced_def coprime_commute)
  then have "ratio_value p * ratio_value i = 1" using assms by (simp add: ratio_value_def reduced_def)
  moreover have "reduced \<lparr> r_num = 1, r_den = 1 \<rparr>" "ratio_value \<lparr> r_num = 1, r_den = 1 \<rparr> = 1"
    by (simp_all add: reduced_def intmax_max_def ratio_value_def)
  ultimately show ?thesis using ratio_multiply_cases [OF assms(1) i(2)] i(1) by (auto simp: ratio_divide_def split: option.splits)
qed

lemma in_common_self:
  assumes "duration_ok t" "fits a" "fits b"
  shows "in_common f t a t b = f t a b"
  using in_common_cast [OF assms(1,1) _ assms(2,3) common_self [OF assms(1)] assms(1), of 1 1 f] ratio_divide_self [of "period t"] assms
  by (simp add: comparable_def common_self duration_ok_def)

lemma units_other:
  assumes "duration_ok l" "duration_ok r" "common_duration l r = Some t" "duration_ok t" "ratio_value (period r) = of_int k2 * ratio_value (period t)"
  shows "units r l = k2"
  using assms common_duration_commute [OF assms(1,2)] period_pos [OF assms(4)] by (simp add: units_def)

lemma nearest:
  fixes q :: rat
  assumes "0 < k2" "q = of_int m / of_int k2" "f = \<lfloor>q\<rfloor>"
  defines "x \<equiv> m - f * k2" and "y \<equiv> (f + 1) * k2 - m"
  shows "0 \<le> x" "x < k2" "0 < y" "y \<le> k2"
    "let k = (if x < y \<or> x = y \<and> even f then f else f + 1) in \<bar>of_int k - q\<bar> \<le> 1 / 2 \<and> (\<bar>of_int k - q\<bar> = 1 / 2 \<longrightarrow> even k)"
proof -
  have "f = m div k2" using assms(2,3) by (simp add: floor_divide_of_int_eq)
  then have x: "x = m mod k2" by (simp add: x_def minus_div_mult_eq_mod)
  then show b: "0 \<le> x" "x < k2" using assms(1) by simp_all
  have y: "y = k2 - x" by (simp add: x_def y_def algebra_simps)
  then show "0 < y" "y \<le> k2" using b by simp_all
  have m: "(of_int m :: rat) = of_int f * of_int k2 + of_int x" by (simp add: x_def)
  have q: "q = of_int f + of_int x / of_int k2" using assms(1) unfolding assms(2) m by (simp add: add_divide_distrib)
  have r: "0 \<le> (of_int x :: rat)" "(of_int x :: rat) < of_int k2" "0 < (of_int k2 :: rat)" using b assms(1) by simp_all
  have z: "0 \<le> (of_int x / of_int k2 :: rat)" "(of_int x / of_int k2 :: rat) < 1" using r by (auto intro: divide_nonneg_pos)
  have lo: "\<bar>of_int f - q\<bar> = of_int x / of_int k2" and hi: "\<bar>of_int (f + 1) - q\<bar> = 1 - of_int x / of_int k2" using q z by (auto simp: abs_if)
  have le: "(of_int x / of_int k2 \<le> (1 / 2 :: rat)) = (x \<le> y)" "(1 - of_int x / of_int k2 \<le> (1 / 2 :: rat)) = (y \<le> x)"
    "(of_int x / of_int k2 = (1 / 2 :: rat)) = (x = y)" "(1 - of_int x / of_int k2 = (1 / 2 :: rat)) = (x = y)"
    using r(3) y by (auto simp: field_simps) (linarith+)?
  show "let k = (if x < y \<or> x = y \<and> even f then f else f + 1) in \<bar>of_int k - q\<bar> \<le> 1 / 2 \<and> (\<bar>of_int k - q\<bar> = 1 / 2 \<longrightarrow> even k)"
    by (cases "x < y \<or> x = y \<and> even f") (simp_all only: Let_def if_True if_False lo hi le, auto)
qed

text \<open>C32: For durations with 64-bit counts, whenever the count in the common unit and the next multiple of the target's unit fit into 64 bits, \<^verbatim>\<open>round\<close> gives a nearest
  count, and the even one of two.\<close>

theorem round_nearest:
  assumes "duration_ok to" "duration_ok from" "comparable from to" "ratio_divide (period from) (period to) \<noteq> None"
    "\<bar>c * units from to\<bar> + units to from \<le> intmax_max"
  shows "\<exists>k. duration_round to from c = Some k \<and> \<bar>of_int k - in_units to from c\<bar> \<le> 1 / 2 \<and>
    (\<bar>of_int k - in_units to from c\<bar> = 1 / 2 \<longrightarrow> even k)"
proof -
  obtain t k2 where k2: "common_duration from to = Some t" "duration_ok t" "0 < units from to" "0 < k2"
    "ratio_value (period from) = of_int (units from to) * ratio_value (period t)" "ratio_value (period to) = of_int k2 * ratio_value (period t)"
    using common_units [OF assms(2,1,3)] .
  define m where "m = c * units from to"
  define f where "f = \<lfloor>in_units to from c\<rfloor>"
  have u: "units to from = k2" by (rule units_other [OF assms(2,1) k2(1,2,6)])
  then have bound: "\<bar>m\<bar> + k2 \<le> intmax_max" using assms(5) by (simp add: m_def)
  have q: "in_units to from c = of_int m / of_int k2"
    using k2(4,5,6) period_pos [OF k2(2)] by (simp add: in_units_def length_in_seconds_def m_def)
  note n = nearest [OF k2(4) q f_def]
  have fl: "duration_floor to from c = Some f" using conversions_exact_cases(1) [OF assms(1-4)] bound k2(4) by (simp add: f_def m_def)
  have e: "\<bar>f * k2\<bar> \<le> intmax_max" "\<bar>(f + 1) * k2\<bar> \<le> intmax_max" using n(1-4) bound by (auto simp: abs_le_iff)
  then have "\<bar>f\<bar> \<le> intmax_max" "\<bar>f + 1\<bar> \<le> intmax_max" "\<bar>c\<bar> \<le> intmax_max"
    using abs_le_scaled [OF k2(4), of f] abs_le_scaled [OF k2(4), of "f + 1"] abs_le_scaled [OF k2(3), of c] bound k2(4) by (simp_all add: m_def)
  then have fits: "fits f" "fits (f + 1)" "fits c" "fits m" "fits (f * k2)" "fits ((f + 1) * k2)" "fits (m - f * k2)" "fits ((f + 1) * k2 - m)" "fits 1"
    using e n(1-4) bound by (auto intro!: fits_abs simp: intmax_max_def)
  have c: "comparable to from" "common_duration to from = Some t"
    using assms(1,2,3) comparable_commute common_duration_commute k2(1) by auto
  have b: "rep_bits t = 64" "rep_bits to = 64" using k2(2) assms(1) by (simp_all add: duration_ok_def)
  have "duration_plus to f to 1 = Some (f + 1)" by (simp add: duration_plus_def in_common_self [OF assms(1)] fits b arith_64)
  moreover have "duration_minus from c to f = Some (m - f * k2)"
    using fits by (simp add: duration_minus_def in_common_cast [OF assms(2,1,3) fits(3,1) k2(1,2,5,6)] b arith_64 flip: m_def)
  moreover have "duration_minus to (f + 1) from c = Some ((f + 1) * k2 - m)"
    using fits by (simp add: duration_minus_def in_common_cast [OF assms(1,2) c(1) fits(2,3) c(2) k2(2,6,5)] b arith_64 flip: m_def)
  moreover have "duration_less t (m - f * k2) t ((f + 1) * k2 - m) = Some (m - f * k2 < (f + 1) * k2 - m)"
    "duration_equal t (m - f * k2) t ((f + 1) * k2 - m) = Some (m - f * k2 = (f + 1) * k2 - m)"
    by (simp_all only: duration_less_def duration_equal_def in_common_self [OF k2(2) fits(7,8)])
  moreover have "f smod 2 = 0 \<longleftrightarrow> even f" by (auto simp: signed_modulo_int_def sgn_if abs_if even_iff_mod_2_eq_zero)
  ultimately have "duration_round to from c =
      Some (if m - f * k2 < (f + 1) * k2 - m \<or> m - f * k2 = (f + 1) * k2 - m \<and> even f then f else f + 1)"
    by (simp only: duration_round_def fl k2(1) c(2) bind.simps)
  then show ?thesis using n(5) unfolding Let_def by blast
qed

section \<open>Nanoseconds and milliseconds\<close>

lemma pow10_power: "pow10 n = 10 ^ n"
  by (induction n) simp_all

lemma nano_milli:
  "duration_ok nanoseconds" "duration_ok milliseconds" "common_duration nanoseconds milliseconds = Some nanoseconds"
  "comparable nanoseconds milliseconds" "ratio_divide (period nanoseconds) (period milliseconds) \<noteq> None"
  "units nanoseconds milliseconds = 1" "units milliseconds nanoseconds = 1000000"
proof -
  have c: "common_duration nanoseconds milliseconds = Some nanoseconds" "common_duration milliseconds nanoseconds = Some nanoseconds" by code_simp+
  then show "common_duration nanoseconds milliseconds = Some nanoseconds" "units nanoseconds milliseconds = 1" "units milliseconds nanoseconds = 1000000"
    by (simp_all add: units_def nanoseconds_def milliseconds_def duration64_def ratio_value_def pow10_power)
  show "duration_ok nanoseconds" "duration_ok milliseconds"
    by (simp_all add: duration_ok_def nanoseconds_def milliseconds_def duration64_def reduced_def intmax_max_def pow10_power)
  show "comparable nanoseconds milliseconds" "ratio_divide (period nanoseconds) (period milliseconds) \<noteq> None" by code_simp+
qed

lemma in_milliseconds: "in_units milliseconds nanoseconds c = of_int c / 1000000"
  by (simp add: in_units_def length_in_seconds_def nanoseconds_def milliseconds_def duration64_def ratio_value_def pow10_power)

theorem conversions_exact_witness:
  "duration_floor milliseconds nanoseconds (- 1500000) = Some (- 2) \<and> duration_ceil milliseconds nanoseconds (- 1500000) = Some (- 1) \<and>
    duration_cast milliseconds nanoseconds (- 1500000) = Some (- 1)"
  using conversions_exact [OF nano_milli(2,1,4,5), of "- 1500000"] by (simp add: nano_milli in_milliseconds intmax_max_def floor_eq_iff ceiling_eq_iff)

theorem round_nearest_witness: "\<exists>k. duration_round milliseconds nanoseconds 2500000 = Some k \<and> \<bar>of_int k - (5 / 2 :: rat)\<bar> \<le> 1 / 2"
  using round_nearest [OF nano_milli(2,1,4,5), of 2500000] by (auto simp: nano_milli in_milliseconds intmax_max_def)

section \<open>Clocks\<close>

text \<open>C33: \<^verbatim>\<open>steady_clock::now\<close> is exactly the counter in nanoseconds rounded down, without overflow for frequencies up to 9 GHz and 292 years of running
  time, so it never goes backwards.\<close>

theorem steady_clock_exact:
  assumes "0 \<le> counter" "0 < freq" "freq \<le> 9223372036" "counter div freq < 9223372036"
  shows "steady_clock_now counter freq = Some (counter * 10 ^ 9 div freq)"
proof -
  have d: "counter sdiv freq = counter div freq" "counter smod freq = counter mod freq"
    using assms(1,2) by (auto simp: signed_divide_int_def signed_modulo_int_def sgn_if)
  have m: "0 \<le> counter mod freq" "counter mod freq < freq" "0 \<le> counter div freq"
    using assms(1,2) by (simp_all add: pos_imp_zdiv_nonneg_iff)
  have s: "(counter mod freq * 10 ^ 9) sdiv freq = counter mod freq * 10 ^ 9 div freq"
    using m(1) assms(2) by (auto simp: signed_divide_int_def sgn_if zero_less_mult_iff)
  have p: "0 \<le> counter mod freq * 10 ^ 9 div freq" "counter mod freq * 10 ^ 9 div freq < 10 ^ 9"
    using m assms(2) le_div_iff [OF assms(2), of "10 ^ 9" "counter mod freq * 10 ^ 9"] by (simp_all add: pos_imp_zdiv_nonneg_iff flip: not_le)
  have "counter * 10 ^ 9 = (counter div freq * 10 ^ 9) * freq + counter mod freq * 10 ^ 9"
    by (metis (no_types, lifting) div_mult_mod_eq distrib_right mult.assoc mult.commute)
  then have "counter * 10 ^ 9 div freq = counter div freq * 10 ^ 9 + counter mod freq * 10 ^ 9 div freq"
    using assms(2) by (simp only: div_mult_self3)
  moreover have "fits (counter div freq * 10 ^ 9)" "fits (counter mod freq * 10 ^ 9)" "fits (counter div freq * 10 ^ 9 + counter mod freq * 10 ^ 9 div freq)"
    using m p assms(3,4) by (auto simp: fits_def intmax_max_def)
  ultimately show ?thesis using s by (simp add: steady_clock_now_def pow10_power arith_64 d)
qed

theorem steady_clock_exact_witness: "steady_clock_now 30000000001 10000000 = Some 3000000000100"
  using steady_clock_exact [of 30000000001 10000000] by simp

text \<open>The system clock counts units of 100 nanoseconds, but the period of its type is \<^verbatim>\<open>pow10(8)\<close>, 10 nanoseconds.

  The seconds that \<^verbatim>\<open>to_time_t\<close> gives are a tenth of those that passed.\<close>

theorem to_time_t_tenth:
  assumes "0 \<le> s" "s \<le> 900000000000"
  shows "to_time_t (system_clock_now (s * 10000000)) = Some (s div 10)"
proof -
  have "ratio_divide (period system_clock_duration) (period seconds) = Some \<lparr> r_num = 1, r_den = 100000000 \<rparr>" by code_simp
  moreover have "(s * 10000000) sdiv 100000000 = s div 10" using assms(1) by (auto simp: signed_divide_int_def sgn_if)
  moreover have "fits (s div 10)" using assms by (auto simp: fits_def intmax_max_def)
  ultimately show ?thesis
    by (simp add: to_time_t_def system_clock_now_def duration_cast_def rep_wrap_64 seconds_def duration64_def)
qed

theorem to_time_t_tenth_witness: "to_time_t (system_clock_now (3600 * 10000000)) = Some 360"
  using to_time_t_tenth [of 3600] by simp

lemma time_t_roundtrip: "\<bar>s\<bar> \<le> 90000000000 \<Longrightarrow> from_time_t s \<bind> to_time_t = Some s"
proof -
  assume s: "\<bar>s\<bar> \<le> 90000000000"
  have r: "ratio_divide (period system_clock_duration) (period seconds) = Some \<lparr> r_num = 1, r_den = 100000000 \<rparr>"
    "ratio_divide (period seconds) (period system_clock_duration) = Some \<lparr> r_num = 100000000, r_den = 1 \<rparr>" by code_simp+
  have b: "rep_bits seconds = 64" "rep_bits system_clock_duration = 64" by (simp_all add: seconds_def system_clock_duration_def duration64_def)
  have "fits (s * 100000000)" "fits s" using s by (auto simp: fits_def intmax_max_def)
  then show ?thesis
    by (simp add: from_time_t_def to_time_t_def duration_cast_def r b arith_64 rep_wrap_64 sdiv_dvd Let_def)
qed

section \<open>Waiting\<close>

lemma comparisons_self:
  assumes "duration_ok t" "fits a" "fits b"
  shows "duration_less t a t b = Some (a < b)" "duration_equal t a t b = Some (a = b)" "duration_minus t a t b = arith 64 (a - b)"
    "duration_plus t a t b = arith 64 (a + b)"
  using assms(1) by (simp_all add: duration_less_def duration_equal_def duration_minus_def duration_plus_def in_common_self [OF assms] duration_ok_def)

lemma fits_0: "fits 0"
  by (simp add: fits_def intmax_max_def)

text \<open>Going forward and back.\<close>

lemma time_difference_plus:
  assumes "duration_ok t" "fits a" "fits b" "fits (a + b)"
  shows "time_plus t a t b \<bind> (\<lambda>c. time_difference t c t a) = Some b"
  using assms by (simp add: time_plus_def time_difference_def comparisons_self arith_64)

text \<open>A wait never passes an absolute time to the kernel: for a duration that is not negative the interval is minus the number of whole units of 100
  nanoseconds in it, and negative durations, or those of length 0 if so required, do not wait.\<close>

theorem wait_for_interval:
  assumes "duration_ok t" "comparable t tics" "ratio_divide (period t) (period tics) \<noteq> None" "\<bar>c * units t tics\<bar> \<le> intmax_max"
  shows "wait_for_impl cancel_zero t c =
    (if c < 0 \<or> cancel_zero \<and> c = 0 then Some Cancelled else Some (Await (- \<lfloor>in_units tics t c\<rfloor>)))"
proof -
  have ok: "duration_ok tics" by (simp add: duration_ok_def tics_def duration64_def reduced_def intmax_max_def)
  have u: "0 < units t tics" by (rule common_units [OF assms(1) ok assms(2)])
  have c: "fits c" using abs_le_scaled [OF u, of c] assms(4) by (simp add: fits_abs)
  have cast: "duration_cast tics t c = Some \<lfloor>in_units tics t c\<rfloor>" if "0 \<le> c"
  proof -
    have "0 \<le> in_units tics t c"
      using that period_pos [OF assms(1)] period_pos [OF ok] by (simp add: in_units_def length_in_seconds_def)
    then show ?thesis using conversions_exact_cases(3) [OF ok assms] by simp
  qed
  have "fits (- \<lfloor>in_units tics t c\<rfloor>)" if "0 \<le> c"
  proof -
    have "0 \<le> in_units tics t c"
      using that period_pos [OF assms(1)] period_pos [OF ok] by (simp add: in_units_def length_in_seconds_def)
    then have "\<bar>of_int \<lfloor>in_units tics t c\<rfloor>\<bar> \<le> \<bar>in_units tics t c\<bar>" by simp
    from compare_casted(3) [OF ok assms(1,2,4) this] show ?thesis by (simp add: fits_abs)
  qed
  then show ?thesis by (auto simp: wait_for_impl_def comparisons_self [OF assms(1) c fits_0] cast arith_64)
qed

theorem wait_for_interval_witness: "wait_for_impl True milliseconds 5 = Some (Await (- 50000))"
proof -
  have c: "common_duration milliseconds tics = Some tics" "comparable milliseconds tics" "ratio_divide (period milliseconds) (period tics) \<noteq> None"
    by code_simp+
  have "units milliseconds tics = 10000" "in_units tics milliseconds 5 = 50000"
    using c(1) by (simp_all add: units_def in_units_def length_in_seconds_def tics_def milliseconds_def duration64_def ratio_value_def pow10_power)
  then show ?thesis using wait_for_interval [OF nano_milli(2) c(2,3), of 5 True] by (simp add: intmax_max_def)
qed

text \<open>\<^verbatim>\<open>stall_for\<close> tests its argument the wrong way round: it returns at once for all durations that are not negative, and stalls for negative ones, for
  about an hour and ten minutes.\<close>

lemma stall_for_inverted:
  "0 \<le> us \<Longrightarrow> fits us \<Longrightarrow> stall_for microseconds us = Some None"
  "stall_for microseconds (- 1) = Some (Some 4294967295)"
proof -
  have r: "ratio_divide (period microseconds) (period microseconds) = Some \<lparr> r_num = 1, r_den = 1 \<rparr>" by code_simp
  have "rep_bits microseconds = 64" by (simp add: microseconds_def duration64_def)
  then show "0 \<le> us \<Longrightarrow> fits us \<Longrightarrow> stall_for microseconds us = Some None" using r by (simp add: stall_for_def duration_cast_def rep_wrap_64)
  show "stall_for microseconds (- 1) = Some (Some 4294967295)" by code_simp
qed

end
