(* ===== verification/Optional.thy ===== *)
theory Optional
  imports Ktl_Prelude
begin

text \<open>
  \<^verbatim>\<open>optional\<close> (\<^verbatim>\<open>include/optional.hpp\<close>). An optional is its flag and a storage cell. There are two implementations: for types that are trivially
  copyable and destructible the storage is overwritten freely, for all others objects are constructed and destroyed in it. Which constructions
  throw is a parameter. An operation ends normally, with an exception, in a bug check when an exception leaves a function that is \<^verbatim>\<open>noexcept\<close>, or
  its behaviour is undefined.
\<close>

section \<open>Storage\<close>

record 'a optional =
  m_initialized :: bool
  m_value :: "'a cell"

datatype 'o opt_result = Done 'o | Threw 'o | Terminated | Undefined

definition optional_empty :: "'a optional" where
  "optional_empty = \<lparr> m_initialized = False, m_value = Raw \<rparr>"

definition has_value :: "'a optional \<Rightarrow> bool" where
  "has_value opt = m_initialized opt"

text \<open>The constructor from a value is \<^verbatim>\<open>noexcept\<close>, the one that constructs in place is not; after a throw there is no object.\<close>

definition construct_value :: "('a cell \<Rightarrow> bool) \<Rightarrow> 'a cell \<Rightarrow> 'a optional opt_result" where
  "construct_value throws value = (if throws value then Terminated else Done \<lparr> m_initialized = True, m_value = value \<rparr>)"

definition construct_in_place :: "('a cell \<Rightarrow> bool) \<Rightarrow> 'a cell \<Rightarrow> 'a optional option" where
  "construct_in_place throws value = (if throws value then None else Some \<lparr> m_initialized = True, m_value = value \<rparr>)"

text \<open>\<^verbatim>\<open>noexcept\<close> functions.\<close>

definition noexcept :: "'o opt_result \<Rightarrow> 'o opt_result" where
  "noexcept r = (case r of Threw _ \<Rightarrow> Terminated | _ \<Rightarrow> r)"

section \<open>Trivial types\<close>

text \<open>A constructor that throws leaves the storage with indeterminate contents.\<close>

definition t_construct_from_value :: "'a cell \<Rightarrow> 'a optional \<Rightarrow> 'a optional" where
  "t_construct_from_value value opt = opt\<lparr> m_value := value, m_initialized := True \<rparr>"

definition t_construct_from_args :: "('a cell \<Rightarrow> bool) \<Rightarrow> 'a cell \<Rightarrow> 'a optional \<Rightarrow> 'a optional opt_result" where
  "t_construct_from_args throws value opt =
     (if throws value then Threw (opt\<lparr> m_value := Raw \<rparr>) else Done (opt\<lparr> m_value := value, m_initialized := True \<rparr>))"

definition t_reset :: "'a optional \<Rightarrow> 'a optional opt_result" where
  "t_reset opt = Done (opt\<lparr> m_initialized := False \<rparr>)"

definition t_emplace :: "('a cell \<Rightarrow> bool) \<Rightarrow> 'a cell \<Rightarrow> 'a optional \<Rightarrow> 'a optional opt_result" where
  "t_emplace throws value opt = t_construct_from_args throws value opt"

definition t_assign_value :: "('a cell \<Rightarrow> bool) \<Rightarrow> 'a cell \<Rightarrow> 'a optional \<Rightarrow> 'a optional opt_result" where
  "t_assign_value throws value opt = Done (t_construct_from_value value opt)"

definition t_copy_assign :: "('a cell \<Rightarrow> bool) \<Rightarrow> 'a optional \<Rightarrow> 'a optional \<Rightarrow> 'a optional opt_result" where
  "t_copy_assign throws other opt = Done other"

definition t_convert_construct :: "'a optional \<Rightarrow> 'a optional opt_result" where
  "t_convert_construct other = Done (if has_value other then t_construct_from_value (m_value other) optional_empty else optional_empty)"

definition t_convert_assign :: "'a optional \<Rightarrow> 'a optional \<Rightarrow> 'a optional opt_result" where
  "t_convert_assign other opt = (if \<not> has_value other then t_reset opt else Done (t_construct_from_value (m_value other) opt))"

section \<open>Other types\<close>

text \<open>A value can only be assigned to an object.\<close>

definition n_construct_from_value :: "'a cell \<Rightarrow> 'a optional \<Rightarrow> 'a optional opt_result" where
  "n_construct_from_value value opt =
     (if m_value opt = Raw then Undefined else Done (opt\<lparr> m_value := value, m_initialized := True \<rparr>))"

definition n_construct_from_args :: "('a cell \<Rightarrow> bool) \<Rightarrow> 'a cell \<Rightarrow> 'a optional \<Rightarrow> 'a optional opt_result" where
  "n_construct_from_args throws value opt =
     (if m_value opt \<noteq> Raw then Undefined
      else if throws value then Threw opt
      else Done (opt\<lparr> m_value := value, m_initialized := True \<rparr>))"

definition n_reset_if_needed :: "'a optional \<Rightarrow> 'a optional opt_result" where
  "n_reset_if_needed opt =
     (if has_value opt then if m_value opt = Raw then Undefined else Done (opt\<lparr> m_value := Raw \<rparr>) else Done opt)"

definition n_reset :: "'a optional \<Rightarrow> 'a optional opt_result" where
  "n_reset opt = (case n_reset_if_needed opt of Done opt \<Rightarrow> Done (opt\<lparr> m_initialized := False \<rparr>) | r \<Rightarrow> r)"

definition n_destructor :: "'a optional \<Rightarrow> 'a optional opt_result" where
  "n_destructor opt = n_reset_if_needed opt"

definition n_emplace :: "('a cell \<Rightarrow> bool) \<Rightarrow> 'a cell \<Rightarrow> 'a optional \<Rightarrow> 'a optional opt_result" where
  "n_emplace throws value opt = (case n_reset_if_needed opt of Done opt \<Rightarrow> n_construct_from_args throws value opt | r \<Rightarrow> r)"

definition n_assign_or_emplace :: "('a cell \<Rightarrow> bool) \<Rightarrow> 'a cell \<Rightarrow> 'a optional \<Rightarrow> 'a optional opt_result" where
  "n_assign_or_emplace throws value opt =
     noexcept (if has_value opt then
                 if m_value opt = Raw then Undefined else if throws value then Threw opt else Done (opt\<lparr> m_value := value \<rparr>)
               else n_construct_from_args throws value opt)"

definition n_assign_value :: "('a cell \<Rightarrow> bool) \<Rightarrow> 'a cell \<Rightarrow> 'a optional \<Rightarrow> 'a optional opt_result" where
  "n_assign_value throws value opt = n_assign_or_emplace throws value opt"

definition n_copy_construct :: "('a cell \<Rightarrow> bool) \<Rightarrow> 'a optional \<Rightarrow> 'a optional opt_result" where
  "n_copy_construct throws other =
     (if has_value other then n_construct_from_args throws (m_value other) optional_empty else Done optional_empty)"

text \<open>Moving: the new optional, and the other one with an object that was moved from.\<close>

definition n_move_construct :: "('a cell \<Rightarrow> bool) \<Rightarrow> 'a optional \<Rightarrow> ('a optional \<times> 'a optional) opt_result" where
  "n_move_construct throws other =
     (if has_value other then
        case n_construct_from_args throws (m_value other) optional_empty of
          Done opt \<Rightarrow> Done (opt, other\<lparr> m_value := Moved \<rparr>) | Threw opt \<Rightarrow> Threw (opt, other) | Terminated \<Rightarrow> Terminated | Undefined \<Rightarrow> Undefined
      else Done (optional_empty, other))"

definition n_move_assign :: "('a cell \<Rightarrow> bool) \<Rightarrow> 'a optional \<Rightarrow> 'a optional \<Rightarrow> ('a optional \<times> 'a optional) opt_result" where
  "n_move_assign throws other opt =
     (case (if has_value other then n_assign_or_emplace throws (m_value other) opt else n_reset opt) of
        Done opt \<Rightarrow> Done (opt, if has_value other then other\<lparr> m_value := Moved \<rparr> else other)
      | Threw opt \<Rightarrow> Threw (opt, other) | Terminated \<Rightarrow> Terminated | Undefined \<Rightarrow> Undefined)"

definition n_convert_construct :: "'a optional \<Rightarrow> 'a optional opt_result" where
  "n_convert_construct other =
     (if has_value other then n_construct_from_value (m_value other) optional_empty else Done optional_empty)"

definition n_copy_assign :: "('a cell \<Rightarrow> bool) \<Rightarrow> 'a optional \<Rightarrow> 'a optional \<Rightarrow> 'a optional opt_result" where
  "n_copy_assign throws other opt =
     (if has_value other then n_assign_or_emplace throws (m_value other) opt else n_reset opt)"

definition n_convert_assign :: "('a cell \<Rightarrow> bool) \<Rightarrow> 'a optional \<Rightarrow> 'a optional \<Rightarrow> 'a optional opt_result" where
  "n_convert_assign throws other opt = (if has_value other then n_emplace throws (m_value other) opt else n_reset opt)"

section \<open>Access, exchange and comparison\<close>

text \<open>Access to the value: \<open>Inl\<close> is the exception \<^verbatim>\<open>bad_optional_access\<close>, \<open>None\<close> the read of storage without an object.\<close>

datatype access_error = Bad_optional_access

definition opt_value :: "'a optional \<Rightarrow> (access_error + 'a) option" where
  "opt_value opt =
     (if \<not> has_value opt then Some (Inl Bad_optional_access) else case m_value opt of Live v \<Rightarrow> Some (Inr v) | _ \<Rightarrow> None)"

definition opt_deref :: "'a optional \<Rightarrow> 'a option" where
  "opt_deref opt = (case m_value opt of Live v \<Rightarrow> Some v | _ \<Rightarrow> None)"

definition value_or :: "'a \<Rightarrow> 'a optional \<Rightarrow> 'a option" where
  "value_or default_value opt = (if has_value opt then opt_deref opt else Some default_value)"

text \<open>The function \<^verbatim>\<open>swap\<close>, for both implementations: their \<open>emplace\<close> and \<open>reset\<close> are arguments. Moving from the value leaves it moved from.\<close>

definition opt_swap :: "('a cell \<Rightarrow> 'a optional \<Rightarrow> 'a optional opt_result) \<Rightarrow> ('a optional \<Rightarrow> 'a optional opt_result) \<Rightarrow>
    'a optional \<Rightarrow> 'a optional \<Rightarrow> ('a optional \<times> 'a optional) opt_result" where
  "opt_swap emplace reset lhs rhs =
     (let lhs_not_empty = has_value lhs
      in if lhs_not_empty = has_value rhs then
           if lhs_not_empty then Done (lhs\<lparr> m_value := m_value rhs \<rparr>, rhs\<lparr> m_value := m_value lhs \<rparr>) else Done (lhs, rhs)
         else
           let (not_empty, empty) = (if lhs_not_empty then (lhs, rhs) else (rhs, lhs))
           in case emplace (m_value not_empty) empty of
                Done empty \<Rightarrow>
                  (case reset (not_empty\<lparr> m_value := Moved \<rparr>) of
                     Done not_empty \<Rightarrow> Done (if lhs_not_empty then (not_empty, empty) else (empty, not_empty))
                   | Threw not_empty \<Rightarrow> Threw (if lhs_not_empty then (not_empty, empty) else (empty, not_empty))
                   | Terminated \<Rightarrow> Terminated
                   | Undefined \<Rightarrow> Undefined)
              | Threw empty \<Rightarrow> Threw (if lhs_not_empty then (not_empty, empty) else (empty, not_empty))
              | Terminated \<Rightarrow> Terminated
              | Undefined \<Rightarrow> Undefined)"

text \<open>Comparisons read the values only where both are there; a comparison with a value is false for an empty optional, whatever the operator.\<close>

definition opt_equal :: "('a \<Rightarrow> 'a \<Rightarrow> bool) \<Rightarrow> 'a optional \<Rightarrow> 'a optional \<Rightarrow> bool option" where
  "opt_equal eq lhs rhs =
     (let lhs_not_empty = has_value lhs
      in if lhs_not_empty \<noteq> has_value rhs then Some False
         else if \<not> lhs_not_empty then Some True
         else do { x \<leftarrow> opt_deref lhs; y \<leftarrow> opt_deref rhs; Some (eq x y) })"

definition opt_not_equal :: "('a \<Rightarrow> 'a \<Rightarrow> bool) \<Rightarrow> 'a optional \<Rightarrow> 'a optional \<Rightarrow> bool option" where
  "opt_not_equal eq lhs rhs = map_option Not (opt_equal eq lhs rhs)"

definition opt_less :: "('a \<Rightarrow> 'a \<Rightarrow> bool) \<Rightarrow> 'a optional \<Rightarrow> 'a optional \<Rightarrow> bool option" where
  "opt_less lt lhs rhs =
     (if \<not> has_value rhs then Some False
      else if \<not> has_value lhs then Some True
      else do { x \<leftarrow> opt_deref lhs; y \<leftarrow> opt_deref rhs; Some (lt x y) })"

definition opt_greater :: "('a \<Rightarrow> 'a \<Rightarrow> bool) \<Rightarrow> 'a optional \<Rightarrow> 'a optional \<Rightarrow> bool option" where
  "opt_greater lt lhs rhs = opt_less lt rhs lhs"

definition opt_less_equal :: "('a \<Rightarrow> 'a \<Rightarrow> bool) \<Rightarrow> 'a optional \<Rightarrow> 'a optional \<Rightarrow> bool option" where
  "opt_less_equal lt lhs rhs = map_option Not (opt_greater lt lhs rhs)"

definition opt_greater_equal :: "('a \<Rightarrow> 'a \<Rightarrow> bool) \<Rightarrow> 'a optional \<Rightarrow> 'a optional \<Rightarrow> bool option" where
  "opt_greater_equal lt lhs rhs = map_option Not (opt_less lt lhs rhs)"

definition opt_compare_value :: "('a \<Rightarrow> 'a \<Rightarrow> bool) \<Rightarrow> 'a optional \<Rightarrow> 'a \<Rightarrow> bool option" where
  "opt_compare_value oper opt value = (if \<not> has_value opt then Some False else do { x \<leftarrow> opt_deref opt; Some (oper x value) })"

section \<open>The contract of both implementations\<close>

text \<open>\<open>contents\<close> is what an optional holds: nothing, or an object, which may be moved from. \<open>wf\<close> are the representations that occur.\<close>

locale optional_like =
  fixes wf :: "'a optional \<Rightarrow> bool" and reset :: "'a optional \<Rightarrow> 'a optional opt_result"
    and emplace assign_value :: "'a cell \<Rightarrow> 'a optional \<Rightarrow> 'a optional opt_result"
    and copy_assign :: "'a optional \<Rightarrow> 'a optional \<Rightarrow> 'a optional opt_result"
  assumes wf_object: "wf opt \<Longrightarrow> has_value opt \<Longrightarrow> m_value opt \<noteq> Raw"
    and wf_any_object: "wf opt \<Longrightarrow> has_value opt \<Longrightarrow> c \<noteq> Raw \<Longrightarrow> wf (opt\<lparr> m_value := c \<rparr>)"
    and reset_law: "wf opt \<Longrightarrow> \<exists>opt'. reset opt = Done opt' \<and> wf opt' \<and> \<not> has_value opt'"
    and emplace_law: "wf opt \<Longrightarrow> c \<noteq> Raw \<Longrightarrow> \<exists>opt'. emplace c opt = Done opt' \<and> wf opt' \<and> has_value opt' \<and> m_value opt' = c"
    and assign_value_law: "wf opt \<Longrightarrow> c \<noteq> Raw \<Longrightarrow> \<exists>opt'. assign_value c opt = Done opt' \<and> wf opt' \<and> has_value opt' \<and> m_value opt' = c"
    and copy_assign_law: "wf other \<Longrightarrow> wf opt \<Longrightarrow> \<exists>opt'. copy_assign other opt = Done opt' \<and> wf opt' \<and> has_value opt' = has_value other \<and>
      (has_value other \<longrightarrow> m_value opt' = m_value other)"
begin

lemma swap_exchanges:
  assumes "wf lhs" "wf rhs"
  shows "\<exists>lhs' rhs'. opt_swap emplace reset lhs rhs = Done (lhs', rhs') \<and> wf lhs' \<and> wf rhs' \<and>
    has_value lhs' = has_value rhs \<and> has_value rhs' = has_value lhs \<and>
    (has_value rhs \<longrightarrow> m_value lhs' = m_value rhs) \<and> (has_value lhs \<longrightarrow> m_value rhs' = m_value lhs)"
proof -
  have one: "\<exists>e' n'. emplace (m_value n) e = Done e' \<and> reset (n\<lparr> m_value := Moved \<rparr>) = Done n' \<and> wf e' \<and> wf n' \<and>
      has_value e' \<and> \<not> has_value n' \<and> m_value e' = m_value n" if "wf n" "wf e" "has_value n" for n e
    using emplace_law [OF that(2) wf_object [OF that(1,3)]] reset_law [OF wf_any_object [OF that(1,3), of Moved]] by auto
  consider "has_value lhs" "has_value rhs" | "\<not> has_value lhs" "\<not> has_value rhs" | "has_value lhs" "\<not> has_value rhs" | "\<not> has_value lhs" "has_value rhs"
    by blast
  then show ?thesis
  proof cases
    case 1
    then show ?thesis
      using wf_any_object [OF assms(1) 1(1) wf_object [OF assms(2) 1(2)]] wf_any_object [OF assms(2) 1(2) wf_object [OF assms(1) 1(1)]]
      by (simp add: opt_swap_def has_value_def)
  next
    case 2
    then show ?thesis using assms by (simp add: opt_swap_def)
  next
    case 3
    then show ?thesis using one [OF assms 3(1)] by (auto simp: opt_swap_def)
  next
    case 4
    then show ?thesis using one [OF assms(2,1) 4(2)] by (auto simp: opt_swap_def)
  qed
qed

end

text \<open>The trivial implementation keeps old contents in the storage of an empty optional; the other has an object exactly when the flag says so.\<close>

definition t_wf :: "'a optional \<Rightarrow> bool" where
  "t_wf opt \<longleftrightarrow> (m_initialized opt \<longrightarrow> m_value opt \<noteq> Raw)"

definition n_wf :: "'a optional \<Rightarrow> bool" where
  "n_wf opt \<longleftrightarrow> (m_initialized opt \<longleftrightarrow> m_value opt \<noteq> Raw)"

interpretation trivial_optional: optional_like t_wf t_reset "t_emplace (\<lambda>_. False)" "t_assign_value (\<lambda>_. False)" "t_copy_assign (\<lambda>_. False)"
  by unfold_locales
    (auto simp: t_wf_def has_value_def t_reset_def t_emplace_def t_construct_from_args_def t_assign_value_def t_construct_from_value_def t_copy_assign_def)

lemmas n_defs = n_wf_def has_value_def n_reset_def n_reset_if_needed_def n_emplace_def n_construct_from_args_def n_assign_value_def
  n_assign_or_emplace_def n_copy_assign_def noexcept_def

interpretation object_optional: optional_like n_wf n_reset "n_emplace (\<lambda>_. False)" "n_assign_value (\<lambda>_. False)" "n_copy_assign (\<lambda>_. False)"
  by unfold_locales (auto simp: n_defs)

text \<open>C34: \<^verbatim>\<open>swap\<close> of two optionals exchanges what they hold in all four cases, destroys the object it moved from, and leaves both well formed: an object is
  in the storage exactly when the flag says so.\<close>

theorem optional_swap_exchanges:
  assumes "n_wf lhs" "n_wf rhs"
  shows "\<exists>lhs' rhs'. opt_swap (n_emplace (\<lambda>_. False)) n_reset lhs rhs = Done (lhs', rhs') \<and> n_wf lhs' \<and> n_wf rhs' \<and>
    has_value lhs' = has_value rhs \<and> has_value rhs' = has_value lhs \<and>
    (has_value rhs \<longrightarrow> m_value lhs' = m_value rhs) \<and> (has_value lhs \<longrightarrow> m_value rhs' = m_value lhs)"
  by (rule object_optional.swap_exchanges [OF assms])

theorem optional_swap_exchanges_witness:
  "\<exists>lhs' rhs'. opt_swap (n_emplace (\<lambda>_. False)) n_reset \<lparr> m_initialized = True, m_value = Live (7 :: nat) \<rparr> optional_empty = Done (lhs', rhs') \<and>
    \<not> has_value lhs' \<and> m_value rhs' = Live 7"
  using optional_swap_exchanges [of "\<lparr> m_initialized = True, m_value = Live (7 :: nat) \<rparr>" optional_empty]
  by (auto simp: n_wf_def optional_empty_def has_value_def)

text \<open>The same for the trivial implementation, and what the operations keep when constructors throw: no assignment has undefined behaviour, the ones that throw end
  in a bug check.\<close>

lemmas trivial_swap_exchanges = trivial_optional.swap_exchanges

lemma optional_assignments_safe:
  assumes "n_wf opt" "n_wf other" "value \<noteq> Raw"
  shows "\<exists>opt'. n_wf opt' \<and> n_reset opt = Done opt'" "(\<exists>opt'. n_wf opt' \<and> n_assign_value throws value opt = Done opt') \<or> n_assign_value throws value opt = Terminated"
    "(\<exists>opt'. n_wf opt' \<and> n_copy_assign throws other opt = Done opt') \<or> n_copy_assign throws other opt = Terminated"
    "n_move_assign throws other opt \<noteq> Undefined" "n_copy_construct throws other \<noteq> Undefined"
  using assms by (auto simp: n_defs n_move_assign_def n_copy_construct_def optional_empty_def)

section \<open>Where it fails\<close>

text \<open>\<^verbatim>\<open>emplace\<close> destroys the old object and leaves the flag set when the construction of the new one throws: the destructor then destroys what is not
  there.\<close>

lemma emplace_throw_destroys_twice:
  assumes "n_wf opt" "has_value opt" "throws value"
  shows "\<exists>opt'. n_emplace throws value opt = Threw opt' \<and> n_destructor opt' = Undefined"
  using assms by (auto simp: n_defs n_destructor_def)

text \<open>The constructors from an optional of another type assign to storage in which there is no object.\<close>

lemma convert_construct_undefined: "has_value other \<Longrightarrow> n_convert_construct other = Undefined"
  by (simp add: n_convert_construct_def n_construct_from_value_def optional_empty_def)

text \<open>An empty optional is neither equal to a value nor different from it.\<close>

lemma empty_neither_equal:
  "\<not> has_value opt \<Longrightarrow> opt_compare_value (=) opt v = Some False \<and> opt_compare_value (\<noteq>) opt v = Some False"
  by (simp add: opt_compare_value_def)

text \<open>Among themselves optionals are ordered with the empty one first.\<close>

lemma opt_less_linear:
  fixes lhs rhs :: "('a :: linorder) optional"
  assumes "has_value lhs \<Longrightarrow> m_value lhs = Live x" "has_value rhs \<Longrightarrow> m_value rhs = Live y"
  shows "opt_less (<) lhs rhs = Some (has_value rhs \<and> (has_value lhs \<longrightarrow> x < y))"
    "opt_less_equal (<) lhs rhs = Some (has_value lhs \<longrightarrow> has_value rhs \<and> x \<le> y)"
    "opt_equal (=) lhs rhs = Some (has_value lhs = has_value rhs \<and> (has_value lhs \<longrightarrow> x = y))"
  using assms by (auto simp: opt_less_def opt_less_equal_def opt_greater_def opt_equal_def opt_deref_def Let_def)

lemma value_or_total: "n_wf opt \<Longrightarrow> m_value opt \<noteq> Moved \<Longrightarrow> \<exists>v. value_or d opt = Some v \<and> opt_value opt \<noteq> None"
  by (cases "m_value opt") (auto simp: value_or_def opt_value_def opt_deref_def n_wf_def has_value_def)

end
