(* ===== verification/Thread_Objects.thy ===== *)
theory Thread_Objects
  imports Owner_Ptr_Spec
begin

text \<open>
  Thread objects (\<^verbatim>\<open>include/thread.hpp\<close>, \<^verbatim>\<open>src/thread.cpp\<close>): what \<^verbatim>\<open>system_thread\<close>, \<^verbatim>\<open>guarded_system_thread\<close> and \<^verbatim>\<open>io_thread\<close> do with references to
  thread objects of the kernel, with handles and with the packed arguments, as programs of one thread over numbered variables; and what the
  routine that runs in a new thread does with an exception. The answers of the kernel are arguments of the operations. The bug check of a
  destructor, and the use of a variable that does not exist, end a program: \<open>None\<close>.
\<close>

section \<open>Objects and resources\<close>

datatype thread_kind = System | Guarded | Io

record thread_base =
  t_kind :: thread_kind
  m_thread :: nat

datatype resource = Reference nat | Handle nat | Arguments nat

text \<open>Resources that were acquired and given back, arguments that belong to a started thread, threads that were waited for, and exceptions
  thrown to the program.\<close>

record t_world =
  t_gained :: "resource list"
  t_lost :: "resource list"
  t_started :: "resource list"
  t_waited :: "nat list"
  t_thrown :: nat

text \<open>What the kernel answers when a thread is created: a handle or a failure, and the object for that handle, 0 when it cannot be obtained.\<close>

record kernel_answer =
  k_handle :: "nat option"
  k_object :: nat

definition try_obtain_thread_object :: "kernel_answer \<Rightarrow> t_world \<Rightarrow> nat \<times> t_world" where
  "try_obtain_thread_object k w =
     (k_object k, if k_object k \<noteq> 0 then w\<lparr> t_gained := Reference (k_object k) # t_gained w \<rparr> else w)"

definition create_thread_impl :: "kernel_answer \<Rightarrow> t_world \<Rightarrow> nat option \<times> t_world" where
  "create_thread_impl k w =
     (case k_handle k of
        None \<Rightarrow> (None, w)
      | Some handle \<Rightarrow>
          let w = w\<lparr> t_gained := Handle handle # t_gained w \<rparr>;
              (thread_obj, w) = try_obtain_thread_object k w;
              w = w\<lparr> t_lost := Handle handle # t_lost w \<rparr>
          in (Some thread_obj, w))"

text \<open>\<^verbatim>\<open>create_thread\<close>: the arguments are freed when the thread cannot be created, and belong to the thread otherwise.\<close>

definition create_thread :: "nat \<Rightarrow> kernel_answer \<Rightarrow> t_world \<Rightarrow> nat option \<times> t_world" where
  "create_thread packed_args k w =
     (let w = w\<lparr> t_gained := Arguments packed_args # t_gained w \<rparr>
      in case create_thread_impl k w of
           (None, w) \<Rightarrow> (None, w\<lparr> t_lost := Arguments packed_args # t_lost w \<rparr>)
         | (Some thread_obj, w) \<Rightarrow> (Some thread_obj, w\<lparr> t_started := Arguments packed_args # t_started w \<rparr>))"

definition thread_destroy :: "thread_base \<Rightarrow> t_world \<Rightarrow> thread_base \<times> t_world" where
  "thread_destroy t w =
     (if m_thread t \<noteq> 0 then (t\<lparr> m_thread := 0 \<rparr>, w\<lparr> t_lost := Reference (m_thread t) # t_lost w \<rparr>) else (t, w))"

definition thread_move :: "thread_base \<Rightarrow> thread_base \<times> thread_base" where
  "thread_move other = (other, other\<lparr> m_thread := 0 \<rparr>)"

definition thread_move_assign :: "thread_base \<Rightarrow> thread_base \<Rightarrow> t_world \<Rightarrow> thread_base \<times> thread_base \<times> t_world" where
  "thread_move_assign this other w =
     (let (this, w) = thread_destroy this w
      in (this\<lparr> m_thread := m_thread other \<rparr>, other\<lparr> m_thread := 0 \<rparr>, w))"

definition joinable :: "thread_base \<Rightarrow> bool" where
  "joinable t \<longleftrightarrow> m_thread t \<noteq> 0"

text \<open>\<^verbatim>\<open>join\<close> and \<^verbatim>\<open>detach\<close>, which throw for a thread that is not joinable.\<close>

definition thread_join :: "thread_base \<Rightarrow> t_world \<Rightarrow> thread_base \<times> t_world" where
  "thread_join t w =
     (if \<not> joinable t then (t, w\<lparr> t_thrown := t_thrown w + 1 \<rparr>)
      else thread_destroy t (w\<lparr> t_waited := m_thread t # t_waited w \<rparr>))"

definition thread_detach :: "thread_base \<Rightarrow> t_world \<Rightarrow> thread_base \<times> t_world" where
  "thread_detach t w = (if \<not> joinable t then (t, w\<lparr> t_thrown := t_thrown w + 1 \<rparr>) else thread_destroy t w)"

text \<open>The destructors: a joinable system thread terminates the driver with a bug check.\<close>

definition thread_destructor :: "thread_base \<Rightarrow> t_world \<Rightarrow> t_world option" where
  "thread_destructor t w =
     (if t_kind t \<noteq> Io \<and> joinable t then None else Some (snd (thread_destroy t w)))"

section \<open>Programs\<close>

datatype t_op =
    T_default thread_kind
  | T_create thread_kind nat kernel_answer
  | T_move nat
  | T_assign nat nat
  | T_join nat
  | T_detach nat
  | T_swap nat nat
  | T_destroy nat

type_synonym t_state = "thread_base option list \<times> t_world"

definition on_thread :: "thread_base option list \<Rightarrow> nat \<Rightarrow> (thread_base \<Rightarrow> 'a option) \<Rightarrow> 'a option" where
  "on_thread vs i f = (case rd vs i of Some (Some t) \<Rightarrow> f t | _ \<Rightarrow> None)"

text \<open>Assignment and exchange exist for threads of the same kind, waiting for system threads.\<close>

fun t_exec :: "t_op \<Rightarrow> t_state \<Rightarrow> t_state option" where
  "t_exec (T_default kind) (vs, w) = Some (vs @ [Some \<lparr> t_kind = kind, m_thread = 0 \<rparr>], w)"
| "t_exec (T_create kind packed_args k) (vs, w) =
     (case create_thread packed_args k w of
        (None, w) \<Rightarrow> Some (vs, w\<lparr> t_thrown := t_thrown w + 1 \<rparr>)
      | (Some thread_obj, w) \<Rightarrow> Some (vs @ [Some \<lparr> t_kind = kind, m_thread = thread_obj \<rparr>], w))"
| "t_exec (T_move i) (vs, w) = on_thread vs i (\<lambda>t. let (new, old) = thread_move t in Some (vs[i := Some old] @ [Some new], w))"
| "t_exec (T_assign i j) (vs, w) =
     on_thread vs i (\<lambda>t. on_thread vs j (\<lambda>u.
       if t_kind t \<noteq> t_kind u then None
       else if i = j then Some (vs, w)
       else let (t, u, w) = thread_move_assign t u w in Some (vs[i := Some t, j := Some u], w)))"
| "t_exec (T_join i) (vs, w) =
     on_thread vs i (\<lambda>t. if t_kind t = Io then None else let (t, w) = thread_join t w in Some (vs[i := Some t], w))"
| "t_exec (T_detach i) (vs, w) =
     on_thread vs i (\<lambda>t. if t_kind t = Io then None else let (t, w) = thread_detach t w in Some (vs[i := Some t], w))"
| "t_exec (T_swap i j) (vs, w) =
     on_thread vs i (\<lambda>t. on_thread vs j (\<lambda>u.
       if t_kind t \<noteq> t_kind u then None
       else Some (vs[i := Some (t\<lparr> m_thread := m_thread u \<rparr>), j := Some (u\<lparr> m_thread := m_thread t \<rparr>)], w)))"
| "t_exec (T_destroy i) (vs, w) = on_thread vs i (\<lambda>t. map_option (\<lambda>w. (vs[i := None], w)) (thread_destructor t w))"

section \<open>Every resource is given back once\<close>

definition t_holds :: "thread_base \<Rightarrow> resource multiset" where
  "t_holds t = (if m_thread t = 0 then {#} else {#Reference (m_thread t)#})"

definition t_held :: "t_state \<Rightarrow> resource multiset" where
  "t_held s = total t_holds (fst s)"

definition t_inflow :: "t_state \<Rightarrow> resource multiset" where
  "t_inflow s = mset (t_gained (snd s))"

definition t_outflow :: "t_state \<Rightarrow> resource multiset" where
  "t_outflow s = mset (t_lost (snd s)) + mset (t_started (snd s))"

lemmas t_flows = t_held_def t_inflow_def t_outflow_def

lemma on_thread_Some: "on_thread vs i f = Some r \<Longrightarrow> \<exists>t. i < length vs \<and> vs ! i = Some t \<and> f t = Some r"
  by (auto simp: on_thread_def mem_simps split: option.splits)

lemma holds_null [simp]: "t_holds (t\<lparr> m_thread := 0 \<rparr>) = {#}" "t_holds \<lparr> t_kind = kind, m_thread = 0 \<rparr> = {#}"
  by (simp_all add: t_holds_def)

lemma holds_copy [simp]: "t_holds (t\<lparr> m_thread := m_thread u \<rparr>) = t_holds u"
  by (simp add: t_holds_def)

lemma destroy_balance:
  "thread_destroy t w = (t', w') \<Longrightarrow>
     t_holds t' = {#} \<and> mset (t_lost w') = t_holds t + mset (t_lost w) \<and> t_gained w' = t_gained w \<and> t_started w' = t_started w"
  by (auto simp: thread_destroy_def t_holds_def split: if_splits)

lemma detach_balance:
  "thread_detach t w = (t', w') \<Longrightarrow>
     t_holds t' = {#} \<and> mset (t_lost w') = t_holds t + mset (t_lost w) \<and> t_gained w' = t_gained w \<and> t_started w' = t_started w"
  by (auto simp: thread_detach_def joinable_def t_holds_def split: if_splits dest!: destroy_balance)

lemma join_balance:
  "thread_join t w = (t', w') \<Longrightarrow>
     t_holds t' = {#} \<and> mset (t_lost w') = t_holds t + mset (t_lost w) \<and> t_gained w' = t_gained w \<and> t_started w' = t_started w"
  by (auto simp: thread_join_def joinable_def t_holds_def split: if_splits dest!: destroy_balance)

lemma create_balance:
  "create_thread a k w = (r, w') \<Longrightarrow>
     mset (t_gained w') + mset (t_lost w) + mset (t_started w) =
     mset (t_gained w) + mset (t_lost w') + mset (t_started w') + (case r of Some t \<Rightarrow> t_holds \<lparr> t_kind = kind, m_thread = t \<rparr> | None \<Rightarrow> {#})"
  by (auto simp: create_thread_def create_thread_impl_def try_obtain_thread_object_def t_holds_def Let_def split: option.splits prod.splits if_splits)

lemma t_create_conserves:
  assumes "t_exec (T_create kind a k) (vs, w) = Some s'" "mset (t_gained w) = total t_holds vs + (mset (t_lost w) + mset (t_started w))"
  shows "t_inflow s' = t_held s' + t_outflow s'"
proof -
  obtain r w' where c: "create_thread a k w = (r, w')" by (cases "create_thread a k w")
  let ?h = "case r of Some t \<Rightarrow> t_holds \<lparr> t_kind = kind, m_thread = t \<rparr> | None \<Rightarrow> {#}"
  have "mset (t_gained w') + (mset (t_lost w) + mset (t_started w)) =
      (total t_holds vs + ?h + mset (t_lost w') + mset (t_started w')) + (mset (t_lost w) + mset (t_started w))"
    using create_balance [OF c, of kind] assms(2) by (simp only: ac_simps)
  then have "mset (t_gained w') = total t_holds vs + ?h + mset (t_lost w') + mset (t_started w')" by (simp only: add_right_cancel)
  then show ?thesis using assms(1) by (cases r) (auto simp: c t_flows add_ac)
qed

lemma t_assign_conserves:
  assumes "t_exec (T_assign i j) (vs, w) = Some s'" "mset (t_gained w) = total t_holds vs + (mset (t_lost w) + mset (t_started w))"
  shows "t_inflow s' = t_held s' + t_outflow s'"
proof -
  obtain t u where tu: "i < length vs" "vs ! i = Some t" "j < length vs" "vs ! j = Some u"
    "(if t_kind t \<noteq> t_kind u then None else if i = j then Some (vs, w)
      else let (t, u, w) = thread_move_assign t u w in Some (vs[i := Some t, j := Some u], w)) = Some s'"
    using assms(1) by (auto dest!: on_thread_Some)
  show ?thesis
  proof (cases "i = j")
    case True
    then show ?thesis using tu(5) assms(2) by (auto simp: t_flows split: if_splits)
  next
    case False
    obtain t' w' where d: "thread_destroy t w = (t', w')" by (cases "thread_destroy t w")
    have s': "s' = (vs[i := Some (t'\<lparr> m_thread := m_thread u \<rparr>), j := Some (u\<lparr> m_thread := 0 \<rparr>)], w')"
      using tu(5) False by (auto simp: thread_move_assign_def d split: if_splits)
    have "total t_holds (vs[i := Some (t'\<lparr> m_thread := m_thread u \<rparr>), j := Some (u\<lparr> m_thread := 0 \<rparr>)]) + t_holds t = total t_holds vs"
      using total_update2 [OF tu(1-4) False, of t_holds "t'\<lparr> m_thread := m_thread u \<rparr>" "u\<lparr> m_thread := 0 \<rparr>"] by simp
    then show ?thesis using assms(2) destroy_balance [OF d] by (simp add: s' t_flows add_ac)
  qed
qed

lemma t_swap_conserves:
  assumes "t_exec (T_swap i j) (vs, w) = Some s'" "mset (t_gained w) = total t_holds vs + (mset (t_lost w) + mset (t_started w))"
  shows "t_inflow s' = t_held s' + t_outflow s'"
proof -
  obtain t u where tu: "i < length vs" "vs ! i = Some t" "j < length vs" "vs ! j = Some u"
    "s' = (vs[i := Some (t\<lparr> m_thread := m_thread u \<rparr>), j := Some (u\<lparr> m_thread := m_thread t \<rparr>)], w)"
    using assms(1) by (auto split: if_splits dest!: on_thread_Some)
  show ?thesis
  proof (cases "i = j")
    case True
    then have "vs[i := Some (t\<lparr> m_thread := m_thread u \<rparr>), j := Some (u\<lparr> m_thread := m_thread t \<rparr>)] = vs"
      using tu(1-4) by (simp add: list_update_same_conv)
    then show ?thesis using assms(2) tu(5) by (simp add: t_flows)
  next
    case False
    then show ?thesis
      using assms(2) tu(5) total_update2 [OF tu(1-4) False, of t_holds "t\<lparr> m_thread := m_thread u \<rparr>" "u\<lparr> m_thread := m_thread t \<rparr>"]
      by (simp add: t_flows add_ac)
  qed
qed

lemma t_exec_conserves:
  assumes "t_exec op s = Some s'" "t_inflow s = t_held s + t_outflow s"
  shows "t_inflow s' = t_held s' + t_outflow s'"
proof -
  obtain vs w where s: "s = (vs, w)" by (cases s)
  note inv = assms(2) [unfolded s t_flows fst_conv snd_conv]
  note step = assms(1) [unfolded s]
  have one: "t_inflow (vs[i := Some t'], w') = t_held (vs[i := Some t'], w') + t_outflow (vs[i := Some t'], w')"
    if "i < length vs" "vs ! i = Some t"
      "t_holds t' = {#} \<and> mset (t_lost w') = t_holds t + mset (t_lost w) \<and> t_gained w' = t_gained w \<and> t_started w' = t_started w" for i t t' w'
    using inv that(3) total_update [OF that(1,2), of t_holds "Some t'"] by (simp add: t_flows add_ac)
  show ?thesis
  proof (cases op)
    case (T_default kind)
    then show ?thesis using step inv by (auto simp: t_flows)
  next
    case (T_create kind a k)
    then show ?thesis using t_create_conserves [OF _ inv] step by simp
  next
    case (T_move i)
    then obtain t where t: "i < length vs" "vs ! i = Some t" "s' = (vs[i := Some (t\<lparr> m_thread := 0 \<rparr>)] @ [Some t], w)"
      using step by (auto simp: thread_move_def dest!: on_thread_Some)
    then show ?thesis using inv total_update [OF t(1,2), of t_holds "Some (t\<lparr> m_thread := 0 \<rparr>)"] by (simp add: t_flows)
  next
    case (T_assign i j)
    then show ?thesis using t_assign_conserves [OF _ inv] step by simp
  next
    case (T_join i)
    then obtain t t' w' where r: "i < length vs" "vs ! i = Some t" "thread_join t w = (t', w')" "s' = (vs[i := Some t'], w')"
      using step by (auto split: if_splits prod.splits dest!: on_thread_Some)
    show ?thesis unfolding r(4) by (rule one [OF r(1,2) join_balance [OF r(3)]])
  next
    case (T_detach i)
    then obtain t t' w' where r: "i < length vs" "vs ! i = Some t" "thread_detach t w = (t', w')" "s' = (vs[i := Some t'], w')"
      using step by (auto split: if_splits prod.splits dest!: on_thread_Some)
    show ?thesis unfolding r(4) by (rule one [OF r(1,2) detach_balance [OF r(3)]])
  next
    case (T_swap i j)
    then show ?thesis using t_swap_conserves [OF _ inv] step by simp
  next
    case (T_destroy i)
    then obtain t where t: "i < length vs" "vs ! i = Some t" "s' = (vs[i := None], snd (thread_destroy t w))"
      using step by (auto simp: thread_destructor_def split: if_splits dest!: on_thread_Some)
    obtain t' w' where d: "thread_destroy t w = (t', w')" by (cases "thread_destroy t w")
    show ?thesis using inv t(3) destroy_balance [OF d] total_update [OF t(1,2), of t_holds None] by (simp add: d t_flows add_ac)
  qed
qed

interpretation threads: conserving t_exec t_held t_inflow t_outflow
  by unfold_locales (rule t_exec_conserves)

definition t_init :: t_state where
  "t_init = ([], \<lparr> t_gained = [], t_lost = [], t_started = [], t_waited = [], t_thrown = 0 \<rparr>)"

text \<open>C9: In every program over threads, the references, handles and arguments that were acquired are those that a thread variable holds, those given
  back and the arguments of started threads: no reference is dropped twice, every handle is closed, and arguments are freed exactly when their thread could not
  be created.\<close>

theorem thread_resources_conserved:
  assumes "run_ops t_exec ops t_init = Some s"
  shows "mset (t_gained (snd s)) = t_held s + mset (t_lost (snd s)) + mset (t_started (snd s))"
  using threads.run_conserves [OF assms] by (simp add: t_flows t_init_def add.assoc)

theorem thread_resources_conserved_witness:
  "\<exists>s. run_ops t_exec [T_create System 5 \<lparr> k_handle = Some 3, k_object = 100 \<rparr>, T_create Io 6 \<lparr> k_handle = None, k_object = 0 \<rparr>, T_move 0, T_join 1] t_init = Some s \<and>
     mset (t_gained (snd s)) = t_held s + mset (t_lost (snd s)) + mset (t_started (snd s))"
proof -
  have "run_ops t_exec [T_create System 5 \<lparr> k_handle = Some 3, k_object = 100 \<rparr>, T_create Io 6 \<lparr> k_handle = None, k_object = 0 \<rparr>, T_move 0, T_join 1] t_init =
    Some ([Some \<lparr> t_kind = System, m_thread = 0 \<rparr>, Some \<lparr> t_kind = System, m_thread = 0 \<rparr>],
      \<lparr> t_gained = [Arguments 6, Reference 100, Handle 3, Arguments 5], t_lost = [Reference 100, Arguments 6, Handle 3], t_started = [Arguments 5],
        t_waited = [100], t_thrown = 1 \<rparr>)"
    by code_simp
  from thread_resources_conserved [OF this] this show ?thesis by blast
qed

section \<open>The routine of a thread\<close>

datatype call_outcome = Returns | Throws_exception int | Throws_other

datatype thread_end = Exit int | Return_to_kernel | Bug_check

definition STATUS_SUCCESS :: int where "STATUS_SUCCESS = 0"
definition STATUS_UNHANDLED_EXCEPTION :: int where "STATUS_UNHANDLED_EXCEPTION = 0xC0000144"

text \<open>\<^verbatim>\<open>make_call\<close> of the classes; \<open>None\<close> stands for an exception that leaves it.\<close>

definition system_make_call :: "call_outcome \<Rightarrow> int option" where
  "system_make_call fn = (case fn of Returns \<Rightarrow> Some STATUS_SUCCESS | _ \<Rightarrow> None)"

definition guarded_make_call :: "call_outcome \<Rightarrow> int option" where
  "guarded_make_call fn =
     (case fn of Returns \<Rightarrow> system_make_call fn | Throws_exception code \<Rightarrow> Some code | Throws_other \<Rightarrow> Some STATUS_UNHANDLED_EXCEPTION)"

text \<open>\<^verbatim>\<open>invoke_in_thread\<close> is \<^verbatim>\<open>noexcept\<close>: an exception that leaves \<^verbatim>\<open>make_call\<close> ends in a bug check. Otherwise \<^verbatim>\<open>before_exit\<close> ends a system thread with the
  status.\<close>

definition invoke_in_thread :: "(call_outcome \<Rightarrow> int option) \<Rightarrow> call_outcome \<Rightarrow> thread_end" where
  "invoke_in_thread make_call fn = (case make_call fn of Some status \<Rightarrow> Exit status | None \<Rightarrow> Bug_check)"

definition invoke_in_io_thread :: "call_outcome \<Rightarrow> thread_end" where
  "invoke_in_io_thread fn = (case fn of Returns \<Rightarrow> Return_to_kernel | _ \<Rightarrow> Bug_check)"

text \<open>A guarded thread inherits the constructors of \<^verbatim>\<open>system_thread\<close>, whose base \<^verbatim>\<open>worker_thread<system_thread>\<close> makes the routine.\<close>

definition get_thread_routine :: "thread_kind \<Rightarrow> call_outcome \<Rightarrow> thread_end" where
  "get_thread_routine kind =
     (case kind of System \<Rightarrow> invoke_in_thread system_make_call | Guarded \<Rightarrow> invoke_in_thread system_make_call | Io \<Rightarrow> invoke_in_io_thread)"

text \<open>So the threads that are meant to catch all exceptions catch none: an exception in one ends in a bug check, although their own \<^verbatim>\<open>make_call\<close> would
  end the thread with the status of the exception.\<close>

lemma guarded_thread_unguarded:
  "get_thread_routine Guarded (Throws_exception code) = Bug_check" "invoke_in_thread guarded_make_call (Throws_exception code) = Exit code"
  "get_thread_routine Guarded Throws_other = Bug_check" "invoke_in_thread guarded_make_call Throws_other = Exit STATUS_UNHANDLED_EXCEPTION"
  by (simp_all add: get_thread_routine_def invoke_in_thread_def system_make_call_def guarded_make_call_def)

end
