(* ===== verification/Atomics.thy ===== *)
theory Atomics
  imports Ktl_Prelude
begin

unbundle bit_operations_syntax

text \<open>
  Atomic values (\<^verbatim>\<open>include/atomic.hpp\<close>). Each operation is one interlocked access of the processor to a word of 8 to 64 bits, so that threads interleave
  whole operations; an operation is a function from the stored word to its result and the new word. The lock that the header provides for larger types
  is a step relation, and the table of memory orders is compared with the order that its comment draws.
\<close>

section \<open>Operations on words\<close>

definition atomic_load :: "'w word \<Rightarrow> 'w :: len word" where
  "atomic_load place = place"

definition atomic_exchange :: "'w word \<Rightarrow> 'w word \<Rightarrow> 'w :: len word \<times> 'w word" where
  "atomic_exchange value place = (place, value)"

text \<open>The store with sequential consistency is an exchange, the others are plain.\<close>

definition atomic_store :: "bool \<Rightarrow> 'w word \<Rightarrow> 'w :: len word \<Rightarrow> 'w word" where
  "atomic_store seq_cst value place = (if seq_cst then snd (atomic_exchange value place) else value)"

text \<open>The result, the variable for the expected value and the stored word.\<close>

definition compare_exchange_strong :: "'w word \<Rightarrow> 'w word \<Rightarrow> 'w :: len word \<Rightarrow> bool \<times> 'w word \<times> 'w word" where
  "compare_exchange_strong expected desired place =
     (let old_value = place; place = (if place = expected then desired else place)
      in if old_value = expected then (True, expected, place) else (False, old_value, place))"

definition fetch_add :: "'w word \<Rightarrow> 'w :: len word \<Rightarrow> 'w word \<times> 'w word" where
  "fetch_add operand place = (let new = place + operand in (new - operand, new))"

definition fetch_and :: "'w word \<Rightarrow> 'w :: len word \<Rightarrow> 'w word \<times> 'w word" where
  "fetch_and operand place = (place, place AND operand)"

definition fetch_or :: "'w word \<Rightarrow> 'w :: len word \<Rightarrow> 'w word \<times> 'w word" where
  "fetch_or operand place = (place, place OR operand)"

definition fetch_xor :: "'w word \<Rightarrow> 'w :: len word \<Rightarrow> 'w word \<times> 'w word" where
  "fetch_xor operand place = (place, place XOR operand)"

definition pre_increment :: "'w :: len word \<Rightarrow> 'w word \<times> 'w word" where
  "pre_increment place = (let new = place + 1 in (new, new))"

definition post_increment :: "'w :: len word \<Rightarrow> 'w word \<times> 'w word" where
  "post_increment place = (let new = place + 1 in (new - 1, new))"

definition pre_decrement :: "'w :: len word \<Rightarrow> 'w word \<times> 'w word" where
  "pre_decrement place = (let new = place - 1 in (new, new))"

definition post_decrement :: "'w :: len word \<Rightarrow> 'w word \<times> 'w word" where
  "post_decrement place = (let new = place - 1 in (new + 1, new))"

definition negate :: "'w :: len word \<Rightarrow> 'w word" where
  "negate value = 0 - value"

definition fetch_sub :: "'w word \<Rightarrow> 'w :: len word \<Rightarrow> 'w word \<times> 'w word" where
  "fetch_sub operand place = fetch_add (negate operand) place"

definition add_assign :: "'w word \<Rightarrow> 'w :: len word \<Rightarrow> 'w word \<times> 'w word" where
  "add_assign operand place = (let (old, place) = fetch_add operand place in (old + operand, place))"

definition sub_assign :: "'w word \<Rightarrow> 'w :: len word \<Rightarrow> 'w word \<times> 'w word" where
  "sub_assign operand place = (let (old, place) = fetch_sub operand place in (old - operand, place))"

definition and_assign :: "'w word \<Rightarrow> 'w :: len word \<Rightarrow> 'w word \<times> 'w word" where
  "and_assign operand place = (let (old, place) = fetch_and operand place in (old AND operand, place))"

definition or_assign :: "'w word \<Rightarrow> 'w :: len word \<Rightarrow> 'w word \<times> 'w word" where
  "or_assign operand place = (let (old, place) = fetch_or operand place in (old OR operand, place))"

definition xor_assign :: "'w word \<Rightarrow> 'w :: len word \<Rightarrow> 'w word \<times> 'w word" where
  "xor_assign operand place = (let (old, place) = fetch_xor operand place in (old XOR operand, place))"

text \<open>\<^verbatim>\<open>atomic_flag\<close> holds an \<^verbatim>\<open>atomic<bool>\<close>, a byte.\<close>

definition flag_test :: "8 word \<Rightarrow> bool" where
  "flag_test m_storage \<longleftrightarrow> atomic_load m_storage \<noteq> 0"

definition flag_test_and_set :: "8 word \<Rightarrow> bool \<times> 8 word" where
  "flag_test_and_set m_storage = (let (old, m_storage) = atomic_exchange 1 m_storage in (old \<noteq> 0, m_storage))"

definition flag_clear :: "bool \<Rightarrow> 8 word \<Rightarrow> 8 word" where
  "flag_clear seq_cst m_storage = atomic_store seq_cst 0 m_storage"

text \<open>For which sizes \<^verbatim>\<open>atomic\<close> says that it needs no lock.\<close>

definition is_always_lock_free :: "64 word \<Rightarrow> bool" where
  "is_always_lock_free size_of_type \<longleftrightarrow> size_of_type \<le> 8 \<and> size_of_type AND (size_of_type - 1) = 0"

section \<open>Sequences of operations\<close>

datatype 'v counter_op = Add 'v | Sub 'v | Pre_inc | Post_inc | Pre_dec | Post_dec

fun counter_exec :: "'w word counter_op \<Rightarrow> 'w :: len word \<Rightarrow> 'w word \<times> 'w word" where
  "counter_exec (Add v) place = fetch_add v place"
| "counter_exec (Sub v) place = fetch_sub v place"
| "counter_exec Pre_inc place = pre_increment place"
| "counter_exec Post_inc place = post_increment place"
| "counter_exec Pre_dec place = pre_decrement place"
| "counter_exec Post_dec place = post_decrement place"

fun counter_run :: "'w word counter_op list \<Rightarrow> 'w :: len word \<Rightarrow> 'w word list \<times> 'w word" where
  "counter_run [] place = ([], place)"
| "counter_run (op # ops) place =
     (let (r, place) = counter_exec op place; (rs, place) = counter_run ops place in (r # rs, place))"

fun delta :: "'w word counter_op \<Rightarrow> 'w :: len word" where
  "delta (Add v) = v" | "delta (Sub v) = - v" | "delta Pre_inc = 1" | "delta Post_inc = 1" | "delta Pre_dec = - 1" | "delta Post_dec = - 1"

lemmas counter_defs = fetch_add_def fetch_sub_def negate_def pre_increment_def post_increment_def pre_decrement_def post_decrement_def

lemma counter_exec_delta: "snd (counter_exec op place) = place + delta op"
  by (cases op) (simp_all add: counter_defs Let_def)

text \<open>However many threads work on a counter, it ends with the sum of what they added, modulo the width.\<close>

lemma counter_run_sum: "snd (counter_run ops place) = place + sum_list (map delta ops)"
  by (induction ops arbitrary: place) (auto simp: Let_def split: prod.splits, metis counter_exec_delta snd_conv add.assoc)

lemma tickets_values:
  "fst (counter_run (replicate n Post_inc) place) = map (\<lambda>i. place + word_of_nat i) [0..<n]"
proof (induction n arbitrary: place)
  case (Suc n)
  have "fst (counter_run (replicate (Suc n) Post_inc) place) = place # fst (counter_run (replicate n Post_inc) (place + 1))"
    by (simp add: post_increment_def Let_def split: prod.split)
  also have "\<dots> = place # map (\<lambda>i. place + 1 + word_of_nat i) [0..<n]" by (simp add: Suc.IH)
  also have "\<dots> = map (\<lambda>i. place + word_of_nat i) [0..<Suc n]"
    by (simp add: upt_conv_Cons map_Suc_upt [symmetric] comp_def add.assoc del: upt_Suc)
  finally show ?case .
qed simp

text \<open>The numbers that threads draw with \<^verbatim>\<open>counter++\<close> differ until the counter has gone round, whatever it started with: the result of the
  operation is the number before, also at the wrap-around.\<close>

lemma tickets_distinct:
  fixes place :: "'w :: len word"
  assumes "n \<le> 2 ^ LENGTH('w)"
  shows "distinct (fst (counter_run (replicate n Post_inc) place))"
proof -
  have "inj_on (\<lambda>i. place + word_of_nat i) {0..<n}"
  proof (rule inj_onI)
    fix i j :: nat
    assume ij: "i \<in> {0..<n}" "j \<in> {0..<n}" "place + word_of_nat i = place + word_of_nat j"
    then have "unat (word_of_nat i :: 'w word) = unat (word_of_nat j :: 'w word)" by simp
    then show "i = j" using ij(1,2) assms by (simp add: unsigned_of_nat take_bit_nat_eq_self)
  qed
  then show ?thesis by (simp add: tickets_values distinct_map)
qed

text \<open>The assignments return what they stored.\<close>

lemma assignments_return_stored:
  "fst (add_assign v place) = snd (add_assign v place)" "fst (sub_assign v place) = snd (sub_assign v place)"
  "fst (and_assign v place) = snd (and_assign v place)" "fst (or_assign v place) = snd (or_assign v place)"
  "fst (xor_assign v place) = snd (xor_assign v place)"
  by (simp_all add: add_assign_def sub_assign_def and_assign_def or_assign_def xor_assign_def counter_defs fetch_and_def fetch_or_def fetch_xor_def)

text \<open>A compare-and-exchange writes exactly on success, and otherwise reports the value it saw.\<close>

lemma compare_exchange_cases:
  "compare_exchange_strong expected desired place =
     (if place = expected then (True, expected, desired) else (False, place, place))"
  by (simp add: compare_exchange_strong_def)

text \<open>Of the threads that call \<^verbatim>\<open>test_and_set\<close> on a clear flag, exactly the first sees it clear, until somebody clears it.\<close>

fun flag_race :: "nat \<Rightarrow> 8 word \<Rightarrow> bool list \<times> 8 word" where
  "flag_race 0 f = ([], f)"
| "flag_race (Suc n) f = (let (r, f) = flag_test_and_set f; (rs, f) = flag_race n f in (r # rs, f))"

lemma flag_race_set: "f \<noteq> 0 \<Longrightarrow> fst (flag_race n f) = replicate n True"
  by (induction n arbitrary: f) (simp_all add: flag_test_and_set_def atomic_exchange_def Let_def case_prod_unfold)

lemma flag_one_winner:
  "fst (flag_race (Suc n) (flag_clear seq_cst f)) = False # replicate n True"
  by (simp add: flag_clear_def atomic_store_def atomic_exchange_def flag_test_and_set_def flag_race_set Let_def case_prod_unfold)

text \<open>The sizes without a lock are those for which the storage has interlocked operations.\<close>

lemma lock_free_sizes: "size_of_type \<noteq> 0 \<Longrightarrow> is_always_lock_free size_of_type \<longleftrightarrow> size_of_type \<in> {1, 2, 4, 8}"
proof -
  assume nz: "size_of_type \<noteq> 0"
  show ?thesis
  proof (cases "size_of_type \<le> 8")
    case True
    define n where "n = unat size_of_type"
    have "n \<le> 8" using True unfolding n_def by (simp add: word_le_nat_alt)
    moreover have s: "size_of_type = word_of_nat n" unfolding n_def by simp
    moreover have "n \<noteq> 0" using nz s by (cases n) auto
    ultimately have "n \<in> {1, 2, 3, 4, 5, 6, 7, 8}" by auto
    then show ?thesis by (auto simp: s is_always_lock_free_def)
  qed (auto simp: is_always_lock_free_def)
qed

section \<open>Memory orders\<close>

datatype memory_order = Relaxed | Consume | Acquire | Release | Acq_rel | Seq_cst

fun order_value :: "memory_order \<Rightarrow> nat" where
  "order_value Relaxed = 0" | "order_value Consume = 1" | "order_value Acquire = 2" | "order_value Release = 4"
| "order_value Acq_rel = 6" | "order_value Seq_cst = 14"

definition COMBINED :: "memory_order list list" where
  "COMBINED =
     [[Relaxed, Consume, Acquire, Release, Acq_rel, Seq_cst],
      [Consume, Consume, Acquire, Acq_rel, Acq_rel, Seq_cst],
      [Acquire, Acquire, Acquire, Acq_rel, Acq_rel, Seq_cst],
      [Release, Acq_rel, Acq_rel, Release, Acq_rel, Seq_cst],
      [Acq_rel, Acq_rel, Acq_rel, Acq_rel, Acq_rel, Seq_cst],
      [Seq_cst, Seq_cst, Seq_cst, Seq_cst, Seq_cst, Seq_cst]]"

text \<open>\<open>None\<close>: the code does not compile, because of an order that a load cannot have or an index outside of the table.\<close>

definition combine_cas_memory_orders :: "memory_order \<Rightarrow> memory_order \<Rightarrow> memory_order option" where
  "combine_cas_memory_orders on_success on_failure =
     (if on_failure \<in> {Release, Acq_rel} then None
      else do { row \<leftarrow> rd COMBINED (order_value on_success); rd row (order_value on_failure) })"

text \<open>The partial order of the comment, and its least upper bounds.\<close>

fun weaker :: "memory_order \<Rightarrow> memory_order \<Rightarrow> bool" where
  "weaker Relaxed _ = True"
| "weaker Consume y = (y \<in> {Consume, Acquire, Acq_rel, Seq_cst})"
| "weaker Acquire y = (y \<in> {Acquire, Acq_rel, Seq_cst})"
| "weaker Release y = (y \<in> {Release, Acq_rel, Seq_cst})"
| "weaker Acq_rel y = (y \<in> {Acq_rel, Seq_cst})"
| "weaker Seq_cst y = (y = Seq_cst)"

definition upper_bound :: "memory_order \<Rightarrow> memory_order \<Rightarrow> memory_order \<Rightarrow> bool" where
  "upper_bound x y z \<longleftrightarrow> weaker x z \<and> weaker y z \<and> (\<forall>u. weaker x u \<and> weaker y u \<longrightarrow> weaker z u)"

lemma all_orders: "(\<forall>u. P u) \<longleftrightarrow> P Relaxed \<and> P Consume \<and> P Acquire \<and> P Release \<and> P Acq_rel \<and> P Seq_cst"
  by (metis memory_order.exhaust)

text \<open>The table itself has the least upper bounds, but it is indexed with the values of the enumeration, which are not consecutive: only pairs of
  \<^verbatim>\<open>relaxed\<close>, \<^verbatim>\<open>consume\<close> and \<^verbatim>\<open>acquire\<close> are looked up correctly, \<^verbatim>\<open>release\<close> reads the row of \<^verbatim>\<open>acq_rel\<close>, and \<^verbatim>\<open>acq_rel\<close> and \<^verbatim>\<open>seq_cst\<close> do not compile.\<close>

lemma combined_table:
  "\<forall>i < 6. \<forall>j < 6. upper_bound ([Relaxed, Consume, Acquire, Release, Acq_rel, Seq_cst] ! i)
     ([Relaxed, Consume, Acquire, Release, Acq_rel, Seq_cst] ! j) (COMBINED ! i ! j)"
  by (simp add: COMBINED_def upper_bound_def all_orders numeral_nat All_less_Suc)

lemma combine_orders_index:
  "x \<in> {Relaxed, Consume, Acquire} \<Longrightarrow> y \<in> {Relaxed, Consume, Acquire} \<Longrightarrow> \<exists>z. combine_cas_memory_orders x y = Some z \<and> upper_bound x y z"
  "combine_cas_memory_orders Release Relaxed = Some Acq_rel" "upper_bound Release Relaxed Release"
  "x \<in> {Acq_rel, Seq_cst} \<Longrightarrow> combine_cas_memory_orders x y = None" "combine_cas_memory_orders x Seq_cst = None"
  by (cases x; cases y; auto simp: combine_cas_memory_orders_def COMBINED_def upper_bound_def all_orders rd_def)+

section \<open>The lock for large types\<close>

text \<open>\<^verbatim>\<open>universal_lock\<close> takes its mutex below \<^verbatim>\<open>DISPATCH_LEVEL\<close> and its spin lock at that level. \<open>level\<close> gives for each thread whether it runs at
  \<^verbatim>\<open>DISPATCH_LEVEL\<close>.\<close>

record 't universal_lock =
  u_mtx :: "'t option"
  u_spinlock :: "'t option"
  u_inside :: "'t set"

definition universal_lock_lock :: "('t \<Rightarrow> bool) \<Rightarrow> 't \<Rightarrow> 't universal_lock \<Rightarrow> 't universal_lock option" where
  "universal_lock_lock level t u =
     (if \<not> level t then if u_mtx u = None then Some (u\<lparr> u_mtx := Some t, u_inside := insert t (u_inside u) \<rparr>) else None
      else if u_spinlock u = None then Some (u\<lparr> u_spinlock := Some t, u_inside := insert t (u_inside u) \<rparr>) else None)"

definition universal_lock_unlock :: "('t \<Rightarrow> bool) \<Rightarrow> 't \<Rightarrow> 't universal_lock \<Rightarrow> 't universal_lock" where
  "universal_lock_unlock level t u =
     (if \<not> level t then u\<lparr> u_mtx := None, u_inside := u_inside u - {t} \<rparr> else u\<lparr> u_spinlock := None, u_inside := u_inside u - {t} \<rparr>)"

inductive ul_reach :: "('t \<Rightarrow> bool) \<Rightarrow> 't universal_lock \<Rightarrow> bool" for level where
  ul_init: "ul_reach level \<lparr> u_mtx = None, u_spinlock = None, u_inside = {} \<rparr>"
| ul_lock: "ul_reach level u \<Longrightarrow> t \<notin> u_inside u \<Longrightarrow> universal_lock_lock level t u = Some u' \<Longrightarrow> ul_reach level u'"
| ul_unlock: "ul_reach level u \<Longrightarrow> t \<in> u_inside u \<Longrightarrow> ul_reach level (universal_lock_unlock level t u)"

lemma ul_owners: "ul_reach level u \<Longrightarrow> \<forall>t \<in> u_inside u. (level t \<longrightarrow> u_spinlock u = Some t) \<and> (\<not> level t \<longrightarrow> u_mtx u = Some t)"
  by (induction rule: ul_reach.induct) (auto simp: universal_lock_lock_def universal_lock_unlock_def split: if_splits, (metis option.inject)+)

text \<open>Threads at the same side of \<^verbatim>\<open>DISPATCH_LEVEL\<close> exclude each other, those at different sides do not.\<close>

lemma universal_lock_excludes:
  "ul_reach level u \<Longrightarrow> t \<in> u_inside u \<Longrightarrow> v \<in> u_inside u \<Longrightarrow> level t = level v \<Longrightarrow> t = v"
  using ul_owners [of level u] by (metis option.inject)

lemma universal_lock_not_exclusive:
  assumes "\<not> level t" "level v"
  shows "\<exists>u. ul_reach level u \<and> t \<in> u_inside u \<and> v \<in> u_inside u"
proof -
  let ?u = "\<lparr> u_mtx = Some t, u_spinlock = None, u_inside = {t} \<rparr>"
  have "ul_reach level ?u" by (rule ul_lock [OF ul_init, of t]) (simp_all add: assms universal_lock_lock_def)
  then have "ul_reach level (?u\<lparr> u_spinlock := Some v, u_inside := {v, t} \<rparr>)"
    by (rule ul_lock [of _ _ v]) (use assms in \<open>auto simp: universal_lock_lock_def\<close>)
  then show ?thesis by (intro exI [of _ "?u\<lparr> u_spinlock := Some v, u_inside := {v, t} \<rparr>"]) simp
qed

end
