(* ===== verification/Spin_Locks.thy ===== *)
theory Spin_Locks
  imports Ktl_Prelude
begin

text \<open>
  Interrupt levels (\<^verbatim>\<open>runtime/src/irql.cpp\<close>), spin locks and the waits for events with a predicate (\<^verbatim>\<open>include/mutex.hpp\<close>,
  \<^verbatim>\<open>src/mutex.cpp\<close>). The functions of the kernel are a parameter; \<open>documented\<close> says what they do to the level of each thread and to the owner
  of each lock. A call for which a thread waits returns \<open>None\<close>.
\<close>

section \<open>Interrupt levels\<close>

abbreviation passive_level :: nat where "passive_level \<equiv> 0"
abbreviation apc_level :: nat where "apc_level \<equiv> 1"
abbreviation dispatch_level :: nat where "dispatch_level \<equiv> 2"

record ('t, 'l, 'k) spin_kernel =
  KeGetCurrentIrql :: "'t \<Rightarrow> 'k \<Rightarrow> nat"
  KeRaiseIrql :: "'t \<Rightarrow> nat \<Rightarrow> 'k \<Rightarrow> nat \<times> 'k"
  KeLowerIrql :: "'t \<Rightarrow> nat \<Rightarrow> 'k \<Rightarrow> 'k"
  KeAcquireSpinLockRaiseToDpc :: "'t \<Rightarrow> 'l \<Rightarrow> 'k \<Rightarrow> (nat \<times> 'k) option"
  KeAcquireSpinLockAtDpcLevel :: "'t \<Rightarrow> 'l \<Rightarrow> 'k \<Rightarrow> 'k option"
  KeTryToAcquireSpinLockAtDpcLevel :: "'t \<Rightarrow> 'l \<Rightarrow> 'k \<Rightarrow> bool \<times> 'k"
  KeReleaseSpinLock :: "'t \<Rightarrow> 'l \<Rightarrow> nat \<Rightarrow> 'k \<Rightarrow> 'k"
  KeReleaseSpinLockFromDpcLevel :: "'t \<Rightarrow> 'l \<Rightarrow> 'k \<Rightarrow> 'k"

definition get_current_irql :: "('t, 'l, 'k) spin_kernel \<Rightarrow> 't \<Rightarrow> 'k \<Rightarrow> nat" where
  "get_current_irql K t k = KeGetCurrentIrql K t k"

definition raise_irql :: "('t, 'l, 'k) spin_kernel \<Rightarrow> 't \<Rightarrow> nat \<Rightarrow> 'k \<Rightarrow> nat \<times> 'k" where
  "raise_irql K t new_irql k = KeRaiseIrql K t new_irql k"

definition lower_irql :: "('t, 'l, 'k) spin_kernel \<Rightarrow> 't \<Rightarrow> nat \<Rightarrow> 'k \<Rightarrow> 'k" where
  "lower_irql K t new_irql k = KeLowerIrql K t new_irql k"

definition irql_less_or_equal :: "('t, 'l, 'k) spin_kernel \<Rightarrow> 't \<Rightarrow> nat \<Rightarrow> 'k \<Rightarrow> bool" where
  "irql_less_or_equal K t target_max_irql k \<longleftrightarrow> get_current_irql K t k \<le> target_max_irql"

text \<open>\<open>None\<close>: a bug check.\<close>

definition verify_max_irql :: "('t, 'l, 'k) spin_kernel \<Rightarrow> 't \<Rightarrow> nat \<Rightarrow> 'k \<Rightarrow> unit option" where
  "verify_max_irql K t target_max_irql k = (if \<not> irql_less_or_equal K t target_max_irql k then None else Some ())"

text \<open>What the kernel promises: the levels of the threads and the owners of the locks after each call. A lock is taken by one thread at a time.\<close>

definition irqls :: "('t, 'l, 'k) spin_kernel \<Rightarrow> 'k \<Rightarrow> 't \<Rightarrow> nat" where
  "irqls K k = (\<lambda>t. KeGetCurrentIrql K t k)"

definition documented :: "('t, 'l, 'k) spin_kernel \<Rightarrow> ('k \<Rightarrow> 'l \<Rightarrow> 't option) \<Rightarrow> bool" where
  "documented K owner \<longleftrightarrow>
     (\<forall>t n k old k'. KeRaiseIrql K t n k = (old, k') \<longrightarrow> old = irqls K k t \<and> irqls K k' = (irqls K k)(t := n) \<and> owner k' = owner k) \<and>
     (\<forall>t n k. irqls K (KeLowerIrql K t n k) = (irqls K k)(t := n) \<and> owner (KeLowerIrql K t n k) = owner k) \<and>
     (\<forall>t l k. case KeAcquireSpinLockRaiseToDpc K t l k of None \<Rightarrow> owner k l \<noteq> None
        | Some (old, k') \<Rightarrow> owner k l = None \<and> old = irqls K k t \<and> irqls K k' = (irqls K k)(t := dispatch_level) \<and> owner k' = (owner k)(l \<mapsto> t)) \<and>
     (\<forall>t l k. case KeAcquireSpinLockAtDpcLevel K t l k of None \<Rightarrow> owner k l \<noteq> None
        | Some k' \<Rightarrow> owner k l = None \<and> irqls K k' = irqls K k \<and> owner k' = (owner k)(l \<mapsto> t)) \<and>
     (\<forall>t l k b k'. KeTryToAcquireSpinLockAtDpcLevel K t l k = (b, k') \<longrightarrow>
        b = (owner k l = None) \<and> irqls K k' = irqls K k \<and> owner k' = (if b then (owner k)(l \<mapsto> t) else owner k)) \<and>
     (\<forall>t l n k. irqls K (KeReleaseSpinLock K t l n k) = (irqls K k)(t := n) \<and> owner (KeReleaseSpinLock K t l n k) = (owner k)(l := None)) \<and>
     (\<forall>t l k. irqls K (KeReleaseSpinLockFromDpcLevel K t l k) = irqls K k \<and> owner (KeReleaseSpinLockFromDpcLevel K t l k) = (owner k)(l := None))"

section \<open>Spin locks\<close>

datatype SpinlockType = Mixed | DpcOnly

text \<open>\<^verbatim>\<open>spin_lock_type_selector\<close>; \<open>None\<close>: one of the static assertions fails, or the selected type is not defined.\<close>

fun spin_lock_selector_impl :: "nat \<Rightarrow> SpinlockType option" where
  "spin_lock_selector_impl i = (if i = 1 then Some Mixed else if i = 2 then Some DpcOnly else if i = 3 then Some Mixed else None)"

definition spin_lock_type_selector :: "nat \<Rightarrow> nat \<Rightarrow> SpinlockType option" where
  "spin_lock_type_selector MinIrql MaxIrql =
     (if MinIrql \<le> MaxIrql \<and> MaxIrql \<le> dispatch_level
      then spin_lock_selector_impl (of_bool (MinIrql \<le> apc_level) + 2 * of_bool (MaxIrql \<le> dispatch_level)) else None)"

text \<open>The state: the kernel's and the member \<^verbatim>\<open>m_prev_irql\<close> of each lock.\<close>

record ('l, 'k) spin_state =
  kern :: 'k
  m_prev_irql :: "'l \<Rightarrow> nat"

fun policy_lock :: "('t, 'l, 'k) spin_kernel \<Rightarrow> SpinlockType \<Rightarrow> 't \<Rightarrow> 'l \<Rightarrow> ('l, 'k) spin_state \<Rightarrow> ('l, 'k) spin_state option" where
  "policy_lock K DpcOnly t l s = map_option (\<lambda>k. s\<lparr> kern := k \<rparr>) (KeAcquireSpinLockAtDpcLevel K t l (kern s))"
| "policy_lock K Mixed t l s =
     map_option (\<lambda>(old, k). s\<lparr> kern := k, m_prev_irql := (m_prev_irql s)(l := old) \<rparr>) (KeAcquireSpinLockRaiseToDpc K t l (kern s))"

fun policy_try_lock :: "('t, 'l, 'k) spin_kernel \<Rightarrow> SpinlockType \<Rightarrow> 't \<Rightarrow> 'l \<Rightarrow> ('l, 'k) spin_state \<Rightarrow> bool \<times> ('l, 'k) spin_state" where
  "policy_try_lock K DpcOnly t l s = (let (b, k) = KeTryToAcquireSpinLockAtDpcLevel K t l (kern s) in (b, s\<lparr> kern := k \<rparr>))"
| "policy_try_lock K Mixed t l s =
     (let (prev_irql, k) = raise_irql K t dispatch_level (kern s);
          (b, k) = KeTryToAcquireSpinLockAtDpcLevel K t l k
      in if \<not> b then (False, s\<lparr> kern := lower_irql K t prev_irql k \<rparr>)
         else (True, s\<lparr> kern := k, m_prev_irql := (m_prev_irql s)(l := prev_irql) \<rparr>))"

fun policy_unlock :: "('t, 'l, 'k) spin_kernel \<Rightarrow> SpinlockType \<Rightarrow> 't \<Rightarrow> 'l \<Rightarrow> ('l, 'k) spin_state \<Rightarrow> ('l, 'k) spin_state" where
  "policy_unlock K DpcOnly t l s = s\<lparr> kern := KeReleaseSpinLockFromDpcLevel K t l (kern s) \<rparr>"
| "policy_unlock K Mixed t l s = s\<lparr> kern := KeReleaseSpinLock K t l (m_prev_irql s l) (kern s) \<rparr>"

text \<open>The selection is safe: without the raise of the level only locks are taken whose users all run at \<^verbatim>\<open>DISPATCH_LEVEL\<close>. Whether a lock is
  limited to low levels is never distinguished.\<close>

lemma spin_lock_type_safe:
  assumes "MinIrql \<le> MaxIrql" "MaxIrql \<le> dispatch_level"
  shows "spin_lock_type_selector MinIrql MaxIrql = Some (if MinIrql = dispatch_level then DpcOnly else Mixed)"
  using assms by (auto simp: spin_lock_type_selector_def)

section \<open>The effect of the calls\<close>

text \<open>An abstract state: levels, owners, and the stored levels.\<close>

type_synonym ('t, 'l) level_view = "('t \<Rightarrow> nat) \<times> ('l \<Rightarrow> 't option) \<times> ('l \<Rightarrow> nat)"

definition spin_view :: "('t, 'l, 'k) spin_kernel \<Rightarrow> ('k \<Rightarrow> 'l \<Rightarrow> 't option) \<Rightarrow> ('l, 'k) spin_state \<Rightarrow> ('t, 'l) level_view" where
  "spin_view K owner s = (irqls K (kern s), owner (kern s), m_prev_irql s)"

fun view_lock :: "'t \<Rightarrow> 'l \<Rightarrow> ('t, 'l) level_view \<Rightarrow> ('t, 'l) level_view option" where
  "view_lock t l (lv, own, prev) = (if own l = None then Some (lv(t := dispatch_level), own(l \<mapsto> t), prev(l := lv t)) else None)"

text \<open>The same for either kind of lock: only a mixed one stores the level.\<close>

fun view_take :: "SpinlockType \<Rightarrow> 't \<Rightarrow> 'l \<Rightarrow> ('t, 'l) level_view \<Rightarrow> ('t, 'l) level_view option" where
  "view_take kd t l (lv, own, prev) =
     (if own l = None then Some (lv(t := dispatch_level), own(l \<mapsto> t), if kd = Mixed then prev(l := lv t) else prev) else None)"

fun view_unlock :: "'t \<Rightarrow> 'l \<Rightarrow> ('t, 'l) level_view \<Rightarrow> ('t, 'l) level_view" where
  "view_unlock t l (lv, own, prev) = (lv(t := prev l), own(l := None), prev)"

lemma documentedD:
  assumes "documented K owner"
  shows "KeRaiseIrql K t n k = (old, k1) \<Longrightarrow> old = irqls K k t \<and> irqls K k1 = (irqls K k)(t := n) \<and> owner k1 = owner k"
    and "irqls K (KeLowerIrql K t n k) = (irqls K k)(t := n)" "owner (KeLowerIrql K t n k) = owner k"
    and "case KeAcquireSpinLockRaiseToDpc K t l k of None \<Rightarrow> owner k l \<noteq> None
        | Some (old, k') \<Rightarrow> owner k l = None \<and> old = irqls K k t \<and> irqls K k' = (irqls K k)(t := dispatch_level) \<and> owner k' = (owner k)(l \<mapsto> t)"
    and "KeTryToAcquireSpinLockAtDpcLevel K t l k = (b, k2) \<Longrightarrow>
        b = (owner k l = None) \<and> irqls K k2 = irqls K k \<and> owner k2 = (if b then (owner k)(l \<mapsto> t) else owner k)"
    and "irqls K (KeReleaseSpinLock K t l n k) = (irqls K k)(t := n)" "owner (KeReleaseSpinLock K t l n k) = (owner k)(l := None)"
    and "case KeAcquireSpinLockAtDpcLevel K t l k of None \<Rightarrow> owner k l \<noteq> None
        | Some k' \<Rightarrow> owner k l = None \<and> irqls K k' = irqls K k \<and> owner k' = (owner k)(l \<mapsto> t)"
    and "irqls K (KeReleaseSpinLockFromDpcLevel K t l k) = irqls K k" "owner (KeReleaseSpinLockFromDpcLevel K t l k) = (owner k)(l := None)"
  using assms by (simp_all only: documented_def)

lemma policy_lock_view:
  assumes "documented K owner"
  shows "map_option (spin_view K owner) (policy_lock K Mixed t l s) = view_lock t l (spin_view K owner s)"
  using documentedD(4) [OF assms, where t = t and l = l and k = "kern s"] by (auto simp: spin_view_def split: option.splits)

text \<open>A failed attempt changes nothing that can be observed.\<close>

lemma policy_try_lock_view:
  assumes "documented K owner"
  shows "policy_try_lock K Mixed t l s = (b, s') \<Longrightarrow>
    (if b then view_lock t l (spin_view K owner s) = Some (spin_view K owner s')
     else view_lock t l (spin_view K owner s) = None \<and> spin_view K owner s' = spin_view K owner s)"
  using documentedD(2,3) [OF assms]
  by (auto simp: spin_view_def raise_irql_def lower_irql_def Let_def split: prod.splits if_splits
      dest!: documentedD(1) [OF assms] documentedD(5) [OF assms])

lemma policy_unlock_view:
  assumes "documented K owner"
  shows "spin_view K owner (policy_unlock K Mixed t l s) = view_unlock t l (spin_view K owner s)"
  using documentedD(6,7) [OF assms] by (simp add: spin_view_def)

lemma policy_lock_take:
  assumes "documented K owner" "kd = DpcOnly \<Longrightarrow> irqls K (kern s) t = dispatch_level"
  shows "map_option (spin_view K owner) (policy_lock K kd t l s) = view_take kd t l (spin_view K owner s)"
proof (cases kd)
  case Mixed
  then show ?thesis using policy_lock_view [OF assms(1), of t l s] by (simp add: spin_view_def)
next
  case DpcOnly
  then show ?thesis
    using assms(2) documentedD(8) [OF assms(1), where t = t and l = l and k = "kern s"]
    by (auto simp: spin_view_def split: option.splits)
qed

lemma policy_try_lock_take:
  assumes "documented K owner" "kd = DpcOnly \<Longrightarrow> irqls K (kern s) t = dispatch_level" "policy_try_lock K kd t l s = (b, s')"
  shows "if b then view_take kd t l (spin_view K owner s) = Some (spin_view K owner s')
     else spin_view K owner s' = spin_view K owner s"
proof (cases kd)
  case Mixed
  then show ?thesis using policy_try_lock_view [OF assms(1), of t l s b s'] assms(3) by (auto simp: spin_view_def)
next
  case DpcOnly
  then show ?thesis using assms(2,3)
    by (auto simp: spin_view_def split: prod.splits if_splits dest!: documentedD(5) [OF assms(1)])
qed

declare policy_lock.simps [simp del] policy_try_lock.simps [simp del] policy_unlock.simps [simp del]

section \<open>Locks released in reverse order\<close>

text \<open>Any number of threads, each on its own level \<open>base\<close>, and locks of both kinds. A thread may take further locks while it holds some, in any order, by \<^verbatim>\<open>lock\<close> or
  \<^verbatim>\<open>try_lock\<close>; \<open>held\<close> lists the locks of each thread, the last one taken first, and that one is released first. A lock of the kind \<^verbatim>\<open>DpcOnly\<close> is taken at
  \<^verbatim>\<open>DISPATCH_LEVEL\<close> only, which is what the kernel demands for its functions and what \<^verbatim>\<open>spin_lock_type_selector\<close> provides for.\<close>

inductive spin_reach :: "('t, 'l, 'k) spin_kernel \<Rightarrow> ('k \<Rightarrow> 'l \<Rightarrow> 't option) \<Rightarrow> ('l \<Rightarrow> SpinlockType) \<Rightarrow> ('t \<Rightarrow> nat) \<Rightarrow>
    ('t \<Rightarrow> 'l list) \<Rightarrow> ('l, 'k) spin_state \<Rightarrow> bool"
  for K owner kd base where
  spin_start: "irqls K (kern s) = base \<Longrightarrow> owner (kern s) = (\<lambda>_. None) \<Longrightarrow> spin_reach K owner kd base (\<lambda>_. []) s"
| spin_locks: "spin_reach K owner kd base held s \<Longrightarrow> (kd l = DpcOnly \<Longrightarrow> irqls K (kern s) t = dispatch_level) \<Longrightarrow>
    policy_lock K (kd l) t l s = Some s' \<Longrightarrow> spin_reach K owner kd base (held(t := l # held t)) s'"
| spin_tries: "spin_reach K owner kd base held s \<Longrightarrow> (kd l = DpcOnly \<Longrightarrow> irqls K (kern s) t = dispatch_level) \<Longrightarrow>
    policy_try_lock K (kd l) t l s = (b, s') \<Longrightarrow> spin_reach K owner kd base (if b then held(t := l # held t) else held) s'"
| spin_unlocks: "spin_reach K owner kd base held s \<Longrightarrow> held t = l # ls \<Longrightarrow>
    spin_reach K owner kd base (held(t := ls)) (policy_unlock K (kd l) t l s)"

text \<open>The level of a thread that holds the locks \<open>ls\<close>; what the locks of a thread remember.\<close>

definition level_with :: "nat \<Rightarrow> 'l list \<Rightarrow> nat" where
  "level_with b ls = (if ls = [] then b else dispatch_level)"

fun remembered :: "('l \<Rightarrow> SpinlockType) \<Rightarrow> ('l \<Rightarrow> nat) \<Rightarrow> nat \<Rightarrow> 'l list \<Rightarrow> bool" where
  "remembered kd prev b [] \<longleftrightarrow> True"
| "remembered kd prev b (l # ls) \<longleftrightarrow>
     (if kd l = Mixed then prev l = level_with b ls else level_with b ls = dispatch_level) \<and> remembered kd prev b ls"

fun spin_inv :: "('l \<Rightarrow> SpinlockType) \<Rightarrow> ('t \<Rightarrow> nat) \<Rightarrow> ('t \<Rightarrow> 'l list) \<Rightarrow> ('t, 'l) level_view \<Rightarrow> bool" where
  "spin_inv kd base held (lv, own, prev) \<longleftrightarrow>
     (\<forall>l t. own l = Some t \<longleftrightarrow> l \<in> set (held t)) \<and> (\<forall>t. distinct (held t)) \<and>
     (\<forall>t. lv t = level_with (base t) (held t)) \<and> (\<forall>t. remembered kd prev (base t) (held t))"

lemma remembered_other: "l \<notin> set ls \<Longrightarrow> remembered kd (prev(l := n)) b ls = remembered kd prev b ls"
  by (induction ls) auto

lemma spin_inv_take:
  assumes "spin_inv kd base held (lv, own, prev)" "kd l = DpcOnly \<Longrightarrow> lv t = dispatch_level"
    "view_take (kd l) t l (lv, own, prev) = Some v"
  shows "spin_inv kd base (held(t := l # held t)) v"
proof -
  have free: "own l = None" and v: "v = (lv(t := dispatch_level), own(l \<mapsto> t), if kd l = Mixed then prev(l := lv t) else prev)"
    using assms(3) by (auto split: if_splits)
  have out: "l \<notin> set (held u)" for u using assms(1) free by (metis option.distinct(1) spin_inv.simps)
  then have "remembered kd (if kd l = Mixed then prev(l := lv t) else prev) (base u) ls \<longleftrightarrow> remembered kd prev (base u) ls"
    if "set ls \<subseteq> set (held u)" for u ls using that out [of u] remembered_other [of l ls kd prev "lv t" "base u"] by auto
  moreover have "kd l = Mixed \<or> level_with (base t) (held t) = dispatch_level"
    using assms(1,2) by (cases "kd l") auto
  ultimately show ?thesis using assms(1) out by (auto simp: v level_with_def)
qed

lemma spin_view_take:
  assumes "spin_inv kd base held (spin_view K owner s)" "kd l = DpcOnly \<Longrightarrow> irqls K (kern s) t = dispatch_level"
    "view_take (kd l) t l (spin_view K owner s) = Some v"
  shows "spin_inv kd base (held(t := l # held t)) v"
  using assms unfolding spin_view_def by (rule spin_inv_take)

lemma spin_inv_release:
  assumes "spin_inv kd base held (lv, own, prev)" "held t = l # ls"
  shows "spin_inv kd base (held(t := ls)) (lv(t := level_with (base t) ls), own(l := None), prev)"
proof -
  have "l \<notin> set ls" "remembered kd prev (base t) ls" "distinct ls" using assms by (metis distinct.simps(2) remembered.simps(2) spin_inv.simps)+
  moreover have "l \<notin> set (held u)" if "u \<noteq> t" for u
    using assms that by (metis list.set_intros(1) option.inject spin_inv.simps)
  moreover have "own l' = Some u \<longleftrightarrow> l' \<in> set (held u)" for l' u using assms(1) by simp
  ultimately show ?thesis using assms by auto
qed

text \<open>Releasing the lock that was taken last brings back the level from before it was taken.\<close>

lemma release_level:
  assumes "documented K owner" "spin_inv kd base held (spin_view K owner s)" "held t = l # ls"
  shows "spin_view K owner (policy_unlock K (kd l) t l s) =
    ((irqls K (kern s))(t := level_with (base t) ls), (owner (kern s))(l := None), m_prev_irql s)"
proof -
  have r: "remembered kd (m_prev_irql s) (base t) (l # ls)" "irqls K (kern s) t = dispatch_level"
    using assms(2,3) by (metis spin_view_def spin_inv.simps) (use assms(2,3) in \<open>simp add: spin_view_def level_with_def\<close>)
  then show ?thesis
    using documentedD(6,7,9,10) [OF assms(1)] by (cases "kd l") (auto simp: spin_view_def policy_unlock.simps)
qed

lemma spin_reach_inv:
  assumes "documented K owner" "spin_reach K owner kd base held s"
  shows "spin_inv kd base held (spin_view K owner s)"
  using assms(2)
proof (induction rule: spin_reach.induct)
  case (spin_start s)
  then show ?case by (simp add: spin_view_def level_with_def)
next
  case (spin_locks held s l t s')
  then have "view_take (kd l) t l (spin_view K owner s) = Some (spin_view K owner s')"
    using policy_lock_take [OF assms(1), of "kd l" s t l] by (metis option.simps(9))
  with spin_locks.hyps(2) show ?case by (rule spin_view_take [OF spin_locks.IH])
next
  case (spin_tries held s l t b s')
  note take = policy_try_lock_take [OF assms(1) spin_tries.hyps(2,3)]
  show ?case
  proof (cases b)
    case True
    then have "view_take (kd l) t l (spin_view K owner s) = Some (spin_view K owner s')" using take by simp
    with spin_tries.hyps(2) have "spin_inv kd base (held(t := l # held t)) (spin_view K owner s')"
      by (rule spin_view_take [OF spin_tries.IH])
    then show ?thesis unfolding if_P [OF True] .
  next
    case False
    then show ?thesis using take spin_tries.IH by simp
  qed
next
  case (spin_unlocks held s t l ls)
  then show ?case
    unfolding release_level [OF assms(1) spin_unlocks.IH spin_unlocks.hyps(2)] unfolding spin_view_def by (intro spin_inv_release)
qed

text \<open>C10: Spin locks of both policies and any number of threads, in all interleavings of \<^verbatim>\<open>lock\<close>, \<^verbatim>\<open>try_lock\<close> and \<^verbatim>\<open>unlock\<close>, as long as each thread releases its locks in the reverse
  order of taking them and takes locks of the kind \<^verbatim>\<open>DpcOnly\<close> at \<^verbatim>\<open>DISPATCH_LEVEL\<close> only. Each lock is owned by the thread that holds it and by no other; a
  thread runs at \<^verbatim>\<open>DISPATCH_LEVEL\<close> while it holds a lock and on its own level otherwise; releasing the lock taken last brings the thread back to its own level when it was the only
  one, keeps it at \<^verbatim>\<open>DISPATCH_LEVEL\<close> otherwise, frees that lock and changes neither the levels of the other threads nor the other locks. Without the reverse order this fails
  (\<open>scoped_lock_keeps_level\<close>). The first hypothesis is what the kernel documents of its functions.\<close>

theorem spin_lock_levels:
  assumes "documented K owner" "spin_reach K owner kd base held s"
  shows "(\<forall>l t. owner (kern s) l = Some t \<longleftrightarrow> l \<in> set (held t)) \<and>
    (\<forall>t. irqls K (kern s) t = (if held t = [] then base t else dispatch_level)) \<and>
    (\<forall>t l ls. held t = l # ls \<longrightarrow>
       irqls K (kern (policy_unlock K (kd l) t l s)) = (irqls K (kern s))(t := if ls = [] then base t else dispatch_level) \<and>
       owner (kern (policy_unlock K (kd l) t l s)) = (owner (kern s))(l := None))"
proof -
  note inv = spin_reach_inv [OF assms]
  have "irqls K (kern (policy_unlock K (kd l) t l s)) = (irqls K (kern s))(t := level_with (base t) ls) \<and>
      owner (kern (policy_unlock K (kd l) t l s)) = (owner (kern s))(l := None)" if "held t = l # ls" for t l ls
    using release_level [OF assms(1) inv that] by (simp add: spin_view_def)
  then show ?thesis using inv by (simp add: spin_view_def level_with_def)
qed

text \<open>A kernel with the documented behaviour: its state is the levels and the owners.\<close>

definition plain_kernel :: "('t, 'l, ('t \<Rightarrow> nat) \<times> ('l \<Rightarrow> 't option)) spin_kernel" where
  "plain_kernel =
     \<lparr> KeGetCurrentIrql = \<lambda>t (lv, own). lv t,
       KeRaiseIrql = \<lambda>t n (lv, own). (lv t, lv(t := n), own),
       KeLowerIrql = \<lambda>t n (lv, own). (lv(t := n), own),
       KeAcquireSpinLockRaiseToDpc = \<lambda>t l (lv, own). if own l = None then Some (lv t, lv(t := dispatch_level), own(l \<mapsto> t)) else None,
       KeAcquireSpinLockAtDpcLevel = \<lambda>t l (lv, own). if own l = None then Some (lv, own(l \<mapsto> t)) else None,
       KeTryToAcquireSpinLockAtDpcLevel = \<lambda>t l (lv, own). if own l = None then (True, lv, own(l \<mapsto> t)) else (False, lv, own),
       KeReleaseSpinLock = \<lambda>t l n (lv, own). (lv(t := n), own(l := None)),
       KeReleaseSpinLockFromDpcLevel = \<lambda>t l (lv, own). (lv, own(l := None)) \<rparr>"

lemma plain_kernel_documented: "documented plain_kernel snd"
  by (auto simp: documented_def plain_kernel_def irqls_def)

text \<open>A thread on \<^verbatim>\<open>APC_LEVEL\<close> takes a mixed lock and then one of the other kind.\<close>

theorem spin_lock_levels_witness:
  "\<exists>s s'. policy_lock plain_kernel Mixed (0 :: nat) (7 :: nat) \<lparr> kern = (\<lambda>_. apc_level, \<lambda>_. None), m_prev_irql = \<lambda>_. 0 \<rparr> = Some s \<and>
     policy_lock plain_kernel DpcOnly 0 8 s = Some s' \<and> irqls plain_kernel (kern s') 0 = dispatch_level \<and>
     irqls plain_kernel (kern (policy_unlock plain_kernel DpcOnly 0 8 s')) 0 = dispatch_level \<and>
     irqls plain_kernel (kern (policy_unlock plain_kernel Mixed 0 7 (policy_unlock plain_kernel DpcOnly 0 8 s'))) 0 = apc_level"
proof -
  let ?s0 = "\<lparr> kern = (\<lambda>_. apc_level, \<lambda>_. None), m_prev_irql = \<lambda>_. 0 \<rparr> :: (nat, (nat \<Rightarrow> nat) \<times> (nat \<Rightarrow> nat option)) spin_state"
  let ?kd = "\<lambda>l. if l = 8 then DpcOnly else Mixed" and ?b = "\<lambda>_ :: nat. apc_level"
  have start: "spin_reach plain_kernel snd ?kd ?b (\<lambda>_. []) ?s0" by (rule spin_start) (simp_all add: irqls_def plain_kernel_def)
  obtain s where s: "policy_lock plain_kernel Mixed 0 7 ?s0 = Some s" by (auto simp: policy_lock.simps plain_kernel_def)
  have r1: "spin_reach plain_kernel snd ?kd ?b ((\<lambda>_. [])(0 := [7])) s"
    using spin_locks [OF start, of 7 0 s] s by simp
  obtain s' where s': "policy_lock plain_kernel DpcOnly 0 8 s = Some s'"
    using s by (auto simp: policy_lock.simps plain_kernel_def)
  have "irqls plain_kernel (kern s) 0 = dispatch_level" using spin_lock_levels [OF plain_kernel_documented r1] by simp
  then have r2: "spin_reach plain_kernel snd ?kd ?b ((\<lambda>_. [])(0 := [8, 7])) s'"
    using spin_locks [OF r1, of 8 0 s'] s' by simp
  then have r3: "spin_reach plain_kernel snd ?kd ?b ((\<lambda>_. [])(0 := [7])) (policy_unlock plain_kernel DpcOnly 0 8 s')"
    using spin_unlocks [OF r2, of 0 8 "[7]"] by simp
  have "irqls plain_kernel (kern s') 0 = dispatch_level" using spin_lock_levels [OF plain_kernel_documented r2] by simp
  moreover have "irqls plain_kernel (kern (policy_unlock plain_kernel DpcOnly 0 8 s')) 0 = dispatch_level"
    using spin_lock_levels [OF plain_kernel_documented r3] by simp
  moreover have "irqls plain_kernel (kern (policy_unlock plain_kernel Mixed 0 7 (policy_unlock plain_kernel DpcOnly 0 8 s'))) 0 = apc_level"
    using spin_lock_levels [OF plain_kernel_documented r3, THEN conjunct2, THEN conjunct2, rule_format, of 0 7 "[]"] by simp
  ultimately show ?thesis using s s' by simp
qed

section \<open>Several locks\<close>

datatype 'l spin_call = SL_lock 'l | SL_try 'l | SL_unlock 'l

fun spin_exec :: "('t, 'l, 'k) spin_kernel \<Rightarrow> 't \<Rightarrow> 'l spin_call \<Rightarrow> ('l, 'k) spin_state \<Rightarrow> ('l, 'k) spin_state option" where
  "spin_exec K t (SL_lock l) s = policy_lock K Mixed t l s"
| "spin_exec K t (SL_try l) s = (let (b, s) = policy_try_lock K Mixed t l s in if b then Some s else None)"
| "spin_exec K t (SL_unlock l) s = Some (policy_unlock K Mixed t l s)"

fun spin_run :: "('t, 'l, 'k) spin_kernel \<Rightarrow> 't \<Rightarrow> 'l spin_call list \<Rightarrow> ('l, 'k) spin_state \<Rightarrow> ('l, 'k) spin_state option" where
  "spin_run K t [] s = Some s"
| "spin_run K t (c # cs) s = Option.bind (spin_exec K t c s) (spin_run K t cs)"

text \<open>\<^verbatim>\<open>scoped_lock\<close> of locks that nobody else holds: \<^verbatim>\<open>ktl::lock\<close> locks the first and tries the others in their order, and the destructor
  releases them in the same order.\<close>

fun scoped_lock_calls :: "'l list \<Rightarrow> 'l spin_call list" where
  "scoped_lock_calls [] = []"
| "scoped_lock_calls (l # ls) = SL_lock l # map SL_try ls"

definition scoped_unlock_calls :: "'l list \<Rightarrow> 'l spin_call list" where
  "scoped_unlock_calls ls = map SL_unlock ls"

fun view_exec :: "'t \<Rightarrow> 'l spin_call \<Rightarrow> ('t, 'l) level_view \<Rightarrow> ('t, 'l) level_view option" where
  "view_exec t (SL_lock l) v = view_lock t l v"
| "view_exec t (SL_try l) v = view_lock t l v"
| "view_exec t (SL_unlock l) v = Some (view_unlock t l v)"

fun view_run :: "'t \<Rightarrow> 'l spin_call list \<Rightarrow> ('t, 'l) level_view \<Rightarrow> ('t, 'l) level_view option" where
  "view_run t [] v = Some v"
| "view_run t (c # cs) v = Option.bind (view_exec t c v) (view_run t cs)"

lemma spin_exec_view:
  assumes "documented K owner"
  shows "map_option (spin_view K owner) (spin_exec K t c s) = view_exec t c (spin_view K owner s)"
proof (cases c)
  case (SL_try l)
  obtain b s' where "policy_try_lock K Mixed t l s = (b, s')" by fastforce
  then show ?thesis using policy_try_lock_view [OF assms, of t l s b s'] SL_try by (auto split: if_splits)
qed (simp_all add: policy_lock_view [OF assms] policy_unlock_view [OF assms])

lemma spin_run_view:
  assumes "documented K owner"
  shows "map_option (spin_view K owner) (spin_run K t cs s) = view_run t cs (spin_view K owner s)"
proof (induction cs arbitrary: s)
  case (Cons c cs)
  show ?case using spin_exec_view [OF assms, of t c s, symmetric] Cons.IH by (cases "spin_exec K t c s") simp_all
qed simp

lemma view_run_append: "view_run t (cs @ ds) v = Option.bind (view_run t cs v) (view_run t ds)"
  by (induction cs arbitrary: v) (auto split: Option.bind_split)

text \<open>Taking distinct free locks one after the other: the first remembers the level of the thread, the others \<^verbatim>\<open>DISPATCH_LEVEL\<close>.\<close>

definition taken_by :: "'t \<Rightarrow> 'l list \<Rightarrow> ('l \<Rightarrow> 't option) \<Rightarrow> 'l \<Rightarrow> 't option" where
  "taken_by t ls own = (\<lambda>l. if l \<in> set ls then Some t else own l)"

definition freed_from :: "'l list \<Rightarrow> ('l \<Rightarrow> 't option) \<Rightarrow> 'l \<Rightarrow> 't option" where
  "freed_from ls own = (\<lambda>l. if l \<in> set ls then None else own l)"

lemma taken_by_Cons: "taken_by t ls (own(l \<mapsto> t)) = taken_by t (l # ls) own"
  by (auto simp: taken_by_def)

lemma tries_run:
  assumes "distinct ls" "\<forall>l \<in> set ls. own l = None" "lv t = dispatch_level"
  shows "view_run t (map SL_try ls) (lv, own, prev) =
    Some (lv, taken_by t ls own, \<lambda>l. if l \<in> set ls then dispatch_level else prev l)"
  using assms
proof (induction ls arbitrary: own prev)
  case (Cons l ls)
  have lv: "lv(t := dispatch_level) = lv" using Cons.prems(3) by auto
  have "\<forall>l' \<in> set ls. (own(l \<mapsto> t)) l' = None" using Cons.prems by auto
  from Cons.IH [OF _ this, of "prev(l := dispatch_level)"] Cons.prems
  have "view_run t (map SL_try ls) (lv, own(l \<mapsto> t), prev(l := dispatch_level)) =
      Some (lv, taken_by t (l # ls) own, \<lambda>l'. if l' \<in> set ls then dispatch_level else (prev(l := dispatch_level)) l')"
    by (simp only: taken_by_Cons distinct.simps simp_thms)
  moreover have "(\<lambda>l'. if l' \<in> set ls then dispatch_level else (prev(l := dispatch_level)) l') =
      (\<lambda>l'. if l' \<in> set (l # ls) then dispatch_level else prev l')" by auto
  ultimately show ?case using Cons.prems lv by simp
qed (simp add: taken_by_def)

lemma unlocks_run:
  "view_run t (map SL_unlock ls) (lv, own, prev) = Some (if ls = [] then lv else lv(t := prev (last ls)), freed_from ls own, prev)"
  by (induction ls arbitrary: lv own) (auto simp: freed_from_def fun_eq_iff)

lemma scoped_run:
  assumes "distinct (l # ls)" "\<forall>l' \<in> set (l # ls). own l' = None"
  shows "view_run t (scoped_lock_calls (l # ls)) (lv, own, prev) =
    Some (lv(t := dispatch_level), taken_by t (l # ls) own, (\<lambda>l'. if l' \<in> set ls then dispatch_level else prev l')(l := lv t))"
proof -
  have "\<forall>l' \<in> set ls. (own(l \<mapsto> t)) l' = None" using assms by auto
  from tries_run [OF _ this, where lv = "lv(t := dispatch_level)" and prev = "prev(l := lv t)"] assms(1)
  have "view_run t (map SL_try ls) (lv(t := dispatch_level), own(l \<mapsto> t), prev(l := lv t)) =
      Some (lv(t := dispatch_level), taken_by t (l # ls) own, \<lambda>l'. if l' \<in> set ls then dispatch_level else (prev(l := lv t)) l')"
    by (simp only: taken_by_Cons distinct.simps simp_thms fun_upd_same)
  moreover have "(\<lambda>l'. if l' \<in> set ls then dispatch_level else (prev(l := lv t)) l') =
      (\<lambda>l'. if l' \<in> set ls then dispatch_level else prev l')(l := lv t)" using assms(1) by auto
  ultimately show ?thesis using assms(2) by simp
qed

lemma spin_run_from_view:
  assumes "documented K owner" "view_run t cs (spin_view K owner s) = Some (lv, own, prev)"
  shows "\<exists>s'. spin_run K t cs s = Some s' \<and> irqls K (kern s') = lv \<and> owner (kern s') = own \<and> m_prev_irql s' = prev"
  using assms(2) spin_run_view [OF assms(1), of t cs s] by (cases "spin_run K t cs s") (auto simp: spin_view_def)

text \<open>Locks that are released in the reverse order leave the level and the owners as they were.\<close>

lemma view_nested:
  assumes "distinct ls" "\<forall>l \<in> set ls. own l = None"
  shows "\<exists>prev'. view_run t (map SL_lock ls @ map SL_unlock (rev ls)) (lv, own, prev) = Some (lv, own, prev') \<and> (\<forall>l. l \<notin> set ls \<longrightarrow> prev' l = prev l)"
  using assms
proof (induction ls arbitrary: lv own prev)
  case (Cons l ls)
  have "\<forall>l' \<in> set ls. (own(l \<mapsto> t)) l' = None" using Cons.prems by auto
  then obtain prev' where "view_run t (map SL_lock ls @ map SL_unlock (rev ls)) (lv(t := dispatch_level), own(l \<mapsto> t), prev(l := lv t)) =
      Some (lv(t := dispatch_level), own(l \<mapsto> t), prev')" "\<forall>l'. l' \<notin> set ls \<longrightarrow> prev' l' = (prev(l := lv t)) l'"
    using Cons.IH [of "own(l \<mapsto> t)"] Cons.prems by fastforce
  moreover from this(2) have "prev' l = lv t" using Cons.prems by simp
  moreover have "own(l := None) = own" using Cons.prems by (simp add: fun_upd_idem)
  ultimately show ?case using Cons.prems
    by (simp flip: append_assoc add: view_run_append [of t "map SL_lock ls @ map SL_unlock (rev ls)" "[SL_unlock l]"])
qed simp

lemma nested_locks_restore:
  assumes "documented K owner" "distinct ls" "\<forall>l \<in> set ls. owner (kern s) l = None"
  shows "\<exists>s'. spin_run K t (map SL_lock ls @ map SL_unlock (rev ls)) s = Some s' \<and>
    irqls K (kern s') = irqls K (kern s) \<and> owner (kern s') = owner (kern s)"
proof -
  obtain prev' where "view_run t (map SL_lock ls @ map SL_unlock (rev ls)) (spin_view K owner s) =
      Some (irqls K (kern s), owner (kern s), prev')"
    unfolding spin_view_def using view_nested [OF assms(2,3)] by metis
  from spin_run_from_view [OF assms(1) this] show ?thesis by blast
qed

text \<open>\<^verbatim>\<open>scoped_lock\<close> releases in the same order: after the first release the thread is back on its level although it still holds the
  other locks, and at the end it stays at \<^verbatim>\<open>DISPATCH_LEVEL\<close>.\<close>

lemma scoped_lock_keeps_level:
  assumes "documented K owner" "distinct ls" "\<forall>l \<in> set ls. owner (kern s) l = None" "ls = l1 # l2 # rest"
  shows "\<exists>s'. spin_run K t (scoped_lock_calls ls @ [SL_unlock l1]) s = Some s' \<and>
      owner (kern s') l2 = Some t \<and> irqls K (kern s') t = irqls K (kern s) t"
    and "\<exists>s'. spin_run K t (scoped_lock_calls ls @ scoped_unlock_calls ls) s = Some s' \<and>
      irqls K (kern s') t = dispatch_level \<and> (\<forall>l \<in> set ls. owner (kern s') l = None)"
proof -
  let ?lv = "irqls K (kern s)" and ?own = "owner (kern s)"
  let ?prev = "(\<lambda>l. if l \<in> set (l2 # rest) then dispatch_level else m_prev_irql s l)(l1 := ?lv t)"
  note run = scoped_run [OF assms(2) [unfolded assms(4)] assms(3) [unfolded assms(4)], of t ?lv "m_prev_irql s", folded assms(4)]
  have "view_run t (scoped_lock_calls ls @ [SL_unlock l1]) (spin_view K owner s) =
      Some (?lv(t := ?prev l1), freed_from [l1] (taken_by t ls ?own), ?prev)"
    unfolding spin_view_def view_run_append run by (simp add: freed_from_def fun_eq_iff)
  from spin_run_from_view [OF assms(1) this] show "\<exists>s'. spin_run K t (scoped_lock_calls ls @ [SL_unlock l1]) s = Some s' \<and>
      owner (kern s') l2 = Some t \<and> irqls K (kern s') t = irqls K (kern s) t"
    using assms(2,4) by (auto simp: freed_from_def taken_by_def)
  have ne: "(ls = []) = False" using assms(4) by simp
  have "last ls \<in> set (l2 # rest)" "last ls \<noteq> l1" using assms(2,4) by auto
  then have last: "?prev (last ls) = dispatch_level" by (simp del: set_simps)
  have "view_run t (scoped_lock_calls ls @ scoped_unlock_calls ls) (spin_view K owner s) =
      Some (?lv(t := dispatch_level, t := ?prev (last ls)), freed_from ls (taken_by t ls ?own), ?prev)"
    unfolding spin_view_def view_run_append run by (simp only: bind.bind_lunit unlocks_run scoped_unlock_calls_def ne if_False)
  from spin_run_from_view [OF assms(1) this] show "\<exists>s'. spin_run K t (scoped_lock_calls ls @ scoped_unlock_calls ls) s = Some s' \<and>
      irqls K (kern s') t = dispatch_level \<and> (\<forall>l \<in> set ls. owner (kern s') l = None)"
    using last by (auto simp: freed_from_def)
qed

end
