(* ===== verification/Events.thy ===== *)
theory Events
  imports Chrono_Spec
begin

text \<open>
  The timed waits for events (\<^verbatim>\<open>event_base\<close> in \<^verbatim>\<open>include/mutex.hpp\<close> and \<^verbatim>\<open>src/mutex.cpp\<close>), alone and with a predicate. The kernel's wait, the
  clock and the predicate are parameters: functions on a state that all of them may change.
\<close>

section \<open>Waits\<close>

datatype cv_status = no_timeout | timeout

definition STATUS_TIMEOUT :: "32 word" where "STATUS_TIMEOUT = 0x102"
definition STATUS_CANCELLED :: "32 word" where "STATUS_CANCELLED = 0xC0000120"

definition from_native_status :: "32 word \<Rightarrow> cv_status" where
  "from_native_status status = (if status = STATUS_TIMEOUT \<or> status = STATUS_CANCELLED then timeout else no_timeout)"

text \<open>\<open>ke_wait\<close> is \<^verbatim>\<open>KeWaitForSingleObject\<close> on the event with an interval or, for \<open>None\<close>, without; \<open>now\<close> the clock; \<open>predicate\<close> the client's.\<close>

record 's event_env =
  ke_wait :: "int option \<Rightarrow> 's \<Rightarrow> 32 word \<times> 's"
  now :: "'s \<Rightarrow> int \<times> 's"
  predicate :: "'s \<Rightarrow> bool \<times> 's"

definition request_wait :: "'s event_env \<Rightarrow> wait_request \<Rightarrow> 's \<Rightarrow> 32 word \<times> 's" where
  "request_wait E r s = (case r of Cancelled \<Rightarrow> (STATUS_CANCELLED, s) | Await interval \<Rightarrow> ke_wait E (Some interval) s)"

definition event_wait :: "'s event_env \<Rightarrow> 's \<Rightarrow> 's" where
  "event_wait E s = snd (ke_wait E None s)"

text \<open>\<open>None\<close>: the arithmetic of the durations overflows.\<close>

definition event_wait_for :: "'s event_env \<Rightarrow> duration_type \<Rightarrow> int \<Rightarrow> 's \<Rightarrow> (cv_status \<times> 's) option" where
  "event_wait_for E t wait_duration s = do {
     r \<leftarrow> wait_for_impl True t wait_duration;
     let (await_status, s) = request_wait E r s;
     Some (from_native_status await_status, s)
   }"

definition event_wait_until :: "'s event_env \<Rightarrow> duration_type \<Rightarrow> int \<Rightarrow> 's \<Rightarrow> (cv_status \<times> 's) option" where
  "event_wait_until E t awake_time s = do {
     let (n, s) = now E s;
     r \<leftarrow> wait_until_impl True t awake_time n;
     let (await_status, s) = request_wait E r s;
     Some (from_native_status await_status, s)
   }"

section \<open>Waits with a predicate\<close>

partial_function (option) event_wait_pred :: "'s event_env \<Rightarrow> 's \<Rightarrow> 's option" where
  "event_wait_pred E s = (let (b, s) = predicate E s in if b then Some s else event_wait_pred E (event_wait E s))"

partial_function (option) event_wait_until_pred :: "'s event_env \<Rightarrow> duration_type \<Rightarrow> int \<Rightarrow> 's \<Rightarrow> (bool \<times> 's) option" where
  "event_wait_until_pred E t awake_time s =
     (let (b, s) = predicate E s
      in if b then Some (True, s)
         else Option.bind (event_wait_until E t awake_time s)
           (\<lambda>(st, s). if st = timeout then Some (predicate E s) else event_wait_until_pred E t awake_time s))"

text \<open>What is returned is what the predicate said last: a return of \<^verbatim>\<open>wait\<close> means that it holds.\<close>

lemma event_wait_pred_holds:
  assumes "event_wait_pred E s = Some s'"
  shows "\<exists>s0. predicate E s0 = (True, s')"
  by (rule event_wait_pred.raw_induct [where P = "\<lambda>E s s'. \<exists>s0. predicate E s0 = (True, s')", OF _ assms])
    (auto simp: Let_def split: prod.splits if_splits)

lemma event_wait_until_pred_result:
  assumes "event_wait_until_pred E t awake_time s = Some r"
  shows "\<exists>s0. predicate E s0 = r"
  by (rule event_wait_until_pred.raw_induct [where P = "\<lambda>E t a s r. \<exists>s0. predicate E s0 = r", OF _ assms])
    (auto simp: Let_def split: prod.splits if_splits bind_splits)

text \<open>The loop returns exactly if in some round the predicate holds or the wait times out.\<close>

primrec stops_after :: "'s event_env \<Rightarrow> duration_type \<Rightarrow> int \<Rightarrow> nat \<Rightarrow> 's \<Rightarrow> bool" where
  "stops_after E t awake_time 0 s \<longleftrightarrow>
     fst (predicate E s) \<or> (\<exists>s'. event_wait_until E t awake_time (snd (predicate E s)) = Some (timeout, s'))"
| "stops_after E t awake_time (Suc n) s \<longleftrightarrow>
     (\<exists>s'. \<not> fst (predicate E s) \<and> event_wait_until E t awake_time (snd (predicate E s)) = Some (no_timeout, s') \<and> stops_after E t awake_time n s')"

lemma stops_after_returns: "stops_after E t awake_time n s \<Longrightarrow> \<exists>r. event_wait_until_pred E t awake_time s = Some r"
proof (induction n arbitrary: s)
  case 0
  then show ?case by (subst event_wait_until_pred.simps) (auto simp: Let_def case_prod_unfold)
next
  case (Suc n)
  then obtain s' where "\<not> fst (predicate E s)" "event_wait_until E t awake_time (snd (predicate E s)) = Some (no_timeout, s')"
    "\<exists>r. event_wait_until_pred E t awake_time s' = Some r" by auto
  then show ?case by (subst event_wait_until_pred.simps) (auto simp: Let_def case_prod_unfold)
qed

lemma returns_stops_after:
  assumes "event_wait_until_pred E t awake_time s = Some r"
  shows "\<exists>n. stops_after E t awake_time n s"
proof (rule event_wait_until_pred.raw_induct [where P = "\<lambda>E t a s r. \<exists>n. stops_after E t a n s", OF _ assms])
  fix loop :: "'s event_env \<Rightarrow> duration_type \<Rightarrow> int \<Rightarrow> 's \<Rightarrow> (bool \<times> 's) option" and E :: "'s event_env" and t a s r
  assume ih: "\<And>E t a s r. loop E t a s = Some r \<Longrightarrow> \<exists>n. stops_after E t a n s"
    and eq: "(let (b, s) = predicate E s in if b then Some (True, s)
         else Option.bind (event_wait_until E t a s) (\<lambda>(st, s). if st = timeout then Some (predicate E s) else loop E t a s)) = Some r"
  show "\<exists>n. stops_after E t a n s"
  proof (cases "stops_after E t a 0 s")
    case False
    then obtain s' where s': "\<not> fst (predicate E s)" "event_wait_until E t a (snd (predicate E s)) = Some (no_timeout, s')" "loop E t a s' = Some r"
      using eq by (auto simp: Let_def case_prod_unfold split: if_splits bind_splits) (metis cv_status.exhaust surj_pair)
    from ih [OF s'(3)] obtain n where "stops_after E t a n s'" by blast
    then have "stops_after E t a (Suc n) s" using s' by auto
    then show ?thesis by blast
  qed blast
qed

lemma event_wait_until_pred_returns_iff:
  "(\<exists>r. event_wait_until_pred E t awake_time s = Some r) \<longleftrightarrow> (\<exists>n. stops_after E t awake_time n s)"
  using stops_after_returns returns_stops_after by metis

text \<open>When the time has come, the kernel is not asked, and the result is the predicate's.\<close>

lemma wait_until_past:
  assumes "duration_ok t" "fits awake_time" "now E s = (n, s1)" "fits n" "fits (awake_time - n)" "awake_time \<le> n"
  shows "event_wait_until E t awake_time s = Some (timeout, s1)"
proof -
  have "wait_until_impl True t awake_time n = Some Cancelled"
    using assms by (simp add: wait_until_impl_def wait_for_impl_def time_difference_def comparisons_self fits_0 arith_64)
  then show ?thesis using assms(3) by (simp add: event_wait_until_def request_wait_def from_native_status_def)
qed

lemma wait_until_pred_past:
  assumes "duration_ok t" "fits awake_time" "predicate E s = (b, s1)" "now E s1 = (n, s2)" "fits n" "fits (awake_time - n)" "awake_time \<le> n"
  shows "event_wait_until_pred E t awake_time s = Some (if b then (True, s1) else predicate E s2)"
  using wait_until_past [OF assms(1,2,4-7)] assms(3) by (subst event_wait_until_pred.simps) simp

end
