(* ===== verification/Minifilter.thy ===== *)
theory Minifilter
  imports Runtime_Init
begin

text \<open>
  Registration of a file system filter (\<^verbatim>\<open>runtime/src/minifilter.cpp\<close>) and the unload routine of the driver that it installs. The functions of the
  filter manager are parameters: a registration returns a status and a handle. The assertions are compiled out of release builds.
\<close>

section \<open>Filters\<close>

text \<open>\<^verbatim>\<open>filter_ctx.object\<close> is kept beside the state of the runtime; 0 is the null pointer.\<close>

definition KtlRegisterFilter :: "(crt \<Rightarrow> int \<times> nat) \<Rightarrow> handler \<Rightarrow> crt \<times> nat \<Rightarrow> int \<times> crt \<times> nat" where
  "KtlRegisterFilter FltRegisterFilter unload_address st =
     (let (s, filter) = st;
          s = s\<lparr> custom_unload := DriverUnload s \<rparr>;
          s = s\<lparr> DriverUnload := unload_address \<rparr>;
          (status, filter) = FltRegisterFilter s;
          filter = (if \<not> NT_SUCCESS status then 0 else filter)
      in (status, s, filter))"

definition KtlStartFiltering :: "(nat \<Rightarrow> int) \<Rightarrow> crt \<times> nat \<Rightarrow> int" where
  "KtlStartFiltering FltStartFiltering st = FltStartFiltering (snd st)"

definition KtlUnregisterFilter :: "(nat \<Rightarrow> crt \<Rightarrow> crt) \<Rightarrow> crt \<times> nat \<Rightarrow> crt \<times> nat" where
  "KtlUnregisterFilter FltUnregisterFilter st = (let (s, filter) = st in (FltUnregisterFilter filter s, 0))"

definition get_filter :: "crt \<times> nat \<Rightarrow> nat" where
  "get_filter st = snd st"

text \<open>\<^verbatim>\<open>KtlDriverUnload\<close> when its own address may have become the routine that it calls.\<close>

partial_function (option) unload_routine :: "driver_code \<Rightarrow> handler \<Rightarrow> crt \<Rightarrow> crt option" where
  "unload_routine u unload_address s =
     (if custom_unload s \<noteq> 0 \<and> custom_unload s = unload_address
      then Option.bind (unload_routine u unload_address s) (invoke_global_destructors u)
      else KtlDriverUnload u s)"

section \<open>Unloading\<close>

text \<open>A driver whose \<^verbatim>\<open>DriverEntry\<close> ends with the registration of a filter, after the other work \<open>body\<close>.\<close>

definition registering :: "(crt \<Rightarrow> int \<times> nat) \<Rightarrow> handler \<Rightarrow> (crt \<Rightarrow> crt) \<Rightarrow> driver_code \<Rightarrow> driver_code" where
  "registering flt unload_address body u =
     u\<lparr> DriverEntry := \<lambda>s. let (status, s, filter) = KtlRegisterFilter flt unload_address (body s, 0) in (status, s) \<rparr>"

definition before_entry :: "driver_code \<Rightarrow> handler list \<Rightarrow> crt \<Rightarrow> int \<times> crt" where
  "before_entry u ctors s = run_all u (invoke_global_constructors u ctors s)"

lemma constructors_registering: "invoke_global_constructors (registering flt a body u) ctors s = invoke_global_constructors u ctors s"
  by (induction ctors arbitrary: s) (simp_all add: registering_def)

lemma entries_registering: "run_entries (registering flt a body u) hs s = run_entries u hs s"
  by (induction hs arbitrary: s) (simp_all add: registering_def Let_def split: prod.split)

text \<open>After a successful start the driver's own routine is the one to be called, if it had been installed before the registration; otherwise the
  unload routine has been installed as its own callee.\<close>

lemma registered_unload:
  assumes "before_entry u ctors s = (0, s1)" "NT_SUCCESS (fst (flt ((body s1)\<lparr> custom_unload := DriverUnload (body s1), DriverUnload := a \<rparr>)))"
  shows "\<exists>s'. KtlDriverEntry (registering flt a body u) a ctors s = Some (0, s') \<and>
    custom_unload s' = (if DriverUnload (body s1) = 0 then a else DriverUnload (body s1)) \<and> DriverUnload s' = a"
proof -
  let ?s = "(body s1)\<lparr> custom_unload := DriverUnload (body s1), DriverUnload := a \<rparr>"
  have "run_all (registering flt a body u) (invoke_global_constructors (registering flt a body u) ctors s) = (0, s1)"
    using assms(1) by (simp add: before_entry_def constructors_registering run_all_def entries_registering)
  moreover have "DriverEntry (registering flt a body u) s1 = (fst (flt ?s), ?s)"
    by (simp add: registering_def KtlRegisterFilter_def Let_def case_prod_unfold)
  ultimately show ?thesis using assms(2) by (simp add: KtlDriverEntry_def NT_SUCCESS_def)
qed

lemma unload_never_returns:
  assumes "custom_unload s = a" "a \<noteq> 0"
  shows "unload_routine u a s = None"
proof -
  have "\<not> (custom_unload s = a \<and> a \<noteq> 0)" if "unload_routine u a s = Some s'" for s'
    by (rule unload_routine.raw_induct [where P = "\<lambda>u a s s'. \<not> (custom_unload s = a \<and> a \<noteq> 0)", OF _ that])
      (auto split: if_splits bind_splits, force)
  then show ?thesis using assms by (cases "unload_routine u a s") auto
qed

text \<open>A filter that is registered while the driver has no unload routine makes unloading the driver recurse without end.\<close>

lemma filter_without_unload_hangs:
  assumes "before_entry u ctors s = (0, s1)" "NT_SUCCESS (fst (flt ((body s1)\<lparr> custom_unload := 0, DriverUnload := a \<rparr>)))"
    "DriverUnload (body s1) = 0" "a \<noteq> 0"
  shows "\<exists>s'. KtlDriverEntry (registering flt a body u) a ctors s = Some (0, s') \<and> DriverUnload s' = a \<and> unload_routine u' a s' = None"
  using registered_unload [OF assms(1), where flt = flt and body = body and a = a] assms(2-4) unload_never_returns by force

end
