(* ===== verification/String_View.thy ===== *)
theory String_View
  imports Str_Search
begin

text \<open>
  \<^verbatim>\<open>basic_winnt_string_view\<close> (\<^verbatim>\<open>include/string_view.hpp\<close>) in the format of the kernel's strings: a pointer and two lengths in bytes of 16 bits.
  The memory that views point into is a list of characters, a pointer a position in it. The operations are shown to be those of \<open>Str_Search\<close> on
  the characters that are seen, as long as the lengths fit.
\<close>

section \<open>Native views\<close>

record nt_view =
  v_buffer :: nat
  v_length :: nat
  v_maximum :: nat

definition make_native_str :: "str_cfg \<Rightarrow> nat \<Rightarrow> nat \<Rightarrow> nt_view" where
  "make_native_str c str len = \<lparr> v_buffer = str, v_length = ch_count_to_bytes c len, v_maximum = ch_count_to_bytes c len \<rparr>"

definition nv_size :: "str_cfg \<Rightarrow> nt_view \<Rightarrow> nat" where
  "nv_size c v = bytes_count_to_ch c (v_length v)"

definition nv_empty :: "str_cfg \<Rightarrow> nt_view \<Rightarrow> bool" where
  "nv_empty c v \<longleftrightarrow> nv_size c v = 0"

text \<open>\<^verbatim>\<open>char_traits::length\<close>: the number of characters before the terminator; \<open>None\<close> if the memory ends before.\<close>

fun traits_length :: "('c :: zero) list \<Rightarrow> nat option" where
  "traits_length [] = None"
| "traits_length (x # xs) = (if x \<noteq> 0 then map_option Suc (traits_length xs) else Some 0)"

definition view_of_c_string :: "str_cfg \<Rightarrow> ('c :: zero) list \<Rightarrow> nat \<Rightarrow> nt_view option" where
  "view_of_c_string c mem str = map_option (\<lambda>n. make_native_str c str (ushort n)) (traits_length (drop str mem))"

definition view_of_range :: "str_cfg \<Rightarrow> nat \<Rightarrow> nat \<Rightarrow> nt_view" where
  "view_of_range c str len = make_native_str c str len"

definition nv_at :: "str_cfg \<Rightarrow> 'c list \<Rightarrow> nat \<Rightarrow> nt_view \<Rightarrow> 'c outcome option" where
  "nv_at c mem idx v = (if idx < nv_size c v then map_option Ret (rd mem (v_buffer v + idx)) else Some (Throw OutOfRange))"

definition nv_index :: "'c list \<Rightarrow> nat \<Rightarrow> nt_view \<Rightarrow> 'c option" where
  "nv_index mem idx v = rd mem (v_buffer v + idx)"

definition nv_front :: "'c list \<Rightarrow> nt_view \<Rightarrow> 'c option" where
  "nv_front mem v = rd mem (v_buffer v)"

definition nv_back :: "str_cfg \<Rightarrow> 'c list \<Rightarrow> nt_view \<Rightarrow> 'c option" where
  "nv_back c mem v = (if nv_size c v = 0 then None else rd mem (v_buffer v + (nv_size c v - 1)))"

definition nv_decrease_size :: "str_cfg \<Rightarrow> nat \<Rightarrow> nt_view \<Rightarrow> nt_view" where
  "nv_decrease_size c n v = v\<lparr> v_length := ushort (v_length v + (2 ^ 16 - ch_count_to_bytes c n)) \<rparr>"

definition nv_remove_prefix :: "str_cfg \<Rightarrow> nat \<Rightarrow> nt_view \<Rightarrow> nt_view" where
  "nv_remove_prefix c count v = nv_decrease_size c count (v\<lparr> v_buffer := v_buffer v + count \<rparr>)"

definition nv_remove_suffix :: "str_cfg \<Rightarrow> nat \<Rightarrow> nt_view \<Rightarrow> nt_view" where
  "nv_remove_suffix c count v = nv_decrease_size c count v"

definition nv_substr_unchecked :: "str_cfg \<Rightarrow> nat \<Rightarrow> nat \<Rightarrow> nt_view \<Rightarrow> nt_view" where
  "nv_substr_unchecked c pos count v =
     (let rest = ushort (nv_size c v + (2 ^ 16 - pos)) in view_of_range c (v_buffer v + pos) (min rest count))"

definition nv_substr :: "str_cfg \<Rightarrow> nat \<Rightarrow> nat \<Rightarrow> nt_view \<Rightarrow> nt_view outcome" where
  "nv_substr c pos count v =
     (case throw_if_index_greater_than_size pos (nv_size c v) of Throw e \<Rightarrow> Throw e | Ret _ \<Rightarrow> Ret (nv_substr_unchecked c pos count v))"

text \<open>The characters that a view reads; \<open>None\<close> when it reaches over the end of the memory.\<close>

definition nv_chars :: "str_cfg \<Rightarrow> 'c list \<Rightarrow> nt_view \<Rightarrow> 'c list option" where
  "nv_chars c mem v = (if v_buffer v + nv_size c v \<le> length mem then Some (take (nv_size c v) (drop (v_buffer v) mem)) else None)"

definition nv_compare :: "str_cfg \<Rightarrow> ('c :: linorder) list \<Rightarrow> nt_view \<Rightarrow> nt_view \<Rightarrow> int option" where
  "nv_compare c mem lhs rhs = do { xs \<leftarrow> nv_chars c mem lhs; ys \<leftarrow> nv_chars c mem rhs; compare_unchecked xs ys }"

definition nv_starts_with_ch :: "str_cfg \<Rightarrow> 'c list \<Rightarrow> nt_view \<Rightarrow> 'c \<Rightarrow> bool option" where
  "nv_starts_with_ch c mem v ch = (if nv_empty c v then Some False else map_option (\<lambda>x. x = ch) (nv_front mem v))"

definition nv_ends_with_ch :: "str_cfg \<Rightarrow> 'c list \<Rightarrow> nt_view \<Rightarrow> 'c \<Rightarrow> bool option" where
  "nv_ends_with_ch c mem v ch = (if nv_empty c v then Some False else map_option (\<lambda>x. x = ch) (nv_back c mem v))"

definition nv_equal :: "str_cfg \<Rightarrow> ('c :: linorder) list \<Rightarrow> nt_view \<Rightarrow> nt_view \<Rightarrow> bool option" where
  "nv_equal c mem lhs rhs = map_option (\<lambda>r. r = 0) (nv_compare c mem lhs rhs)"

definition nv_not_equal :: "str_cfg \<Rightarrow> ('c :: linorder) list \<Rightarrow> nt_view \<Rightarrow> nt_view \<Rightarrow> bool option" where
  "nv_not_equal c mem lhs rhs = map_option (\<lambda>r. r \<noteq> 0) (nv_compare c mem lhs rhs)"

definition nv_less :: "str_cfg \<Rightarrow> ('c :: linorder) list \<Rightarrow> nt_view \<Rightarrow> nt_view \<Rightarrow> bool option" where
  "nv_less c mem lhs rhs = map_option (\<lambda>r. r < 0) (nv_compare c mem lhs rhs)"

definition nv_greater :: "str_cfg \<Rightarrow> ('c :: linorder) list \<Rightarrow> nt_view \<Rightarrow> nt_view \<Rightarrow> bool option" where
  "nv_greater c mem lhs rhs = map_option (\<lambda>r. r > 0) (nv_compare c mem lhs rhs)"

definition nv_less_equal :: "str_cfg \<Rightarrow> ('c :: linorder) list \<Rightarrow> nt_view \<Rightarrow> nt_view \<Rightarrow> bool option" where
  "nv_less_equal c mem lhs rhs = map_option Not (nv_greater c mem lhs rhs)"

definition nv_greater_equal :: "str_cfg \<Rightarrow> ('c :: linorder) list \<Rightarrow> nt_view \<Rightarrow> nt_view \<Rightarrow> bool option" where
  "nv_greater_equal c mem lhs rhs = map_option Not (nv_less c mem lhs rhs)"

section \<open>Refinement\<close>

text \<open>A view that shows the characters \<open>xs\<close> of the memory.\<close>

definition shows_chars :: "str_cfg \<Rightarrow> 'c list \<Rightarrow> nt_view \<Rightarrow> 'c list \<Rightarrow> bool" where
  "shows_chars c mem v xs \<longleftrightarrow> 0 < ch_width c \<and> v_length v = length xs * ch_width c \<and> length xs * ch_width c < 2 ^ 16 \<and>
     v_buffer v + length xs \<le> length mem \<and> xs = take (length xs) (drop (v_buffer v) mem)"

lemma shows_size [simp]: "shows_chars c mem v xs \<Longrightarrow> nv_size c v = length xs"
  by (simp add: shows_chars_def nv_size_def bytes_count_to_ch_def)

lemma shows_nv_chars: "shows_chars c mem v xs \<Longrightarrow> nv_chars c mem v = Some xs"
  by (simp add: nv_chars_def) (simp add: shows_chars_def)

lemma bytes_fit: "n \<le> m \<Longrightarrow> m * w < 2 ^ 16 \<Longrightarrow> n * w < (2 :: nat) ^ 16"
  by (rule le_less_trans [OF mult_le_mono1])

lemma shows_length_less:
  assumes "shows_chars c mem v xs"
  shows "length xs < 2 ^ 16"
proof -
  have "length xs * 1 \<le> length xs * ch_width c" using assms unfolding shows_chars_def by (intro mult_le_mono2) auto
  also have "\<dots> < 2 ^ 16" using assms by (simp add: shows_chars_def)
  finally show ?thesis by simp
qed

lemma shows_range:
  assumes "0 < ch_width c" "n * ch_width c < 2 ^ 16" "str + n \<le> length mem"
  shows "shows_chars c mem (view_of_range c str n) (take n (drop str mem))"
  using assms by (simp add: shows_chars_def view_of_range_def make_native_str_def ch_count_to_bytes_def)

lemma decreased_length:
  assumes "n \<le> m" "m * w < 2 ^ 16"
  shows "ushort (m * w + (2 ^ 16 - ushort (n * w))) = (m - n) * w"
proof -
  have nw: "n * w \<le> m * w" by (rule mult_le_mono1 [OF assms(1)])
  have "ushort (n * w) = n * w" using bytes_fit [OF assms] by (rule mod_less)
  then have "m * w + (2 ^ 16 - ushort (n * w)) = (m - n) * w + 2 ^ 16" using assms(2) nw by (simp add: diff_mult_distrib)
  then show ?thesis using bytes_fit [OF diff_le_self [of m n] assms(2)] by simp
qed

text \<open>A part of the characters of a view, as a view of its own.\<close>

lemma shows_part:
  assumes "shows_chars c mem v xs" "pos + n \<le> length xs" "v_buffer v' = v_buffer v + pos" "v_length v' = n * ch_width c"
  shows "shows_chars c mem v' (take n (drop pos xs))"
proof -
  have xs: "xs = take (length xs) (drop (v_buffer v) mem)" using assms(1) by (simp add: shows_chars_def)
  have "take n (drop pos xs) = take n (drop (v_buffer v + pos) mem)"
    using assms(2) by (subst xs) (simp add: drop_take take_take min_def add.commute)
  moreover have "n * ch_width c < 2 ^ 16" using assms(1,2) bytes_fit [of n "length xs"] by (simp add: shows_chars_def)
  moreover have "length (take n (drop pos xs)) = n" using assms(2) by simp
  moreover have "v_buffer v' + n \<le> length mem" using assms(1-3) by (auto simp: shows_chars_def)
  ultimately show ?thesis using assms(1,3,4) unfolding shows_chars_def by metis
qed

lemma remove_prefix_refines:
  assumes "shows_chars c mem v xs" "view_remove_prefix count xs = Some ys"
  shows "shows_chars c mem (nv_remove_prefix c count v) ys"
proof -
  have ys: "count \<le> length xs" "ys = take (length xs - count) (drop count xs)"
    using assms(2) by (auto simp: view_remove_prefix_def split: if_splits)
  show ?thesis unfolding ys(2)
    by (rule shows_part [OF assms(1)])
      (use assms(1) ys(1) decreased_length [of count "length xs" "ch_width c"] in
        \<open>simp_all add: nv_remove_prefix_def nv_decrease_size_def ch_count_to_bytes_def shows_chars_def\<close>)
qed

lemma remove_suffix_refines:
  assumes "shows_chars c mem v xs" "view_remove_suffix count xs = Some ys"
  shows "shows_chars c mem (nv_remove_suffix c count v) ys"
proof -
  have ys: "count \<le> length xs" "ys = take (length xs - count) (drop 0 xs)"
    using assms(2) by (auto simp: view_remove_suffix_def split: if_splits)
  show ?thesis unfolding ys(2)
    by (rule shows_part [OF assms(1)])
      (use assms(1) ys(1) decreased_length [of count "length xs" "ch_width c"] in
        \<open>simp_all add: nv_remove_suffix_def nv_decrease_size_def ch_count_to_bytes_def shows_chars_def\<close>)
qed

lemma substr_refines:
  assumes "shows_chars c mem v xs"
  shows "case view_substr pos count xs of Throw e \<Rightarrow> nv_substr c pos count v = Throw e
    | Ret ys \<Rightarrow> \<exists>v'. nv_substr c pos count v = Ret v' \<and> shows_chars c mem v' ys"
proof (cases "pos \<le> length xs")
  case True
  have rest: "ushort (length xs + (2 ^ 16 - pos)) = length xs - pos"
    using decreased_length [OF True, of 1] True shows_length_less [OF assms] by simp
  let ?n = "min (length xs - pos) count"
  have "?n * ch_width c < 2 ^ 16" using assms bytes_fit [of ?n "length xs"] by (simp add: shows_chars_def)
  then have "ushort (?n * ch_width c) = ?n * ch_width c" by (rule mod_less)
  then have "v_buffer (nv_substr_unchecked c pos count v) = v_buffer v + pos" "v_length (nv_substr_unchecked c pos count v) = ?n * ch_width c"
    unfolding nv_substr_unchecked_def shows_size [OF assms] rest by (simp_all add: view_of_range_def make_native_str_def ch_count_to_bytes_def Let_def)
  then have "shows_chars c mem (nv_substr_unchecked c pos count v) (take ?n (drop pos xs))"
    using True by (intro shows_part [OF assms]) simp_all
  then show ?thesis using True assms
    by (simp add: view_substr_def nv_substr_def substr_unchecked_def throw_if_index_greater_than_size_def)
qed (use assms in \<open>simp add: view_substr_def nv_substr_def throw_if_index_greater_than_size_def\<close>)

lemma nv_at_refines:
  assumes "shows_chars c mem v xs"
  shows "nv_at c mem idx v = Some (if idx < length xs then Ret (xs ! idx) else Throw OutOfRange)"
proof -
  have "xs ! idx = mem ! (v_buffer v + idx)" if "idx < length xs"
    using assms that unfolding shows_chars_def by (metis nth_take nth_drop add_leD1)
  then show ?thesis using assms by (auto simp: nv_at_def rd_def) (auto simp: shows_chars_def)
qed

text \<open>The comparison of views is that of their characters, whatever memory lies behind them.\<close>

lemma nv_compare_refines:
  assumes "shows_chars c mem v xs" "shows_chars c mem w ys"
  shows "nv_compare c mem v w = compare_unchecked xs ys"
  using assms by (simp add: nv_compare_def shows_nv_chars)

lemma nv_order:
  assumes "shows_chars c mem v xs" "shows_chars c mem w ys"
  shows "nv_equal c mem v w = Some (xs = ys)" "nv_not_equal c mem v w = Some (xs \<noteq> ys)" "nv_less c mem v w = Some (ord_class.lexordp xs ys)"
    "nv_greater c mem v w = Some (ord_class.lexordp ys xs)" "nv_less_equal c mem v w = Some (xs = ys \<or> ord_class.lexordp xs ys)"
    "nv_greater_equal c mem v w = Some (xs = ys \<or> ord_class.lexordp ys xs)"
  using lexordp_irreflexive' [of xs] lexordp_antisym [of xs ys] lexordp_linear [of xs ys] nv_compare_refines [OF assms]
  by (auto simp: nv_equal_def nv_not_equal_def nv_less_def nv_greater_def nv_less_equal_def nv_greater_equal_def compare_cases)

section \<open>Lengths\<close>

lemma traits_length_le: "traits_length xs = Some n \<Longrightarrow> n < length xs"
  by (induction xs arbitrary: n) (auto split: if_splits)

text \<open>A view of a string with terminator shows the string, if it has less than 65536 bytes.\<close>

lemma c_string_shown:
  assumes "traits_length (drop str mem) = Some n" "0 < ch_width c" "n * ch_width c < 2 ^ 16"
  shows "\<exists>v. view_of_c_string c mem str = Some v \<and> shows_chars c mem v (take n (drop str mem))"
proof -
  have n: "str + n \<le> length mem" using traits_length_le [OF assms(1)] by simp
  have "n * 1 \<le> n * ch_width c" using assms(2) by (intro mult_le_mono2) simp
  then have "n < 2 ^ 16" using assms(3) by (simp only: mult_1_right le_less_trans)
  then have "ushort n = n" by (rule mod_less)
  then show ?thesis using assms(1) shows_range [OF assms(2,3) n] by (simp add: view_of_c_string_def view_of_range_def)
qed

text \<open>A longer one is cut: a wide string of 32768 characters or more loses a multiple of 32768 of them.\<close>

lemma c_string_cut:
  assumes "traits_length (drop str mem) = Some n"
  shows "\<exists>v. view_of_c_string unicode mem str = Some v \<and> nv_size unicode v = n mod 2 ^ 15"
proof -
  have "ushort (ushort n * 2) div 2 = n mod 2 ^ 15"
  proof -
    have "ushort (ushort n * 2) = ushort (n * 2)" by (rule mod_mult_left_eq)
    also have "\<dots> = (n mod 2 ^ 15) * 2" using mult_mod_left [of n "2 ^ 15" 2] by simp
    finally show ?thesis by simp
  qed
  then show ?thesis using assms
    by (simp add: view_of_c_string_def make_native_str_def nv_size_def bytes_count_to_ch_def ch_count_to_bytes_def unicode_def)
qed

text \<open>\<^verbatim>\<open>remove_prefix\<close> moves the pointer but keeps the maximal length: what the kernel takes for the buffer of the view then reaches over its end.\<close>

lemma remove_prefix_keeps_maximum:
  "v_buffer (nv_remove_prefix c count v) + v_maximum (nv_remove_prefix c count v) div ch_width c = v_buffer v + count + v_maximum v div ch_width c"
  by (simp add: nv_remove_prefix_def nv_decrease_size_def)

end
