(* ===== verification/Raw_Construct.thy ===== *)
theory Raw_Construct
  imports Raw_Memory
begin

text \<open>
  The rest of \<^verbatim>\<open>include/memory.hpp\<close>: filling, default and value construction and moving into raw memory when constructors may throw, and the choice
  between these loops and \<^verbatim>\<open>memset\<close> on the bytes of the memory.
\<close>

section \<open>Loops under the backout guard\<close>

text \<open>The end of the guard: \<^verbatim>\<open>release\<close> returns the cursor, an exception destroys what lies before it.\<close>

definition backout :: "nat \<Rightarrow> unit outcome \<times> nat \<times> 'b cell list \<Rightarrow> (nat outcome \<times> 'b cell list) option" where
  "backout dst_first r =
     (case r of (Ret _, cur, cs) \<Rightarrow> Some (Ret cur, cs)
      | (Throw e, cur, cs) \<Rightarrow> map_option (Pair (Throw e)) (destroy_n cs dst_first (cur - dst_first)))"

definition uninitialized_fill_n_impl :: "('a \<Rightarrow> 'a outcome) \<Rightarrow> 'a \<Rightarrow> nat \<Rightarrow> 'a cell list \<Rightarrow> nat \<Rightarrow> (nat outcome \<times> 'a cell list) option" where
  "uninitialized_fill_n_impl copy val count cs dst = Option.bind (emplace_n copy (replicate count val) cs dst) (backout dst)"

text \<open>\<open>construct k\<close> is what the constructor without arguments does in step \<open>k\<close>.\<close>

definition uninitialized_value_construct_n_impl :: "(nat \<Rightarrow> 'a outcome) \<Rightarrow> nat \<Rightarrow> 'a cell list \<Rightarrow> nat \<Rightarrow> (nat outcome \<times> 'a cell list) option" where
  "uninitialized_value_construct_n_impl construct count cs dst = Option.bind (emplace_n construct [0..<count] cs dst) (backout dst)"

text \<open>\<^verbatim>\<open>default_construct\<close> of the guard without allocator moves the cursor before it constructs; the one with allocator emplaces.\<close>

fun default_construct_n :: "('k \<Rightarrow> 'a outcome) \<Rightarrow> 'k list \<Rightarrow> 'a cell list \<Rightarrow> nat \<Rightarrow> (unit outcome \<times> nat \<times> 'a cell list) option" where
  "default_construct_n construct [] cs cur = Some (Ret (), cur, cs)"
| "default_construct_n construct (k # ks) cs cur =
     (let place = cur; cur = Suc cur
      in case construct k of Throw e \<Rightarrow> Some (Throw e, cur, cs)
         | Ret v \<Rightarrow> Option.bind (construct_at cs place v) (\<lambda>cs. default_construct_n construct ks cs cur))"

definition uninitialized_default_construct_n_impl :: "bool \<Rightarrow> (nat \<Rightarrow> 'a outcome) \<Rightarrow> nat \<Rightarrow> 'a cell list \<Rightarrow> nat \<Rightarrow> (nat outcome \<times> 'a cell list) option" where
  "uninitialized_default_construct_n_impl with_allocator construct count cs dst =
     Option.bind ((if with_allocator then emplace_n else default_construct_n) construct [0..<count] cs dst) (backout dst)"

text \<open>\<^verbatim>\<open>move_n\<close>: the source is a buffer of its own. \<open>make\<close> is the move constructor; it leaves its source moved from, also when it throws.\<close>

fun emplace_moved_n :: "('a \<Rightarrow> 'b outcome) \<Rightarrow> 'a cell list \<Rightarrow> nat \<Rightarrow> nat \<Rightarrow> 'b cell list \<Rightarrow> nat \<Rightarrow> (unit outcome \<times> nat \<times> 'a cell list \<times> 'b cell list) option" where
  "emplace_moved_n make ss src 0 cs cur = Some (Ret (), cur, ss, cs)"
| "emplace_moved_n make ss src (Suc n) cs cur =
     Option.bind (move_at ss src) (\<lambda>(x, ss).
       case make x of Throw e \<Rightarrow> Some (Throw e, cur, ss, cs)
       | Ret v \<Rightarrow> Option.bind (construct_at cs cur v) (\<lambda>cs. emplace_moved_n make ss (Suc src) n cs (Suc cur)))"

definition uninitialized_move_n_impl ::
  "('a \<Rightarrow> 'b outcome) \<Rightarrow> 'a cell list \<Rightarrow> nat \<Rightarrow> nat \<Rightarrow> 'b cell list \<Rightarrow> nat \<Rightarrow> (nat outcome \<times> 'a cell list \<times> 'b cell list) option" where
  "uninitialized_move_n_impl make ss src count cs dst =
     Option.bind (emplace_moved_n make ss src count cs dst) (\<lambda>(r, cur, ss, cs).
       map_option (\<lambda>(r, cs). (r, ss, cs)) (backout dst (r, cur, cs)))"

section \<open>All or nothing\<close>

lemma guarded_spec:
  "Option.bind (emplace_n make xs (as @ replicate (length xs) Raw @ zs) (length as)) (backout (length as)) =
     (case make_all make xs of
        Ret vs \<Rightarrow> Some (Ret (length as + length xs), as @ map Live vs @ zs)
      | Throw e \<Rightarrow> Some (Throw e, as @ replicate (length xs) Raw @ zs))"
proof (cases "make_all make xs")
  case (Ret vs)
  then show ?thesis using emplace_n_spec [of make xs as zs] by (simp add: backout_def)
next
  case (Throw e)
  then obtain vs n where "length xs = length vs + n"
    "emplace_n make xs (as @ replicate (length xs) Raw @ zs) (length as) =
       Some (Throw e, length as + length vs, as @ map Live vs @ replicate n Raw @ zs)"
    using emplace_n_spec [of make xs as zs] by auto
  then show ?thesis using Throw destroy_n_spec [of "map Live vs" as "replicate n Raw @ zs"] by (auto simp: backout_def replicate_add)
qed

text \<open>Filling and value construction are all or nothing, as is default construction with an allocator.\<close>

lemma constructions_all_or_nothing:
  "uninitialized_fill_n_impl copy v count (as @ replicate count Raw @ zs) (length as) =
     (case make_all copy (replicate count v) of
        Ret vs \<Rightarrow> Some (Ret (length as + count), as @ map Live vs @ zs) | Throw e \<Rightarrow> Some (Throw e, as @ replicate count Raw @ zs))"
  "uninitialized_value_construct_n_impl construct count (as @ replicate count Raw @ zs) (length as) =
     (case make_all construct [0..<count] of
        Ret vs \<Rightarrow> Some (Ret (length as + count), as @ map Live vs @ zs) | Throw e \<Rightarrow> Some (Throw e, as @ replicate count Raw @ zs))"
  "uninitialized_default_construct_n_impl True construct count (as @ replicate count Raw @ zs) (length as) =
     (case make_all construct [0..<count] of
        Ret vs \<Rightarrow> Some (Ret (length as + count), as @ map Live vs @ zs) | Throw e \<Rightarrow> Some (Throw e, as @ replicate count Raw @ zs))"
  using guarded_spec [of copy "replicate count v" as zs, unfolded length_replicate]
    guarded_spec [of construct "[0..<count]" as zs, unfolded length_upt diff_zero]
  by (simp_all add: uninitialized_fill_n_impl_def uninitialized_value_construct_n_impl_def uninitialized_default_construct_n_impl_def)

text \<open>Without an allocator the guard destroys an object that was never constructed, when a default constructor throws.\<close>

lemma default_construct_n_throws:
  assumes "make_all construct ks = Ret vs" "construct k = Throw e"
  shows "default_construct_n construct (ks @ k # ls) (as @ replicate (length ks) Raw @ Raw # zs) (length as) =
    Some (Throw e, length as + Suc (length vs), as @ map Live vs @ Raw # zs)"
  using assms(1)
proof (induction ks arbitrary: as vs)
  case (Cons x ks)
  then obtain v vs' where v: "construct x = Ret v" "make_all construct ks = Ret vs'" "vs = v # vs'" by (auto split: outcome.splits)
  have "construct_at (as @ Raw # replicate (length ks) Raw @ Raw # zs) (length as) v = Some ((as @ [Live v]) @ replicate (length ks) Raw @ Raw # zs)"
    by (simp add: construct_at_append)
  then show ?case using Cons.IH [OF v(2), of "as @ [Live v]"] v by (simp add: Let_def)
qed (use assms(2) in \<open>simp add: Let_def\<close>)

lemma destroy_n_reaches_raw: "destroy_n (as @ map Live vs @ Raw # zs) (length as) (Suc (length vs) + n) = None"
proof (induction vs arbitrary: as)
  case (Cons v vs)
  have "destroy_at (as @ Live v # map Live vs @ Raw # zs) (length as) = Some ((as @ [Raw]) @ map Live vs @ Raw # zs)"
    by (simp add: destroy_at_def)
  then show ?case using Cons.IH [of "as @ [Raw]"] by simp
qed (simp add: destroy_at_def)

lemma default_construct_throw_undefined:
  assumes "k < count" "make_all construct [0..<k] = Ret vs" "construct k = Throw e"
  shows "uninitialized_default_construct_n_impl False construct count (as @ replicate count Raw @ zs) (length as) = None"
proof -
  have vs: "length vs = k" using make_all_length [OF assms(2)] by simp
  have ks: "[0..<count] = [0..<k] @ k # [Suc k..<count]" using assms(1) upt_add_eq_append [of 0 k "count - k"] by (simp add: upt_conv_Cons)
  have cs: "replicate count Raw @ zs = replicate (length [0..<k]) Raw @ Raw # (replicate (count - Suc k) Raw @ zs)"
  proof -
    have "replicate count Raw = replicate k Raw @ replicate (Suc (count - Suc k)) (Raw :: 'a cell)"
      using assms(1) by (simp only: replicate_add [symmetric]) simp
    then show ?thesis by simp
  qed
  show ?thesis unfolding uninitialized_default_construct_n_impl_def cs ks
    using default_construct_n_throws [OF assms(2,3), of "[Suc k..<count]" as] destroy_n_reaches_raw [of as vs _ 0]
    by (simp add: backout_def vs del: destroy_n.simps)
qed

text \<open>Moving is all or nothing for the destination only: the objects that were moved before an exception are lost.\<close>

lemma emplace_moved_n_spec:
  "case make_all make xs of
     Ret vs \<Rightarrow> emplace_moved_n make (bs @ map Live xs @ ys) (length bs) (length xs) (as @ replicate (length xs) Raw @ zs) (length as) =
       Some (Ret (), length as + length xs, bs @ replicate (length xs) Moved @ ys, as @ map Live vs @ zs)
   | Throw e \<Rightarrow> \<exists>vs n. length xs = length vs + Suc n \<and>
       emplace_moved_n make (bs @ map Live xs @ ys) (length bs) (length xs) (as @ replicate (length xs) Raw @ zs) (length as) =
         Some (Throw e, length as + length vs, bs @ replicate (Suc (length vs)) Moved @ map Live (drop (Suc (length vs)) xs) @ ys,
           as @ map Live vs @ replicate (Suc n) Raw @ zs)"
proof (induction xs arbitrary: as bs)
  case (Cons x xs)
  have src: "move_at (bs @ Live x # map Live xs @ ys) (length bs) = Some (x, bs @ Moved # map Live xs @ ys)"
    by (simp add: move_at_def)
  show ?case
  proof (cases "make x")
    case (Throw e)
    then show ?thesis using src by (auto intro!: exI [of _ "[]"])
  next
    case (Ret v)
    note step = Cons.IH [of "bs @ [Moved]" "as @ [Live v]"]
    show ?thesis
    proof (cases "make_all make xs")
      case (Throw e)
      then obtain vs n where "length xs = length vs + Suc n"
        "emplace_moved_n make (bs @ Moved # map Live xs @ ys) (Suc (length bs)) (length xs) (as @ Live v # replicate (length xs) Raw @ zs) (Suc (length as)) =
           Some (Throw e, length as + length (v # vs), bs @ replicate (Suc (length (v # vs))) Moved @ map Live (drop (Suc (length vs)) xs) @ ys,
             as @ map Live (v # vs) @ replicate (Suc n) Raw @ zs)"
        using step by auto
      then show ?thesis using Ret Throw src
        by (auto simp: construct_at_append intro!: exI [of _ "v # vs"] exI [of _ n])
    qed (use Ret step src in \<open>simp add: construct_at_append\<close>)
  qed
qed simp

lemma move_throw_loses:
  fixes make :: "'a \<Rightarrow> 'b outcome"
  assumes "make_all make xs = Throw e"
  shows "\<exists>k < length xs. uninitialized_move_n_impl make (bs @ map Live xs @ ys) (length bs) (length xs) (as @ replicate (length xs) Raw @ zs) (length as) =
    Some (Throw e, bs @ replicate (Suc k) Moved @ map Live (drop (Suc k) xs) @ ys, as @ replicate (length xs) Raw @ zs)"
proof -
  obtain vs n where vs: "length xs = length vs + Suc n"
    "emplace_moved_n make (bs @ map Live xs @ ys) (length bs) (length xs) (as @ replicate (length xs) Raw @ zs) (length as) =
       Some (Throw e, length as + length vs, bs @ replicate (Suc (length vs)) Moved @ map Live (drop (Suc (length vs)) xs) @ ys,
         as @ map Live vs @ replicate (Suc n) Raw @ zs)"
    using emplace_moved_n_spec [where make = make and xs = xs and bs = bs and ys = ys and as = as and zs = zs] assms by auto
  have "replicate (length xs) (Raw :: 'b cell) = replicate (length vs) Raw @ replicate (Suc n) Raw" using vs(1) by (simp only: replicate_add [symmetric])
  then have "backout (length as) (Throw e, length as + length vs, as @ map Live vs @ replicate (Suc n) Raw @ zs) =
      Some (Throw e, as @ replicate (length xs) (Raw :: 'b cell) @ zs)"
    using destroy_n_spec [of "map Live vs" as "replicate (Suc n) Raw @ zs"] by (simp add: backout_def)
  then show ?thesis using vs by (intro exI [of _ "length vs"]) (simp add: uninitialized_move_n_impl_def)
qed

section \<open>Bytes\<close>

text \<open>What the dispatch asks of the element type: its size in bytes and the traits of \<^verbatim>\<open>memory_type_traits_impl.hpp\<close>.\<close>

record element_type =
  t_sizeof :: nat
  t_trivially_copyable :: bool
  t_trivially_default_constructible :: bool
  t_memset_is_safe :: bool
  t_wmemset_is_safe :: bool
  t_memset_zeroying_is_safe :: bool

definition all_bits_are_zeroes :: "8 word list \<Rightarrow> bool" where
  "all_bits_are_zeroes val \<longleftrightarrow> val = replicate (length val) 0"

definition is_memset_safe :: "element_type \<Rightarrow> bool \<Rightarrow> 8 word list \<Rightarrow> bool" where
  "is_memset_safe T is_pointer val \<longleftrightarrow>
     (if \<not> is_pointer then False else if t_memset_is_safe T then True
      else if \<not> t_memset_zeroying_is_safe T then False else all_bits_are_zeroes val)"

definition is_memset_safe_with_allocator :: "element_type \<Rightarrow> bool \<Rightarrow> bool \<Rightarrow> 8 word list \<Rightarrow> bool" where
  "is_memset_safe_with_allocator T is_pointer has_construct val \<longleftrightarrow>
     (if \<not> is_pointer then False else if has_construct then False else if t_memset_is_safe T then True
      else if \<not> t_memset_zeroying_is_safe T then False else all_bits_are_zeroes val)"

definition enable_trivial_construct_with_allocator :: "element_type \<Rightarrow> bool \<Rightarrow> bool \<Rightarrow> bool" where
  "enable_trivial_construct_with_allocator T is_pointer has_construct \<longleftrightarrow> t_trivially_default_constructible T \<and> is_pointer \<and> \<not> has_construct"

definition put_bytes :: "8 word list \<Rightarrow> nat \<Rightarrow> 8 word list \<Rightarrow> 8 word list option" where
  "put_bytes mem pos bs = (if pos + length bs \<le> length mem then Some (take pos mem @ bs @ drop (pos + length bs) mem) else None)"

definition memset :: "8 word list \<Rightarrow> nat \<Rightarrow> 8 word \<Rightarrow> nat \<Rightarrow> 8 word list option" where
  "memset mem pos byte n = put_bytes mem pos (replicate n byte)"

text \<open>\<^verbatim>\<open>uninitialized_fill_n\<close> for objects whose bytes are copied: \<open>val\<close> are the bytes of the value, the lowest first. The result is the position
  that is returned, and the memory.\<close>

fun construct_bytes :: "8 word list \<Rightarrow> nat \<Rightarrow> 8 word list \<Rightarrow> nat \<Rightarrow> (nat \<times> 8 word list) option" where
  "construct_bytes mem pos val 0 = Some (pos, mem)"
| "construct_bytes mem pos val (Suc n) = Option.bind (put_bytes mem pos val) (\<lambda>mem. construct_bytes mem (pos + length val) val n)"

definition uninitialized_fill_n_bytes :: "element_type \<Rightarrow> bool \<Rightarrow> 8 word list \<Rightarrow> nat \<Rightarrow> nat \<Rightarrow> 8 word list \<Rightarrow> (nat \<times> 8 word list) option" where
  "uninitialized_fill_n_bytes T is_pointer mem pos count val =
     (if t_wmemset_is_safe T \<and> is_pointer then map_option (\<lambda>(_, mem). (pos, mem)) (construct_bytes mem pos val count)
      else if is_memset_safe T is_pointer val then map_option (Pair pos) (memset mem pos (hd val) (count * t_sizeof T))
      else construct_bytes mem pos val count)"

lemma construct_bytes_spec:
  "pos + count * length val \<le> length mem \<Longrightarrow>
   construct_bytes mem pos val count = map_option (Pair (pos + count * length val)) (put_bytes mem pos (concat (replicate count val)))"
proof (induction count arbitrary: mem pos)
  case (Suc n)
  let ?mem = "take pos mem @ val @ drop (pos + length val) mem"
  have "put_bytes mem pos val = Some ?mem" "length ?mem = length mem" using Suc.prems by (auto simp: put_bytes_def)
  moreover have "take (pos + length val) ?mem = take pos mem @ val" using Suc.prems by (cases val) (auto simp: min_def)
  moreover have "drop (pos + length val + m) ?mem = drop (pos + length val + m) mem" for m using Suc.prems by (cases val) (auto simp: min_def add.commute)
  moreover have "length (concat (replicate n val)) = n * length val" by (induction n) simp_all
  ultimately show ?case using Suc.IH [of "pos + length val" ?mem] Suc.prems by (simp add: put_bytes_def ac_simps)
qed (simp add: put_bytes_def)

lemma concat_zeroes: "concat (replicate count (replicate n x)) = replicate (count * n) x"
  by (induction count) (simp_all add: replicate_add)

text \<open>The bytes are the same on all three ways, but the position is not: \<^verbatim>\<open>memset\<close> and \<^verbatim>\<open>wmemset\<close> return the start of the range.\<close>

lemma fill_bytes_spec:
  assumes "length val = t_sizeof T" "0 < t_sizeof T" "t_memset_is_safe T \<longrightarrow> t_sizeof T = 1" "pos + count * t_sizeof T \<le> length mem"
  shows "uninitialized_fill_n_bytes T is_pointer mem pos count val =
    map_option (Pair (if is_pointer \<and> t_wmemset_is_safe T \<or> is_memset_safe T is_pointer val then pos else pos + count * t_sizeof T))
      (put_bytes mem pos (concat (replicate count val)))"
proof -
  have c: "construct_bytes mem pos val count = map_option (Pair (pos + count * t_sizeof T)) (put_bytes mem pos (concat (replicate count val)))"
    using construct_bytes_spec [of pos count val mem] assms(1,4) by simp
  have "replicate (count * t_sizeof T) (hd val) = concat (replicate count val)" if "is_memset_safe T is_pointer val"
  proof -
    have "val = replicate (t_sizeof T) (hd val)"
    proof (cases "t_memset_is_safe T")
      case True
      then show ?thesis using assms(1,3) by (cases val) auto
    next
      case False
      then have z: "val = replicate (t_sizeof T) 0" using that assms(1) by (auto simp: is_memset_safe_def all_bits_are_zeroes_def split: if_splits)
      then have "hd val = 0" using assms(2) by simp
      then show ?thesis using z by simp
    qed
    then show ?thesis using concat_zeroes [of count "t_sizeof T" "hd val"] by simp
  qed
  then show ?thesis by (auto simp: uninitialized_fill_n_bytes_def memset_def c option.map_comp comp_def)
qed

end
