(* ===== verification/Spec2Isabelle.thy ===== *)
theory Spec2Isabelle
  imports Hash_Table_Spec Shared_Ptr_Spec Exc_Dispatch_Spec Exc_Objects_Spec Runtime_Init_Spec Bulk_Pool_Spec Owner_Ptr_Spec Vector_Spec
    Nt_String_Spec Str_Search Multi_Lock Lock_Guard Node_Allocator Mpmc_Queue_Spec Algorithms Heap Cond_Var
    Chrono_Spec Optional Thread_Objects Atomics Spin_Locks Events Minifilter
    String_View Raw_Construct
begin

text \<open>
  KTL (\<^verbatim>\<open>src/\<close>) is a template and runtime library for C++ drivers in the Windows kernel: containers,
  smart pointers and algorithms without the standard library, and a runtime that provides
  exceptions, global objects and memory to them. This development models the parts that carry
  its own logic and proves what makes them correct.

  \<^bold>\<open>Parts of the program and how they interact.\<close>
  A driver starts in \<^verbatim>\<open>KtlDriverEntry\<close>, which constructs the global objects, runs the preload
  initializers (among them the pool of exception messages) and calls the driver. The driver's code
  uses the containers and smart pointers. A \<^verbatim>\<open>throw\<close> captures the registers and calls the dispatcher,
  which walks the stack with the unwind tables of the image; each frame's handler decides from
  its own tables whether a catch block accepts the exception, and destroys the objects of the
  frames that are left. Exception objects themselves share reference-counted messages.

  \<^bold>\<open>Theories.\<close>
  \<^item> \<open>Ktl_Prelude\<close>: storage cells, bounds-checked access, exceptions as values.
  \<^item> \<open>Hash_Mix\<close>: \<^verbatim>\<open>include/hash.hpp\<close>, the hash functions on 64-bit words.
  \<^item> \<open>Hash_Table\<close>: \<^verbatim>\<open>include/hash_table_impl.hpp\<close>, the robin-hood table behind \<^verbatim>\<open>unordered_map\<close> and
    \<^verbatim>\<open>unordered_set\<close>, one definition for each member function. \<open>Hash_Table_Inv\<close> states the invariant (info
    bytes, order of the nodes, sizes), \<open>Hash_Table_Probe\<close>, \<open>_Update\<close>, \<open>_Remove\<close>, \<open>_Grow\<close>, \<open>_Insert\<close>, \<open>_Map\<close> and \<open>_Whole\<close>
    follow the operations from probing to whole-table copies, \<open>Hash_Table_Spec\<close> has the abstract
    specification (the locales \<open>keyed_map\<close> and \<open>keyed_map_range\<close>, interpreted on the table) and the refinement
    theorems: the table is a partial function from keys to values.
  \<^item> \<open>Bulk_Pool\<close>, \<open>Bulk_Pool_Spec\<close>: \<^verbatim>\<open>BulkPoolAllocator\<close> of the same file, on a memory of links that the
    owners of the objects share.
  \<^item> \<open>Shared_Ptr\<close>, \<open>Shared_Ptr_Inv\<close>, \<open>Shared_Ptr_Spec\<close>: \<^verbatim>\<open>shared_ptr\<close> and \<^verbatim>\<open>weak_ptr\<close> of
    \<^verbatim>\<open>include/smart_pointer.hpp\<close> as programs over numbered pointer variables and a heap of control blocks. The
    locale \<open>counted_refs\<close> is the interface of a counter, interpreted for strong and for weak references.
  \<^item> \<open>Owner_Ptr\<close>, \<open>Owner_Ptr_Spec\<close>: \<^verbatim>\<open>unique_ptr\<close>, \<^verbatim>\<open>intrusive_ptr\<close> and the comparisons of the same file. Both
    pointers interpret the locale \<open>conserving\<close>: what entered a program is what is held and what left.
  \<^item> \<open>Raw_Memory\<close>: the algorithms on uninitialised memory (\<^verbatim>\<open>include/memory.hpp\<close>), with the guard that backs out
    when a constructor throws, and the copying and shifting algorithms (\<^verbatim>\<open>include/algorithm.hpp\<close>).
    \<open>Raw_Construct\<close>: filling, default and value construction and moves with constructors that throw, and \<^verbatim>\<open>memset\<close> on bytes.
  \<^item> \<open>Algorithms\<close>: the other algorithms of \<^verbatim>\<open>include/algorithm.hpp\<close> on lists and positions: search, comparison, copies,
    reversal and rotation for the iterator categories.
  \<^item> \<open>Vector\<close>, \<open>Vector_Spec\<close>: \<^verbatim>\<open>include/vector.hpp\<close> on buffers of storage cells. \<open>vec xs k\<close> is the form every vector has:
    the objects of \<open>xs\<close>, then raw memory; the operations are shown to refine those on lists.
  \<^item> \<open>Nt_String\<close>, \<open>Nt_String_Spec\<close>: \<^verbatim>\<open>include/string.hpp\<close>, strings over the kernel's native strings with 16-bit lengths and a
    small buffer. \<open>rep\<close> relates a string to its characters; where lengths wrap around or pointers dangle is shown
    after the refinement theorem.
  \<^item> \<open>Str_Search\<close>: comparison and search of characters (\<^verbatim>\<open>char_traits\<close>, \<^verbatim>\<open>string_algorithm_impl.hpp\<close>, \<^verbatim>\<open>string_view.hpp\<close>);
    \<open>String_View\<close>: views in the kernel's format, which refine the operations on characters while their lengths fit in 16 bits.
  \<^item> \<open>Multi_Lock\<close>: \<^verbatim>\<open>ktl::lock\<close> and \<^verbatim>\<open>scoped_lock\<close> of \<^verbatim>\<open>include/mutex.hpp\<close>, as the interleaving of any number of threads;
    \<open>Lock_Guard\<close>: \<^verbatim>\<open>unique_lock\<close> and \<^verbatim>\<open>shared_lock\<close>, another interpretation of \<open>conserving\<close>.
  \<^item> \<open>Tagged_Ptr\<close>, \<open>Node_Allocator\<close>, \<open>Mpmc_Queue\<close>, \<open>Mpmc_Queue_Spec\<close>: the lock-free queue of \<^verbatim>\<open>modules/lockfree\<close>, its pointers with
    tags and its free list of nodes, as step relations whose steps are single atomic accesses of any number of
    threads. The queue is shown to be first in, first out when nodes are not reused; that reuse breaks it is shown by two executions.
  \<^item> \<open>Cond_Var\<close>: \<^verbatim>\<open>include/condition_variable.hpp\<close> and \<^verbatim>\<open>src/condition_variable.cpp\<close>, waiting and notifying threads as a step relation over
    the counter and the kernel's event; what is guaranteed while no thread begins another wait, and the wake-ups that are lost.
  \<^item> \<open>Ratio_Arith\<close>, \<open>Chrono\<close>, \<open>Chrono_Spec\<close>: \<^verbatim>\<open>include/ratio.hpp\<close>, \<^verbatim>\<open>include/chrono.hpp\<close> and the timed waits of \<^verbatim>\<open>include/thread.hpp\<close>. Ratios and
    durations are compared with rational numbers; overflow of the 64-bit counts is part of the model.
  \<^item> \<open>Thread_Objects\<close>: the thread classes of \<^verbatim>\<open>include/thread.hpp\<close> and \<^verbatim>\<open>src/thread.cpp\<close>, a further interpretation of \<open>conserving\<close>.
  \<^item> \<open>Atomics\<close>: \<^verbatim>\<open>include/atomic.hpp\<close>, interlocked operations on words, the table of memory orders and the lock for large types.
  \<^item> \<open>Spin_Locks\<close>: interrupt levels (\<^verbatim>\<open>runtime/src/irql.cpp\<close>) and spin locks, over the kernel's functions as a parameter; what becomes of the
    level when locks are released in reverse order and when \<^verbatim>\<open>scoped_lock\<close> holds several. \<open>Events\<close>: the timed waits of \<^verbatim>\<open>event_base\<close>, alone and with a predicate.
  \<^item> \<open>Optional\<close>: \<^verbatim>\<open>include/optional.hpp\<close>. The locale \<open>optional_like\<close> is the contract of its two implementations, in which \<^verbatim>\<open>swap\<close> is proved once.
  \<^item> \<open>Heap\<close>: \<^verbatim>\<open>runtime/src/heap.cpp\<close> and \<^verbatim>\<open>src/new_delete.cpp\<close>, requests to the pool of the kernel and the loop of \<^verbatim>\<open>operator new\<close>.
  \<^item> \<open>Exc_Memory\<close>, \<open>Exc_Unwind\<close>, \<open>Exc_Catch\<close>, \<open>Exc_Probe\<close>, \<open>Frame_Handler4\<close>, \<open>Frame_Handler3\<close>, \<open>Exc_Dispatch\<close>: the
    exception runtime of \<^verbatim>\<open>runtime/src/exc_engine\<close>, in the order memory and tables, stack walking
    (\<^verbatim>\<open>unwind_handler.cpp\<close>), catching (\<^verbatim>\<open>catch.cpp\<close>), the two frame handlers (\<^verbatim>\<open>frame_handler4.cpp\<close>,
    \<^verbatim>\<open>frame_handler3.cpp\<close>) and the dispatcher. The theories ending in \<open>_Spec\<close> hold their properties: the
    compressed tables are decoded as they were encoded, the unwind codes restore the caller's
    registers, the right catch block is chosen and exactly the right objects are destroyed, the dispatcher
    finds the first frame outwards that accepts the exception, and
    every exception object is destroyed once over all interleavings of throws, rethrows and
    unwound catch blocks (the step relation \<open>eh_step\<close>).
  \<^item> \<open>Exc_Objects\<close>, \<open>Exc_Objects_Spec\<close>: \<^verbatim>\<open>runtime/src/exception.cpp\<close>, the slot allocator and the shared
    messages. \<open>exc_reach\<close> are the states of programs over exception objects.
  \<^item> \<open>Runtime_Init\<close>, \<open>Runtime_Init_Spec\<close>: \<^verbatim>\<open>basic_runtime.cpp\<close>, \<^verbatim>\<open>object_management.cpp\<close> and
    \<^verbatim>\<open>preload_initializer.cpp\<close>: the life of a driver as the sequence of its calls. \<open>Minifilter\<close>: the registration of
    filters (\<^verbatim>\<open>minifilter.cpp\<close>) and what it does to the unload routine.

  \<^bold>\<open>Conventions.\<close>
  Undefined behaviour of C++ (an access outside of an allocation, the use of a freed block, the call
  of a null pointer) is the value \<open>None\<close> of an option; a C++ exception is \<open>Throw\<close>, a bug check
  \<open>Inl (Terminate _)\<close>. A theorem that an operation returns \<open>Some\<close> or \<open>Inr\<close> therefore says that none of
  these happens. Machine words are words or have their reduction written out. Code outside of
  the repository is a parameter: the allocator of a table decides which requests it grants, the
  kernel's pool returns an address or 0, destructors, copy constructors and foreign exception handlers
  are functions of the state. What is assumed of them stands in the statements.

  \<^bold>\<open>Bounds and loops.\<close>
  Loops are recursive functions with a termination proof or structural recursion. The retry loop of
  an insertion has a fuel of \<open>max_rounds = 6\<close>, shown to be enough (the theorems about
  insertion prove that it returns), and \<open>reserve_size\<close> doubles at most 64 times, the width of
  \<^verbatim>\<open>size_t\<close>. Loops that may run forever are partial functions with \<open>None\<close> for not returning, among them the walk of the
  dispatcher, which is shown to return when a frame of the stack accepts the exception (\<open>dispatch_loop_finds\<close>), \<open>reset\<close> of the bulk pool, which is
  shown to return, and the loop of \<^verbatim>\<open>operator new\<close>, for which \<open>operator_new_outcome\<close> says when it returns.

  \<^bold>\<open>Not modelled.\<close>
  Threads other than in the two races shown (of \<^verbatim>\<open>weak_ptr::lock\<close> and of the pool of messages), in
  \<open>Multi_Lock\<close>, \<open>Cond_Var\<close>, \<open>Spin_Locks\<close>, the lock of \<open>Atomics\<close>, the lock-free queue and \<open>eh_step\<close>, and memory that is not sequentially
  consistent; the node variant of the hash table, whose node storage is \<open>Bulk_Pool\<close>; the assembly of the exception
  runtime (its order of calls is that of \<open>eh_step\<close>); mutexes, semaphores, allocators and exception classes, which only forward
  to the kernel, to the heap or to a base class; \<^verbatim>\<open>tuple\<close>, \<^verbatim>\<open>array\<close> and \<^verbatim>\<open>compressed_pair\<close>; coroutine
  support; type traits and other compile-time code, which has no run-time behaviour; the bindings to the
  kernel, and the vendored formatting library under \<^verbatim>\<open>modules/fmt\<close>.
\<close>

end
